(* ===== verification/NcclPrelude.thy ===== *)
theory NcclPrelude
  imports Complex_Main "HOL-Library.Word" "HOL-Library.Signed_Division"
begin

unbundle bit_operations_syntax

text \<open>
  Prelude of the nccl-tests development: the machine integer types of the code, the
  collections of rewrite rules shared by the component theories, and the arithmetic
  lemmas (odd multipliers modulo powers of two, triangular numbers modulo powers of two,
  block sums) that several components rest on.
\<close>

section \<open>Machine integers\<close>

type_synonym u8 = "8 word"
type_synonym u32 = "32 word"
type_synonym u64 = "64 word"

text \<open>A C \<open>int\<close> is an \<^typ>\<open>int\<close>, read as two's complement where the code converts it.\<close>

abbreviation u32_of_int :: "int \<Rightarrow> u32" where
  "u32_of_int \<equiv> word_of_int"

abbreviation u64_of_int :: "int \<Rightarrow> u64" where
  "u64_of_int \<equiv> word_of_int"

named_theorems unat_arith_simps \<open>reading word arithmetic through unat\<close>

lemmas [unat_arith_simps] = unat_word_ariths unat_div unat_mod

section \<open>Truncating division on non-negative ints\<close>

lemma sdiv_nonneg [simp]: "0 \<le> a \<Longrightarrow> 0 < b \<Longrightarrow> a sdiv b = a div (b::int)"
  by (simp add: signed_divide_int_def sgn_if)

lemma smod_nonneg [simp]: "0 \<le> a \<Longrightarrow> 0 < b \<Longrightarrow> a smod b = a mod (b::int)"
  by (simp add: signed_modulo_int_def signed_divide_int_def sgn_if minus_div_mult_eq_mod)

section \<open>Reading words as natural numbers\<close>

lemma unat_word_of_int_small:
  "0 \<le> i \<Longrightarrow> i < 2 ^ LENGTH('a) \<Longrightarrow> unat (word_of_int i :: 'a::len word) = nat i"
  by (simp add: unsigned_of_int take_bit_int_eq_self)

lemma unat_of_nat_small: "n < 2 ^ LENGTH('a) \<Longrightarrow> unat (of_nat n :: 'a::len word) = n"
  by (simp add: unsigned_of_nat take_bit_nat_eq_self)

lemma unat_add_small:
  "unat a + unat b < 2 ^ LENGTH('a) \<Longrightarrow> unat (a + b :: 'a::len word) = unat a + unat b"
  by (rule unat_add_lem [THEN iffD1])

lemma unat_mult_small:
  "unat a * unat b < 2 ^ LENGTH('a) \<Longrightarrow> unat (a * b :: 'a::len word) = unat a * unat b"
  by (rule unat_mult_lem [THEN iffD1])

lemma unat_sub_small:
  "unat b \<le> unat a \<Longrightarrow> unat (a - b :: 'a::len word) = unat a - unat b"
  by (simp add: unat_sub word_le_nat_alt)

lemma unat_ucast_small:
  "unat w < 2 ^ LENGTH('b) \<Longrightarrow> unat (ucast w :: 'b::len word) = unat (w :: 'a::len word)"
  by (simp add: unsigned_ucast_eq take_bit_nat_eq_self)

lemma unat_ucast_up:
  "LENGTH('a) \<le> LENGTH('b) \<Longrightarrow> unat (ucast w :: 'b::len word) = unat (w :: 'a::len word)"
  by (rule unat_ucast_small) (rule order_less_le_trans [OF unsigned_less], simp)

lemma unat_pow2: "k < LENGTH('a) \<Longrightarrow> unat (2 ^ k :: 'a::len word) = 2 ^ k"
proof -
  assume k: "k < LENGTH('a)"
  have "unat (of_nat (2 ^ k) :: 'a word) = 2 ^ k"
    using k by (simp only: unsigned_of_nat) (simp add: take_bit_nat_eq_self)
  then show ?thesis by simp
qed

lemma unat_mask: "k < LENGTH('a) \<Longrightarrow> unat (mask k :: 'a::len word) = 2 ^ k - 1"
proof -
  assume k: "k < LENGTH('a)"
  then have "unat (2 ^ k - 1 :: 'a word) = unat (2 ^ k :: 'a word) - unat (1 :: 'a word)"
    by (intro unat_sub_small) (simp add: unat_pow2)
  with k show ?thesis by (simp add: mask_eq_exp_minus_1 unat_pow2)
qed

lemma unat_mask_plus_1: "k < LENGTH('a) \<Longrightarrow> unat (mask k + 1 :: 'a::len word) = 2 ^ k"
  by (simp add: mask_eq_exp_minus_1 unat_pow2)

lemma word_le_mask: "k < LENGTH('a) \<Longrightarrow> (w :: 'a::len word) \<le> mask k \<longleftrightarrow> unat w < 2 ^ k"
proof -
  assume k: "k < LENGTH('a)"
  have "(0::nat) < 2 ^ k" by simp
  then have "unat w \<le> 2 ^ k - 1 \<longleftrightarrow> unat w < 2 ^ k" by arith
  with k show ?thesis by (simp only: word_le_nat_alt unat_mask)
qed

lemma sint_unat_small:
  "unat w < 2 ^ (LENGTH('a) - 1) \<Longrightarrow> sint (w :: 'a::len word) = int (unat w)"
proof -
  assume "unat w < 2 ^ (LENGTH('a) - 1)"
  then have "int (unat w) < int (2 ^ (LENGTH('a) - 1))" by (simp only: of_nat_less_iff)
  then have "uint w < 2 ^ (LENGTH('a) - 1)" by (simp only: uint_nat of_nat_power of_nat_numeral)
  then have "signed_take_bit (LENGTH('a) - 1) (uint w) = uint w"
    by (intro signed_take_bit_int_eq_self) (simp_all add: order_trans [of _ 0])
  then show ?thesis by (simp add: sint_uint)
qed

lemma unat_and_mask: "unat (w AND mask k :: 'a::len word) = unat w mod 2 ^ k"
  by (simp only: take_bit_eq_mask [symmetric] unsigned_take_bit_eq take_bit_nat_def)

lemma unat_drop_bit: "unat (drop_bit k w :: 'a::len word) = unat w div 2 ^ k"
  by (simp only: unsigned_drop_bit_eq drop_bit_nat_def) (simp add: take_bit_nat_eq_self)

lemma bit_iff_odd_unat: "bit w i \<longleftrightarrow> odd (unat (w :: 'a::len word) div 2 ^ i)"
  by (simp only: bit_iff_odd [symmetric]) (simp add: bit_simps)

lemma odd_unat_or_1: "odd (unat (w OR 1 :: 'a::len word))"
proof -
  have "bit (w OR 1) 0" by (simp add: bit_simps)
  then show ?thesis by (simp add: bit_iff_odd_unat)
qed

lemma drop_bit_mask_word:
  "k \<le> LENGTH('a) \<Longrightarrow> drop_bit c (mask k :: 'a::len word) = mask (k - c)"
  by (rule bit_word_eqI) (auto simp: bit_simps)

lemma div_block: "r < b \<Longrightarrow> (q * b + r) div b = (q::nat)"
  by simp

lemma mod_block: "r < b \<Longrightarrow> (q * b + r) mod b = (r::nat)"
  by simp

lemma mod_power_div_2: "x mod 2 ^ Suc k div 2 = x div 2 mod (2::nat) ^ k"
  by (simp add: mod_mult2_eq)

section \<open>Arithmetic modulo powers of two\<close>

lemma odd_mult_mod_cancel:
  fixes a x y :: nat
  assumes "odd a" and "(a * x + b) mod 2 ^ k = (a * y + b) mod 2 ^ k"
    and "x < 2 ^ k" and "y < 2 ^ k"
  shows "x = y"
proof -
  have "int ((a * x + b) mod 2 ^ k) = int ((a * y + b) mod 2 ^ k)"
    using assms(2) by (rule arg_cong)
  then have "(int a * int x + int b) mod 2 ^ k = (int a * int y + int b) mod 2 ^ k"
    by (simp add: zmod_int)
  then have "(2::int) ^ k dvd (int a * int x + int b) - (int a * int y + int b)"
    by (simp add: mod_eq_dvd_iff)
  then have "(2::int) ^ k dvd int a * (int x - int y)"
    by (simp add: algebra_simps)
  moreover have "coprime ((2::int) ^ k) (int a)"
    using assms(1) by (simp add: coprime_commute)
  ultimately have "(2::int) ^ k dvd int x - int y"
    by (simp add: coprime_dvd_mult_right_iff)
  then have "int x mod 2 ^ k = int y mod 2 ^ k"
    by (simp add: mod_eq_dvd_iff)
  then have "int (x mod 2 ^ k) = int (y mod 2 ^ k)"
    by (simp only: zmod_int of_nat_power of_nat_numeral)
  with assms(3,4) show ?thesis by simp
qed

text \<open>The triangular numbers run through every residue modulo a power of two.\<close>

lemma triangular_mod_inj:
  fixes x y :: nat
  assumes "(x * x + x) div 2 mod 2 ^ k = (y * y + y) div 2 mod 2 ^ k"
    and "x < 2 ^ k" and "y < 2 ^ k"
  shows "x = y"
proof -
  let ?x = "int x" and ?y = "int y"
  have ev: "even (x * x + x)" "even (y * y + y)" by simp_all
  have "((x * x + x) div 2 mod 2 ^ k) * 2 = ((y * y + y) div 2 mod 2 ^ k) * 2"
    using assms(1) by simp
  then have "((x * x + x) div 2 * 2) mod (2 ^ k * 2) = ((y * y + y) div 2 * 2) mod (2 ^ k * 2)"
    by (simp only: mult_mod_left)
  then have "(x * x + x) mod 2 ^ Suc k = (y * y + y) mod 2 ^ Suc k"
    using ev by (simp only: dvd_div_mult_self power_Suc2)
  then have "int ((x * x + x) mod 2 ^ Suc k) = int ((y * y + y) mod 2 ^ Suc k)"
    by (rule arg_cong)
  then have "(?x * ?x + ?x) mod 2 ^ Suc k = (?y * ?y + ?y) mod 2 ^ Suc k"
    by (simp only: zmod_int of_nat_add of_nat_mult of_nat_power of_nat_numeral)
  then have "(2::int) ^ Suc k dvd (?x * ?x + ?x) - (?y * ?y + ?y)"
    by (simp add: mod_eq_dvd_iff)
  then have dvd: "(2::int) ^ Suc k dvd (?x - ?y) * (?x + ?y + 1)"
    by (simp add: algebra_simps)
  have b: "?x < 2 ^ k" "?y < 2 ^ k" "0 \<le> ?x" "0 \<le> ?y" using assms(2,3)
    by simp_all
  show ?thesis
  proof (cases "odd (?x + ?y + 1)")
    case True
    then have "coprime ((2::int) ^ Suc k) (?x + ?y + 1)"
      by (simp add: coprime_commute)
    with dvd have "(2::int) ^ Suc k dvd ?x - ?y"
      by (metis coprime_dvd_mult_left_iff)
    moreover have "\<bar>?x - ?y\<bar> < 2 ^ Suc k" using b unfolding abs_less_iff power_Suc by linarith
    ultimately have "?x - ?y = 0"
      using zdvd_not_zless by (metis abs_of_pos abs_dvd_iff dvd_abs_iff linorder_neqE_linordered_idom zero_less_abs_iff)
    then show ?thesis by simp
  next
    case False
    then have "odd (?x - ?y)" by presburger
    then have "coprime ((2::int) ^ Suc k) (?x - ?y)"
      by (simp add: coprime_commute)
    with dvd have "(2::int) ^ Suc k dvd ?x + ?y + 1"
      by (metis coprime_dvd_mult_right_iff)
    moreover have "0 < ?x + ?y + 1" "?x + ?y + 1 < 2 ^ Suc k"
      using b unfolding power_Suc by linarith+
    ultimately show ?thesis using zdvd_not_zless by blast
  qed
qed

end
