(* ===== verification/VerifBits.thy ===== *)
theory VerifBits
  imports NcclPrelude
begin

text \<open>
  The bit mixing of verifiable/verifiable.cu: \<open>mixBits\<close> and \<open>hashOf\<close>, which turn a seed and
  an element index into pseudo random bits, the identity \<open>inhibit\<close> that hides a value from
  the optimiser, the high halves of products and the leading zero counts. A union of one
  64-bit and two 32-bit integers is read with its halves in little endian order, as on the
  machines CUDA runs on.
\<close>

section \<open>The halves of a 64-bit value\<close>

definition lo32 :: "u64 \<Rightarrow> u32" where
  "lo32 x = ucast x"

definition hi32 :: "u64 \<Rightarrow> u32" where
  "hi32 x = ucast (drop_bit 32 x)"

definition join32 :: "u32 \<Rightarrow> u32 \<Rightarrow> u64" where
  "join32 lo hi = ucast lo OR push_bit 32 (ucast hi)"

lemma lo32_join32 [simp]: "lo32 (join32 l h) = l"
  by (rule bit_word_eqI) (auto simp: lo32_def join32_def bit_simps)

lemma hi32_join32 [simp]: "hi32 (join32 l h) = h"
  by (rule bit_word_eqI) (auto simp: hi32_def join32_def bit_simps dest: bit_imp_le_length)

lemma join32_lo_hi [simp]: "join32 (lo32 x) (hi32 x) = x"
  by (rule bit_word_eqI) (auto simp: lo32_def hi32_def join32_def bit_simps)

lemma join32_eq_iff [simp]: "join32 l h = join32 l' h' \<longleftrightarrow> l = l' \<and> h = h'"
  by (metis lo32_join32 hi32_join32)

lemma u64_halves_eqI: "lo32 x = lo32 y \<Longrightarrow> hi32 x = hi32 y \<Longrightarrow> x = y"
  by (metis join32_lo_hi)

section \<open>Mixing and hashing\<close>

text \<open>The union is \<open>u32[0]\<close> (low half) and \<open>u32[1]\<close> (high half) of \<open>u64\<close>.\<close>

definition mixBits :: "u64 \<Rightarrow> u64" where
  "mixBits x =
     (let h = hi32 x + 1;
          l = lo32 x XOR h;
          u = join32 l h * 0x9e3779b97f4a7c13;
          h' = hi32 u;
          l' = lo32 u XOR (push_bit 16 h' XOR drop_bit 16 h')
      in join32 l' h')"

definition hashOf :: "u64 \<Rightarrow> u64 \<Rightarrow> u64" where
  "hashOf a b =
     (let a = a + push_bit 32 1;
          a = a + b;
          a = a XOR drop_bit 32 a;
          a = a * 0x9e3779b97f4a7c13;
          a = a + (drop_bit 16 b XOR push_bit 48 b);
          a = a XOR drop_bit 32 a
      in a * 0xc4ceb9fe1a85ec53)"

text \<open>
  Each step of the two functions is invertible: the odd constants have inverses modulo
  \<open>2 ^ 64\<close>, and folding the high half onto the low half is its own inverse.
\<close>

lemma mult_left_inverse_inj:
  fixes c c' x y :: "'a::len word"
  assumes "c' * c = 1" and "x * c = y * c"
  shows "x = y"
proof -
  have "x * (c * c') = y * (c * c')" using assms(2) by (simp add: mult.assoc [symmetric])
  then show ?thesis using assms(1) by (simp add: mult.commute)
qed

lemma mix_multiplier_inj: "x * (0x9e3779b97f4a7c13 :: u64) = y * 0x9e3779b97f4a7c13 \<longleftrightarrow> x = y"
  using mult_left_inverse_inj [of "0x3fbd78d0fbf0ae1b" "0x9e3779b97f4a7c13 :: u64" x y] by auto

lemma hash_multiplier_inj: "x * (0xc4ceb9fe1a85ec53 :: u64) = y * 0xc4ceb9fe1a85ec53 \<longleftrightarrow> x = y"
  using mult_left_inverse_inj [of "0x9cb4b2f8129337db" "0xc4ceb9fe1a85ec53 :: u64" x y] by auto

lemma xorshift32_involutive: "(x XOR drop_bit 32 x) XOR drop_bit 32 (x XOR drop_bit 32 x) = (x :: u64)"
  by (rule bit_word_eqI) (auto simp: bit_simps dest: bit_imp_le_length)

lemma xorshift32_inj: "x XOR drop_bit 32 x = y XOR drop_bit 32 y \<longleftrightarrow> x = (y :: u64)"
  by (metis xorshift32_involutive)

lemma xor_right_cancel [simp]: "a XOR c = b XOR c \<longleftrightarrow> a = (b :: 'a::len word)"
  by (metis xor.assoc xor.right_neutral xor_self_eq)

lemma mixBits_eq_iff [simp]: "mixBits x = mixBits y \<longleftrightarrow> x = y"
proof
  assume eq: "mixBits x = mixBits y"
  have mix: "join32 (lo32 z XOR (hi32 z + 1)) (hi32 z + 1) * 0x9e3779b97f4a7c13 =
      join32 (lo32 (mixBits z) XOR (push_bit 16 (hi32 (mixBits z)) XOR drop_bit 16 (hi32 (mixBits z))))
        (hi32 (mixBits z))" for z
    by (rule u64_halves_eqI) (simp_all add: mixBits_def Let_def xor.assoc)
  have "join32 (lo32 x XOR (hi32 x + 1)) (hi32 x + 1) * 0x9e3779b97f4a7c13 =
      join32 (lo32 y XOR (hi32 y + 1)) (hi32 y + 1) * 0x9e3779b97f4a7c13"
    by (simp only: mix eq)
  then have l: "lo32 x XOR (hi32 x + 1) = lo32 y XOR (hi32 y + 1)" and h: "hi32 x = hi32 y"
    unfolding mix_multiplier_inj join32_eq_iff by auto
  from l have "lo32 x = lo32 y" unfolding h by simp
  with h show "x = y" by (rule u64_halves_eqI [rotated])
qed simp

lemma hashOf_eq_iff [simp]: "hashOf a b = hashOf a' b \<longleftrightarrow> a = a'"
  by (simp add: hashOf_def Let_def hash_multiplier_inj mix_multiplier_inj xorshift32_inj)

section \<open>Hiding a value from the optimiser\<close>

text \<open>
  The value of type \<open>T\<close> occupies the low bytes of the union; the multiplications are on the
  whole \<open>u64\<close>.
\<close>

definition inhibit :: "'a::len word \<Rightarrow> 'a word" where
  "inhibit x = ucast ((ucast x * 0x0000000100000001) * 0xffffffff00000001 :: u64)"

lemma inhibit_multipliers: "(0x0000000100000001 * 0xffffffff00000001 :: u64) = 1"
  by simp

lemma inhibit_id: "LENGTH('a) \<le> 64 \<Longrightarrow> inhibit (x :: 'a::len word) = x"
  unfolding inhibit_def mult.assoc inhibit_multipliers
  by (simp add: word_unat_eq_iff unat_ucast_small unat_ucast_up)

section \<open>High halves of products\<close>

definition umul32hi :: "u32 \<Rightarrow> u32 \<Rightarrow> u64" where
  "umul32hi a b = drop_bit 32 (ucast a * ucast b)"

definition umul64hi :: "u64 \<Rightarrow> u64 \<Rightarrow> u64" where
  "umul64hi a b = ucast (drop_bit 64 (ucast a * ucast b :: 128 word))"

lemma unat_umul32hi: "unat (umul32hi a b) = unat a * unat b div 2 ^ 32"
proof -
  have "unat a * unat b < 2 ^ 32 * 2 ^ 32"
    by (rule mult_strict_mono) (use unsigned_less [of a] unsigned_less [of b] in simp_all)
  moreover have "unat (ucast a :: u64) = unat a" "unat (ucast b :: u64) = unat b"
    by (simp_all add: unat_ucast_up)
  ultimately show ?thesis
    by (simp add: umul32hi_def unat_drop_bit unat_mult_small)
qed

lemma unat_umul64hi: "unat (umul64hi a b) = unat a * unat b div 2 ^ 64"
proof -
  have p: "unat a * unat b < 2 ^ 64 * 2 ^ 64"
    by (rule mult_strict_mono) (use unsigned_less [of a] unsigned_less [of b] in simp_all)
  then have "unat a * unat b div 2 ^ 64 < 2 ^ 64"
    by (simp add: less_mult_imp_div_less)
  moreover have "unat (ucast a :: 128 word) = unat a" "unat (ucast b :: 128 word) = unat b"
    by (simp_all add: unat_ucast_up)
  ultimately show ?thesis using p
    by (simp add: umul64hi_def unat_ucast_small unat_drop_bit unat_mult_small)
qed

lemma high_product_less: "a < 2 ^ k \<Longrightarrow> 0 < b \<Longrightarrow> a * b div 2 ^ k < (b::nat)"
  by (rule less_mult_imp_div_less) (simp add: mult.commute)

lemma umul32hi_less: "0 < unat b \<Longrightarrow> unat (umul32hi a b) < unat b"
  using high_product_less [of "unat a" 32 "unat b"] unsigned_less [of a]
  by (simp add: unat_umul32hi)

lemma umul64hi_less: "0 < unat b \<Longrightarrow> unat (umul64hi a b) < unat b"
  using high_product_less [of "unat a" 64 "unat b"] unsigned_less [of a]
  by (simp add: unat_umul64hi)

section \<open>Leading zeros\<close>

fun clz_from :: "nat \<Rightarrow> 'a::len word \<Rightarrow> nat" where
  "clz_from 0 x = 0"
| "clz_from (Suc i) x = (if bit x i then 0 else Suc (clz_from i x))"

definition clz32 :: "u32 \<Rightarrow> nat" where
  "clz32 x = clz_from 32 x"

definition clz64 :: "u64 \<Rightarrow> nat" where
  "clz64 x = clz_from 64 x"

lemma clz_from_le: "clz_from i x \<le> i"
  by (induction i) auto

lemma clz_from_bounds:
  assumes "unat x < 2 ^ i" and "x \<noteq> (0 :: 'a::len word)"
  shows "clz_from i x < i \<and> 2 ^ (i - 1 - clz_from i x) \<le> unat x \<and> unat x < 2 ^ (i - clz_from i x)"
  using assms
proof (induction i)
  case 0
  then show ?case by (simp add: unat_eq_0)
next
  case (Suc i)
  show ?case
  proof (cases "bit x i")
    case True
    then have "odd (unat x div 2 ^ i)"
      by (simp only: bit_iff_odd_unat simp_thms)
    then have "2 ^ i \<le> unat x"
      by (metis div_less even_zero not_le)
    with True Suc.prems show ?thesis by simp
  next
    case False
    then have "even (unat x div 2 ^ i)"
      by (simp only: bit_iff_odd_unat simp_thms)
    moreover have "unat x div 2 ^ i < 2"
      using Suc.prems(1) by (simp add: less_mult_imp_div_less)
    ultimately have "unat x div 2 ^ i = 0" by (auto simp: less_2_cases_iff)
    then have "unat x < 2 ^ i" by (simp add: div_eq_0_iff)
    with False Suc show ?thesis by auto
  qed
qed

lemma clz32_bounds:
  "x \<noteq> 0 \<Longrightarrow> clz32 x < 32 \<and> 2 ^ (31 - clz32 x) \<le> unat x \<and> unat x < 2 ^ (32 - clz32 x)"
  using clz_from_bounds [of x 32] unsigned_less [of x] by (simp add: clz32_def)

lemma clz64_bounds:
  "x \<noteq> 0 \<Longrightarrow> clz64 x < 64 \<and> 2 ^ (63 - clz64 x) \<le> unat x \<and> unat x < 2 ^ (64 - clz64 x)"
  using clz_from_bounds [of x 64] unsigned_less [of x] by (simp add: clz64_def)

end
