(* ===== verification/VerifShuffle.thy ===== *)
theory VerifShuffle
  imports VerifBits
begin

text \<open>
  The rank permutation \<open>shuffleRank\<close> of verifiable/verifiable.cu. The data generators use it to
  make a random but exact number of ranks behave in a particular way, which only works when
  it permutes the ranks; this theory proves that it does, for every rank count and every
  state of the generator.
\<close>

section \<open>The code\<close>

text \<open>
  One round on the bottom \<open>n2 + 1\<close> ranks: \<open>x * a + b\<close> for an odd \<open>a\<close>, then the triangular
  number, both in 32-bit arithmetic and masked by \<open>n2\<close>.
\<close>

definition shuffle_bottom :: "u32 \<Rightarrow> u32 \<Rightarrow> u32 \<Rightarrow> u32 \<Rightarrow> u32" where
  "shuffle_bottom n2 a b r =
     (let r = (r * (a OR 1) + b) AND n2
      in ((r * r + r) div 2) AND n2)"

text \<open>The first round also rotates the top ranks to the bottom.\<close>

definition shuffle_rotate :: "u32 \<Rightarrow> u32 \<Rightarrow> u32 \<Rightarrow> u32 \<Rightarrow> u32 \<Rightarrow> u32" where
  "shuffle_rotate n2 rank_n a b r =
     (if r \<le> n2 then shuffle_bottom n2 a b r + (rank_n - (n2 + 1)) else r - (n2 + 1))"

definition shuffle_n2 :: "int \<Rightarrow> u32" where
  "shuffle_n2 rank_n = drop_bit (clz32 (u32_of_int rank_n)) (drop_bit 1 (NOT 0))"

definition shuffleRank :: "int \<Rightarrow> int \<Rightarrow> u64 \<Rightarrow> int \<times> u64" where
  "shuffleRank rank_n rank_me rng =
     (let a = lo32 rng;
          b = lo32 (drop_bit 32 rng);
          rng' = mixBits rng;
          r = u32_of_int rank_me;
          n2 = shuffle_n2 rank_n;
          r = shuffle_rotate n2 (u32_of_int rank_n) a b r;
          r = (if r \<le> n2 then shuffle_bottom n2 b a r else r)
      in (sint r, rng'))"

section \<open>One round permutes the bottom ranks\<close>

lemma shuffle_n2_mask:
  assumes "0 < n" and "n < 2 ^ 31"
  obtains k where "shuffle_n2 n = mask k" and "k < 31" and "2 ^ k \<le> nat n" and "nat n < 2 ^ Suc k"
proof -
  let ?w = "u32_of_int n" and ?c = "clz32 (u32_of_int n)"
  have un: "unat ?w = nat n" using assms by (simp add: unat_word_of_int_small)
  then have "?w \<noteq> 0" using assms(1) by (metis unat_0 zero_less_nat_eq less_irrefl)
  from clz32_bounds [OF this] un
  have c: "?c < 32" and lo: "2 ^ (31 - ?c) \<le> nat n" and hi: "nat n < 2 ^ (32 - ?c)" by auto
  have "nat n < 2 ^ 31" using assms by simp
  with lo have "(2::nat) ^ (31 - ?c) < 2 ^ 31" by linarith
  then have "31 - ?c < 31" by (rule power_less_imp_less_exp [rotated]) simp
  moreover have "shuffle_n2 n = mask (31 - ?c)"
    by (simp add: shuffle_n2_def drop_bit_mask_word [symmetric] mask_numeral)
  moreover have "nat n < 2 ^ Suc (31 - ?c)" using hi c by (simp add: Suc_diff_le [symmetric])
  ultimately show ?thesis using lo that by blast
qed

lemma unat_shuffle_bottom:
  assumes "k < 31"
  shows "unat (shuffle_bottom (mask k) a b r) =
    (let q = (unat r * unat (a OR 1) + unat b) mod 2 ^ k in (q * q + q) div 2 mod 2 ^ k)"
proof -
  let ?q = "(r * (a OR 1) + b) AND mask k"
  have "(2::nat) ^ k dvd 2 ^ 32" using assms by (intro le_imp_power_dvd) simp
  then have q: "unat ?q = (unat r * unat (a OR 1) + unat b) mod 2 ^ k"
    by (simp add: unat_and_mask unat_arith_simps mod_mod_cancel mod_add_left_eq)
  have "(2::nat) ^ k dvd 2 ^ 31" using assms by (intro le_imp_power_dvd) simp
  have "unat ((?q * ?q + ?q) div 2) = (unat ?q * unat ?q + unat ?q) mod 2 ^ 32 div 2"
    by (simp add: unat_arith_simps mod_add_left_eq)
  also have "\<dots> = (unat ?q * unat ?q + unat ?q) div 2 mod 2 ^ 31"
    using mod_power_div_2 [of _ 31] by simp
  finally have "unat (((?q * ?q + ?q) div 2) AND mask k) = (unat ?q * unat ?q + unat ?q) div 2 mod 2 ^ k"
    using \<open>2 ^ k dvd 2 ^ 31\<close> by (simp add: unat_and_mask mod_mod_cancel)
  with q show ?thesis by (simp add: shuffle_bottom_def Let_def)
qed

lemma shuffle_bottom_less:
  "k < 31 \<Longrightarrow> unat (shuffle_bottom (mask k) a b r) < 2 ^ k"
  by (simp add: unat_shuffle_bottom Let_def)

lemma shuffle_bottom_inj:
  assumes "k < 31" and "unat r < 2 ^ k" and "unat r' < 2 ^ k"
    and eq: "shuffle_bottom (mask k) a b r = shuffle_bottom (mask k) a b r'"
  shows "r = r'"
proof -
  let ?q = "\<lambda>r. (unat r * unat (a OR 1) + unat b) mod 2 ^ k"
  have "(?q r * ?q r + ?q r) div 2 mod 2 ^ k = (?q r' * ?q r' + ?q r') div 2 mod 2 ^ k"
    using arg_cong [OF eq, of unat] assms(1) by (simp add: unat_shuffle_bottom Let_def)
  then have "?q r = ?q r'" by (rule triangular_mod_inj) simp_all
  then have "(unat (a OR 1) * unat r + unat b) mod 2 ^ k = (unat (a OR 1) * unat r' + unat b) mod 2 ^ k"
    by (simp only: mult.commute)
  from odd_mult_mod_cancel [OF odd_unat_or_1 this assms(2,3)] show ?thesis
    by (simp add: word_unat_eq_iff)
qed

section \<open>The whole function permutes the ranks\<close>

text \<open>
  The interface the generators rely on: a function of the rank count, the rank and the
  generator state that permutes \<open>0 ..< n\<close> for every positive rank count below a bound, and
  whose next state does not depend on the rank. Its clients need sums over permuted ranks
  and the number of ranks that land in a range.
\<close>

locale rank_permutation =
  fixes shuffle :: "int \<Rightarrow> int \<Rightarrow> 'g \<Rightarrow> int \<times> 'g" and bound :: int
  assumes shuffle_bij: "0 < n \<Longrightarrow> n < bound \<Longrightarrow>
      bij_betw (\<lambda>r. fst (shuffle n r g)) {0..<n} {0..<n}"
    and shuffle_state: "snd (shuffle n r g) = snd (shuffle n r' g)"
begin

lemma shuffle_range:
  "0 < n \<Longrightarrow> n < bound \<Longrightarrow> 0 \<le> r \<Longrightarrow> r < n \<Longrightarrow>
     0 \<le> fst (shuffle n r g) \<and> fst (shuffle n r g) < n"
  using bij_betwE [OF shuffle_bij] by fastforce

lemma sum_shuffled:
  "0 < n \<Longrightarrow> n < bound \<Longrightarrow> (\<Sum>r\<in>{0..<n}. f (fst (shuffle n r g))) = (\<Sum>r\<in>{0..<n}. f r)"
  by (rule sum.reindex_bij_betw [OF shuffle_bij])

lemma prod_shuffled:
  "0 < n \<Longrightarrow> n < bound \<Longrightarrow> (\<Prod>r\<in>{0..<n}. f (fst (shuffle n r g))) = (\<Prod>r\<in>{0..<n}. f r)"
  by (rule prod.reindex_bij_betw [OF shuffle_bij])

lemma card_shuffled_below:
  assumes "0 < n" "n < bound" "0 \<le> m" "m \<le> n"
  shows "card {r \<in> {0..<n}. fst (shuffle n r g) < m} = nat m"
proof -
  have "(\<Sum>r\<in>{0..<n}. if fst (shuffle n r g) < m then 1 else 0 :: nat) = (\<Sum>r\<in>{0..<n}. if r < m then 1 else 0)"
    by (rule sum_shuffled [OF assms(1,2), where f = "\<lambda>r. if r < m then 1 else 0"])
  moreover have "{0..<n} \<inter> {r. r < m} = {0..<m}" using assms by auto
  ultimately show ?thesis by (simp add: sum.If_cases Int_def)
qed

end

text \<open>What one call computes on an in-range rank, in natural numbers.\<close>

lemma unat_shuffle_rotate:
  assumes "0 \<le> me" and "me < n" and "n < 2 ^ 31" and k: "k < 31" "2 ^ k \<le> nat n"
  shows "unat (shuffle_rotate (mask k) (u32_of_int n) a b (u32_of_int me)) =
    (if nat me < 2 ^ k
     then unat (shuffle_bottom (mask k) a b (u32_of_int me)) + (nat n - 2 ^ k)
     else nat me - 2 ^ k)"
proof -
  have me: "unat (u32_of_int me) = nat me" and un: "unat (u32_of_int n) = nat n"
    using assms(1-3) by (simp_all add: unat_word_of_int_small)
  have n31: "nat n < 2 ^ 31" using assms(3) by simp
  have le: "u32_of_int me \<le> mask k \<longleftrightarrow> nat me < 2 ^ k"
    using k(1) word_le_mask [of k "u32_of_int me"] by (simp add: me)
  have sub: "unat (u32_of_int n - (mask k + 1)) = nat n - 2 ^ k"
    using k by (simp add: unat_sub_small unat_mask_plus_1 un)
  show ?thesis
  proof (cases "nat me < 2 ^ k")
    case True
    have "unat (shuffle_bottom (mask k) a b (u32_of_int me)) + (nat n - 2 ^ k) < 2 ^ LENGTH(32)"
      using shuffle_bottom_less [OF k(1), of a b "u32_of_int me"] k(2) n31 by simp
    with True show ?thesis by (simp add: shuffle_rotate_def le unat_add_small sub)
  next
    case False
    then show ?thesis using k by (simp add: shuffle_rotate_def le unat_sub_small unat_mask_plus_1 me)
  qed
qed

lemma shuffle_rotate_less:
  assumes "0 \<le> me" and "me < n" and "n < 2 ^ 31" and k: "k < 31" "2 ^ k \<le> nat n"
  shows "unat (shuffle_rotate (mask k) (u32_of_int n) a b (u32_of_int me)) < nat n"
  using shuffle_bottom_less [OF k(1), of a b "u32_of_int me"] assms
  by (auto simp: unat_shuffle_rotate)

lemma shuffle_rotate_inj:
  assumes "0 \<le> me" "me < n" "0 \<le> me'" "me' < n" and "n < 2 ^ 31" and k: "k < 31" "2 ^ k \<le> nat n"
    and hi: "nat n < 2 ^ Suc k"
    and eq: "shuffle_rotate (mask k) (u32_of_int n) a b (u32_of_int me) =
      shuffle_rotate (mask k) (u32_of_int n) a b (u32_of_int me')"
  shows "me = me'"
proof -
  have u: "unat (u32_of_int me) = nat me" "unat (u32_of_int me') = nat me'"
    using assms(1-5) by (simp_all add: unat_word_of_int_small)
  note eq' = arg_cong [OF eq, of unat, unfolded unat_shuffle_rotate [OF assms(1,2,5) k]
      unat_shuffle_rotate [OF assms(3,4,5) k]]
  consider "nat me < 2 ^ k" "nat me' < 2 ^ k" | "\<not> nat me < 2 ^ k" "\<not> nat me' < 2 ^ k"
    | "(nat me < 2 ^ k) \<noteq> (nat me' < 2 ^ k)" by blast
  then have "nat me = nat me'"
  proof cases
    case 1
    with eq' have "shuffle_bottom (mask k) a b (u32_of_int me) = shuffle_bottom (mask k) a b (u32_of_int me')"
      by (simp add: word_unat_eq_iff)
    from shuffle_bottom_inj [OF k(1) _ _ this] 1 show ?thesis by (metis u)
  next
    case 2
    with eq' have "nat me - 2 ^ k = nat me' - 2 ^ k" by (simp only: if_False)
    with 2 show ?thesis by arith
  next
    case 3
    have n: "nat me < nat n" "nat me' < nat n" using assms(1-4) by auto
    show ?thesis
    proof (cases "nat me < 2 ^ k")
      case True
      with 3 have f: "\<not> nat me' < 2 ^ k" by simp
      with True eq' have "unat (shuffle_bottom (mask k) a b (u32_of_int me)) + (nat n - 2 ^ k) = nat me' - 2 ^ k"
        by (simp only: if_True if_False)
      with n(2) f show ?thesis by arith
    next
      case False
      with 3 have "nat me' < 2 ^ k" by simp
      with False eq' have "nat me - 2 ^ k = unat (shuffle_bottom (mask k) a b (u32_of_int me')) + (nat n - 2 ^ k)"
        by (simp only: if_True if_False)
      with n(1) False show ?thesis by arith
    qed
  qed
  then show ?thesis using assms(1,3) by simp
qed

lemma shuffleRank_fst:
  fixes g :: u64
  assumes "0 < n" and "n < 2 ^ 31" and "0 \<le> me" and "me < n"
    and mk: "shuffle_n2 n = mask k" and k: "k < 31" "2 ^ k \<le> nat n"
  defines "R \<equiv> shuffle_rotate (mask k) (u32_of_int n) (lo32 g) (hi32 g) (u32_of_int me)"
  shows "fst (shuffleRank n me g) =
      int (unat (if unat R < 2 ^ k then shuffle_bottom (mask k) (hi32 g) (lo32 g) R else R))"
    and "unat (if unat R < 2 ^ k then shuffle_bottom (mask k) (hi32 g) (lo32 g) R else R) < nat n"
proof -
  let ?S = "if unat R < 2 ^ k then shuffle_bottom (mask k) (hi32 g) (lo32 g) R else R"
  have hi: "lo32 (drop_bit 32 g) = hi32 g" by (simp add: lo32_def hi32_def)
  have le: "w \<le> mask k \<longleftrightarrow> unat w < 2 ^ k" for w :: u32
    using k(1) by (intro word_le_mask) simp
  show S: "unat ?S < nat n"
    using shuffle_rotate_less [OF assms(3,4,2) k, of "lo32 g" "hi32 g"]
      order_less_le_trans [OF shuffle_bottom_less [OF k(1), of "hi32 g" "lo32 g" R] k(2)]
    unfolding R_def by (auto simp only: split: if_splits)
  moreover have "nat n < 2 ^ 31" using assms(2) by simp
  ultimately have "unat ?S < 2 ^ 31" by (rule order_less_trans)
  then have "sint ?S = int (unat ?S)" by (intro sint_unat_small) simp
  moreover have "fst (shuffleRank n me g) = sint ?S"
    by (simp only: shuffleRank_def Let_def mk hi le R_def fst_conv)
  ultimately show "fst (shuffleRank n me g) = int (unat ?S)" by (simp only:)
qed

lemma shuffle_second_inj:
  assumes "k < 31"
    and "(if unat R < 2 ^ k then shuffle_bottom (mask k) a b R else R) =
      (if unat R' < 2 ^ k then shuffle_bottom (mask k) a b R' else R')"
  shows "R = R'"
  using assms(2) shuffle_bottom_inj [OF assms(1), of R R' a b]
    shuffle_bottom_less [OF assms(1), of a b R] shuffle_bottom_less [OF assms(1), of a b R']
  by (auto split: if_splits)

lemma shuffleRank_inj_on:
  assumes "0 < n" and "n < 2 ^ 31"
  shows "inj_on (\<lambda>r. fst (shuffleRank n r g)) {0..<n}"
proof (rule inj_onI)
  fix x y assume xy: "x \<in> {0..<n}" "y \<in> {0..<n}" "fst (shuffleRank n x g) = fst (shuffleRank n y g)"
  obtain k where mk: "shuffle_n2 n = mask k" and k: "k < 31" "2 ^ k \<le> nat n" and hi: "nat n < 2 ^ Suc k"
    using shuffle_n2_mask [OF assms] .
  let ?R = "\<lambda>r. shuffle_rotate (mask k) (u32_of_int n) (lo32 g) (hi32 g) (u32_of_int r)"
  let ?S = "\<lambda>r. if unat (?R r) < 2 ^ k then shuffle_bottom (mask k) (hi32 g) (lo32 g) (?R r) else ?R r"
  have "unat (?S x) = unat (?S y)"
    using xy(3) shuffleRank_fst(1) [OF assms _ _ mk k, of x g] shuffleRank_fst(1) [OF assms _ _ mk k, of y g]
      xy(1,2) by (simp only: atLeastLessThan_iff of_nat_eq_iff)
  then have "?S x = ?S y" by (simp only: word_unat_eq_iff)
  then have "?R x = ?R y" by (rule shuffle_second_inj [OF k(1)])
  then show "x = y"
    using shuffle_rotate_inj [OF _ _ _ _ assms(2) k hi, of x y "lo32 g" "hi32 g"] xy(1,2) by simp
qed

lemma shuffleRank_bij_betw:
  assumes "0 < n" and "n < 2 ^ 31"
  shows "bij_betw (\<lambda>r. fst (shuffleRank n r g)) {0..<n} {0..<n}"
proof -
  obtain k where mk: "shuffle_n2 n = mask k" and k: "k < 31" "2 ^ k \<le> nat n" and hi: "nat n < 2 ^ Suc k"
    using shuffle_n2_mask [OF assms] .
  have "(\<lambda>r. fst (shuffleRank n r g)) ` {0..<n} \<subseteq> {0..<n}"
  proof
    fix z assume "z \<in> (\<lambda>r. fst (shuffleRank n r g)) ` {0..<n}"
    then obtain r where "0 \<le> r" "r < n" "z = fst (shuffleRank n r g)" by auto
    with shuffleRank_fst [OF assms _ _ mk k, of r g] show "z \<in> {0..<n}"
      by (metis atLeastLessThan_iff of_nat_0_le_iff zless_nat_eq_int_zless)
  qed
  with shuffleRank_inj_on [OF assms] show ?thesis
    by (simp add: bij_betw_def endo_inj_surj)
qed

interpretation sr: rank_permutation shuffleRank "2 ^ 31"
  by unfold_locales (simp_all add: shuffleRank_bij_betw, simp add: shuffleRank_def Let_def)

section \<open>Properties\<close>

text \<open>For every positive rank count and every generator state, \<open>shuffleRank\<close> permutes the ranks;
  so exactly \<open>m\<close> ranks get a result below \<open>m\<close>, and the next state is the same on all ranks.\<close>

theorem shuffle_permutes:
  assumes "0 < n" and "n < 2 ^ 31"
  shows "bij_betw (\<lambda>r. fst (shuffleRank n r g)) {0..<n} {0..<n}
    \<and> (\<forall>m. card {r \<in> {0..<n}. fst (shuffleRank n r g) < m} = nat (min m n))
    \<and> snd (shuffleRank n r g) = snd (shuffleRank n r' g)"
proof (intro conjI allI)
  fix m
  show "card {r \<in> {0..<n}. fst (shuffleRank n r g) < m} = nat (min m n)"
  proof (cases "0 \<le> m \<and> m \<le> n")
    case True
    with sr.card_shuffled_below [of n m g] assms show ?thesis by simp
  next
    case False
    have "0 \<le> fst (shuffleRank n r g) \<and> fst (shuffleRank n r g) < n" if "r \<in> {0..<n}" for r
      using sr.shuffle_range [of n r g] assms that by simp
    then have E: "{r \<in> {0..<n}. fst (shuffleRank n r g) < m} = (if m < 0 then {} else {0..<n})"
      using False by (cases "m < 0") fastforce+
    show ?thesis unfolding E using False assms(1) by (cases "m < 0") simp_all
  qed
next
  show "bij_betw (\<lambda>r. fst (shuffleRank n r g)) {0..<n} {0..<n}" using assms by (rule sr.shuffle_bij)
  show "snd (shuffleRank n r g) = snd (shuffleRank n r' g)" by (rule sr.shuffle_state)
qed

theorem shuffle_permutes_witness:
  "bij_betw (\<lambda>r. fst (shuffleRank 6 r 0x123456789abcdef)) {0..<6} {0..<6}"
  using shuffle_permutes [of 6 "0x123456789abcdef"] by simp

end
