(* ===== verification/VerifSumXY.thy ===== *)
theory VerifSumXY
  imports VerifShuffle
begin

text \<open>
  The generator \<open>genSumXY\<close> of verifiable/verifiable.cu: every rank gets an integer \<open>x\<close>, all
  ranks agree on \<open>y\<close>, and the sum of the \<open>x\<close> over the ranks is \<open>y\<close>. The template parameter
  \<open>Uint\<close> is the word type; the code instantiates it with 32 and 64 bits. Unsigned division
  by zero is undefined in the language, so the model returns \<^const>\<open>None\<close> there.
\<close>

section \<open>The code\<close>

text \<open>The draw of a number below a bound, by the high half of a product.\<close>

definition sumxy_draw :: "u64 \<Rightarrow> 'u::len word \<Rightarrow> 'u word" where
  "sumxy_draw rng b =
     (if LENGTH('u) > 32 then ucast (umul64hi rng (ucast b))
      else ucast (umul32hi (lo32 rng) (ucast b)))"

text \<open>The first block: pick \<open>y\<close> in the upper half of the range, on request unlike the given one.\<close>

definition sumxy_pick :: "u64 \<Rightarrow> 'u::len word \<Rightarrow> 'u word \<Rightarrow> bool \<Rightarrow> 'u word" where
  "sumxy_pick rng y_max y avoid_y =
     (let y_min = (y_max + 1) div 2;
          d = sumxy_draw rng (y_max div 2 + (if avoid_y then 0 else 1));
          y1 = (if avoid_y then y + 1 else y_min) + d
      in y1 - (if avoid_y \<and> (y1 < y_min \<or> y_max < y1) then y_max div 2 else 0))"

text \<open>The partition count: the number of distinct contributions, at most one per rank.\<close>

definition sumxy_parts :: "u32 \<Rightarrow> 'u::len word \<Rightarrow> 'u word" where
  "sumxy_parts rn y =
     (let pn = (if rn = 1 then 1 else 2 * (y div ucast rn) - 1);
          pn = (if pn = 0 then 1 else pn)
      in if ucast rn < pn then ucast rn else pn)"

definition sumxy_psum :: "'u::len word \<Rightarrow> 'u word \<Rightarrow> 'u word" where
  "sumxy_psum y_max pn =
     (if unat y_max \<le> unat (drop_bit 1 (NOT 0 :: u32))
      then ucast ((ucast pn :: u32) * ucast (pn + 1) div 2)
      else ucast ((ucast pn :: u64) * ucast (pn + 1) div 2))"

text \<open>The contribution of one rank, given the sum \<open>y\<close> all ranks agreed on.\<close>

definition sumxy_split :: "int \<Rightarrow> int \<Rightarrow> 'u::len word \<Rightarrow> 'u word \<Rightarrow> 'u word option" where
  "sumxy_split rank_n rank_me y_max y =
     (let r = u32_of_int rank_me;
          rn = u32_of_int rank_n
      in if rn = 0 then None else
         let pn = sumxy_parts rn y;
             p_sum = sumxy_psum y_max pn
         in if p_sum = 0 then None else
            let s = (if y div p_sum < ucast rn div pn then ucast (y div p_sum)
                     else ucast (ucast rn div pn) :: u32)
            in if s = 0 then None else
               let x = (if unat (r div s) < unat pn then ucast (1 + r div s) else 0)
               in Some (x + (if r = rn - 1 then y - ucast s * p_sum else 0)))"

text \<open>The results are \<open>x\<close>, the new \<open>y\<close> and the new state of the generator.\<close>

definition genSumXY ::
  "int \<Rightarrow> int \<Rightarrow> u64 \<Rightarrow> 'u::len word \<Rightarrow> 'u word \<Rightarrow> bool \<Rightarrow> ('u word \<times> 'u word \<times> u64) option" where
  "genSumXY rank_n rank_me rng y_max y avoid_y =
     (let y = sumxy_pick rng y_max y avoid_y
      in map_option (\<lambda>x. (x, y, mixBits rng)) (sumxy_split rank_n rank_me y_max y))"

section \<open>The picked sum\<close>

definition uint_width :: "'u::len itself \<Rightarrow> bool" where
  "uint_width _ \<longleftrightarrow> LENGTH('u) = 32 \<or> LENGTH('u) = 64"

lemma sumxy_draw_less:
  assumes "uint_width TYPE('u::len)" and "0 < unat b"
  shows "unat (sumxy_draw rng (b :: 'u word)) < unat b"
proof (cases "LENGTH('u) > 32")
  case True
  with assms(1) have l: "LENGTH('u) = 64" by (auto simp: uint_width_def)
  then have "unat (ucast b :: u64) = unat b" by (simp add: unat_ucast_up)
  with umul64hi_less [of "ucast b" rng] assms(2) have "unat (umul64hi rng (ucast b)) < unat b" by simp
  moreover from this l have "unat (ucast (umul64hi rng (ucast b)) :: 'u word) = unat (umul64hi rng (ucast b))"
    by (simp add: unat_ucast_up)
  ultimately show ?thesis using True by (simp add: sumxy_draw_def)
next
  case False
  with assms(1) have l: "LENGTH('u) = 32" by (auto simp: uint_width_def)
  then have "unat (ucast b :: u32) = unat b" by (simp add: unat_ucast_up)
  with umul32hi_less [of "ucast b" "lo32 rng"] assms(2)
  have less: "unat (umul32hi (lo32 rng) (ucast b)) < unat b" by simp
  moreover from less have "unat (ucast (umul32hi (lo32 rng) (ucast b)) :: 'u word) = unat (umul32hi (lo32 rng) (ucast b))"
    by (intro unat_ucast_small) (rule order_less_trans [OF _ unsigned_less])
  ultimately show ?thesis using False by (simp add: sumxy_draw_def)
qed

lemma unat_half: "2 \<le> LENGTH('u) \<Longrightarrow> unat (w div 2 :: 'u::len word) = unat w div 2"
  using unat_pow2 [where 'a = 'u, of 1] by (simp add: unat_div)

lemma uint_width_ge: "uint_width TYPE('u::len) \<Longrightarrow> 32 \<le> LENGTH('u)"
  by (auto simp: uint_width_def)

lemma unat_y_min:
  assumes "2 \<le> LENGTH('u)" and "unat (y_max :: 'u::len word) < 2 ^ (LENGTH('u) - 1)"
  shows "unat ((y_max + 1) div 2) = (unat y_max + 1) div 2"
proof -
  have "(2::nat) ^ (LENGTH('u) - 1) < 2 ^ LENGTH('u)" by (rule power_strict_increasing) simp_all
  with assms(2) have "unat y_max + 1 < 2 ^ LENGTH('u)" by linarith
  with assms(1) show ?thesis by (simp add: unat_half unat_add_small)
qed

text \<open>Picked freely, the sum lies in the upper half of the range.\<close>

lemma unat_sumxy_pick_free:
  assumes "uint_width TYPE('u::len)" and "unat (y_max :: 'u word) < 2 ^ (LENGTH('u) - 1)"
  shows "unat (sumxy_pick rng y_max y False) =
      (unat y_max + 1) div 2 + unat (sumxy_draw rng (y_max div 2 + 1))"
    and "(unat y_max + 1) div 2 \<le> unat (sumxy_pick rng y_max y False)"
    and "unat (sumxy_pick rng y_max y False) \<le> unat y_max"
proof -
  have l: "2 \<le> LENGTH('u)" using uint_width_ge [OF assms(1)] by simp
  have p: "(2::nat) ^ (LENGTH('u) - 1) < 2 ^ LENGTH('u)" by (rule power_strict_increasing) simp_all
  have b: "unat (y_max div 2 + 1) = unat y_max div 2 + 1"
  proof -
    have "unat (y_max div 2) + unat (1 :: 'u word) < 2 ^ LENGTH('u)"
      unfolding unat_half [OF l] unsigned_1 using assms(2) p by linarith
    then show ?thesis by (simp add: unat_add_small unat_half [OF l])
  qed
  have d: "unat (sumxy_draw rng (y_max div 2 + 1)) \<le> unat y_max div 2"
    using sumxy_draw_less [OF assms(1), of "y_max div 2 + 1" rng] by (simp add: b)
  have le: "(unat y_max + 1) div 2 + unat y_max div 2 = unat y_max" by arith
  have lt: "(unat y_max + 1) div 2 + unat (sumxy_draw rng (y_max div 2 + 1)) < 2 ^ LENGTH('u)"
    using d le assms(2) p by linarith
  have "unat (sumxy_pick rng y_max y False) =
      unat ((y_max + 1) div 2 + sumxy_draw rng (y_max div 2 + 1))"
    by (simp add: sumxy_pick_def Let_def)
  also have "\<dots> = (unat y_max + 1) div 2 + unat (sumxy_draw rng (y_max div 2 + 1))"
    using lt by (subst unat_add_small) (simp_all only: unat_y_min [OF l assms(2)])
  finally show s: "unat (sumxy_pick rng y_max y False) =
      (unat y_max + 1) div 2 + unat (sumxy_draw rng (y_max div 2 + 1))" .
  show "(unat y_max + 1) div 2 \<le> unat (sumxy_pick rng y_max y False)" using s by simp
  show "unat (sumxy_pick rng y_max y False) \<le> unat y_max" using s d le by simp
qed

text \<open>
  Picked to avoid a given value of the upper half, the sum stays in the upper half; it is the
  given value again exactly when that value is above the lower end and the draw is the
  largest possible one, since the wrap-around subtracts one too little.
\<close>

lemma unat_sumxy_pick_avoid:
  assumes w: "uint_width TYPE('u::len)" and m: "unat (y_max :: 'u word) < 2 ^ (LENGTH('u) - 1)"
    and "2 \<le> unat y_max"
    and y: "(unat y_max + 1) div 2 \<le> unat y" "unat y \<le> unat y_max"
  shows "unat (sumxy_pick rng y_max y True) =
      (let y1 = unat y + 1 + unat (sumxy_draw rng (y_max div 2))
       in if unat y_max < y1 then y1 - unat y_max div 2 else y1)"
    and "unat (sumxy_draw rng (y_max div 2)) < unat y_max div 2"
proof -
  let ?d = "sumxy_draw rng (y_max div 2)"
  have l: "2 \<le> LENGTH('u)" using uint_width_ge [OF w] by simp
  have half: "unat (y_max div 2) = unat y_max div 2" by (rule unat_half [OF l])
  show d: "unat ?d < unat y_max div 2"
    using sumxy_draw_less [OF w, of "y_max div 2" rng] assms(3) by (simp add: half)
  have "(2::nat) ^ LENGTH('u) = 2 * 2 ^ (LENGTH('u) - 1)" using l by (simp flip: power_Suc)
  with m d y(2) have lt: "unat y + 1 + unat ?d < 2 ^ LENGTH('u)" "unat y + 1 < 2 ^ LENGTH('u)" by linarith+
  have yp: "unat (y + 1) = unat y + 1"
    using lt(2) by (simp add: unat_add_small)
  have y1: "unat (y + 1 + ?d) = unat y + 1 + unat ?d"
    using lt(1) by (simp add: unat_add_small yp)
  show "unat (sumxy_pick rng y_max y True) =
      (let y1 = unat y + 1 + unat ?d in if unat y_max < y1 then y1 - unat y_max div 2 else y1)"
  proof (cases "unat y_max < unat y + 1 + unat ?d")
    case True
    then have "sumxy_pick rng y_max y True = y + 1 + ?d - y_max div 2"
      by (simp add: sumxy_pick_def Let_def word_less_nat_alt y1 del: One_nat_def)
    moreover have "unat (y + 1 + ?d - y_max div 2) = unat (y + 1 + ?d) - unat (y_max div 2)"
      using True by (intro unat_sub_small) (simp only: y1 half)
    ultimately show ?thesis using True by (simp only: y1 half Let_def if_True)
  next
    case False
    moreover have "\<not> unat y + 1 + unat ?d < (unat y_max + 1) div 2" using y(1) by linarith
    ultimately have "sumxy_pick rng y_max y True = y + 1 + ?d"
      by (simp add: sumxy_pick_def Let_def word_less_nat_alt y1 unat_y_min [OF l m] del: One_nat_def)
    with False show ?thesis by (simp only: y1 Let_def if_False)
  qed
qed

lemma wrap_once:
  fixes m y d z :: nat
  assumes "2 \<le> m" "(m + 1) div 2 \<le> y" "y \<le> m" "d < m div 2"
    and "z = (if m < y + 1 + d then y + 1 + d - m div 2 else y + 1 + d)"
  shows "(m + 1) div 2 \<le> z" and "z \<le> m"
    and "z = y \<longleftrightarrow> (m + 1) div 2 < y \<and> d = m div 2 - 1"
proof -
  have m: "(m + 1) div 2 + m div 2 = m" by arith
  show "(m + 1) div 2 \<le> z" "z \<le> m"
    using assms m by (simp_all split: if_splits)
  show "z = y \<longleftrightarrow> (m + 1) div 2 < y \<and> d = m div 2 - 1"
    using assms m by (auto split: if_splits)
qed

lemma sumxy_pick_avoid_bounds:
  assumes "uint_width TYPE('u::len)" and "unat (y_max :: 'u word) < 2 ^ (LENGTH('u) - 1)"
    and "2 \<le> unat y_max" and "(unat y_max + 1) div 2 \<le> unat y" "unat y \<le> unat y_max"
  shows "(unat y_max + 1) div 2 \<le> unat (sumxy_pick rng y_max y True)"
    and "unat (sumxy_pick rng y_max y True) \<le> unat y_max"
    and "sumxy_pick rng y_max y True = y \<longleftrightarrow>
      (unat y_max + 1) div 2 < unat y \<and> unat (sumxy_draw rng (y_max div 2)) = unat y_max div 2 - 1"
  using wrap_once [OF assms(3-5) unat_sumxy_pick_avoid(2) [OF assms]
      unat_sumxy_pick_avoid(1) [OF assms, unfolded Let_def], of rng]
  by (simp_all only: word_unat_eq_iff)

section \<open>Splitting the sum\<close>

text \<open>
  \<open>s\<close> ranks contribute each of \<open>1, \<dots>, pn\<close>, so that the contributions add up to \<open>s\<close> times a
  triangular number.
\<close>

lemma sum_block:
  fixes s pn :: nat
  assumes "0 < s"
  shows "(\<Sum>r\<in>{..<s * pn}. 1 + r div s) = s * (pn * (pn + 1) div 2)"
proof (induction pn)
  case (Suc pn)
  have "(\<Sum>r\<in>{s * pn..<s * pn + s}. 1 + r div s) = (\<Sum>r\<in>{..<s}. 1 + (s * pn + r) div s)"
    using sum.shift_bounds_nat_ivl [of "\<lambda>r. 1 + r div s" 0 "s * pn" s]
    by (simp add: lessThan_atLeast0 ac_simps)
  also have "\<dots> = s * (1 + pn)" using assms by simp
  finally have "(\<Sum>r\<in>{s * pn..<s * pn + s}. 1 + r div s) = s * (1 + pn)" .
  moreover have "(\<Sum>r\<in>{..<s * Suc pn}. 1 + r div s) =
      (\<Sum>r\<in>{..<s * pn}. 1 + r div s) + (\<Sum>r\<in>{s * pn..<s * pn + s}. 1 + r div s)"
    by (simp add: lessThan_atLeast0 sum.atLeastLessThan_concat add.commute)
  moreover have "Suc pn * (Suc pn + 1) div 2 = pn * (pn + 1) div 2 + (1 + pn)" by simp
  ultimately show ?case using Suc by (simp add: algebra_simps)
qed simp

lemma sum_block_cut:
  fixes s pn n :: nat
  assumes "0 < s" and "s * pn \<le> n"
  shows "(\<Sum>r\<in>{..<n}. if r div s < pn then 1 + r div s else 0) = s * (pn * (pn + 1) div 2)"
proof -
  have "(\<Sum>r\<in>{..<n}. if r div s < pn then 1 + r div s else 0) =
      (\<Sum>r\<in>{r \<in> {..<n}. r div s < pn}. 1 + r div s)"
    by (simp only: sum.inter_filter finite_lessThan)
  also have "{r \<in> {..<n}. r div s < pn} = {..<s * pn}"
    using assms by (auto simp: div_less_iff_less_mult mult.commute intro: order_less_le_trans)
  finally show ?thesis by (simp only: sum_block [OF assms(1)])
qed

text \<open>The partition count and the number of ranks in a partition, as natural numbers.\<close>

definition nat_parts :: "nat \<Rightarrow> nat \<Rightarrow> nat" where
  "nat_parts rn y = min rn (if rn = 1 then 1 else 2 * (y div rn) - 1)"

definition nat_psum :: "nat \<Rightarrow> nat" where
  "nat_psum pn = pn * (pn + 1) div 2"

definition nat_per_part :: "nat \<Rightarrow> nat \<Rightarrow> nat" where
  "nat_per_part rn y = min (y div nat_psum (nat_parts rn y)) (rn div nat_parts rn y)"

lemma nat_parts_bounds:
  assumes "0 < rn" and "rn \<le> y"
  shows "0 < nat_parts rn y" and "nat_parts rn y \<le> rn"
    and "nat_parts rn y * (nat_parts rn y + 1) \<le> 2 * y"
proof -
  have q: "1 \<le> y div rn" using assms by (simp add: Suc_leI div_greater_zero_iff)
  show "0 < nat_parts rn y" using q assms by (auto simp: nat_parts_def)
  show le: "nat_parts rn y \<le> rn" by (simp add: nat_parts_def)
  show "nat_parts rn y * (nat_parts rn y + 1) \<le> 2 * y"
  proof (cases "rn = 1")
    case True
    then show ?thesis using assms by (simp add: nat_parts_def)
  next
    case False
    then have "nat_parts rn y + 1 \<le> 2 * (y div rn)" using q by (auto simp: nat_parts_def)
    with le have "nat_parts rn y * (nat_parts rn y + 1) \<le> rn * (2 * (y div rn))"
      by (rule mult_le_mono)
    also have "\<dots> \<le> 2 * y" using div_times_less_eq_dividend [of y rn] by (simp add: mult.commute mult.left_commute)
    finally show ?thesis .
  qed
qed

lemma nat_per_part_bounds:
  assumes "0 < rn" and "rn \<le> y"
  shows "0 < nat_per_part rn y" and "nat_per_part rn y * nat_parts rn y \<le> rn"
    and "nat_per_part rn y * nat_psum (nat_parts rn y) \<le> y"
proof -
  note b = nat_parts_bounds [OF assms]
  have "2 \<le> nat_parts rn y * (nat_parts rn y + 1)"
    using mult_le_mono [of 1 "nat_parts rn y" 2 "nat_parts rn y + 1"] b(1) by simp
  then have p: "0 < nat_psum (nat_parts rn y)" "nat_psum (nat_parts rn y) \<le> y"
    using b(3) unfolding nat_psum_def by arith+
  then show "0 < nat_per_part rn y"
    using b(1,2) by (simp add: nat_per_part_def div_greater_zero_iff)
  have "nat_per_part rn y * nat_parts rn y \<le> rn div nat_parts rn y * nat_parts rn y"
    unfolding nat_per_part_def by (intro mult_le_mono1) simp
  also have "\<dots> \<le> rn" by (rule div_times_less_eq_dividend)
  finally show "nat_per_part rn y * nat_parts rn y \<le> rn" .
  have "nat_per_part rn y * nat_psum (nat_parts rn y) \<le>
      y div nat_psum (nat_parts rn y) * nat_psum (nat_parts rn y)"
    unfolding nat_per_part_def by (intro mult_le_mono1) simp
  also have "\<dots> \<le> y" by (rule div_times_less_eq_dividend)
  finally show "nat_per_part rn y * nat_psum (nat_parts rn y) \<le> y" .
qed

text \<open>The word computations follow the natural numbers: none of them wraps around.\<close>

lemma unat_sumxy_parts:
  assumes "uint_width TYPE('u::len)" and "0 < rn" "rn < 2 ^ 31"
    and y: "rn \<le> unat (y :: 'u word)" "unat y < 2 ^ (LENGTH('u) - 1)"
  shows "unat (sumxy_parts (of_nat rn) y) = nat_parts rn (unat y)"
proof -
  have l: "32 \<le> LENGTH('u)" by (rule uint_width_ge [OF assms(1)])
  have p: "(2::nat) ^ 32 \<le> 2 ^ LENGTH('u)" using l by (rule power_increasing) simp
  have rn: "unat (of_nat rn :: u32) = rn"
    using assms(3) by (simp add: unsigned_of_nat take_bit_nat_eq_self)
  have rnu: "unat (ucast (of_nat rn :: u32) :: 'u word) = rn"
    using l by (simp add: unat_ucast_up rn)
  have one: "(of_nat rn :: u32) = 1 \<longleftrightarrow> rn = 1"
    using rn by (metis of_nat_1 unsigned_1)
  let ?q = "y div ucast (of_nat rn :: u32)"
  have uq: "unat ?q = unat y div rn" by (simp add: unat_div rnu)
  have q1: "1 \<le> unat y div rn" using assms by (simp add: Suc_leI div_greater_zero_iff)
  have two: "unat (2 :: 'u word) = 2" using l unat_pow2 [where 'a = 'u, of 1] by simp
  have "unat y div rn \<le> unat y" by (rule div_le_dividend)
  moreover have "(2::nat) ^ LENGTH('u) = 2 * 2 ^ (LENGTH('u) - 1)" using l by (simp flip: power_Suc)
  ultimately have "2 * (unat y div rn) < 2 ^ LENGTH('u)" using y(2) by linarith
  then have "unat (2 * ?q) = 2 * (unat y div rn)"
    by (subst unat_mult_small) (simp_all only: two uq)
  then have dbl: "unat (2 * ?q - 1) = 2 * (unat y div rn) - 1"
    using q1 unat_sub_small [of 1 "2 * ?q"] by (simp only: unsigned_1)
  let ?n = "if rn = 1 then 1 else 2 * ?q - 1"
  have n: "unat ?n = (if rn = 1 then 1 else 2 * (unat y div rn) - 1)" by (simp only: dbl unsigned_1 split: if_splits) simp
  then have "?n \<noteq> 0" using q1 by (auto simp: word_unat_eq_iff)
  then have "sumxy_parts (of_nat rn) y = (if ucast (of_nat rn :: u32) < ?n then ucast (of_nat rn :: u32) else ?n)"
    by (simp add: sumxy_parts_def Let_def one)
  then have "unat (sumxy_parts (of_nat rn) y) = (if rn < unat ?n then rn else unat ?n)"
    by (simp only: word_less_nat_alt rnu split: if_split) simp
  then show ?thesis by (simp only: n nat_parts_def min_def split: if_split) linarith
qed

lemma unat_half_product:
  assumes "unat (a :: 'a::len word) * unat b < 2 ^ LENGTH('a)" and "2 \<le> LENGTH('a)"
  shows "unat (a * b div 2) = unat a * unat b div 2"
  using assms by (simp only: unat_half unat_mult_small)

lemma unat_sumxy_psum:
  assumes w: "uint_width TYPE('u::len)" and m: "unat (y_max :: 'u word) < 2 ^ (LENGTH('u) - 1)"
    and p: "0 < unat pn" "unat pn < 2 ^ 31"
      "unat pn * (unat pn + 1) \<le> 2 * unat y_max \<or> unat pn * (unat pn + 1) < 2 ^ 32"
  shows "unat (sumxy_psum y_max pn) = nat_psum (unat pn)"
proof -
  have l: "32 \<le> LENGTH('u)" by (rule uint_width_ge [OF w])
  have lt32: "(2::nat) ^ 32 \<le> 2 ^ LENGTH('u)" using l by (rule power_increasing) simp
  have pp: "unat (pn + 1) = unat pn + 1"
  proof -
    have "unat pn + 1 < 2 ^ 32" using p(2) by simp
    with lt32 have "unat pn + 1 < 2 ^ LENGTH('u)" by (rule order_less_le_trans [rotated])
    then show ?thesis using unat_add_small [of pn 1] by (simp only: unsigned_1)
  qed
  have dbl: "(2::nat) ^ LENGTH('u) = 2 * 2 ^ (LENGTH('u) - 1)" using l by (simp flip: power_Suc)
  have fits: "nat_psum (unat pn) < 2 ^ LENGTH('u)"
    using p(3)
  proof
    assume "unat pn * (unat pn + 1) \<le> 2 * unat y_max"
    then have "nat_psum (unat pn) \<le> unat y_max" unfolding nat_psum_def by linarith
    then show ?thesis using m dbl by linarith
  next
    assume "unat pn * (unat pn + 1) < 2 ^ 32"
    then show ?thesis using lt32 unfolding nat_psum_def by linarith
  qed
  show ?thesis
  proof (cases "unat y_max \<le> unat (drop_bit 1 (NOT 0 :: u32))")
    case True
    then have m31: "unat y_max < 2 ^ 31" by (simp add: unat_mask)
    have c: "unat (ucast pn :: u32) = unat pn" "unat (ucast (pn + 1) :: u32) = unat pn + 1"
      using p(2) by (simp_all add: unat_ucast_small pp)
    have "unat (ucast pn :: u32) * unat (ucast (pn + 1) :: u32) < 2 ^ LENGTH(32)"
      using p(3) m31 unfolding c by auto
    then have "unat ((ucast pn :: u32) * ucast (pn + 1) div 2) = nat_psum (unat pn)"
      by (subst unat_half_product) (simp_all only: c nat_psum_def, simp)
    then show ?thesis
      using True fits by (simp add: sumxy_psum_def unat_ucast_small)
  next
    case False
    have c: "unat (ucast pn :: u64) = unat pn" "unat (ucast (pn + 1) :: u64) = unat pn + 1"
      using p(2) by (simp_all add: unat_ucast_small pp)
    have "unat pn * (unat pn + 1) < 2 ^ 31 * 2 ^ 32"
      by (rule mult_strict_mono) (use p(2) in simp_all)
    then have "unat (ucast pn :: u64) * unat (ucast (pn + 1) :: u64) < 2 ^ LENGTH(64)"
      unfolding c by simp
    then have "unat ((ucast pn :: u64) * ucast (pn + 1) div 2) = nat_psum (unat pn)"
      by (subst unat_half_product) (simp_all only: c nat_psum_def, simp)
    then show ?thesis
      using False fits by (simp add: sumxy_psum_def unat_ucast_small)
  qed
qed

text \<open>The contribution of one rank, in natural numbers.\<close>

definition nat_split :: "nat \<Rightarrow> nat \<Rightarrow> nat \<Rightarrow> nat" where
  "nat_split rn y r =
     (let pn = nat_parts rn y; s = nat_per_part rn y
      in (if r div s < pn then 1 + r div s else 0) + (if r = rn - 1 then y - s * nat_psum pn else 0))"

lemma sum_nat_split:
  assumes "0 < rn" and "rn \<le> y"
  shows "(\<Sum>r\<in>{..<rn}. nat_split rn y r) = y"
proof -
  let ?pn = "nat_parts rn y" and ?s = "nat_per_part rn y"
  note b = nat_per_part_bounds [OF assms]
  have "(\<Sum>r\<in>{..<rn}. nat_split rn y r) =
      (\<Sum>r\<in>{..<rn}. if r div ?s < ?pn then 1 + r div ?s else 0) +
      (\<Sum>r\<in>{..<rn}. if r = rn - 1 then y - ?s * nat_psum ?pn else 0)"
    by (simp only: nat_split_def Let_def sum.distrib)
  also have "(\<Sum>r\<in>{..<rn}. if r div ?s < ?pn then 1 + r div ?s else 0) = ?s * nat_psum ?pn"
    using sum_block_cut [OF b(1,2)] by (simp only: nat_psum_def)
  also have "(\<Sum>r\<in>{..<rn}. if r = rn - 1 then y - ?s * nat_psum ?pn else 0) = y - ?s * nat_psum ?pn"
    using assms(1) by (simp add: sum.delta)
  finally show ?thesis using b(3) by simp
qed

lemma nat_split_le:
  assumes "0 < rn" and "rn \<le> y" and "r < rn"
  shows "nat_split rn y r \<le> y"
  using sum_nat_split [OF assms(1,2)] member_le_sum [of r "{..<rn}" "nat_split rn y"] assms(3) by simp

lemma sumxy_split_eq:
  assumes w: "uint_width TYPE('u::len)" and m: "unat (y_max :: 'u word) < 2 ^ (LENGTH('u) - 1)"
    and rn: "0 < rn" "rn < 2 ^ 31" and y: "rn \<le> unat (y :: 'u word)" "unat y \<le> unat y_max"
    and r: "r < rn"
  shows "\<exists>x. sumxy_split (int rn) (int r) y_max y = Some x \<and> unat x = nat_split rn (unat y) r"
proof -
  have l: "32 \<le> LENGTH('u)" by (rule uint_width_ge [OF w])
  have y': "unat y < 2 ^ (LENGTH('u) - 1)" using y(2) m by linarith
  let ?rn = "of_nat rn :: u32" and ?r = "of_nat r :: u32"
  define pn where "pn = sumxy_parts ?rn y"
  define ps where "ps = sumxy_psum y_max pn"
  note nb = nat_parts_bounds [OF rn(1) y(1)] and pb = nat_per_part_bounds [OF rn(1) y(1)]
  have urn: "unat ?rn = rn" and ur: "unat ?r = r" "unat (ucast ?rn :: 'u word) = rn"
    using rn r l by (simp_all add: unat_of_nat_small unat_ucast_up)
  have upn: "unat pn = nat_parts rn (unat y)"
    using unat_sumxy_parts [OF w rn y(1) y'] by (simp add: pn_def)
  have ups: "unat ps = nat_psum (nat_parts rn (unat y))"
    using unat_sumxy_psum [OF w m, of pn] nb rn(2) y(2) unfolding ps_def upn by linarith
  have psum: "0 < nat_psum (nat_parts rn (unat y))"
    using nb(1) by (cases "nat_parts rn (unat y)") (simp_all add: nat_psum_def)
  define sw where "sw = (if y div ps < ucast ?rn div pn then y div ps else ucast ?rn div pn)"
  have usw: "unat sw = nat_per_part rn (unat y)"
    by (simp add: sw_def nat_per_part_def word_less_nat_alt unat_div ups upn ur min_def
        split: if_split)
  have s31: "nat_per_part rn (unat y) < 2 ^ 31"
    using pb(2) nb(1) rn(2) mult_le_mono2 [of 1 "nat_parts rn (unat y)" "nat_per_part rn (unat y)"] by linarith
  define s where "s = (ucast sw :: u32)"
  have us: "unat s = nat_per_part rn (unat y)"
    using s31 by (simp add: s_def unat_ucast_small usw)
  have nz: "?rn \<noteq> 0" "ps \<noteq> 0" "s \<noteq> 0"
    using urn rn(1) ups psum us pb(1) by (auto simp: word_unat_eq_iff)
  let ?x = "(if unat (?r div s) < unat pn then ucast (1 + ?r div s) else 0) +
    (if ?r = ?rn - 1 then y - ucast s * ps else 0) :: 'u word"
  have "sumxy_split (int rn) (int r) y_max y = Some ?x"
    using nz unfolding sumxy_split_def Let_def of_int_of_nat_eq pn_def [symmetric] ps_def [symmetric]
    by (simp only: s_def sw_def if_False if_distrib [of ucast] simp_thms)
  moreover have "unat ?x = nat_split rn (unat y) r"
  proof -
    let ?q = "r div nat_per_part rn (unat y)" and ?rest = "y - ucast s * ps"
    have uq: "unat (?r div s) = ?q" by (simp only: unat_div ur us)
    have "?q \<le> r" by (rule div_le_dividend)
    moreover have "1 + r < 2 ^ LENGTH(32)" using r rn(2) by simp
    ultimately have "1 + ?q < 2 ^ LENGTH(32)" by linarith
    then have "unat (1 + ?r div s) = 1 + ?q"
      using unat_add_small [of 1 "?r div s"] by (simp only: uq unsigned_1)
    then have u1: "unat (ucast (1 + ?r div s) :: 'u word) = 1 + ?q"
      using l by (simp add: unat_ucast_up)
    have us': "unat (ucast s :: 'u word) = nat_per_part rn (unat y)"
      using l by (simp add: unat_ucast_up us)
    have lt: "unat z \<le> unat y \<Longrightarrow> unat z < 2 ^ LENGTH('u)" for z :: "'u word" by simp
    have "nat_per_part rn (unat y) * nat_psum (nat_parts rn (unat y)) < 2 ^ LENGTH('u)"
      using pb(3) unsigned_less [of y] by (rule order_le_less_trans)
    then have usp: "unat (ucast s * ps :: 'u word) = nat_per_part rn (unat y) * nat_psum (nat_parts rn (unat y))"
      using unat_mult_small [of "ucast s" ps] by (simp only: us' ups)
    then have ud: "unat ?rest = unat y - nat_per_part rn (unat y) * nat_psum (nat_parts rn (unat y))"
      using pb(3) unat_sub_small [of "ucast s * ps" y] by (simp only:)
    have last: "?r = ?rn - 1 \<longleftrightarrow> r = rn - 1"
    proof -
      have "unat (?rn - 1) = rn - 1" using rn(1) unat_sub_small [of 1 ?rn] by (simp only: urn unsigned_1)
      then show ?thesis by (simp only: word_unat_eq_iff ur)
    qed
    let ?a = "if unat (?r div s) < unat pn then ucast (1 + ?r div s) else 0 :: 'u word"
    let ?b = "if ?r = ?rn - 1 then ?rest else 0"
    have "unat ?a + unat ?b = nat_split rn (unat y) r"
      by (simp only: if_distrib [of unat] u1 ud uq upn last unsigned_0 nat_split_def Let_def)
    moreover have "nat_split rn (unat y) r < 2 ^ LENGTH('u)"
      using nat_split_le [OF rn(1) y(1) r] unsigned_less [of y] by (rule order_le_less_trans)
    ultimately show ?thesis using unat_add_small [of ?a ?b] by (simp only:)
  qed
  ultimately show ?thesis by blast
qed

text \<open>Whether there is a result does not depend on the rank.\<close>

lemma sumxy_split_None_rank:
  "sumxy_split n r y_max y = None \<longleftrightarrow> sumxy_split n r' y_max y = None"
  by (simp add: sumxy_split_def Let_def)

text \<open>
  With fewer units than ranks there is no partition: \<open>2 * (y / rn) - 1\<close> wraps around to the
  largest word instead of reaching the case the code has for it, every rank becomes a
  partition of its own, and the number of ranks per partition is zero.
\<close>

lemma sumxy_split_small:
  assumes w: "uint_width TYPE('u::len)" and m: "unat (y_max :: 'u word) < 2 ^ (LENGTH('u) - 1)"
    and rn: "2 \<le> rn" "rn < 2 ^ 15" and y: "unat (y :: 'u word) < rn"
  shows "sumxy_split (int rn) r y_max y = None"
proof -
  have l: "32 \<le> LENGTH('u)" by (rule uint_width_ge [OF w])
  let ?rn = "of_nat rn :: u32"
  have p: "(2::nat) ^ 32 \<le> 2 ^ LENGTH('u)" using l by (rule power_increasing) simp
  have urn: "unat ?rn = rn" "unat (ucast ?rn :: 'u word) = rn"
    using rn l by (simp_all add: unat_of_nat_small unat_ucast_up)
  then have "y div ucast ?rn = 0"
    using y by (simp add: word_unat_eq_iff unat_div)
  moreover have "?rn \<noteq> 1" using urn rn(1) by auto
  moreover have "ucast ?rn < (- 1 :: 'u word)"
  proof -
    have "unat (- 1 :: 'u word) = 2 ^ LENGTH('u) - 1" by (simp add: unsigned_minus_1_eq_mask mask_eq_exp_minus_1)
    moreover have "rn < 2 ^ LENGTH('u) - 1" using rn(2) p by simp
    ultimately show ?thesis by (simp only: word_less_nat_alt urn)
  qed
  ultimately have pn: "sumxy_parts ?rn y = ucast ?rn" by (simp add: sumxy_parts_def Let_def)
  have "rn * (rn + 1) \<le> 2 ^ 15 * 2 ^ 16" using rn(2) by (intro mult_le_mono) simp_all
  then have "unat (ucast ?rn :: 'u word) * (unat (ucast ?rn :: 'u word) + 1) < 2 ^ 32"
    unfolding urn by simp
  then have ps: "unat (sumxy_psum y_max (ucast ?rn :: 'u word)) = nat_psum rn"
    using unat_sumxy_psum [OF w m, of "ucast ?rn"] rn unfolding urn by simp
  have "rn * 3 \<le> rn * (rn + 1)" using rn(1) by (intro mult_le_mono2) simp
  then have "rn < nat_psum rn" using rn(1) unfolding nat_psum_def by linarith
  then have "y div sumxy_psum y_max (ucast ?rn :: 'u word) = 0"
    using y by (simp add: word_unat_eq_iff unat_div ps)
  moreover have "(0 :: 'u word) < ucast ?rn div ucast ?rn"
    using rn(1) by (simp add: word_less_nat_alt unat_div urn)
  ultimately show ?thesis
    by (simp add: sumxy_split_def Let_def pn)
qed

text \<open>The contributions of all ranks add up to the sum they agreed on.\<close>

lemma sumxy_split_sum:
  assumes "uint_width TYPE('u::len)" and "unat (y_max :: 'u word) < 2 ^ (LENGTH('u) - 1)"
    and "0 < n" "n < 2 ^ 31" and "nat n \<le> unat (y :: 'u word)" "unat y \<le> unat y_max"
  shows "(\<Sum>r\<in>{0..<n}. case sumxy_split n r y_max y of None \<Rightarrow> 0 | Some x \<Rightarrow> unat x) = unat y"
proof -
  have n31: "nat n < 2 ^ 31" using assms(4) by simp
  have "(\<Sum>r\<in>{0..<n}. case sumxy_split n r y_max y of None \<Rightarrow> 0 | Some x \<Rightarrow> unat x) =
      (\<Sum>r\<in>{..<nat n}. case sumxy_split n (int r) y_max y of None \<Rightarrow> 0 | Some x \<Rightarrow> unat x)"
    by (rule sum.reindex_bij_witness [of _ int nat]) auto
  also have "\<dots> = (\<Sum>r\<in>{..<nat n}. nat_split (nat n) (unat y) r)"
  proof (rule sum.cong)
    fix r assume "r \<in> {..<nat n}"
    then show "(case sumxy_split n (int r) y_max y of None \<Rightarrow> 0 | Some x \<Rightarrow> unat x) =
        nat_split (nat n) (unat y) r"
      using sumxy_split_eq [OF assms(1,2) _ n31 assms(5,6), of r] assms(3) by auto
  qed simp
  also have "\<dots> = unat y" using assms(3,5) by (intro sum_nat_split) auto
  finally show ?thesis .
qed

section \<open>Properties\<close>

text \<open>For 32- and 64-bit words, when the sum \<open>y\<close> all ranks agreed on is at least the rank count,
  \<open>genSumXY\<close> gives every rank a contribution, and the contributions add up to \<open>y\<close>.\<close>

theorem genSumXY_sums_up:
  fixes y_max y :: "'u::len word"
  assumes "uint_width TYPE('u)" and "unat y_max < 2 ^ (LENGTH('u) - 1)"
    and "0 < n" "n < 2 ^ 31" and "nat n \<le> (unat y_max + 1) div 2"
  shows "\<exists>ys x. (\<forall>r\<in>{0..<n}. genSumXY n r rng y_max y False = Some (x r, ys, mixBits rng))
    \<and> (\<Sum>r\<in>{0..<n}. unat (x r)) = unat ys \<and> (unat y_max + 1) div 2 \<le> unat ys \<and> unat ys \<le> unat y_max"
proof -
  let ?ys = "sumxy_pick rng y_max y False"
  let ?x = "\<lambda>r. the (sumxy_split n r y_max ?ys)"
  note b = unat_sumxy_pick_free(2,3) [OF assms(1,2), of rng y]
  have n: "nat n \<le> unat ?ys" using b(1) assms(5) by linarith
  have ex: "\<exists>x. sumxy_split n r y_max ?ys = Some x" if "r \<in> {0..<n}" for r
  proof -
    have "nat n < 2 ^ 31" using assms(4) by simp
    then show ?thesis
      using sumxy_split_eq [OF assms(1,2) _ _ n b(2), of "nat r"] assms(3) that by auto
  qed
  have "(\<Sum>r\<in>{0..<n}. unat (?x r)) =
      (\<Sum>r\<in>{0..<n}. case sumxy_split n r y_max ?ys of None \<Rightarrow> 0 | Some x \<Rightarrow> unat x)"
    by (rule sum.cong) (use ex in \<open>force split: option.split\<close>)+
  also have "\<dots> = unat ?ys" by (rule sumxy_split_sum [OF assms(1-4) n b(2)])
  finally have "(\<Sum>r\<in>{0..<n}. unat (?x r)) = unat ?ys" .
  moreover have "genSumXY n r rng y_max y False = Some (?x r, ?ys, mixBits rng)" if "r \<in> {0..<n}" for r
    using ex [OF that] by (auto simp: genSumXY_def Let_def)
  ultimately show ?thesis using b by (intro exI [of _ ?ys] exI [of _ ?x]) simp
qed

theorem genSumXY_sums_up_witness:
  "\<exists>ys x. (\<forall>r\<in>{0..<5}. genSumXY 5 r 0xfeed (2047 :: u32) 0 False = Some (x r, ys, mixBits 0xfeed))
    \<and> (\<Sum>r\<in>{0..<5}. unat (x r)) = unat ys"
  using genSumXY_sums_up [of "2047 :: u32" 5 "0xfeed" 0] by (force simp: uint_width_def)

text \<open>On request, the sum is picked unlike a given one of the upper half of the range; it is the given
  one again exactly when that is above the lower end and the draw is the largest possible one.\<close>

theorem genSumXY_avoids:
  fixes y_max y :: "'u::len word"
  assumes "uint_width TYPE('u)" and "unat y_max < 2 ^ (LENGTH('u) - 1)"
    and "2 \<le> unat y_max" and "(unat y_max + 1) div 2 \<le> unat y" "unat y \<le> unat y_max"
    and "genSumXY n r rng y_max y True = Some (x, y', rng')"
  shows "(unat y_max + 1) div 2 \<le> unat y' \<and> unat y' \<le> unat y_max \<and>
    (y' = y \<longleftrightarrow> (unat y_max + 1) div 2 < unat y \<and>
      unat (sumxy_draw rng (y_max div 2)) = unat y_max div 2 - 1)"
  using sumxy_pick_avoid_bounds [OF assms(1-5), of rng] assms(6)
  by (auto simp: genSumXY_def Let_def)

theorem genSumXY_avoids_witness:
  "genSumXY 2 0 0xffffffff (15 :: u32) 12 True = Some (1, 12, mixBits 0xffffffff)"
proof -
  let ?y = "sumxy_pick 0xffffffff (15 :: u32) 12 True"
  have x: "genSumXY 2 0 0xffffffff (15 :: u32) 12 True = Some (1, ?y, mixBits 0xffffffff)"
    by (simp add: genSumXY_def sumxy_pick_def sumxy_draw_def umul32hi_def lo32_def
        sumxy_split_def Let_def sumxy_parts_def sumxy_psum_def)
  have "sumxy_draw 0xffffffff (7 :: u32) = 6"
    by (simp add: sumxy_draw_def umul32hi_def lo32_def)
  then have "?y = 12"
    using genSumXY_avoids [OF _ _ _ _ _ x] by (simp add: uint_width_def)
  with x show ?thesis by simp
qed

text \<open>When the range of the sum has fewer units than there are ranks (and more than one rank), no rank
  gets a contribution: the ranks per partition come out as zero, and the code divides by them.\<close>

theorem genSumXY_small_range:
  fixes y_max y :: "'u::len word"
  assumes "uint_width TYPE('u)" and "unat y_max < 2 ^ (LENGTH('u) - 1)"
    and "2 \<le> n" "n < 2 ^ 15" and "int (unat y_max) < n"
  shows "genSumXY n r rng y_max y False = None"
proof -
  have "unat (sumxy_pick rng y_max y False) < nat n"
    using unat_sumxy_pick_free(3) [OF assms(1,2), of rng y] assms(5) by linarith
  moreover have "2 \<le> nat n" "nat n < 2 ^ 15" using assms(3,4) by auto
  ultimately have "sumxy_split n r y_max (sumxy_pick rng y_max y False) = None"
    using sumxy_split_small [OF assms(1,2), of "nat n" _ r] assms(3) by simp
  then show ?thesis by (simp add: genSumXY_def Let_def)
qed

theorem genSumXY_small_range_witness:
  "genSumXY 9 0 1 (7 :: u32) 0 False = None"
  using genSumXY_small_range [of "7 :: u32" 9 0 1 0] by (simp add: uint_width_def)

end
