(* ===== verification/VerifFloat.thy ===== *)
theory VerifFloat
  imports VerifSumXY
begin

text \<open>
  Floating point data of verifiable/verifiable.cu: the layouts \<open>FloatLayout\<close> of the six types,
  \<open>makeFloat\<close>, the numbers that a bit pattern stands for, and IEEE addition of two of them. A value of
  a floating point type is its bit pattern in the low bits of a \<^typ>\<open>u64\<close>. The number a
  finite pattern stands for is an integer, counted in units of the smallest positive number
  of the type, so that sums are integer sums.
\<close>

section \<open>Layouts\<close>

record float_layout =
  exponent_bits :: nat
  mantissa_bits :: nat

definition float_bits :: "float_layout \<Rightarrow> nat" where
  "float_bits fl = 1 + exponent_bits fl + mantissa_bits fl"

definition exponent_bias :: "float_layout \<Rightarrow> int" where
  "exponent_bias fl = push_bit (exponent_bits fl - 1) 1 - 1"

definition float32 :: float_layout where "float32 = \<lparr>exponent_bits = 8, mantissa_bits = 23\<rparr>"
definition float64 :: float_layout where "float64 = \<lparr>exponent_bits = 11, mantissa_bits = 52\<rparr>"
definition float16 :: float_layout where "float16 = \<lparr>exponent_bits = 5, mantissa_bits = 10\<rparr>"
definition bfloat16 :: float_layout where "bfloat16 = \<lparr>exponent_bits = 8, mantissa_bits = 7\<rparr>"
definition float8e4m3 :: float_layout where "float8e4m3 = \<lparr>exponent_bits = 4, mantissa_bits = 3\<rparr>"
definition float8e5m2 :: float_layout where "float8e5m2 = \<lparr>exponent_bits = 5, mantissa_bits = 2\<rparr>"

definition float_layouts :: "float_layout list" where
  "float_layouts = [float32, float64, float16, bfloat16, float8e4m3, float8e5m2]"

lemmas float_layout_defs = float32_def float64_def float16_def bfloat16_def float8e4m3_def float8e5m2_def

text \<open>What the generators use of a layout.\<close>

definition wf_layout :: "float_layout \<Rightarrow> bool" where
  "wf_layout fl \<longleftrightarrow> 2 \<le> mantissa_bits fl \<and> 4 \<le> exponent_bits fl \<and> exponent_bits fl \<le> 11 \<and>
     mantissa_bits fl + 4 \<le> 2 ^ exponent_bits fl \<and> mantissa_bits fl + 2 \<le> 2 ^ (exponent_bits fl - 1) \<and>
     (if float_bits fl > 32 then mantissa_bits fl \<le> 52 else mantissa_bits fl \<le> 23)"

lemma wf_layouts: "fl \<in> set float_layouts \<Longrightarrow> wf_layout fl"
  by (auto simp: float_layouts_def float_layout_defs wf_layout_def float_bits_def)

lemma wf_layoutD:
  assumes "wf_layout fl"
  shows "2 \<le> mantissa_bits fl" "4 \<le> exponent_bits fl" "exponent_bits fl \<le> 11" "mantissa_bits fl \<le> 52"
    "mantissa_bits fl + 4 \<le> 2 ^ exponent_bits fl" "float_bits fl \<le> 64"
    "mantissa_bits fl + 2 \<le> 2 ^ (exponent_bits fl - 1)"
  using assms by (auto simp: wf_layout_def float_bits_def split: if_splits)

section \<open>Building a value\<close>

definition makeFloat :: "float_layout \<Rightarrow> int \<Rightarrow> int \<Rightarrow> u64 \<Rightarrow> u64" where
  "makeFloat fl sign e mant =
     (let bits = u64_of_int sign;
          bits = push_bit (exponent_bits fl) bits;
          bits = bits OR u64_of_int e;
          bits = push_bit (mantissa_bits fl) bits;
          bits = bits OR mant
      in take_bit (float_bits fl) bits)"

lemma unat_push_or:
  fixes a b :: "'a::len word"
  assumes "unat b < 2 ^ k" and "unat a * 2 ^ k + unat b < 2 ^ LENGTH('a)" and "k < LENGTH('a)"
  shows "unat (push_bit k a OR b) = unat a * 2 ^ k + unat b"
proof -
  have "\<not> bit b n" if "k \<le> n" for n
  proof -
    have "(2::nat) ^ k \<le> 2 ^ n" using that by (rule power_increasing) simp
    with assms(1) have "unat b < 2 ^ n" by linarith
    then show ?thesis by (simp add: bit_iff_odd_unat div_eq_0_iff)
  qed
  then have "\<not> bit (push_bit k a) n \<or> \<not> bit b n" for n
    by (cases "k \<le> n") (simp_all add: bit_simps)
  then have or: "push_bit k a OR b = push_bit k a + b" by (simp add: disjunctive_add)
  have "unat (2 ^ k :: 'a word) = 2 ^ k" using assms(3) by (rule unat_pow2)
  then have "unat (a * 2 ^ k) = unat a * 2 ^ k"
    using unat_mult_small [of a "2 ^ k"] assms(2) by simp
  then have "unat (push_bit k a) = unat a * 2 ^ k" by (simp add: push_bit_eq_mult)
  with or assms(2) show ?thesis by (simp add: unat_add_small)
qed

lemma unat_makeFloat:
  assumes "wf_layout fl" and "sign = 0 \<or> sign = 1"
    and "0 \<le> e" "e < 2 ^ exponent_bits fl" "unat mant < 2 ^ mantissa_bits fl"
  shows "unat (makeFloat fl sign e mant) =
    (nat sign * 2 ^ exponent_bits fl + nat e) * 2 ^ mantissa_bits fl + unat mant"
proof -
  note wf = wf_layoutD [OF assms(1)]
  let ?eb = "exponent_bits fl" and ?mb = "mantissa_bits fl"
  have eb63: "?eb + ?mb \<le> 63" using wf(6) by (simp add: float_bits_def)
  then have b63: "?eb \<le> 63" by simp
  have pw: "(2::nat) ^ ?eb \<le> 2 ^ 63" using b63 by (rule power_increasing) simp
  have us: "unat (u64_of_int sign) = nat sign" using assms(2) by auto
  have "nat e < nat (2 ^ ?eb)" using assms(3,4) by (simp only: nat_less_eq_zless)
  then have en: "nat e < 2 ^ ?eb" by (simp add: nat_power_eq)
  have e63: "nat e < 2 ^ 63" using en pw by (rule order_less_le_trans)
  then have "nat e < 2 ^ LENGTH(64)" by simp
  then have ue: "unat (u64_of_int e) = nat e"
    using unat_of_nat_small [where 'a = 64, of "nat e"] assms(3) by simp
  have sg: "nat sign \<le> 1" using assms(2) by auto
  let ?A = "push_bit ?eb (u64_of_int sign) OR u64_of_int e"
  have sm: "nat sign * 2 ^ ?eb \<le> 1 * 2 ^ ?eb" using sg by (rule mult_le_mono1)
  have "nat sign * 2 ^ ?eb + nat e < 2 ^ 63 + 2 ^ 63" using sm e63 pw by linarith
  then have uA: "unat ?A = nat sign * 2 ^ ?eb + nat e"
    using unat_push_or [of "u64_of_int e" ?eb "u64_of_int sign"] us ue en b63 by simp
  have "unat ?A + 1 \<le> 2 * 2 ^ ?eb" using uA sm en by linarith
  then have "(unat ?A + 1) * 2 ^ ?mb \<le> (2 * 2 ^ ?eb) * 2 ^ ?mb" by (rule mult_le_mono1)
  also have "\<dots> = 2 ^ float_bits fl" by (simp add: float_bits_def power_add)
  finally have lt: "unat ?A * 2 ^ ?mb + unat mant < 2 ^ float_bits fl" using assms(5) by (simp add: algebra_simps)
  have "(2::nat) ^ float_bits fl \<le> 2 ^ LENGTH(64)" using wf(6) by (intro power_increasing) simp_all
  with lt have "unat (push_bit ?mb ?A OR mant) = unat ?A * 2 ^ ?mb + unat mant"
    using assms(5) wf(4) by (intro unat_push_or) simp_all
  with lt uA show ?thesis
    by (simp only: makeFloat_def Let_def unsigned_take_bit_eq take_bit_nat_eq_self)
qed

section \<open>The number a value stands for\<close>

definition float_sign :: "float_layout \<Rightarrow> u64 \<Rightarrow> bool" where
  "float_sign fl w = bit w (exponent_bits fl + mantissa_bits fl)"

definition float_exp :: "float_layout \<Rightarrow> u64 \<Rightarrow> nat" where
  "float_exp fl w = unat w div 2 ^ mantissa_bits fl mod 2 ^ exponent_bits fl"

definition float_mant :: "float_layout \<Rightarrow> u64 \<Rightarrow> nat" where
  "float_mant fl w = unat w mod 2 ^ mantissa_bits fl"

definition float_mag :: "float_layout \<Rightarrow> u64 \<Rightarrow> nat" where
  "float_mag fl w =
     (if float_exp fl w = 0 then float_mant fl w
      else (2 ^ mantissa_bits fl + float_mant fl w) * 2 ^ (float_exp fl w - 1))"

definition float_val :: "float_layout \<Rightarrow> u64 \<Rightarrow> int" where
  "float_val fl w = (if float_sign fl w then - int (float_mag fl w) else int (float_mag fl w))"

text \<open>
  The patterns with the largest exponent are left out (infinities and NaNs, or the last
  binade of the 8-bit type that has no infinities): a finite pattern has a smaller exponent.
\<close>

definition float_finite :: "float_layout \<Rightarrow> u64 \<Rightarrow> bool" where
  "float_finite fl w \<longleftrightarrow> float_exp fl w < 2 ^ exponent_bits fl - 1 \<and> unat w < 2 ^ float_bits fl"

lemma makeFloat_fields:
  assumes "wf_layout fl" and "sign = 0 \<or> sign = 1"
    and "0 \<le> e" "e < 2 ^ exponent_bits fl" "unat mant < 2 ^ mantissa_bits fl"
  shows "float_sign fl (makeFloat fl sign e mant) \<longleftrightarrow> sign = 1"
    and "float_exp fl (makeFloat fl sign e mant) = nat e"
    and "float_mant fl (makeFloat fl sign e mant) = unat mant"
    and "unat (makeFloat fl sign e mant) < 2 ^ float_bits fl"
proof -
  let ?eb = "exponent_bits fl" and ?mb = "mantissa_bits fl"
  note u = unat_makeFloat [OF assms]
  have "nat e < nat (2 ^ ?eb)" using assms(3,4) by (simp only: nat_less_eq_zless)
  then have en: "nat e < 2 ^ ?eb" by (simp add: nat_power_eq)
  have d: "unat (makeFloat fl sign e mant) div 2 ^ ?mb = nat sign * 2 ^ ?eb + nat e"
    using assms(5) by (simp add: u)
  then show "float_exp fl (makeFloat fl sign e mant) = nat e"
    using en by (simp add: float_exp_def)
  show "float_mant fl (makeFloat fl sign e mant) = unat mant"
    using assms(5) by (simp add: float_mant_def u)
  have "unat (makeFloat fl sign e mant) div 2 ^ (?eb + ?mb) = nat sign"
    using d en by (simp add: power_add mult.commute [of "2 ^ ?eb"] div_mult2_eq)
  then show "float_sign fl (makeFloat fl sign e mant) \<longleftrightarrow> sign = 1"
    using assms(2) by (auto simp: float_sign_def bit_iff_odd_unat)
  show "unat (makeFloat fl sign e mant) < 2 ^ float_bits fl"
    by (simp only: makeFloat_def Let_def unsigned_take_bit_eq take_bit_nat_less_exp)
qed

text \<open>
  The end of two of the generators: an integer mantissa and an exponent become a value, by
  shifting the mantissa until its leading one reaches the implicit bit.
\<close>

definition float_of_mant :: "float_layout \<Rightarrow> int \<Rightarrow> int \<Rightarrow> 'u::len word \<Rightarrow> u64" where
  "float_of_mant fl ans_sign xy_exp ans_mant =
     (let mant_mask = push_bit (mantissa_bits fl) 1 - 1
      in if ans_mant = 0 then 0 else
         let shift = int (clz64 (ucast ans_mant)) - (64 - int (mantissa_bits fl) - 1);
             ans_exp = xy_exp - shift;
             ans_mant = push_bit (nat shift) ans_mant
         in makeFloat fl ans_sign ans_exp (ucast (ans_mant AND mant_mask)))"

lemma normalize_shift:
  fixes a mb c :: nat
  assumes "0 < a" "a < 2 ^ Suc mb" "2 ^ (63 - c) \<le> a" "a < 2 ^ (64 - c)" "c < 64" "mb \<le> 62"
  shows "63 - mb \<le> c" and "c + mb - 63 \<le> mb"
    and "2 ^ mb \<le> a * 2 ^ (c + mb - 63)" and "a * 2 ^ (c + mb - 63) < 2 ^ Suc mb"
proof -
  have "(2::nat) ^ (63 - c) < 2 ^ Suc mb" using assms(2,3) by linarith
  then have "63 - c < Suc mb" by (rule power_less_imp_less_exp [rotated]) simp
  then show c: "63 - mb \<le> c" "c + mb - 63 \<le> mb" using assms(5,6) by auto
  have m: "63 - c + (c + mb - 63) = mb" "64 - c + (c + mb - 63) = Suc mb" using c assms(5,6) by auto
  have "2 ^ (63 - c) * 2 ^ (c + mb - 63) \<le> a * 2 ^ (c + mb - 63)" using assms(3) by (rule mult_le_mono1)
  then show "2 ^ mb \<le> a * 2 ^ (c + mb - 63)" by (simp only: power_add [symmetric] m)
  have "a * 2 ^ (c + mb - 63) < 2 ^ (64 - c) * 2 ^ (c + mb - 63)" using assms(4) by simp
  then show "a * 2 ^ (c + mb - 63) < 2 ^ Suc mb" by (simp only: power_add [symmetric] m)
qed

lemma float_of_mant_zero [simp]: "float_of_mant fl s e 0 = 0"
  by (simp add: float_of_mant_def Let_def)

lemma float_of_mant:
  fixes a :: "'u::len word"
  assumes wf: "wf_layout fl" and l: "mantissa_bits fl + 2 \<le> LENGTH('u)" "LENGTH('u) \<le> 64"
    and s: "sign = 0 \<or> sign = 1"
    and a: "a \<noteq> 0" "unat a < 2 ^ Suc (mantissa_bits fl)"
    and e: "int (mantissa_bits fl) + 1 \<le> e" "e \<le> 2 ^ exponent_bits fl - 2"
  shows "float_sign fl (float_of_mant fl sign e a) \<longleftrightarrow> sign = 1"
    and "float_mag fl (float_of_mant fl sign e a) = unat a * 2 ^ (nat e - 1)"
    and "float_finite fl (float_of_mant fl sign e a)"
proof -
  let ?mb = "mantissa_bits fl" and ?eb = "exponent_bits fl"
  let ?c = "clz64 (ucast a)" and ?s = "clz64 (ucast a) + mantissa_bits fl - 63"
  note wf' = wf_layoutD [OF wf]
  have ua: "unat (ucast a :: u64) = unat a" using l(2) by (simp add: unat_ucast_up)
  have pos: "0 < unat a" using a(1) by (simp add: word_unat_eq_iff)
  then have "(ucast a :: u64) \<noteq> 0" using ua by (auto simp: word_unat_eq_iff)
  from clz64_bounds [OF this, unfolded ua] have c: "?c < 64" "2 ^ (63 - ?c) \<le> unat a" "unat a < 2 ^ (64 - ?c)"
    by auto
  have "?mb \<le> 62" using wf'(4) by simp
  note n = normalize_shift [OF pos a(2) c(2,3,1) this]
  have sh: "int ?c - (64 - int ?mb - 1) = int ?s" using n(1) wf'(4) by linarith
  have fit: "(2::nat) ^ Suc ?mb < 2 ^ LENGTH('u)" using l(1) by (intro power_strict_increasing) simp_all
  have "unat (2 ^ ?s :: 'u word) = 2 ^ ?s" using n(2) l(1) by (intro unat_pow2) simp
  then have up: "unat (push_bit ?s a) = unat a * 2 ^ ?s"
    using unat_mult_small [of a "2 ^ ?s"] n(4) fit by (simp add: push_bit_eq_mult)
  have "(push_bit ?mb 1 - 1 :: 'u word) = mask ?mb" by (simp add: mask_eq_exp_minus_1 push_bit_eq_mult)
  then have um: "unat (push_bit ?s a AND (push_bit ?mb 1 - 1)) = unat a * 2 ^ ?s - 2 ^ ?mb"
  proof -
    have "unat a * 2 ^ ?s mod 2 ^ ?mb = unat a * 2 ^ ?s - 2 ^ ?mb"
      using n(3,4) by (simp add: le_mod_geq)
    then show ?thesis by (simp only: \<open>push_bit ?mb 1 - 1 = mask ?mb\<close> unat_and_mask up)
  qed
  let ?m = "ucast (push_bit ?s a AND (push_bit ?mb 1 - 1)) :: u64"
  have um': "unat ?m = unat a * 2 ^ ?s - 2 ^ ?mb" using l(2) um by (simp add: unat_ucast_up)
  have eq: "float_of_mant fl sign e a = makeFloat fl sign (e - int ?s) ?m"
    unfolding float_of_mant_def Let_def sh nat_int using a(1) by (simp only: if_False)
  have ee: "1 \<le> e - int ?s" "e - int ?s < 2 ^ ?eb" using e n(2) by linarith+
  have "unat ?m < 2 ^ ?mb" using um' n(4) by simp
  note f = makeFloat_fields [OF wf s _ ee(2) this]
  show "float_sign fl (float_of_mant fl sign e a) \<longleftrightarrow> sign = 1"
    using f(1) ee(1) by (simp add: eq)
  have ne: "nat (e - int ?s) \<noteq> 0" using ee(1) by simp
  have sum: "2 ^ ?mb + unat ?m = unat a * 2 ^ ?s" using um' n(3) by linarith
  have e0: "0 \<le> e - int ?s" using ee(1) by linarith
  have "float_mag fl (float_of_mant fl sign e a) = (unat a * 2 ^ ?s) * 2 ^ (nat (e - int ?s) - 1)"
    unfolding float_mag_def eq f(2) [OF e0] f(3) [OF e0] sum using ne by (simp only: if_False)
  also have "\<dots> = unat a * 2 ^ (?s + (nat (e - int ?s) - 1))" by (simp add: power_add)
  also have "?s + (nat (e - int ?s) - 1) = nat e - 1" using ee(1) by linarith
  finally show "float_mag fl (float_of_mant fl sign e a) = unat a * 2 ^ (nat e - 1)" .
  have "nat (e - int ?s) < 2 ^ ?eb - 1"
  proof -
    have "e - int ?s < int (2 ^ ?eb - 1)" using e(2) by (simp add: of_nat_diff)
    then show ?thesis using ee(1) by linarith
  qed
  then show "float_finite fl (float_of_mant fl sign e a)"
    using f(2,4) ee(1) by (simp add: float_finite_def eq)
qed

lemma float_fields_zero [simp]:
  "float_sign fl 0 \<longleftrightarrow> False" "float_exp fl 0 = 0" "float_mant fl 0 = 0" "float_mag fl 0 = 0" "float_val fl 0 = 0"
  by (simp_all add: float_sign_def float_exp_def float_mant_def float_mag_def float_val_def)

lemma float_finite_zero [simp]: "wf_layout fl \<Longrightarrow> float_finite fl 0"
  using wf_layoutD(2) [of fl] power_increasing [of 4 "exponent_bits fl" "2::nat"]
  by (simp add: float_finite_def)

lemma float_val_of_mant:
  fixes a :: "'u::len word"
  assumes "wf_layout fl" and "mantissa_bits fl + 2 \<le> LENGTH('u)" "LENGTH('u) \<le> 64"
    and "sign = 0 \<or> sign = 1" and "unat a < 2 ^ Suc (mantissa_bits fl)"
    and "int (mantissa_bits fl) + 1 \<le> e" "e \<le> 2 ^ exponent_bits fl - 2"
  shows "float_val fl (float_of_mant fl sign e a) =
      (if sign = 1 then - 1 else 1) * int (unat a) * 2 ^ (nat e - 1)"
    and "float_finite fl (float_of_mant fl sign e a)"
proof -
  show "float_val fl (float_of_mant fl sign e a) =
      (if sign = 1 then - 1 else 1) * int (unat a) * 2 ^ (nat e - 1)"
  proof (cases "a = 0")
    case False
    show ?thesis unfolding float_val_def float_of_mant(1,2) [OF assms(1-4) False assms(5-7)] by simp
  qed simp
  show "float_finite fl (float_of_mant fl sign e a)"
    using float_of_mant(3) [OF assms(1-4) _ assms(5-7)] assms(1) by (cases "a = 0") simp_all
qed

end
