(* ===== verification/VerifReduction.thy ===== *)
theory VerifReduction
  imports NcclPrelude
begin

text \<open>
  Reductions of one value per rank. The library combines the values in some tree over the
  ranks (a ring, a binary tree, or a plain loop are instances). A reduction functor is used
  through the contract \<open>reducer\<close>: values stand for elements of a commutative structure, and
  combining two values is exact whenever the result is an element that values can stand for.
\<close>

datatype redtree = Rank int | Join redtree redtree

fun leaves :: "redtree \<Rightarrow> int list" where
  "leaves (Rank r) = [r]"
| "leaves (Join a b) = leaves a @ leaves b"

fun reduce_tree :: "('v \<Rightarrow> 'v \<Rightarrow> 'v option) \<Rightarrow> (int \<Rightarrow> 'v option) \<Rightarrow> redtree \<Rightarrow> 'v option" where
  "reduce_tree add input (Rank r) = input r"
| "reduce_tree add input (Join a b) =
     (case reduce_tree add input a of None \<Rightarrow> None
      | Some x \<Rightarrow> (case reduce_tree add input b of None \<Rightarrow> None | Some y \<Rightarrow> add x y))"

lemma leaves_nonempty [simp]: "leaves t \<noteq> []"
  by (induction t) auto

text \<open>The loop from rank 0 upwards, as the generic \<open>genOutput\<close> performs it, is a tree.\<close>

fun loop_tree :: "nat \<Rightarrow> redtree" where
  "loop_tree 0 = Rank 0"
| "loop_tree (Suc n) = Join (loop_tree n) (Rank (int (Suc n)))"

lemma leaves_loop_tree: "leaves (loop_tree n) = map int [0..<Suc n]"
  by (induction n) auto

lemma loop_tree_leaves:
  assumes "0 < n"
  shows "set (leaves (loop_tree (nat n - 1))) = {0..<n}" and "distinct (leaves (loop_tree (nat n - 1)))"
proof -
  have "Suc (nat n - 1) = nat n" using assms by simp
  then have l: "leaves (loop_tree (nat n - 1)) = map int [0..<nat n]" by (simp only: leaves_loop_tree)
  show "set (leaves (loop_tree (nat n - 1))) = {0..<n}"
    unfolding l by (simp add: image_int_atLeastLessThan)
  show "distinct (leaves (loop_tree (nat n - 1)))" unfolding l by (simp add: distinct_map)
qed

locale reducer =
  fixes combine :: "'v \<Rightarrow> 'v \<Rightarrow> 'v option"
    and canon :: "'v \<Rightarrow> bool" and val :: "'v \<Rightarrow> 'm" and rep :: "'m \<Rightarrow> bool"
    and op :: "'m \<Rightarrow> 'm \<Rightarrow> 'm" and total :: "(int \<Rightarrow> 'm) \<Rightarrow> int set \<Rightarrow> 'm"
  assumes total_single: "total f {r} = f r"
    and total_union: "finite A \<Longrightarrow> finite B \<Longrightarrow> A \<noteq> {} \<Longrightarrow> B \<noteq> {} \<Longrightarrow> A \<inter> B = {} \<Longrightarrow>
      total f (A \<union> B) = op (total f A) (total f B)"
    and combine_exact: "canon a \<Longrightarrow> canon b \<Longrightarrow> rep (op (val a) (val b)) \<Longrightarrow>
      \<exists>c. combine a b = Some c \<and> canon c \<and> val c = op (val a) (val b)"
    and canon_inj: "canon a \<Longrightarrow> canon b \<Longrightarrow> val a = val b \<Longrightarrow> a = b"
begin

text \<open>
  When the total over every set of ranks can be represented, no tree loses anything: the
  result stands for the total over its leaves.
\<close>

lemma reduce_tree_exact:
  assumes inputs: "\<And>r. r \<in> R \<Longrightarrow> \<exists>v. input r = Some v \<and> canon v \<and> val v = x r"
    and reps: "\<And>S. S \<subseteq> R \<Longrightarrow> rep (total x S)"
    and "set (leaves t) \<subseteq> R" and "distinct (leaves t)"
  shows "\<exists>c. reduce_tree combine input t = Some c \<and> canon c \<and> val c = total x (set (leaves t))"
  using assms(3,4)
proof (induction t)
  case (Rank r)
  with inputs [of r] show ?case by (auto simp: total_single)
next
  case (Join t1 t2)
  from Join.IH(1) Join.prems obtain a where a: "reduce_tree combine input t1 = Some a" "canon a"
    "val a = total x (set (leaves t1))" by auto
  from Join.IH(2) Join.prems obtain b where b: "reduce_tree combine input t2 = Some b" "canon b"
    "val b = total x (set (leaves t2))" by auto
  have tot: "total x (set (leaves (Join t1 t2))) = op (total x (set (leaves t1))) (total x (set (leaves t2)))"
    using Join.prems(2) by (simp add: total_union)
  have "rep (op (val a) (val b))"
    using reps [OF Join.prems(1)] by (simp only: tot a(3) b(3))
  from combine_exact [OF a(2) b(2) this] show ?case
    using a(1,3) b(1,3) by (simp only: tot) auto
qed

text \<open>So every tree over all ranks yields the one value that stands for the total.\<close>

lemma reduce_tree_expected:
  assumes "\<And>r. r \<in> R \<Longrightarrow> \<exists>v. input r = Some v \<and> canon v \<and> val v = x r"
    and "\<And>S. S \<subseteq> R \<Longrightarrow> rep (total x S)"
    and "set (leaves t) = R" and "distinct (leaves t)"
    and "canon y" and "val y = total x R"
  shows "reduce_tree combine input t = Some y"
  using reduce_tree_exact [of R input x t] assms canon_inj by (metis subset_refl)

text \<open>Any two trees over the same ranks agree.\<close>

lemma reduce_tree_unique:
  assumes "\<And>r. r \<in> R \<Longrightarrow> \<exists>v. input r = Some v \<and> canon v \<and> val v = x r"
    and "\<And>S. S \<subseteq> R \<Longrightarrow> rep (total x S)"
    and "set (leaves t) = R" "distinct (leaves t)" and "set (leaves t') = R" "distinct (leaves t')"
  shows "reduce_tree combine input t = reduce_tree combine input t'"
  using reduce_tree_exact [of R input x t'] reduce_tree_expected [of R input x t] assms
  by (metis subset_refl)

end

end
