(* ===== verification/VerifFloatArith.thy ===== *)
theory VerifFloatArith
  imports VerifFloat VerifReduction
begin

text \<open>
  Addition and multiplication of floating point values, as the functors \<open>ReduceSum\<close> and
  \<open>ReduceProd\<close> of verifiable/verifiable.cu perform them: the exact result, rounded to nearest
  with ties to even. The clients only rely on the contracts \<open>float_adder\<close> and
  \<open>float_multiplier\<close>: a result that the type can hold is not rounded.
\<close>

section \<open>Values that a type can hold\<close>

definition representable :: "float_layout \<Rightarrow> int \<Rightarrow> bool" where
  "representable fl v \<longleftrightarrow>
     (\<exists>m k. \<bar>v\<bar> = int m * 2 ^ k \<and> m < 2 ^ Suc (mantissa_bits fl) \<and> k + 3 \<le> 2 ^ exponent_bits fl)"

text \<open>A finite value, with no negative zero: these are determined by their number.\<close>

definition float_canon :: "float_layout \<Rightarrow> u64 \<Rightarrow> bool" where
  "float_canon fl w \<longleftrightarrow> float_finite fl w \<and> (float_val fl w = 0 \<longrightarrow> w = 0)"

lemma float_mag_bounds:
  "float_exp fl w = 0 \<Longrightarrow> float_mag fl w < 2 ^ mantissa_bits fl"
  "float_exp fl w \<noteq> 0 \<Longrightarrow> 2 ^ (mantissa_bits fl + float_exp fl w - 1) \<le> float_mag fl w"
  "float_exp fl w \<noteq> 0 \<Longrightarrow> float_mag fl w < 2 ^ (mantissa_bits fl + float_exp fl w)"
proof -
  show "float_exp fl w = 0 \<Longrightarrow> float_mag fl w < 2 ^ mantissa_bits fl"
    by (simp add: float_mag_def float_mant_def)
  assume e: "float_exp fl w \<noteq> 0"
  then have s: "mantissa_bits fl + float_exp fl w - 1 = mantissa_bits fl + (float_exp fl w - 1)"
    "mantissa_bits fl + float_exp fl w = Suc (mantissa_bits fl) + (float_exp fl w - 1)" by auto
  have "float_mant fl w < 2 ^ mantissa_bits fl" by (simp add: float_mant_def)
  then show "2 ^ (mantissa_bits fl + float_exp fl w - 1) \<le> float_mag fl w"
    "float_mag fl w < 2 ^ (mantissa_bits fl + float_exp fl w)"
    unfolding s(1) unfolding s(2) float_mag_def power_add using e by simp_all
qed

lemma float_mag_exp_less:
  assumes "float_exp fl a < float_exp fl b"
  shows "float_mag fl a < float_mag fl b"
proof -
  have "float_mag fl a < 2 ^ (mantissa_bits fl + float_exp fl a)"
    using float_mag_bounds(1,3) [of fl a] by (cases "float_exp fl a = 0") simp_all
  also have "(2::nat) ^ (mantissa_bits fl + float_exp fl a) \<le> 2 ^ (mantissa_bits fl + float_exp fl b - 1)"
    using assms by (intro power_increasing) simp_all
  also have "\<dots> \<le> float_mag fl b" using assms by (intro float_mag_bounds(2)) simp
  finally show ?thesis .
qed

lemma unat_float_fields:
  assumes "unat w < 2 ^ float_bits fl"
  shows "unat w = (of_bool (float_sign fl w) * 2 ^ exponent_bits fl + float_exp fl w) * 2 ^ mantissa_bits fl
    + float_mant fl w"
proof -
  let ?q = "unat w div 2 ^ mantissa_bits fl"
  have "?q < 2 * 2 ^ exponent_bits fl"
    using assms by (simp add: float_bits_def power_add less_mult_imp_div_less algebra_simps)
  then have "?q div 2 ^ exponent_bits fl < 2" by (simp add: less_mult_imp_div_less)
  then have "?q div 2 ^ exponent_bits fl = of_bool (odd (?q div 2 ^ exponent_bits fl))"
    by (auto simp: less_2_cases_iff)
  moreover have "odd (?q div 2 ^ exponent_bits fl) \<longleftrightarrow> float_sign fl w"
    by (simp only: float_sign_def bit_iff_odd_unat power_add add.commute [of "exponent_bits fl"] div_mult2_eq)
  ultimately have "?q div 2 ^ exponent_bits fl = of_bool (float_sign fl w)" by (simp only:)
  then have "?q = of_bool (float_sign fl w) * 2 ^ exponent_bits fl + float_exp fl w"
    using div_mult_mod_eq [of ?q "2 ^ exponent_bits fl"] by (simp only: float_exp_def)
  then show ?thesis
    using div_mult_mod_eq [of "unat w" "2 ^ mantissa_bits fl"] by (simp only: float_mant_def)
qed

lemma float_canon_inj:
  assumes a: "float_canon fl a" and b: "float_canon fl b" and eq: "float_val fl a = float_val fl b"
  shows "a = b"
proof (cases "float_val fl a = 0")
  case True
  with assms show ?thesis by (simp add: float_canon_def)
next
  case False
  have s: "float_sign fl a = float_sign fl b" and m: "float_mag fl a = float_mag fl b"
    using False eq by (auto simp: float_val_def split: if_splits)
  have e: "float_exp fl a = float_exp fl b"
    using float_mag_exp_less [of fl a b] float_mag_exp_less [of fl b a] m by (metis less_irrefl linorder_neqE_nat)
  with m have "float_mant fl a = float_mant fl b" by (simp add: float_mag_def split: if_splits)
  with s e have "unat a = unat b"
    using unat_float_fields [of a fl] unat_float_fields [of b fl] a b
    by (simp add: float_canon_def float_finite_def)
  then show ?thesis by (simp add: word_unat_eq_iff)
qed

lemma float_canon_of_mant:
  fixes a :: "'u::len word"
  assumes "wf_layout fl" and "mantissa_bits fl + 2 \<le> LENGTH('u)" "LENGTH('u) \<le> 64"
    and "sign = 0 \<or> sign = 1" and "unat a < 2 ^ Suc (mantissa_bits fl)"
    and "int (mantissa_bits fl) + 1 \<le> e" "e \<le> 2 ^ exponent_bits fl - 2"
  shows "float_canon fl (float_of_mant fl sign e a)"
proof -
  have "a = 0" if "float_val fl (float_of_mant fl sign e a) = 0"
    using that unfolding float_val_of_mant(1) [OF assms] by (auto simp: uint_0_iff split: if_splits)
  then show ?thesis using float_val_of_mant(2) [OF assms] by (auto simp: float_canon_def)
qed

section \<open>Rounding to nearest, ties to even\<close>

fun bit_length :: "nat \<Rightarrow> nat" where
  "bit_length n = (if n = 0 then 0 else Suc (bit_length (n div 2)))"

declare bit_length.simps [simp del]

lemma bit_length_0 [simp]: "bit_length 0 = 0"
  by (simp add: bit_length.simps)

lemma bit_length_bounds: "n \<noteq> 0 \<Longrightarrow> 0 < bit_length n \<and> 2 ^ (bit_length n - 1) \<le> n \<and> n < 2 ^ bit_length n"
proof (induction n rule: bit_length.induct)
  case (1 n)
  show ?case
  proof (cases "n div 2 = 0")
    case True
    with 1 have "n = 1" by linarith
    then show ?thesis by (simp add: bit_length.simps)
  next
    case False
    with 1 have "2 ^ (bit_length (n div 2) - 1) \<le> n div 2" "n div 2 < 2 ^ bit_length (n div 2)"
      "0 < bit_length (n div 2)" by auto
    moreover have "bit_length n = Suc (bit_length (n div 2))" using 1 by (simp add: bit_length.simps [of n])
    moreover have "(2::nat) ^ bit_length (n div 2) = 2 * 2 ^ (bit_length (n div 2) - 1)"
      using \<open>0 < bit_length (n div 2)\<close> by (simp flip: power_Suc)
    moreover have "2 * (n div 2) \<le> n" "n < 2 * (n div 2) + 2" by linarith+
    ultimately have "0 < bit_length n \<and> 2 * 2 ^ (bit_length (n div 2) - 1) \<le> n \<and> n < 2 * 2 ^ bit_length (n div 2)"
      by linarith
    then show ?thesis
      using \<open>bit_length n = _\<close> \<open>2 ^ bit_length (n div 2) = _\<close> by simp
  qed
qed

definition round_div :: "nat \<Rightarrow> nat \<Rightarrow> nat" where
  "round_div d m =
     (let q = m div d; r = m mod d
      in if 2 * r > d \<or> (2 * r = d \<and> odd q) then q + 1 else q)"

text \<open>The pattern of the number \<open>m / den\<close>, when it is below the last binade.\<close>

definition round_mag :: "float_layout \<Rightarrow> nat \<Rightarrow> nat \<Rightarrow> nat option" where
  "round_mag fl den m =
     (let s = bit_length (m div den) - Suc (mantissa_bits fl);
          w = s * 2 ^ mantissa_bits fl + round_div (den * 2 ^ s) m
      in if w < (2 ^ exponent_bits fl - 1) * 2 ^ mantissa_bits fl then Some w else None)"

definition float_round :: "float_layout \<Rightarrow> nat \<Rightarrow> bool \<Rightarrow> nat \<Rightarrow> u64 option" where
  "float_round fl den neg m =
     map_option (\<lambda>w. of_nat (of_bool neg * 2 ^ (exponent_bits fl + mantissa_bits fl) + w))
       (round_mag fl den m)"

definition fadd :: "float_layout \<Rightarrow> u64 \<Rightarrow> u64 \<Rightarrow> u64 option" where
  "fadd fl a b =
     (if float_finite fl a \<and> float_finite fl b then
        let v = float_val fl a + float_val fl b
        in if v = 0 \<and> float_sign fl a \<and> float_sign fl b
           then Some (2 ^ (exponent_bits fl + mantissa_bits fl))
           else float_round fl 1 (v < 0) (nat \<bar>v\<bar>)
      else None)"

text \<open>
  One is \<open>2 ^ float_unit fl\<close> units; so the product of two numbers of units is divided by that.
\<close>

definition float_unit :: "float_layout \<Rightarrow> nat" where
  "float_unit fl = 2 ^ (exponent_bits fl - 1) + mantissa_bits fl - 2"

definition fmul :: "float_layout \<Rightarrow> u64 \<Rightarrow> u64 \<Rightarrow> u64 option" where
  "fmul fl a b =
     (if float_finite fl a \<and> float_finite fl b then
        float_round fl (2 ^ float_unit fl) (float_sign fl a \<noteq> float_sign fl b) (float_mag fl a * float_mag fl b)
      else None)"

definition fdiv :: "float_layout \<Rightarrow> u64 \<Rightarrow> u64 \<Rightarrow> u64 option" where
  "fdiv fl a b =
     (if float_finite fl a \<and> float_finite fl b \<and> float_mag fl b \<noteq> 0 then
        float_round fl (float_mag fl b) (float_sign fl a \<noteq> float_sign fl b) (float_mag fl a * 2 ^ float_unit fl)
      else None)"

text \<open>\<open>castTo\<close> between floating point types, and from an unsigned integer.\<close>

definition float_cast :: "float_layout \<Rightarrow> float_layout \<Rightarrow> u64 \<Rightarrow> u64 option" where
  "float_cast from to a =
     (if float_finite from a then
        float_round to (2 ^ float_unit from) (float_sign from a) (float_mag from a * 2 ^ float_unit to)
      else None)"

definition castTo :: "float_layout \<Rightarrow> u64 \<Rightarrow> u64 option" where
  "castTo fl x = float_round fl 1 False (unat x * 2 ^ float_unit fl)"

section \<open>Sums that the type can hold are exact\<close>

lemma round_div_exact:
  assumes "d dvd m" and "0 < d"
  shows "round_div d m = m div d"
  using assms by (simp add: round_div_def Let_def)

lemma representable_mag:
  assumes "representable fl v" and "nat \<bar>v\<bar> = m"
  shows "2 ^ (bit_length m - Suc (mantissa_bits fl)) dvd m"
    and "bit_length m - Suc (mantissa_bits fl) + 3 \<le> 2 ^ exponent_bits fl"
proof -
  from assms obtain a k where ak: "\<bar>v\<bar> = int a * 2 ^ k" "a < 2 ^ Suc (mantissa_bits fl)"
    and k: "k + 3 \<le> 2 ^ exponent_bits fl" unfolding representable_def by blast
  then have m: "m = a * 2 ^ k" using assms(2) by (simp add: nat_mult_distrib nat_power_eq)
  have "bit_length m - Suc (mantissa_bits fl) \<le> k"
  proof (cases "m = 0")
    case True
    then show ?thesis by simp
  next
    case False
    have "m < 2 ^ (Suc (mantissa_bits fl) + k)" using ak(2) by (simp add: m power_add)
    moreover have "2 ^ (bit_length m - 1) \<le> m" using bit_length_bounds [OF False] by simp
    ultimately have "(2::nat) ^ (bit_length m - 1) < 2 ^ (Suc (mantissa_bits fl) + k)" by linarith
    then have "bit_length m - 1 < Suc (mantissa_bits fl) + k"
      by (rule power_less_imp_less_exp [rotated]) simp
    then show ?thesis by linarith
  qed
  then show "2 ^ (bit_length m - Suc (mantissa_bits fl)) dvd m"
    "bit_length m - Suc (mantissa_bits fl) + 3 \<le> 2 ^ exponent_bits fl"
    using k by (simp_all add: m le_imp_power_dvd dvd_mult)
qed

text \<open>The pattern built from a shift count and a shifted magnitude.\<close>

lemma float_fields_of_nat:
  assumes wf: "wf_layout fl" and w: "w < 2 ^ (exponent_bits fl + mantissa_bits fl)"
    and x: "x = (of_nat (of_bool sg * 2 ^ (exponent_bits fl + mantissa_bits fl) + w) :: u64)"
  shows "float_sign fl x \<longleftrightarrow> sg" and "float_exp fl x = w div 2 ^ mantissa_bits fl"
    and "float_mant fl x = w mod 2 ^ mantissa_bits fl" and "unat x < 2 ^ float_bits fl"
proof -
  let ?eb = "exponent_bits fl" and ?mb = "mantissa_bits fl"
  have lt: "of_bool sg * 2 ^ (?eb + ?mb) + w < 2 ^ float_bits fl"
    using w by (auto simp: float_bits_def add.commute)
  moreover have "(2::nat) ^ float_bits fl \<le> 2 ^ LENGTH(64)"
    using wf_layoutD(6) [OF wf] by (intro power_increasing) simp_all
  ultimately have u: "unat x = of_bool sg * 2 ^ (?eb + ?mb) + w"
    unfolding x by (intro unat_of_nat_small) linarith
  show "unat x < 2 ^ float_bits fl" using lt u by simp
  have "unat x div 2 ^ (?eb + ?mb) = of_bool sg" using w by (simp add: u)
  then show "float_sign fl x \<longleftrightarrow> sg" by (simp add: float_sign_def bit_iff_odd_unat)
  have "unat x = (of_bool sg * 2 ^ ?eb) * 2 ^ ?mb + w" by (simp add: u power_add)
  then have d: "unat x div 2 ^ ?mb = of_bool sg * 2 ^ ?eb + w div 2 ^ ?mb"
    "unat x mod 2 ^ ?mb = w mod 2 ^ ?mb" by simp_all
  have "w div 2 ^ ?mb < 2 ^ ?eb" using w by (simp add: less_mult_imp_div_less power_add)
  with d show "float_exp fl x = w div 2 ^ ?mb" "float_mant fl x = w mod 2 ^ ?mb"
    by (simp_all add: float_exp_def float_mant_def)
qed

lemma float_round_exact:
  assumes wf: "wf_layout fl" and r: "representable fl v"
    and den: "0 < den"
  shows "\<exists>c. float_round fl den (v < 0) (nat \<bar>v\<bar> * den) = Some c \<and> float_canon fl c \<and> float_val fl c = v"
proof -
  let ?eb = "exponent_bits fl" and ?mb = "mantissa_bits fl"
  define m where "m = nat \<bar>v\<bar>"
  define s where "s = bit_length m - Suc ?mb"
  define w where "w = s * 2 ^ ?mb + m div 2 ^ s"
  note rm = representable_mag [OF r m_def [symmetric], folded s_def]
  have e4: "(4::nat) \<le> 2 ^ ?eb"
    using wf_layoutD(5) [OF wf] by linarith
  have mlt: "m div 2 ^ s < 2 * 2 ^ ?mb"
  proof (cases "m = 0")
    case False
    have "m < 2 ^ bit_length m" using bit_length_bounds [OF False] by simp
    also have "(2::nat) ^ bit_length m \<le> 2 ^ (Suc ?mb + s)" by (rule power_increasing) (simp_all add: s_def)
    finally show ?thesis by (intro less_mult_imp_div_less) (simp add: power_add)
  qed simp
  have mge: "2 ^ ?mb \<le> m div 2 ^ s" if "s \<noteq> 0"
  proof -
    have "m \<noteq> 0" using that by (intro notI) (simp add: s_def)
    then have b: "2 ^ (bit_length m - 1) \<le> m" using bit_length_bounds by simp
    moreover have "bit_length m - 1 = ?mb + s" using that by (simp add: s_def)
    ultimately show ?thesis by (simp add: less_eq_div_iff_mult_less_eq power_add)
  qed
  have "s * 2 ^ ?mb + m div 2 ^ s < (s + 2) * 2 ^ ?mb" using mlt by simp
  also have "\<dots> \<le> (2 ^ ?eb - 1) * 2 ^ ?mb" using rm(2) by (intro mult_le_mono1) linarith
  finally have wl: "w < (2 ^ ?eb - 1) * 2 ^ ?mb" by (simp add: w_def)
  have "den * 2 ^ s dvd m * den" using rm(1) by (simp add: mult.commute)
  then have "round_div (den * 2 ^ s) (m * den) = m div 2 ^ s"
    using den by (simp add: round_div_exact mult.commute [of m])
  then have "round_mag fl den (m * den) = Some w"
    using wl den by (simp add: round_mag_def Let_def flip: s_def w_def)
  moreover define x where "x = (of_nat (of_bool (v < 0) * 2 ^ (?eb + ?mb) + w) :: u64)"
  ultimately have x: "float_round fl den (v < 0) (nat \<bar>v\<bar> * den) = Some x"
    by (simp add: float_round_def m_def x_def)
  have "(2 ^ ?eb - 1) * 2 ^ ?mb \<le> 2 ^ ?eb * (2::nat) ^ ?mb" by (rule mult_le_mono1) simp
  with wl have "w < 2 ^ (?eb + ?mb)" unfolding power_add by (rule order_less_le_trans)
  note f = float_fields_of_nat [OF wf this x_def]
  have ex: "float_exp fl x < 2 ^ ?eb - 1"
    unfolding f(2) using wl by (rule less_mult_imp_div_less)
  have mag: "float_mag fl x = m"
  proof (cases "s = 0")
    case True
    then have w: "w = m" and m2: "m < 2 * 2 ^ ?mb" using mlt by (simp_all add: w_def)
    show ?thesis
    proof (cases "m < 2 ^ ?mb")
      case False
      then have "m div 2 ^ ?mb = 1" "m mod 2 ^ ?mb = m - 2 ^ ?mb" using m2
        by (simp_all add: div_nat_eqI le_mod_geq)
      then show ?thesis using False by (simp add: float_mag_def f(2,3) w)
    qed (simp add: float_mag_def f(2,3) w)
  next
    case False
    let ?q = "m div 2 ^ s"
    have q: "2 ^ ?mb \<le> ?q" "?q < 2 * 2 ^ ?mb" using mge [OF False] mlt by auto
    then have w: "w = (s + 1) * 2 ^ ?mb + (?q - 2 ^ ?mb)" by (simp add: w_def)
    have "?q - 2 ^ ?mb < 2 ^ ?mb" using q by linarith
    then have "w div 2 ^ ?mb = s + 1" "w mod 2 ^ ?mb = ?q - 2 ^ ?mb"
      unfolding w by (rule div_block, rule mod_block)
    then have "float_mag fl x = ?q * 2 ^ s" using q(1) by (simp add: float_mag_def f(2,3))
    then show ?thesis using rm(1) by simp
  qed
  have val: "float_val fl x = v" by (simp add: float_val_def f(1) mag m_def)
  moreover have "x = 0" if "v = 0"
    using that by (simp add: x_def w_def s_def m_def)
  ultimately have "float_canon fl x" using ex f(4) by (auto simp: float_canon_def float_finite_def)
  with x val show ?thesis by blast
qed

section \<open>The contract of an adder\<close>

locale float_adder =
  fixes fl :: float_layout and add :: "u64 \<Rightarrow> u64 \<Rightarrow> u64 option"
  assumes add_exact: "float_canon fl a \<Longrightarrow> float_canon fl b \<Longrightarrow>
      representable fl (float_val fl a + float_val fl b) \<Longrightarrow>
      \<exists>c. add a b = Some c \<and> float_canon fl c \<and> float_val fl c = float_val fl a + float_val fl b"

sublocale float_adder \<subseteq> reducer add "float_canon fl" "float_val fl" "representable fl" "(+)" sum
  by unfold_locales (simp_all add: sum.union_disjoint add_exact, rule float_canon_inj)

context float_adder
begin

lemmas adder_tree_expected = reduce_tree_expected

end

lemma fadd_exact:
  assumes "wf_layout fl" and a: "float_canon fl a" and b: "float_canon fl b"
    and "representable fl (float_val fl a + float_val fl b)"
  shows "\<exists>c. fadd fl a b = Some c \<and> float_canon fl c \<and> float_val fl c = float_val fl a + float_val fl b"
proof -
  have "\<not> (float_val fl a + float_val fl b = 0 \<and> float_sign fl a \<and> float_sign fl b)"
  proof
    assume s: "float_val fl a + float_val fl b = 0 \<and> float_sign fl a \<and> float_sign fl b"
    then have "float_val fl a = 0" by (auto simp: float_val_def)
    with a s show False by (simp add: float_canon_def)
  qed
  then have "fadd fl a b = float_round fl 1 (float_val fl a + float_val fl b < 0)
      (nat \<bar>float_val fl a + float_val fl b\<bar> * 1)"
    using a b by (simp only: fadd_def Let_def float_canon_def mult_1_right) auto
  with float_round_exact [OF assms(1,4) zero_less_one] show ?thesis by simp
qed

lemma float_adder_fadd: "wf_layout fl \<Longrightarrow> float_adder fl (fadd fl)"
  by unfold_locales (rule fadd_exact)

interpretation fa32: float_adder float32 "fadd float32"
  by (rule float_adder_fadd) (simp add: wf_layouts float_layouts_def)

interpretation fa64: float_adder float64 "fadd float64"
  by (rule float_adder_fadd) (simp add: wf_layouts float_layouts_def)

interpretation fa16: float_adder float16 "fadd float16"
  by (rule float_adder_fadd) (simp add: wf_layouts float_layouts_def)

interpretation fab16: float_adder bfloat16 "fadd bfloat16"
  by (rule float_adder_fadd) (simp add: wf_layouts float_layouts_def)

interpretation fae4: float_adder float8e4m3 "fadd float8e4m3"
  by (rule float_adder_fadd) (simp add: wf_layouts float_layouts_def)

interpretation fae5: float_adder float8e5m2 "fadd float8e5m2"
  by (rule float_adder_fadd) (simp add: wf_layouts float_layouts_def)

section \<open>The contract of a multiplier\<close>

text \<open>The number of a value, as a fraction: one is \<open>2 ^ float_unit fl\<close> units.\<close>

lemma fmul_exact:
  assumes wf: "wf_layout fl" and a: "float_canon fl a" and b: "float_canon fl b"
    and v: "float_val fl a * float_val fl b = v * 2 ^ float_unit fl" and rep: "representable fl v"
    and z: "v = 0 \<Longrightarrow> float_sign fl a = float_sign fl b"
  shows "\<exists>c. fmul fl a b = Some c \<and> float_canon fl c \<and> float_val fl c = v"
proof -
  let ?k = "float_unit fl"
  have "int (float_mag fl a * float_mag fl b) = \<bar>float_val fl a * float_val fl b\<bar>"
    by (simp add: float_val_def abs_mult)
  also have "\<dots> = \<bar>v\<bar> * 2 ^ ?k" unfolding v by (simp add: abs_mult)
  also have "\<dots> = int (nat \<bar>v\<bar> * 2 ^ ?k)" by simp
  finally have m: "float_mag fl a * float_mag fl b = nat \<bar>v\<bar> * 2 ^ ?k" by (simp only: of_nat_eq_iff)
  have neg: "(float_sign fl a \<noteq> float_sign fl b) = (v < 0)"
  proof (cases "v = 0")
    case True
    with z show ?thesis by simp
  next
    case False
    then have "float_val fl a * float_val fl b \<noteq> 0" by (simp add: v)
    moreover have "v < 0 \<longleftrightarrow> float_val fl a * float_val fl b < 0"
      unfolding v by (simp add: mult_less_0_iff)
    ultimately show ?thesis by (auto simp: float_val_def mult_less_0_iff)
  qed
  have "fmul fl a b = float_round fl (2 ^ ?k) (v < 0) (nat \<bar>v\<bar> * 2 ^ ?k)"
    using a b unfolding fmul_def m neg float_canon_def by simp
  with float_round_exact [OF wf rep, of "2 ^ ?k"] show ?thesis by simp
qed

definition float_one :: "float_layout \<Rightarrow> int \<Rightarrow> u64" where
  "float_one fl k = makeFloat fl 0 (exponent_bias fl + k) 0"

text \<open>\<open>T(1.0f)\<close> and \<open>T(2.0f)\<close>.\<close>

definition premul_scalar :: "float_layout \<Rightarrow> int \<Rightarrow> u64" where
  "premul_scalar fl rank_me = float_one fl (if rank_me smod 2 = 0 then 0 else 1)"

lemma exponent_bias_eq: "wf_layout fl \<Longrightarrow> exponent_bias fl = 2 ^ (exponent_bits fl - 1) - 1"
  by (simp add: exponent_bias_def push_bit_eq_mult)

lemma float_one_props:
  assumes wf: "wf_layout fl" and k: "0 \<le> k" "k \<le> exponent_bias fl"
  shows "float_canon fl (float_one fl k)" and "float_val fl (float_one fl k) = 2 ^ (float_unit fl + nat k)"
    and "\<not> float_sign fl (float_one fl k)"
proof -
  note wf' = wf_layoutD [OF wf] and be = exponent_bias_eq [OF wf]
  let ?B = "(2::int) ^ (exponent_bits fl - 1)"
  have "(2::int) ^ 3 \<le> ?B" using wf'(2) by (intro power_increasing) simp_all
  then have B8: "8 \<le> ?B" by simp
  have BB: "(2::int) ^ exponent_bits fl = 2 * ?B" using wf'(2) by (simp flip: power_Suc)
  have e: "0 \<le> exponent_bias fl + k" "exponent_bias fl + k < 2 ^ exponent_bits fl"
    "1 \<le> exponent_bias fl + k" using k B8 be BB by linarith+
  have m0: "unat (0::u64) < 2 ^ mantissa_bits fl" by simp
  note f = makeFloat_fields [OF wf _ e(1,2) m0, of 0, folded float_one_def, simplified]
  show sgn: "\<not> float_sign fl (float_one fl k)" using f(1) by simp
  have ne: "nat (exponent_bias fl + k) \<noteq> 0" using e(3) by linarith
  have "float_unit fl + nat k = mantissa_bits fl + (nat (exponent_bias fl + k) - 1)"
  proof -
    have "int (2 ^ (exponent_bits fl - 1)) = ?B" by simp
    then show ?thesis unfolding float_unit_def be using k B8 be by linarith
  qed
  note unit = this
  have mag: "float_mag fl (float_one fl k) = 2 ^ (float_unit fl + nat k)"
    using ne unfolding float_mag_def f(2,3) unit power_add by simp
  show val: "float_val fl (float_one fl k) = 2 ^ (float_unit fl + nat k)"
    using sgn by (simp add: float_val_def mag)
  have "exponent_bias fl + k < int (2 ^ exponent_bits fl - 1)"
    using k B8 be BB by (simp add: of_nat_diff)
  then have "nat (exponent_bias fl + k) < 2 ^ exponent_bits fl - 1" using e(1) by linarith
  then show "float_canon fl (float_one fl k)"
    using f(2,4) val by (simp add: float_canon_def float_finite_def)
qed

text \<open>Multiplying by one or two is exact when the result is below the last binade.\<close>

lemma fmul_premul:
  assumes wf: "wf_layout fl" and a: "float_canon fl a"
    and rep: "representable fl (float_val fl a * (if r smod 2 = 0 then 1 else 2))"
  shows "\<exists>c. fmul fl a (premul_scalar fl r) = Some c \<and> float_canon fl c \<and>
    float_val fl c = float_val fl a * (if r smod 2 = 0 then 1 else 2)"
proof -
  let ?k = "if r smod 2 = 0 then 0 else 1 :: int"
  have "1 \<le> exponent_bias fl"
  proof -
    have "(2::int) ^ 3 \<le> 2 ^ (exponent_bits fl - 1)"
      using wf_layoutD(2) [OF wf] by (intro power_increasing) simp_all
    then show ?thesis by (simp add: exponent_bias_eq [OF wf])
  qed
  then have k: "0 \<le> ?k" "?k \<le> exponent_bias fl" by auto
  note o = float_one_props [OF wf k, folded premul_scalar_def]
  have "float_val fl a * float_val fl (premul_scalar fl r) =
      (float_val fl a * (if r smod 2 = 0 then 1 else 2)) * 2 ^ float_unit fl"
    by (simp add: o(2))
  moreover have "float_sign fl a = float_sign fl (premul_scalar fl r)"
    if "float_val fl a * (if r smod 2 = 0 then 1 else 2) = 0"
    using that a o(3) by (auto simp: float_canon_def split: if_splits)
  ultimately show ?thesis by (intro fmul_exact [OF wf a o(1) _ rep])
qed

end
