(* ===== verification/VerifFloatSum.thy ===== *)
theory VerifFloatSum
  imports VerifFloatArith
begin

text \<open>
  The generators of floating point data for sums in verifiable/verifiable.cu: every rank gets
  an input, the expected output is known beforehand, and all of them are small multiples
  of one power of two, so that no order of summation ever rounds.
\<close>

section \<open>The code\<close>

text \<open>
  \<open>genInOutFloatSum\<close>: the signs and integer mantissas of the input and the output, and
  their common exponent. The type argument is the unsigned type \<open>uintmant_t\<close> of the layout.
\<close>

definition max_mant :: "float_layout \<Rightarrow> 'u::len word" where
  "max_mant fl = 2 * (push_bit (mantissa_bits fl) 1 - 1) + 1"

definition float_sum_exp :: "float_layout \<Rightarrow> u64 \<Rightarrow> int" where
  "float_sum_exp fl rng =
     (let exp_lo = 1 + int (mantissa_bits fl);
          exp_hi = push_bit (exponent_bits fl) 1 - 1
      in exp_lo + uint (umul32hi (lo32 (drop_bit 32 rng)) (u32_of_int (exp_hi - exp_lo))))"

definition gen_float_sum ::
  "'u::len itself \<Rightarrow> float_layout \<Rightarrow> bool \<Rightarrow> int \<Rightarrow> int \<Rightarrow> u64 \<Rightarrow> u64 \<Rightarrow> bool \<Rightarrow> u64 option" where
  "gen_float_sum _ fl input_not_output rank_n rank_me seed index same_sign =
     (let rng = hashOf seed index;
          y_sign = uint (rng AND 1);
          x_sign = y_sign;
          xy_exp = float_sum_exp fl rng;
          rng = mixBits rng;
          (rank_me, rng) = shuffleRank rank_n rank_me rng;
          subrank_n = (if same_sign then rank_n else (rank_n + 1) sdiv 2);
          subrank_me = (if same_sign then rank_me else rank_me sdiv 2)
      in case genSumXY subrank_n subrank_me rng (max_mant fl :: 'u word) 0 False of
           None \<Rightarrow> None
         | Some (x0_mant, y0_mant, rng) \<Rightarrow>
             if \<not> same_sign \<and> (rank_n + 0) sdiv 2 \<noteq> 0 then
               (case genSumXY ((rank_n + 0) sdiv 2) (rank_me sdiv 2) rng (max_mant fl) y0_mant True of
                  None \<Rightarrow> None
                | Some (x1_mant, y1_mant, rng) \<Rightarrow>
                    let y_sign = y_sign XOR (if y0_mant < y1_mant then 1 else 0);
                        y0_mant' = (if y0_mant < y1_mant then - 1 else 1) * (y0_mant - y1_mant);
                        x_sign = x_sign XOR (rank_me smod 2);
                        x0_mant = (if rank_me smod 2 = 0 then x0_mant else x1_mant)
                    in Some (if input_not_output then float_of_mant fl x_sign xy_exp x0_mant
                             else float_of_mant fl y_sign xy_exp y0_mant'))
             else Some (if input_not_output then float_of_mant fl x_sign xy_exp x0_mant
                        else float_of_mant fl y_sign xy_exp y0_mant))"

definition genInOutFloatSum ::
  "float_layout \<Rightarrow> bool \<Rightarrow> int \<Rightarrow> int \<Rightarrow> u64 \<Rightarrow> u64 \<Rightarrow> bool \<Rightarrow> u64 option" where
  "genInOutFloatSum fl =
     (if float_bits fl > 32 then gen_float_sum TYPE(64) fl else gen_float_sum TYPE(32) fl)"

section \<open>Sums over even and odd ranks\<close>

lemma sum_even_odd:
  fixes f g :: "nat \<Rightarrow> 'a::comm_monoid_add"
  shows "(\<Sum>p\<in>{..<n}. if even p then f (p div 2) else g (p div 2)) =
    (\<Sum>k\<in>{..<(n + 1) div 2}. f k) + (\<Sum>k\<in>{..<n div 2}. g k)"
proof (induction n)
  case (Suc n)
  show ?case
  proof (cases "even n")
    case True
    then have "(Suc n + 1) div 2 = Suc ((n + 1) div 2)" "Suc n div 2 = n div 2" "(n + 1) div 2 = n div 2" by auto
    with Suc True show ?thesis by (simp add: ac_simps)
  next
    case False
    then have "(Suc n + 1) div 2 = (n + 1) div 2" "Suc n div 2 = Suc (n div 2)" by (auto elim!: oddE)
    with Suc False show ?thesis by (simp add: ac_simps)
  qed
qed simp

lemma sum_int_nat: "(\<Sum>p\<in>{0..<n}. f p) = (\<Sum>p\<in>{..<nat n}. f (int p))"
  by (rule sum.reindex_bij_witness [of _ int nat]) auto

lemma sum_int_even_odd:
  fixes f g :: "nat \<Rightarrow> 'a::comm_monoid_add"
  shows "(\<Sum>p\<in>{0..<n}. if even p then f (nat (p div 2)) else g (nat (p div 2))) =
    (\<Sum>k\<in>{..<nat ((n + 1) div 2)}. f k) + (\<Sum>k\<in>{..<nat (n div 2)}. g k)"
proof -
  have "(\<Sum>p\<in>{0..<n}. if even p then f (nat (p div 2)) else g (nat (p div 2))) =
      (\<Sum>p\<in>{..<nat n}. if even p then f (p div 2) else g (p div 2))"
    unfolding sum_int_nat by (rule sum.cong) (simp_all add: nat_div_distrib)
  also have "\<dots> = (\<Sum>k\<in>{..<(nat n + 1) div 2}. f k) + (\<Sum>k\<in>{..<nat n div 2}. g k)"
    by (rule sum_even_odd)
  also have "(nat n + 1) div 2 = nat ((n + 1) div 2)" by linarith
  also have "nat n div 2 = nat (n div 2)" by linarith
  finally show ?thesis .
qed

section \<open>Ranges of the exponent and the mantissa\<close>

lemma unat_max_mant:
  assumes "mantissa_bits fl + 2 \<le> LENGTH('u)"
  shows "unat (max_mant fl :: 'u::len word) = 2 ^ Suc (mantissa_bits fl) - 1"
    and "unat (max_mant fl :: 'u::len word) < 2 ^ (LENGTH('u) - 1)"
proof -
  have "(2::nat) ^ Suc (mantissa_bits fl) \<le> 2 ^ (LENGTH('u) - 1)"
    using assms by (intro power_increasing) simp_all
  moreover have "max_mant fl = (mask (Suc (mantissa_bits fl)) :: 'u word)"
    by (simp add: max_mant_def mask_eq_exp_minus_1 push_bit_eq_mult algebra_simps)
  moreover have "unat (mask (Suc (mantissa_bits fl)) :: 'u word) = 2 ^ Suc (mantissa_bits fl) - 1"
    using assms by (intro unat_mask) simp
  moreover have "(0::nat) < 2 ^ Suc (mantissa_bits fl)" by simp
  ultimately have "unat (max_mant fl :: 'u word) = 2 ^ Suc (mantissa_bits fl) - 1 \<and>
    unat (max_mant fl :: 'u word) < 2 ^ (LENGTH('u) - 1)" by (simp only:) linarith
  then show "unat (max_mant fl :: 'u word) = 2 ^ Suc (mantissa_bits fl) - 1"
    "unat (max_mant fl :: 'u word) < 2 ^ (LENGTH('u) - 1)" by blast+
qed

lemma float_sum_exp_bounds:
  assumes "wf_layout fl"
  shows "int (mantissa_bits fl) + 1 \<le> float_sum_exp fl rng"
    and "float_sum_exp fl rng \<le> 2 ^ exponent_bits fl - 2"
proof -
  note wf = wf_layoutD [OF assms]
  let ?b = "2 ^ exponent_bits fl - 1 - (1 + int (mantissa_bits fl))"
  have "(2::int) ^ exponent_bits fl \<le> 2 ^ 11" using wf(3) by (intro power_increasing) simp_all
  moreover have "int (mantissa_bits fl + 4) \<le> int (2 ^ exponent_bits fl)" using wf(5) by (simp only: of_nat_le_iff)
  then have ge: "int (mantissa_bits fl) + 4 \<le> 2 ^ exponent_bits fl" by simp
  ultimately have b: "0 < ?b" "?b < 2 ^ LENGTH(32)" by auto
  then have u: "unat (u32_of_int ?b) = nat ?b" by (intro unat_word_of_int_small) simp_all
  with b(1) have "unat (umul32hi (lo32 (drop_bit 32 rng)) (u32_of_int ?b)) < nat ?b"
    using umul32hi_less [of "u32_of_int ?b"] by simp
  then have "uint (umul32hi (lo32 (drop_bit 32 rng)) (u32_of_int ?b)) < ?b"
    unfolding uint_nat by (simp only: zless_nat_eq_int_zless)
  then show "int (mantissa_bits fl) + 1 \<le> float_sum_exp fl rng"
    "float_sum_exp fl rng \<le> 2 ^ exponent_bits fl - 2"
    by (simp_all add: float_sum_exp_def Let_def push_bit_eq_mult)
qed

section \<open>One call\<close>

text \<open>The state of the generator and the sums both halves of the ranks agree on.\<close>

definition sum_rng :: "u64 \<Rightarrow> u64 \<Rightarrow> u64" where
  "sum_rng seed index = mixBits (hashOf seed index)"

definition sum_y0 :: "float_layout \<Rightarrow> u64 \<Rightarrow> u64 \<Rightarrow> 'u::len word" where
  "sum_y0 fl seed index = sumxy_pick (mixBits (sum_rng seed index)) (max_mant fl) 0 False"

definition sum_y1 :: "float_layout \<Rightarrow> u64 \<Rightarrow> u64 \<Rightarrow> 'u::len word" where
  "sum_y1 fl seed index =
     sumxy_pick (mixBits (mixBits (sum_rng seed index))) (max_mant fl) (sum_y0 fl seed index) True"

abbreviation sum_place :: "int \<Rightarrow> u64 \<Rightarrow> u64 \<Rightarrow> int \<Rightarrow> int" where
  "sum_place n seed index r \<equiv> fst (shuffleRank n r (sum_rng seed index))"

lemma snd_shuffleRank [simp]: "snd (shuffleRank n r g) = mixBits g"
  by (simp add: shuffleRank_def Let_def)

lemma uint_and_1: "uint (w AND 1 :: u64) = 0 \<or> uint (w AND 1 :: u64) = 1"
proof -
  have "w AND 1 = take_bit 1 w" by (simp add: take_bit_eq_mask mask_eq_exp_minus_1)
  then have "unat (w AND 1) = unat w mod 2" by (simp only: unsigned_take_bit_eq take_bit_nat_def power_one_right)
  then show ?thesis by (simp only: uint_nat) auto
qed

lemma xor_bits [simp]: "(0::int) XOR 0 = 0" "(0::int) XOR 1 = 1" "(1::int) XOR 0 = 1" "(1::int) XOR 1 = 0"
  by simp_all

lemma gen_float_sum_mixed:
  assumes "2 \<le> n" "n < 2 ^ 31" "0 \<le> r" "r < n"
    and x0: "sumxy_split ((n + 1) div 2) (sum_place n seed ix r div 2) (max_mant fl :: 'u::len word)
        (sum_y0 fl seed ix) = Some x0"
    and x1: "sumxy_split (n div 2) (sum_place n seed ix r div 2) (max_mant fl :: 'u word)
        (sum_y1 fl seed ix) = Some x1"
  shows "gen_float_sum TYPE('u) fl b n r seed ix False =
    (let s = uint (hashOf seed ix AND 1); e = float_sum_exp fl (hashOf seed ix);
         y0 = sum_y0 fl seed ix :: 'u word; y1 = sum_y1 fl seed ix; p = sum_place n seed ix r
     in Some (if b then float_of_mant fl (s XOR p mod 2) e (if even p then x0 else x1)
              else float_of_mant fl (s XOR (if y0 < y1 then 1 else 0)) e
                     ((if y0 < y1 then - 1 else 1) * (y0 - y1))))"
proof -
  have p: "0 \<le> sum_place n seed ix r" using sr.shuffle_range [of n r] assms(1-4) by simp
  have sh: "shuffleRank n r (mixBits (hashOf seed ix)) =
      (sum_place n seed ix r, mixBits (sum_rng seed ix))"
    by (simp add: sum_rng_def prod_eq_iff)
  have g0: "genSumXY ((n + 1) div 2) (sum_place n seed ix r div 2) (mixBits (sum_rng seed ix)) (max_mant fl) 0 False =
      Some (x0, sum_y0 fl seed ix, mixBits (mixBits (sum_rng seed ix)))"
    using x0 by (simp add: genSumXY_def Let_def sum_y0_def)
  have g1: "genSumXY (n div 2) (sum_place n seed ix r div 2) (mixBits (mixBits (sum_rng seed ix))) (max_mant fl)
        (sum_y0 fl seed ix) True =
      Some (x1, sum_y1 fl seed ix, mixBits (mixBits (mixBits (sum_rng seed ix))))"
    using x1 by (simp add: genSumXY_def Let_def sum_y1_def)
  have "n div 2 \<noteq> 0" using assms(1) by linarith
  then show ?thesis
    using p assms(1)
    unfolding gen_float_sum_def Let_def sh split_conv smod_nonneg [OF p zero_less_numeral]
      even_iff_mod_2_eq_zero
    by (simp add: g0 g1 del: xor_bits)
qed

section \<open>The contributions of the ranks\<close>

text \<open>What the rank at place \<open>p\<close> contributes, when the even places share \<open>Y0\<close> and the odd ones \<open>- Y1\<close>.\<close>

definition contribution :: "int \<Rightarrow> nat \<Rightarrow> nat \<Rightarrow> int \<Rightarrow> int" where
  "contribution n Y0 Y1 p =
     (if even p then int (nat_split (nat ((n + 1) div 2)) Y0 (nat (p div 2)))
      else - int (nat_split (nat (n div 2)) Y1 (nat (p div 2))))"

lemma sum_contribution:
  assumes "2 \<le> n" "nat ((n + 1) div 2) \<le> Y0" "nat (n div 2) \<le> Y1"
  shows "(\<Sum>p\<in>{0..<n}. contribution n Y0 Y1 p) = int Y0 - int Y1"
proof -
  have "(\<Sum>p\<in>{0..<n}. contribution n Y0 Y1 p) =
      (\<Sum>k\<in>{..<nat ((n + 1) div 2)}. int (nat_split (nat ((n + 1) div 2)) Y0 k)) +
      (\<Sum>k\<in>{..<nat (n div 2)}. - int (nat_split (nat (n div 2)) Y1 k))"
    unfolding contribution_def
    by (rule sum_int_even_odd [where f = "\<lambda>k. int (nat_split (nat ((n + 1) div 2)) Y0 k)"
          and g = "\<lambda>k. - int (nat_split (nat (n div 2)) Y1 k)"])
  also have "\<dots> = int Y0 - int Y1"
    using sum_nat_split [of "nat ((n + 1) div 2)" Y0] sum_nat_split [of "nat (n div 2)" Y1] assms
    by (simp add: sum_negf flip: of_nat_sum)
  finally show ?thesis .
qed

text \<open>Any selection of the contributions stays between the two sums.\<close>

lemma sum_contribution_subset:
  assumes "2 \<le> n" "nat ((n + 1) div 2) \<le> Y0" "nat (n div 2) \<le> Y1" and S: "S \<subseteq> {0..<n}"
  shows "(\<Sum>p\<in>S. contribution n Y0 Y1 p) \<le> int Y0" and "- int Y1 \<le> (\<Sum>p\<in>S. contribution n Y0 Y1 p)"
proof -
  let ?f = "\<lambda>k. int (nat_split (nat ((n + 1) div 2)) Y0 k)"
  let ?g = "\<lambda>k. int (nat_split (nat (n div 2)) Y1 k)"
  have fin: "finite {0..<n}" by simp
  have fs: "(\<Sum>k\<in>{..<nat ((n + 1) div 2)}. ?f k) = int Y0"
    using sum_nat_split [of "nat ((n + 1) div 2)" Y0] assms by (simp flip: of_nat_sum)
  have gs: "(\<Sum>k\<in>{..<nat (n div 2)}. ?g k) = int Y1"
    using sum_nat_split [of "nat (n div 2)" Y1] assms by (simp flip: of_nat_sum)
  have "(\<Sum>p\<in>S. contribution n Y0 Y1 p) \<le> (\<Sum>p\<in>S. if even p then ?f (nat (p div 2)) else 0)"
    by (rule sum_mono) (simp add: contribution_def)
  also have "\<dots> \<le> (\<Sum>p\<in>{0..<n}. if even p then ?f (nat (p div 2)) else 0)"
    using fin S by (rule sum_mono2) simp
  also have "\<dots> = int Y0"
    using sum_int_even_odd [of ?f "\<lambda>_. 0" n] fs by simp
  finally show "(\<Sum>p\<in>S. contribution n Y0 Y1 p) \<le> int Y0" .
  have "- (\<Sum>p\<in>S. contribution n Y0 Y1 p) \<le> (\<Sum>p\<in>S. if even p then 0 else ?g (nat (p div 2)))"
    unfolding sum_negf [symmetric] by (rule sum_mono) (simp add: contribution_def)
  also have "\<dots> \<le> (\<Sum>p\<in>{0..<n}. if even p then 0 else ?g (nat (p div 2)))"
    using fin S by (rule sum_mono2) simp
  also have "\<dots> = int Y1"
    using sum_int_even_odd [of "\<lambda>_. 0" ?g n] gs by simp
  finally show "- int Y1 \<le> (\<Sum>p\<in>S. contribution n Y0 Y1 p)" by simp
qed

section \<open>All calls together\<close>

text \<open>The two sums are large enough to be split over the ranks, and fit the mantissa.\<close>

lemma sum_y_bounds:
  assumes "wf_layout fl" and w: "uint_width TYPE('u::len)" and l: "mantissa_bits fl + 2 \<le> LENGTH('u)"
  shows "2 ^ mantissa_bits fl \<le> unat (sum_y0 fl seed ix :: 'u word)"
    and "unat (sum_y0 fl seed ix :: 'u word) \<le> unat (max_mant fl :: 'u word)"
    and "2 ^ mantissa_bits fl \<le> unat (sum_y1 fl seed ix :: 'u word)"
    and "unat (sum_y1 fl seed ix :: 'u word) \<le> unat (max_mant fl :: 'u word)"
proof -
  note m = unat_max_mant [OF l]
  have half: "(unat (max_mant fl :: 'u word) + 1) div 2 = 2 ^ mantissa_bits fl"
    by (simp add: m(1))
  have "(2::nat) ^ 2 \<le> 2 ^ Suc (mantissa_bits fl)"
    using wf_layoutD(1) [OF assms(1)] by (intro power_increasing) simp_all
  then have two: "2 \<le> unat (max_mant fl :: 'u word)" by (simp add: m(1))
  show y0: "2 ^ mantissa_bits fl \<le> unat (sum_y0 fl seed ix :: 'u word)"
    "unat (sum_y0 fl seed ix :: 'u word) \<le> unat (max_mant fl :: 'u word)"
    using unat_sumxy_pick_free(2,3) [OF w m(2)] by (simp_all only: sum_y0_def half)
  show "2 ^ mantissa_bits fl \<le> unat (sum_y1 fl seed ix :: 'u word)"
    "unat (sum_y1 fl seed ix :: 'u word) \<le> unat (max_mant fl :: 'u word)"
    using sumxy_pick_avoid_bounds(1,2) [OF w m(2) two, unfolded half, OF y0] by (simp_all only: sum_y1_def)
qed

definition sum_sign :: "u64 \<Rightarrow> u64 \<Rightarrow> int" where
  "sum_sign seed index = (if uint (hashOf seed index AND 1) = 1 then - 1 else 1)"

definition sum_scale :: "float_layout \<Rightarrow> u64 \<Rightarrow> u64 \<Rightarrow> nat" where
  "sum_scale fl seed index = nat (float_sum_exp fl (hashOf seed index)) - 1"

lemma split_share:
  assumes w: "uint_width TYPE('u::len)" and m: "unat (y_max :: 'u word) < 2 ^ (LENGTH('u) - 1)"
    and k: "0 < k" "k < 2 ^ 31" "nat k \<le> unat (y :: 'u word)" and y: "unat y \<le> unat y_max"
  obtains x where "sumxy_split k r y_max y = Some x"
    and "0 \<le> r \<Longrightarrow> r < k \<Longrightarrow> unat x = nat_split (nat k) (unat y) (nat r)"
    and "0 \<le> r \<Longrightarrow> r < k \<Longrightarrow> unat x \<le> unat y_max"
proof -
  have n: "0 < nat k" "nat k < 2 ^ 31" and i: "int (nat k) = k" using k(1,2) by simp_all
  note ex = sumxy_split_eq [OF w m n k(3) y, unfolded i]
  have "sumxy_split k 0 y_max y \<noteq> None" using ex [of 0] n(1) by auto
  then have "sumxy_split k r y_max y \<noteq> None"
    by (metis sumxy_split_None_rank)
  then obtain x where x: "sumxy_split k r y_max y = Some x" by auto
  have v: "unat x = nat_split (nat k) (unat y) (nat r)" if "0 \<le> r" "r < k"
    using ex [of "nat r"] that x by auto
  moreover have "unat x \<le> unat y_max" if "0 \<le> r" "r < k"
    using nat_split_le [OF n(1) k(3), of "nat r"] that y unfolding v [OF that] by simp
  ultimately show ?thesis using x that by blast
qed

lemma split_value:
  assumes wf: "wf_layout fl" and w: "uint_width TYPE('u::len)" and l: "mantissa_bits fl + 2 \<le> LENGTH('u)"
    and k: "0 < k" "k < 2 ^ 31" "k \<le> 2 ^ mantissa_bits fl"
    and y: "2 ^ mantissa_bits fl \<le> unat (y :: 'u word)" "unat y \<le> unat (max_mant fl :: 'u word)"
  obtains x where "sumxy_split k r (max_mant fl :: 'u word) y = Some x"
    and "0 \<le> r \<Longrightarrow> r < k \<Longrightarrow> unat x = nat_split (nat k) (unat y) (nat r)"
    and "0 \<le> r \<Longrightarrow> r < k \<Longrightarrow> unat x \<le> unat (max_mant fl :: 'u word)"
proof -
  have "nat k \<le> 2 ^ mantissa_bits fl" using k(3) by (simp add: nat_le_iff)
  with y(1) have "nat k \<le> unat y" by linarith
  from split_share [OF w unat_max_mant(2) [OF l] k(1,2) this y(2)] that show ?thesis by metis
qed

text \<open>The input of a rank.\<close>

lemma gen_float_sum_input:
  assumes wf: "wf_layout fl" and w: "uint_width TYPE('u::len)" and l: "mantissa_bits fl + 2 \<le> LENGTH('u)"
    and n: "2 \<le> n" "n < 2 ^ 31" "(n + 1) div 2 \<le> 2 ^ mantissa_bits fl" and r: "0 \<le> r" "r < n"
  shows "\<exists>v. gen_float_sum TYPE('u) fl True n r seed ix False = Some v \<and> float_canon fl v \<and>
    float_val fl v = sum_sign seed ix * contribution n (unat (sum_y0 fl seed ix :: 'u word))
      (unat (sum_y1 fl seed ix :: 'u word)) (sum_place n seed ix r) * 2 ^ sum_scale fl seed ix"
proof -
  let ?p = "sum_place n seed ix r" and ?s = "uint (hashOf seed ix AND 1)"
  let ?y0 = "sum_y0 fl seed ix :: 'u word" and ?y1 = "sum_y1 fl seed ix :: 'u word"
  have p: "0 \<le> ?p" "?p < n" using sr.shuffle_range [of n r] n r by simp_all
  have k: "0 < (n + 1) div 2" "(n + 1) div 2 < 2 ^ 31" "0 < n div 2" "n div 2 < 2 ^ 31"
    "n div 2 \<le> 2 ^ mantissa_bits fl" using n by auto
  have pe: "even ?p \<Longrightarrow> ?p div 2 < (n + 1) div 2" and po: "odd ?p \<Longrightarrow> ?p div 2 < n div 2"
    using p by presburger+
  note b = sum_y_bounds [OF wf w l, of seed ix]
  obtain x0 where x0: "sumxy_split ((n + 1) div 2) (?p div 2) (max_mant fl :: 'u word) ?y0 = Some x0"
    "even ?p \<Longrightarrow> unat x0 = nat_split (nat ((n + 1) div 2)) (unat ?y0) (nat (?p div 2))"
    "even ?p \<Longrightarrow> unat x0 \<le> unat (max_mant fl :: 'u word)"
    using split_value [OF wf w l k(1,2) n(3) b(1,2), of "?p div 2"] pe p(1) by auto
  obtain x1 where x1: "sumxy_split (n div 2) (?p div 2) (max_mant fl :: 'u word) ?y1 = Some x1"
    "odd ?p \<Longrightarrow> unat x1 = nat_split (nat (n div 2)) (unat ?y1) (nat (?p div 2))"
    "odd ?p \<Longrightarrow> unat x1 \<le> unat (max_mant fl :: 'u word)"
    using split_value [OF wf w l k(3,4,5) b(3,4), of "?p div 2"] po p(1) by auto
  let ?x = "if even ?p then x0 else x1" and ?t = "?s XOR ?p mod 2"
  let ?v = "float_of_mant fl ?t (float_sum_exp fl (hashOf seed ix)) ?x"
  have eq: "gen_float_sum TYPE('u) fl True n r seed ix False = Some ?v"
    using gen_float_sum_mixed [OF n(1,2) r x0(1) x1(1), of True] by (simp only: Let_def if_True)
  have t: "?t = 0 \<or> ?t = 1" "?t = 1 \<longleftrightarrow> (?s = 1) \<noteq> odd ?p"
    using uint_and_1 [of "hashOf seed ix"] by (cases "even ?p"; auto simp: odd_iff_mod_2_eq_one)+
  have "unat ?x \<le> unat (max_mant fl :: 'u word)" using x0(3) x1(3) by simp
  moreover have "(0::nat) < 2 ^ Suc (mantissa_bits fl)" by simp
  ultimately have x: "unat ?x < 2 ^ Suc (mantissa_bits fl)"
    unfolding unat_max_mant(1) [OF l] by linarith
  have l64: "LENGTH('u) \<le> 64" using w by (auto simp: uint_width_def)
  note f = float_val_of_mant [OF wf l l64 t(1) x float_sum_exp_bounds [OF wf]]
    and c = float_canon_of_mant [OF wf l l64 t(1) x float_sum_exp_bounds [OF wf]]
  have "float_val fl ?v = sum_sign seed ix * contribution n (unat ?y0) (unat ?y1) ?p * 2 ^ sum_scale fl seed ix"
    unfolding f(1) t(2) sum_sign_def contribution_def sum_scale_def using x0(2) x1(2)
    by (cases "even ?p") simp_all
  with eq c show ?thesis by blast
qed

text \<open>The expected output.\<close>

lemma unat_abs_diff:
  "unat ((if a < b then - 1 else 1) * (a - b) :: 'u::len word) =
     (if unat a < unat b then unat b - unat a else unat a - unat b)"
  by (auto simp: word_less_nat_alt not_less unat_sub_small)

lemma gen_float_sum_output:
  assumes wf: "wf_layout fl" and w: "uint_width TYPE('u::len)" and l: "mantissa_bits fl + 2 \<le> LENGTH('u)"
    and n: "2 \<le> n" "n < 2 ^ 31" "(n + 1) div 2 \<le> 2 ^ mantissa_bits fl"
  shows "\<exists>v. gen_float_sum TYPE('u) fl False n 0 seed ix False = Some v \<and> float_canon fl v \<and>
    float_val fl v = sum_sign seed ix * (int (unat (sum_y0 fl seed ix :: 'u word)) -
      int (unat (sum_y1 fl seed ix :: 'u word))) * 2 ^ sum_scale fl seed ix"
proof -
  let ?p = "sum_place n seed ix 0" and ?s = "uint (hashOf seed ix AND 1)"
  let ?y0 = "sum_y0 fl seed ix :: 'u word" and ?y1 = "sum_y1 fl seed ix :: 'u word"
  have k: "0 < (n + 1) div 2" "(n + 1) div 2 < 2 ^ 31" "0 < n div 2" "n div 2 < 2 ^ 31"
    "n div 2 \<le> 2 ^ mantissa_bits fl" using n by auto
  note b = sum_y_bounds [OF wf w l, of seed ix]
  obtain x0 where x0: "sumxy_split ((n + 1) div 2) (?p div 2) (max_mant fl :: 'u word) ?y0 = Some x0"
    using split_value [OF wf w l k(1,2) n(3) b(1,2), of "?p div 2"] by auto
  obtain x1 where x1: "sumxy_split (n div 2) (?p div 2) (max_mant fl :: 'u word) ?y1 = Some x1"
    using split_value [OF wf w l k(3,4,5) b(3,4), of "?p div 2"] by auto
  let ?a = "(if ?y0 < ?y1 then - 1 else 1) * (?y0 - ?y1)" and ?t = "?s XOR (if ?y0 < ?y1 then 1 else 0)"
  let ?v = "float_of_mant fl ?t (float_sum_exp fl (hashOf seed ix)) ?a"
  have eq: "gen_float_sum TYPE('u) fl False n 0 seed ix False = Some ?v"
    using gen_float_sum_mixed [OF n(1,2) order_refl _ x0 x1, of False] n(1) by (simp only: Let_def if_False)
  have t: "?t = 0 \<or> ?t = 1" "?t = 1 \<longleftrightarrow> (?s = 1) \<noteq> (unat ?y0 < unat ?y1)"
    using uint_and_1 [of "hashOf seed ix"] by (auto simp: word_less_nat_alt)
  have "unat ?a \<le> unat (max_mant fl :: 'u word)"
    unfolding unat_abs_diff using b(2,4) by (simp only: split: if_split) linarith
  moreover have "(0::nat) < 2 ^ Suc (mantissa_bits fl)" by simp
  ultimately have a: "unat ?a < 2 ^ Suc (mantissa_bits fl)"
    unfolding unat_max_mant(1) [OF l] by linarith
  have l64: "LENGTH('u) \<le> 64" using w by (auto simp: uint_width_def)
  note f = float_val_of_mant [OF wf l l64 t(1) a float_sum_exp_bounds [OF wf]]
    and c = float_canon_of_mant [OF wf l l64 t(1) a float_sum_exp_bounds [OF wf]]
  have "float_val fl ?v = sum_sign seed ix * (int (unat ?y0) - int (unat ?y1)) * 2 ^ sum_scale fl seed ix"
    unfolding f(1) t(2) sum_sign_def sum_scale_def unat_abs_diff
    by (cases "unat ?y0 < unat ?y1") (simp_all add: of_nat_diff algebra_simps)
  with eq c show ?thesis by blast
qed

text \<open>Any selection of the inputs has a sum that the type can hold.\<close>

lemma float_sum_representable:
  assumes wf: "wf_layout fl" and w: "uint_width TYPE('u::len)" and l: "mantissa_bits fl + 2 \<le> LENGTH('u)"
    and n: "2 \<le> n" "n < 2 ^ 31" "(n + 1) div 2 \<le> 2 ^ mantissa_bits fl" and S: "S \<subseteq> {0..<n}"
  shows "representable fl (\<Sum>r\<in>S. sum_sign seed ix * contribution n (unat (sum_y0 fl seed ix :: 'u word))
    (unat (sum_y1 fl seed ix :: 'u word)) (sum_place n seed ix r) * 2 ^ sum_scale fl seed ix)"
proof -
  let ?Y0 = "unat (sum_y0 fl seed ix :: 'u word)" and ?Y1 = "unat (sum_y1 fl seed ix :: 'u word)"
  let ?c = "\<lambda>r. contribution n ?Y0 ?Y1 (sum_place n seed ix r)"
  note b = sum_y_bounds [OF wf w l, of seed ix]
  have "nat ((n + 1) div 2) \<le> 2 ^ mantissa_bits fl" "nat (n div 2) \<le> 2 ^ mantissa_bits fl"
    using n(1,3) by (auto simp: nat_le_iff)
  then have le: "nat ((n + 1) div 2) \<le> ?Y0" "nat (n div 2) \<le> ?Y1" using b by linarith+
  have bij: "bij_betw (sum_place n seed ix) {0..<n} {0..<n}" using sr.shuffle_bij [of n] n by simp
  have "(\<Sum>r\<in>S. ?c r) = (\<Sum>p\<in>sum_place n seed ix ` S. contribution n ?Y0 ?Y1 p)"
    using sum.reindex [OF inj_on_subset [OF bij_betw_imp_inj_on [OF bij] S], of "contribution n ?Y0 ?Y1"]
    by (simp only: o_def)
  moreover have "sum_place n seed ix ` S \<subseteq> {0..<n}" using bij S by (auto simp: bij_betw_def)
  note sub = sum_contribution_subset [OF n(1) le this]
  ultimately have "- int ?Y1 \<le> (\<Sum>r\<in>S. ?c r)" "(\<Sum>r\<in>S. ?c r) \<le> int ?Y0" by simp_all
  then have abs: "nat \<bar>\<Sum>r\<in>S. ?c r\<bar> \<le> unat (max_mant fl :: 'u word)" using b(2,4) by linarith
  moreover have "(0::nat) < 2 ^ Suc (mantissa_bits fl)" by simp
  ultimately have m: "nat \<bar>\<Sum>r\<in>S. ?c r\<bar> < 2 ^ Suc (mantissa_bits fl)"
    unfolding unat_max_mant(1) [OF l] by linarith
  have "(\<Sum>r\<in>S. sum_sign seed ix * ?c r * 2 ^ sum_scale fl seed ix) =
      sum_sign seed ix * (\<Sum>r\<in>S. ?c r) * 2 ^ sum_scale fl seed ix"
    by (simp add: sum_distrib_left sum_distrib_right)
  then have "\<bar>\<Sum>r\<in>S. sum_sign seed ix * ?c r * 2 ^ sum_scale fl seed ix\<bar> =
      int (nat \<bar>\<Sum>r\<in>S. ?c r\<bar>) * 2 ^ sum_scale fl seed ix"
    by (simp add: abs_mult sum_sign_def)
  moreover have "sum_scale fl seed ix + 3 \<le> 2 ^ exponent_bits fl"
  proof -
    have e: "float_sum_exp fl (hashOf seed ix) \<le> int (2 ^ exponent_bits fl) - 2"
      "1 \<le> float_sum_exp fl (hashOf seed ix)"
      using float_sum_exp_bounds [OF wf, of "hashOf seed ix"] by simp_all
    have "(4::nat) \<le> 2 ^ exponent_bits fl" using wf_layoutD(5) [OF wf] by linarith
    with e show ?thesis unfolding sum_scale_def by linarith
  qed
  ultimately show ?thesis using m unfolding representable_def by blast
qed

section \<open>Every reduction tree gives the expected value\<close>

definition float_sum_input :: "float_layout \<Rightarrow> int \<Rightarrow> u64 \<Rightarrow> u64 \<Rightarrow> int \<Rightarrow> u64 option" where
  "float_sum_input fl n seed index r = genInOutFloatSum fl True n r seed index False"

lemma uint_type_cases:
  assumes "wf_layout fl"
  obtains "float_bits fl > 32" "mantissa_bits fl + 2 \<le> LENGTH(64)" "uint_width TYPE(64)"
  | "\<not> float_bits fl > 32" "mantissa_bits fl + 2 \<le> LENGTH(32)" "uint_width TYPE(32)"
  using assms by (auto simp: wf_layout_def uint_width_def split: if_splits)

lemma gen_float_sum_tree:
  assumes wf: "wf_layout fl" and w: "uint_width TYPE('u::len)" and l: "mantissa_bits fl + 2 \<le> LENGTH('u)"
    and n: "2 \<le> n" "n < 2 ^ 31" "(n + 1) div 2 \<le> 2 ^ mantissa_bits fl"
    and t: "set (leaves t) = {0..<n}" "distinct (leaves t)" and add: "float_adder fl add"
  shows "\<exists>y. gen_float_sum TYPE('u) fl False n 0 seed ix False = Some y \<and> float_canon fl y \<and>
    reduce_tree add (\<lambda>r. gen_float_sum TYPE('u) fl True n r seed ix False) t = Some y"
proof -
  let ?Y0 = "unat (sum_y0 fl seed ix :: 'u word)" and ?Y1 = "unat (sum_y1 fl seed ix :: 'u word)"
  let ?val = "\<lambda>r. sum_sign seed ix * contribution n ?Y0 ?Y1 (sum_place n seed ix r) * 2 ^ sum_scale fl seed ix"
  obtain y where y: "gen_float_sum TYPE('u) fl False n 0 seed ix False = Some y" "float_canon fl y"
    "float_val fl y = sum_sign seed ix * (int ?Y0 - int ?Y1) * 2 ^ sum_scale fl seed ix"
    using gen_float_sum_output [OF wf w l n, of seed ix] by blast
  note b = sum_y_bounds [OF wf w l, of seed ix]
  have "nat ((n + 1) div 2) \<le> 2 ^ mantissa_bits fl" "nat (n div 2) \<le> 2 ^ mantissa_bits fl"
    using n(1,3) by (auto simp: nat_le_iff)
  then have le: "nat ((n + 1) div 2) \<le> ?Y0" "nat (n div 2) \<le> ?Y1" using b by linarith+
  have "(\<Sum>r\<in>{0..<n}. contribution n ?Y0 ?Y1 (sum_place n seed ix r)) = int ?Y0 - int ?Y1"
    using sr.sum_shuffled [of n "contribution n ?Y0 ?Y1" "sum_rng seed ix"] sum_contribution [OF n(1) le] n
    by simp
  then have "float_val fl y = (\<Sum>r\<in>{0..<n}. ?val r)"
    by (simp add: y(3) sum_distrib_left [symmetric] sum_distrib_right [symmetric])
  moreover have "\<exists>v. gen_float_sum TYPE('u) fl True n r seed ix False = Some v \<and> float_canon fl v \<and>
      float_val fl v = ?val r" if "r \<in> {0..<n}" for r
    using gen_float_sum_input [OF wf w l n, of r seed ix] that by simp
  moreover have "representable fl (\<Sum>r\<in>S. ?val r)" if "S \<subseteq> {0..<n}" for S
    using float_sum_representable [OF wf w l n that] .
  ultimately have "reduce_tree add (\<lambda>r. gen_float_sum TYPE('u) fl True n r seed ix False) t = Some y"
    by (intro float_adder.adder_tree_expected [OF add _ _ t y(2)])
  with y(1,2) show ?thesis by blast
qed

lemma float_sum_tree:
  assumes wf: "wf_layout fl"
    and n: "2 \<le> n" "n < 2 ^ 31" "(n + 1) div 2 \<le> 2 ^ mantissa_bits fl"
    and t: "set (leaves t) = {0..<n}" "distinct (leaves t)" and add: "float_adder fl add"
  shows "\<exists>y. genInOutFloatSum fl False n 0 seed ix False = Some y \<and> float_canon fl y \<and>
    reduce_tree add (float_sum_input fl n seed ix) t = Some y"
  using wf
proof (cases rule: uint_type_cases)
  case 1
  from gen_float_sum_tree [OF wf 1(3,2) n t add, of seed ix] 1(1) show ?thesis
    by (simp add: genInOutFloatSum_def float_sum_input_def [abs_def])
next
  case 2
  from gen_float_sum_tree [OF wf 2(3,2) n t add, of seed ix] 2(1) show ?thesis
    by (simp add: genInOutFloatSum_def float_sum_input_def [abs_def])
qed

section \<open>Properties\<close>

text \<open>C1: for each of the six floating point types and every rank count the mantissa allows, the values
  that \<open>genInOutFloatSum\<close> gives to the ranks reduce, with IEEE addition, to exactly the bit pattern it
  announces as the output, whatever the tree in which the ranks are combined.\<close>

theorem float_sum_any_order:
  assumes "fl \<in> set float_layouts"
    and "2 \<le> n" "n < 2 ^ 31" "(n + 1) div 2 \<le> 2 ^ mantissa_bits fl"
    and "set (leaves t) = {0..<n}" "distinct (leaves t)"
  shows "\<exists>y. genInOutFloatSum fl False n 0 seed index False = Some y \<and>
    reduce_tree (fadd fl) (\<lambda>r. genInOutFloatSum fl True n r seed index False) t = Some y"
  using float_sum_tree [OF wf_layouts [OF assms(1)] assms(2-6) float_adder_fadd [OF wf_layouts [OF assms(1)]],
      of seed index]
  by (auto simp: float_sum_input_def [abs_def])

theorem float_sum_any_order_witness:
  "\<exists>y. genInOutFloatSum float16 False 3 0 7 9 False = Some y \<and>
    reduce_tree (fadd float16) (\<lambda>r. genInOutFloatSum float16 True 3 r 7 9 False)
      (Join (Rank 2) (Join (Rank 0) (Rank 1))) = Some y"
proof -
  have "{2, 0, 1} = {0..<3::int}" by auto
  then show ?thesis
    using float_sum_any_order [of float16 3 "Join (Rank 2) (Join (Rank 0) (Rank 1))" 7 9]
    by (simp add: float_layouts_def float16_def)
qed

end
