(* ===== verification/VerifFloatPreMul.thy ===== *)
theory VerifFloatPreMul
  imports VerifFloatSum
begin

text \<open>
  The generator \<open>genInOutFloatPreMulSum\<close> of verifiable/verifiable.cu: every rank multiplies its
  input by a scalar (one on even ranks, two on odd ones) before the sum.
\<close>

section \<open>The code\<close>

definition gen_float_premul ::
  "'u::len itself \<Rightarrow> float_layout \<Rightarrow> bool \<Rightarrow> int \<Rightarrow> int \<Rightarrow> u64 \<Rightarrow> u64 \<Rightarrow> u64 option" where
  "gen_float_premul _ fl input_not_output rank_n rank_me seed index =
     (let rng = hashOf seed index;
          y_sign = uint (rng AND 1);
          y_exp = float_sum_exp fl rng;
          rng = mixBits rng;
          (subrank_me0, rng) = shuffleRank ((rank_n + 1) sdiv 2) (rank_me sdiv 2) rng;
          (subrank_me1, rng) = shuffleRank ((rank_n + 0) sdiv 2) (rank_me sdiv 2) rng
      in case genSumXY ((rank_n + 1) sdiv 2) subrank_me0 rng (drop_bit 1 (max_mant fl) :: 'u word) 0 False of
           None \<Rightarrow> None
         | Some (x0_mant, y0_mant, rng) \<Rightarrow>
             (case (if (rank_n + 0) sdiv 2 \<noteq> 0
                    then genSumXY ((rank_n + 0) sdiv 2) subrank_me1 rng (drop_bit 2 (max_mant fl)) 0 False
                    else Some (0, 0, rng)) of
                None \<Rightarrow> None
              | Some (x1_mant, y1_mant, rng) \<Rightarrow>
                  let x_mant = (if rank_me smod 2 = 0 then x0_mant else x1_mant);
                      y_mant = y0_mant + 2 * y1_mant
                  in Some (float_of_mant fl y_sign y_exp (if input_not_output then x_mant else y_mant))))"

definition genInOutFloatPreMulSum ::
  "float_layout \<Rightarrow> bool \<Rightarrow> int \<Rightarrow> int \<Rightarrow> u64 \<Rightarrow> u64 \<Rightarrow> u64 option" where
  "genInOutFloatPreMulSum fl =
     (if float_bits fl > 32 then gen_float_premul TYPE(64) fl else gen_float_premul TYPE(32) fl)"

text \<open>\<open>ReducePreMulSum::preOp\<close> on the input of a rank.\<close>

definition premul_input :: "float_layout \<Rightarrow> (int \<Rightarrow> u64 option) \<Rightarrow> int \<Rightarrow> u64 option" where
  "premul_input fl input r =
     (case input r of None \<Rightarrow> None | Some x \<Rightarrow> fmul fl x (premul_scalar fl r))"

section \<open>One call\<close>

definition premul_y0 :: "float_layout \<Rightarrow> u64 \<Rightarrow> u64 \<Rightarrow> 'u::len word" where
  "premul_y0 fl seed index =
     sumxy_pick (mixBits (mixBits (sum_rng seed index))) (drop_bit 1 (max_mant fl)) 0 False"

definition premul_y1 :: "float_layout \<Rightarrow> u64 \<Rightarrow> u64 \<Rightarrow> 'u::len word" where
  "premul_y1 fl seed index =
     sumxy_pick (mixBits (mixBits (mixBits (sum_rng seed index)))) (drop_bit 2 (max_mant fl)) 0 False"

abbreviation premul_place0 :: "int \<Rightarrow> u64 \<Rightarrow> u64 \<Rightarrow> int \<Rightarrow> int" where
  "premul_place0 n seed index r \<equiv> fst (shuffleRank ((n + 1) div 2) r (sum_rng seed index))"

abbreviation premul_place1 :: "int \<Rightarrow> u64 \<Rightarrow> u64 \<Rightarrow> int \<Rightarrow> int" where
  "premul_place1 n seed index r \<equiv> fst (shuffleRank (n div 2) r (mixBits (sum_rng seed index)))"

lemma gen_float_premul_eq:
  assumes "2 \<le> n" "0 \<le> r"
    and x0: "sumxy_split ((n + 1) div 2) (premul_place0 n seed ix (r div 2)) (drop_bit 1 (max_mant fl) :: 'u::len word)
        (premul_y0 fl seed ix) = Some x0"
    and x1: "sumxy_split (n div 2) (premul_place1 n seed ix (r div 2)) (drop_bit 2 (max_mant fl) :: 'u word)
        (premul_y1 fl seed ix) = Some x1"
  shows "gen_float_premul TYPE('u) fl b n r seed ix =
    Some (float_of_mant fl (uint (hashOf seed ix AND 1)) (float_sum_exp fl (hashOf seed ix))
      (if b then (if even r then x0 else x1) else premul_y0 fl seed ix + 2 * premul_y1 fl seed ix))"
proof -
  have g0: "genSumXY ((n + 1) div 2) (premul_place0 n seed ix (r div 2)) (mixBits (mixBits (sum_rng seed ix)))
        (drop_bit 1 (max_mant fl)) 0 False =
      Some (x0, premul_y0 fl seed ix, mixBits (mixBits (mixBits (sum_rng seed ix))))"
    using x0 by (simp add: genSumXY_def Let_def premul_y0_def)
  have g1: "genSumXY (n div 2) (premul_place1 n seed ix (r div 2)) (mixBits (mixBits (mixBits (sum_rng seed ix))))
        (drop_bit 2 (max_mant fl)) 0 False =
      Some (x1, premul_y1 fl seed ix, mixBits (mixBits (mixBits (mixBits (sum_rng seed ix)))))"
    using x1 by (simp add: genSumXY_def Let_def premul_y1_def)
  have "n div 2 \<noteq> 0" "0 \<le> n" "0 \<le> n + 1" using assms(1) by linarith+
  then show ?thesis
    unfolding gen_float_premul_def Let_def smod_nonneg [OF assms(2) zero_less_numeral]
      even_iff_mod_2_eq_zero sum_rng_def [symmetric]
    by (simp add: assms(2) case_prod_unfold g0 g1 del: One_nat_def)
qed

section \<open>The contributions of the ranks\<close>

definition premul_share :: "int \<Rightarrow> nat \<Rightarrow> nat \<Rightarrow> u64 \<Rightarrow> u64 \<Rightarrow> int \<Rightarrow> nat" where
  "premul_share n Y0 Y1 seed index r =
     (if even r then nat_split (nat ((n + 1) div 2)) Y0 (nat (premul_place0 n seed index (r div 2)))
      else nat_split (nat (n div 2)) Y1 (nat (premul_place1 n seed index (r div 2))))"

text \<open>What a rank contributes after the multiplication.\<close>

definition premul_weighted :: "int \<Rightarrow> nat \<Rightarrow> nat \<Rightarrow> u64 \<Rightarrow> u64 \<Rightarrow> int \<Rightarrow> nat" where
  "premul_weighted n Y0 Y1 seed index r =
     premul_share n Y0 Y1 seed index r * (if even r then 1 else 2)"

lemma sum_shuffled_split:
  assumes "0 < k" "k < 2 ^ 31" "nat k \<le> Y"
  shows "(\<Sum>r\<in>{..<nat k}. nat_split (nat k) Y (nat (fst (shuffleRank k (int r) g)))) = Y"
proof -
  have "(\<Sum>r\<in>{..<nat k}. nat_split (nat k) Y (nat (fst (shuffleRank k (int r) g)))) =
      (\<Sum>r\<in>{0..<k}. nat_split (nat k) Y (nat (fst (shuffleRank k r g))))"
    by (simp only: sum_int_nat)
  also have "\<dots> = (\<Sum>r\<in>{0..<k}. nat_split (nat k) Y (nat r))"
    using sr.sum_shuffled [of k "\<lambda>r. nat_split (nat k) Y (nat r)" g] assms by simp
  also have "\<dots> = (\<Sum>r\<in>{..<nat k}. nat_split (nat k) Y r)" by (simp only: sum_int_nat nat_int)
  also have "\<dots> = Y" using assms by (intro sum_nat_split) auto
  finally show ?thesis .
qed

lemma sum_premul_weighted:
  assumes "2 \<le> n" "n < 2 ^ 31" "nat ((n + 1) div 2) \<le> Y0" "nat (n div 2) \<le> Y1"
  shows "(\<Sum>r\<in>{0..<n}. premul_weighted n Y0 Y1 seed ix r) = Y0 + 2 * Y1"
proof -
  let ?f = "\<lambda>k. nat_split (nat ((n + 1) div 2)) Y0 (nat (premul_place0 n seed ix (int k)))"
  let ?g = "\<lambda>k. nat_split (nat (n div 2)) Y1 (nat (premul_place1 n seed ix (int k)))"
  have "(\<Sum>r\<in>{0..<n}. premul_weighted n Y0 Y1 seed ix r) =
      (\<Sum>r\<in>{0..<n}. if even r then ?f (nat (r div 2)) else 2 * ?g (nat (r div 2)))"
    by (rule sum.cong) (simp_all add: premul_weighted_def premul_share_def)
  also have "\<dots> = (\<Sum>k\<in>{..<nat ((n + 1) div 2)}. ?f k) + (\<Sum>k\<in>{..<nat (n div 2)}. 2 * ?g k)"
    by (rule sum_int_even_odd [where f = ?f and g = "\<lambda>k. 2 * ?g k"])
  also have "(\<Sum>k\<in>{..<nat ((n + 1) div 2)}. ?f k) = Y0"
    using assms by (intro sum_shuffled_split) auto
  also have "(\<Sum>k\<in>{..<nat (n div 2)}. 2 * ?g k) = 2 * Y1"
    unfolding sum_distrib_left [symmetric] using assms by (subst sum_shuffled_split) auto
  finally show ?thesis .
qed

section \<open>All calls together\<close>

lemma unat_max_mant_half:
  assumes "mantissa_bits fl + 2 \<le> LENGTH('u)" "j \<le> mantissa_bits fl"
  shows "unat (drop_bit j (max_mant fl) :: 'u::len word) = 2 ^ (Suc (mantissa_bits fl) - j) - 1"
    and "unat (drop_bit j (max_mant fl) :: 'u::len word) < 2 ^ (LENGTH('u) - 1)"
proof -
  have e: "Suc (mantissa_bits fl) = (Suc (mantissa_bits fl) - j) + j" using assms(2) by simp
  have "(2::nat) ^ Suc (mantissa_bits fl) - 1 = (2 ^ (Suc (mantissa_bits fl) - j) - 1) * 2 ^ j + (2 ^ j - 1)"
    by (subst e, simp only: power_add) (simp add: algebra_simps)
  then show d: "unat (drop_bit j (max_mant fl) :: 'u word) = 2 ^ (Suc (mantissa_bits fl) - j) - 1"
    unfolding unat_drop_bit unat_max_mant(1) [OF assms(1)] by (simp only:) (rule div_block, simp)
  have "unat (drop_bit j (max_mant fl) :: 'u word) \<le> unat (max_mant fl :: 'u word)"
    unfolding unat_drop_bit by (rule div_le_dividend)
  also have "\<dots> < 2 ^ (LENGTH('u) - 1)" by (rule unat_max_mant(2) [OF assms(1)])
  finally show "unat (drop_bit j (max_mant fl) :: 'u word) < 2 ^ (LENGTH('u) - 1)" .
qed

lemma premul_y_bounds:
  assumes wf: "wf_layout fl" and w: "uint_width TYPE('u::len)" and l: "mantissa_bits fl + 2 \<le> LENGTH('u)"
  shows "2 ^ (mantissa_bits fl - 1) \<le> unat (premul_y0 fl seed ix :: 'u word)"
    and "unat (premul_y0 fl seed ix :: 'u word) \<le> unat (drop_bit 1 (max_mant fl) :: 'u word)"
    and "2 ^ (mantissa_bits fl - 2) \<le> unat (premul_y1 fl seed ix :: 'u word)"
    and "unat (premul_y1 fl seed ix :: 'u word) \<le> unat (drop_bit 2 (max_mant fl) :: 'u word)"
proof -
  have mb: "1 \<le> mantissa_bits fl" "2 \<le> mantissa_bits fl" using wf_layoutD(1) [OF wf] by simp_all
  note m1 = unat_max_mant_half [OF l mb(1)] and m2 = unat_max_mant_half [OF l mb(2)]
  have "(unat (drop_bit 1 (max_mant fl) :: 'u word) + 1) div 2 = 2 ^ (mantissa_bits fl - 1)"
    using mb by (cases "mantissa_bits fl") (simp_all add: m1(1) [unfolded One_nat_def])
  then show "2 ^ (mantissa_bits fl - 1) \<le> unat (premul_y0 fl seed ix :: 'u word)"
    "unat (premul_y0 fl seed ix :: 'u word) \<le> unat (drop_bit 1 (max_mant fl) :: 'u word)"
    using unat_sumxy_pick_free(2,3) [OF w m1(2)] unfolding premul_y0_def by (simp_all only:)
  have "Suc (mantissa_bits fl) - 2 = Suc (mantissa_bits fl - 2)" using mb(2) by simp
  then have "(unat (drop_bit 2 (max_mant fl) :: 'u word) + 1) div 2 = 2 ^ (mantissa_bits fl - 2)"
    unfolding m2(1) by simp
  then show "2 ^ (mantissa_bits fl - 2) \<le> unat (premul_y1 fl seed ix :: 'u word)"
    "unat (premul_y1 fl seed ix :: 'u word) \<le> unat (drop_bit 2 (max_mant fl) :: 'u word)"
    using unat_sumxy_pick_free(2,3) [OF w m2(2)] unfolding premul_y1_def by (simp_all only:)
qed

lemma gen_float_premul_input:
  assumes wf: "wf_layout fl" and w: "uint_width TYPE('u::len)" and l: "mantissa_bits fl + 2 \<le> LENGTH('u)"
    and n: "2 \<le> n" "n < 2 ^ 31" "(n + 1) div 2 \<le> 2 ^ (mantissa_bits fl - 1)"
      "n div 2 \<le> 2 ^ (mantissa_bits fl - 2)" and r: "0 \<le> r" "r < n"
  shows "\<exists>v. gen_float_premul TYPE('u) fl True n r seed ix = Some v \<and> float_canon fl v \<and>
    float_val fl v = sum_sign seed ix * int (premul_share n (unat (premul_y0 fl seed ix :: 'u word))
      (unat (premul_y1 fl seed ix :: 'u word)) seed ix r) * 2 ^ sum_scale fl seed ix"
proof -
  let ?y0 = "premul_y0 fl seed ix :: 'u word" and ?y1 = "premul_y1 fl seed ix :: 'u word"
  let ?p0 = "premul_place0 n seed ix (r div 2)" and ?p1 = "premul_place1 n seed ix (r div 2)"
  have mb: "1 \<le> mantissa_bits fl" "2 \<le> mantissa_bits fl" using wf_layoutD(1) [OF wf] by simp_all
  note b = premul_y_bounds [OF wf w l, of seed ix]
  have k0: "0 < (n + 1) div 2" "(n + 1) div 2 < 2 ^ 31" "nat ((n + 1) div 2) \<le> unat ?y0"
    and k1: "0 < n div 2" "n div 2 < 2 ^ 31" "nat (n div 2) \<le> unat ?y1"
    using n order_trans [OF _ b(1), of "nat ((n + 1) div 2)"] order_trans [OF _ b(3), of "nat (n div 2)"]
    by (simp_all add: nat_le_iff)
  have pe: "0 \<le> ?p0 \<and> ?p0 < (n + 1) div 2" if "even r"
  proof -
    have "r div 2 < (n + 1) div 2" using r that by presburger
    then show ?thesis using sr.shuffle_range [of "(n + 1) div 2" "r div 2"] k0 r by auto
  qed
  have po: "0 \<le> ?p1 \<and> ?p1 < n div 2" if "odd r"
  proof -
    have "r div 2 < n div 2" using r that by presburger
    then show ?thesis using sr.shuffle_range [of "n div 2" "r div 2"] k1 r by auto
  qed
  obtain x0 where x0: "sumxy_split ((n + 1) div 2) ?p0 (drop_bit 1 (max_mant fl) :: 'u word) ?y0 = Some x0"
    "even r \<Longrightarrow> unat x0 = nat_split (nat ((n + 1) div 2)) (unat ?y0) (nat ?p0)"
    "even r \<Longrightarrow> unat x0 \<le> unat (drop_bit 1 (max_mant fl) :: 'u word)"
    using split_share [OF w unat_max_mant_half(2) [OF l mb(1)] k0 b(2), of ?p0] pe by metis
  obtain x1 where x1: "sumxy_split (n div 2) ?p1 (drop_bit 2 (max_mant fl) :: 'u word) ?y1 = Some x1"
    "odd r \<Longrightarrow> unat x1 = nat_split (nat (n div 2)) (unat ?y1) (nat ?p1)"
    "odd r \<Longrightarrow> unat x1 \<le> unat (drop_bit 2 (max_mant fl) :: 'u word)"
    using split_share [OF w unat_max_mant_half(2) [OF l mb(2)] k1 b(4), of ?p1] po by metis
  let ?x = "if even r then x0 else x1"
  have u: "unat ?x = premul_share n (unat ?y0) (unat ?y1) seed ix r"
    using x0(2) x1(2) by (simp add: premul_share_def)
  have d: "unat (drop_bit j (max_mant fl) :: 'u word) \<le> unat (max_mant fl :: 'u word)" for j
    unfolding unat_drop_bit by (rule div_le_dividend)
  have "unat ?x \<le> unat (max_mant fl :: 'u word)"
    using order_trans [OF x0(3) d] order_trans [OF x1(3) d] by (cases "even r") simp_all
  moreover have "(0::nat) < 2 ^ Suc (mantissa_bits fl)" by simp
  ultimately have x: "unat ?x < 2 ^ Suc (mantissa_bits fl)"
    unfolding unat_max_mant(1) [OF l] by linarith
  have l64: "LENGTH('u) \<le> 64" using w by (auto simp: uint_width_def)
  note f = float_val_of_mant [OF wf l l64 uint_and_1 x float_sum_exp_bounds [OF wf]]
    and c = float_canon_of_mant [OF wf l l64 uint_and_1 x float_sum_exp_bounds [OF wf]]
  have "gen_float_premul TYPE('u) fl True n r seed ix =
      Some (float_of_mant fl (uint (hashOf seed ix AND 1)) (float_sum_exp fl (hashOf seed ix)) ?x)"
    using gen_float_premul_eq [OF n(1) r(1) x0(1) x1(1), of True] by (simp only: if_True)
  then show ?thesis using c f(1) unfolding u sum_sign_def sum_scale_def by blast
qed

lemma gen_float_premul_output:
  assumes wf: "wf_layout fl" and w: "uint_width TYPE('u::len)" and l: "mantissa_bits fl + 2 \<le> LENGTH('u)"
    and n: "2 \<le> n" "n < 2 ^ 31" "(n + 1) div 2 \<le> 2 ^ (mantissa_bits fl - 1)"
      "n div 2 \<le> 2 ^ (mantissa_bits fl - 2)"
  shows "\<exists>v. gen_float_premul TYPE('u) fl False n 0 seed ix = Some v \<and> float_canon fl v \<and>
    float_val fl v = sum_sign seed ix * int (unat (premul_y0 fl seed ix :: 'u word) +
      2 * unat (premul_y1 fl seed ix :: 'u word)) * 2 ^ sum_scale fl seed ix"
    and "unat (premul_y0 fl seed ix :: 'u word) + 2 * unat (premul_y1 fl seed ix :: 'u word)
      < 2 ^ Suc (mantissa_bits fl)"
proof -
  let ?y0 = "premul_y0 fl seed ix :: 'u word" and ?y1 = "premul_y1 fl seed ix :: 'u word"
  let ?p0 = "premul_place0 n seed ix 0" and ?p1 = "premul_place1 n seed ix 0"
  have mb: "1 \<le> mantissa_bits fl" "2 \<le> mantissa_bits fl" using wf_layoutD(1) [OF wf] by simp_all
  note b = premul_y_bounds [OF wf w l, of seed ix]
  have k0: "0 < (n + 1) div 2" "(n + 1) div 2 < 2 ^ 31" "nat ((n + 1) div 2) \<le> unat ?y0"
    and k1: "0 < n div 2" "n div 2 < 2 ^ 31" "nat (n div 2) \<le> unat ?y1"
    using n order_trans [OF _ b(1), of "nat ((n + 1) div 2)"] order_trans [OF _ b(3), of "nat (n div 2)"]
    by (simp_all add: nat_le_iff)
  obtain x0 where x0: "sumxy_split ((n + 1) div 2) ?p0 (drop_bit 1 (max_mant fl) :: 'u word) ?y0 = Some x0"
    using split_share [OF w unat_max_mant_half(2) [OF l mb(1)] k0 b(2), of ?p0] by metis
  obtain x1 where x1: "sumxy_split (n div 2) ?p1 (drop_bit 2 (max_mant fl) :: 'u word) ?y1 = Some x1"
    using split_share [OF w unat_max_mant_half(2) [OF l mb(2)] k1 b(4), of ?p1] by metis
  have "unat ?y0 \<le> 2 ^ mantissa_bits fl - 1" using b(2) unfolding unat_max_mant_half(1) [OF l mb(1)] by simp
  moreover have "unat ?y1 \<le> 2 ^ (mantissa_bits fl - 1) - 1"
    using b(4) unfolding unat_max_mant_half(1) [OF l mb(2)] by (simp add: numeral_2_eq_2)
  moreover have "(2::nat) ^ mantissa_bits fl = 2 * 2 ^ (mantissa_bits fl - 1)" using mb(1) by (simp flip: power_Suc)
  moreover have "(0::nat) < 2 ^ (mantissa_bits fl - 1)" by simp
  ultimately show y: "unat ?y0 + 2 * unat ?y1 < 2 ^ Suc (mantissa_bits fl)" unfolding power_Suc by linarith
  have pw: "(2::nat) ^ Suc (mantissa_bits fl) < 2 ^ LENGTH('u)" using l by (intro power_strict_increasing) simp_all
  have two: "unat (2 :: 'u word) = 2" using l unat_pow2 [where 'a = 'u, of 1] by simp
  have "2 * unat ?y1 < 2 ^ LENGTH('u)" using y pw by linarith
  then have d: "unat (2 * ?y1) = 2 * unat ?y1" using unat_mult_small [of 2 ?y1] by (simp only: two)
  have "unat ?y0 + 2 * unat ?y1 < 2 ^ LENGTH('u)" using y pw by linarith
  then have u: "unat (?y0 + 2 * ?y1) = unat ?y0 + 2 * unat ?y1"
    using unat_add_small [of ?y0 "2 * ?y1"] by (simp only: d)
  have l64: "LENGTH('u) \<le> 64" using w by (auto simp: uint_width_def)
  note y' = y [folded u]
  note f = float_val_of_mant [OF wf l l64 uint_and_1 y' float_sum_exp_bounds [OF wf]]
    and c = float_canon_of_mant [OF wf l l64 uint_and_1 y' float_sum_exp_bounds [OF wf]]
  have "gen_float_premul TYPE('u) fl False n 0 seed ix =
      Some (float_of_mant fl (uint (hashOf seed ix AND 1)) (float_sum_exp fl (hashOf seed ix)) (?y0 + 2 * ?y1))"
    using gen_float_premul_eq [OF n(1) order_refl, of seed ix fl x0 x1 False] x0 x1 by simp
  then show "\<exists>v. gen_float_premul TYPE('u) fl False n 0 seed ix = Some v \<and> float_canon fl v \<and>
    float_val fl v = sum_sign seed ix * int (unat ?y0 + 2 * unat ?y1) * 2 ^ sum_scale fl seed ix"
    using c f(1) unfolding u sum_sign_def sum_scale_def by blast
qed

text \<open>Small integer multiples of the common power of two can be held.\<close>

lemma representable_scaled:
  assumes wf: "wf_layout fl" and m: "m < 2 ^ Suc (mantissa_bits fl)"
  shows "representable fl (sum_sign seed ix * int m * 2 ^ sum_scale fl seed ix)"
proof -
  have e: "float_sum_exp fl (hashOf seed ix) \<le> int (2 ^ exponent_bits fl) - 2"
    "1 \<le> float_sum_exp fl (hashOf seed ix)"
    using float_sum_exp_bounds [OF wf, of "hashOf seed ix"] by simp_all
  have "(4::nat) \<le> 2 ^ exponent_bits fl" using wf_layoutD(5) [OF wf] by linarith
  with e have "sum_scale fl seed ix + 3 \<le> 2 ^ exponent_bits fl" unfolding sum_scale_def by linarith
  moreover have "\<bar>sum_sign seed ix * int m * 2 ^ sum_scale fl seed ix\<bar> = int m * 2 ^ sum_scale fl seed ix"
    by (simp add: abs_mult sum_sign_def)
  ultimately show ?thesis using m unfolding representable_def by blast
qed

lemma gen_float_premul_tree:
  assumes wf: "wf_layout fl" and w: "uint_width TYPE('u::len)" and l: "mantissa_bits fl + 2 \<le> LENGTH('u)"
    and n: "2 \<le> n" "n < 2 ^ 31" "(n + 1) div 2 \<le> 2 ^ (mantissa_bits fl - 1)"
      "n div 2 \<le> 2 ^ (mantissa_bits fl - 2)"
    and t: "set (leaves t) = {0..<n}" "distinct (leaves t)" and add: "float_adder fl add"
  shows "\<exists>y. gen_float_premul TYPE('u) fl False n 0 seed ix = Some y \<and>
    reduce_tree add (premul_input fl (\<lambda>r. gen_float_premul TYPE('u) fl True n r seed ix)) t = Some y"
proof -
  let ?Y0 = "unat (premul_y0 fl seed ix :: 'u word)" and ?Y1 = "unat (premul_y1 fl seed ix :: 'u word)"
  let ?s = "sum_sign seed ix" and ?k = "sum_scale fl seed ix"
  let ?w = "premul_weighted n ?Y0 ?Y1 seed ix"
  let ?val = "\<lambda>r. ?s * int (?w r) * 2 ^ ?k"
  note out = gen_float_premul_output [OF wf w l n, of seed ix]
  obtain y where y: "gen_float_premul TYPE('u) fl False n 0 seed ix = Some y" "float_canon fl y"
    "float_val fl y = ?s * int (?Y0 + 2 * ?Y1) * 2 ^ ?k" using out(1) by blast
  note b = premul_y_bounds [OF wf w l, of seed ix]
  have le: "nat ((n + 1) div 2) \<le> ?Y0" "nat (n div 2) \<le> ?Y1"
    using n order_trans [OF _ b(1), of "nat ((n + 1) div 2)"] order_trans [OF _ b(3), of "nat (n div 2)"]
    by (simp_all add: nat_le_iff)
  note sum = sum_premul_weighted [OF n(1,2) le, of seed ix]
  have sub: "(\<Sum>r\<in>S. ?w r) \<le> ?Y0 + 2 * ?Y1" if "S \<subseteq> {0..<n}" for S
    unfolding sum [symmetric] by (rule sum_mono2) (use that in auto)
  have tot: "(\<Sum>r\<in>S. ?val r) = ?s * int (\<Sum>r\<in>S. ?w r) * 2 ^ ?k" for S
    by (simp add: sum_distrib_left sum_distrib_right of_nat_sum)
  have rep: "representable fl (\<Sum>r\<in>S. ?val r)" if "S \<subseteq> {0..<n}" for S
    unfolding tot by (intro representable_scaled [OF wf] order_le_less_trans [OF sub [OF that] out(2)])
  have "float_val fl y = (\<Sum>r\<in>{0..<n}. ?val r)" unfolding tot sum by (rule y(3))
  moreover have "\<exists>v. premul_input fl (\<lambda>r. gen_float_premul TYPE('u) fl True n r seed ix) r = Some v \<and>
      float_canon fl v \<and> float_val fl v = ?val r" if r: "r \<in> {0..<n}" for r
  proof -
    have r': "0 \<le> r" "r < n" using r by simp_all
    have e: "r smod 2 = 0 \<longleftrightarrow> even r" using r' by (simp add: even_iff_mod_2_eq_zero)
    obtain v where v: "gen_float_premul TYPE('u) fl True n r seed ix = Some v" "float_canon fl v"
      "float_val fl v = ?s * int (premul_share n ?Y0 ?Y1 seed ix r) * 2 ^ ?k"
      using gen_float_premul_input [OF wf w l n r'] by blast
    then have m: "float_val fl v * (if r smod 2 = 0 then 1 else 2) = ?val r"
      unfolding e by (simp add: premul_weighted_def)
    have "representable fl (?val r)" using rep [of "{r}"] r by simp
    from fmul_premul [OF wf v(2), of r, unfolded m, OF this] show ?thesis
      using v(1) by (simp add: premul_input_def)
  qed
  ultimately have "reduce_tree add (premul_input fl (\<lambda>r. gen_float_premul TYPE('u) fl True n r seed ix)) t = Some y"
    by (intro float_adder.adder_tree_expected [OF add _ rep t y(2)])
  with y(1) show ?thesis by blast
qed

lemma float_premul_tree:
  assumes "fl \<in> set float_layouts"
    and "2 \<le> n" "n < 2 ^ 31" "(n + 1) div 2 \<le> 2 ^ (mantissa_bits fl - 1)" "n div 2 \<le> 2 ^ (mantissa_bits fl - 2)"
    and "set (leaves t) = {0..<n}" "distinct (leaves t)"
  shows "\<exists>y. genInOutFloatPreMulSum fl False n 0 seed index = Some y \<and>
    reduce_tree (fadd fl) (premul_input fl (\<lambda>r. genInOutFloatPreMulSum fl True n r seed index)) t = Some y"
  using wf_layouts [OF assms(1)]
proof (cases rule: uint_type_cases)
  case 1
  from gen_float_premul_tree [OF wf_layouts [OF assms(1)] 1(3,2) assms(2-7) float_adder_fadd [OF wf_layouts [OF assms(1)]]]
  show ?thesis using 1(1) by (simp add: genInOutFloatPreMulSum_def)
next
  case 2
  from gen_float_premul_tree [OF wf_layouts [OF assms(1)] 2(3,2) assms(2-7) float_adder_fadd [OF wf_layouts [OF assms(1)]]]
  show ?thesis using 2(1) by (simp add: genInOutFloatPreMulSum_def)
qed

section \<open>Properties\<close>

text \<open>C34: the same for the sums with a scalar per rank: multiplied by one on even and two on odd ranks, the
  inputs of \<open>genInOutFloatPreMulSum\<close> reduce to exactly the announced output in every tree of the ranks,
  as long as both halves of the ranks are no more than the units available to them.\<close>

theorem float_premul_any_order:
  assumes "fl \<in> set float_layouts"
    and "2 \<le> n" "n < 2 ^ 31" "(n + 1) div 2 \<le> 2 ^ (mantissa_bits fl - 1)" "n div 2 \<le> 2 ^ (mantissa_bits fl - 2)"
    and "set (leaves t) = {0..<n}" "distinct (leaves t)"
  shows "\<exists>y. genInOutFloatPreMulSum fl False n 0 seed index = Some y \<and>
    reduce_tree (fadd fl) (premul_input fl (\<lambda>r. genInOutFloatPreMulSum fl True n r seed index)) t = Some y"
  using assms by (rule float_premul_tree)

theorem float_premul_any_order_witness:
  "\<exists>y. genInOutFloatPreMulSum float32 False 3 0 7 9 = Some y \<and>
    reduce_tree (fadd float32) (premul_input float32 (\<lambda>r. genInOutFloatPreMulSum float32 True 3 r 7 9))
      (Join (Join (Rank 0) (Rank 2)) (Rank 1)) = Some y"
proof -
  have "{0, 2, 1} = {0..<3::int}" by auto
  then show ?thesis
    using float_premul_any_order [of float32 3 "Join (Join (Rank 0) (Rank 2)) (Rank 1)" 7 9]
    by (simp add: float_layouts_def float32_def)
qed

end
