(* ===== verification/VerifFloatProd.thy ===== *)
theory VerifFloatProd
  imports VerifFloatSum
begin

text \<open>
  The generator \<open>genInOutFloatProd\<close> of verifiable/verifiable.cu: one rank contributes a random
  mantissa, all others powers of two whose exponents add up to a known sum, and every
  other place in the permutation is negative.
\<close>

section \<open>The code\<close>

definition genInOutFloatProd ::
  "float_layout \<Rightarrow> bool \<Rightarrow> int \<Rightarrow> int \<Rightarrow> u64 \<Rightarrow> u64 \<Rightarrow> u64 option" where
  "genInOutFloatProd fl input_not_output rank_n rank_me seed index =
     (let rng = hashOf seed index;
          (rank_me, rng) = shuffleRank rank_n rank_me rng;
          y_sign = (rank_n sdiv 2) smod 2;
          x_sign = rank_me smod 2;
          max_exp = - 1 + push_bit (exponent_bits fl - 1) 1 :: u32
      in case genSumXY rank_n rank_me rng max_exp 0 False of
           None \<Rightarrow> None
         | Some (x_exp, y_exp, rng) \<Rightarrow>
             let x_exp = x_exp + u32_of_int (exponent_bias fl);
                 y_exp = y_exp + u32_of_int (exponent_bias fl);
                 mant_mask = push_bit (mantissa_bits fl) 1 - 1 :: u64;
                 y_mant = rng AND mant_mask;
                 y_mant = (if y_mant = 0 then 1 else y_mant)
             in Some (makeFloat fl
                  (if input_not_output then x_sign else y_sign)
                  (sint (if input_not_output then x_exp else y_exp))
                  (if \<not> input_not_output \<or> rank_me = 0 then y_mant else 0)))"

section \<open>The contract of a multiplier\<close>

definition float_rat :: "float_layout \<Rightarrow> u64 \<Rightarrow> rat" where
  "float_rat fl w = of_int (float_val fl w) / 2 ^ float_unit fl"

definition representable_rat :: "float_layout \<Rightarrow> rat \<Rightarrow> bool" where
  "representable_rat fl q \<longleftrightarrow> (\<exists>v. q = of_int v / 2 ^ float_unit fl \<and> representable fl v)"

locale float_multiplier =
  fixes fl :: float_layout and mul :: "u64 \<Rightarrow> u64 \<Rightarrow> u64 option"
  assumes mul_exact: "float_canon fl a \<and> float_val fl a \<noteq> 0 \<Longrightarrow> float_canon fl b \<and> float_val fl b \<noteq> 0 \<Longrightarrow>
      representable_rat fl (float_rat fl a * float_rat fl b) \<Longrightarrow>
      \<exists>c. mul a b = Some c \<and> (float_canon fl c \<and> float_val fl c \<noteq> 0) \<and>
        float_rat fl c = float_rat fl a * float_rat fl b"

sublocale float_multiplier \<subseteq> reducer mul "\<lambda>w. float_canon fl w \<and> float_val fl w \<noteq> 0" "float_rat fl"
    "representable_rat fl" "(*)" prod
  by unfold_locales
    (simp, simp add: prod.union_disjoint, rule mul_exact, assumption+, auto simp: float_rat_def intro: float_canon_inj)

context float_multiplier
begin

lemmas multiplier_tree_expected = reduce_tree_expected

end

lemma float_multiplier_fmul:
  assumes "wf_layout fl"
  shows "float_multiplier fl (fmul fl)"
proof
  fix a b
  assume a: "float_canon fl a \<and> float_val fl a \<noteq> 0" and b: "float_canon fl b \<and> float_val fl b \<noteq> 0"
    and "representable_rat fl (float_rat fl a * float_rat fl b)"
  then obtain v where v: "float_rat fl a * float_rat fl b = of_int v / 2 ^ float_unit fl" and rep: "representable fl v"
    by (auto simp: representable_rat_def)
  have "of_int (float_val fl a * float_val fl b) = (of_int (v * 2 ^ float_unit fl) :: rat)"
    using v by (simp add: float_rat_def field_simps)
  then have prod: "float_val fl a * float_val fl b = v * 2 ^ float_unit fl" by (simp only: of_int_eq_iff)
  then have "v \<noteq> 0" using a b by auto
  with fmul_exact [OF assms _ _ prod rep] a b
  obtain c where "fmul fl a b = Some c" "float_canon fl c" "float_val fl c = v" by blast
  then show "\<exists>c. fmul fl a b = Some c \<and> (float_canon fl c \<and> float_val fl c \<noteq> 0) \<and>
      float_rat fl c = float_rat fl a * float_rat fl b"
    using \<open>v \<noteq> 0\<close> v by (auto simp: float_rat_def)
qed

interpretation fm32: float_multiplier float32 "fmul float32"
  by (rule float_multiplier_fmul) (simp add: wf_layouts float_layouts_def)

interpretation fm16: float_multiplier float16 "fmul float16"
  by (rule float_multiplier_fmul) (simp add: wf_layouts float_layouts_def)

section \<open>Products of the contributions\<close>

text \<open>The number contributed at place \<open>p\<close>, for the exponent sum \<open>Y\<close> and the mantissa \<open>m\<close>.\<close>

definition prod_factor :: "float_layout \<Rightarrow> int \<Rightarrow> nat \<Rightarrow> nat \<Rightarrow> int \<Rightarrow> rat" where
  "prod_factor fl n Y m p =
     (if odd p then - 1 else 1) * (of_nat (2 ^ mantissa_bits fl + (if p = 0 then m else 0)) / 2 ^ mantissa_bits fl) *
     2 ^ nat_split (nat n) Y (nat p)"

lemma prod_signs: "(\<Prod>p\<in>{0..<int k}. if odd p then - 1 else 1 :: rat) = (- 1) ^ (k div 2)"
proof (induction k)
  case (Suc k)
  have "{0..<int (Suc k)} = insert (int k) {0..<int k}" by auto
  then have "(\<Prod>p\<in>{0..<int (Suc k)}. if odd p then - 1 else 1 :: rat) = (if odd k then - 1 else 1) * (- 1) ^ (k div 2)"
    using Suc by simp
  then show ?case by (cases "odd k") (auto elim!: oddE)
qed simp

lemma prod_signs_abs: "finite P \<Longrightarrow> \<bar>\<Prod>p\<in>P. if odd p then - 1 else 1 :: rat\<bar> = 1"
  by (induction P rule: finite_induct) (auto simp: abs_mult)

lemma prod_factors:
  assumes "finite P"
  shows "(\<Prod>p\<in>P. prod_factor fl n Y m p) =
    (\<Prod>p\<in>P. if odd p then - 1 else 1) *
    (of_nat (2 ^ mantissa_bits fl + (if 0 \<in> P then m else 0)) / 2 ^ mantissa_bits fl) *
    2 ^ (\<Sum>p\<in>P. nat_split (nat n) Y (nat p))"
proof -
  let ?A = "of_nat (2 ^ mantissa_bits fl + m) / 2 ^ mantissa_bits fl :: rat"
  have one: "of_nat (2 ^ mantissa_bits fl + (if p = 0 then m else 0)) / 2 ^ mantissa_bits fl =
      (if p = 0 then ?A else 1 :: rat)" for p :: int by simp
  have "(\<Prod>p\<in>P. if p = 0 then ?A else 1) = (if 0 \<in> P then ?A else 1)"
    using assms by (simp add: prod.delta)
  moreover have "(if 0 \<in> P then ?A else 1) =
      of_nat (2 ^ mantissa_bits fl + (if 0 \<in> P then m else 0)) / 2 ^ mantissa_bits fl"
    by simp
  ultimately show ?thesis
    unfolding prod_factor_def prod.distrib one by (simp only: power_sum)
qed

section \<open>All calls together\<close>

definition prod_max_exp :: "float_layout \<Rightarrow> u32" where
  "prod_max_exp fl = - 1 + push_bit (exponent_bits fl - 1) 1"

definition prod_y :: "float_layout \<Rightarrow> u64 \<Rightarrow> u64 \<Rightarrow> u32" where
  "prod_y fl seed index = sumxy_pick (mixBits (hashOf seed index)) (prod_max_exp fl) 0 False"

definition prod_mant :: "float_layout \<Rightarrow> u64 \<Rightarrow> u64 \<Rightarrow> u64" where
  "prod_mant fl seed index =
     (let m = mixBits (mixBits (hashOf seed index)) AND (push_bit (mantissa_bits fl) 1 - 1)
      in if m = 0 then 1 else m)"

abbreviation prod_place :: "int \<Rightarrow> u64 \<Rightarrow> u64 \<Rightarrow> int \<Rightarrow> int" where
  "prod_place n seed index r \<equiv> fst (shuffleRank n r (hashOf seed index))"

lemma prod_max_exp:
  assumes "wf_layout fl"
  shows "int (unat (prod_max_exp fl)) = exponent_bias fl" and "unat (prod_max_exp fl) + 1 = 2 ^ (exponent_bits fl - 1)"
    and "unat (prod_max_exp fl) < 2 ^ (LENGTH(32) - 1)"
proof -
  have "exponent_bits fl - 1 < LENGTH(32)" using wf_layoutD(3) [OF assms] by simp
  moreover have "prod_max_exp fl = mask (exponent_bits fl - 1)"
    by (simp add: prod_max_exp_def mask_eq_exp_minus_1 push_bit_eq_mult)
  ultimately have u: "unat (prod_max_exp fl) = 2 ^ (exponent_bits fl - 1) - 1" by (simp only: unat_mask)
  then show "unat (prod_max_exp fl) + 1 = 2 ^ (exponent_bits fl - 1)" by simp
  show "int (unat (prod_max_exp fl)) = exponent_bias fl"
    unfolding u exponent_bias_eq [OF assms] by (simp add: of_nat_diff)
  have "(2::nat) ^ (exponent_bits fl - 1) \<le> 2 ^ 10" using wf_layoutD(3) [OF assms] by (intro power_increasing) simp_all
  then show "unat (prod_max_exp fl) < 2 ^ (LENGTH(32) - 1)" unfolding u by simp
qed

lemma prod_mant_less:
  assumes "wf_layout fl"
  shows "unat (prod_mant fl seed ix) < 2 ^ mantissa_bits fl"
proof -
  have "(2::nat) ^ 1 \<le> 2 ^ mantissa_bits fl" using wf_layoutD(1) [OF assms] by (intro power_increasing) simp_all
  moreover have "push_bit (mantissa_bits fl) 1 - 1 = (mask (mantissa_bits fl) :: u64)"
    by (simp add: mask_eq_exp_minus_1 push_bit_eq_mult)
  ultimately show ?thesis
    unfolding prod_mant_def Let_def by (simp only: unat_and_mask split: if_split) simp
qed

lemma prod_y_bounds:
  assumes "wf_layout fl"
  shows "2 ^ (exponent_bits fl - 2) \<le> unat (prod_y fl seed ix)"
    and "unat (prod_y fl seed ix) \<le> unat (prod_max_exp fl)"
proof -
  have w: "uint_width TYPE(32)" by (simp add: uint_width_def)
  have "exponent_bits fl - 1 = Suc (exponent_bits fl - 2)" using wf_layoutD(2) [OF assms] by simp
  then have "(unat (prod_max_exp fl) + 1) div 2 = 2 ^ (exponent_bits fl - 2)"
    unfolding prod_max_exp(2) [OF assms] by simp
  with unat_sumxy_pick_free(2,3) [OF w prod_max_exp(3) [OF assms]]
  show "2 ^ (exponent_bits fl - 2) \<le> unat (prod_y fl seed ix)"
    "unat (prod_y fl seed ix) \<le> unat (prod_max_exp fl)"
    by (simp_all only: prod_y_def)
qed

text \<open>One call, with the exponent as an integer.\<close>

lemma genInOutFloatProd_eq:
  assumes wf: "wf_layout fl" and n: "2 \<le> n" "n < 2 ^ 31" "nat n \<le> 2 ^ (exponent_bits fl - 2)" and r: "0 \<le> r" "r < n"
  shows "genInOutFloatProd fl b n r seed ix =
    (let p = prod_place n seed ix r; Y = unat (prod_y fl seed ix);
         e = int (if b then nat_split (nat n) Y (nat p) else Y)
     in Some (makeFloat fl (if b then p mod 2 else (n div 2) mod 2) (e + exponent_bias fl)
         (if \<not> b \<or> p = 0 then prod_mant fl seed ix else 0)))"
    and "nat_split (nat n) (unat (prod_y fl seed ix)) (nat (prod_place n seed ix r)) \<le> unat (prod_max_exp fl)"
proof -
  let ?p = "prod_place n seed ix r" and ?Y = "unat (prod_y fl seed ix)"
  have w: "uint_width TYPE(32)" by (simp add: uint_width_def)
  have p: "0 \<le> ?p" "?p < n" using sr.shuffle_range [of n r] n r by simp_all
  note yb = prod_y_bounds [OF wf, of seed ix] and mx = prod_max_exp [OF wf]
  have "0 < n" "nat n \<le> ?Y" using n yb(1) by linarith+
  from split_share [OF w mx(3) this(1) n(2) this(2) yb(2), of ?p] p obtain x where
    x: "sumxy_split n ?p (prod_max_exp fl) (prod_y fl seed ix) = Some x"
    "unat x = nat_split (nat n) ?Y (nat ?p)" "unat x \<le> unat (prod_max_exp fl)" by metis
  then show "nat_split (nat n) ?Y (nat ?p) \<le> unat (prod_max_exp fl)" by simp
  have g: "genSumXY n ?p (mixBits (hashOf seed ix)) (- 1 + push_bit (exponent_bits fl - 1) 1) 0 False =
      Some (x, prod_y fl seed ix, mixBits (mixBits (hashOf seed ix)))"
    using x(1) by (simp add: genSumXY_def Let_def prod_y_def prod_max_exp_def del: One_nat_def)
  have biased: "sint (e + u32_of_int (exponent_bias fl)) = int (unat e) + exponent_bias fl"
    if "unat e \<le> unat (prod_max_exp fl)" for e
  proof -
    have "u32_of_int (exponent_bias fl) = prod_max_exp fl"
      unfolding mx(1) [symmetric] by simp
    moreover have "(2::nat) ^ (exponent_bits fl - 1) \<le> 2 ^ 10"
      using wf_layoutD(3) [OF wf] by (intro power_increasing) simp_all
    then have "unat e + unat (prod_max_exp fl) < 2 ^ 11"
      using that mx(2) by simp
    moreover from this have "unat (e + prod_max_exp fl) = unat e + unat (prod_max_exp fl)"
      by (intro unat_add_small) simp
    ultimately show ?thesis using mx(1) by (subst sint_unat_small) simp_all
  qed
  have sm: "?p smod 2 = ?p mod 2" "n sdiv 2 = n div 2" "(n div 2) smod 2 = (n div 2) mod 2"
    using p n by simp_all
  show "genInOutFloatProd fl b n r seed ix =
    (let p = ?p; Y = ?Y; e = int (if b then nat_split (nat n) Y (nat p) else Y)
     in Some (makeFloat fl (if b then p mod 2 else (n div 2) mod 2) (e + exponent_bias fl)
         (if \<not> b \<or> p = 0 then prod_mant fl seed ix else 0)))"
    unfolding genInOutFloatProd_def Let_def case_prod_unfold snd_shuffleRank g sm option.case fst_conv snd_conv
    using biased [OF x(3)] biased [OF yb(2)] x(2)
    by (cases b) (simp_all add: prod_mant_def Let_def)
qed

text \<open>The number of a value with a non-negative unbiased exponent.\<close>

lemma float_rat_makeFloat:
  assumes wf: "wf_layout fl" and s: "s = 0 \<or> s = 1" and e: "e \<le> unat (prod_max_exp fl)"
    and m: "unat m < 2 ^ mantissa_bits fl"
  shows "float_rat fl (makeFloat fl s (int e + exponent_bias fl) m) =
      (if s = 1 then - 1 else 1) * (of_nat (2 ^ mantissa_bits fl + unat m) / 2 ^ mantissa_bits fl) * 2 ^ e"
    and "float_canon fl (makeFloat fl s (int e + exponent_bias fl) m)"
    and "float_val fl (makeFloat fl s (int e + exponent_bias fl) m) \<noteq> 0"
proof -
  let ?x = "makeFloat fl s (int e + exponent_bias fl) m" and ?M = "2 ^ mantissa_bits fl + unat m"
  let ?b = "unat (prod_max_exp fl)"
  note mx = prod_max_exp [OF wf]
  have b: "int e + exponent_bias fl = int (e + ?b)" by (simp only: mx(1) of_nat_add)
  have "(2::nat) ^ 3 \<le> 2 ^ (exponent_bits fl - 1)"
    using wf_layoutD(2) [OF wf] by (intro power_increasing) simp_all
  then have b1: "7 \<le> ?b" using mx(2) by simp
  have eb: "(2::nat) ^ exponent_bits fl = 2 * 2 ^ (exponent_bits fl - 1)"
    using wf_layoutD(2) [OF wf] by (simp flip: power_Suc)
  then have lt: "e + ?b < 2 ^ exponent_bits fl - 1" using e mx(2) b1 by linarith
  have lt': "int (e + ?b) < 2 ^ exponent_bits fl"
  proof -
    have "int (e + ?b) < int (2 ^ exponent_bits fl)" using lt by (simp only: of_nat_less_iff)
    then show ?thesis by simp
  qed
  note f = makeFloat_fields [OF wf s of_nat_0_le_iff lt' m, folded b, unfolded b nat_int, folded b]
  have fin: "float_finite fl ?x" using f(2,4) lt by (simp add: float_finite_def)
  have mag: "float_mag fl ?x = ?M * 2 ^ (e + ?b - 1)"
    using b1 unfolding float_mag_def f(2,3) by simp
  then have "float_mag fl ?x \<noteq> 0" by simp
  then show nz: "float_val fl ?x \<noteq> 0" by (simp add: float_val_def)
  then show "float_canon fl ?x" using fin by (simp add: float_canon_def)
  have u: "e + ?b - 1 + mantissa_bits fl = float_unit fl + e"
    unfolding float_unit_def mx(2) [symmetric] using b1 by linarith
  have "(of_nat ?M * 2 ^ (e + ?b - 1)) * 2 ^ mantissa_bits fl = (of_nat ?M * 2 ^ e) * (2 ^ float_unit fl :: rat)"
    unfolding mult.assoc power_add [symmetric] u by (simp only: add.commute)
  then have q: "of_nat ?M * 2 ^ (e + ?b - 1) / 2 ^ float_unit fl = of_nat ?M / 2 ^ mantissa_bits fl * (2 ^ e :: rat)"
    by (simp add: field_simps)
  have "float_val fl ?x = (if s = 1 then - 1 else 1) * int (?M * 2 ^ (e + ?b - 1))"
    unfolding float_val_def f(1) mag by simp
  then have "float_rat fl ?x = (if s = 1 then - 1 else 1) * (of_nat ?M * 2 ^ (e + ?b - 1) / 2 ^ float_unit fl)"
    unfolding float_rat_def by simp
  then show "float_rat fl ?x = (if s = 1 then - 1 else 1) * (of_nat ?M / 2 ^ mantissa_bits fl) * 2 ^ e"
    unfolding q by simp
qed

section \<open>Every reduction tree gives the expected value\<close>

lemma nat_split_subset_sum:
  assumes "2 \<le> n" "nat n \<le> Y" "P \<subseteq> {0..<n}"
  shows "(\<Sum>p\<in>P. nat_split (nat n) Y (nat p)) \<le> Y"
    and "P = {0..<n} \<Longrightarrow> (\<Sum>p\<in>P. nat_split (nat n) Y (nat p)) = Y"
proof -
  have "(\<Sum>p\<in>{0..<n}. nat_split (nat n) Y (nat p)) = Y"
    using sum_nat_split [of "nat n" Y] assms by (simp add: sum_int_nat)
  then show "P = {0..<n} \<Longrightarrow> (\<Sum>p\<in>P. nat_split (nat n) Y (nat p)) = Y"
    "(\<Sum>p\<in>P. nat_split (nat n) Y (nat p)) \<le> Y"
    using sum_mono2 [of "{0..<n}" P "\<lambda>p. nat_split (nat n) Y (nat p)"] assms(3) by auto
qed

lemma representable_prod:
  assumes wf: "wf_layout fl" and "\<bar>s\<bar> = 1" and "E \<le> unat (prod_max_exp fl)" and "m < 2 ^ mantissa_bits fl"
  shows "representable_rat fl (s * (of_nat (2 ^ mantissa_bits fl + m) / 2 ^ mantissa_bits fl) * 2 ^ E)"
proof -
  let ?M = "2 ^ mantissa_bits fl + m" and ?b = "unat (prod_max_exp fl)"
  note mx = prod_max_exp [OF wf]
  have "(2::nat) ^ 3 \<le> 2 ^ (exponent_bits fl - 1)"
    using wf_layoutD(2) [OF wf] by (intro power_increasing) simp_all
  then have b1: "7 \<le> ?b" using mx(2) by simp
  have eb: "(2::nat) ^ exponent_bits fl = 2 * 2 ^ (exponent_bits fl - 1)"
    using wf_layoutD(2) [OF wf] by (simp flip: power_Suc)
  have u: "E + ?b - 1 + mantissa_bits fl = float_unit fl + E"
    unfolding float_unit_def mx(2) [symmetric] using b1 by linarith
  let ?v = "(if s = 1 then 1 else - 1) * int ?M * 2 ^ (E + ?b - 1)"
  have s: "s = (if s = 1 then 1 else - 1)" using assms(2) by (auto simp: abs_if split: if_splits)
  have "(of_nat ?M * 2 ^ (E + ?b - 1)) * 2 ^ mantissa_bits fl = (of_nat ?M * 2 ^ E) * (2 ^ float_unit fl :: rat)"
    unfolding mult.assoc power_add [symmetric] u by (simp only: add.commute)
  then have q: "of_nat ?M / 2 ^ mantissa_bits fl * 2 ^ E = of_nat ?M * 2 ^ (E + ?b - 1) / (2 ^ float_unit fl :: rat)"
    by (simp add: field_simps)
  have "s * (of_nat ?M / 2 ^ mantissa_bits fl) * 2 ^ E = of_int ?v / 2 ^ float_unit fl"
    unfolding mult.assoc q by (subst s) simp
  moreover have "representable fl ?v"
    unfolding representable_def
  proof (intro exI conjI)
    show "\<bar>?v\<bar> = int ?M * 2 ^ (E + ?b - 1)" by (simp add: abs_mult)
    show "?M < 2 ^ Suc (mantissa_bits fl)" using assms(4) by simp
    show "E + ?b - 1 + 3 \<le> 2 ^ exponent_bits fl" using assms(3) mx(2) eb b1 by linarith
  qed
  ultimately show ?thesis unfolding representable_rat_def by blast
qed

lemma float_prod_tree:
  assumes wf: "wf_layout fl" and n: "2 \<le> n" "n < 2 ^ 31" "nat n \<le> 2 ^ (exponent_bits fl - 2)"
    and t: "set (leaves t) = {0..<n}" "distinct (leaves t)" and mul: "float_multiplier fl mul"
  shows "\<exists>y. genInOutFloatProd fl False n 0 seed ix = Some y \<and>
    reduce_tree mul (\<lambda>r. genInOutFloatProd fl True n r seed ix) t = Some y"
proof -
  let ?Y = "unat (prod_y fl seed ix)" and ?m = "unat (prod_mant fl seed ix)"
  let ?place = "prod_place n seed ix" and ?F = "prod_factor fl n ?Y ?m"
  note yb = prod_y_bounds [OF wf, of seed ix] and pm = prod_mant_less [OF wf, of seed ix]
  have nY: "nat n \<le> ?Y" using n(3) yb(1) by linarith
  have bij: "bij_betw ?place {0..<n} {0..<n}" using sr.shuffle_bij [of n] n by simp
  have img: "(\<Prod>r\<in>S. ?F (?place r)) = (\<Prod>p\<in>?place ` S. ?F p)" "?place ` S \<subseteq> {0..<n}" if "S \<subseteq> {0..<n}" for S
    using prod.reindex [OF inj_on_subset [OF bij_betw_imp_inj_on [OF bij] that], of ?F] bij that
    by (auto simp: bij_betw_def o_def)
  have rep: "representable_rat fl (\<Prod>r\<in>S. ?F (?place r))" if S: "S \<subseteq> {0..<n}" for S
  proof -
    let ?P = "?place ` S"
    have fin: "finite ?P" using img(2) [OF S] by (rule finite_subset) simp
    have "(if 0 \<in> ?P then ?m else 0) < 2 ^ mantissa_bits fl" using pm by simp
    then show ?thesis
      unfolding img(1) [OF S] prod_factors [OF fin]
      using nat_split_subset_sum(1) [OF n(1) nY img(2) [OF S]] yb(2) prod_signs_abs [OF fin]
      by (intro representable_prod [OF wf]) linarith+
  qed
  have z: "prod_place n seed ix 0 \<in> {0..<n}" using sr.shuffle_range [of n 0] n by simp
  let ?y = "makeFloat fl ((n div 2) mod 2) (int ?Y + exponent_bias fl) (prod_mant fl seed ix)"
  have out: "genInOutFloatProd fl False n 0 seed ix = Some ?y"
    using genInOutFloatProd_eq(1) [OF wf n order_refl, of False seed ix] n(1) by (simp add: Let_def)
  have s2: "(n div 2) mod 2 = 0 \<or> (n div 2) mod 2 = 1" by presburger
  note fy = float_rat_makeFloat [OF wf s2 yb(2) pm]
  have "(\<Prod>r\<in>{0..<n}. ?F (?place r)) = (\<Prod>p\<in>{0..<n}. ?F p)"
    using sr.prod_shuffled [of n ?F] n by simp
  also have "\<dots> = (- 1) ^ (nat n div 2) * (of_nat (2 ^ mantissa_bits fl + ?m) / 2 ^ mantissa_bits fl) * 2 ^ ?Y"
    unfolding prod_factors [OF finite_atLeastLessThan_int] nat_split_subset_sum(2) [OF n(1) nY order_refl refl]
    using prod_signs [of "nat n"] n(1) by simp
  also have "(- 1) ^ (nat n div 2) = (if (n div 2) mod 2 = 1 then - 1 else 1 :: rat)"
  proof -
    have "nat n div 2 = nat (n div 2)" by linarith
    then have "even (nat n div 2) \<longleftrightarrow> even (n div 2)" using n(1) by (simp add: even_nat_iff)
    then have "even (nat n div 2) \<longleftrightarrow> (n div 2) mod 2 = 0" by (simp only: even_iff_mod_2_eq_zero)
    then show ?thesis using s2 by (cases "even (nat n div 2)") auto
  qed
  finally have tot: "float_rat fl ?y = (\<Prod>r\<in>{0..<n}. ?F (?place r))" by (simp only: fy(1))
  have inp: "\<exists>v. genInOutFloatProd fl True n r seed ix = Some v \<and> (float_canon fl v \<and> float_val fl v \<noteq> 0) \<and>
      float_rat fl v = ?F (?place r)" if "r \<in> {0..<n}" for r
  proof -
    have r: "0 \<le> r" "r < n" using that by simp_all
    let ?p = "?place r" and ?x = "if ?place r = 0 then prod_mant fl seed ix else 0"
    have p2: "?p mod 2 = 0 \<or> ?p mod 2 = 1" by presburger
    have x: "unat ?x < 2 ^ mantissa_bits fl" using pm by simp
    have ux: "unat ?x = (if ?p = 0 then ?m else 0)" by simp
    have od: "?p mod 2 = 1 \<longleftrightarrow> odd ?p" by presburger
    note f = float_rat_makeFloat [OF wf p2 genInOutFloatProd_eq(2) [OF wf n r, of seed ix] x]
    have "genInOutFloatProd fl True n r seed ix =
        Some (makeFloat fl (?p mod 2) (int (nat_split (nat n) ?Y (nat ?p)) + exponent_bias fl) ?x)"
      using genInOutFloatProd_eq(1) [OF wf n r, of True seed ix] by (simp add: Let_def)
    then show ?thesis using f(2,3) f(1) [unfolded ux od] unfolding prod_factor_def by blast
  qed
  have "reduce_tree mul (\<lambda>r. genInOutFloatProd fl True n r seed ix) t = Some ?y"
    by (rule float_multiplier.multiplier_tree_expected [OF mul inp rep t _ tot]) (use fy(2,3) in auto)
  with out show ?thesis by blast
qed

section \<open>Properties\<close>

text \<open>C35: the same for products: the inputs of \<open>genInOutFloatProd\<close> reduce, with IEEE multiplication, to exactly
  the announced output in every tree of the ranks, as long as there are no more ranks than a quarter of
  the exponent range.\<close>

theorem float_prod_any_order:
  assumes "fl \<in> set float_layouts"
    and "2 \<le> n" "n < 2 ^ 31" "nat n \<le> 2 ^ (exponent_bits fl - 2)"
    and "set (leaves t) = {0..<n}" "distinct (leaves t)"
  shows "\<exists>y. genInOutFloatProd fl False n 0 seed index = Some y \<and>
    reduce_tree (fmul fl) (\<lambda>r. genInOutFloatProd fl True n r seed index) t = Some y"
  using float_prod_tree [OF wf_layouts [OF assms(1)] assms(2-6) float_multiplier_fmul [OF wf_layouts [OF assms(1)]]] .

theorem float_prod_any_order_witness:
  "\<exists>y. genInOutFloatProd float16 False 3 0 7 9 = Some y \<and>
    reduce_tree (fmul float16) (\<lambda>r. genInOutFloatProd float16 True 3 r 7 9)
      (Join (Rank 1) (Join (Rank 0) (Rank 2))) = Some y"
proof -
  have "{1, 0, 2} = {0..<3::int}" by auto
  then show ?thesis
    using float_prod_any_order [of float16 3 "Join (Rank 1) (Join (Rank 0) (Rank 2))" 7 9]
    by (simp add: float_layouts_def float16_def)
qed

text \<open>With more ranks than the exponent range has units, the generator of products has no value on
  any rank: \<open>genSumXY\<close> divides by zero. That is so from 16 ranks on for \<open>half\<close> and the 5-bit exponent
  8-bit type, and from 8 ranks on for the 4-bit exponent type.\<close>

theorem float_prod_too_many_ranks:
  assumes "fl \<in> set float_layouts" and "2 ^ (exponent_bits fl - 1) \<le> n" "n < 2 ^ 15"
  shows "genInOutFloatProd fl b n r seed index = None"
proof -
  note wf = wf_layouts [OF assms(1)]
  note mx = prod_max_exp [OF wf]
  have w: "uint_width TYPE(32)" by (simp add: uint_width_def)
  have "(2::int) ^ 1 \<le> 2 ^ (exponent_bits fl - 1)" using wf_layoutD(2) [OF wf] by (intro power_increasing) simp_all
  then have n: "2 \<le> nat n" "nat n < 2 ^ 15" "int (nat n) = n" using assms(2,3) by auto
  have "exponent_bias fl < n" using assms(2) unfolding exponent_bias_eq [OF wf] by simp
  then have "unat (prod_max_exp fl) < nat n" using mx(1) by linarith
  then have "unat (sumxy_pick g (prod_max_exp fl) 0 False) < nat n" for g
    using unat_sumxy_pick_free(3) [OF w mx(3), of g 0] by linarith
  from sumxy_split_small [OF w mx(3) n(1,2) this]
  have "genSumXY n p g (prod_max_exp fl) 0 False = None" for p g
    unfolding n(3) by (simp add: genSumXY_def Let_def)
  then show ?thesis
    by (simp add: genInOutFloatProd_def Let_def case_prod_unfold prod_max_exp_def)
qed

theorem float_prod_too_many_ranks_witness:
  "genInOutFloatProd float16 True 16 3 7 9 = None"
  using float_prod_too_many_ranks [of float16 16 True 3 7 9] by (simp add: float_layouts_def float16_def)

end
