(* ===== verification/VerifInt.thy ===== *)
theory VerifInt
  imports VerifReduction VerifBits
begin

text \<open>
  The reduction functors and the generators of verifiable/verifiable.cu at integer types. A
  type is a word length and a flag for signedness; signed arithmetic wraps around, as it does
  on the machines the code runs on.
\<close>

section \<open>The reduction functors\<close>

datatype reduce_op = ReduceNil | ReduceSum | ReduceProd | ReduceMin | ReduceMax | ReducePreMulSum | ReduceAvg int

definition int_val :: "bool \<Rightarrow> 'w::len word \<Rightarrow> int" where
  "int_val sg x = (if sg then sint x else uint x)"

text \<open>\<open>preOp\<close>, on the input of a rank.\<close>

fun pre_op :: "reduce_op \<Rightarrow> 'w::len word \<Rightarrow> int \<Rightarrow> 'w word" where
  "pre_op ReducePreMulSum x rank_me = x * (if rank_me smod 2 = 0 then 1 else 2)"
| "pre_op _ x rank_me = x"

text \<open>\<open>operator()\<close>\<close>

fun reduce_op2 :: "bool \<Rightarrow> reduce_op \<Rightarrow> 'w::len word \<Rightarrow> 'w word \<Rightarrow> 'w word" where
  "reduce_op2 sg ReduceNil a b = a"
| "reduce_op2 sg ReduceSum a b = a + b"
| "reduce_op2 sg ReduceProd a b = a * b"
| "reduce_op2 sg ReduceMin a b = (if int_val sg a < int_val sg b then a else b)"
| "reduce_op2 sg ReduceMax a b = (if int_val sg a > int_val sg b then a else b)"
| "reduce_op2 sg ReducePreMulSum a b = a + b"
| "reduce_op2 sg (ReduceAvg n) a b = a + b"

text \<open>\<open>postOp\<close>: short types are promoted to \<open>int\<close>, long unsigned ones convert the divisor.\<close>

fun post_op :: "bool \<Rightarrow> reduce_op \<Rightarrow> 'w::len word \<Rightarrow> 'w word" where
  "post_op sg (ReduceAvg n) x =
     (if sg \<or> LENGTH('w) < 32 then word_of_int (int_val sg x sdiv n) else x div word_of_int n)"
| "post_op sg _ x = x"

section \<open>The generators\<close>

definition elt_mask :: "'w::len itself \<Rightarrow> u64" where
  "elt_mask _ = drop_bit (64 - LENGTH('w)) (- 1)"

definition gen_int_input :: "reduce_op \<Rightarrow> int \<Rightarrow> u64 \<Rightarrow> u64 \<Rightarrow> 'w::len word" where
  "gen_int_input op rank_me seed index =
     (if op = ReduceNil then
        let bits = mixBits (seed XOR index);
            bits = drop_bit (64 - LENGTH('w)) bits;
            bits = bits AND elt_mask TYPE('w)
        in ucast bits
      else
        let bits = elt_mask TYPE('w);
            bits = bits AND hashOf ((index XOR push_bit 16 index) XOR u64_of_int rank_me) seed
        in if op = ReduceProd \<and> bits = 0 then 1 else ucast bits)"

text \<open>The generic \<open>genOutput\<close>: a loop over the ranks from 1 up, after rank 0.\<close>

fun gen_int_acc :: "bool \<Rightarrow> reduce_op \<Rightarrow> u64 \<Rightarrow> u64 \<Rightarrow> nat \<Rightarrow> 'w::len word" where
  "gen_int_acc sg op seed index 0 = pre_op op (gen_int_input op 0 seed index) 0"
| "gen_int_acc sg op seed index (Suc r) =
     reduce_op2 sg op (gen_int_acc sg op seed index r)
       (pre_op op (gen_int_input op (int (Suc r)) seed index) (int (Suc r)))"

definition gen_int_output :: "bool \<Rightarrow> reduce_op \<Rightarrow> int \<Rightarrow> u64 \<Rightarrow> u64 \<Rightarrow> 'w::len word" where
  "gen_int_output sg op rank_n seed index =
     post_op sg op (gen_int_acc sg op seed index (nat rank_n - 1))"

section \<open>The functors as reducers\<close>

lemma int_val_inj: "int_val sg a = int_val sg b \<Longrightarrow> a = (b :: 'w::len word)"
  by (auto simp: int_val_def split: if_splits intro: signed_word_eqI unsigned_word_eqI)

lemma Min_union: "finite A \<Longrightarrow> finite B \<Longrightarrow> A \<noteq> {} \<Longrightarrow> B \<noteq> {} \<Longrightarrow>
    Min (f ` (A \<union> B)) = min (Min (f ` A)) (Min (f ` B) :: 'm::linorder)"
  by (simp add: image_Un Min_Un)

lemma Max_union: "finite A \<Longrightarrow> finite B \<Longrightarrow> A \<noteq> {} \<Longrightarrow> B \<noteq> {} \<Longrightarrow>
    Max (f ` (A \<union> B)) = max (Max (f ` A)) (Max (f ` B) :: 'm::linorder)"
  by (simp add: image_Un Max_Un)

interpretation isum: reducer "\<lambda>a b. Some (reduce_op2 sg ReduceSum a b)" "\<lambda>_. True" "\<lambda>x. x" "\<lambda>_. True"
    "(+)" "\<lambda>f A. sum f A :: 'w::len word"
  by unfold_locales (simp_all add: sum.union_disjoint)

interpretation iprod: reducer "\<lambda>a b. Some (reduce_op2 sg ReduceProd a b)" "\<lambda>_. True" "\<lambda>x. x" "\<lambda>_. True"
    "(*)" "\<lambda>f A. prod f A :: 'w::len word"
  by unfold_locales (simp_all add: prod.union_disjoint)

interpretation imin: reducer "\<lambda>a b :: 'w::len word. Some (reduce_op2 sg ReduceMin a b)" "\<lambda>_. True" "int_val sg"
    "\<lambda>_. True" min "\<lambda>f A. Min (f ` A)"
  by unfold_locales (simp_all add: Min_union int_val_inj min_def)

interpretation imax: reducer "\<lambda>a b :: 'w::len word. Some (reduce_op2 sg ReduceMax a b)" "\<lambda>_. True" "int_val sg"
    "\<lambda>_. True" max "\<lambda>f A. Max (f ` A)"
  by unfold_locales (auto simp add: Max_union int_val_inj max_def)

text \<open>Any two trees over the same ranks reduce to the same word.\<close>

lemma int_tree_unique:
  fixes inp :: "int \<Rightarrow> 'w::len word"
  assumes "op \<noteq> ReduceNil" and "set (leaves t) = set (leaves t')" and "distinct (leaves t)" "distinct (leaves t')"
  shows "reduce_tree (\<lambda>a b. Some (reduce_op2 sg op a b)) (\<lambda>r. Some (inp r)) t =
    reduce_tree (\<lambda>a b. Some (reduce_op2 sg op a b)) (\<lambda>r. Some (inp r)) t'"
proof -
  have inputs: "\<exists>v. Some (inp r) = Some v \<and> True \<and> f v = f (inp r)" for r and f :: "'w word \<Rightarrow> 'm" by simp
  have S: "reduce_tree (\<lambda>a b. Some (reduce_op2 sg ReduceSum a b)) (\<lambda>r. Some (inp r)) t =
      reduce_tree (\<lambda>a b. Some (reduce_op2 sg ReduceSum a b)) (\<lambda>r. Some (inp r)) t'"
    using isum.reduce_tree_unique [OF inputs TrueI refl assms(3) assms(2) [symmetric] assms(4)] .
  have P: "reduce_tree (\<lambda>a b. Some (reduce_op2 sg ReduceProd a b)) (\<lambda>r. Some (inp r)) t =
      reduce_tree (\<lambda>a b. Some (reduce_op2 sg ReduceProd a b)) (\<lambda>r. Some (inp r)) t'"
    using iprod.reduce_tree_unique [OF inputs TrueI refl assms(3) assms(2) [symmetric] assms(4)] .
  have L: "reduce_tree (\<lambda>a b. Some (reduce_op2 sg ReduceMin a b)) (\<lambda>r. Some (inp r)) t =
      reduce_tree (\<lambda>a b. Some (reduce_op2 sg ReduceMin a b)) (\<lambda>r. Some (inp r)) t'"
    using imin.reduce_tree_unique [OF inputs TrueI refl assms(3) assms(2) [symmetric] assms(4)] .
  have G: "reduce_tree (\<lambda>a b. Some (reduce_op2 sg ReduceMax a b)) (\<lambda>r. Some (inp r)) t =
      reduce_tree (\<lambda>a b. Some (reduce_op2 sg ReduceMax a b)) (\<lambda>r. Some (inp r)) t'"
    using imax.reduce_tree_unique [OF inputs TrueI refl assms(3) assms(2) [symmetric] assms(4)] .
  from assms(1) show ?thesis by (cases op) (use S P L G in simp_all)
qed

text \<open>The loop of \<open>genOutput\<close> is the left-leaning tree.\<close>

lemma gen_int_acc_tree:
  "reduce_tree (\<lambda>a b. Some (reduce_op2 sg op a b)) (\<lambda>r. Some (pre_op op (gen_int_input op r seed index) r)) (loop_tree k)
    = Some (gen_int_acc sg op seed index k)"
  by (induction k) simp_all

section \<open>Properties\<close>

text \<open>C36: at every integer type and for every functor but the one for copies, the value \<open>genOutput\<close> computes in
  its loop is what any tree over the ranks computes from the values of \<open>genInput\<close>.\<close>

theorem int_reduction_any_order:
  assumes "op \<noteq> ReduceNil" and "0 < n" and "set (leaves t) = {0..<n}" "distinct (leaves t)"
  shows "map_option (post_op sg op)
      (reduce_tree (\<lambda>a b. Some (reduce_op2 sg op a b)) (\<lambda>r. Some (pre_op op (gen_int_input op r seed index) r)) t)
    = Some (gen_int_output sg op n seed index :: 'w::len word)"
  using int_tree_unique [of op t "loop_tree (nat n - 1)" sg "\<lambda>r. pre_op op (gen_int_input op r seed index) r :: 'w word"]
    loop_tree_leaves [OF assms(2)] assms
  by (simp add: gen_int_acc_tree gen_int_output_def)

theorem int_reduction_any_order_witness:
  "map_option (post_op True (ReduceAvg 3))
      (reduce_tree (\<lambda>a b. Some (reduce_op2 True (ReduceAvg 3) a b))
        (\<lambda>r. Some (pre_op (ReduceAvg 3) (gen_int_input (ReduceAvg 3) r 5 6) r)) (Join (Rank 2) (Join (Rank 1) (Rank 0))))
    = Some (gen_int_output True (ReduceAvg 3) 3 5 6 :: u8)"
proof -
  have "{2, 1, 0} = {0..<3::int}" by auto
  then show ?thesis
    using int_reduction_any_order [of "ReduceAvg 3" 3 "Join (Rank 2) (Join (Rank 1) (Rank 0))" True 5 6] by simp
qed

text \<open>The inputs for products are never zero, at any integer type of at most 64 bits.\<close>

theorem prod_input_nonzero:
  assumes "LENGTH('w::len) \<le> 64"
  shows "gen_int_input ReduceProd rank_me seed index \<noteq> (0 :: 'w word)"
proof -
  let ?h = "hashOf ((index XOR push_bit 16 index) XOR u64_of_int rank_me) seed"
  let ?bits = "elt_mask TYPE('w) AND ?h"
  have "elt_mask TYPE('w) = mask (LENGTH('w))"
    using drop_bit_mask_word [of 64 "64 - LENGTH('w)", where 'a = 64] assms
    by (simp add: elt_mask_def mask_eq_exp_minus_1)
  then have "?bits = take_bit (LENGTH('w)) ?h" by (simp add: take_bit_eq_mask and.commute)
  then have "unat ?bits < 2 ^ LENGTH('w)" by (simp add: unsigned_take_bit_eq)
  then have "unat (ucast ?bits :: 'w word) = unat ?bits" by (rule unat_ucast_small)
  then show ?thesis by (auto simp: gen_int_input_def Let_def word_unat_eq_iff)
qed

theorem prod_input_nonzero_witness:
  "gen_int_input ReduceProd 1 2 3 \<noteq> (0 :: u8)"
  using prod_input_nonzero [where 'w = 8] by simp

end
