(* ===== verification/VerifFloatGen.thy ===== *)
theory VerifFloatGen
  imports VerifFloatPreMul VerifFloatProd VerifInt
begin

text \<open>
  The remaining generators of floating point data in verifiable/verifiable.cu: copies, minimum
  and maximum, whose inputs are finite normal numbers, and averages, where only two ranks
  contribute; and \<open>castTo\<close> from an integer.
\<close>

section \<open>The code\<close>

text \<open>\<open>genInput\<close> for \<open>ReduceNil\<close>, \<open>ReduceMin\<close> and \<open>ReduceMax\<close>, which have the same body.\<close>

definition gen_float_minmax :: "float_layout \<Rightarrow> int \<Rightarrow> u64 \<Rightarrow> u64 \<Rightarrow> u64" where
  "gen_float_minmax fl rank_me seed index =
     (let mant_mask = push_bit (mantissa_bits fl) 1 - 1;
          rng = hashOf ((index XOR push_bit 16 index) XOR u64_of_int rank_me) seed;
          sign = uint (rng AND 1);
          rng = rng XOR drop_bit 1 rng;
          e = uint (rng AND (push_bit (exponent_bits fl - 1) 1 - 1));
          e = e + push_bit (exponent_bits fl - 2) 1;
          rng = rng XOR drop_bit (exponent_bits fl) rng;
          mant = rng AND mant_mask
      in makeFloat fl sign e mant)"

definition float_min :: "float_layout \<Rightarrow> u64 \<Rightarrow> u64 \<Rightarrow> u64 option" where
  "float_min fl a b = Some (if float_val fl a < float_val fl b then a else b)"

definition float_max :: "float_layout \<Rightarrow> u64 \<Rightarrow> u64 \<Rightarrow> u64 option" where
  "float_max fl a b = Some (if float_val fl a > float_val fl b then a else b)"

text \<open>The generic \<open>genOutput\<close> on these inputs.\<close>

fun gen_float_acc :: "(u64 \<Rightarrow> u64 \<Rightarrow> u64 option) \<Rightarrow> (int \<Rightarrow> u64) \<Rightarrow> nat \<Rightarrow> u64 option" where
  "gen_float_acc op inp 0 = Some (inp 0)"
| "gen_float_acc op inp (Suc r) =
     (case gen_float_acc op inp r of None \<Rightarrow> None | Some acc \<Rightarrow> op acc (inp (int (Suc r))))"

text \<open>\<open>genInput\<close> for \<open>ReduceAvg\<close>; the index of the element is not used.\<close>

definition gen_float_avg :: "float_layout \<Rightarrow> int \<Rightarrow> int \<Rightarrow> u64 \<Rightarrow> u64 \<Rightarrow> u64 option" where
  "gen_float_avg fl rank_n rank_me rng index =
     (let (r, rng) = shuffleRank rank_n rank_me rng;
          m = (rng * (if r \<noteq> 0 then 0xbeef else 1)) AND (push_bit (mantissa_bits fl) 1 - 1)
      in if r < 2 then castTo fl (1 + m) else castTo fl 0)"

text \<open>
  \<open>preOp\<close> of \<open>ReduceAvg_Base\<close>, and \<open>genOutput\<close> for \<open>ReduceAvg\<close>: the arithmetic type \<open>T1\<close> (or
  \<open>TMul\<close>) is \<open>double\<close> for \<open>double\<close> and \<open>float\<close> for every shorter type.
\<close>

definition mul_type :: "float_layout \<Rightarrow> float_layout" where
  "mul_type fl = (if float_bits fl < 64 then float32 else float64)"

definition bind2 :: "('v \<Rightarrow> 'v \<Rightarrow> 'v option) \<Rightarrow> 'v option \<Rightarrow> 'v option \<Rightarrow> 'v option" where
  "bind2 f a b = Option.bind a (\<lambda>x. Option.bind b (f x))"

definition avg_pre_op :: "float_layout \<Rightarrow> int \<Rightarrow> u64 \<Rightarrow> u64 option" where
  "avg_pre_op fl rank_n x =
     (let tm = mul_type fl;
          q = bind2 (fdiv tm) (castTo tm 1) (castTo tm (u64_of_int rank_n))
      in bind2 (fmul fl) (map_option inhibit (Option.bind q (float_cast tm fl))) (Some (inhibit x)))"

definition gen_float_avg_output :: "float_layout \<Rightarrow> int \<Rightarrow> u64 \<Rightarrow> u64 \<Rightarrow> u64 option" where
  "gen_float_avg_output fl rank_n rng index =
     (let (_, rng) = shuffleRank rank_n (- 1) rng;
          m0 = (rng * 1) AND (push_bit (mantissa_bits fl) 1 - 1);
          m1 = (rng * 0xbeef) AND (push_bit (mantissa_bits fl) 1 - 1)
      in if rank_n = 1 then castTo fl (1 + m0)
         else
           let tm = mul_type fl;
               recip = Option.bind (bind2 (fdiv float64) (castTo float64 1) (castTo float64 (u64_of_int rank_n)))
                 (float_cast float64 tm);
               scaled = (\<lambda>m. Option.bind (bind2 (fmul tm) (castTo tm (1 + m)) recip) (float_cast tm fl))
           in bind2 (fadd fl) (scaled m0) (scaled m1))"

section \<open>Finite normal inputs\<close>

lemma gen_float_minmax_normal:
  assumes wf: "wf_layout fl"
  shows "float_canon fl (gen_float_minmax fl r seed ix) \<and> float_val fl (gen_float_minmax fl r seed ix) \<noteq> 0"
proof -
  let ?eb = "exponent_bits fl"
  define rng0 where "rng0 = hashOf ((ix XOR push_bit 16 ix) XOR u64_of_int r) seed"
  define rng1 where "rng1 = rng0 XOR drop_bit 1 rng0"
  define rng2 where "rng2 = rng1 XOR drop_bit ?eb rng1"
  define e where "e = unat (rng1 AND mask (?eb - 1)) + 2 ^ (?eb - 2)"
  have m: "push_bit k 1 - 1 = (mask k :: u64)" for k by (simp add: mask_eq_exp_minus_1 push_bit_eq_mult)
  have eq: "gen_float_minmax fl r seed ix = makeFloat fl (uint (rng0 AND 1)) (int e) (rng2 AND mask (mantissa_bits fl))"
    by (simp only: gen_float_minmax_def Let_def m rng0_def rng1_def rng2_def e_def uint_nat of_nat_add)
      (simp add: push_bit_eq_mult)
  obtain j where j: "?eb = j + 4" using wf_layoutD(2) [OF wf] by (metis le_Suc_ex add.commute)
  have "unat (rng1 AND mask (?eb - 1)) < 2 ^ (?eb - 1)" by (simp only: unat_and_mask) simp
  moreover have "(2::nat) ^ ?eb = 16 * 2 ^ j" "(2::nat) ^ (?eb - 1) = 8 * 2 ^ j" "(2::nat) ^ (?eb - 2) = 4 * 2 ^ j"
    by (simp_all add: j power_add numeral_3_eq_3)
  moreover have "(1::nat) \<le> 2 ^ j" by simp
  ultimately have e: "e < 2 ^ ?eb - 1" "0 < e" unfolding e_def by linarith+
  have e': "int e < 2 ^ ?eb"
  proof -
    have "int e < int (2 ^ ?eb)" using e(1) by (simp only: of_nat_less_iff)
    then show ?thesis by simp
  qed
  have mant: "unat (rng2 AND mask (mantissa_bits fl)) < 2 ^ mantissa_bits fl" by (simp add: unat_and_mask)
  note f = makeFloat_fields [OF wf uint_and_1 of_nat_0_le_iff e' mant]
  have "float_mag fl (gen_float_minmax fl r seed ix) \<noteq> 0" using e(2) by (simp add: float_mag_def eq f(2))
  then have nz: "float_val fl (gen_float_minmax fl r seed ix) \<noteq> 0" by (simp add: float_val_def)
  moreover have "float_finite fl (gen_float_minmax fl r seed ix)"
    using e(1) f(2,4) by (simp add: float_finite_def eq)
  ultimately show ?thesis by (simp add: float_canon_def)
qed

interpretation fmin: reducer "float_min fl" "float_canon fl" "float_val fl" "\<lambda>_. True" min "\<lambda>f A. Min (f ` A)"
  by unfold_locales (auto simp: Min_union float_min_def min_def intro: float_canon_inj)

interpretation fmax: reducer "float_max fl" "float_canon fl" "float_val fl" "\<lambda>_. True" max "\<lambda>f A. Max (f ` A)"
  by unfold_locales (auto simp: Max_union float_max_def max_def intro: float_canon_inj)

lemma gen_float_acc_tree:
  "gen_float_acc op inp k = reduce_tree op (\<lambda>r. Some (inp r)) (loop_tree k)"
  by (induction k) (auto split: option.split)

section \<open>Two contributions to an average\<close>

text \<open>Integers up to one more than the mantissa field are converted exactly.\<close>

lemma castTo_small:
  assumes wf: "wf_layout fl" and x: "unat x \<le> 2 ^ mantissa_bits fl"
  shows "\<exists>c. castTo fl x = Some c \<and> float_canon fl c \<and> float_val fl c = int (unat x) * 2 ^ float_unit fl"
proof -
  let ?v = "int (unat x) * 2 ^ float_unit fl"
  have "(2::nat) ^ exponent_bits fl = 2 * 2 ^ (exponent_bits fl - 1)"
    using wf_layoutD(2) [OF wf] by (simp flip: power_Suc)
  then have "float_unit fl + 3 \<le> 2 ^ exponent_bits fl"
    unfolding float_unit_def using wf_layoutD(1,7) [OF wf] by linarith
  moreover have "\<bar>?v\<bar> = int (unat x) * 2 ^ float_unit fl" by (simp add: abs_mult)
  moreover have "unat x < 2 ^ Suc (mantissa_bits fl)"
    using x zero_less_power [of "2::nat" "mantissa_bits fl"] unfolding power_Suc by linarith
  ultimately have "representable fl ?v" unfolding representable_def by blast
  moreover have "(?v < 0) = False" by (simp add: not_less)
  moreover have "nat \<bar>?v\<bar> * 1 = unat x * 2 ^ float_unit fl" by (simp add: abs_mult nat_mult_distrib nat_power_eq)
  ultimately show ?thesis using float_round_exact [OF wf, of ?v 1] unfolding castTo_def by (simp only: zero_less_one)
qed

lemma castTo_zero: "wf_layout fl \<Longrightarrow> castTo fl 0 = Some 0"
  using castTo_small [of fl 0] float_canon_inj [of fl _ 0] by (fastforce simp: float_canon_def)

definition avg_mant :: "float_layout \<Rightarrow> u64 \<Rightarrow> int \<Rightarrow> nat" where
  "avg_mant fl rng p =
     1 + unat ((mixBits rng * (if p \<noteq> 0 then 0xbeef else 1)) AND (push_bit (mantissa_bits fl) 1 - 1))"

lemma avg_mant_pos: "avg_mant fl rng p \<noteq> 0"
  by (simp add: avg_mant_def)

lemma gen_float_avg_eq:
  assumes wf: "wf_layout fl"
  shows "\<exists>c. gen_float_avg fl n r rng ix = Some c \<and> float_canon fl c \<and>
    float_val fl c = (if fst (shuffleRank n r rng) < 2
      then int (avg_mant fl rng (fst (shuffleRank n r rng))) * 2 ^ float_unit fl else 0)"
proof -
  let ?p = "fst (shuffleRank n r rng)"
  let ?m = "(mixBits rng * (if ?p \<noteq> 0 then 0xbeef else 1)) AND (push_bit (mantissa_bits fl) 1 - 1)"
  have "push_bit (mantissa_bits fl) 1 - 1 = (mask (mantissa_bits fl) :: u64)"
    by (simp add: mask_eq_exp_minus_1 push_bit_eq_mult)
  then have m: "unat ?m < 2 ^ mantissa_bits fl" by (simp only: unat_and_mask) simp
  have "(2::nat) ^ mantissa_bits fl \<le> 2 ^ 52" using wf_layoutD(4) [OF wf] by (intro power_increasing) simp_all
  with m have "1 + unat ?m \<le> 2 ^ 52" by linarith
  then have "1 + unat ?m < 2 ^ LENGTH(64)" by (rule order_le_less_trans) simp
  then have "unat (1 + ?m) = 1 + unat ?m"
    using unat_add_small [of 1 ?m] by (simp only: unsigned_1)
  then have u: "unat (1 + ?m) = avg_mant fl rng ?p" "unat (1 + ?m) \<le> 2 ^ mantissa_bits fl"
    using m by (simp_all only: avg_mant_def)
  have g: "gen_float_avg fl n r rng ix = (if ?p < 2 then castTo fl (1 + ?m) else castTo fl 0)"
    unfolding gen_float_avg_def case_prod_unfold Let_def snd_shuffleRank by (rule refl)
  show ?thesis
    unfolding g using castTo_small [OF wf u(2)] castTo_zero [OF wf] wf unfolding u(1)
    by (auto simp: float_canon_def)
qed

text \<open>For a single rank the expected average is the input of that rank.\<close>

lemma float_avg_single: "gen_float_avg_output fl 1 rng index = gen_float_avg fl 1 0 rng index"
proof -
  have "fst (shuffleRank 1 0 rng) = 0" using sr.shuffle_range [of 1 0 rng] by simp
  then show ?thesis by (simp add: gen_float_avg_output_def gen_float_avg_def case_prod_unfold Let_def)
qed

lemma float_minmax_inputs:
  assumes "wf_layout fl"
  shows "\<exists>v. Some (gen_float_minmax fl r seed index) = Some v \<and> float_canon fl v \<and>
    float_val fl v = float_val fl (gen_float_minmax fl r seed index)"
  using gen_float_minmax_normal [OF assms, of r seed index] by simp

lemma float_acc_total:
  assumes "\<And>a b. op a b \<noteq> None"
  shows "gen_float_acc op inp k \<noteq> None"
  using assms by (induction k) (auto split: option.split)

lemma float_min_tree:
  assumes wf: "wf_layout fl" and "0 < n" and t: "set (leaves t) = {0..<n}" "distinct (leaves t)"
  shows "reduce_tree (float_min fl) (\<lambda>r. Some (gen_float_minmax fl r seed index)) t =
      gen_float_acc (float_min fl) (\<lambda>r. gen_float_minmax fl r seed index) (nat n - 1)
    \<and> gen_float_acc (float_min fl) (\<lambda>r. gen_float_minmax fl r seed index) (nat n - 1) \<noteq> None"
  using fmin.reduce_tree_unique [OF float_minmax_inputs [OF wf] TrueI t loop_tree_leaves [OF assms(2)]]
    float_acc_total [of "float_min fl"]
  by (auto simp: gen_float_acc_tree [symmetric] float_min_def)

lemma float_max_tree:
  assumes wf: "wf_layout fl" and "0 < n" and t: "set (leaves t) = {0..<n}" "distinct (leaves t)"
  shows "reduce_tree (float_max fl) (\<lambda>r. Some (gen_float_minmax fl r seed index)) t =
      gen_float_acc (float_max fl) (\<lambda>r. gen_float_minmax fl r seed index) (nat n - 1)
    \<and> gen_float_acc (float_max fl) (\<lambda>r. gen_float_minmax fl r seed index) (nat n - 1) \<noteq> None"
  using fmax.reduce_tree_unique [OF float_minmax_inputs [OF wf] TrueI t loop_tree_leaves [OF assms(2)]]
    float_acc_total [of "float_max fl"]
  by (auto simp: gen_float_acc_tree [symmetric] float_max_def)

section \<open>Properties\<close>

text \<open>C37: the inputs for copies, minimum and maximum are finite and not zero at every floating point type, and
  minimum and maximum over them come out the same in every tree of the ranks and in the loop of \<open>genOutput\<close>.\<close>

theorem float_minmax_any_order:
  assumes "fl \<in> set float_layouts" and "0 < n" and "set (leaves t) = {0..<n}" "distinct (leaves t)"
  shows "(\<forall>r. float_finite fl (gen_float_minmax fl r seed index) \<and> float_val fl (gen_float_minmax fl r seed index) \<noteq> 0)
    \<and> reduce_tree (float_min fl) (\<lambda>r. Some (gen_float_minmax fl r seed index)) t =
      gen_float_acc (float_min fl) (\<lambda>r. gen_float_minmax fl r seed index) (nat n - 1)
    \<and> reduce_tree (float_max fl) (\<lambda>r. Some (gen_float_minmax fl r seed index)) t =
      gen_float_acc (float_max fl) (\<lambda>r. gen_float_minmax fl r seed index) (nat n - 1)"
  using float_min_tree [OF wf_layouts [OF assms(1)] assms(2-4), of seed index]
    float_max_tree [OF wf_layouts [OF assms(1)] assms(2-4), of seed index]
    gen_float_minmax_normal [OF wf_layouts [OF assms(1)]]
  by (auto simp: float_canon_def)

theorem float_minmax_any_order_witness:
  "reduce_tree (float_min float16) (\<lambda>r. Some (gen_float_minmax float16 r 4 5)) (Join (Rank 1) (Rank 0)) =
    gen_float_acc (float_min float16) (\<lambda>r. gen_float_minmax float16 r 4 5) 1"
proof -
  have "{1, 0} = {0..<2::int}" by auto
  then show ?thesis
    using float_minmax_any_order [of float16 2 "Join (Rank 1) (Rank 0)" 4 5] by (simp add: float_layouts_def)
qed

text \<open>Of the inputs for an average, exactly two (one when there is a single rank) are not zero; the
  others are the zero pattern, and every input is the same at every index of the buffer.\<close>

theorem float_avg_two_ranks:
  assumes "fl \<in> set float_layouts" and "0 < n" "n < 2 ^ 31"
  shows "card {r \<in> {0..<n}. \<exists>c. gen_float_avg fl n r rng index = Some c \<and> float_val fl c \<noteq> 0} = nat (min 2 n)
    \<and> (\<forall>r\<in>{0..<n}. \<exists>c. gen_float_avg fl n r rng index = Some c \<and> (float_val fl c = 0 \<longrightarrow> c = 0))
    \<and> gen_float_avg fl n r rng index = gen_float_avg fl n r rng index'"
proof (intro conjI)
  note g = gen_float_avg_eq [OF wf_layouts [OF assms(1)], of n _ rng index]
  have nz: "(\<exists>c. gen_float_avg fl n r rng index = Some c \<and> float_val fl c \<noteq> 0) \<longleftrightarrow> fst (shuffleRank n r rng) < 2" for r
    using g [of r] avg_mant_pos [of fl rng] by (auto simp del: of_nat_0_less_iff split: if_splits)
  show "card {r \<in> {0..<n}. \<exists>c. gen_float_avg fl n r rng index = Some c \<and> float_val fl c \<noteq> 0} = nat (min 2 n)"
  proof (cases "2 \<le> n")
    case True
    then show ?thesis unfolding nz using sr.card_shuffled_below [of n 2 rng] assms(2,3) by simp
  next
    case False
    have "fst (shuffleRank n r rng) < 2" if "r \<in> {0..<n}" for r
      using sr.shuffle_range [of n r rng] assms(2,3) False that by simp
    then have "{r \<in> {0..<n}. fst (shuffleRank n r rng) < 2} = {0..<n}" by auto
    then show ?thesis unfolding nz using False by simp
  qed
  show "\<forall>r\<in>{0..<n}. \<exists>c. gen_float_avg fl n r rng index = Some c \<and> (float_val fl c = 0 \<longrightarrow> c = 0)"
    using g by (fastforce simp: float_canon_def)
qed (simp add: gen_float_avg_def)

theorem float_avg_two_ranks_witness:
  "card {r \<in> {0..<5}. \<exists>c. gen_float_avg bfloat16 5 r 77 0 = Some c \<and> float_val bfloat16 c \<noteq> 0} = 2"
  using float_avg_two_ranks [of bfloat16 5 77 0] by (simp add: float_layouts_def)

end
