(* ===== verification/VerifLaunch.thy ===== *)
theory VerifLaunch
  imports NcclPrelude "HOL-Library.Multiset"
begin

text \<open>
  How the kernels of verifiable/verifiable.cu walk a buffer: the grid of blocks cuts the buffer
  into consecutive ranges, the threads of a block stride through their range. The theory
  proves that every element is visited exactly once, so that the order in which blocks and
  threads run does not matter.
\<close>

section \<open>The code\<close>

text \<open>Where the range of a block starts (and the range of the one before it ends).\<close>

definition block_start :: "int \<Rightarrow> int \<Rightarrow> int \<Rightarrow> int" where
  "block_start elt_n grid b =
     b * (elt_n sdiv grid) + (if b < elt_n smod grid then b else elt_n smod grid)"

text \<open>The loop of a thread: the indices it visits, in order.\<close>

function thread_indices :: "int \<Rightarrow> int \<Rightarrow> int \<Rightarrow> int list" where
  "thread_indices step i i1 = (if 0 < step \<and> i < i1 then i # thread_indices step (i + step) i1 else [])"
  by pat_completeness auto

termination by (relation "measure (\<lambda>(step, i, i1). nat (i1 - i))") auto

declare thread_indices.simps [simp del]

definition thread_work :: "int \<Rightarrow> int \<Rightarrow> int \<Rightarrow> int \<Rightarrow> int \<Rightarrow> int list" where
  "thread_work elt_n grid block b t =
     thread_indices block (block_start elt_n grid b + t) (block_start elt_n grid (b + 1))"

text \<open>All threads of all blocks, one after the other.\<close>

definition launch_indices :: "int \<Rightarrow> int \<Rightarrow> int \<Rightarrow> int list" where
  "launch_indices elt_n grid block =
     concat (map (\<lambda>b. concat (map (\<lambda>t. thread_work elt_n grid block b t) [0..block - 1])) [0..grid - 1])"

text \<open>The grid the host code chooses; no block at all for an empty buffer.\<close>

definition grid_size :: "int \<Rightarrow> int" where
  "grid_size elt_n = min 32 ((elt_n + 4 * 512 - 1) sdiv (4 * 512))"

section \<open>Every element is visited exactly once\<close>

lemma set_thread_indices:
  "0 < step \<Longrightarrow> set (thread_indices step i i1) = {j. i \<le> j \<and> j < i1 \<and> step dvd j - i}"
proof (induction step i i1 rule: thread_indices.induct)
  case (1 step i i1)
  show ?case
  proof (cases "i < i1")
    case True
    have d: "step dvd j - (i + step) \<longleftrightarrow> step dvd j - i" for j
      using dvd_add_right_iff [of step "- step" "j - i"] by (simp add: algebra_simps)
    have "i + step \<le> j" if "i \<le> j" "j \<noteq> i" "step dvd j - i" for j
      using that zdvd_imp_le [of step "j - i"] by simp
    then have "{j. i \<le> j \<and> j < i1 \<and> step dvd j - i} =
        insert i {j. i + step \<le> j \<and> j < i1 \<and> step dvd j - (i + step)}"
      using 1(2) True unfolding d by auto
    then show ?thesis using 1 True by (simp add: thread_indices.simps [of step i])
  qed (auto simp: thread_indices.simps [of step i])
qed

lemma distinct_thread_indices: "0 < step \<Longrightarrow> distinct (thread_indices step i i1)"
proof (induction step i i1 rule: thread_indices.induct)
  case (1 step i i1)
  then show ?case by (subst thread_indices.simps) (simp add: set_thread_indices)
qed

lemma set_concat_map: "set (concat (map f xs)) = (\<Union>x\<in>set xs. set (f x))"
  by simp

lemma distinct_concat_map:
  assumes "distinct xs" "\<And>x. x \<in> set xs \<Longrightarrow> distinct (f x)"
    and "\<And>x y. x \<in> set xs \<Longrightarrow> y \<in> set xs \<Longrightarrow> x \<noteq> y \<Longrightarrow> set (f x) \<inter> set (f y) = {}"
  shows "distinct (concat (map f xs))"
  using assms
proof (induction xs)
  case (Cons x xs)
  have "set (f x) \<inter> set (f y) = {}" if "y \<in> set xs" for y
    using Cons.prems(1) Cons.prems(3) [of x y] that by auto
  with Cons show ?case by auto
qed simp

lemma block_start_step:
  assumes "0 \<le> n" "0 < g" "0 \<le> b" "b < g"
  shows "block_start n g (b + 1) = block_start n g b + n div g + (if b < n mod g then 1 else 0)"
  using assms by (simp add: block_start_def algebra_simps)

lemma block_start_ends:
  assumes "0 \<le> n" "0 < g"
  shows "block_start n g 0 = 0" and "block_start n g g = n"
proof -
  have m: "0 \<le> n mod g" "n mod g < g" using assms(2) by simp_all
  have d: "n smod g = n mod g" "n sdiv g = n div g" using assms by simp_all
  show "block_start n g 0 = 0" using m(1) unfolding block_start_def d by auto
  show "block_start n g g = n" using m(2) unfolding block_start_def d by simp
qed

lemma block_start_mono:
  assumes "0 \<le> n" "0 < g" "0 \<le> b" "b \<le> c" "c \<le> g"
  shows "block_start n g b \<le> block_start n g c"
  using assms(4,5)
proof (induction c rule: int_ge_induct)
  case (step c)
  have "0 \<le> n div g" using assms(1,2) by (simp add: pos_imp_zdiv_nonneg_iff)
  then have "block_start n g c \<le> block_start n g (c + 1)"
    using block_start_step [OF assms(1,2), of c] step assms(3) by simp
  with step show ?case by simp
qed simp

text \<open>Consecutive ranges cover what lies between their ends.\<close>

lemma ranges_cover:
  fixes s :: "int \<Rightarrow> int"
  assumes "\<And>b. 0 \<le> b \<Longrightarrow> b < g \<Longrightarrow> s b \<le> s (b + 1)" and "0 \<le> g"
  shows "(\<Union>b\<in>{0..<g}. {s b..<s (b + 1)}) = {s 0..<s g} \<and> s 0 \<le> s g"
  using assms(2,1)
proof (induction g rule: int_ge_induct)
  case (step g)
  have le: "s g \<le> s (g + 1)" using step by simp
  have "{0..<g + 1} = insert g {0..<g}" using step.hyps by auto
  then have "(\<Union>b\<in>{0..<g + 1}. {s b..<s (b + 1)}) = {s g..<s (g + 1)} \<union> {s 0..<s g}"
    using step by simp
  moreover have "s 0 \<le> s g" using step by simp
  ultimately show ?case using le by auto
qed simp

lemma block_threads:
  assumes "0 < block"
  shows "set (concat (map (\<lambda>t. thread_indices block (i0 + t) i1) [0..block - 1])) = {i0..<i1}"
    and "distinct (concat (map (\<lambda>t. thread_indices block (i0 + t) i1) [0..block - 1]))"
proof -
  have mem: "j \<in> set (thread_indices block (i0 + t) i1) \<longleftrightarrow> i0 \<le> j \<and> j < i1 \<and> (j - i0) mod block = t"
    if "0 \<le> t" "t < block" for j t
  proof -
    have "block dvd j - (i0 + t) \<longleftrightarrow> (j - i0) mod block = t mod block"
      by (simp add: mod_eq_dvd_iff diff_diff_eq)
    moreover have "i0 + t \<le> j" if "i0 \<le> j" "(j - i0) mod block = t"
      using zmod_le_nonneg_dividend [of "j - i0" block] that by linarith
    ultimately show ?thesis using that assms by (auto simp: set_thread_indices)
  qed
  show "set (concat (map (\<lambda>t. thread_indices block (i0 + t) i1) [0..block - 1])) = {i0..<i1}"
  proof (intro set_eqI iffI)
    fix j assume "j \<in> set (concat (map (\<lambda>t. thread_indices block (i0 + t) i1) [0..block - 1]))"
    then obtain t where "0 \<le> t" "t < block" "j \<in> set (thread_indices block (i0 + t) i1)" by auto
    with mem show "j \<in> {i0..<i1}" by simp
  next
    fix j assume j: "j \<in> {i0..<i1}"
    then have "j \<in> set (thread_indices block (i0 + (j - i0) mod block) i1)"
      using mem [of "(j - i0) mod block" j] assms by simp
    then show "j \<in> set (concat (map (\<lambda>t. thread_indices block (i0 + t) i1) [0..block - 1]))"
      using assms by (auto intro!: bexI [of _ "(j - i0) mod block"])
  qed
  show "distinct (concat (map (\<lambda>t. thread_indices block (i0 + t) i1) [0..block - 1]))"
    using assms mem by (intro distinct_concat_map distinct_thread_indices) auto
qed

lemma launch_once:
  assumes "0 \<le> n" "0 < grid" "0 < block"
  shows "set (launch_indices n grid block) = {0..<n}" and "distinct (launch_indices n grid block)"
proof -
  let ?s = "block_start n grid"
  have le: "?s b \<le> ?s (b + 1)" if "0 \<le> b" "b < grid" for b
    using block_start_mono [OF assms(1,2), of b "b + 1"] that by simp
  have blk: "set (concat (map (\<lambda>t. thread_work n grid block b t) [0..block - 1])) = {?s b..<?s (b + 1)}" for b
    unfolding thread_work_def by (rule block_threads(1) [OF assms(3)])
  have "set (launch_indices n grid block) = (\<Union>b\<in>{0..<grid}. {?s b..<?s (b + 1)})"
  proof -
    have "set (launch_indices n grid block) =
        (\<Union>b\<in>set [0..grid - 1]. set (concat (map (\<lambda>t. thread_work n grid block b t) [0..block - 1])))"
      unfolding launch_indices_def by (rule set_concat_map)
    also have "set [0..grid - 1] = {0..<grid}" by auto
    finally show ?thesis by (simp only: blk)
  qed
  then show "set (launch_indices n grid block) = {0..<n}"
    using ranges_cover [of grid ?s] le block_start_ends [OF assms(1,2)] assms(2) by simp
  show "distinct (launch_indices n grid block)"
    unfolding launch_indices_def
  proof (rule distinct_concat_map)
    fix b c assume bc: "b \<in> set [0..grid - 1]" "c \<in> set [0..grid - 1]" "b \<noteq> c"
    have "?s (b + 1) \<le> ?s c \<or> ?s (c + 1) \<le> ?s b"
      using bc block_start_mono [OF assms(1,2), of "b + 1" c] block_start_mono [OF assms(1,2), of "c + 1" b]
      by (cases "b < c") auto
    then show "set (concat (map (\<lambda>t. thread_work n grid block b t) [0..block - 1])) \<inter>
        set (concat (map (\<lambda>t. thread_work n grid block c t) [0..block - 1])) = {}"
      unfolding blk by auto
  next
    show "distinct (concat (map (\<lambda>t. thread_work n grid block b t) [0..block - 1]))" for b
      unfolding thread_work_def by (rule block_threads(2) [OF assms(3)])
  qed simp
qed

section \<open>The kernels that fill and compare buffers\<close>

text \<open>A buffer maps indices to element patterns. The kernels \<open>prepareInput2\<close> and \<open>prepareExpected2\<close>
  store a generated value at each index of the work of their threads, in the order of a schedule.\<close>

definition store_kernel :: "int list \<Rightarrow> (int \<Rightarrow> 'v) \<Rightarrow> (int \<Rightarrow> 'v) \<Rightarrow> int \<Rightarrow> 'v" where
  "store_kernel sched gen elts = foldl (\<lambda>e i. e(i := gen i)) elts sched"

text \<open>\<open>calcDelta\<close>, and the same expression in the kernels that compare.\<close>

definition calcDelta :: "'w::len word \<Rightarrow> 'w word \<Rightarrow> 'w word" where
  "calcDelta a b = (if a < b then b - a else a - b)"

text \<open>The elements one thread finds bad, and what all threads add to the counter.\<close>

definition thread_bad :: "u32 \<Rightarrow> (int \<Rightarrow> 'w::len word) \<Rightarrow> (int \<Rightarrow> 'w word) \<Rightarrow> int list \<Rightarrow> int" where
  "thread_bad tolerance results expected is =
     foldl (\<lambda>bad i. bad + (if unat tolerance < unat (calcDelta (results i) (expected i)) then 1 else 0)) 0 is"

definition verify_kernel ::
  "int \<Rightarrow> int \<Rightarrow> int \<Rightarrow> u32 \<Rightarrow> (int \<Rightarrow> 'w::len word) \<Rightarrow> (int \<Rightarrow> 'w word) \<Rightarrow> int \<Rightarrow> int" where
  "verify_kernel elt_n grid block tolerance results expected bad_elt_n =
     foldl (\<lambda>acc b. foldl (\<lambda>acc t. acc + thread_bad tolerance results expected (thread_work elt_n grid block b t))
       acc [0..block - 1]) bad_elt_n [0..grid - 1]"

lemma store_kernel_apply:
  "store_kernel sched gen elts i = (if i \<in> set sched then gen i else elts i)"
  unfolding store_kernel_def by (induction sched arbitrary: elts) auto

lemma foldl_plus_init: "foldl (\<lambda>a x. a + f x) (c :: int) xs = c + (\<Sum>x\<leftarrow>xs. f x)"
  by (induction xs arbitrary: c) (auto simp: algebra_simps)

lemma thread_bad_sum_list:
  "thread_bad tol r e is = (\<Sum>i\<leftarrow>is. if unat tol < unat (calcDelta (r i) (e i)) then 1 else 0)"
  by (simp add: thread_bad_def foldl_plus_init)

lemma sum_list_concat_map: "(\<Sum>x\<leftarrow>concat (map g xs). f x) = (\<Sum>x\<leftarrow>xs. \<Sum>y\<leftarrow>g x. (f y :: int))"
  by (induction xs) auto

lemma verify_kernel_sum_list:
  "verify_kernel n grid block tol r e bad =
    bad + (\<Sum>i\<leftarrow>launch_indices n grid block. if unat tol < unat (calcDelta (r i) (e i)) then 1 else 0)"
  by (simp add: verify_kernel_def launch_indices_def foldl_plus_init thread_bad_sum_list sum_list_concat_map)

lemma sum_list_count:
  "distinct xs \<Longrightarrow> (\<Sum>x\<leftarrow>xs. if P x then 1 else 0) = int (card {x \<in> set xs. P x})"
proof -
  assume d: "distinct xs"
  then have "(\<Sum>x\<leftarrow>xs. if P x then 1 else 0 :: int) = (\<Sum>x\<in>set xs. if P x then 1 else 0)"
    by (simp add: sum_list_distinct_conv_sum_set)
  also have "\<dots> = int (card {x \<in> set xs. P x})" by (simp add: sum.If_cases Int_def)
  finally show ?thesis .
qed

text \<open>What is counted: the distance of the two patterns, as natural numbers.\<close>

lemma unat_calcDelta: "int (unat (calcDelta a b)) = \<bar>int (unat a) - int (unat b)\<bar>"
proof -
  have D: "unat (calcDelta a b) = (if unat a < unat b then unat b - unat a else unat a - unat b)"
    using unat_sub_small [of a b] unat_sub_small [of b a] by (simp add: calcDelta_def word_less_nat_alt)
  show ?thesis unfolding D by (simp only: split: if_split) linarith
qed

lemma verify_kernel_count:
  assumes "0 \<le> n" "0 < grid" "0 < block"
  shows "verify_kernel n grid block tolerance results expected bad =
    bad + int (card {i. 0 \<le> i \<and> i < n \<and>
      int (unat tolerance) < \<bar>int (unat (results i)) - int (unat (expected i :: 'w::len word))\<bar>})"
proof -
  have "unat tolerance < unat (calcDelta (results i) (expected i)) \<longleftrightarrow>
      int (unat tolerance) < \<bar>int (unat (results i)) - int (unat (expected i))\<bar>" for i
    unfolding unat_calcDelta [symmetric] by (simp only: of_nat_less_iff)
  then show ?thesis
    unfolding verify_kernel_sum_list sum_list_count [OF launch_once(2) [OF assms]] launch_once(1) [OF assms]
    by (simp add: conj_assoc)
qed

section \<open>Properties\<close>

text \<open>Whatever the grid and the block size, and whatever the order in which the threads run, the kernels that
  fill a buffer store the generated value at every index of the buffer exactly once, and nowhere else.\<close>

theorem store_kernel_fills:
  assumes "0 \<le> n" "0 < grid" "0 < block" and "mset sched = mset (launch_indices n grid block)"
  shows "distinct sched \<and> store_kernel sched gen elts = (\<lambda>i. if 0 \<le> i \<and> i < n then gen i else elts i)"
proof
  show "distinct sched"
    using launch_once(2) [OF assms(1-3)] assms(4) by (metis mset_eq_imp_distinct_iff)
  have "set sched = {0..<n}"
    using launch_once(1) [OF assms(1-3)] assms(4) by (metis set_mset_mset)
  then show "store_kernel sched gen elts = (\<lambda>i. if 0 \<le> i \<and> i < n then gen i else elts i)"
    by (auto simp: store_kernel_apply)
qed

theorem store_kernel_fills_witness:
  "store_kernel (rev (launch_indices 7 2 3)) (\<lambda>i. i * i) (\<lambda>_. - 1) =
    (\<lambda>i. if 0 \<le> i \<and> i < 7 then i * i else - 1)"
  using store_kernel_fills [of 7 2 3 "rev (launch_indices 7 2 3)" "\<lambda>i. i * i" "\<lambda>_. - 1"] by simp

text \<open>The kernels that compare add to the counter exactly the number of elements whose patterns are further
  apart than the tolerance.\<close>

theorem verify_kernel_counts:
  assumes "0 \<le> n" "0 < grid" "0 < block"
  shows "verify_kernel n grid block tolerance results expected bad =
    bad + int (card {i. 0 \<le> i \<and> i < n \<and>
      int (unat tolerance) < \<bar>int (unat (results i)) - int (unat (expected i :: 'w::len word))\<bar>})"
  using assms by (rule verify_kernel_count)

theorem verify_kernel_counts_witness:
  "verify_kernel 5 2 3 2 (\<lambda>i. if i = 3 then 9 else 4 :: u8) (\<lambda>i. if i = 4 then 2 else 4) 0 = 1"
proof -
  have "{i::int. 0 \<le> i \<and> i < 5 \<and> int (unat (2 :: u32)) <
      \<bar>int (unat (if i = 3 then 9 else 4 :: u8)) - int (unat (if i = 4 then 2 else 4 :: u8))\<bar>} = {3}"
    by auto
  then show ?thesis
    using verify_kernel_counts [of 5 2 3 2 "\<lambda>i. if i = 3 then 9 else 4 :: u8" "\<lambda>i. if i = 4 then 2 else 4" 0]
    by simp
qed

end
