(* ===== verification/VerifEntry.thy ===== *)
theory VerifEntry
  imports VerifFloatGen VerifLaunch
begin

text \<open>
  The entry points of verifiable/verifiable.cu: \<open>ncclVerifiablePrepareInput\<close>,
  \<open>ncclVerifiablePrepareExpected\<close> and \<open>ncclVerifiableVerify\<close>, with their dispatch on the element
  type and the reduction. An element is its bit pattern in the low bits of a \<^typ>\<open>u64\<close>. The
  theory ends with what the module is for: a correct reduction is reported to have no bad
  element.
\<close>

section \<open>Types and reductions\<close>

datatype elt_type = NcclInt8 | NcclUint8 | NcclInt32 | NcclUint32 | NcclInt64 | NcclUint64
  | NcclFloat16 | NcclFloat32 | NcclFloat64 | NcclBfloat16 | NcclFloat8e4m3 | NcclFloat8e5m2

text \<open>The reduction codes; every code that is not one of the first five is a sum with scalars.\<close>

datatype red_code = NcclSum | NcclProd | NcclMax | NcclMin | NcclAvg | NcclPreMulSum

text \<open>The switches over the element type end in \<open>default: assert(0)\<close>; no build defines \<open>NDEBUG\<close>, so the program aborts there and the return
  of an error behind the assertion is never reached.\<close>

datatype abort = AssertionFailed

fun elt_layout :: "elt_type \<Rightarrow> float_layout option" where
  "elt_layout NcclFloat16 = Some float16"
| "elt_layout NcclFloat32 = Some float32"
| "elt_layout NcclFloat64 = Some float64"
| "elt_layout NcclBfloat16 = Some bfloat16"
| "elt_layout NcclFloat8e4m3 = Some float8e4m3"
| "elt_layout NcclFloat8e5m2 = Some float8e5m2"
| "elt_layout _ = None"

fun elt_size :: "elt_type \<Rightarrow> int" where
  "elt_size NcclInt8 = 1" | "elt_size NcclUint8 = 1"
| "elt_size NcclInt32 = 4" | "elt_size NcclUint32 = 4"
| "elt_size NcclInt64 = 8" | "elt_size NcclUint64 = 8"
| "elt_size NcclFloat16 = 2" | "elt_size NcclFloat32 = 4" | "elt_size NcclFloat64 = 8"
| "elt_size NcclBfloat16 = 2" | "elt_size NcclFloat8e4m3 = 1" | "elt_size NcclFloat8e5m2 = 1"

definition elt_signed :: "elt_type \<Rightarrow> bool" where
  "elt_signed ty = (ty \<in> {NcclInt8, NcclInt32, NcclInt64})"

text \<open>The macro \<open>CASE_OP\<close>: a single rank always copies.\<close>

definition case_op :: "red_code \<Rightarrow> int \<Rightarrow> reduce_op" where
  "case_op red_op rank_n =
     (if rank_n = 1 then ReduceNil else
      case red_op of NcclSum \<Rightarrow> ReduceSum | NcclMin \<Rightarrow> ReduceMin | NcclMax \<Rightarrow> ReduceMax
      | NcclProd \<Rightarrow> ReduceProd | NcclAvg \<Rightarrow> ReduceAvg rank_n | NcclPreMulSum \<Rightarrow> ReducePreMulSum)"

section \<open>Generating and reducing elements\<close>

text \<open>An operation at the width of an integer type.\<close>

definition lift2 :: "('w::len word \<Rightarrow> 'w word \<Rightarrow> 'w word) \<Rightarrow> u64 \<Rightarrow> u64 \<Rightarrow> u64" where
  "lift2 f a b = ucast (f (ucast a) (ucast b))"

definition gen_input :: "elt_type \<Rightarrow> reduce_op \<Rightarrow> int \<Rightarrow> int \<Rightarrow> u64 \<Rightarrow> u64 \<Rightarrow> u64 option" where
  "gen_input ty op rank_n rank_me seed index =
     (case elt_layout ty of
        None \<Rightarrow>
          if elt_size ty = 1 then Some (ucast (gen_int_input op rank_me seed index :: u8))
          else if elt_size ty = 4 then Some (ucast (gen_int_input op rank_me seed index :: u32))
          else Some (gen_int_input op rank_me seed index)
      | Some fl \<Rightarrow>
          (case op of
             ReduceNil \<Rightarrow> Some (gen_float_minmax fl rank_me seed index)
           | ReduceSum \<Rightarrow> genInOutFloatSum fl True rank_n rank_me seed index False
           | ReduceProd \<Rightarrow> genInOutFloatProd fl True rank_n rank_me seed index
           | ReduceMin \<Rightarrow> Some (gen_float_minmax fl rank_me seed index)
           | ReduceMax \<Rightarrow> Some (gen_float_minmax fl rank_me seed index)
           | ReducePreMulSum \<Rightarrow> genInOutFloatPreMulSum fl True rank_n rank_me seed index
           | ReduceAvg n \<Rightarrow> gen_float_avg fl rank_n rank_me seed index))"

definition gen_output :: "elt_type \<Rightarrow> reduce_op \<Rightarrow> int \<Rightarrow> u64 \<Rightarrow> u64 \<Rightarrow> u64 option" where
  "gen_output ty op rank_n seed index =
     (case elt_layout ty of
        None \<Rightarrow>
          if elt_size ty = 1 then Some (ucast (gen_int_output (elt_signed ty) op rank_n seed index :: u8))
          else if elt_size ty = 4 then Some (ucast (gen_int_output (elt_signed ty) op rank_n seed index :: u32))
          else Some (gen_int_output (elt_signed ty) op rank_n seed index)
      | Some fl \<Rightarrow>
          (case op of
             ReduceNil \<Rightarrow> Some (gen_float_minmax fl 0 seed index)
           | ReduceSum \<Rightarrow> genInOutFloatSum fl False rank_n 0 seed index False
           | ReduceProd \<Rightarrow> genInOutFloatProd fl False rank_n 0 seed index
           | ReduceMin \<Rightarrow> gen_float_acc (float_min fl) (\<lambda>r. gen_float_minmax fl r seed index) (nat rank_n - 1)
           | ReduceMax \<Rightarrow> gen_float_acc (float_max fl) (\<lambda>r. gen_float_minmax fl r seed index) (nat rank_n - 1)
           | ReducePreMulSum \<Rightarrow> genInOutFloatPreMulSum fl False rank_n 0 seed index
           | ReduceAvg n \<Rightarrow> gen_float_avg_output fl n seed index))"

text \<open>The three parts of a functor at an element type.\<close>

definition elt_pre_op :: "elt_type \<Rightarrow> reduce_op \<Rightarrow> u64 \<Rightarrow> int \<Rightarrow> u64 option" where
  "elt_pre_op ty op x rank_me =
     (case elt_layout ty of
        None \<Rightarrow>
          if elt_size ty = 1 then Some (ucast (pre_op op (ucast x :: u8) rank_me))
          else if elt_size ty = 4 then Some (ucast (pre_op op (ucast x :: u32) rank_me))
          else Some (pre_op op x rank_me)
      | Some fl \<Rightarrow>
          (case op of ReducePreMulSum \<Rightarrow> fmul fl x (premul_scalar fl rank_me)
           | ReduceAvg n \<Rightarrow> avg_pre_op fl n x | _ \<Rightarrow> Some x))"

definition elt_op :: "elt_type \<Rightarrow> reduce_op \<Rightarrow> u64 \<Rightarrow> u64 \<Rightarrow> u64 option" where
  "elt_op ty op =
     (case elt_layout ty of
        None \<Rightarrow>
          if elt_size ty = 1 then (\<lambda>a b. Some (lift2 (reduce_op2 (elt_signed ty) op :: u8 \<Rightarrow> _) a b))
          else if elt_size ty = 4 then (\<lambda>a b. Some (lift2 (reduce_op2 (elt_signed ty) op :: u32 \<Rightarrow> _) a b))
          else (\<lambda>a b. Some (lift2 (reduce_op2 (elt_signed ty) op :: u64 \<Rightarrow> _) a b))
      | Some fl \<Rightarrow>
          (case op of ReduceNil \<Rightarrow> (\<lambda>a b. Some a) | ReduceProd \<Rightarrow> fmul fl
           | ReduceMin \<Rightarrow> float_min fl | ReduceMax \<Rightarrow> float_max fl | _ \<Rightarrow> fadd fl))"

definition elt_post_op :: "elt_type \<Rightarrow> reduce_op \<Rightarrow> u64 \<Rightarrow> u64" where
  "elt_post_op ty op x =
     (case elt_layout ty of
        None \<Rightarrow>
          if elt_size ty = 1 then ucast (post_op (elt_signed ty) op (ucast x :: u8))
          else if elt_size ty = 4 then ucast (post_op (elt_signed ty) op (ucast x :: u32))
          else post_op (elt_signed ty) op x
      | Some fl \<Rightarrow> x)"

section \<open>The entry points\<close>

text \<open>
  Filling a buffer, for a schedule of the threads: the failed assertion of an unknown type, no launch for
  an empty grid, and otherwise the buffer with every element generated (\<^const>\<open>None\<close> where a generator divides by zero).
\<close>

definition fill_buffer ::
  "int list \<Rightarrow> (u64 \<Rightarrow> u64 option) \<Rightarrow> u64 \<Rightarrow> (int \<Rightarrow> u64) \<Rightarrow> int \<Rightarrow> (int \<Rightarrow> u64) option" where
  "fill_buffer sched gen elt_ix0 elts elt_n =
     (if grid_size elt_n = 0 then Some elts
      else if list_all (\<lambda>i. gen (elt_ix0 + u64_of_int i) \<noteq> None) sched
      then Some (store_kernel sched (\<lambda>i. the (gen (elt_ix0 + u64_of_int i))) elts) else None)"

definition ncclVerifiablePrepareInput ::
  "int list \<Rightarrow> (int \<Rightarrow> u64) \<Rightarrow> int \<Rightarrow> elt_type option \<Rightarrow> red_code \<Rightarrow> int \<Rightarrow> int \<Rightarrow> u64 \<Rightarrow> u64 \<Rightarrow>
     abort + (int \<Rightarrow> u64) option" where
  "ncclVerifiablePrepareInput sched elts elt_n elt_ty red_op rank_n rank_me seed elt_ix0 =
     (case elt_ty of None \<Rightarrow> Inl AssertionFailed
      | Some ty \<Rightarrow> Inr (fill_buffer sched (gen_input ty (case_op red_op rank_n) rank_n rank_me seed) elt_ix0 elts elt_n))"

definition ncclVerifiablePrepareExpected ::
  "int list \<Rightarrow> (int \<Rightarrow> u64) \<Rightarrow> int \<Rightarrow> elt_type option \<Rightarrow> red_code \<Rightarrow> int \<Rightarrow> u64 \<Rightarrow> u64 \<Rightarrow>
     abort + (int \<Rightarrow> u64) option" where
  "ncclVerifiablePrepareExpected sched elts elt_n elt_ty red_op rank_n seed elt_ix0 =
     (case elt_ty of None \<Rightarrow> Inl AssertionFailed
      | Some ty \<Rightarrow> Inr (fill_buffer sched (gen_output ty (case_op red_op rank_n) rank_n seed) elt_ix0 elts elt_n))"

text \<open>Comparing at the width of the element; no launch for an empty grid.\<close>

definition verify_elts :: "int \<Rightarrow> u32 \<Rightarrow> (int \<Rightarrow> u64) \<Rightarrow> (int \<Rightarrow> u64) \<Rightarrow> int \<Rightarrow> int" where
  "verify_elts esize tolerance results expected elt_n =
     (let g = grid_size elt_n
      in if g = 0 then 0
         else if esize = 1 then verify_kernel elt_n g 512 tolerance (\<lambda>i. ucast (results i) :: u8) (\<lambda>i. ucast (expected i)) 0
         else if esize = 2 then verify_kernel elt_n g 512 tolerance (\<lambda>i. ucast (results i) :: 16 word) (\<lambda>i. ucast (expected i)) 0
         else if esize = 4 then verify_kernel elt_n g 512 tolerance (\<lambda>i. ucast (results i) :: u32) (\<lambda>i. ucast (expected i)) 0
         else verify_kernel elt_n g 512 tolerance results expected 0)"

definition tolerance :: "elt_type \<Rightarrow> red_code \<Rightarrow> u32" where
  "tolerance ty red_op = (if elt_layout ty \<noteq> None \<and> red_op = NcclAvg then 2 else 0)"

definition ncclVerifiableVerify ::
  "(int \<Rightarrow> u64) \<Rightarrow> (int \<Rightarrow> u64) option \<Rightarrow> int \<Rightarrow> elt_type option \<Rightarrow> red_code \<Rightarrow> int \<Rightarrow> u64 \<Rightarrow> u64 \<Rightarrow>
     abort + int option" where
  "ncclVerifiableVerify results expected elt_n elt_ty red_op rank_n seed elt_ix0 =
     (case elt_ty of None \<Rightarrow> Inl AssertionFailed
      | Some ty \<Rightarrow>
          (case expected of
             Some e \<Rightarrow> Inr (Some (verify_elts (elt_size ty) (tolerance ty red_op) results e elt_n))
           | None \<Rightarrow>
               let gen = \<lambda>i. gen_output ty (case_op red_op rank_n) rank_n seed (elt_ix0 + u64_of_int i)
               in if list_all (\<lambda>i. gen i \<noteq> None) [0..elt_n - 1]
                  then Inr (Some (verify_elts (elt_size ty) (tolerance ty red_op) results (\<lambda>i. the (gen i)) elt_n))
                  else Inr None))"

section \<open>A correct reduction of one element\<close>

text \<open>What a rank brings into the reduction of an element.\<close>

definition elt_contribution :: "elt_type \<Rightarrow> reduce_op \<Rightarrow> int \<Rightarrow> u64 \<Rightarrow> u64 \<Rightarrow> int \<Rightarrow> u64 option" where
  "elt_contribution ty op n seed index r =
     Option.bind (gen_input ty op n r seed index) (\<lambda>x. elt_pre_op ty op x r)"

text \<open>The element a collective computes when it combines the ranks in a tree.\<close>

definition elt_reduction :: "elt_type \<Rightarrow> reduce_op \<Rightarrow> int \<Rightarrow> u64 \<Rightarrow> u64 \<Rightarrow> redtree \<Rightarrow> u64 option" where
  "elt_reduction ty op n seed index t =
     map_option (elt_post_op ty op) (reduce_tree (elt_op ty op) (elt_contribution ty op n seed index) t)"

text \<open>The rank counts the data generators are made for. Averages of floating point data are left out: they are
  only reproduced up to the tolerance.\<close>

definition enough_units :: "elt_type \<Rightarrow> red_code \<Rightarrow> int \<Rightarrow> bool" where
  "enough_units ty red n \<longleftrightarrow>
     (case elt_layout ty of None \<Rightarrow> True
      | Some fl \<Rightarrow> n = 1 \<or>
          (case red of
             NcclSum \<Rightarrow> (n + 1) div 2 \<le> 2 ^ mantissa_bits fl
           | NcclProd \<Rightarrow> nat n \<le> 2 ^ (exponent_bits fl - 2)
           | NcclPreMulSum \<Rightarrow> (n + 1) div 2 \<le> 2 ^ (mantissa_bits fl - 1) \<and> n div 2 \<le> 2 ^ (mantissa_bits fl - 2)
           | NcclAvg \<Rightarrow> False | _ \<Rightarrow> True))"

lemma elt_layout_wf: "elt_layout ty = Some fl \<Longrightarrow> fl \<in> set float_layouts"
  by (cases ty) (auto simp: float_layouts_def)

lemma ucast_up_down:
  "LENGTH('w::len) \<le> 64 \<Longrightarrow> ucast (ucast x :: u64) = (x :: 'w word)"
  by (simp add: word_unat_eq_iff unat_ucast_small unat_ucast_up)

lemma reduce_tree_lift:
  assumes "LENGTH('w::len) \<le> 64"
  shows "reduce_tree (\<lambda>a b. Some (lift2 f a b)) (\<lambda>r. Some (ucast (inp r :: 'w word))) t =
    map_option ucast (reduce_tree (\<lambda>a b. Some (f a b)) (\<lambda>r. Some (inp r)) t)"
proof -
  note down = ucast_up_down [OF assms]
  show ?thesis by (induction t) (auto simp: lift2_def down split: option.splits)
qed

lemma reduce_tree_cong:
  assumes "\<And>r. r \<in> set (leaves t) \<Longrightarrow> f r = g r"
  shows "reduce_tree op f t = reduce_tree op g t"
  using assms by (induction t) (simp_all cong: option.case_cong)

text \<open>A tree over a single rank is that rank.\<close>

lemma tree_single:
  assumes "set (leaves t) = {0..<1}" "distinct (leaves t)"
  shows "t = Rank 0"
proof (cases t)
  case (Rank r)
  with assms(1) show ?thesis by auto
next
  case (Join a b)
  have sub: "set (leaves a) \<subseteq> {0..<1}" "set (leaves b) \<subseteq> {0..<1}"
    unfolding assms(1) [symmetric] Join leaves.simps set_append by blast+
  have z: "0 \<in> set xs" if "xs \<noteq> []" "set xs \<subseteq> {0..<1::int}" for xs
    using that by (cases xs) auto
  have "0 \<in> set (leaves a)" "0 \<in> set (leaves b)"
    using z [OF leaves_nonempty sub(1)] z [OF leaves_nonempty sub(2)] .
  with assms(2) Join show ?thesis by auto
qed

lemma int_width_reduction:
  fixes sg :: bool
  assumes "LENGTH('w::len) \<le> 64" and "op \<noteq> ReduceNil \<or> n = 1" and n: "0 < n"
    and t: "set (leaves t) = {0..<n}" "distinct (leaves t)"
  shows "map_option (\<lambda>x. ucast (post_op sg op (ucast x :: 'w word)))
      (reduce_tree (\<lambda>a b. Some (lift2 (reduce_op2 sg op :: 'w word \<Rightarrow> _) a b))
        (\<lambda>r. Some (ucast (pre_op op (gen_int_input op r seed ix :: 'w word) r))) t)
    = Some (ucast (gen_int_output sg op n seed ix :: 'w word) :: u64)"
proof -
  note down = ucast_up_down [OF assms(1)]
  have "map_option (post_op sg op)
      (reduce_tree (\<lambda>a b. Some (reduce_op2 sg op a b)) (\<lambda>r. Some (pre_op op (gen_int_input op r seed ix) r)) t)
    = Some (gen_int_output sg op n seed ix :: 'w word)"
  proof (cases "op = ReduceNil")
    case True
    with assms(2) have "n = 1" by simp
    with t tree_single have "t = Rank 0" by blast
    then show ?thesis by (simp add: gen_int_output_def \<open>n = 1\<close>)
  next
    case False
    have "reduce_tree (\<lambda>a b. Some (reduce_op2 sg op a b)) (\<lambda>r. Some (pre_op op (gen_int_input op r seed ix) r)) t =
        Some (gen_int_acc sg op seed ix (nat n - 1) :: 'w word)"
      using int_tree_unique [OF False _ t(2) loop_tree_leaves(2) [OF n],
          of sg "\<lambda>r. pre_op op (gen_int_input op r seed ix) r"] t(1) loop_tree_leaves(1) [OF n]
      by (simp add: gen_int_acc_tree)
    then show ?thesis by (simp add: gen_int_output_def)
  qed
  then show ?thesis
    by (auto simp: reduce_tree_lift [OF assms(1)] option.map_comp o_def down)
qed

lemma elt_reduction_expected:
  assumes n: "0 < n" "n < 2 ^ 31" and units: "enough_units ty red n"
    and t: "set (leaves t) = {0..<n}" "distinct (leaves t)"
  shows "\<exists>y. gen_output ty (case_op red n) n seed ix = Some y \<and>
    elt_reduction ty (case_op red n) n seed ix t = Some y"
proof (cases "elt_layout ty")
  case None
  let ?op = "case_op red n"
  have op: "?op \<noteq> ReduceNil \<or> n = 1" by (auto simp: case_op_def split: red_code.split)
  have sz: "elt_size ty = 1 \<or> elt_size ty = 4 \<or> elt_size ty = 8" using None by (cases ty) auto
  have id: "ucast (x :: u64) = x" for x by simp
  note red8 = int_width_reduction [where 'w = 8, OF _ op n(1) t, of "elt_signed ty" seed ix]
    and red32 = int_width_reduction [where 'w = 32, OF _ op n(1) t, of "elt_signed ty" seed ix]
    and red64 = int_width_reduction [where 'w = 64, OF _ op n(1) t, of "elt_signed ty" seed ix]
  have down: "ucast (ucast (x :: u8) :: u64) = x" "ucast (ucast (y :: u32) :: u64) = y" for x y
    by (rule ucast_up_down, simp)+
  from sz show ?thesis
    using red8 red32 red64
    by (elim disjE) (simp_all add: gen_output_def elt_reduction_def elt_op_def elt_contribution_def[abs_def]
        gen_input_def elt_pre_op_def elt_post_op_def[abs_def] None down id)
next
  case (Some fl)
  note fl = elt_layout_wf [OF Some]
  let ?op = "case_op red n"
  have post: "elt_post_op ty op x = x" for op x by (simp add: elt_post_op_def Some)
  have red: "elt_reduction ty op n seed ix t =
      reduce_tree (elt_op ty op) (elt_contribution ty op n seed ix) t" for op
    by (simp add: elt_reduction_def post[abs_def] option.map_ident)
  show ?thesis
  proof (cases "n = 1")
    case True
    with t tree_single have "t = Rank 0" by blast
    then show ?thesis unfolding red
      by (simp add: True case_op_def gen_output_def gen_input_def elt_contribution_def elt_pre_op_def Some)
  next
    case False
    then have n2: "2 \<le> n" using n(1) by simp
    show ?thesis
    proof (cases red)
      case NcclSum
      have "Option.bind v Some = v" for v :: "u64 option" by (cases v) simp_all
      with float_sum_tree [OF wf_layouts [OF fl] n2 n(2) _ t float_adder_fadd [OF wf_layouts [OF fl]], of seed ix]
      show ?thesis using units False NcclSum unfolding red
        by (auto simp: enough_units_def case_op_def gen_output_def gen_input_def elt_contribution_def[abs_def]
            elt_pre_op_def elt_op_def Some float_sum_input_def[abs_def])
    next
      case NcclProd
      have "Option.bind v Some = v" for v :: "u64 option" by (cases v) simp_all
      with float_prod_tree [OF wf_layouts [OF fl] n2 n(2) _ t float_multiplier_fmul [OF wf_layouts [OF fl]], of seed ix]
      show ?thesis using units False NcclProd unfolding red
        by (auto simp: enough_units_def case_op_def gen_output_def gen_input_def elt_contribution_def[abs_def]
            elt_pre_op_def elt_op_def Some)
    next
      case NcclMax
      then show ?thesis unfolding red
        using float_max_tree [OF wf_layouts [OF fl] n(1) t, of seed ix] False
        by (auto simp: case_op_def gen_output_def gen_input_def elt_contribution_def[abs_def]
            elt_pre_op_def elt_op_def Some)
    next
      case NcclMin
      then show ?thesis unfolding red
        using float_min_tree [OF wf_layouts [OF fl] n(1) t, of seed ix] False
        by (auto simp: case_op_def gen_output_def gen_input_def elt_contribution_def[abs_def]
            elt_pre_op_def elt_op_def Some)
    next
      case NcclAvg
      then show ?thesis using units False by (simp add: enough_units_def Some)
    next
      case NcclPreMulSum
      have "(\<lambda>r. Option.bind (v r) (\<lambda>x. fmul fl x (premul_scalar fl r))) = premul_input fl v" for v
        by (auto simp: premul_input_def split: option.split)
      with float_premul_tree [OF fl n2 n(2) _ _ t, of seed ix]
      show ?thesis using units False NcclPreMulSum unfolding red
        by (auto simp: enough_units_def case_op_def gen_output_def gen_input_def elt_contribution_def[abs_def]
            elt_pre_op_def elt_op_def Some)
    qed
  qed
qed

section \<open>Comparing buffers\<close>

lemma grid_size_pos:
  assumes "0 \<le> n"
  shows "0 \<le> grid_size n" and "grid_size n = 0 \<longleftrightarrow> n = 0"
proof -
  have g: "grid_size n = min 32 ((n + 2047) div 2048)" using assms by (simp add: grid_size_def)
  have "1 \<le> (n + 2047) div 2048" if "n \<noteq> 0"
    using zdiv_mono1 [of 2048 "n + 2047" 2048] assms that by simp
  then show "0 \<le> grid_size n" "grid_size n = 0 \<longleftrightarrow> n = 0"
    unfolding g by (cases "n = 0"; force)+
qed

text \<open>The pattern of an element at its width.\<close>

definition elt_pattern :: "int \<Rightarrow> u64 \<Rightarrow> int" where
  "elt_pattern esize x = uint x mod 2 ^ (8 * nat esize)"

lemma uint_ucast_mod: "uint (ucast (x :: u64) :: 'w::len word) = uint x mod 2 ^ LENGTH('w)"
  by (simp add: unsigned_ucast_eq take_bit_eq_mod)

lemma verify_elts_counts:
  assumes "0 \<le> n" and "esize \<in> {1, 2, 4, 8}"
  shows "verify_elts esize tol results expected n =
    int (card {i. 0 \<le> i \<and> i < n \<and>
      int (unat tol) < \<bar>elt_pattern esize (results i) - elt_pattern esize (expected i)\<bar>})"
proof (cases "n = 0")
  case True
  then have none: "{i. 0 \<le> i \<and> i < n \<and> P i} = {}" for P :: "int \<Rightarrow> bool" by auto
  show ?thesis unfolding none using True by (simp add: verify_elts_def grid_size_def)
next
  case False
  then have g: "0 < grid_size n" using grid_size_pos [OF assms(1)] by linarith
  have full: "uint (x :: u64) mod 18446744073709551616 = uint x" for x
    using uint_bounded [of x] by simp
  show ?thesis
    using assms(2) g
    by (auto simp: verify_elts_def Let_def elt_pattern_def verify_kernel_count [OF assms(1) g] uint_ucast_mod
        full)
qed

section \<open>Properties\<close>

text \<open>C33: for a known type the verifier reports the number of elements whose patterns (at the
  width of the type) are further apart than the tolerance, which is two for averages of floating point
  types and zero otherwise: from the elements of a prepared buffer, or without one from what the generator gives for every element
  (and there is no count if the generator divides by zero for one of them). Exactly for an unknown type its assertion fails, and the
  program aborts.\<close>

theorem verify_reports_count:
  fixes results :: "int \<Rightarrow> u64" and red :: red_code and n :: int and seed ix0 :: u64
  assumes "0 \<le> elt_n"
  defines "bad \<equiv> \<lambda>ty expected. int (card {i. 0 \<le> i \<and> i < elt_n \<and>
        (if elt_layout ty \<noteq> None \<and> red = NcclAvg then 2 else 0) <
          \<bar>elt_pattern (elt_size ty) (results i) - elt_pattern (elt_size ty) (expected i)\<bar>})"
  defines "gen \<equiv> \<lambda>ty i. gen_output ty (case_op red n) n seed (ix0 + u64_of_int i)"
  shows "ncclVerifiableVerify results (Some expected) elt_n (Some ty) red n seed ix0 = Inr (Some (bad ty expected))
    \<and> ncclVerifiableVerify results None elt_n (Some ty) red n seed ix0 =
        (if \<forall>i. 0 \<le> i \<and> i < elt_n \<longrightarrow> gen ty i \<noteq> None then Inr (Some (bad ty (\<lambda>i. the (gen ty i)))) else Inr None)
    \<and> (ncclVerifiableVerify results e elt_n elt_ty red n seed ix0 = Inl AssertionFailed \<longleftrightarrow> elt_ty = None)"
proof -
  have sz: "elt_size ty \<in> {1, 2, 4, 8}" by (cases ty) simp_all
  have tol: "int (unat (tolerance ty red)) = (if elt_layout ty \<noteq> None \<and> red = NcclAvg then 2 else 0)"
    by (simp add: tolerance_def)
  have count: "verify_elts (elt_size ty) (tolerance ty red) results expected elt_n = bad ty expected" for expected
    unfolding bad_def using verify_elts_counts [OF assms(1) sz, of "tolerance ty red" results expected] by (simp only: tol)
  have all: "list_all (\<lambda>i. gen ty i \<noteq> None) [0..elt_n - 1] \<longleftrightarrow> (\<forall>i. 0 \<le> i \<and> i < elt_n \<longrightarrow> gen ty i \<noteq> None)"
    by (auto simp: list_all_iff)
  have "ncclVerifiableVerify results (Some expected) elt_n (Some ty) red n seed ix0 = Inr (Some (bad ty expected))"
    by (simp only: ncclVerifiableVerify_def option.case count)
  moreover have "ncclVerifiableVerify results None elt_n (Some ty) red n seed ix0 =
      (if \<forall>i. 0 \<le> i \<and> i < elt_n \<longrightarrow> gen ty i \<noteq> None then Inr (Some (bad ty (\<lambda>i. the (gen ty i)))) else Inr None)"
    using all [unfolded gen_def] by (simp only: ncclVerifiableVerify_def Let_def option.case count gen_def)
  moreover have "ncclVerifiableVerify results e elt_n elt_ty red n seed ix0 = Inl AssertionFailed \<longleftrightarrow> elt_ty = None"
    by (auto simp: ncclVerifiableVerify_def Let_def split: option.splits if_splits)
  ultimately show ?thesis by blast
qed

theorem verify_reports_count_witness:
  "ncclVerifiableVerify (\<lambda>i. 7) (Some (\<lambda>i. 5)) 3 (Some NcclFloat16) NcclAvg 4 0 0 = Inr (Some 0)
  \<and> ncclVerifiableVerify (\<lambda>i. 7) None 3 None NcclAvg 4 0 0 = Inl AssertionFailed"
  using verify_reports_count [of 3 "\<lambda>i. 7" "\<lambda>i. 5" NcclFloat16 NcclAvg 4 0 0 None None]
  by (simp add: elt_pattern_def)

text \<open>Comparing with a buffer of prepared expected values gives the same count as computing the expected
  values on the fly.\<close>

theorem prepared_equals_inline:
  assumes "0 \<le> elt_n" and "mset sched = mset (launch_indices elt_n (grid_size elt_n) 512)"
    and "ncclVerifiablePrepareExpected sched elts elt_n (Some ty) red n seed ix0 = Inr (Some e)"
  shows "ncclVerifiableVerify results (Some e) elt_n (Some ty) red n seed ix0 =
    ncclVerifiableVerify results None elt_n (Some ty) red n seed ix0"
proof -
  let ?gen = "\<lambda>i. gen_output ty (case_op red n) n seed (ix0 + u64_of_int i)"
  have sz: "elt_size ty \<in> {1, 2, 4, 8}" by (cases ty) simp_all
  have some: "list_all (\<lambda>i. ?gen i \<noteq> None) [0..elt_n - 1]" and eq: "0 \<le> i \<Longrightarrow> i < elt_n \<Longrightarrow> e i = the (?gen i)" for i
  proof -
    consider "elt_n = 0" | "0 < grid_size elt_n" using grid_size_pos [OF assms(1)] by linarith
    then have "list_all (\<lambda>i. ?gen i \<noteq> None) [0..elt_n - 1] \<and> (0 \<le> i \<longrightarrow> i < elt_n \<longrightarrow> e i = the (?gen i))"
    proof cases
      case 2
      have s: "set sched = {0..<elt_n}"
        using assms(2) launch_once(1) [OF assms(1) 2, of 512] by (metis set_mset_mset zero_less_numeral)
      from assms(3) 2 have all: "\<forall>i\<in>set sched. ?gen i \<noteq> None"
        and e: "e = store_kernel sched (\<lambda>i. the (?gen i)) elts"
        by (auto simp: ncclVerifiablePrepareExpected_def fill_buffer_def list_all_iff split: if_splits)
      show ?thesis using all s by (auto simp: list_all_iff e store_kernel_apply)
    qed simp
    then show "list_all (\<lambda>i. ?gen i \<noteq> None) [0..elt_n - 1]" "0 \<le> i \<Longrightarrow> i < elt_n \<Longrightarrow> e i = the (?gen i)"
      by blast+
  qed
  have "{i. 0 \<le> i \<and> i < elt_n \<and> int (unat (tolerance ty red)) <
        \<bar>elt_pattern (elt_size ty) (results i) - elt_pattern (elt_size ty) (e i)\<bar>} =
      {i. 0 \<le> i \<and> i < elt_n \<and> int (unat (tolerance ty red)) <
        \<bar>elt_pattern (elt_size ty) (results i) - elt_pattern (elt_size ty) (the (?gen i))\<bar>}"
    using eq by auto
  then show ?thesis
    using some by (simp only: ncclVerifiableVerify_def Let_def option.case verify_elts_counts [OF assms(1) sz] if_True)
qed

theorem prepared_equals_inline_witness:
  "\<exists>e. ncclVerifiableVerify (\<lambda>_. 3) (Some e) 4 (Some NcclInt32) NcclSum 3 9 0 =
    ncclVerifiableVerify (\<lambda>_. 3) None 4 (Some NcclInt32) NcclSum 3 9 0"
proof -
  let ?s = "launch_indices 4 (grid_size 4) 512"
  have "gen_output NcclInt32 op m s x \<noteq> None" for op m s x by (simp add: gen_output_def)
  then have "list_all (\<lambda>i. gen_output NcclInt32 op m s (f i) \<noteq> None) xs" for op m s f and xs :: "int list"
    by (simp add: list_all_iff)
  then obtain e where "ncclVerifiablePrepareExpected ?s (\<lambda>_. 0) 4 (Some NcclInt32) NcclSum 3 9 0 = Inr (Some e)"
    unfolding ncclVerifiablePrepareExpected_def fill_buffer_def by (cases "grid_size 4 = 0") auto
  from prepared_equals_inline [OF _ refl this] show ?thesis by auto
qed

text \<open>C2: what the module is for. When every element of the result is the reduction of the generated inputs in some
  tree of the ranks (not necessarily the same for all elements), the verifier reports no bad element, for
  every type and reduction the generators have enough units for.\<close>

theorem correct_reduction_passes:
  assumes "0 < n" "n < 2 ^ 31" "0 \<le> elt_n" and "enough_units ty red n"
    and "\<And>i. 0 \<le> i \<Longrightarrow> i < elt_n \<Longrightarrow> set (leaves (t i)) = {0..<n} \<and> distinct (leaves (t i)) \<and>
      elt_reduction ty (case_op red n) n seed (ix0 + u64_of_int i) (t i) = Some (results i)"
  shows "ncclVerifiableVerify results None elt_n (Some ty) red n seed ix0 = Inr (Some 0)"
proof -
  let ?gen = "\<lambda>i. gen_output ty (case_op red n) n seed (ix0 + u64_of_int i)"
  have sz: "elt_size ty \<in> {1, 2, 4, 8}" by (cases ty) simp_all
  have gen: "?gen i = Some (results i)" if "0 \<le> i" "i < elt_n" for i
    using elt_reduction_expected [OF assms(1,2,4), of "t i" seed "ix0 + u64_of_int i"] assms(5) [OF that] by auto
  then have "{i. 0 \<le> i \<and> i < elt_n \<and>
      int (unat (tolerance ty red)) < \<bar>elt_pattern (elt_size ty) (results i) - elt_pattern (elt_size ty) (the (?gen i))\<bar>} = {}"
    by auto
  moreover have "list_all (\<lambda>i. ?gen i \<noteq> None) [0..elt_n - 1]" using gen by (simp add: list_all_iff)
  ultimately show ?thesis
    by (simp only: ncclVerifiableVerify_def Let_def option.case verify_elts_counts [OF assms(3) sz] if_True
        card.empty semiring_1_class.of_nat_0)
qed

theorem correct_reduction_passes_witness:
  "\<exists>results. ncclVerifiableVerify results None 2 (Some NcclFloat32) NcclSum 3 5 0 = Inr (Some 0)"
proof -
  let ?t = "Join (Rank 1) (Join (Rank 2) (Rank 0))"
  have s: "{1, 2, 0} = {0..<3::int}" by auto
  define results where "results i = the (elt_reduction NcclFloat32 (case_op NcclSum 3) 3 5 (0 + u64_of_int i) ?t)" for i
  have u: "enough_units NcclFloat32 NcclSum 3" by (simp add: enough_units_def float32_def)
  have "elt_reduction NcclFloat32 (case_op NcclSum 3) 3 5 (0 + u64_of_int i) ?t = Some (results i)" for i
    using elt_reduction_expected [OF _ _ u, of ?t 5 "0 + u64_of_int i"] s by (auto simp: results_def)
  then show ?thesis
    using correct_reduction_passes [of 3 2 NcclFloat32 NcclSum "\<lambda>_. ?t" 5 0 results] u s by auto
qed

end
