(* ===== verification/HostArgs.thy ===== *)
theory HostArgs
  imports VerifEntry
begin

unbundle bit_operations_syntax

text \<open>
  The harness of src/common.h and src/common.cu, first part: result codes, element sizes, the
  command line parameters, the arguments of a test thread, the sizes a collective is run with
  (\<open>setupArgs\<close>), the pointers and offsets one call of it gets (\<open>startColl\<close>), and the buffers that
  were allocated for it (\<open>AllocateBuffs\<close>). The size arithmetic is that of \<open>size_t\<close>, on \<^typ>\<open>u64\<close>;
  a division by zero is the value \<^const>\<open>None\<close>.
\<close>

section \<open>Results and sizes of elements\<close>

datatype testResult = TestSuccess | TestInternalError | TestCudaError | TestNcclError
  | TestTimeout | TestNotImplemented | TestInvalidUsage | TestNumResults

fun wordSize :: "elt_type \<Rightarrow> u64" where
  "wordSize NcclInt8 = 1" | "wordSize NcclUint8 = 1"
| "wordSize NcclFloat8e4m3 = 1" | "wordSize NcclFloat8e5m2 = 1"
| "wordSize NcclFloat16 = 2" | "wordSize NcclBfloat16 = 2"
| "wordSize NcclInt32 = 4" | "wordSize NcclFloat32 = 4" | "wordSize NcclUint32 = 4"
| "wordSize NcclInt64 = 8" | "wordSize NcclUint64 = 8" | "wordSize NcclFloat64 = 8"

section \<open>Command line parameters and thread arguments\<close>

text \<open>The parameters of the command line the modelled code depends on.\<close>

record options =
  opt_nThreads :: int
  opt_nGpus :: int
  opt_minBytes :: u64
  opt_maxBytes :: u64
  opt_stepBytes :: u64
  opt_stepFactor :: u64
  opt_datacheck :: int
  opt_iters :: int
  opt_agg_iters :: int
  opt_blocking_coll :: int
  opt_per_iter_timing :: int
  opt_per_iter_skip :: int
  opt_cudaGraphLaunches :: int
  opt_deviceImpl :: int
  opt_hostRmaImpl :: bool
  opt_unalign :: int
  opt_rmaCtxCount :: int
  opt_local_register :: int
  opt_warmup_iters :: int
  opt_timeout :: int
  opt_run_cycles :: int
  opt_average :: int
  opt_report_cputime :: int
  opt_parallel_init :: int
  opt_ncclop :: int
  opt_nccltype :: int
  opt_ncclroot :: int
  opt_streamnull :: int
  opt_report_timestamps :: int
  opt_memory_report :: int
  opt_tuning :: int
  opt_deviceCtaCount :: int
  opt_ctaPolicy :: int

definition default_options :: options where
  "default_options = \<lparr>opt_nThreads = 1, opt_nGpus = 1, opt_minBytes = 32 * 1024 * 1024, opt_maxBytes = 32 * 1024 * 1024,
     opt_stepBytes = 1 * 1024 * 1024, opt_stepFactor = 1, opt_datacheck = 1, opt_iters = 20, opt_agg_iters = 1,
     opt_blocking_coll = 0, opt_per_iter_timing = 0, opt_per_iter_skip = 0, opt_cudaGraphLaunches = 0,
     opt_deviceImpl = 0, opt_hostRmaImpl = False, opt_unalign = 0, opt_rmaCtxCount = 1, opt_local_register = 0,
     opt_warmup_iters = 1, opt_timeout = 0, opt_run_cycles = 1, opt_average = 1, opt_report_cputime = 0,
     opt_parallel_init = 0, opt_ncclop = 0, opt_nccltype = 7, opt_ncclroot = 0, opt_streamnull = 0, opt_report_timestamps = 0,
     opt_memory_report = 0, opt_tuning = 0, opt_deviceCtaCount = 16, opt_ctaPolicy = - 1\<rparr>"

text \<open>The fields of \<open>struct threadArgs\<close> that hold numbers; buffers are modelled where they are used.\<close>

record threadArgs =
  nbytes :: u64
  minbytes :: u64
  maxbytes :: u64
  stepbytes :: u64
  stepfactor :: u64
  totalProcs :: int
  nProcs :: int
  proc :: int
  nThreads :: int
  thread :: int
  nGpus :: int
  sendBytes :: u64
  sendInplaceOffset :: u64
  recvInplaceOffset :: u64
  expectedBytes :: u64
  errors :: int
  reportErrors :: int

definition nranks_of :: "threadArgs \<Rightarrow> int" where
  "nranks_of args = nProcs args * nThreads args * nGpus args"

text \<open>The rank of the \<open>i\<close>-th GPU of a thread.\<close>

definition rank_of :: "threadArgs \<Rightarrow> int \<Rightarrow> int" where
  "rank_of args i = (proc args * nThreads args + thread args) * nGpus args + i"

section \<open>The sizes of a run\<close>

text \<open>What \<open>getCollByteCount\<close> returns through its pointers, in elements.\<close>

record coll_counts =
  sendcount :: u64
  recvcount :: u64
  paramcount :: u64
  sendInplace :: u64
  recvInplace :: u64

definition setupArgs :: "(u64 \<Rightarrow> u64 \<Rightarrow> u64 \<Rightarrow> coll_counts) \<Rightarrow> u64 \<Rightarrow> elt_type \<Rightarrow> threadArgs \<Rightarrow> threadArgs" where
  "setupArgs getCollByteCount bytes ty args =
     (let count = bytes div wordSize ty;
          c = getCollByteCount count (wordSize ty) (u64_of_int (nranks_of args))
      in args\<lparr>nbytes := paramcount c * wordSize ty,
              sendBytes := sendcount c * wordSize ty,
              expectedBytes := recvcount c * wordSize ty,
              sendInplaceOffset := sendInplace c * wordSize ty,
              recvInplaceOffset := recvInplace c * wordSize ty\<rparr>)"

text \<open>The bytes allocated for the send and for the receive buffer.\<close>

definition alloc_bytes :: "options \<Rightarrow> u64 \<Rightarrow> u64" where
  "alloc_bytes o' bytes = bytes + u64_of_int (8 * opt_unalign o')"

section \<open>One call of a collective\<close>

text \<open>
  The arguments of \<open>runColl\<close>. A pointer is its distance from the start of the allocation it points
  into (a window handle stands for the start), \<open>call_in_recv\<close> says that the send pointer points
  into the receive buffer.
\<close>

record coll_call =
  call_in_recv :: bool
  call_send :: u64
  call_sendoffset :: u64
  call_recv :: u64
  call_recvoffset :: u64
  call_count :: u64
  call_impl :: int

definition HOST_RMA_IMPL :: int where
  "HOST_RMA_IMPL = 10"

definition coll_shift :: "threadArgs \<Rightarrow> int \<Rightarrow> u64 option" where
  "coll_shift args iter =
     (let totalnbytes = max (sendBytes args) (expectedBytes args);
          steps = (if totalnbytes \<noteq> 0 then maxbytes args div totalnbytes else 1)
      in if steps = 0 then None else Some (totalnbytes * (u64_of_int iter mod steps)))"

text \<open>
  \<open>misalign\<close> is what \<open>TimeTest\<close> has added to the buffer pointers before the run.
\<close>

definition start_call :: "options \<Rightarrow> threadArgs \<Rightarrow> u64 \<Rightarrow> elt_type \<Rightarrow> bool \<Rightarrow> int \<Rightarrow> int \<Rightarrow> coll_call option" where
  "start_call o' args misalign ty in_place iter i =
     (let count = nbytes args div wordSize ty;
          unalignBytes = u64_of_int (opt_unalign o') * wordSize ty;
          rank = u64_of_int (rank_of args i);
          sendin = (if in_place then sendInplaceOffset args * rank else 0);
          recvin = (if in_place then recvInplaceOffset args * rank else 0)
      in map_option (\<lambda>shift.
           if opt_hostRmaImpl o' then
             \<lparr>call_in_recv = in_place, call_send = 0, call_sendoffset = shift + sendin + unalignBytes,
              call_recv = 0, call_recvoffset = shift + recvin + unalignBytes, call_count = count, call_impl = HOST_RMA_IMPL\<rparr>
           else if opt_deviceImpl o' = 0 then
             \<lparr>call_in_recv = in_place, call_send = misalign + shift, call_sendoffset = sendin,
              call_recv = misalign + shift, call_recvoffset = recvin, call_count = count, call_impl = 0\<rparr>
           else
             \<lparr>call_in_recv = in_place, call_send = 0, call_sendoffset = shift + sendin + unalignBytes,
              call_recv = 0, call_recvoffset = shift + recvin + unalignBytes, call_count = count, call_impl = opt_deviceImpl o'\<rparr>)
         (coll_shift args iter))"

text \<open>The calls \<open>startColl\<close> makes, one for every GPU of the thread.\<close>

definition startColl :: "options \<Rightarrow> threadArgs \<Rightarrow> u64 \<Rightarrow> elt_type \<Rightarrow> bool \<Rightarrow> int \<Rightarrow> coll_call list option" where
  "startColl o' args misalign ty in_place iter =
     those (map (start_call o' args misalign ty in_place iter) [0..nGpus args - 1])"

definition time_test_misalign :: "options \<Rightarrow> elt_type \<Rightarrow> u64" where
  "time_test_misalign o' ty = u64_of_int (opt_unalign o') * wordSize ty"

section \<open>Element sizes\<close>

definition elt_width :: "nat \<Rightarrow> bool" where
  "elt_width e \<longleftrightarrow> e \<in> {1, 2, 4, 8}"

lemma wordSize_elt_size: "int (unat (wordSize ty)) = elt_size ty"
  by (cases ty) simp_all

lemma wordSize_width [simp, intro]: "elt_width (unat (wordSize ty))"
  by (cases ty) (simp_all add: elt_width_def)

lemma wordSize_pos [simp]: "0 < unat (wordSize ty)" and wordSize_nonzero [simp]: "wordSize ty \<noteq> 0"
  by (cases ty; simp)+

text \<open>The mask \<open>~(16/eltSize - 1)\<close> rounds down to a multiple of 16 bytes.\<close>

lemma unat_and_not_mask: "unat (w AND NOT (mask k) :: 'a::len word) = unat w div 2 ^ k * 2 ^ k"
proof -
  let ?x = "uint w"
  have "uint (w AND NOT (mask k)) = ?x AND NOT (mask k)"
    by (rule bit_eqI) (auto simp: bit_simps dest: bit_imp_le_length)
  moreover have "?x = (?x AND NOT (mask k)) + (?x AND mask k)"
  proof -
    have "(?x AND NOT (mask k)) AND (?x AND mask k) = 0" by (rule bit_eqI) (auto simp: bit_simps)
    then have "(?x AND NOT (mask k)) + (?x AND mask k) = (?x AND NOT (mask k)) OR (?x AND mask k)"
      by (rule disjunctive_add_eq_or)
    also have "\<dots> = ?x" by (rule bit_eqI) (auto simp: bit_simps)
    finally show ?thesis by simp
  qed
  moreover have "?x AND mask k = ?x mod 2 ^ k" by (simp add: take_bit_eq_mask [symmetric] take_bit_eq_mod)
  ultimately have "uint (w AND NOT (mask k)) = ?x div 2 ^ k * 2 ^ k"
    using minus_mod_eq_div_mult [of ?x "2 ^ k"] by linarith
  then have "int (unat (w AND NOT (mask k))) = int (unat w div 2 ^ k * 2 ^ k)"
    by (simp only: uint_nat zdiv_int of_nat_mult of_nat_power of_nat_numeral)
  then show ?thesis by (simp only: of_nat_eq_iff)
qed

end
