(* ===== verification/HostColl.thy ===== *)
theory HostColl
  imports HostArgs
begin

unbundle bit_operations_syntax

text \<open>
  The tests of src/*.cu as the harness sees them, first part: the functions \<open>GetCollByteCount\<close> and
  \<open>GetBuffSize\<close> of every collective, the contract between these sizes and the buffers of the
  harness (locale \<open>sized_collective\<close>), and its consequence: every call of every collective stays
  inside the memory allocated for it.
\<close>

section \<open>Sizes of the collectives\<close>

definition base_count :: "u64 \<Rightarrow> u64 \<Rightarrow> u64 \<Rightarrow> u64" where
  "base_count cnt eltSize nranks = (cnt div nranks) AND NOT (16 div eltSize - 1)"

definition AllGatherGetCollByteCount :: "u64 \<Rightarrow> u64 \<Rightarrow> u64 \<Rightarrow> coll_counts" where
  "AllGatherGetCollByteCount cnt eltSize nranks =
     (let base = base_count cnt eltSize nranks
      in \<lparr>sendcount = base, recvcount = base * nranks, paramcount = base, sendInplace = base, recvInplace = 0\<rparr>)"

definition ReduceScatterGetCollByteCount :: "u64 \<Rightarrow> u64 \<Rightarrow> u64 \<Rightarrow> coll_counts" where
  "ReduceScatterGetCollByteCount cnt eltSize nranks =
     (let base = base_count cnt eltSize nranks
      in \<lparr>sendcount = base * nranks, recvcount = base, paramcount = base, sendInplace = 0, recvInplace = base\<rparr>)"

definition AllReduceGetCollByteCount :: "u64 \<Rightarrow> u64 \<Rightarrow> u64 \<Rightarrow> coll_counts" where
  "AllReduceGetCollByteCount cnt eltSize nranks =
     \<lparr>sendcount = cnt, recvcount = cnt, paramcount = cnt, sendInplace = 0, recvInplace = 0\<rparr>"

definition BroadcastGetCollByteCount :: "u64 \<Rightarrow> u64 \<Rightarrow> u64 \<Rightarrow> coll_counts" where
  "BroadcastGetCollByteCount cnt eltSize nranks =
     \<lparr>sendcount = cnt, recvcount = cnt, paramcount = cnt, sendInplace = 0, recvInplace = 0\<rparr>"

definition ReduceGetCollByteCount :: "u64 \<Rightarrow> u64 \<Rightarrow> u64 \<Rightarrow> coll_counts" where
  "ReduceGetCollByteCount cnt eltSize nranks =
     \<lparr>sendcount = cnt, recvcount = cnt, paramcount = cnt, sendInplace = 0, recvInplace = 0\<rparr>"

definition SendRecvGetCollByteCount :: "u64 \<Rightarrow> u64 \<Rightarrow> u64 \<Rightarrow> coll_counts" where
  "SendRecvGetCollByteCount cnt eltSize nranks =
     \<lparr>sendcount = cnt, recvcount = cnt, paramcount = cnt, sendInplace = 0, recvInplace = 0\<rparr>"

definition GatherGetCollByteCount :: "u64 \<Rightarrow> u64 \<Rightarrow> u64 \<Rightarrow> coll_counts" where
  "GatherGetCollByteCount cnt eltSize nranks =
     (let s = base_count cnt eltSize nranks
      in \<lparr>sendcount = s, recvcount = s * nranks, paramcount = s, sendInplace = s, recvInplace = 0\<rparr>)"

definition ScatterGetCollByteCount :: "u64 \<Rightarrow> u64 \<Rightarrow> u64 \<Rightarrow> coll_counts" where
  "ScatterGetCollByteCount cnt eltSize nranks =
     (let r = base_count cnt eltSize nranks
      in \<lparr>sendcount = r * nranks, recvcount = r, paramcount = r, sendInplace = 0, recvInplace = r\<rparr>)"

definition HyperCubeGetCollByteCount :: "u64 \<Rightarrow> u64 \<Rightarrow> u64 \<Rightarrow> coll_counts" where
  "HyperCubeGetCollByteCount cnt eltSize nranks =
     (let base = base_count cnt eltSize nranks
      in \<lparr>sendcount = base, recvcount = base * nranks, paramcount = base, sendInplace = base, recvInplace = 0\<rparr>)"

definition AlltoAllGetCollByteCount :: "u64 \<Rightarrow> u64 \<Rightarrow> u64 \<Rightarrow> coll_counts" where
  "AlltoAllGetCollByteCount cnt eltSize nranks =
     (let p = base_count cnt eltSize nranks
      in \<lparr>sendcount = nranks * p, recvcount = nranks * p, paramcount = p, sendInplace = 0, recvInplace = 0\<rparr>)"


text \<open>The tables \<open>struct testColl\<close>.\<close>

datatype testColl = AllReduceTest | AllGatherTest | ReduceScatterTest | BroadcastTest | ReduceTest
  | GatherTest | ScatterTest | SendRecvTest | HyperCubeTest | AlltoAllTest

fun getCollByteCount :: "testColl \<Rightarrow> u64 \<Rightarrow> u64 \<Rightarrow> u64 \<Rightarrow> coll_counts" where
  "getCollByteCount AllReduceTest = AllReduceGetCollByteCount"
| "getCollByteCount AllGatherTest = AllGatherGetCollByteCount"
| "getCollByteCount ReduceScatterTest = ReduceScatterGetCollByteCount"
| "getCollByteCount BroadcastTest = BroadcastGetCollByteCount"
| "getCollByteCount ReduceTest = ReduceGetCollByteCount"
| "getCollByteCount GatherTest = GatherGetCollByteCount"
| "getCollByteCount ScatterTest = ScatterGetCollByteCount"
| "getCollByteCount SendRecvTest = SendRecvGetCollByteCount"
| "getCollByteCount HyperCubeTest = HyperCubeGetCollByteCount"
| "getCollByteCount AlltoAllTest = AlltoAllGetCollByteCount"

text \<open>The send and receive count of \<open>getBuffSize\<close>: the counts for elements of one byte.\<close>

definition getBuffSize :: "testColl \<Rightarrow> u64 \<Rightarrow> u64 \<Rightarrow> u64 \<times> u64" where
  "getBuffSize t bytes nranks =
     (let c = getCollByteCount t bytes 1 nranks in (sendcount c, recvcount c))"

section \<open>Rounding down to 16 bytes\<close>

lemma unat_base_count:
  assumes "elt_width (unat e)"
  shows "unat (base_count c e n) = unat c div unat n div (16 div unat e) * (16 div unat e)"
proof -
  have e: "e = 1 \<or> e = 2 \<or> e = 4 \<or> e = 8"
    using assms by (auto simp: elt_width_def word_unat_eq_iff)
  have m: "16 div (1::u64) - 1 = mask 4" "16 div (2::u64) - 1 = mask 3" "16 div (4::u64) - 1 = mask 2"
    "16 div (8::u64) - 1 = mask 1" by (simp_all add: mask_eq_exp_minus_1)
  have n: "16 div unat (1::u64) = 2 ^ 4" "16 div unat (2::u64) = 2 ^ 3" "16 div unat (4::u64) = 2 ^ 2"
    "16 div unat (8::u64) = 2 ^ 1" by simp_all
  from e show ?thesis unfolding base_count_def
    by (elim disjE; hypsubst; simp only: m n unat_and_not_mask unat_div)
qed

lemma base_count_le: "elt_width (unat e) \<Longrightarrow> unat (base_count c e n) \<le> unat c div unat n"
  by (simp only: unat_base_count div_times_less_eq_dividend)

lemma base_count_times_le: "elt_width (unat e) \<Longrightarrow> unat (base_count c e n) * unat n \<le> unat c"
  by (rule order_trans [OF mult_le_mono1 [OF base_count_le]]) (simp_all add: div_times_less_eq_dividend)

lemma base_count_times: "elt_width (unat e) \<Longrightarrow> unat (base_count c e n * n) = unat (base_count c e n) * unat n"
  by (rule unat_mult_small) (rule order_le_less_trans [OF base_count_times_le unsigned_less])

text \<open>Counted in bytes, the rounded count of elements is covered by the rounded count of bytes.\<close>

lemma base_count_bytes:
  assumes e: "elt_width (unat e)" and le: "unat c * unat e \<le> unat b"
  shows "unat (base_count c e n) * unat e \<le> unat (base_count b 1 n)"
proof -
  define k where "k = 16 div unat e"
  have k: "k * unat e = 16" "unat e dvd 16" using e by (auto simp: k_def elt_width_def)
  have "unat c div unat n div k = unat c * unat e div (unat n * k * unat e)"
    using k by (cases "unat e = 0") (simp_all add: div_mult2_eq [symmetric])
  also have "\<dots> = unat c * unat e div unat n div 16"
    by (simp only: mult.assoc k div_mult2_eq)
  also have "\<dots> \<le> unat b div unat n div 16" by (intro div_le_mono le)
  finally have "unat c div unat n div k * (k * unat e) \<le> unat b div unat n div 16 * 16"
    by (simp only: k mult_le_mono1)
  moreover have "unat (base_count b 1 n) = unat b div unat n div 16 * 16"
    using unat_base_count [of 1 b n] by (simp add: elt_width_def)
  ultimately show ?thesis
    using e by (simp only: unat_base_count k_def mult.assoc)
qed

section \<open>The contract between the sizes and the buffers\<close>

text \<open>
  What the harness relies on: the counts fit into the size of the run; with its in-place offset
  every rank's share lies inside the larger of the two counts; and the expected values fit into
  the buffer whose size is computed from the byte count alone.
\<close>

locale sized_collective =
  fixes get_counts :: "u64 \<Rightarrow> u64 \<Rightarrow> u64 \<Rightarrow> coll_counts"
  assumes counts_le: "elt_width (unat e) \<Longrightarrow> unat (sendcount (get_counts c e n)) \<le> unat c \<and>
      unat (recvcount (get_counts c e n)) \<le> unat c \<and> unat (paramcount (get_counts c e n)) \<le> unat c"
    and send_in_place: "elt_width (unat e) \<Longrightarrow> r < unat n \<Longrightarrow>
      unat (sendInplace (get_counts c e n)) * r + unat (sendcount (get_counts c e n))
        \<le> max (unat (sendcount (get_counts c e n))) (unat (recvcount (get_counts c e n)))"
    and recv_in_place: "elt_width (unat e) \<Longrightarrow> r < unat n \<Longrightarrow>
      unat (recvInplace (get_counts c e n)) * r + unat (recvcount (get_counts c e n))
        \<le> max (unat (sendcount (get_counts c e n))) (unat (recvcount (get_counts c e n)))"
    and expected_fits: "elt_width (unat e) \<Longrightarrow> unat c * unat e \<le> unat b \<Longrightarrow>
      unat (recvcount (get_counts c e n)) * unat e \<le> unat (recvcount (get_counts b 1 n))"
begin

lemma in_place_le:
  assumes "elt_width (unat e)" "r < unat n"
  shows "unat (sendInplace (get_counts c e n)) * r + unat (sendcount (get_counts c e n)) \<le> unat c"
    and "unat (recvInplace (get_counts c e n)) * r + unat (recvcount (get_counts c e n)) \<le> unat c"
  using send_in_place [OF assms, of c] recv_in_place [OF assms, of c] counts_le [OF assms(1), of c n] by linarith+

end

lemma share_in_place: "unat b * r + unat b \<le> unat b * n" if "r < n" for b :: u64
proof -
  have "unat b * Suc r \<le> unat b * n" using that by (intro mult_le_mono2) simp
  then show ?thesis by simp
qed

lemma base_count_fits:
  assumes "elt_width (unat e)" "unat c * unat e \<le> unat b"
  shows "unat (base_count c e n) * unat n * unat e \<le> unat (base_count b 1 n) * unat n"
  using mult_le_mono1 [OF base_count_bytes [OF assms, of n], of "unat n"] by (simp only: ac_simps)

lemma elt_width_1 [simp]: "elt_width (unat (1::u64))" "elt_width (Suc 0)"
  by (simp_all add: elt_width_def)

lemmas count_defs = AllGatherGetCollByteCount_def ReduceScatterGetCollByteCount_def AllReduceGetCollByteCount_def
  BroadcastGetCollByteCount_def ReduceGetCollByteCount_def SendRecvGetCollByteCount_def GatherGetCollByteCount_def
  ScatterGetCollByteCount_def HyperCubeGetCollByteCount_def AlltoAllGetCollByteCount_def

lemma base_count_times': "elt_width (unat e) \<Longrightarrow> unat (n * base_count c e n) = unat (base_count c e n) * unat n"
  using base_count_times by (simp only: mult.commute)

lemmas base_count_simps = base_count_times base_count_times' base_count_times_le
  order_trans [OF base_count_le div_le_dividend] share_in_place base_count_bytes base_count_fits

interpretation sized: sized_collective "getCollByteCount t" for t
proof unfold_locales
  fix c e n b :: u64 and r
  assume e: "elt_width (unat e)"
  note simps = count_defs Let_def base_count_times [OF e] base_count_times' [OF e] base_count_times_le [OF e]
    order_trans [OF base_count_le [OF e] div_le_dividend]
  show "unat (sendcount (getCollByteCount t c e n)) \<le> unat c \<and> unat (recvcount (getCollByteCount t c e n)) \<le> unat c \<and>
      unat (paramcount (getCollByteCount t c e n)) \<le> unat c"
    by (cases t) (simp_all add: simps)
  show "unat (recvcount (getCollByteCount t c e n)) * unat e \<le> unat (recvcount (getCollByteCount t b 1 n))"
    if "unat c * unat e \<le> unat b"
    using base_count_bytes [OF e that, of n] base_count_fits [OF e that, of n] that
    by (cases t) (simp_all add: simps base_count_times base_count_times' del: unsigned_1)
  show "unat (sendInplace (getCollByteCount t c e n)) * r + unat (sendcount (getCollByteCount t c e n))
      \<le> max (unat (sendcount (getCollByteCount t c e n))) (unat (recvcount (getCollByteCount t c e n)))" if "r < unat n"
    using share_in_place [OF that] by (cases t) (simp_all add: simps le_max_iff_disj)
  show "unat (recvInplace (getCollByteCount t c e n)) * r + unat (recvcount (getCollByteCount t c e n))
      \<le> max (unat (sendcount (getCollByteCount t c e n))) (unat (recvcount (getCollByteCount t c e n)))" if "r < unat n"
    using share_in_place [OF that] by (cases t) (simp_all add: simps le_max_iff_disj)
qed

section \<open>Ranks\<close>

definition wf_args :: "threadArgs \<Rightarrow> bool" where
  "wf_args args \<longleftrightarrow> 0 < nProcs args \<and> 0 < nThreads args \<and> 0 < nGpus args \<and> nranks_of args < 2 ^ 31
     \<and> 0 \<le> proc args \<and> proc args < nProcs args \<and> 0 \<le> thread args \<and> thread args < nThreads args"

lemma mixed_radix:
  fixes a b n :: int
  assumes "0 \<le> a" "a < m" "0 \<le> b" "b < n"
  shows "0 \<le> a * n + b" "a * n + b < m * n"
proof -
  show "0 \<le> a * n + b" using assms by simp
  have "(a + 1) * n \<le> m * n" using assms by (intro mult_right_mono) simp_all
  with assms(4) show "a * n + b < m * n" by (simp add: algebra_simps)
qed

lemma rank_of_range:
  assumes "wf_args args" "0 \<le> i" "i < nGpus args"
  shows "0 \<le> rank_of args i" "rank_of args i < nranks_of args"
proof -
  have "0 \<le> proc args * nThreads args + thread args" "proc args * nThreads args + thread args < nProcs args * nThreads args"
    using assms by (auto simp: wf_args_def intro: mixed_radix)
  from mixed_radix [OF this assms(2,3)]
  show "0 \<le> rank_of args i" "rank_of args i < nranks_of args"
    by (simp_all add: rank_of_def nranks_of_def)
qed

lemma nranks_word:
  assumes "wf_args args"
  shows "unat (u64_of_int (nranks_of args)) = nat (nranks_of args)" "0 < nat (nranks_of args)"
proof -
  have "0 < nranks_of args" using assms by (simp add: wf_args_def nranks_of_def)
  moreover have "nranks_of args < 2 ^ 64"
    using assms by (simp add: wf_args_def)
  ultimately show "unat (u64_of_int (nranks_of args)) = nat (nranks_of args)" "0 < nat (nranks_of args)"
    by (auto intro: unat_word_of_int_small)
qed

lemma rank_word:
  assumes "wf_args args" "0 \<le> i" "i < nGpus args"
  shows "unat (u64_of_int (rank_of args i)) < unat (u64_of_int (nranks_of args))"
proof -
  have "rank_of args i < 2 ^ 64" using rank_of_range [OF assms] assms(1) by (simp add: wf_args_def)
  then have "unat (u64_of_int (rank_of args i)) = nat (rank_of args i)"
    using rank_of_range [OF assms] by (intro unat_word_of_int_small) simp_all
  with rank_of_range [OF assms] show ?thesis by (simp add: nranks_word [OF assms(1)])
qed

section \<open>Byte counts of a run\<close>

lemma setupArgs_ranks [simp]:
  "rank_of (setupArgs g b ty args) = rank_of args" "nranks_of (setupArgs g b ty args) = nranks_of args"
  "maxbytes (setupArgs g b ty args) = maxbytes args" "nGpus (setupArgs g b ty args) = nGpus args"
  "wf_args (setupArgs g b ty args) = wf_args args"
  by (simp_all add: setupArgs_def Let_def rank_of_def [abs_def] nranks_of_def wf_args_def)

lemma unat_times_word:
  assumes "unat x \<le> unat (b div ws)"
  shows "unat (x * ws) = unat x * unat ws" "unat x * unat ws \<le> unat (b :: u64)"
proof -
  have "unat x * unat ws \<le> unat b div unat ws * unat ws"
    using assms by (intro mult_le_mono1) (simp only: unat_div)
  also have "\<dots> \<le> unat b" by simp
  finally show le: "unat x * unat ws \<le> unat b" .
  show "unat (x * ws) = unat x * unat ws"
    by (rule unat_mult_small) (rule order_le_less_trans [OF le unsigned_less])
qed

text \<open>The counts of the run \<open>bytes\<close> at type \<open>ty\<close>.\<close>

abbreviation run_counts :: "testColl \<Rightarrow> u64 \<Rightarrow> elt_type \<Rightarrow> threadArgs \<Rightarrow> coll_counts" where
  "run_counts t b ty args \<equiv> getCollByteCount t (b div wordSize ty) (wordSize ty) (u64_of_int (nranks_of args))"

lemma setupArgs_bytes:
  fixes t ty args b
  defines "a \<equiv> setupArgs (getCollByteCount t) b ty args" and "c \<equiv> run_counts t b ty args"
  shows "unat (sendBytes a) = unat (sendcount c) * unat (wordSize ty)" "unat (sendBytes a) \<le> unat b"
    and "unat (expectedBytes a) = unat (recvcount c) * unat (wordSize ty)" "unat (expectedBytes a) \<le> unat b"
    and "unat (nbytes a) = unat (paramcount c) * unat (wordSize ty)" "unat (nbytes a) \<le> unat b"
proof -
  note le = sized.counts_le [OF wordSize_width [of ty], of t "b div wordSize ty" "u64_of_int (nranks_of args)"]
  have f: "sendBytes a = sendcount c * wordSize ty" "expectedBytes a = recvcount c * wordSize ty"
    "nbytes a = paramcount c * wordSize ty"
    by (simp_all add: a_def c_def setupArgs_def Let_def)
  show "unat (sendBytes a) = unat (sendcount c) * unat (wordSize ty)" "unat (sendBytes a) \<le> unat b"
    "unat (expectedBytes a) = unat (recvcount c) * unat (wordSize ty)" "unat (expectedBytes a) \<le> unat b"
    "unat (nbytes a) = unat (paramcount c) * unat (wordSize ty)" "unat (nbytes a) \<le> unat b"
    unfolding f using le by (auto simp: c_def unat_times_word)
qed

lemma times_mod_room: "x * (q mod (m div x)) + x \<le> (m::nat)" if "x \<le> m" "0 < x"
proof -
  have "0 < m div x" using that by (simp add: div_greater_zero_iff)
  then have "q mod (m div x) < m div x" by simp
  then have "x * Suc (q mod (m div x)) \<le> x * (m div x)" by (intro mult_le_mono2) simp
  also have "\<dots> \<le> m" by simp
  finally show ?thesis by simp
qed

lemma coll_shift_room:
  assumes "max (sendBytes a) (expectedBytes a) \<le> maxbytes a"
  shows "\<exists>shift. coll_shift a iter = Some shift \<and>
    unat shift + unat (max (sendBytes a) (expectedBytes a)) \<le> unat (maxbytes a)"
proof -
  let ?m = "max (sendBytes a) (expectedBytes a)"
  show ?thesis
  proof (cases "?m = 0")
    case True
    then show ?thesis by (simp add: coll_shift_def Let_def max_def split: if_splits)
  next
    case False
    then have pos: "0 < unat ?m" by (simp add: unat_gt_0)
    have le: "unat ?m \<le> unat (maxbytes a)" using assms by (simp only: word_le_nat_alt)
    note room = times_mod_room [OF le pos, of "unat (u64_of_int iter)"]
    let ?q = "u64_of_int iter mod (maxbytes a div ?m)"
    have u: "unat (?m * ?q) = unat ?m * (unat (u64_of_int iter) mod (unat (maxbytes a) div unat ?m))"
      unfolding unat_mod [symmetric] unat_div [symmetric]
      by (rule unat_mult_small) (use room in \<open>simp only: unat_mod unat_div\<close>,
        rule order_le_less_trans [OF _ unsigned_less [of "maxbytes a"]], linarith)
    have "maxbytes a div ?m \<noteq> 0"
      using le pos by (simp only: word_unat_eq_iff unat_div) (simp add: div_eq_0_iff)
    then show ?thesis using False room u by (simp add: coll_shift_def Let_def)
  qed
qed

section \<open>Every call stays inside the buffers\<close>

lemma in_place_word:
  fixes off rank b ws :: u64
  assumes "unat off * unat rank + k \<le> unat (b div ws)"
  shows "unat (off * ws * rank) = unat off * unat rank * unat ws"
proof -
  have le: "unat off * unat rank \<le> unat (b div ws)" using assms by linarith
  then have m: "unat (off * rank) = unat off * unat rank"
    by (intro unat_mult_small order_le_less_trans [OF le unsigned_less])
  have "off * ws * rank = off * rank * ws" by (simp only: mult.assoc mult.commute [of ws])
  moreover have "unat (off * rank * ws) = unat (off * rank) * unat ws"
    using le m by (intro unat_times_word(1)) simp
  ultimately show ?thesis by (simp only: m)
qed

lemma in_place_bytes:
  fixes t ty args b
  defines "a \<equiv> setupArgs (getCollByteCount t) b ty args"
  assumes wf: "wf_args args" "0 \<le> i" "i < nGpus args"
  shows "unat (sendInplaceOffset a * u64_of_int (rank_of args i)) + unat (sendBytes a) \<le> unat (max (sendBytes a) (expectedBytes a))"
    and "unat (recvInplaceOffset a * u64_of_int (rank_of args i)) + unat (expectedBytes a) \<le> unat (max (sendBytes a) (expectedBytes a))"
proof -
  let ?c = "run_counts t b ty args" and ?ws = "unat (wordSize ty)" and ?r = "u64_of_int (rank_of args i)"
  have f: "sendInplaceOffset a = sendInplace ?c * wordSize ty" "recvInplaceOffset a = recvInplace ?c * wordSize ty"
    by (simp_all add: a_def setupArgs_def Let_def)
  note bytes = setupArgs_bytes [of t b ty args, folded a_def]
  note loc = sized.in_place_le [OF wordSize_width rank_word [OF wf]]
    sized.send_in_place [OF wordSize_width rank_word [OF wf]] sized.recv_in_place [OF wordSize_width rank_word [OF wf]]
  have mx: "unat (max x y) = max (unat x) (unat y)" for x y :: u64 by (simp add: max_def word_le_nat_alt)
  have scale: "u * r * ws + v * ws \<le> max (x * ws) (y * ws)" if "u * r + v \<le> max x y" for u r v x y ws :: nat
    using mult_le_mono1 [OF that, of ws] by (simp add: distrib_right nat_mult_max_left)
  show "unat (sendInplaceOffset a * ?r) + unat (sendBytes a) \<le> unat (max (sendBytes a) (expectedBytes a))"
    unfolding f mx bytes(1,3) in_place_word [OF loc(1)] by (rule scale [OF loc(3)])
  show "unat (recvInplaceOffset a * ?r) + unat (expectedBytes a) \<le> unat (max (sendBytes a) (expectedBytes a))"
    unfolding f mx bytes(1,3) in_place_word [OF loc(2)] by (rule scale [OF loc(4)])
qed

lemma unat_add3:
  fixes x y z :: u64
  assumes "unat x + unat y + unat z < 2 ^ 64"
  shows "unat (x + y + z) = unat x + unat y + unat z"
  using assms by (simp add: unat_add_small)

lemma nat_room: "int m + 8 * u < 2 ^ 64 \<Longrightarrow> 0 \<le> u \<Longrightarrow> m + 8 * nat u < 2 ^ 64"
  by simp

lemma start_call_bounds:
  fixes t ty args b
  defines "a \<equiv> setupArgs (getCollByteCount t) b ty args"
  assumes wf: "wf_args args" "0 \<le> i" "i < nGpus args" and "b \<le> maxbytes args"
    and "0 \<le> opt_unalign o'" and room: "int (unat (maxbytes args)) + 8 * opt_unalign o' < 2 ^ 64"
  shows "\<exists>c. start_call o' a (time_test_misalign o' ty) ty in_place iter i = Some c
    \<and> unat (call_send c) + unat (call_sendoffset c) + unat (sendBytes a) \<le> unat (alloc_bytes o' (maxbytes args))
    \<and> unat (call_recv c) + unat (call_recvoffset c) + unat (expectedBytes a) \<le> unat (alloc_bytes o' (maxbytes args))
    \<and> unat (call_count c) * unat (wordSize ty) = unat (nbytes a)"
proof -
  let ?r = "u64_of_int (rank_of args i)" and ?u = "u64_of_int (opt_unalign o') * wordSize ty"
  note bytes = setupArgs_bytes [of t b ty args, folded a_def]
  have "max (sendBytes a) (expectedBytes a) \<le> maxbytes a"
    using bytes(2,4) assms(5) by (simp add: a_def word_le_nat_alt)
  from coll_shift_room [OF this, of iter] obtain shift where sh: "coll_shift a iter = Some shift"
    "unat shift + unat (max (sendBytes a) (expectedBytes a)) \<le> unat (maxbytes args)"
    by (auto simp: a_def)
  note inp = in_place_bytes [OF wf, of t b ty, folded a_def]
  have "0 \<le> int (unat (maxbytes args))" by (rule of_nat_0_le_iff)
  then have "8 * opt_unalign o' < 2 ^ 64" "opt_unalign o' < 2 ^ 64"
    using room assms(6) by linarith+
  then have "8 * opt_unalign o' < 2 ^ LENGTH(64)" "opt_unalign o' < 2 ^ LENGTH(64)" by simp_all
  then have un: "unat (u64_of_int (opt_unalign o')) = nat (opt_unalign o')"
    "unat (u64_of_int (8 * opt_unalign o')) = nat (8 * opt_unalign o')"
    using assms(6) by (intro unat_word_of_int_small; linarith)+
  have "unat (wordSize ty) \<le> 8" by (cases ty) simp_all
  then have u8: "nat (opt_unalign o') * unat (wordSize ty) \<le> 8 * nat (opt_unalign o')" by simp
  have room': "unat (maxbytes args) + 8 * nat (opt_unalign o') < 2 ^ 64" by (rule nat_room [OF room assms(6)])
  have un8: "unat (u64_of_int (8 * opt_unalign o')) = 8 * nat (opt_unalign o')"
    unfolding un(2) by (simp add: nat_mult_distrib)
  have "unat (maxbytes args) + unat (u64_of_int (8 * opt_unalign o')) < 2 ^ LENGTH(64)"
    unfolding un8 using room' by simp
  then have al: "unat (alloc_bytes o' (maxbytes args)) = unat (maxbytes args) + 8 * nat (opt_unalign o')"
    unfolding alloc_bytes_def un8 [symmetric] by (rule unat_add_small)
  have u: "unat ?u = nat (opt_unalign o') * unat (wordSize ty)"
  proof -
    have "unat (u64_of_int (opt_unalign o')) * unat (wordSize ty) < 2 ^ LENGTH(64)"
      unfolding un(1) by (rule order_le_less_trans [OF u8]) (use room' in simp)
    then show ?thesis by (subst unat_mult_small) (simp_all only: un(1))
  qed
  define so where "so = (if in_place then sendInplaceOffset a * ?r else 0)"
  define ro where "ro = (if in_place then recvInplaceOffset a * ?r else 0)"
  have mx: "unat (sendBytes a) \<le> unat (max (sendBytes a) (expectedBytes a))" "unat (expectedBytes a) \<le> unat (max (sendBytes a) (expectedBytes a))"
    by (simp_all add: max_def word_le_nat_alt)
  have so: "unat shift + unat so + unat ?u + unat (sendBytes a) \<le> unat (alloc_bytes o' (maxbytes args))"
    unfolding al so_def u using inp(1) sh(2) u8 mx(1)
    by (cases in_place; simp only: if_True if_False unsigned_0; linarith)
  have ro: "unat shift + unat ro + unat ?u + unat (expectedBytes a) \<le> unat (alloc_bytes o' (maxbytes args))"
    unfolding al ro_def u using inp(2) sh(2) u8 mx(2)
    by (cases in_place; simp only: if_True if_False unsigned_0; linarith)
  have lt: "unat (alloc_bytes o' (maxbytes args)) < 2 ^ 64" unfolding al by (rule room')
  have s1: "unat (shift + so + ?u) = unat shift + unat so + unat ?u" "unat (shift + ro + ?u) = unat shift + unat ro + unat ?u"
    using so ro lt by (intro unat_add3; linarith)+
  have s2: "unat (?u + shift) = unat ?u + unat shift" using so lt by (intro unat_add_small) simp
  have cnt: "unat (nbytes a div wordSize ty) * unat (wordSize ty) = unat (nbytes a)"
    by (simp add: unat_div bytes(5))
  define u' where "u' = ?u"
  have ra: "rank_of a i = rank_of args i" by (simp add: a_def)
  show ?thesis
    unfolding start_call_def Let_def sh(1) time_test_misalign_def ra so_def [symmetric] ro_def [symmetric] u'_def [symmetric]
    using so ro s1 s2 cnt unfolding u'_def [symmetric] by simp
qed

lemma those_map_all:
  assumes "\<And>x. x \<in> set xs \<Longrightarrow> \<exists>y. f x = Some y \<and> P y"
  shows "\<exists>ys. those (map f xs) = Some ys \<and> int (length ys) = int (length xs) \<and> (\<forall>y\<in>set ys. P y)"
  using assms
proof (induction xs)
  case (Cons x xs)
  then obtain y ys where "f x = Some y" "P y" "those (map f xs) = Some ys" "int (length ys) = int (length xs)" "\<forall>y\<in>set ys. P y"
    by (metis list.set_intros)
  then show ?case by simp
qed simp

text \<open>Four ranks: two processes with one thread that drives two devices.\<close>

definition example_args :: threadArgs where
  "example_args = \<lparr>nbytes = 0, minbytes = 1024, maxbytes = 4096, stepbytes = 1024, stepfactor = 1,
     totalProcs = 2, nProcs = 2, proc = 1, nThreads = 1, thread = 0, nGpus = 2, sendBytes = 0, sendInplaceOffset = 0,
     recvInplaceOffset = 0, expectedBytes = 0, errors = 0, reportErrors = 1\<rparr>"

lemma example_args_wf [simp]: "wf_args example_args" "maxbytes example_args = 4096" "nGpus example_args = 2"
  by (simp_all add: example_args_def wf_args_def nranks_of_def)

text \<open>C4: for every collective, every size up to the maximum, every iteration and every choice of implementation,
  \<open>startColl\<close> makes one call for each device of the thread, and the send range and the receive range of
  each call, with shift, in-place offset and misalignment, lie inside the allocated buffers.\<close>

theorem calls_in_bounds:
  assumes "wf_args args" and "bytes \<le> maxbytes args"
    and "0 \<le> opt_unalign o'" and "int (unat (maxbytes args)) + 8 * opt_unalign o' < 2 ^ 64"
  shows "\<exists>calls. startColl o' (setupArgs (getCollByteCount t) bytes ty args) (time_test_misalign o' ty) ty in_place iter = Some calls
    \<and> int (length calls) = nGpus args
    \<and> (\<forall>c\<in>set calls.
         unat (call_send c) + unat (call_sendoffset c) + unat (sendBytes (setupArgs (getCollByteCount t) bytes ty args))
           \<le> unat (alloc_bytes o' (maxbytes args))
       \<and> unat (call_recv c) + unat (call_recvoffset c) + unat (expectedBytes (setupArgs (getCollByteCount t) bytes ty args))
           \<le> unat (alloc_bytes o' (maxbytes args))
       \<and> unat (call_count c) * unat (wordSize ty) = unat (nbytes (setupArgs (getCollByteCount t) bytes ty args)))"
proof -
  let ?a = "setupArgs (getCollByteCount t) bytes ty args"
  have G: "int (length [0..nGpus args - 1]) = nGpus args" using assms(1) by (simp add: wf_args_def)
  have "\<exists>c. start_call o' ?a (time_test_misalign o' ty) ty in_place iter i = Some c \<and>
      (unat (call_send c) + unat (call_sendoffset c) + unat (sendBytes ?a) \<le> unat (alloc_bytes o' (maxbytes args))
       \<and> unat (call_recv c) + unat (call_recvoffset c) + unat (expectedBytes ?a) \<le> unat (alloc_bytes o' (maxbytes args))
       \<and> unat (call_count c) * unat (wordSize ty) = unat (nbytes ?a))" if "i \<in> set [0..nGpus args - 1]" for i
    using that by (intro start_call_bounds assms) auto
  from those_map_all [where xs = "[0..nGpus args - 1]" and
      f = "start_call o' ?a (time_test_misalign o' ty) ty in_place iter", OF this]
  show ?thesis unfolding startColl_def setupArgs_ranks G .
qed

theorem calls_in_bounds_witness:
  "\<exists>calls. startColl (default_options\<lparr>opt_unalign := 3\<rparr>)
      (setupArgs (getCollByteCount AllGatherTest) 4096 NcclFloat64 example_args)
      (time_test_misalign (default_options\<lparr>opt_unalign := 3\<rparr>) NcclFloat64) NcclFloat64 True 7 = Some calls
    \<and> length calls = 2"
proof -
  have "wf_args example_args" "4096 \<le> maxbytes example_args" "0 \<le> opt_unalign (default_options\<lparr>opt_unalign := 3\<rparr>)"
    "int (unat (maxbytes example_args)) + 8 * opt_unalign (default_options\<lparr>opt_unalign := 3\<rparr>) < 2 ^ 64"
    by simp_all
  from calls_in_bounds [OF this, of AllGatherTest NcclFloat64 True 7] show ?thesis by auto
qed

text \<open>The buffer for the expected values is large enough at every type: its size comes from the counts for one-byte
  elements at the maximum size, and no run at any type and any size up to the maximum expects more bytes.\<close>

theorem expected_in_bounds:
  assumes "bytes \<le> maxbytes args"
  shows "unat (expectedBytes (setupArgs (getCollByteCount t) bytes ty args))
    \<le> unat (snd (getBuffSize t (maxbytes args) (u64_of_int (nranks_of args))))"
proof -
  have "unat (bytes div wordSize ty) * unat (wordSize ty) \<le> unat (maxbytes args)"
    using assms by (simp only: unat_div word_le_nat_alt) (rule order_trans [OF div_times_less_eq_dividend])
  from sized.expected_fits [OF wordSize_width this] show ?thesis
    by (simp add: setupArgs_bytes getBuffSize_def Let_def)
qed

theorem expected_in_bounds_witness:
  "unat (expectedBytes (setupArgs (getCollByteCount ScatterTest) 4000 NcclFloat64 example_args)) \<le> 1024"
proof -
  have "(4000::u64) \<le> maxbytes example_args" by simp
  from expected_in_bounds [OF this, of ScatterTest NcclFloat64] show ?thesis
    by (simp add: getBuffSize_def count_defs base_count_def example_args_def nranks_of_def)
qed

end
