(* ===== verification/HostRun.thy ===== *)
theory HostRun
  imports HostColl
begin

unbundle bit_operations_syntax

text \<open>
  The harness of src/common.cu, second part: the sweep over sizes and the cycles of \<open>TimeTest\<close>,
  the checks \<open>main\<close> makes on the options, and the limit \<open>run\<close> puts on the buffers. The sweep is a
  loop that need not end: it is a \<open>partial_function\<close>, and a sweep that never ends is \<^const>\<open>None\<close>.
\<close>

section \<open>The sweep over sizes\<close>

definition next_size :: "threadArgs \<Rightarrow> u64 \<Rightarrow> u64" where
  "next_size args bytes = (if 1 < stepfactor args then bytes * stepfactor args else bytes + stepbytes args)"

partial_function (option) sweep_sizes :: "threadArgs \<Rightarrow> u64 \<Rightarrow> u64 list option" where
  "sweep_sizes args bytes =
     (if bytes \<le> maxbytes args
      then Option.bind (sweep_sizes args (next_size args bytes)) (\<lambda>rest. Some (bytes # rest))
      else Some [])"

text \<open>Every size is run out of place and then in place, and the sweep is repeated.\<close>

partial_function (option) time_test_runs :: "threadArgs \<Rightarrow> int \<Rightarrow> (u64 \<times> bool) list option" where
  "time_test_runs args repeat =
     Option.bind (sweep_sizes args (minbytes args)) (\<lambda>sizes.
       let runs = concat (map (\<lambda>s. [(s, False), (s, True)]) sizes)
       in if repeat - 1 = 0 then Some runs
          else Option.bind (time_test_runs args (repeat - 1)) (\<lambda>rest. Some (runs @ rest)))"

lemma sweep_end: "\<not> b \<le> maxbytes args \<Longrightarrow> sweep_sizes args b = Some []"
  by (subst sweep_sizes.simps) simp

lemma sweep_next: "b \<le> maxbytes args \<Longrightarrow> sweep_sizes args (next_size args b) = Some bs \<Longrightarrow> sweep_sizes args b = Some (b # bs)"
  by (subst sweep_sizes.simps) simp

text \<open>A sweep whose next size is computed by \<open>f\<close> on natural numbers as long as the sizes are in range.\<close>

lemma sweep_iterates:
  assumes step: "\<And>b. unat b \<le> unat (maxbytes args) \<Longrightarrow> P (unat b) \<Longrightarrow> unat (next_size args b) = f (unat b)"
    and keep: "\<And>n. P n \<Longrightarrow> P (f n)" and up: "\<And>n. P n \<Longrightarrow> n < f n"
    and "P (unat b)"
  shows "\<exists>sizes. sweep_sizes args b = Some sizes \<and> (\<forall>k. (f ^^ k) (unat b) \<le> unat (maxbytes args) \<longleftrightarrow> k < length sizes)
    \<and> (\<forall>k<length sizes. unat (sizes ! k) = (f ^^ k) (unat b))"
  using assms(4)
proof (induction "unat (maxbytes args) + 1 - unat b" arbitrary: b rule: less_induct)
  case less
  have mono: "unat b \<le> (f ^^ k) (unat b) \<and> P ((f ^^ k) (unat b))" for k
    using less.prems keep by (induction k) (auto intro: order_trans [OF _ less_imp_le [OF up]])
  show ?case
  proof (cases "b \<le> maxbytes args")
    case False
    then have "unat (maxbytes args) < unat b" by (simp add: word_le_nat_alt)
    with mono have "\<not> (f ^^ k) (unat b) \<le> unat (maxbytes args)" for k
      by (meson leD order_less_le_trans)
    with sweep_end [OF False] show ?thesis by auto
  next
    case True
    then have le: "unat b \<le> unat (maxbytes args)" by (simp add: word_le_nat_alt)
    let ?c = "next_size args b"
    have c: "unat ?c = f (unat b)" by (rule step [OF le less.prems])
    have "unat b < f (unat b)" by (rule up [OF less.prems])
    then have "unat (maxbytes args) + 1 - unat ?c < unat (maxbytes args) + 1 - unat b" using c le by linarith
    from less.hyps [OF this] keep [OF less.prems] c obtain sizes where s: "sweep_sizes args ?c = Some sizes"
      "\<And>k. (f ^^ k) (f (unat b)) \<le> unat (maxbytes args) \<longleftrightarrow> k < length sizes"
      "\<And>k. k < length sizes \<Longrightarrow> unat (sizes ! k) = (f ^^ k) (f (unat b))"
      by auto
    have "(f ^^ k) (unat b) \<le> unat (maxbytes args) \<longleftrightarrow> k < length (b # sizes)" for k
      using s(2) [of "k - 1"] le by (cases k) (simp_all add: funpow_swap1)
    moreover have "unat ((b # sizes) ! k) = (f ^^ k) (unat b)" if "k < length (b # sizes)" for k
      using s(3) [of "k - 1"] that by (cases k) (simp_all add: funpow_swap1)
    ultimately show ?thesis using sweep_next [OF True s(1)] by auto
  qed
qed

lemma funpow_add: "((\<lambda>n. n + s) ^^ k) b = b + k * (s::nat)" and funpow_mult: "((\<lambda>n. n * s) ^^ k) b = b * s ^ k"
  by (induction k) (simp_all add: algebra_simps)

text \<open>A sweep whose next size is the same size never ends.\<close>

lemma sweep_stuck:
  assumes "sweep_sizes args b = Some sizes"
  shows "b \<le> maxbytes args \<longrightarrow> next_size args b \<noteq> b"
proof (rule sweep_sizes.raw_induct [where P = "\<lambda>args b _. b \<le> maxbytes args \<longrightarrow> next_size args b \<noteq> b", OF _ assms])
  fix sweep args bytes sizes
  assume IH: "\<And>a b ss. sweep a b = Some ss \<Longrightarrow> b \<le> maxbytes a \<longrightarrow> next_size a b \<noteq> b"
    and eq: "(if bytes \<le> maxbytes args then Option.bind (sweep args (next_size args bytes)) (\<lambda>rest. Some (bytes # rest)) else Some []) = Some sizes"
  show "bytes \<le> maxbytes args \<longrightarrow> next_size args bytes \<noteq> bytes"
  proof (intro impI notI)
    assume le: "bytes \<le> maxbytes args" and stuck: "next_size args bytes = bytes"
    with eq obtain rest where "sweep args bytes = Some rest" by (auto split: bind_splits)
    from IH [OF this] le stuck show False by blast
  qed
qed

text \<open>C38: with an additive step, the sweep ends and runs exactly the sizes \<open>minbytes + k * stepbytes\<close> that are no more
  than the maximum, in increasing order; with a factor above one, exactly the sizes \<open>minbytes * stepfactor ^ k\<close>.
  The next size must not wrap around, and the smallest size must not be zero when it is multiplied.\<close>

theorem sweep_covers_sizes:
  assumes "if 1 < stepfactor args then 0 < minbytes args \<and> unat (maxbytes args) * unat (stepfactor args) < 2 ^ 64
      else 0 < stepbytes args \<and> unat (maxbytes args) + unat (stepbytes args) < 2 ^ 64"
  defines "nth_size \<equiv> (\<lambda>k. if 1 < stepfactor args then unat (minbytes args) * unat (stepfactor args) ^ k
      else unat (minbytes args) + k * unat (stepbytes args))"
  shows "\<exists>sizes. sweep_sizes args (minbytes args) = Some sizes
    \<and> (\<forall>k. nth_size k \<le> unat (maxbytes args) \<longleftrightarrow> k < length sizes)
    \<and> (\<forall>k<length sizes. unat (sizes ! k) = nth_size k)"
proof (cases "1 < stepfactor args")
  case True
  with assms(1) have a: "0 < minbytes args" "unat (maxbytes args) * unat (stepfactor args) < 2 ^ 64" by simp_all
  have f: "1 < unat (stepfactor args)" using True by (simp add: word_less_nat_alt)
  have step: "unat (next_size args b) = unat b * unat (stepfactor args)" if "unat b \<le> unat (maxbytes args)" for b
    using True order_le_less_trans [OF mult_le_mono1 [OF that] a(2)] by (simp add: next_size_def unat_mult_small)
  have "0 < unat (minbytes args)" using a(1) by (simp add: unat_gt_0)
  from sweep_iterates [where P = "\<lambda>n. 0 < n" and f = "\<lambda>n. n * unat (stepfactor args)", OF step _ _ this] f
  show ?thesis unfolding nth_size_def funpow_mult using True by simp
next
  case False
  with assms(1) have a: "0 < stepbytes args" "unat (maxbytes args) + unat (stepbytes args) < 2 ^ 64" by simp_all
  have step: "unat (next_size args b) = unat b + unat (stepbytes args)" if "unat b \<le> unat (maxbytes args)" for b
    using False that a(2) by (simp add: next_size_def unat_add_small)
  have "0 < unat (stepbytes args)" using a(1) by (simp add: unat_gt_0)
  with sweep_iterates [where P = "\<lambda>_. True" and f = "\<lambda>n. n + unat (stepbytes args)" and b = "minbytes args", OF step]
  show ?thesis unfolding nth_size_def funpow_add using False by simp
qed

theorem sweep_covers_sizes_witness:
  "\<exists>sizes. sweep_sizes example_args 1024 = Some sizes \<and> length sizes = 4 \<and> unat (sizes ! 3) = 4096"
proof -
  have "if 1 < stepfactor example_args then 0 < minbytes example_args \<and> unat (maxbytes example_args) * unat (stepfactor example_args) < 2 ^ 64
      else 0 < stepbytes example_args \<and> unat (maxbytes example_args) + unat (stepbytes example_args) < 2 ^ 64"
    by (simp add: example_args_def)
  from sweep_covers_sizes [OF this] obtain sizes where s: "sweep_sizes example_args 1024 = Some sizes"
    "\<And>k. 1024 + k * 1024 \<le> 4096 \<longleftrightarrow> k < length sizes" "\<And>k. k < length sizes \<Longrightarrow> unat (sizes ! k) = 1024 + k * 1024"
    by (auto simp: example_args_def)
  have "length sizes = 4" using s(2) [of 3] s(2) [of 4] by simp
  with s show ?thesis by simp
qed

text \<open>The sweep never ends when the step is zero and the factor is at most one, or when the smallest size is zero
  and the sizes are multiplied.\<close>

theorem sweep_never_ends:
  assumes "minbytes args \<le> maxbytes args"
    and "if 1 < stepfactor args then minbytes args = 0 else stepbytes args = 0"
  shows "sweep_sizes args (minbytes args) = None"
proof (cases "sweep_sizes args (minbytes args)")
  case (Some sizes)
  have "next_size args (minbytes args) = minbytes args" using assms(2) by (auto simp: next_size_def split: if_splits)
  with sweep_stuck [OF Some] assms(1) show ?thesis by blast
qed

theorem sweep_never_ends_witness: "sweep_sizes (example_args\<lparr>minbytes := 0, stepfactor := 2\<rparr>) 0 = None"
proof -
  let ?a = "example_args\<lparr>minbytes := 0, stepfactor := 2\<rparr>"
  have "minbytes ?a \<le> maxbytes ?a" "if 1 < stepfactor ?a then minbytes ?a = 0 else stepbytes ?a = 0" by simp_all
  from sweep_never_ends [OF this] show ?thesis by simp
qed

section \<open>The checks on the options\<close>

text \<open>
  The checks of \<open>main\<close> after the command line has been read: \<^const>\<open>None\<close> where the program ends with an error
  message, otherwise the options with the incompatible ones switched off. \<open>version\<close> is what
  \<open>ncclGetVersion\<close> returned.
\<close>

definition options_error :: "int \<Rightarrow> options \<Rightarrow> bool" where
  "options_error version o' =
     (if opt_minBytes o' > opt_maxBytes o' then True
      else if opt_deviceImpl o' > 0 \<and> opt_local_register o' \<noteq> 2 then True
      else if opt_hostRmaImpl o' \<and> opt_deviceImpl o' > 0 then True
      else if opt_hostRmaImpl o' \<and> opt_local_register o' \<noteq> 2 then True
      else opt_rmaCtxCount o' > 1 \<and> version < 23100)"

text \<open>What is switched off, in the order of the code.\<close>

definition repair_timing :: "options \<Rightarrow> options" where
  "repair_timing o' =
     (if opt_per_iter_timing o' \<noteq> 0 \<and> opt_per_iter_timing o' \<noteq> 1 then o'\<lparr>opt_per_iter_timing := 0\<rparr> else o')"

definition repair_graph_timing :: "options \<Rightarrow> options" where
  "repair_graph_timing o' =
     (if opt_per_iter_timing o' \<noteq> 0 \<and> opt_cudaGraphLaunches o' \<ge> 1 then o'\<lparr>opt_per_iter_timing := 0\<rparr> else o')"

definition repair_blocking :: "options \<Rightarrow> options" where
  "repair_blocking o' =
     (if opt_blocking_coll o' = 3 \<and> opt_cudaGraphLaunches o' \<ge> 1 then o'\<lparr>opt_blocking_coll := 0\<rparr> else o')"

definition repair_skip_range :: "options \<Rightarrow> options" where
  "repair_skip_range o' =
     (if opt_per_iter_skip o' < 0 \<or> opt_per_iter_skip o' \<ge> opt_iters o' then o'\<lparr>opt_per_iter_skip := 0\<rparr> else o')"

definition repair_skip_timing :: "options \<Rightarrow> options" where
  "repair_skip_timing o' =
     (if opt_per_iter_skip o' \<noteq> 0 \<and> opt_per_iter_timing o' = 0 then o'\<lparr>opt_per_iter_skip := 0\<rparr> else o')"

definition check_options :: "int \<Rightarrow> options \<Rightarrow> options option" where
  "check_options version o' =
     (if options_error version o' then None
      else Some (repair_skip_timing (repair_skip_range (repair_blocking (repair_graph_timing (repair_timing o'))))))"

lemmas repair_defs = repair_timing_def repair_graph_timing_def repair_blocking_def repair_skip_range_def repair_skip_timing_def

lemma repair_frame:
  assumes "f \<in> {repair_timing, repair_graph_timing, repair_blocking, repair_skip_range, repair_skip_timing}"
  shows "opt_minBytes (f o') = opt_minBytes o'" "opt_maxBytes (f o') = opt_maxBytes o'" "opt_iters (f o') = opt_iters o'"
    "opt_deviceImpl (f o') = opt_deviceImpl o'" "opt_hostRmaImpl (f o') = opt_hostRmaImpl o'"
    "opt_local_register (f o') = opt_local_register o'" "opt_rmaCtxCount (f o') = opt_rmaCtxCount o'"
    "opt_cudaGraphLaunches (f o') = opt_cudaGraphLaunches o'"
  using assms by (auto simp: repair_defs split: if_splits)

lemmas repair_frames = repair_frame [of repair_timing, simplified] repair_frame [of repair_graph_timing, simplified]
  repair_frame [of repair_blocking, simplified] repair_frame [of repair_skip_range, simplified]
  repair_frame [of repair_skip_timing, simplified]

lemma repair_fields:
  "opt_per_iter_timing (repair_timing o') = (if opt_per_iter_timing o' = 1 then 1 else 0)"
  "opt_per_iter_timing (repair_graph_timing o') = (if opt_cudaGraphLaunches o' \<ge> 1 then 0 else opt_per_iter_timing o')"
  "opt_per_iter_timing (repair_blocking o') = opt_per_iter_timing o'"
  "opt_per_iter_timing (repair_skip_range o') = opt_per_iter_timing o'"
  "opt_per_iter_timing (repair_skip_timing o') = opt_per_iter_timing o'"
  "opt_blocking_coll (repair_blocking o') = (if opt_blocking_coll o' = 3 \<and> opt_cudaGraphLaunches o' \<ge> 1 then 0 else opt_blocking_coll o')"
  "opt_blocking_coll (repair_skip_range o') = opt_blocking_coll o'"
  "opt_blocking_coll (repair_skip_timing o') = opt_blocking_coll o'"
  "opt_per_iter_skip (repair_skip_range o') = (if opt_per_iter_skip o' < 0 \<or> opt_per_iter_skip o' \<ge> opt_iters o' then 0 else opt_per_iter_skip o')"
  "opt_per_iter_skip (repair_skip_timing o') = (if opt_per_iter_timing o' = 0 then 0 else opt_per_iter_skip o')"
  by (simp_all add: repair_defs)

text \<open>The options the rest of the program relies on.\<close>

definition options_ok :: "int \<Rightarrow> options \<Rightarrow> bool" where
  "options_ok version o' \<longleftrightarrow> opt_minBytes o' \<le> opt_maxBytes o'
     \<and> (opt_deviceImpl o' > 0 \<or> opt_hostRmaImpl o' \<longrightarrow> opt_local_register o' = 2)
     \<and> \<not> (opt_hostRmaImpl o' \<and> opt_deviceImpl o' > 0) \<and> (opt_rmaCtxCount o' > 1 \<longrightarrow> version \<ge> 23100)
     \<and> opt_per_iter_timing o' \<in> {0, 1} \<and> (opt_cudaGraphLaunches o' \<ge> 1 \<longrightarrow> opt_per_iter_timing o' = 0 \<and> opt_blocking_coll o' \<noteq> 3)
     \<and> 0 \<le> opt_per_iter_skip o' \<and> (opt_per_iter_skip o' \<noteq> 0 \<longrightarrow> opt_per_iter_timing o' = 1 \<and> opt_per_iter_skip o' < opt_iters o')"

lemma options_error_iff:
  "options_error version o' \<longleftrightarrow> opt_minBytes o' > opt_maxBytes o'
     \<or> (opt_deviceImpl o' > 0 \<or> opt_hostRmaImpl o') \<and> opt_local_register o' \<noteq> 2
     \<or> opt_hostRmaImpl o' \<and> opt_deviceImpl o' > 0 \<or> opt_rmaCtxCount o' > 1 \<and> version < 23100"
  by (auto simp: options_error_def)

lemma check_options_ok:
  assumes "check_options version o' = Some o''"
  shows "options_ok version o''" "opt_maxBytes o'' = opt_maxBytes o'" "opt_iters o'' = opt_iters o'"
proof -
  from assms have ok: "\<not> options_error version o'"
    and eq: "o'' = repair_skip_timing (repair_skip_range (repair_blocking (repair_graph_timing (repair_timing o'))))"
    by (simp_all add: check_options_def split: if_splits)
  have same: "opt_minBytes o'' = opt_minBytes o'" "opt_maxBytes o'' = opt_maxBytes o'" "opt_iters o'' = opt_iters o'"
    "opt_deviceImpl o'' = opt_deviceImpl o'" "opt_hostRmaImpl o'' = opt_hostRmaImpl o'"
    "opt_local_register o'' = opt_local_register o'" "opt_rmaCtxCount o'' = opt_rmaCtxCount o'"
    "opt_cudaGraphLaunches o'' = opt_cudaGraphLaunches o'"
    by (simp_all add: eq repair_frames)
  have t: "opt_per_iter_timing o'' = (if opt_cudaGraphLaunches o' \<ge> 1 \<or> opt_per_iter_timing o' \<noteq> 1 then 0 else 1)"
    by (simp add: eq repair_fields repair_frames)
  have b: "\<not> (opt_blocking_coll o'' = 3 \<and> opt_cudaGraphLaunches o'' \<ge> 1)"
    by (simp add: eq repair_fields repair_frames)
  have s: "0 \<le> opt_per_iter_skip o''" "opt_per_iter_timing o'' = 0 \<longrightarrow> opt_per_iter_skip o'' = 0"
    "opt_per_iter_skip o'' \<noteq> 0 \<longrightarrow> opt_per_iter_skip o'' < opt_iters o''"
    by (simp_all add: eq repair_fields repair_frames)
  show "opt_maxBytes o'' = opt_maxBytes o'" "opt_iters o'' = opt_iters o'" by (fact same)+
  have "opt_per_iter_timing o'' \<in> {0, 1}" "opt_cudaGraphLaunches o'' \<ge> 1 \<longrightarrow> opt_per_iter_timing o'' = 0"
    "opt_per_iter_timing o'' = 0 \<or> opt_per_iter_timing o'' = 1" by (simp_all add: t same)
  moreover have "opt_minBytes o' \<le> opt_maxBytes o'" "opt_deviceImpl o' > 0 \<or> opt_hostRmaImpl o' \<longrightarrow> opt_local_register o' = 2"
    "\<not> (opt_hostRmaImpl o' \<and> opt_deviceImpl o' > 0)" "opt_rmaCtxCount o' > 1 \<longrightarrow> version \<ge> 23100"
    using ok unfolding options_error_iff by (meson not_less)+
  ultimately show "options_ok version o''"
    unfolding options_ok_def using b s unfolding same by blast
qed

lemma check_options_keep:
  assumes ok: "options_ok version o'"
  shows "check_options version o' = Some o'"
proof -
  have "repair_timing o' = o'" "repair_graph_timing o' = o'" "repair_blocking o' = o'"
    using ok unfolding options_ok_def repair_defs by (intro if_not_P; blast)+
  moreover have "repair_skip_range o' = o'"
  proof (cases "opt_per_iter_skip o' = 0")
    case True
    then have "o'\<lparr>opt_per_iter_skip := 0\<rparr> = o'" by (cases o') simp
    then show ?thesis by (simp add: repair_skip_range_def)
  next
    case False
    with ok show ?thesis unfolding options_ok_def repair_skip_range_def by (intro if_not_P) linarith
  qed
  moreover have "repair_skip_timing o' = o'"
    using ok unfolding options_ok_def repair_skip_timing_def by (intro if_not_P) auto
  moreover have "\<not> options_error version o'"
    using ok unfolding options_ok_def options_error_iff by (meson not_less)
  ultimately show ?thesis by (simp add: check_options_def)
qed

text \<open>Options that pass the checks of \<open>main\<close> are consistent, options that are consistent pass unchanged, and the
  program ends exactly for the five combinations that have a message of their own.\<close>

theorem check_options_consistent:
  "(\<forall>o''. check_options version o' = Some o'' \<longrightarrow> options_ok version o'' \<and> opt_maxBytes o'' = opt_maxBytes o' \<and> opt_iters o'' = opt_iters o')
   \<and> (options_ok version o' \<longrightarrow> check_options version o' = Some o')
   \<and> (check_options version o' = None \<longleftrightarrow> opt_minBytes o' > opt_maxBytes o'
        \<or> (opt_deviceImpl o' > 0 \<or> opt_hostRmaImpl o') \<and> opt_local_register o' \<noteq> 2
        \<or> opt_hostRmaImpl o' \<and> opt_deviceImpl o' > 0 \<or> opt_rmaCtxCount o' > 1 \<and> version < 23100)"
proof -
  have "check_options version o' = None \<longleftrightarrow> options_error version o'" by (simp add: check_options_def)
  then show ?thesis
    unfolding options_error_iff using check_options_ok check_options_keep by blast
qed

theorem check_options_consistent_witness:
  "check_options 23100 (default_options\<lparr>opt_per_iter_skip := 5\<rparr>) = Some default_options \<and> options_ok 23100 default_options"
proof -
  have c: "check_options 23100 (default_options\<lparr>opt_per_iter_skip := 5\<rparr>) = Some default_options"
    by (simp add: check_options_def options_error_def repair_defs default_options_def)
  with check_options_consistent [of 23100 "default_options\<lparr>opt_per_iter_skip := 5\<rparr>"] show ?thesis by blast
qed

section \<open>The limit on the buffers\<close>

text \<open>\<open>run\<close> keeps a part of the device memory in reserve and divides the rest by the number of buffers.\<close>

definition reserve_mem :: "u64 \<Rightarrow> u64" where
  "reserve_mem maxMem =
     (let GB = push_bit 30 1
      in min ((maxMem + 16 * GB - 1) div (16 * GB) * 1 * GB) (4 * GB))"

definition mem_max_bytes :: "options \<Rightarrow> u64 \<Rightarrow> u64" where
  "mem_max_bytes o' maxMem =
     (maxMem - reserve_mem maxMem - 1 * push_bit 30 1) div (if opt_datacheck o' \<noteq> 0 then 3 else 2)"

definition limit_bytes :: "u64 \<Rightarrow> options \<Rightarrow> options" where
  "limit_bytes maxMem o' =
     (let memMaxBytes = mem_max_bytes o' maxMem
      in if opt_maxBytes o' > memMaxBytes then
           let o' = o'\<lparr>opt_maxBytes := memMaxBytes\<rparr>
           in (if opt_minBytes o' > opt_maxBytes o' then o'\<lparr>opt_minBytes := opt_maxBytes o'\<rparr> else o')
         else o')"

lemma reserve_mem_nat:
  assumes "unat maxMem < 2 ^ 63"
  shows "unat (reserve_mem maxMem) = min ((unat maxMem + 16 * 2 ^ 30 - 1) div (16 * 2 ^ 30) * 2 ^ 30) (4 * 2 ^ 30)"
proof -
  have GB: "push_bit 30 1 = (2 ^ 30 :: u64)" by simp
  have s: "unat (maxMem + 16 * 2 ^ 30) = unat maxMem + 16 * 2 ^ 30"
    by (subst unat_add_small) (use assms in simp_all)
  have "unat (maxMem + 16 * 2 ^ 30 - 1) = unat maxMem + 16 * 2 ^ 30 - 1"
    by (subst unat_sub_small) (simp_all only: s, simp_all)
  then have d: "unat ((maxMem + 16 * 2 ^ 30 - 1) div (16 * 2 ^ 30)) = (unat maxMem + 16 * 2 ^ 30 - 1) div (16 * 2 ^ 30)"
    by (simp only: unat_div) simp
  have le: "(unat maxMem + 16 * 2 ^ 30 - 1) div (16 * 2 ^ 30) \<le> 2 ^ 30"
    using assms by (simp add: div_le_dividend)
  have "unat ((maxMem + 16 * 2 ^ 30 - 1) div (16 * 2 ^ 30) * 1 * 2 ^ 30) = (unat maxMem + 16 * 2 ^ 30 - 1) div (16 * 2 ^ 30) * 2 ^ 30"
    unfolding mult_1_right
    by (subst unat_mult_small) (use d le in \<open>simp_all\<close>)
  then show ?thesis
    unfolding reserve_mem_def Let_def GB by (simp add: min_def word_le_nat_alt)
qed

lemma reserve_room:
  assumes "2 * 2 ^ 30 \<le> (m::nat)"
  shows "(m + 16 * 2 ^ 30 - 1) div (16 * 2 ^ 30) * 2 ^ 30 + 2 ^ 30 \<le> m"
proof -
  define q where "q = (m + 16 * 2 ^ 30 - 1) div (16 * 2 ^ 30)"
  have "q * (16 * 2 ^ 30) \<le> m + 16 * 2 ^ 30 - 1" unfolding q_def by (rule div_times_less_eq_dividend)
  then show ?thesis using assms unfolding q_def [symmetric] by (cases "q \<le> 1") simp_all
qed

text \<open>On a device with at least two GiB, the send, the receive and (when results are checked) the expected buffer of
  the limited size fit into the device memory together with the reserve and one GiB; the limit never raises the
  maximum, and the minimum stays below it.\<close>

theorem memory_limit_fits:
  assumes "2 * 2 ^ 30 \<le> unat maxMem" and "unat maxMem < 2 ^ 63" and "opt_minBytes o' \<le> opt_maxBytes o'"
  shows "(if opt_datacheck o' \<noteq> 0 then 3 else 2) * unat (opt_maxBytes (limit_bytes maxMem o')) + unat (reserve_mem maxMem) + 2 ^ 30 \<le> unat maxMem
    \<and> opt_maxBytes (limit_bytes maxMem o') \<le> opt_maxBytes o'
    \<and> opt_minBytes (limit_bytes maxMem o') \<le> opt_maxBytes (limit_bytes maxMem o')"
proof -
  define k :: nat where "k = (if opt_datacheck o' \<noteq> 0 then 3 else 2)"
  have r: "unat (reserve_mem maxMem) + 2 ^ 30 \<le> unat maxMem"
    using reserve_room [OF assms(1)] unfolding reserve_mem_nat [OF assms(2)] by linarith
  have "unat (maxMem - reserve_mem maxMem) = unat maxMem - unat (reserve_mem maxMem)"
    using r by (intro unat_sub_small) linarith
  then have "unat (maxMem - reserve_mem maxMem - 1 * push_bit 30 1) = unat maxMem - unat (reserve_mem maxMem) - 2 ^ 30"
    by (subst unat_sub_small) (use r in simp_all)
  then have q: "unat (mem_max_bytes o' maxMem) = (unat maxMem - unat (reserve_mem maxMem) - 2 ^ 30) div k"
    unfolding mem_max_bytes_def k_def unat_div by simp
  have m: "k * unat (mem_max_bytes o' maxMem) + unat (reserve_mem maxMem) + 2 ^ 30 \<le> unat maxMem"
    using r times_div_less_eq_dividend [of k "unat maxMem - unat (reserve_mem maxMem) - 2 ^ 30"] unfolding q by linarith
  have le: "opt_maxBytes (limit_bytes maxMem o') \<le> mem_max_bytes o' maxMem" "opt_maxBytes (limit_bytes maxMem o') \<le> opt_maxBytes o'"
    "opt_minBytes (limit_bytes maxMem o') \<le> opt_maxBytes (limit_bytes maxMem o')"
    using assms(3) by (auto simp: limit_bytes_def Let_def)
  have "k * unat (opt_maxBytes (limit_bytes maxMem o')) \<le> k * unat (mem_max_bytes o' maxMem)"
    using le(1) by (intro mult_le_mono2) (simp only: word_le_nat_alt)
  with m le(2,3) show ?thesis unfolding k_def by linarith
qed

theorem memory_limit_fits_witness:
  "3 * unat (opt_maxBytes (limit_bytes (2 ^ 34) (default_options\<lparr>opt_maxBytes := 2 ^ 40\<rparr>))) + 2 ^ 31 \<le> 2 ^ 34"
proof -
  let ?o = "default_options\<lparr>opt_maxBytes := 2 ^ 40\<rparr>" and ?m = "2 ^ 34 :: u64"
  have "2 * 2 ^ 30 \<le> unat ?m" "unat ?m < 2 ^ 63" "opt_minBytes ?o \<le> opt_maxBytes ?o"
    by (simp_all add: default_options_def)
  from memory_limit_fits [OF this] have "3 * unat (opt_maxBytes (limit_bytes ?m ?o)) + unat (reserve_mem ?m) + 2 ^ 30 \<le> unat ?m"
    by (simp add: default_options_def)
  moreover have "unat (reserve_mem ?m) = 2 ^ 30" by (subst reserve_mem_nat) simp_all
  ultimately show ?thesis by simp
qed

end
