(* ===== verification/HostInit.thy ===== *)
theory HostInit
  imports HostRun
begin

text \<open>
  The data of a run: the functions \<open>InitData\<close> of every collective, which fill the send buffer (or the
  receive buffer, in place) and the buffer of expected values of one rank, and \<open>CheckData\<close> of
  src/common.cu, which compares. The theory ends with the contract between them: if the
  collective puts into the receive buffers what its definition says, no element is reported.
\<close>

section \<open>The buffers of one rank\<close>

text \<open>Element patterns by element index, relative to the buffer pointer of the rank.\<close>

record gpu_bufs =
  sendbuff :: "int \<Rightarrow> u64"
  recvbuff :: "int \<Rightarrow> u64"
  expected :: "int \<Rightarrow> u64"

text \<open>The index of the element at a byte offset.\<close>

definition elts :: "elt_type \<Rightarrow> u64 \<Rightarrow> int" where
  "elts ty bytes = uint (bytes div wordSize ty)"

definition write_at :: "int \<Rightarrow> int \<Rightarrow> (int \<Rightarrow> u64) \<Rightarrow> (int \<Rightarrow> u64) \<Rightarrow> int \<Rightarrow> u64" where
  "write_at p n f buf = (\<lambda>i. if p \<le> i \<and> i < p + n then f (i - p) else buf i)"

text \<open>\<open>cudaMemset\<close> with zero and \<open>cudaMemcpy\<close> of whole elements.\<close>

definition memset_elts :: "int \<Rightarrow> (int \<Rightarrow> u64) \<Rightarrow> int \<Rightarrow> u64" where
  "memset_elts n buf = write_at 0 n (\<lambda>_. 0) buf"

definition memcpy_elts :: "int \<Rightarrow> (int \<Rightarrow> u64) \<Rightarrow> (int \<Rightarrow> u64) \<Rightarrow> int \<Rightarrow> u64" where
  "memcpy_elts n src dst = write_at 0 n src dst"

text \<open>\<open>InitData\<close> and \<open>InitDataReduce\<close> on the memory from element \<open>p\<close> of a buffer on.\<close>

definition InitData :: "elt_type \<Rightarrow> red_code \<Rightarrow> u64 \<Rightarrow> u64 \<Rightarrow> u64 \<Rightarrow> int \<Rightarrow> int \<Rightarrow> int \<Rightarrow> (int \<Rightarrow> u64) \<Rightarrow> (int \<Rightarrow> u64) option" where
  "InitData ty red cnt offset seed nranks rank p buf =
     (let n = uint cnt
      in case ncclVerifiablePrepareInput (launch_indices n (grid_size n) 512) (\<lambda>i. buf (p + i)) n (Some ty) red nranks rank seed offset of
           Inl _ \<Rightarrow> None
         | Inr r \<Rightarrow> map_option (\<lambda>e i. e (i - p)) r)"

definition InitDataReduce :: "elt_type \<Rightarrow> red_code \<Rightarrow> u64 \<Rightarrow> u64 \<Rightarrow> u64 \<Rightarrow> int \<Rightarrow> (int \<Rightarrow> u64) \<Rightarrow> (int \<Rightarrow> u64) option" where
  "InitDataReduce ty red cnt offset seed nranks buf =
     (let n = uint cnt
      in case ncclVerifiablePrepareExpected (launch_indices n (grid_size n) 512) buf n (Some ty) red nranks seed offset of
           Inl _ \<Rightarrow> None
         | Inr r \<Rightarrow> r)"

text \<open>The pointer \<open>data\<close> is into the receive buffer when the run is in place.\<close>

definition init_own :: "bool \<Rightarrow> ((int \<Rightarrow> u64) \<Rightarrow> (int \<Rightarrow> u64) option) \<Rightarrow> gpu_bufs \<Rightarrow> gpu_bufs option" where
  "init_own in_place f b =
     (if in_place then map_option (\<lambda>x. b\<lparr>recvbuff := x\<rparr>) (f (recvbuff b))
      else map_option (\<lambda>x. b\<lparr>sendbuff := x\<rparr>) (f (sendbuff b)))"

definition init_expected :: "((int \<Rightarrow> u64) \<Rightarrow> (int \<Rightarrow> u64) option) \<Rightarrow> gpu_bufs \<Rightarrow> gpu_bufs option" where
  "init_expected f b = map_option (\<lambda>x. b\<lparr>expected := x\<rparr>) (f (expected b))"

definition clear_recv :: "threadArgs \<Rightarrow> elt_type \<Rightarrow> gpu_bufs \<Rightarrow> gpu_bufs" where
  "clear_recv args ty b = b\<lparr>recvbuff := memset_elts (elts ty (expectedBytes args)) (recvbuff b)\<rparr>"

definition copy_expected :: "threadArgs \<Rightarrow> elt_type \<Rightarrow> gpu_bufs \<Rightarrow> gpu_bufs" where
  "copy_expected args ty b = b\<lparr>expected := memcpy_elts (elts ty (expectedBytes args)) (recvbuff b) (expected b)\<rparr>"

fun fold_opt :: "('a \<Rightarrow> 'b \<Rightarrow> 'b option) \<Rightarrow> 'a list \<Rightarrow> 'b \<Rightarrow> 'b option" where
  "fold_opt f [] b = Some b"
| "fold_opt f (x # xs) b = Option.bind (f x b) (fold_opt f xs)"

section \<open>The initial data of the collectives\<close>

text \<open>The seed of the data of one rank, for the collectives in which every rank has its own.\<close>

definition block_seed :: "int \<Rightarrow> int \<Rightarrow> int" where
  "block_seed rep rank = 33 * rep + rank"

text \<open>The body of the loop over the devices, for the device of the given rank.\<close>

definition AllGatherInitData :: "threadArgs \<Rightarrow> elt_type \<Rightarrow> red_code \<Rightarrow> int \<Rightarrow> int \<Rightarrow> bool \<Rightarrow> int \<Rightarrow> gpu_bufs \<Rightarrow> gpu_bufs option" where
  "AllGatherInitData args ty red rt rep in_place rank b =
     (let sendcount = sendBytes args div wordSize ty;
          nranks = nranks_of args;
          p = (if in_place then elts ty (u64_of_int rank * sendBytes args) else 0)
      in Option.bind (init_own in_place (InitData ty NcclSum sendcount 0 (u64_of_int (block_seed rep rank)) 1 0 p) (clear_recv args ty b))
        (init_expected (fold_opt (\<lambda>j. InitData ty NcclSum sendcount 0 (u64_of_int (block_seed rep j)) 1 0 (elts ty (sendBytes args * u64_of_int j)))
           [0..nranks - 1])))"

definition HyperCubeInitData :: "threadArgs \<Rightarrow> elt_type \<Rightarrow> red_code \<Rightarrow> int \<Rightarrow> int \<Rightarrow> bool \<Rightarrow> int \<Rightarrow> gpu_bufs \<Rightarrow> gpu_bufs option" where
  "HyperCubeInitData args ty red rt rep in_place rank b =
     (let sendcount = sendBytes args div wordSize ty;
          nranks = nranks_of args;
          p = (if in_place then elts ty (u64_of_int rank * sendBytes args) else 0)
      in Option.bind (init_own in_place (InitData ty NcclSum sendcount 0 (u64_of_int (block_seed rep rank)) 1 0 p) (clear_recv args ty b))
        (init_expected (fold_opt (\<lambda>j. InitData ty NcclSum sendcount 0 (u64_of_int (block_seed rep j)) 1 0 (elts ty (sendBytes args * u64_of_int j)))
           [0..nranks - 1])))"

definition ReduceScatterInitData :: "threadArgs \<Rightarrow> elt_type \<Rightarrow> red_code \<Rightarrow> int \<Rightarrow> int \<Rightarrow> bool \<Rightarrow> int \<Rightarrow> gpu_bufs \<Rightarrow> gpu_bufs option" where
  "ReduceScatterInitData args ty red rt rep in_place rank b =
     (let sendcount = sendBytes args div wordSize ty;
          recvcount = expectedBytes args div wordSize ty;
          nranks = nranks_of args
      in Option.bind (init_own in_place (InitData ty red sendcount 0 (u64_of_int rep) nranks rank 0) (clear_recv args ty b))
        (\<lambda>b. init_expected (InitDataReduce ty red recvcount (u64_of_int rank * recvcount) (u64_of_int rep) nranks) (copy_expected args ty b)))"

definition AllReduceInitData :: "threadArgs \<Rightarrow> elt_type \<Rightarrow> red_code \<Rightarrow> int \<Rightarrow> int \<Rightarrow> bool \<Rightarrow> int \<Rightarrow> gpu_bufs \<Rightarrow> gpu_bufs option" where
  "AllReduceInitData args ty red rt rep in_place rank b =
     (let sendcount = sendBytes args div wordSize ty;
          recvcount = expectedBytes args div wordSize ty;
          nranks = nranks_of args
      in Option.bind (init_own in_place (InitData ty red sendcount 0 (u64_of_int rep) nranks rank 0) (clear_recv args ty b))
        (init_expected (InitDataReduce ty red recvcount 0 (u64_of_int rep) nranks)))"

definition ReduceInitData :: "threadArgs \<Rightarrow> elt_type \<Rightarrow> red_code \<Rightarrow> int \<Rightarrow> int \<Rightarrow> bool \<Rightarrow> int \<Rightarrow> gpu_bufs \<Rightarrow> gpu_bufs option" where
  "ReduceInitData args ty red rt rep in_place rank b =
     (let sendcount = sendBytes args div wordSize ty;
          recvcount = expectedBytes args div wordSize ty;
          nranks = nranks_of args
      in Option.bind (init_own in_place (InitData ty red sendcount 0 (u64_of_int rep) nranks rank 0) (clear_recv args ty b))
        (\<lambda>b. let b = copy_expected args ty b
             in if rank = rt then init_expected (InitDataReduce ty red recvcount 0 (u64_of_int rep) nranks) b else Some b))"

definition BroadcastInitData :: "threadArgs \<Rightarrow> elt_type \<Rightarrow> red_code \<Rightarrow> int \<Rightarrow> int \<Rightarrow> bool \<Rightarrow> int \<Rightarrow> gpu_bufs \<Rightarrow> gpu_bufs option" where
  "BroadcastInitData args ty red rt rep in_place rank b =
     (let sendcount = sendBytes args div wordSize ty;
          recvcount = expectedBytes args div wordSize ty;
          b = clear_recv args ty b
      in Option.bind (if rank = rt then init_own in_place (InitData ty NcclSum sendcount 0 (u64_of_int rep) 1 0 0) b else Some b)
        (init_expected (InitData ty NcclSum recvcount 0 (u64_of_int rep) 1 0 0)))"

definition GatherInitData :: "threadArgs \<Rightarrow> elt_type \<Rightarrow> red_code \<Rightarrow> int \<Rightarrow> int \<Rightarrow> bool \<Rightarrow> int \<Rightarrow> gpu_bufs \<Rightarrow> gpu_bufs option" where
  "GatherInitData args ty red rt rep in_place rank b =
     (let sendcount = sendBytes args div wordSize ty;
          nranks = nranks_of args;
          p = (if in_place then elts ty (u64_of_int rank * sendBytes args) else 0)
      in Option.bind (init_own in_place (InitData ty NcclSum sendcount (u64_of_int rank * sendcount) (u64_of_int rep) 1 0 p) (clear_recv args ty b))
        (\<lambda>b. let b = copy_expected args ty b
             in if rank = rt
                then init_expected (InitData ty NcclSum (u64_of_int nranks * sendcount) 0 (u64_of_int rep) 1 0 0) b else Some b))"

definition ScatterInitData :: "threadArgs \<Rightarrow> elt_type \<Rightarrow> red_code \<Rightarrow> int \<Rightarrow> int \<Rightarrow> bool \<Rightarrow> int \<Rightarrow> gpu_bufs \<Rightarrow> gpu_bufs option" where
  "ScatterInitData args ty red rt rep in_place rank b =
     (let sendcount = sendBytes args div wordSize ty;
          recvcount = expectedBytes args div wordSize ty;
          b = clear_recv args ty b
      in Option.bind (if rank = rt then init_own in_place (InitData ty NcclSum sendcount 0 (u64_of_int rep) 1 0 0) b else Some b)
        (init_expected (InitData ty NcclSum recvcount (u64_of_int rank * recvcount) (u64_of_int rep) 1 0 0)))"

definition SendRecvInitData :: "threadArgs \<Rightarrow> elt_type \<Rightarrow> red_code \<Rightarrow> int \<Rightarrow> int \<Rightarrow> bool \<Rightarrow> int \<Rightarrow> gpu_bufs \<Rightarrow> gpu_bufs option" where
  "SendRecvInitData args ty red rt rep in_place rank b =
     (let sendcount = sendBytes args div wordSize ty;
          recvcount = expectedBytes args div wordSize ty;
          nranks = nranks_of args;
          peer = (rank - 1 + nranks) smod nranks
      in Option.bind (init_own in_place (InitData ty NcclSum sendcount (u64_of_int rank * sendcount) (u64_of_int rep) 1 0 0) (clear_recv args ty b))
        (init_expected (InitData ty NcclSum recvcount (u64_of_int peer * recvcount) (u64_of_int rep) 1 0 0)))"

definition AlltoAllInitData :: "threadArgs \<Rightarrow> elt_type \<Rightarrow> red_code \<Rightarrow> int \<Rightarrow> int \<Rightarrow> bool \<Rightarrow> int \<Rightarrow> gpu_bufs \<Rightarrow> gpu_bufs option" where
  "AlltoAllInitData args ty red rt rep in_place rank b =
     (let sendcount = sendBytes args div wordSize ty;
          nranks = nranks_of args;
          partcount = sendcount div u64_of_int nranks
      in Option.bind (init_own in_place (InitData ty NcclSum sendcount 0 (u64_of_int (block_seed rep rank)) 1 0 0) (clear_recv args ty b))
        (init_expected (fold_opt (\<lambda>j. InitData ty NcclSum partcount (u64_of_int rank * partcount) (u64_of_int (block_seed rep j)) 1 0
             (elts ty (u64_of_int j * partcount * wordSize ty))) [0..nranks - 1])))"

fun initData :: "testColl \<Rightarrow> threadArgs \<Rightarrow> elt_type \<Rightarrow> red_code \<Rightarrow> int \<Rightarrow> int \<Rightarrow> bool \<Rightarrow> int \<Rightarrow> gpu_bufs \<Rightarrow> gpu_bufs option" where
  "initData AllReduceTest = AllReduceInitData"
| "initData AllGatherTest = AllGatherInitData"
| "initData ReduceScatterTest = ReduceScatterInitData"
| "initData BroadcastTest = BroadcastInitData"
| "initData ReduceTest = ReduceInitData"
| "initData GatherTest = GatherInitData"
| "initData ScatterTest = ScatterInitData"
| "initData SendRecvTest = SendRecvInitData"
| "initData HyperCubeTest = HyperCubeInitData"
| "initData AlltoAllTest = AlltoAllInitData"

text \<open>What \<open>InitData\<close> leaves in \<open>reportErrors\<close>: two collectives switch the reports off in place.\<close>

definition init_report :: "testColl \<Rightarrow> bool \<Rightarrow> threadArgs \<Rightarrow> threadArgs" where
  "init_report t in_place args =
     (if t \<in> {SendRecvTest, AlltoAllTest} then args\<lparr>reportErrors := (if in_place then 0 else 1)\<rparr> else args)"

section \<open>Checking the data\<close>

text \<open>The number of wrong elements of one device; the comparison is \<open>ncclVerifiableVerify\<close>.\<close>

definition check_gpu :: "threadArgs \<Rightarrow> elt_type \<Rightarrow> red_code \<Rightarrow> bool \<Rightarrow> int \<Rightarrow> gpu_bufs \<Rightarrow> int option" where
  "check_gpu args ty red in_place rank b =
     (let cnt = expectedBytes args div wordSize ty;
          p = (if in_place then elts ty (recvInplaceOffset args * u64_of_int rank) else 0)
      in case ncclVerifiableVerify (\<lambda>i. recvbuff b (p + i)) (Some (expected b)) (uint cnt) (Some ty) red (nranks_of args) 0 0 of
           Inl _ \<Rightarrow> None | Inr w \<Rightarrow> w)"

text \<open>The devices of a thread: the number of wrong elements, and the thread with its error count.\<close>

definition CheckData :: "threadArgs \<Rightarrow> elt_type \<Rightarrow> red_code \<Rightarrow> bool \<Rightarrow> (int \<Rightarrow> gpu_bufs) \<Rightarrow> (int \<times> threadArgs) option" where
  "CheckData args ty red in_place bufs =
     map_option (\<lambda>ws. let wrongElts = sum_list ws
                      in (wrongElts, if reportErrors args \<noteq> 0 \<and> wrongElts \<noteq> 0 then args\<lparr>errors := errors args + 1\<rparr> else args))
       (those (map (\<lambda>i. check_gpu args ty red in_place (rank_of args i) (bufs (rank_of args i))) [0..nGpus args - 1]))"

section \<open>What the generators leave in a buffer\<close>

lemma fill_buffer_all:
  assumes "0 \<le> n" and "\<And>i. 0 \<le> i \<Longrightarrow> i < n \<Longrightarrow> gen (ix0 + u64_of_int i) \<noteq> None"
  shows "fill_buffer (launch_indices n (grid_size n) 512) gen ix0 buf n =
    Some (\<lambda>i. if 0 \<le> i \<and> i < n then the (gen (ix0 + u64_of_int i)) else buf i)"
proof (cases "n = 0")
  case True
  then show ?thesis by (auto simp: fill_buffer_def grid_size_def fun_eq_iff)
next
  case False
  with grid_size_pos [of n] assms(1) have "0 < grid_size n" by simp
  moreover from launch_once(1) [OF assms(1) this] have "set (launch_indices n (grid_size n) 512) = {0..<n}" by simp
  ultimately show ?thesis
    using assms(2) by (auto simp: fill_buffer_def list_all_iff store_kernel_apply)
qed

lemma InitData_eq:
  assumes "\<And>i. 0 \<le> i \<Longrightarrow> i < uint cnt \<Longrightarrow> gen_input ty (case_op red n) n r seed (offset + u64_of_int i) \<noteq> None"
  shows "InitData ty red cnt offset seed n r p buf =
    Some (write_at p (uint cnt) (\<lambda>i. the (gen_input ty (case_op red n) n r seed (offset + u64_of_int i))) buf)"
proof -
  have "fill_buffer (launch_indices (uint cnt) (grid_size (uint cnt)) 512) (gen_input ty (case_op red n) n r seed) offset
      (\<lambda>i. buf (p + i)) (uint cnt) =
    Some (\<lambda>i. if 0 \<le> i \<and> i < uint cnt then the (gen_input ty (case_op red n) n r seed (offset + u64_of_int i)) else buf (p + i))"
    using assms by (intro fill_buffer_all) auto
  then show ?thesis
    by (auto simp: InitData_def Let_def ncclVerifiablePrepareInput_def write_at_def fun_eq_iff)
qed

lemma InitDataReduce_eq:
  assumes "\<And>i. 0 \<le> i \<Longrightarrow> i < uint cnt \<Longrightarrow> gen_output ty (case_op red n) n seed (offset + u64_of_int i) \<noteq> None"
  shows "InitDataReduce ty red cnt offset seed n buf =
    Some (write_at 0 (uint cnt) (\<lambda>i. the (gen_output ty (case_op red n) n seed (offset + u64_of_int i))) buf)"
proof -
  have "fill_buffer (launch_indices (uint cnt) (grid_size (uint cnt)) 512) (gen_output ty (case_op red n) n seed) offset buf (uint cnt) =
    Some (\<lambda>i. if 0 \<le> i \<and> i < uint cnt then the (gen_output ty (case_op red n) n seed (offset + u64_of_int i)) else buf i)"
    using assms by (intro fill_buffer_all) auto
  then show ?thesis
    by (auto simp: InitDataReduce_def Let_def ncclVerifiablePrepareExpected_def write_at_def fun_eq_iff)
qed

text \<open>The data of the collectives that only move: a function of type, seed and index.\<close>

definition elt_data :: "elt_type \<Rightarrow> int \<Rightarrow> u64 \<Rightarrow> u64" where
  "elt_data ty seed ix = the (gen_input ty ReduceNil 1 0 (u64_of_int seed) ix)"

lemma InitData_copy:
  "InitData ty NcclSum cnt offset (u64_of_int seed) 1 0 p buf =
    Some (write_at p (uint cnt) (\<lambda>i. elt_data ty seed (offset + u64_of_int i)) buf)"
proof -
  have "gen_input ty (case_op NcclSum 1) 1 0 s ix \<noteq> None" for s ix
    by (simp add: gen_input_def case_op_def split: option.split)
  then have "InitData ty NcclSum cnt offset (u64_of_int seed) 1 0 p buf =
      Some (write_at p (uint cnt) (\<lambda>i. the (gen_input ty (case_op NcclSum 1) 1 0 (u64_of_int seed) (offset + u64_of_int i))) buf)"
    by (intro InitData_eq) auto
  then show ?thesis by (simp add: elt_data_def case_op_def)
qed

lemma fold_opt_append: "fold_opt f (xs @ ys) b = Option.bind (fold_opt f xs b) (fold_opt f ys)"
  by (induction xs arbitrary: b) (auto split: bind_splits)

lemma fold_opt_cong: "(\<And>x b. x \<in> set xs \<Longrightarrow> f x b = g x b) \<Longrightarrow> fold_opt f xs b = fold_opt g xs b"
  by (induction xs arbitrary: b) (auto intro!: arg_cong2 [where f = Option.bind])

text \<open>Block after block, every block from its own seed.\<close>

lemma fold_opt_blocks:
  assumes "0 \<le> n" "0 \<le> c"
  shows "fold_opt (\<lambda>j b. Some (write_at (j * c) c (g j) b)) [0..n - 1] buf =
    Some (\<lambda>i. if 0 \<le> i \<and> i < n * c then g (i div c) (i mod c) else buf i)"
  using assms(1)
proof (induction n rule: int_ge_induct)
  case base
  show ?case by (auto simp: fun_eq_iff)
next
  case (step n)
  have split: "[0..n + 1 - 1] = [0..n - 1] @ [n]" using step.hyps by (simp add: upto_rec2)
  have new: "i div c = n" "i - n * c = i mod c" if "n * c \<le> i" "i < n * c + c" for i
  proof -
    show "i div c = n" by (rule int_div_pos_eq [where r = "i - n * c"]) (use that in \<open>simp_all add: mult.commute\<close>)
    then show "i - n * c = i mod c" by (simp add: minus_div_mult_eq_mod [symmetric])
  qed
  have "write_at (n * c) c (g n) (\<lambda>i. if 0 \<le> i \<and> i < n * c then g (i div c) (i mod c) else buf i) i =
      (if 0 \<le> i \<and> i < (n + 1) * c then g (i div c) (i mod c) else buf i)" for i
  proof (cases "n * c \<le> i \<and> i < n * c + c")
    case True
    have "0 \<le> n * c" using step.hyps assms(2) by simp
    with True have "0 \<le> i" "i < (n + 1) * c" by (simp_all add: distrib_right)
    moreover note new [OF True [THEN conjunct1] True [THEN conjunct2]]
    ultimately have "0 \<le> i" "i < (n + 1) * c" "i div c = n" "i - n * c = i mod c" .
    then show ?thesis unfolding write_at_def using True by (simp only: if_True simp_thms)
  next
    case False
    then have "i < (n + 1) * c \<longleftrightarrow> i < n * c" using assms(2) by (auto simp: distrib_right)
    with False show ?thesis by (auto simp: write_at_def)
  qed
  from ext [OF this] show ?case unfolding split fold_opt_append step.IH by simp
qed

section \<open>What a collective promises\<close>

text \<open>The elements a rank contributes, and the part of its receive buffer that is compared.\<close>

definition send_view :: "threadArgs \<Rightarrow> elt_type \<Rightarrow> bool \<Rightarrow> int \<Rightarrow> gpu_bufs \<Rightarrow> int \<Rightarrow> u64" where
  "send_view args ty in_place r b k =
     (if in_place then recvbuff b (elts ty (sendInplaceOffset args * u64_of_int r) + k) else sendbuff b k)"

definition recv_view :: "threadArgs \<Rightarrow> elt_type \<Rightarrow> bool \<Rightarrow> int \<Rightarrow> gpu_bufs \<Rightarrow> int \<Rightarrow> u64" where
  "recv_view args ty in_place r b k =
     recvbuff b ((if in_place then elts ty (recvInplaceOffset args * u64_of_int r) else 0) + k)"

definition rank_tree :: "int \<Rightarrow> redtree \<Rightarrow> bool" where
  "rank_tree n t \<longleftrightarrow> set (leaves t) = {0..<n} \<and> distinct (leaves t)"

text \<open>A value is a reduction of one value per rank when some tree of the ranks computes it.\<close>

definition is_reduction :: "elt_type \<Rightarrow> reduce_op \<Rightarrow> int \<Rightarrow> (int \<Rightarrow> u64) \<Rightarrow> u64 \<Rightarrow> bool" where
  "is_reduction ty op n x y \<longleftrightarrow>
     (\<exists>t. rank_tree n t \<and> map_option (elt_post_op ty op) (reduce_tree (elt_op ty op) (\<lambda>r. elt_pre_op ty op (x r) r) t) = Some y)"

text \<open>
  The results of the collectives, by their documented meaning: \<open>send j\<close> are the \<open>sc\<close> elements rank \<open>j\<close> sends,
  \<open>before r\<close> and \<open>after r\<close> the \<open>rc\<close> elements of the receive buffer of rank \<open>r\<close> before and after the call.
\<close>

fun coll_result :: "testColl \<Rightarrow> elt_type \<Rightarrow> reduce_op \<Rightarrow> int \<Rightarrow> int \<Rightarrow> int \<Rightarrow> int \<Rightarrow> (int \<Rightarrow> int \<Rightarrow> u64) \<Rightarrow> (int \<Rightarrow> int \<Rightarrow> u64) \<Rightarrow>
    (int \<Rightarrow> int \<Rightarrow> u64) \<Rightarrow> bool" where
  "coll_result AllGatherTest ty op n rt sc rc send before after =
     (\<forall>r\<in>{0..<n}. \<forall>j\<in>{0..<n}. \<forall>k\<in>{0..<sc}. after r (j * sc + k) = send j k)"
| "coll_result HyperCubeTest ty op n rt sc rc send before after =
     (\<forall>r\<in>{0..<n}. \<forall>j\<in>{0..<n}. \<forall>k\<in>{0..<sc}. after r (j * sc + k) = send j k)"
| "coll_result BroadcastTest ty op n rt sc rc send before after =
     (\<forall>r\<in>{0..<n}. \<forall>k\<in>{0..<rc}. after r k = send rt k)"
| "coll_result GatherTest ty op n rt sc rc send before after =
     ((\<forall>j\<in>{0..<n}. \<forall>k\<in>{0..<sc}. after rt (j * sc + k) = send j k)
      \<and> (\<forall>r\<in>{0..<n}. \<forall>k\<in>{0..<rc}. r \<noteq> rt \<longrightarrow> after r k = before r k))"
| "coll_result ScatterTest ty op n rt sc rc send before after =
     (\<forall>r\<in>{0..<n}. \<forall>k\<in>{0..<rc}. after r k = send rt (r * rc + k))"
| "coll_result SendRecvTest ty op n rt sc rc send before after =
     (\<forall>r\<in>{0..<n}. \<forall>k\<in>{0..<rc}. after r k = send ((r - 1 + n) mod n) k)"
| "coll_result AlltoAllTest ty op n rt sc rc send before after =
     (\<forall>r\<in>{0..<n}. \<forall>j\<in>{0..<n}. \<forall>k\<in>{0..<sc div n}. after r (j * (sc div n) + k) = send j (r * (sc div n) + k))"
| "coll_result AllReduceTest ty op n rt sc rc send before after =
     (\<forall>r\<in>{0..<n}. \<forall>k\<in>{0..<rc}. is_reduction ty op n (\<lambda>j. send j k) (after r k))"
| "coll_result ReduceScatterTest ty op n rt sc rc send before after =
     (\<forall>r\<in>{0..<n}. \<forall>k\<in>{0..<rc}. is_reduction ty op n (\<lambda>j. send j (r * rc + k)) (after r k))"
| "coll_result ReduceTest ty op n rt sc rc send before after =
     ((\<forall>k\<in>{0..<rc}. is_reduction ty op n (\<lambda>j. send j k) (after rt k))
      \<and> (\<forall>r\<in>{0..<n}. \<forall>k\<in>{0..<rc}. r \<noteq> rt \<longrightarrow> after r k = before r k))"

section \<open>Element positions\<close>

lemma elts_times:
  assumes "unat x * unat y \<le> unat (b div wordSize ty)"
  shows "elts ty (x * wordSize ty * y) = uint x * uint y" "elts ty (y * (x * wordSize ty)) = uint x * uint y"
    "elts ty (x * y * wordSize ty) = uint x * uint y"
proof -
  have "unat (x * wordSize ty * y) = unat x * unat y * unat (wordSize ty)"
    using in_place_word [where off = x and rank = y and b = b and ws = "wordSize ty" and k = 0] assms by simp
  then have "unat (x * wordSize ty * y div wordSize ty) = unat x * unat y" by (simp only: unat_div) simp
  then show "elts ty (x * wordSize ty * y) = uint x * uint y" by (simp only: elts_def uint_nat of_nat_mult)
  then show "elts ty (y * (x * wordSize ty)) = uint x * uint y" "elts ty (x * y * wordSize ty) = uint x * uint y"
    by (simp_all only: mult.commute mult.left_commute)
qed

lemma setup_counts:
  fixes t ty args b
  defines "a \<equiv> setupArgs (getCollByteCount t) b ty args" and "c \<equiv> run_counts t b ty args"
  shows "sendBytes a = sendcount c * wordSize ty" "sendBytes a div wordSize ty = sendcount c"
    and "expectedBytes a = recvcount c * wordSize ty" "expectedBytes a div wordSize ty = recvcount c"
    and "sendInplaceOffset a = sendInplace c * wordSize ty" "recvInplaceOffset a = recvInplace c * wordSize ty"
proof -
  note bytes = setupArgs_bytes [of t b ty args, folded a_def c_def]
  show f: "sendBytes a = sendcount c * wordSize ty" "expectedBytes a = recvcount c * wordSize ty"
    "sendInplaceOffset a = sendInplace c * wordSize ty" "recvInplaceOffset a = recvInplace c * wordSize ty"
    by (simp_all add: a_def c_def setupArgs_def Let_def)
  show "sendBytes a div wordSize ty = sendcount c" "expectedBytes a div wordSize ty = recvcount c"
    by (simp_all add: word_unat_eq_iff unat_div bytes)
qed

lemma rank_words:
  assumes "wf_args args" "0 \<le> r" "r < nranks_of args"
  shows "uint (u64_of_int r) = r" "unat (u64_of_int r) < unat (u64_of_int (nranks_of args))"
proof -
  have lt: "r < 2 ^ LENGTH(64)" using assms by (simp add: wf_args_def)
  then have u: "unat (u64_of_int r) = nat r" using assms by (intro unat_word_of_int_small) simp_all
  with assms show "unat (u64_of_int r) < unat (u64_of_int (nranks_of args))" by (simp add: nranks_word)
  show "uint (u64_of_int r) = r" using u assms(2) by (simp only: uint_nat)
qed

lemma in_place_elts:
  fixes t ty args b
  defines "a \<equiv> setupArgs (getCollByteCount t) b ty args" and "c \<equiv> run_counts t b ty args"
  assumes r: "wf_args args" "0 \<le> r" "r < nranks_of args"
  shows "elts ty (sendInplaceOffset a * u64_of_int r) = uint (sendInplace c) * r"
    and "elts ty (recvInplaceOffset a * u64_of_int r) = uint (recvInplace c) * r"
  unfolding setup_counts [of t b ty args, folded a_def c_def]
  using sized.in_place_le [OF wordSize_width rank_words(2) [OF r], of t "b div wordSize ty" ty]
  by (simp_all only: c_def rank_words(1) [OF r] elts_times(1) [where b = b] add_leD1)

text \<open>The counts that are a share for every rank.\<close>

lemma block_elts:
  fixes t ty args b
  defines "a \<equiv> setupArgs (getCollByteCount t) b ty args" and "c \<equiv> run_counts t b ty args"
  assumes j: "wf_args args" "0 \<le> j" "j < nranks_of args"
    and t: "t \<in> {AllGatherTest, HyperCubeTest, GatherTest}"
  shows "elts ty (sendBytes a * u64_of_int j) = uint (sendcount c) * j"
    and "elts ty (u64_of_int j * sendBytes a) = uint (sendcount c) * j"
    and "uint (recvcount c) = nranks_of args * uint (sendcount c)" "sendInplace c = sendcount c" "recvInplace c = 0"
proof -
  have c: "sendcount c = base_count (b div wordSize ty) (wordSize ty) (u64_of_int (nranks_of args))"
    "recvcount c = base_count (b div wordSize ty) (wordSize ty) (u64_of_int (nranks_of args)) * u64_of_int (nranks_of args)"
    "sendInplace c = sendcount c" "recvInplace c = 0"
    using t by (auto simp: c_def count_defs Let_def)
  then show "sendInplace c = sendcount c" "recvInplace c = 0" by blast+
  have n: "unat (sendcount c) * unat (u64_of_int (nranks_of args)) \<le> unat (b div wordSize ty)"
    unfolding c(1) by (rule base_count_times_le [OF wordSize_width])
  then have "unat (sendcount c) * unat (u64_of_int j) \<le> unat (b div wordSize ty)"
    using rank_words(2) [OF j] by (elim order_trans [rotated]) simp
  then show "elts ty (sendBytes a * u64_of_int j) = uint (sendcount c) * j" "elts ty (u64_of_int j * sendBytes a) = uint (sendcount c) * j"
    unfolding setup_counts [of t b ty args, folded a_def c_def]
    by (simp_all only: elts_times [where b = b] rank_words(1) [OF j])
  have "uint (recvcount c) = int (unat (sendcount c) * unat (u64_of_int (nranks_of args)))"
    unfolding c(1,2) uint_nat base_count_times [OF wordSize_width] ..
  then show "uint (recvcount c) = nranks_of args * uint (sendcount c)"
    using j by (simp only: nranks_word of_nat_mult uint_nat) simp
qed

lemma write_at_inside: "p \<le> i \<Longrightarrow> i < p + n \<Longrightarrow> write_at p n f buf i = f (i - p)"
  by (simp add: write_at_def)

lemma block_index:
  fixes j k c :: int
  assumes "0 \<le> j" "j < n" "0 \<le> k" "k < c"
  shows "0 \<le> j * c + k" "j * c + k < n * c" "(j * c + k) div c = j" "(j * c + k) mod c = k"
  using mixed_radix [OF assms] assms by simp_all

lemma expected_blocks:
  assumes "\<And>j. 0 \<le> j \<Longrightarrow> j < n \<Longrightarrow> p j = uint cnt * j" and n: "0 \<le> n"
  shows "\<exists>e. fold_opt (\<lambda>j. InitData ty NcclSum cnt offset (u64_of_int (seed j)) 1 0 (p j)) [0..n - 1] buf = Some e
    \<and> (\<forall>j\<in>{0..<n}. \<forall>k\<in>{0..<uint cnt}. e (j * uint cnt + k) = elt_data ty (seed j) (offset + u64_of_int k))"
proof -
  let ?g = "\<lambda>j k. elt_data ty (seed j) (offset + u64_of_int k)"
  have "fold_opt (\<lambda>j. InitData ty NcclSum cnt offset (u64_of_int (seed j)) 1 0 (p j)) [0..n - 1] buf =
      fold_opt (\<lambda>j b. Some (write_at (j * uint cnt) (uint cnt) (?g j) b)) [0..n - 1] buf"
    using assms(1) by (intro fold_opt_cong) (simp add: InitData_copy mult.commute)
  also have "\<dots> = Some (\<lambda>i. if 0 \<le> i \<and> i < n * uint cnt then ?g (i div uint cnt) (i mod uint cnt) else buf i)"
    by (rule fold_opt_blocks [OF n]) simp
  finally show ?thesis using block_index [where n = n and c = "uint cnt"] by auto
qed

lemma AllGather_init:
  fixes ty args b r
  defines "a \<equiv> setupArgs AllGatherGetCollByteCount b ty args" and "c \<equiv> run_counts AllGatherTest b ty args"
  assumes r: "wf_args args" "0 \<le> r" "r < nranks_of args"
  shows "\<exists>m'. AllGatherInitData a ty red rt rep in_place r m = Some m'
    \<and> (\<forall>k\<in>{0..<uint (sendcount c)}. send_view a ty in_place r m' k = elt_data ty (block_seed rep r) (u64_of_int k))
    \<and> (\<forall>j\<in>{0..<nranks_of args}. \<forall>k\<in>{0..<uint (sendcount c)}.
         expected m' (j * uint (sendcount c) + k) = elt_data ty (block_seed rep j) (u64_of_int k))"
proof -
  have a: "a = setupArgs (getCollByteCount AllGatherTest) b ty args" by (simp add: a_def)
  note cs = setup_counts [of AllGatherTest b ty args, folded c_def, folded a]
  note be = block_elts [where args = args and t = AllGatherTest and b = b and ty = ty, folded c_def, folded a]
  note ip = in_place_elts [OF r, where t = AllGatherTest and b = b and ty = ty, folded c_def, folded a]
  have n: "nranks_of a = nranks_of args" by (simp add: a)
  have "\<exists>e. fold_opt (\<lambda>j. InitData ty NcclSum (sendcount c) 0 (u64_of_int (block_seed rep j)) 1 0 (elts ty (sendBytes a * u64_of_int j)))
      [0..nranks_of args - 1] (expected m) = Some e
    \<and> (\<forall>j\<in>{0..<nranks_of args}. \<forall>k\<in>{0..<uint (sendcount c)}. e (j * uint (sendcount c) + k) = elt_data ty (block_seed rep j) (0 + u64_of_int k))"
    by (rule expected_blocks [where p = "\<lambda>j. elts ty (sendBytes a * u64_of_int j)"]) (use r be(1) in simp_all)
  then obtain e where e: "fold_opt (\<lambda>j. InitData ty NcclSum (sendcount c) 0 (u64_of_int (block_seed rep j)) 1 0 (elts ty (sendBytes a * u64_of_int j)))
      [0..nranks_of args - 1] (expected m) = Some e"
    "\<And>j k. j \<in> {0..<nranks_of args} \<Longrightarrow> k \<in> {0..<uint (sendcount c)} \<Longrightarrow> e (j * uint (sendcount c) + k) = elt_data ty (block_seed rep j) (0 + u64_of_int k)"
    by blast
  show ?thesis
    unfolding AllGatherInitData_def Let_def cs(2) n
    using e(2) be(2) [OF r] ip(1) be(4) [OF r]
    by (cases in_place) (simp_all add: init_own_def init_expected_def clear_recv_def InitData_copy e(1) send_view_def write_at_inside)
qed

lemmas init_simps = init_own_def init_expected_def clear_recv_def copy_expected_def memcpy_elts_def InitData_copy send_view_def
  write_at_inside

lemma HyperCube_init: "HyperCubeInitData = AllGatherInitData" "HyperCubeGetCollByteCount = AllGatherGetCollByteCount"
  by (simp_all add: fun_eq_iff HyperCubeInitData_def AllGatherInitData_def count_defs)

lemma zero_elts [simp]: "elts ty 0 = 0"
  by (simp add: elts_def)

lemma Broadcast_init:
  fixes ty args b
  defines "a \<equiv> setupArgs BroadcastGetCollByteCount b ty args" and "c \<equiv> run_counts BroadcastTest b ty args"
  shows "\<exists>m'. BroadcastInitData a ty red rt rep in_place r m = Some m'
    \<and> (r = rt \<longrightarrow> (\<forall>k\<in>{0..<uint (sendcount c)}. send_view a ty in_place r m' k = elt_data ty rep (u64_of_int k)))
    \<and> (\<forall>k\<in>{0..<uint (recvcount c)}. expected m' k = elt_data ty rep (u64_of_int k))"
proof -
  have a: "a = setupArgs (getCollByteCount BroadcastTest) b ty args" by (simp add: a_def)
  note cs = setup_counts [of BroadcastTest b ty args, folded c_def, folded a]
  have z: "sendInplace c = 0" "sendcount c = recvcount c" by (simp_all add: c_def count_defs)
  show ?thesis
    unfolding BroadcastInitData_def Let_def
    by (cases in_place) (simp_all add: cs(2,4,5) z init_simps)
qed

lemma Scatter_init:
  fixes ty args b r
  defines "a \<equiv> setupArgs ScatterGetCollByteCount b ty args" and "c \<equiv> run_counts ScatterTest b ty args"
  shows "\<exists>m'. ScatterInitData a ty red rt rep in_place r m = Some m'
    \<and> (r = rt \<longrightarrow> (\<forall>k\<in>{0..<uint (sendcount c)}. send_view a ty in_place r m' k = elt_data ty rep (u64_of_int k)))
    \<and> (\<forall>k\<in>{0..<uint (recvcount c)}. expected m' k = elt_data ty rep (u64_of_int (r * uint (recvcount c) + k)))"
proof -
  have a: "a = setupArgs (getCollByteCount ScatterTest) b ty args" by (simp add: a_def)
  note cs = setup_counts [of ScatterTest b ty args, folded c_def, folded a]
  have z: "sendInplace c = 0" by (simp add: c_def count_defs Let_def)
  show ?thesis
    unfolding ScatterInitData_def Let_def
    by (cases in_place) (simp_all add: cs(2,4,5) z init_simps)
qed

lemma SendRecv_init:
  fixes ty args b r
  defines "a \<equiv> setupArgs SendRecvGetCollByteCount b ty args" and "c \<equiv> run_counts SendRecvTest b ty args"
  assumes r: "0 \<le> r" "r < nranks_of args"
  shows "\<exists>m'. SendRecvInitData a ty red rt rep in_place r m = Some m'
    \<and> (\<forall>k\<in>{0..<uint (sendcount c)}. send_view a ty in_place r m' k = elt_data ty rep (u64_of_int (r * uint (sendcount c) + k)))
    \<and> (\<forall>k\<in>{0..<uint (recvcount c)}.
         expected m' k = elt_data ty rep (u64_of_int ((r - 1 + nranks_of args) mod nranks_of args * uint (recvcount c) + k)))"
proof -
  have a: "a = setupArgs (getCollByteCount SendRecvTest) b ty args" by (simp add: a_def)
  note cs = setup_counts [of SendRecvTest b ty args, folded c_def, folded a]
  have z: "sendInplace c = 0" by (simp add: c_def count_defs)
  have n: "nranks_of a = nranks_of args" by (simp add: a_def)
  have "(r - 1 + nranks_of args) smod nranks_of args = (r - 1 + nranks_of args) mod nranks_of args"
    using r by (intro smod_nonneg) simp_all
  then show ?thesis
    unfolding SendRecvInitData_def Let_def n
    by (cases in_place) (simp_all add: cs(2,4,5) z init_simps)
qed

lemma Gather_init:
  fixes ty args b r
  defines "a \<equiv> setupArgs GatherGetCollByteCount b ty args" and "c \<equiv> run_counts GatherTest b ty args"
  assumes r: "wf_args args" "0 \<le> r" "r < nranks_of args"
  shows "\<exists>m'. GatherInitData a ty red rt rep in_place r m = Some m'
    \<and> (\<forall>k\<in>{0..<uint (sendcount c)}. send_view a ty in_place r m' k = elt_data ty rep (u64_of_int (r * uint (sendcount c) + k)))
    \<and> (\<forall>k\<in>{0..<uint (recvcount c)}. expected m' k = (if r = rt then elt_data ty rep (u64_of_int k) else recvbuff m' k))"
proof -
  have a: "a = setupArgs (getCollByteCount GatherTest) b ty args" by (simp add: a_def)
  note cs = setup_counts [of GatherTest b ty args, folded c_def, folded a]
  note be = block_elts [where args = args and t = GatherTest and b = b and ty = ty, folded c_def, folded a, OF r]
  note ip = in_place_elts [OF r, where t = GatherTest and b = b and ty = ty, folded c_def, folded a]
  have n: "nranks_of a = nranks_of args" by (simp add: a_def)
  have rc: "u64_of_int (nranks_of args) * sendcount c = recvcount c" by (simp add: c_def count_defs Let_def)
  have re: "elts ty (recvcount c * wordSize ty) = uint (recvcount c)" unfolding elts_def cs(3) [symmetric] cs(4) ..
  show ?thesis
    unfolding GatherInitData_def Let_def n cs(2) rc
    using be(2,4) ip(1) by (cases in_place) (simp_all add: init_simps cs(3) re)
qed

lemma AlltoAll_init:
  fixes ty args b r
  defines "a \<equiv> setupArgs AlltoAllGetCollByteCount b ty args" and "c \<equiv> run_counts AlltoAllTest b ty args"
  defines "p \<equiv> uint (sendcount c) div nranks_of args"
  assumes r: "wf_args args" "0 \<le> r" "r < nranks_of args"
  shows "\<exists>m'. AlltoAllInitData a ty red rt rep in_place r m = Some m'
    \<and> (\<forall>k\<in>{0..<uint (sendcount c)}. send_view a ty in_place r m' k = elt_data ty (block_seed rep r) (u64_of_int k))
    \<and> (\<forall>j\<in>{0..<nranks_of args}. \<forall>k\<in>{0..<p}.
         expected m' (j * p + k) = elt_data ty (block_seed rep j) (u64_of_int (r * p + k)))
    \<and> uint (sendcount c) = nranks_of args * p \<and> uint (recvcount c) = nranks_of args * p"
proof -
  have a: "a = setupArgs (getCollByteCount AlltoAllTest) b ty args" by (simp add: a_def)
  note cs = setup_counts [of AlltoAllTest b ty args, folded c_def, folded a]
  have z: "sendInplace c = 0" "recvcount c = sendcount c" by (simp_all add: c_def count_defs Let_def)
  have n: "nranks_of a = nranks_of args" by (simp add: a_def)
  define q where "q = base_count (b div wordSize ty) (wordSize ty) (u64_of_int (nranks_of args))"
  have sq: "sendcount c = q * u64_of_int (nranks_of args)" by (simp add: c_def count_defs Let_def q_def)
  have nn: "uint (u64_of_int (nranks_of args)) = nranks_of args" "0 < nranks_of args"
    using r nranks_word(1) [OF r(1)] by (simp_all add: uint_nat del: of_nat_unat)
  have "unat (q * u64_of_int (nranks_of args)) = unat q * unat (u64_of_int (nranks_of args))"
    unfolding q_def by (rule base_count_times [OF wordSize_width])
  then have us: "uint (sendcount c) = uint q * nranks_of args"
    using nn(1) by (simp only: sq uint_nat of_nat_mult)
  then have p: "p = uint q" using nn(2) by (simp add: p_def)
  have part: "sendcount c div u64_of_int (nranks_of args) = q"
    using us nn by (simp add: word_uint_eq_iff uint_div)
  have pos: "elts ty (u64_of_int j * q * wordSize ty) = uint q * j" if "0 \<le> j" "j < nranks_of args" for j
  proof -
    have "unat q * unat (u64_of_int j) \<le> unat q * unat (u64_of_int (nranks_of args))"
      using rank_words(2) [OF r(1) that] by (intro mult_le_mono2) simp
    also have "\<dots> \<le> unat (b div wordSize ty)" unfolding q_def by (rule base_count_times_le [OF wordSize_width])
    finally have "elts ty (q * u64_of_int j * wordSize ty) = uint q * uint (u64_of_int j)" by (rule elts_times(3))
    then show ?thesis using rank_words(1) [OF r(1) that] by (simp only: mult.commute)
  qed
  have "\<exists>e. fold_opt (\<lambda>j. InitData ty NcclSum q (u64_of_int r * q) (u64_of_int (block_seed rep j)) 1 0
        (elts ty (u64_of_int j * q * wordSize ty))) [0..nranks_of args - 1] (expected m) = Some e
    \<and> (\<forall>j\<in>{0..<nranks_of args}. \<forall>k\<in>{0..<uint q}. e (j * uint q + k) = elt_data ty (block_seed rep j) (u64_of_int r * q + u64_of_int k))"
    by (rule expected_blocks [where p = "\<lambda>j. elts ty (u64_of_int j * q * wordSize ty)"]) (use r pos in simp_all)
  then obtain e where e: "fold_opt (\<lambda>j. InitData ty NcclSum q (u64_of_int r * q) (u64_of_int (block_seed rep j)) 1 0
        (elts ty (u64_of_int j * q * wordSize ty))) [0..nranks_of args - 1] (expected m) = Some e"
    "\<And>j k. j \<in> {0..<nranks_of args} \<Longrightarrow> k \<in> {0..<uint q} \<Longrightarrow> e (j * uint q + k) = elt_data ty (block_seed rep j) (u64_of_int r * q + u64_of_int k)"
    by blast
  show ?thesis
    unfolding AlltoAllInitData_def Let_def n cs(2) part p
    using e(2) us by (cases in_place) (simp_all add: init_simps e(1) cs(5) z us)
qed

section \<open>The data of the reductions\<close>

definition red_data :: "elt_type \<Rightarrow> red_code \<Rightarrow> int \<Rightarrow> int \<Rightarrow> int \<Rightarrow> u64 \<Rightarrow> u64" where
  "red_data ty red n seed r ix = the (gen_input ty (case_op red n) n r (u64_of_int seed) ix)"

definition red_expected :: "elt_type \<Rightarrow> red_code \<Rightarrow> int \<Rightarrow> int \<Rightarrow> u64 \<Rightarrow> u64" where
  "red_expected ty red n seed ix = the (gen_output ty (case_op red n) n (u64_of_int seed) ix)"

lemma reduce_tree_inputs: "reduce_tree f g t = Some y \<Longrightarrow> r \<in> set (leaves t) \<Longrightarrow> g r \<noteq> None"
  by (induction t arbitrary: y) (auto split: option.splits)

lemma gen_some:
  assumes n: "0 < n" "n < 2 ^ 31" and "enough_units ty red n"
  shows "gen_output ty (case_op red n) n seed ix \<noteq> None"
    and "0 \<le> r \<Longrightarrow> r < n \<Longrightarrow> gen_input ty (case_op red n) n r seed ix \<noteq> None"
proof -
  from elt_reduction_expected [OF assms loop_tree_leaves [OF n(1)], of seed ix]
  obtain y where y: "gen_output ty (case_op red n) n seed ix = Some y"
    "elt_reduction ty (case_op red n) n seed ix (loop_tree (nat n - 1)) = Some y" by blast
  then show "gen_output ty (case_op red n) n seed ix \<noteq> None" by simp
  show "gen_input ty (case_op red n) n r seed ix \<noteq> None" if "0 \<le> r" "r < n"
  proof -
    from y(2) obtain z where "reduce_tree (elt_op ty (case_op red n)) (elt_contribution ty (case_op red n) n seed ix) (loop_tree (nat n - 1)) = Some z"
      by (auto simp: elt_reduction_def)
    from reduce_tree_inputs [OF this, of r] that loop_tree_leaves(1) [OF n(1)]
    show ?thesis by (auto simp: elt_contribution_def split: bind_splits)
  qed
qed

lemma is_reduction_expected:
  assumes n: "0 < n" "n < 2 ^ 31" and units: "enough_units ty red n"
    and red: "is_reduction ty (case_op red n) n (\<lambda>j. red_data ty red n seed j ix) y"
  shows "y = red_expected ty red n seed ix"
proof -
  let ?op = "case_op red n"
  from red obtain t where t: "set (leaves t) = {0..<n}" "distinct (leaves t)"
    "map_option (elt_post_op ty ?op) (reduce_tree (elt_op ty ?op) (\<lambda>j. elt_pre_op ty ?op (red_data ty red n seed j ix) j) t) = Some y"
    by (auto simp: is_reduction_def rank_tree_def)
  have "elt_contribution ty ?op n (u64_of_int seed) ix j = elt_pre_op ty ?op (red_data ty red n seed j ix) j" if "j \<in> set (leaves t)" for j
    using that t(1) gen_some(2) [OF assms(1-3), of j "u64_of_int seed" ix] by (auto simp: elt_contribution_def red_data_def)
  then have "reduce_tree (elt_op ty ?op) (elt_contribution ty ?op n (u64_of_int seed) ix) t =
      reduce_tree (elt_op ty ?op) (\<lambda>j. elt_pre_op ty ?op (red_data ty red n seed j ix) j) t"
    by (rule reduce_tree_cong)
  with t(3) have "elt_reduction ty ?op n (u64_of_int seed) ix t = Some y" by (simp add: elt_reduction_def)
  with elt_reduction_expected [OF n units t(1,2), of "u64_of_int seed" ix] show ?thesis
    by (auto simp: red_expected_def)
qed

lemma wf_nranks: "wf_args args \<Longrightarrow> 0 < nranks_of args \<and> nranks_of args < 2 ^ 31"
  by (simp add: wf_args_def nranks_of_def)

lemma InitData_red:
  assumes "wf_args args" "0 \<le> r" "r < nranks_of args" and "enough_units ty red (nranks_of args)"
  shows "InitData ty red cnt offset (u64_of_int seed) (nranks_of args) r p buf =
      Some (write_at p (uint cnt) (\<lambda>i. red_data ty red (nranks_of args) seed r (offset + u64_of_int i)) buf)"
    and "InitDataReduce ty red cnt offset (u64_of_int seed) (nranks_of args) buf =
      Some (write_at 0 (uint cnt) (\<lambda>i. red_expected ty red (nranks_of args) seed (offset + u64_of_int i)) buf)"
proof -
  note n = wf_nranks [OF assms(1), THEN conjunct1] wf_nranks [OF assms(1), THEN conjunct2]
  show "InitData ty red cnt offset (u64_of_int seed) (nranks_of args) r p buf =
      Some (write_at p (uint cnt) (\<lambda>i. red_data ty red (nranks_of args) seed r (offset + u64_of_int i)) buf)"
    unfolding red_data_def by (rule InitData_eq) (rule gen_some(2) [OF n assms(4,2,3)])
  show "InitDataReduce ty red cnt offset (u64_of_int seed) (nranks_of args) buf =
      Some (write_at 0 (uint cnt) (\<lambda>i. red_expected ty red (nranks_of args) seed (offset + u64_of_int i)) buf)"
    unfolding red_expected_def by (rule InitDataReduce_eq) (rule gen_some(1) [OF n assms(4)])
qed

lemma AllReduce_init:
  fixes ty args b r
  defines "a \<equiv> setupArgs AllReduceGetCollByteCount b ty args" and "c \<equiv> run_counts AllReduceTest b ty args"
  assumes r: "wf_args args" "0 \<le> r" "r < nranks_of args" and units: "enough_units ty red (nranks_of args)"
  shows "\<exists>m'. AllReduceInitData a ty red rt rep in_place r m = Some m'
    \<and> (\<forall>k\<in>{0..<uint (sendcount c)}. send_view a ty in_place r m' k = red_data ty red (nranks_of args) rep r (u64_of_int k))
    \<and> (\<forall>k\<in>{0..<uint (recvcount c)}. expected m' k = red_expected ty red (nranks_of args) rep (u64_of_int k))"
proof -
  have a: "a = setupArgs (getCollByteCount AllReduceTest) b ty args" by (simp add: a_def)
  note cs = setup_counts [of AllReduceTest b ty args, folded c_def, folded a]
  have z: "sendInplace c = 0" "nranks_of a = nranks_of args" by (simp_all add: c_def count_defs a_def)
  show ?thesis
    unfolding AllReduceInitData_def Let_def z(2)
    by (cases in_place) (simp_all add: cs(2,4,5) z init_simps InitData_red [OF r units])
qed

lemma ReduceScatter_init:
  fixes ty args b r
  defines "a \<equiv> setupArgs ReduceScatterGetCollByteCount b ty args" and "c \<equiv> run_counts ReduceScatterTest b ty args"
  assumes r: "wf_args args" "0 \<le> r" "r < nranks_of args" and units: "enough_units ty red (nranks_of args)"
  shows "\<exists>m'. ReduceScatterInitData a ty red rt rep in_place r m = Some m'
    \<and> (\<forall>k\<in>{0..<uint (sendcount c)}. send_view a ty in_place r m' k = red_data ty red (nranks_of args) rep r (u64_of_int k))
    \<and> (\<forall>k\<in>{0..<uint (recvcount c)}.
         expected m' k = red_expected ty red (nranks_of args) rep (u64_of_int (r * uint (recvcount c) + k)))"
proof -
  have a: "a = setupArgs (getCollByteCount ReduceScatterTest) b ty args" by (simp add: a_def)
  note cs = setup_counts [of ReduceScatterTest b ty args, folded c_def, folded a]
  have z: "sendInplace c = 0" "nranks_of a = nranks_of args" by (simp_all add: c_def count_defs Let_def a_def)
  show ?thesis
    unfolding ReduceScatterInitData_def Let_def z(2)
    by (cases in_place) (simp_all add: cs(2,4,5) z init_simps InitData_red [OF r units])
qed

lemma Reduce_init:
  fixes ty args b r
  defines "a \<equiv> setupArgs ReduceGetCollByteCount b ty args" and "c \<equiv> run_counts ReduceTest b ty args"
  assumes r: "wf_args args" "0 \<le> r" "r < nranks_of args" and units: "enough_units ty red (nranks_of args)"
  shows "\<exists>m'. ReduceInitData a ty red rt rep in_place r m = Some m'
    \<and> (\<forall>k\<in>{0..<uint (sendcount c)}. send_view a ty in_place r m' k = red_data ty red (nranks_of args) rep r (u64_of_int k))
    \<and> (\<forall>k\<in>{0..<uint (recvcount c)}.
         expected m' k = (if r = rt then red_expected ty red (nranks_of args) rep (u64_of_int k) else recvbuff m' k))"
proof -
  have a: "a = setupArgs (getCollByteCount ReduceTest) b ty args" by (simp add: a_def)
  note cs = setup_counts [of ReduceTest b ty args, folded c_def, folded a]
  have z: "sendInplace c = 0" "nranks_of a = nranks_of args" by (simp_all add: c_def count_defs a_def)
  have re: "elts ty (expectedBytes a) = uint (recvcount c)" unfolding elts_def cs(4) ..
  show ?thesis
    unfolding ReduceInitData_def Let_def z(2)
    by (cases in_place) (simp_all add: cs(2,4,5) re z init_simps InitData_red [OF r units])
qed

section \<open>A correct collective passes the check\<close>

text \<open>The data of element \<open>k\<close> of rank \<open>r\<close>, and the value expected there; \<open>keep\<close> is what the buffer held before.\<close>

definition send_data :: "testColl \<Rightarrow> elt_type \<Rightarrow> red_code \<Rightarrow> int \<Rightarrow> int \<Rightarrow> int \<Rightarrow> int \<Rightarrow> int \<Rightarrow> u64" where
  "send_data t ty red n rep sc r k =
     (if t \<in> {AllGatherTest, HyperCubeTest, AlltoAllTest} then elt_data ty (block_seed rep r) (u64_of_int k)
      else if t \<in> {BroadcastTest, ScatterTest} then elt_data ty rep (u64_of_int k)
      else if t \<in> {GatherTest, SendRecvTest} then elt_data ty rep (u64_of_int (r * sc + k))
      else red_data ty red n rep r (u64_of_int k))"

definition exp_data :: "testColl \<Rightarrow> elt_type \<Rightarrow> red_code \<Rightarrow> int \<Rightarrow> int \<Rightarrow> int \<Rightarrow> int \<Rightarrow> int \<Rightarrow> int \<Rightarrow> int \<Rightarrow> u64 \<Rightarrow> u64" where
  "exp_data t ty red n rt rep sc rc r i keep =
     (case t of
        AllGatherTest \<Rightarrow> elt_data ty (block_seed rep (i div sc)) (u64_of_int (i mod sc))
      | HyperCubeTest \<Rightarrow> elt_data ty (block_seed rep (i div sc)) (u64_of_int (i mod sc))
      | BroadcastTest \<Rightarrow> elt_data ty rep (u64_of_int i)
      | GatherTest \<Rightarrow> (if r = rt then elt_data ty rep (u64_of_int i) else keep)
      | ScatterTest \<Rightarrow> elt_data ty rep (u64_of_int (r * rc + i))
      | SendRecvTest \<Rightarrow> elt_data ty rep (u64_of_int ((r - 1 + n) mod n * rc + i))
      | AlltoAllTest \<Rightarrow> elt_data ty (block_seed rep (i div (sc div n))) (u64_of_int (r * (sc div n) + i mod (sc div n)))
      | AllReduceTest \<Rightarrow> red_expected ty red n rep (u64_of_int i)
      | ReduceScatterTest \<Rightarrow> red_expected ty red n rep (u64_of_int (r * rc + i))
      | ReduceTest \<Rightarrow> (if r = rt then red_expected ty red n rep (u64_of_int i) else keep))"

lemma block_split:
  fixes i c n :: int
  assumes "0 \<le> n" "0 \<le> i" "i < n * c"
  shows "i div c \<in> {0..<n}" "i mod c \<in> {0..<c}" "i div c * c + i mod c = i"
proof -
  have c: "0 < c"
  proof (rule ccontr)
    assume "\<not> 0 < c"
    then have "n * c \<le> 0" using assms(1) by (intro mult_nonneg_nonpos) simp_all
    with assms show False by simp
  qed
  have "i div c < n"
  proof (rule ccontr)
    assume "\<not> i div c < n"
    then have "n * c \<le> i div c * c" using c by (intro mult_right_mono) simp_all
    moreover have "0 \<le> i mod c" "i div c * c + i mod c = i" using c by simp_all
    ultimately show False using assms(3) by linarith
  qed
  then show "i div c \<in> {0..<n}" using assms(2) c by (simp add: pos_imp_zdiv_nonneg_iff)
  show "i mod c \<in> {0..<c}" using c by simp
  show "i div c * c + i mod c = i" by simp
qed

text \<open>How the counts of a test are related.\<close>

definition counts_related :: "testColl \<Rightarrow> int \<Rightarrow> int \<Rightarrow> int \<Rightarrow> bool" where
  "counts_related t n sc rc \<longleftrightarrow> 0 \<le> sc \<and> 0 \<le> rc \<and>
     (case t of AllGatherTest \<Rightarrow> rc = n * sc | HyperCubeTest \<Rightarrow> rc = n * sc | GatherTest \<Rightarrow> rc = n * sc
      | ScatterTest \<Rightarrow> sc = n * rc | ReduceScatterTest \<Rightarrow> sc = n * rc
      | AlltoAllTest \<Rightarrow> sc = n * (sc div n) \<and> rc = n * (sc div n) | _ \<Rightarrow> sc = rc)"

text \<open>On that data, a correct collective leaves the expected values.\<close>

lemma result_is_expected:
  assumes n: "0 < n" "n < 2 ^ 31" and rt: "rt \<in> {0..<n}"
    and units: "t \<in> {AllReduceTest, ReduceScatterTest, ReduceTest} \<Longrightarrow> enough_units ty red n"
    and rel: "counts_related t n sc rc"
    and send: "\<And>r k. r \<in> {0..<n} \<Longrightarrow> t \<in> {BroadcastTest, ScatterTest} \<longrightarrow> r = rt \<Longrightarrow> k \<in> {0..<sc} \<Longrightarrow> send r k = send_data t ty red n rep sc r k"
    and coll: "coll_result t ty (case_op red n) n rt sc rc send before after"
    and r: "r \<in> {0..<n}" and i: "i \<in> {0..<rc}"
  shows "after r i = exp_data t ty red n rt rep sc rc r i (before r i)"
proof -
  have blk: "i div c \<in> {0..<n}" "i mod c \<in> {0..<c}" "i div c * c + i mod c = i" if "rc = n * c" for c
    using block_split [of n i c] n i that by simp_all
  have red: "y = red_expected ty red n rep (u64_of_int k)"
    if "is_reduction ty (case_op red n) n (\<lambda>j. send j k) y" "k \<in> {0..<sc}" "t \<in> {AllReduceTest, ReduceScatterTest, ReduceTest}" for y k
  proof (rule is_reduction_expected [OF n units [OF that(3)]])
    from that(1) obtain tr where tr: "rank_tree n tr"
      "map_option (elt_post_op ty (case_op red n)) (reduce_tree (elt_op ty (case_op red n)) (\<lambda>j. elt_pre_op ty (case_op red n) (send j k) j) tr) = Some y"
      unfolding is_reduction_def by blast
    have "send j k = red_data ty red n rep j (u64_of_int k)" if "j \<in> set (leaves tr)" for j
      using send [of j, OF _ _ \<open>k \<in> _\<close>] \<open>t \<in> _\<close> tr(1) that by (auto simp: send_data_def rank_tree_def)
    then have "reduce_tree (elt_op ty (case_op red n)) (\<lambda>j. elt_pre_op ty (case_op red n) (send j k) j) tr =
        reduce_tree (elt_op ty (case_op red n)) (\<lambda>j. elt_pre_op ty (case_op red n) (red_data ty red n rep j (u64_of_int k)) j) tr"
      by (intro reduce_tree_cong) simp
    with tr show "is_reduction ty (case_op red n) n (\<lambda>j. red_data ty red n rep j (u64_of_int k)) y"
      unfolding is_reduction_def by auto
  qed
  show ?thesis
  proof (cases t)
    case AllGatherTest
    with rel blk [of sc] have b: "i div sc \<in> {0..<n}" "i mod sc \<in> {0..<sc}" "i div sc * sc + i mod sc = i"
      by (simp_all add: counts_related_def)
    have "after r (i div sc * sc + i mod sc) = send (i div sc) (i mod sc)"
      using coll AllGatherTest r b(1,2) by (simp only: coll_result.simps, blast?)
    then show ?thesis using send [OF b(1) _ b(2)] AllGatherTest b(3) by (simp add: exp_data_def send_data_def)
  next
    case HyperCubeTest
    with rel blk [of sc] have b: "i div sc \<in> {0..<n}" "i mod sc \<in> {0..<sc}" "i div sc * sc + i mod sc = i"
      by (simp_all add: counts_related_def)
    have "after r (i div sc * sc + i mod sc) = send (i div sc) (i mod sc)"
      using coll HyperCubeTest r b(1,2) by (simp only: coll_result.simps, blast?)
    then show ?thesis using send [OF b(1) _ b(2)] HyperCubeTest b(3) by (simp add: exp_data_def send_data_def)
  next
    case AlltoAllTest
    define q where "q = sc div n"
    with AlltoAllTest rel blk [of q] have b: "i div q \<in> {0..<n}" "i mod q \<in> {0..<q}" "i div q * q + i mod q = i" "sc = n * q"
      by (simp_all add: counts_related_def)
    have "r * q + i mod q \<in> {0..<sc}" using block_index [of r n "i mod q" q] r b(2,4) by simp
    moreover have "after r (i div q * q + i mod q) = send (i div q) (r * q + i mod q)"
      using coll AlltoAllTest r b(1,2) by (simp only: coll_result.simps q_def [symmetric], blast?)
    ultimately show ?thesis using send [OF b(1), of "r * q + i mod q"] AlltoAllTest b(3) by (simp add: exp_data_def send_data_def q_def)
  next
    case GatherTest
    with rel blk [of sc] have b: "i div sc \<in> {0..<n}" "i mod sc \<in> {0..<sc}" "i div sc * sc + i mod sc = i"
      by (simp_all add: counts_related_def)
    have "after rt (i div sc * sc + i mod sc) = send (i div sc) (i mod sc)" "r \<noteq> rt \<longrightarrow> after r i = before r i"
      using coll GatherTest r i b(1,2) by (simp_all only: coll_result.simps, blast+)
    then show ?thesis using send [OF b(1) _ b(2)] GatherTest b(3) by (simp add: exp_data_def send_data_def del: of_int_add)
  next
    case ScatterTest
    have "r * rc + i \<in> {0..<sc}" using block_index [of r n i rc] r i rel ScatterTest by (simp add: counts_related_def)
    then show ?thesis using send [OF rt, of "r * rc + i"] coll ScatterTest r i by (simp add: exp_data_def send_data_def)
  next
    case SendRecvTest
    have "(r - 1 + n) mod n \<in> {0..<n}" using n by simp
    then show ?thesis using send [of "(r - 1 + n) mod n" i] coll SendRecvTest r i rel
      by (simp add: exp_data_def send_data_def counts_related_def)
  next
    case BroadcastTest
    then show ?thesis using send [OF rt, of i] coll r i rel by (simp add: exp_data_def send_data_def counts_related_def)
  next
    case AllReduceTest
    then show ?thesis using red [of i] coll r i rel by (simp add: exp_data_def counts_related_def)
  next
    case ReduceScatterTest
    have "r * rc + i \<in> {0..<sc}" using block_index [of r n i rc] r i rel ReduceScatterTest by (simp add: counts_related_def)
    then show ?thesis using red [of "r * rc + i"] coll ReduceScatterTest r i by (simp add: exp_data_def)
  next
    case ReduceTest
    then show ?thesis using red [of i] coll r i rel by (auto simp: exp_data_def counts_related_def)
  qed
qed

lemma run_counts_related:
  assumes "wf_args args"
  shows "counts_related t (nranks_of args) (uint (sendcount (run_counts t b ty args))) (uint (recvcount (run_counts t b ty args)))"
proof -
  let ?base = "base_count (b div wordSize ty) (wordSize ty) (u64_of_int (nranks_of args))"
  have m: "unat (?base * u64_of_int (nranks_of args)) = unat ?base * unat (u64_of_int (nranks_of args))"
    by (rule base_count_times [OF wordSize_width])
  have n: "int (unat (u64_of_int (nranks_of args))) = nranks_of args" "0 < nranks_of args"
    using nranks_word(1) [OF assms] wf_nranks [OF assms] by (simp_all del: of_nat_unat)
  have u: "uint (?base * u64_of_int (nranks_of args)) = nranks_of args * uint ?base"
    using m n(1) by (simp only: uint_nat of_nat_mult mult.commute)
  show ?thesis
    using n(2) by (cases t) (simp_all add: counts_related_def count_defs Let_def u mult.commute [of "u64_of_int (nranks_of args)"])
qed

lemma blocks_at:
  fixes n x i :: int
  assumes "\<forall>j\<in>{0..<n}. \<forall>k\<in>{0..<x}. e (j * x + k) = g j k" "0 \<le> n" "i \<in> {0..<n * x}"
  shows "e i = g (i div x) (i mod x)"
  using block_split [of n i x] assms by (metis atLeastLessThan_iff)

text \<open>What \<open>InitData\<close> leaves in the buffers of a rank, for every collective.\<close>

lemma initData_views:
  fixes t ty args b
  defines "a \<equiv> setupArgs (getCollByteCount t) b ty args" and "c \<equiv> run_counts t b ty args" and "n \<equiv> nranks_of args"
  assumes r: "wf_args args" "0 \<le> r" "r < nranks_of args"
    and units: "t \<in> {AllReduceTest, ReduceScatterTest, ReduceTest} \<Longrightarrow> enough_units ty red (nranks_of args)"
  shows "\<exists>m'. initData t a ty red rt rep in_place r m = Some m'
    \<and> ((t \<in> {BroadcastTest, ScatterTest} \<longrightarrow> r = rt) \<longrightarrow>
        (\<forall>k\<in>{0..<uint (sendcount c)}. send_view a ty in_place r m' k = send_data t ty red n rep (uint (sendcount c)) r k))
    \<and> (\<forall>i\<in>{0..<uint (recvcount c)}.
        expected m' i = exp_data t ty red n rt rep (uint (sendcount c)) (uint (recvcount c)) r i (recv_view a ty in_place r m' i))"
proof -
  have rv: "recv_view a ty in_place r m' i = recvbuff m' i" if "t \<in> {GatherTest, ReduceTest}" for m' i
  proof -
    have "recvInplace c = 0" using that by (auto simp: c_def count_defs Let_def)
    then show ?thesis using setup_counts(6) [of t b ty args] by (simp add: recv_view_def a_def c_def)
  qed
  have n0: "0 \<le> n" using wf_nranks [OF r(1)] by (simp add: n_def)
  note rel = run_counts_related [OF r(1), of t b ty, folded c_def n_def]
  show ?thesis
  proof (cases t)
    case AllGatherTest
    then have rc: "uint (recvcount c) = n * uint (sendcount c)" using rel by (simp add: counts_related_def)
    from AllGather_init [OF r, of b ty red rt rep in_place m] obtain m' where
      "initData t a ty red rt rep in_place r m = Some m'"
      "\<forall>k\<in>{0..<uint (sendcount c)}. send_view a ty in_place r m' k = elt_data ty (block_seed rep r) (u64_of_int k)"
      and e: "\<forall>j\<in>{0..<n}. \<forall>k\<in>{0..<uint (sendcount c)}. expected m' (j * uint (sendcount c) + k) = elt_data ty (block_seed rep j) (u64_of_int k)"
      unfolding a_def c_def n_def AllGatherTest getCollByteCount.simps initData.simps by blast
    moreover note blocks_at [OF e n0]
    ultimately show ?thesis unfolding rc by (simp add: send_data_def exp_data_def AllGatherTest)
  next
    case HyperCubeTest
    then have rc: "uint (recvcount c) = n * uint (sendcount c)" using rel by (simp add: counts_related_def)
    from AllGather_init [OF r, of b ty red rt rep in_place m] obtain m' where
      "initData t a ty red rt rep in_place r m = Some m'"
      "\<forall>k\<in>{0..<uint (sendcount c)}. send_view a ty in_place r m' k = elt_data ty (block_seed rep r) (u64_of_int k)"
      and e: "\<forall>j\<in>{0..<n}. \<forall>k\<in>{0..<uint (sendcount c)}. expected m' (j * uint (sendcount c) + k) = elt_data ty (block_seed rep j) (u64_of_int k)"
      unfolding a_def c_def n_def HyperCubeTest getCollByteCount.simps initData.simps HyperCube_init by blast
    moreover note blocks_at [OF e n0]
    ultimately show ?thesis unfolding rc by (simp add: send_data_def exp_data_def HyperCubeTest)
  next
    case AlltoAllTest
    define p where "p = uint (sendcount c) div n"
    have rc: "uint (recvcount c) = n * p" using AlltoAllTest rel by (simp add: counts_related_def p_def)
    from AlltoAll_init [OF r, of b ty red rt rep in_place m] obtain m' where
      "initData t a ty red rt rep in_place r m = Some m'"
      "\<forall>k\<in>{0..<uint (sendcount c)}. send_view a ty in_place r m' k = elt_data ty (block_seed rep r) (u64_of_int k)"
      and e: "\<forall>j\<in>{0..<n}. \<forall>k\<in>{0..<p}. expected m' (j * p + k) = elt_data ty (block_seed rep j) (u64_of_int (r * p + k))"
      unfolding a_def c_def n_def p_def AlltoAllTest getCollByteCount.simps initData.simps by blast
    moreover note blocks_at [OF e n0]
    ultimately show ?thesis unfolding rc by (simp add: send_data_def exp_data_def p_def AlltoAllTest)
  next
    case GatherTest
    with Gather_init [OF r, of b ty red rt rep in_place m] rv show ?thesis
      unfolding a_def c_def n_def by (auto simp: send_data_def exp_data_def)
  next
    case ScatterTest
    with Scatter_init [of b ty args red rt rep in_place r m] show ?thesis
      unfolding a_def c_def n_def by (auto simp: send_data_def exp_data_def)
  next
    case SendRecvTest
    with SendRecv_init [OF r(2,3), of b ty red rt rep in_place m] show ?thesis
      unfolding a_def c_def n_def by (auto simp: send_data_def exp_data_def)
  next
    case BroadcastTest
    with Broadcast_init [of b ty args red rt rep in_place r m] show ?thesis
      unfolding a_def c_def n_def by (auto simp: send_data_def exp_data_def)
  next
    case AllReduceTest
    with AllReduce_init [OF r, of ty red b rt rep in_place m] units show ?thesis
      unfolding a_def c_def n_def by (auto simp: send_data_def exp_data_def)
  next
    case ReduceScatterTest
    with ReduceScatter_init [OF r, of ty red b rt rep in_place m] units show ?thesis
      unfolding a_def c_def n_def by (auto simp: send_data_def exp_data_def)
  next
    case ReduceTest
    with Reduce_init [OF r, of ty red b rt rep in_place m] units rv show ?thesis
      unfolding a_def c_def n_def by (auto simp: send_data_def exp_data_def)
  qed
qed

lemma check_gpu_count:
  "check_gpu args ty red in_place r b = Some (int (card {i. 0 \<le> i \<and> i < uint (expectedBytes args div wordSize ty) \<and>
     int (unat (tolerance ty red)) < \<bar>elt_pattern (elt_size ty) (recv_view args ty in_place r b i) - elt_pattern (elt_size ty) (expected b i)\<bar>}))"
proof -
  have "elt_size ty \<in> {1, 2, 4, 8}" by (cases ty) simp_all
  then show ?thesis
    by (simp add: check_gpu_def Let_def ncclVerifiableVerify_def verify_elts_counts recv_view_def)
qed

lemma those_map_Some: "those (map (\<lambda>x. Some (f x)) xs) = Some (map f xs)"
  by (induction xs) simp_all

lemma CheckData_sum:
  "CheckData args ty red in_place m =
     (let w = \<Sum>i\<leftarrow>[0..nGpus args - 1]. the (check_gpu args ty red in_place (rank_of args i) (m (rank_of args i)))
      in Some (w, if reportErrors args \<noteq> 0 \<and> w \<noteq> 0 then args\<lparr>errors := errors args + 1\<rparr> else args))"
  unfolding CheckData_def check_gpu_count those_map_Some by (simp add: Let_def)

lemma init_report_frame [simp]:
  "expectedBytes (init_report t ip args) = expectedBytes args" "recvInplaceOffset (init_report t ip args) = recvInplaceOffset args"
  "nGpus (init_report t ip args) = nGpus args" "rank_of (init_report t ip args) = rank_of args"
  "errors (init_report t ip args) = errors args"
  by (simp_all add: init_report_def rank_of_def [abs_def])

lemma init_report_view [simp]: "recv_view (init_report t ip args) = recv_view args"
  by (auto simp: recv_view_def fun_eq_iff)

lemma sum_list_zero: "(\<And>x. x \<in> set xs \<Longrightarrow> f x = 0) \<Longrightarrow> (\<Sum>x\<leftarrow>xs. f x) = (0 :: int)"
  by (induction xs) simp_all

lemma run_same_expected:
  fixes t ty args bytes
  defines "a \<equiv> setupArgs (getCollByteCount t) bytes ty args"
  assumes wf: "wf_args args" and rt: "rt \<in> {0..<nranks_of args}"
    and units: "t \<in> {AllReduceTest, ReduceScatterTest, ReduceTest} \<Longrightarrow> enough_units ty red (nranks_of args)"
    and init: "\<And>r. r \<in> {0..<nranks_of args} \<Longrightarrow> initData t a ty red rt rep in_place r (mem r) = Some (m r)"
    and coll: "coll_result t ty (case_op red (nranks_of args)) (nranks_of args) rt
      (uint (sendBytes a div wordSize ty)) (uint (expectedBytes a div wordSize ty))
      (\<lambda>r. send_view a ty in_place r (m r)) (\<lambda>r. recv_view a ty in_place r (m r)) (\<lambda>r. recv_view a ty in_place r (m' r))"
    and kept: "\<And>r. expected (m' r) = expected (m r)"
    and r: "r \<in> {0..<nranks_of args}" and i: "i \<in> {0..<uint (expectedBytes a div wordSize ty)}"
  shows "recv_view a ty in_place r (m' r) i = expected (m' r) i"
proof -
  let ?n = "nranks_of args" and ?c = "run_counts t bytes ty args"
  let ?sc = "uint (sendcount ?c)" and ?rc = "uint (recvcount ?c)"
  note cs = setup_counts [of t bytes ty args, folded a_def]
  have views: "(t \<in> {BroadcastTest, ScatterTest} \<longrightarrow> r = rt) \<longrightarrow>
        (\<forall>k\<in>{0..<?sc}. send_view a ty in_place r (m r) k = send_data t ty red ?n rep ?sc r k)"
      "\<forall>i\<in>{0..<?rc}. expected (m r) i = exp_data t ty red ?n rt rep ?sc ?rc r i (recv_view a ty in_place r (m r) i)"
    if r: "r \<in> {0..<?n}" for r
  proof -
    from r have "0 \<le> r" "r < ?n" by simp_all
    from initData_views [where t = t and b = bytes and ty = ty and m = "mem r" and rt = rt and rep = rep and in_place = in_place,
        OF wf this units, folded a_def] init [OF r]
    show "(t \<in> {BroadcastTest, ScatterTest} \<longrightarrow> r = rt) \<longrightarrow>
        (\<forall>k\<in>{0..<?sc}. send_view a ty in_place r (m r) k = send_data t ty red ?n rep ?sc r k)"
      "\<forall>i\<in>{0..<?rc}. expected (m r) i = exp_data t ty red ?n rt rep ?sc ?rc r i (recv_view a ty in_place r (m r) i)"
      by auto
  qed
  have "recv_view a ty in_place r (m' r) i = exp_data t ty red ?n rt rep ?sc ?rc r i (recv_view a ty in_place r (m r) i)"
    by (rule result_is_expected [OF wf_nranks [OF wf, THEN conjunct1] wf_nranks [OF wf, THEN conjunct2] rt units
          run_counts_related [OF wf] _ coll [unfolded cs(2,4)] r i [unfolded cs(4)]]) (use views(1) in blast)+
  with views(2) [OF r] i kept cs(4) show ?thesis by simp
qed

text \<open>C3: the contract between the data generators, the collective and the check. Let every rank be initialised for a
  run of any collective, at any size and type, in place or not; for a reduction let the rank count be one the generators of data
  are made for (\<open>enough_units\<close>: every count for integers, as many as the mantissa or the exponent allow for floating point sums and
  products, and only one rank for floating point averages). Then \<open>InitData\<close> succeeds on every rank, and if the
  collective then leaves in the receive buffers what its definition says (for a reduction: the result of
  some tree of the ranks, for each element its own) and does not touch the expected values, \<open>CheckData\<close> finds
  no wrong element and counts no error.\<close>

theorem correct_run_passes_check:
  assumes wf: "wf_args args" and rt: "rt \<in> {0..<nranks_of args}"
    and units: "t \<in> {AllReduceTest, ReduceScatterTest, ReduceTest} \<Longrightarrow> enough_units ty red (nranks_of args)"
    and a: "a = setupArgs (getCollByteCount t) bytes ty args"
    and init: "\<And>r. r \<in> {0..<nranks_of args} \<Longrightarrow> initData t a ty red rt rep in_place r (mem r) = Some (m r)"
    and coll: "coll_result t ty (case_op red (nranks_of args)) (nranks_of args) rt
      (uint (sendBytes a div wordSize ty)) (uint (expectedBytes a div wordSize ty))
      (\<lambda>r. send_view a ty in_place r (m r)) (\<lambda>r. recv_view a ty in_place r (m r)) (\<lambda>r. recv_view a ty in_place r (m' r))"
    and kept: "\<And>r. expected (m' r) = expected (m r)"
  shows "(\<forall>r\<in>{0..<nranks_of args}. initData t a ty red rt rep in_place r (mem' r) \<noteq> None)
    \<and> CheckData (init_report t in_place a) ty red in_place m' = Some (0, init_report t in_place a)"
proof
  show "\<forall>r\<in>{0..<nranks_of args}. initData t a ty red rt rep in_place r (mem' r) \<noteq> None"
  proof
    fix r assume "r \<in> {0..<nranks_of args}"
    then have "0 \<le> r" "r < nranks_of args" by simp_all
    from initData_views [where t = t and b = bytes and ty = ty and m = "mem' r" and rt = rt and rep = rep and in_place = in_place,
        OF wf this units, folded a]
    show "initData t a ty red rt rep in_place r (mem' r) \<noteq> None" by auto
  qed
next
  let ?n = "nranks_of args"
  note same = run_same_expected [OF wf rt units init [unfolded a] coll [unfolded a] kept, folded a]
  have "the (check_gpu (init_report t in_place a) ty red in_place (rank_of a i) (m' (rank_of a i))) = 0" if "i \<in> set [0..nGpus a - 1]" for i
  proof -
    have "rank_of a i \<in> {0..<?n}" using rank_of_range [OF wf, of i] that by (simp add: a)
    with same have "{k. 0 \<le> k \<and> k < uint (expectedBytes a div wordSize ty) \<and> int (unat (tolerance ty red)) <
        \<bar>elt_pattern (elt_size ty) (recv_view a ty in_place (rank_of a i) (m' (rank_of a i)) k) -
         elt_pattern (elt_size ty) (expected (m' (rank_of a i)) k)\<bar>} = {}"
      by auto
    then show ?thesis unfolding check_gpu_count option.sel init_report_frame init_report_view by (simp only: card.empty of_nat_0)
  qed
  then have "(\<Sum>i\<leftarrow>[0..nGpus a - 1]. the (check_gpu (init_report t in_place a) ty red in_place (rank_of a i) (m' (rank_of a i)))) = 0"
    by (rule sum_list_zero)
  then show "CheckData (init_report t in_place a) ty red in_place m' = Some (0, init_report t in_place a)"
    by (simp add: CheckData_sum Let_def)
qed

theorem correct_run_passes_check_witness:
  "\<exists>m'. CheckData (init_report BroadcastTest False (setupArgs (getCollByteCount BroadcastTest) 64 NcclFloat16 example_args))
      NcclFloat16 NcclSum False m' = Some (0, init_report BroadcastTest False (setupArgs (getCollByteCount BroadcastTest) 64 NcclFloat16 example_args))"
proof -
  let ?a = "setupArgs (getCollByteCount BroadcastTest) 64 NcclFloat16 example_args" and ?n = "nranks_of example_args"
  have u: "BroadcastTest \<in> {AllReduceTest, ReduceScatterTest, ReduceTest} \<Longrightarrow> enough_units NcclFloat16 NcclSum ?n" by simp
  have "\<exists>x. initData BroadcastTest ?a NcclFloat16 NcclSum 3 7 False r undefined = Some x" if "r \<in> {0..<?n}" for r
    using initData_views [where t = BroadcastTest and r = r and b = 64 and rt = 3 and rep = 7 and in_place = False and m = undefined, OF example_args_wf(1) _ _ u] that by auto
  then obtain m where m: "\<And>r. r \<in> {0..<?n} \<Longrightarrow> initData BroadcastTest ?a NcclFloat16 NcclSum 3 7 False r undefined = Some (m r)"
    by metis
  define m' where "m' r = (m r)\<lparr>recvbuff := sendbuff (m 3)\<rparr>" for r
  have "coll_result BroadcastTest NcclFloat16 (case_op NcclSum ?n) ?n 3 (uint (sendBytes ?a div wordSize NcclFloat16))
      (uint (expectedBytes ?a div wordSize NcclFloat16)) (\<lambda>r. send_view ?a NcclFloat16 False r (m r))
      (\<lambda>r. recv_view ?a NcclFloat16 False r (m r)) (\<lambda>r. recv_view ?a NcclFloat16 False r (m' r))"
    by (simp add: m'_def send_view_def recv_view_def)
  moreover have "3 \<in> {0..<?n}" by (simp add: example_args_def nranks_of_def)
  ultimately show ?thesis
    using correct_run_passes_check [where t = BroadcastTest and mem = "\<lambda>_. undefined" and m' = m' and rep = 7, OF example_args_wf(1) _ u refl m] by (auto simp: m'_def)
qed

text \<open>\<open>CheckData\<close> always returns; it counts a wrong element exactly when on some device of the thread some compared
  element is further from its expected value than the tolerance, and it counts one error for the
  thread exactly when there is a wrong element and errors are reported.\<close>

theorem check_reports_differences:
  "\<exists>w. CheckData args ty red in_place m = Some (w, if reportErrors args \<noteq> 0 \<and> w \<noteq> 0 then args\<lparr>errors := errors args + 1\<rparr> else args)
    \<and> 0 \<le> w
    \<and> (w \<noteq> 0 \<longleftrightarrow> (\<exists>i\<in>{0..<nGpus args}. \<exists>k\<in>{0..<uint (expectedBytes args div wordSize ty)}.
         int (unat (tolerance ty red)) < \<bar>elt_pattern (elt_size ty) (recv_view args ty in_place (rank_of args i) (m (rank_of args i)) k)
           - elt_pattern (elt_size ty) (expected (m (rank_of args i)) k)\<bar>))"
proof -
  let ?bad = "\<lambda>i. {k. 0 \<le> k \<and> k < uint (expectedBytes args div wordSize ty) \<and> int (unat (tolerance ty red)) <
      \<bar>elt_pattern (elt_size ty) (recv_view args ty in_place (rank_of args i) (m (rank_of args i)) k)
        - elt_pattern (elt_size ty) (expected (m (rank_of args i)) k)\<bar>}"
  have sum: "0 \<le> (\<Sum>x\<leftarrow>xs. int (f x)) \<and> ((\<Sum>x\<leftarrow>xs. int (f x)) \<noteq> 0 \<longleftrightarrow> (\<exists>x\<in>set xs. f x \<noteq> 0))" for f :: "int \<Rightarrow> nat" and xs
    by (induction xs) auto
  have fin: "finite (?bad i)" for i by (rule finite_subset [of _ "{0..<uint (expectedBytes args div wordSize ty)}"]) auto
  have card: "card (?bad i) \<noteq> 0 \<longleftrightarrow> (\<exists>k\<in>{0..<uint (expectedBytes args div wordSize ty)}. int (unat (tolerance ty red)) <
      \<bar>elt_pattern (elt_size ty) (recv_view args ty in_place (rank_of args i) (m (rank_of args i)) k)
        - elt_pattern (elt_size ty) (expected (m (rank_of args i)) k)\<bar>)" for i
    unfolding card_eq_0_iff using fin [of i] by (simp only: simp_thms de_Morgan_disj) (force simp del: of_nat_unat)
  note w = sum [of "\<lambda>i. card (?bad i)" "[0..nGpus args - 1]", unfolded card set_upto]
  have set: "{0..nGpus args - 1} = {0..<nGpus args}" by auto
  show ?thesis
    unfolding CheckData_sum Let_def check_gpu_count option.sel
    by (intro exI conjI, rule refl, rule w [THEN conjunct1], rule w [THEN conjunct2, unfolded set])
qed

end
