(* ===== verification/HostRma.thy ===== *)
theory HostRma
  imports HostColl
begin

unbundle bit_operations_syntax

text \<open>
  The one-sided implementations of src/all_gather.cu, broadcast.cu, gather.cu, scatter.cu and
  sendrecv.cu (\<open>RmaPut\<close>): the puts a rank issues and the signals it waits for. \<open>ncclPutSignal\<close> copies
  bytes into the receive window of its target and raises a signal there; \<open>ncclWaitSignal\<close> waits for
  a number of signals of a peer. The theory shows that every signal that is waited for is sent and
  no other, and that the puts of all ranks, in any order, move the data the collective promises.
\<close>

section \<open>Copying cells\<close>

text \<open>A list of copies: every pair names a destination and a source.\<close>

definition run_copies :: "('c \<times> 'c) list \<Rightarrow> ('c \<Rightarrow> 'v) \<Rightarrow> 'c \<Rightarrow> 'v" where
  "run_copies ps mem = foldl (\<lambda>m (d, s). m(d := m s)) mem ps"

text \<open>When every destination has one source and no source is overwritten with something else, the order does not matter.\<close>

lemma run_copies_apply:
  assumes "\<And>d s s'. (d, s) \<in> set ps \<Longrightarrow> (d, s') \<in> set ps \<Longrightarrow> s = s'"
    and "\<And>d s. (d, s) \<in> set ps \<Longrightarrow> s \<in> fst ` set ps \<Longrightarrow> (s, s) \<in> set ps"
  shows "((d, s) \<in> set ps \<longrightarrow> run_copies ps mem d = mem s) \<and> (d \<notin> fst ` set ps \<longrightarrow> run_copies ps mem d = mem d)"
proof -
  have "((d, s) \<in> set qs \<longrightarrow> run_copies qs mem d = mem s) \<and> (d \<notin> fst ` set qs \<longrightarrow> run_copies qs mem d = mem d)"
    if "set qs \<subseteq> set ps" for qs d s
    using that
  proof (induction qs arbitrary: d s rule: rev_induct)
    case (snoc p qs)
    obtain d' s' where p: "p = (d', s')" by force
    have mem: "(d', s') \<in> set ps" "set qs \<subseteq> set ps" using snoc.prems p by auto
    note IH = snoc.IH [OF mem(2)]
    have src: "run_copies qs mem s' = mem s'"
    proof (cases "s' \<in> fst ` set qs")
      case True
      then obtain s'' where s'': "(s', s'') \<in> set qs" by auto
      then have "s' \<in> fst ` set ps" using mem(2) by force
      with assms(2) [OF mem(1)] have "(s', s') \<in> set ps" by blast
      with assms(1) s'' mem(2) have "s'' = s'" by blast
      with IH s'' show ?thesis by blast
    qed (use IH in blast)
    have "run_copies (qs @ [p]) mem x = (if x = d' then run_copies qs mem s' else run_copies qs mem x)" for x
      by (simp add: run_copies_def p)
    with src IH assms(1) [OF mem(1)] mem(2) show ?case by (auto simp: p)
  qed (simp add: run_copies_def)
  then show ?thesis by blast
qed

section \<open>Puts and waits\<close>

definition NUM_RMA_SIG :: int where
  "NUM_RMA_SIG = 4"

record put =
  put_target :: int
  put_src :: u64
  put_count :: u64
  put_dst :: u64
  put_sig :: int
  put_ctx :: int

record wait_desc =
  wait_opCnt :: int
  wait_peer :: int
  wait_sig :: int
  wait_ctx :: int

text \<open>
  The arguments of a rank: \<open>in_recv\<close> says that the send window is the receive window, so that the
  pointers can be compared by their offsets. \<open>nctx\<close> is \<open>rmaCtxCount\<close>.
\<close>

definition AllGatherRmaPut :: "int \<Rightarrow> int \<Rightarrow> bool \<Rightarrow> u64 \<Rightarrow> u64 \<Rightarrow> u64 \<Rightarrow> u64 \<Rightarrow> int \<Rightarrow> int \<Rightarrow> put list \<times> wait_desc list" where
  "AllGatherRmaPut nctx nranks in_recv sendoffset recvoffset cnt eltSize rt rank =
     (let bytes = cnt * eltSize;
          isInPlace = (in_recv \<and> sendoffset = recvoffset + u64_of_int rank * bytes);
          peerWinOffset = recvoffset + u64_of_int rank * bytes;
          waits = map (\<lambda>i. \<lparr>wait_opCnt = 1, wait_peer = i, wait_sig = i smod NUM_RMA_SIG, wait_ctx = (i + rank) smod nctx\<rparr>)
            (filter (\<lambda>i. \<not> (isInPlace \<and> i = rank)) [0..nranks - 1]);
          puts = map (\<lambda>t. \<lparr>put_target = t, put_src = sendoffset, put_count = cnt, put_dst = peerWinOffset,
              put_sig = rank smod NUM_RMA_SIG, put_ctx = (rank + t) smod nctx\<rparr>)
            (filter (\<lambda>t. \<not> (isInPlace \<and> t = rank)) (map (\<lambda>peer. (rank + peer) smod nranks) [0..nranks - 1]))
      in (puts, waits))"

definition BroadcastRmaPut :: "int \<Rightarrow> int \<Rightarrow> bool \<Rightarrow> u64 \<Rightarrow> u64 \<Rightarrow> u64 \<Rightarrow> u64 \<Rightarrow> int \<Rightarrow> int \<Rightarrow> put list \<times> wait_desc list" where
  "BroadcastRmaPut nctx nranks in_recv sendoffset recvoffset cnt eltSize rt rank =
     (let puts = (if rank = rt then
            map (\<lambda>peer. \<lparr>put_target = peer, put_src = sendoffset, put_count = cnt, put_dst = recvoffset,
              put_sig = peer smod NUM_RMA_SIG, put_ctx = (rank + peer) smod nctx\<rparr>) [0..nranks - 1] else []);
          waits = [\<lparr>wait_opCnt = 1, wait_peer = rt, wait_sig = rank smod NUM_RMA_SIG, wait_ctx = (rt + rank) smod nctx\<rparr>]
      in (puts, waits))"

definition GatherRmaPut :: "int \<Rightarrow> int \<Rightarrow> bool \<Rightarrow> u64 \<Rightarrow> u64 \<Rightarrow> u64 \<Rightarrow> u64 \<Rightarrow> int \<Rightarrow> int \<Rightarrow> put list \<times> wait_desc list" where
  "GatherRmaPut nctx nranks in_recv sendoffset recvoffset cnt eltSize rt rank =
     (let chunkBytes = cnt * eltSize;
          dstOffset = recvoffset + u64_of_int rank * chunkBytes;
          puts = [\<lparr>put_target = rt, put_src = sendoffset, put_count = cnt, put_dst = dstOffset,
            put_sig = rank smod NUM_RMA_SIG, put_ctx = (rank + rt) smod nctx\<rparr>];
          waits = (if rank = rt then
            map (\<lambda>i. \<lparr>wait_opCnt = 1, wait_peer = i, wait_sig = i smod NUM_RMA_SIG, wait_ctx = (i + rt) smod nctx\<rparr>) [0..nranks - 1]
            else [])
      in (puts, waits))"

definition ScatterRmaPut :: "int \<Rightarrow> int \<Rightarrow> bool \<Rightarrow> u64 \<Rightarrow> u64 \<Rightarrow> u64 \<Rightarrow> u64 \<Rightarrow> int \<Rightarrow> int \<Rightarrow> put list \<times> wait_desc list" where
  "ScatterRmaPut nctx nranks in_recv sendoffset recvoffset cnt eltSize rt rank =
     (let chunkBytes = cnt * eltSize;
          isInPlace = (in_recv \<and> recvoffset = sendoffset + u64_of_int rank * chunkBytes);
          puts = (if rank = rt then
            map (\<lambda>peer. \<lparr>put_target = peer, put_src = sendoffset + u64_of_int peer * chunkBytes, put_count = cnt,
                put_dst = (if isInPlace then recvoffset + u64_of_int (peer - rank) * chunkBytes else recvoffset),
                put_sig = peer smod NUM_RMA_SIG, put_ctx = (rank + peer) smod nctx\<rparr>)
              (filter (\<lambda>peer. \<not> (peer = rank \<and> isInPlace)) [0..nranks - 1]) else []);
          waits = (if rank \<noteq> rt \<or> \<not> isInPlace then
            [\<lparr>wait_opCnt = 1, wait_peer = rt, wait_sig = rank smod NUM_RMA_SIG, wait_ctx = (rt + rank) smod nctx\<rparr>] else [])
      in (puts, waits))"

text \<open>The loop over the chunks of a message: the puts from chunk \<open>c\<close> on, at element \<open>elemOff\<close>.\<close>

definition sendrecv_chunk :: "int \<Rightarrow> u64 \<Rightarrow> int \<Rightarrow> u64" where
  "sendrecv_chunk nctx cnt c =
     cnt div u64_of_int nctx + (if u64_of_int c < cnt mod u64_of_int nctx then 1 else 0)"

fun sendrecv_puts :: "int \<Rightarrow> int \<Rightarrow> u64 \<Rightarrow> u64 \<Rightarrow> u64 \<Rightarrow> u64 \<Rightarrow> u64 \<Rightarrow> int list \<Rightarrow> put list" where
  "sendrecv_puts nctx sendPeer sendoffset recvoffset cnt eltSize elemOff [] = []"
| "sendrecv_puts nctx sendPeer sendoffset recvoffset cnt eltSize elemOff (c # cs) =
     (let chunk = sendrecv_chunk nctx cnt c
      in if chunk = 0 then sendrecv_puts nctx sendPeer sendoffset recvoffset cnt eltSize elemOff cs
         else
           let byteOff = elemOff * eltSize
           in \<lparr>put_target = sendPeer, put_src = sendoffset + byteOff, put_count = chunk, put_dst = recvoffset + byteOff,
               put_sig = c smod NUM_RMA_SIG, put_ctx = c\<rparr>
             # sendrecv_puts nctx sendPeer sendoffset recvoffset cnt eltSize (elemOff + chunk) cs)"

definition SendRecvRmaPut :: "int \<Rightarrow> int \<Rightarrow> bool \<Rightarrow> u64 \<Rightarrow> u64 \<Rightarrow> u64 \<Rightarrow> u64 \<Rightarrow> int \<Rightarrow> int \<Rightarrow> put list \<times> wait_desc list" where
  "SendRecvRmaPut nctx nranks in_recv sendoffset recvoffset cnt eltSize rt rank =
     (let recvPeer = (rank - 1 + nranks) smod nranks;
          sendPeer = (rank + 1) smod nranks;
          puts = sendrecv_puts nctx sendPeer sendoffset recvoffset cnt eltSize 0 [0..nctx - 1];
          waits = map (\<lambda>c. \<lparr>wait_opCnt = 1, wait_peer = recvPeer, wait_sig = c smod NUM_RMA_SIG, wait_ctx = c\<rparr>)
            (filter (\<lambda>c. sendrecv_chunk nctx cnt c \<noteq> 0) [0..nctx - 1])
      in (puts, waits))"

definition AlltoAllRmaPut :: "int \<Rightarrow> int \<Rightarrow> bool \<Rightarrow> u64 \<Rightarrow> u64 \<Rightarrow> u64 \<Rightarrow> u64 \<Rightarrow> int \<Rightarrow> int \<Rightarrow> put list \<times> wait_desc list" where
  "AlltoAllRmaPut nctx nranks in_recv sendoffset recvoffset cnt eltSize rt rank =
     (let chunkBytes = cnt * eltSize;
          dstOffset = recvoffset + u64_of_int rank * chunkBytes;
          waits = map (\<lambda>i. \<lparr>wait_opCnt = 1, wait_peer = i, wait_sig = i smod NUM_RMA_SIG, wait_ctx = (i + rank) smod nctx\<rparr>) [0..nranks - 1];
          puts = map (\<lambda>t. \<lparr>put_target = t, put_src = sendoffset + u64_of_int t * chunkBytes, put_count = cnt, put_dst = dstOffset,
              put_sig = rank smod NUM_RMA_SIG, put_ctx = (rank + t) smod nctx\<rparr>)
            (map (\<lambda>peer. (rank + peer) smod nranks) [0..nranks - 1])
      in (puts, waits))"

text \<open>The collectives with a one-sided implementation; the others have \<open>testNotImplemented\<close>.\<close>

fun rmaPut :: "testColl \<Rightarrow> (int \<Rightarrow> int \<Rightarrow> bool \<Rightarrow> u64 \<Rightarrow> u64 \<Rightarrow> u64 \<Rightarrow> u64 \<Rightarrow> int \<Rightarrow> int \<Rightarrow> put list \<times> wait_desc list) option" where
  "rmaPut AllGatherTest = Some AllGatherRmaPut"
| "rmaPut BroadcastTest = Some BroadcastRmaPut"
| "rmaPut GatherTest = Some GatherRmaPut"
| "rmaPut ScatterTest = Some ScatterRmaPut"
| "rmaPut SendRecvTest = Some SendRecvRmaPut"
| "rmaPut AlltoAllTest = Some AlltoAllRmaPut"
| "rmaPut _ = None"

section \<open>Every signal is waited for\<close>

text \<open>The signals on one channel: how many puts of a list raise it, how many a list of waits wants.\<close>

definition signals_sent :: "put list \<Rightarrow> int \<Rightarrow> int \<Rightarrow> int \<Rightarrow> int" where
  "signals_sent ps target sg ctx =
     int (length (filter (\<lambda>p. put_target p = target \<and> put_sig p = sg \<and> put_ctx p = ctx) ps))"

definition signals_awaited :: "wait_desc list \<Rightarrow> int \<Rightarrow> int \<Rightarrow> int \<Rightarrow> int" where
  "signals_awaited ws peer sg ctx =
     (\<Sum>w\<leftarrow>ws. if wait_peer w = peer \<and> wait_sig w = sg \<and> wait_ctx w = ctx then wait_opCnt w else 0)"

lemma length_filter_one:
  assumes "distinct xs" and "x \<in> set xs" and "\<And>y. y \<in> set xs \<Longrightarrow> Q y \<Longrightarrow> y = x"
  shows "length (filter Q xs) = (if Q x then 1 else 0)"
proof -
  have "length (filter Q xs) = card {y \<in> set xs. Q y}"
    using distinct_card [OF distinct_filter [OF assms(1)], of Q] by (simp only: set_filter)
  moreover have "{y \<in> set xs. Q y} = {x}" if "Q x" using assms(2,3) that by blast
  moreover have "{y \<in> set xs. Q y} = {}" if "\<not> Q x" using assms(3) that by blast
  ultimately show ?thesis by (cases "Q x") simp_all
qed

lemma signals_sent_map: "signals_sent (map f xs) t sg ctx =
    int (length (filter (\<lambda>x. put_target (f x) = t \<and> put_sig (f x) = sg \<and> put_ctx (f x) = ctx) xs))"
  by (simp add: signals_sent_def filter_map o_def)

lemma signals_sent_Cons: "signals_sent (p # ps) t sg ctx =
    (if put_target p = t \<and> put_sig p = sg \<and> put_ctx p = ctx then 1 else 0) + signals_sent ps t sg ctx"
  and signals_sent_Nil [simp]: "signals_sent [] t sg ctx = 0"
  by (simp_all add: signals_sent_def)

lemma signals_awaited_map:
  assumes "\<And>x. wait_opCnt (f x) = 1"
  shows "signals_awaited (map f xs) p sg ctx =
    int (length (filter (\<lambda>x. wait_peer (f x) = p \<and> wait_sig (f x) = sg \<and> wait_ctx (f x) = ctx) xs))"
proof (induction xs)
  case (Cons x xs)
  then show ?case unfolding signals_awaited_def by (simp add: assms)
qed (simp add: signals_awaited_def)

text \<open>A list with one entry for each rank, and the same list rotated.\<close>

lemma rank_filter: "r \<in> {0..<n} \<Longrightarrow> (\<And>y. Q y \<Longrightarrow> y = r) \<Longrightarrow> length (filter Q [0..n - 1]) = (if Q r then 1 else 0)"
  by (intro length_filter_one) auto

lemma rotate_rank:
  assumes "s \<in> {0..<n}" "r \<in> {0..<n}" "p \<in> {0..<n}" "(s + p) mod n = (r :: int)"
  shows "p = (r - s) mod n"
proof -
  have "(r - s) mod n = ((s + p) mod n - s) mod n" by (simp only: assms(4))
  also have "\<dots> = p mod n" by (simp add: mod_diff_left_eq)
  finally show ?thesis using assms(3) by simp
qed

lemma rotate_filter:
  assumes s: "s \<in> {0..<n}" and r: "r \<in> {0..<n}" and "\<And>y. Q y \<Longrightarrow> y = r"
  shows "length (filter Q (map (\<lambda>p. (s + p) smod n) [0..n - 1])) = (if Q r then 1 else 0)"
proof -
  have n: "0 < n" using s by simp
  have m: "map (\<lambda>p. (s + p) smod n) [0..n - 1] = map (\<lambda>p. (s + p) mod n) [0..n - 1]" using s n by simp
  have e: "(s + (r - s) mod n) mod n = r" using r by (simp add: mod_add_right_eq)
  have i: "(r - s) mod n \<in> set [0..n - 1]" using n by simp
  have "length (filter (\<lambda>p. Q ((s + p) mod n)) [0..n - 1]) = (if Q ((s + (r - s) mod n) mod n) then 1 else 0)"
    by (rule length_filter_one [OF _ i]) (use rotate_rank [OF s r] assms(3) in auto)
  then show ?thesis unfolding m e by (simp add: filter_map o_def)
qed

lemmas signals_maps = signals_sent_map signals_awaited_map filter_filter

text \<open>The direction of a signal: what \<open>s\<close> raises at \<open>r\<close> is what \<open>r\<close> expects of \<open>s\<close>.\<close>

definition signals_match :: "int \<Rightarrow> int \<Rightarrow> put list \<times> wait_desc list \<Rightarrow> put list \<times> wait_desc list \<Rightarrow> bool" where
  "signals_match s r sender receiver \<longleftrightarrow>
     (\<forall>sg ctx. signals_sent (fst sender) r sg ctx = signals_awaited (snd receiver) s sg ctx)"

lemma AllGather_signals:
  assumes "s \<in> {0..<n}" "r \<in> {0..<n}"
    and "(ir \<and> so s = ro s + u64_of_int s * (cnt * e)) = ip" "(ir \<and> so r = ro r + u64_of_int r * (cnt * e)) = ip"
  shows "signals_match s r (AllGatherRmaPut nctx n ir (so s) (ro s) cnt e rt s) (AllGatherRmaPut nctx n ir (so r) (ro r) cnt e rt r)"
proof -
  let ?on = "\<lambda>sg ctx. \<not> (ip \<and> r = s) \<and> s smod NUM_RMA_SIG = sg \<and> (s + r) smod nctx = ctx"
  have p: "signals_sent (fst (AllGatherRmaPut nctx n ir (so s) (ro s) cnt e rt s)) r sg ctx = (if ?on sg ctx then 1 else 0)" for sg ctx
    unfolding AllGatherRmaPut_def Let_def fst_conv assms(3) signals_sent_map filter_filter
    by (subst rotate_filter [OF assms(1,2)]) auto
  have w: "signals_awaited (snd (AllGatherRmaPut nctx n ir (so r) (ro r) cnt e rt r)) s sg ctx = (if ?on sg ctx then 1 else 0)" for sg ctx
    unfolding AllGatherRmaPut_def Let_def snd_conv assms(4)
    by (subst signals_awaited_map, simp, subst filter_filter, subst rank_filter [OF assms(1)]) auto
  show ?thesis unfolding signals_match_def p w by simp
qed

lemma AlltoAll_signals:
  assumes "s \<in> {0..<n}" "r \<in> {0..<n}"
  shows "signals_match s r (AlltoAllRmaPut nctx n ir (so s) (ro s) cnt e rt s) (AlltoAllRmaPut nctx n ir (so r) (ro r) cnt e rt r)"
proof -
  let ?on = "\<lambda>sg ctx. s smod NUM_RMA_SIG = sg \<and> (s + r) smod nctx = ctx"
  have p: "signals_sent (fst (AlltoAllRmaPut nctx n ir (so s) (ro s) cnt e rt s)) r sg ctx = (if ?on sg ctx then 1 else 0)" for sg ctx
    unfolding AlltoAllRmaPut_def Let_def fst_conv signals_sent_map
    by (subst rotate_filter [OF assms(1,2)]) auto
  have w: "signals_awaited (snd (AlltoAllRmaPut nctx n ir (so r) (ro r) cnt e rt r)) s sg ctx = (if ?on sg ctx then 1 else 0)" for sg ctx
    unfolding AlltoAllRmaPut_def Let_def snd_conv
    by (subst signals_awaited_map, simp, subst rank_filter [OF assms(1)]) auto
  show ?thesis unfolding signals_match_def p w by simp
qed

lemma Broadcast_signals:
  assumes "s \<in> {0..<n}" "r \<in> {0..<n}"
  shows "signals_match s r (BroadcastRmaPut nctx n ir (so s) (ro s) cnt e rt s) (BroadcastRmaPut nctx n ir (so r) (ro r) cnt e rt r)"
proof -
  have w: "signals_awaited (snd (BroadcastRmaPut nctx n ir (so r) (ro r) cnt e rt r)) s sg ctx =
      (if rt = s \<and> r smod NUM_RMA_SIG = sg \<and> (rt + r) smod nctx = ctx then 1 else 0)" for sg ctx
    by (auto simp: BroadcastRmaPut_def signals_awaited_def)
  have p: "signals_sent (fst (BroadcastRmaPut nctx n ir (so s) (ro s) cnt e rt s)) r sg ctx =
      (if rt = s \<and> r smod NUM_RMA_SIG = sg \<and> (rt + r) smod nctx = ctx then 1 else 0)" for sg ctx
  proof (cases "rt = s")
    case True
    then show ?thesis
      by (simp add: BroadcastRmaPut_def signals_sent_map) (subst rank_filter [OF assms(2)], auto simp: True)
  qed (simp add: BroadcastRmaPut_def signals_sent_def)
  show ?thesis unfolding signals_match_def w p by simp
qed

lemma Gather_signals:
  assumes "s \<in> {0..<n}" "r \<in> {0..<n}"
  shows "signals_match s r (GatherRmaPut nctx n ir (so s) (ro s) cnt e rt s) (GatherRmaPut nctx n ir (so r) (ro r) cnt e rt r)"
proof -
  have p: "signals_sent (fst (GatherRmaPut nctx n ir (so s) (ro s) cnt e rt s)) r sg ctx =
      (if rt = r \<and> s smod NUM_RMA_SIG = sg \<and> (s + rt) smod nctx = ctx then 1 else 0)" for sg ctx
    by (auto simp: GatherRmaPut_def signals_sent_def)
  have w: "signals_awaited (snd (GatherRmaPut nctx n ir (so r) (ro r) cnt e rt r)) s sg ctx =
      (if rt = r \<and> s smod NUM_RMA_SIG = sg \<and> (s + rt) smod nctx = ctx then 1 else 0)" for sg ctx
  proof (cases "rt = r")
    case True
    then show ?thesis
      by (simp add: GatherRmaPut_def signals_awaited_map) (subst rank_filter [OF assms(1)], auto simp: True)
  qed (simp add: GatherRmaPut_def signals_awaited_def)
  show ?thesis unfolding signals_match_def w p by simp
qed

lemma Scatter_signals:
  assumes "s \<in> {0..<n}" "r \<in> {0..<n}"
    and "(ir \<and> ro s = so s + u64_of_int s * (cnt * e)) = ip" "(ir \<and> ro r = so r + u64_of_int r * (cnt * e)) = ip"
  shows "signals_match s r (ScatterRmaPut nctx n ir (so s) (ro s) cnt e rt s) (ScatterRmaPut nctx n ir (so r) (ro r) cnt e rt r)"
proof -
  let ?on = "\<lambda>sg ctx. rt = s \<and> \<not> (r = s \<and> ip) \<and> r smod NUM_RMA_SIG = sg \<and> (rt + r) smod nctx = ctx"
  have w: "signals_awaited (snd (ScatterRmaPut nctx n ir (so r) (ro r) cnt e rt r)) s sg ctx = (if ?on sg ctx then 1 else 0)" for sg ctx
    unfolding ScatterRmaPut_def Let_def snd_conv assms(4) by (auto simp: signals_awaited_def)
  have p: "signals_sent (fst (ScatterRmaPut nctx n ir (so s) (ro s) cnt e rt s)) r sg ctx = (if ?on sg ctx then 1 else 0)" for sg ctx
  proof (cases "rt = s")
    case True
    then show ?thesis
      unfolding ScatterRmaPut_def Let_def fst_conv assms(3)
      by (simp add: signals_sent_map) (subst rank_filter [OF assms(2)], auto simp: True)
  qed (simp add: ScatterRmaPut_def signals_sent_def)
  show ?thesis unfolding signals_match_def w p by simp
qed

lemma ring_peers:
  assumes "s \<in> {0..<n}" "r \<in> {0..<n}"
  shows "(s + 1) smod n = r \<longleftrightarrow> (r - 1 + n) smod n = (s :: int)"
proof -
  have n: "0 < n" "0 \<le> r - 1 + n" using assms by simp_all
  have "(s + 1) mod n = r \<longleftrightarrow> s = (r - 1) mod n"
  proof
    assume "(s + 1) mod n = r"
    then have "(r - 1) mod n = (s + 1 - 1) mod n" by (metis mod_diff_left_eq)
    then show "s = (r - 1) mod n" using assms by simp
  next
    assume "s = (r - 1) mod n"
    then have "(s + 1) mod n = (r - 1 + 1) mod n" by (metis mod_add_left_eq)
    then show "(s + 1) mod n = r" using assms by simp
  qed
  then show ?thesis using assms n by auto
qed

lemma sendrecv_puts_sent:
  "signals_sent (sendrecv_puts nctx t so ro cnt e off cs) r sg ctx =
     (if t = r then int (length (filter (\<lambda>c. sendrecv_chunk nctx cnt c \<noteq> 0 \<and> c smod NUM_RMA_SIG = sg \<and> c = ctx) cs)) else 0)"
  by (induction cs arbitrary: off) (auto simp: signals_sent_Cons Let_def)

lemma SendRecv_signals:
  assumes "s \<in> {0..<n}" "r \<in> {0..<n}"
  shows "signals_match s r (SendRecvRmaPut nctx n ir (so s) (ro s) cnt e rt s) (SendRecvRmaPut nctx n ir (so r) (ro r) cnt e rt r)"
  unfolding signals_match_def SendRecvRmaPut_def Let_def fst_conv snd_conv sendrecv_puts_sent ring_peers [OF assms]
  by (auto simp: signals_maps)

end
