(* ===== verification/HostTests.thy ===== *)
theory HostTests
  imports HostInit HostRma
begin

unbundle bit_operations_syntax

text \<open>
  The tests of src/*.cu, second part: the tables of types and operations (src/common.cu, src/common.h),
  the functions \<open>GetBw\<close>, \<open>RunColl\<close> and \<open>RunTest\<close> of every collective.
\<close>

section \<open>Types and operations\<close>

definition test_types :: "elt_type list" where
  "test_types = [NcclInt8, NcclUint8, NcclInt32, NcclUint32, NcclInt64, NcclUint64, NcclFloat16, NcclFloat32, NcclFloat64,
     NcclBfloat16, NcclFloat8e4m3, NcclFloat8e5m2]"

definition test_typenames :: "string list" where
  "test_typenames = [''int8'', ''uint8'', ''int32'', ''uint32'', ''int64'', ''uint64'', ''half'', ''float'', ''double'',
     ''bfloat16'', ''f8e4m3'', ''f8e5m2'']"

definition test_ops :: "red_code list" where
  "test_ops = [NcclSum, NcclProd, NcclMax, NcclMin, NcclAvg, NcclPreMulSum]"

definition test_opnames :: "string list" where
  "test_opnames = [''sum'', ''prod'', ''max'', ''min'', ''avg'', ''mulsum'']"

text \<open>How much of the tables the version of NCCL supports, set at the start of \<open>main\<close>.\<close>

definition init_opnum :: "int \<Rightarrow> nat" where
  "init_opnum version = 4 + (if version \<ge> 21000 then 1 else 0) + (if version \<ge> 21100 then 1 else 0)"

definition init_typenum :: "int \<Rightarrow> nat" where
  "init_typenum version = 9 + (if version \<ge> 21000 then 1 else 0) + (if version \<ge> 22400 then 2 else 0)"

text \<open>The search of a name in a table, from index \<open>t\<close> on.\<close>

fun find_name :: "string \<Rightarrow> string list \<Rightarrow> int \<Rightarrow> int option" where
  "find_name str [] t = None"
| "find_name str (n # ns) t = (if str = n then Some t else find_name str ns (t + 1))"

text \<open>The enumerators \<open>ncclFloat\<close> and \<open>ncclSum\<close>, the values for names that are not known.\<close>

definition ncclstringtotype :: "int \<Rightarrow> nat \<Rightarrow> string list \<Rightarrow> string \<Rightarrow> int" where
  "ncclstringtotype ncclFloat test_typenum names str =
     (case find_name str (take test_typenum names) 0 of
        Some t \<Rightarrow> t
      | None \<Rightarrow> if str = ''all'' then -1 else ncclFloat)"

definition ncclstringtoop :: "int \<Rightarrow> nat \<Rightarrow> string list \<Rightarrow> string \<Rightarrow> int" where
  "ncclstringtoop ncclSum test_opnum names str =
     (case find_name str (take test_opnum names) 0 of
        Some o' \<Rightarrow> o'
      | None \<Rightarrow> if str = ''all'' then -1 else ncclSum)"

text \<open>On devices before Hopper \<open>run\<close> removes the 8 bit floating point types from the tables, in place.\<close>

fun filter_fp8 :: "nat \<Rightarrow> nat \<Rightarrow> nat \<Rightarrow> elt_type list \<times> string list \<Rightarrow> nat \<times> elt_type list \<times> string list" where
  "filter_fp8 0 i n tables = (n, tables)"
| "filter_fp8 (Suc k) i n (types, names) =
     (if \<not> (types ! i = NcclFloat8e4m3 \<or> types ! i = NcclFloat8e5m2)
      then filter_fp8 k (i + 1) (n + 1) (types[n := types ! i], names[n := names ! i])
      else filter_fp8 k (i + 1) n (types, names))"

definition filter_types :: "int \<Rightarrow> int \<Rightarrow> nat \<Rightarrow> nat \<times> elt_type list \<times> string list" where
  "filter_types version minCudaArch test_typenum =
     (if version \<ge> 22400 \<and> minCudaArch < 900 then filter_fp8 test_typenum 0 0 (test_types, test_typenames)
      else (test_typenum, test_types, test_typenames))"

section \<open>Bandwidths\<close>

text \<open>
  Algorithm bandwidth and bus bandwidth in GB/s. The number of bytes is computed in \<open>size_t\<close>; the
  quotients of \<open>double\<close> are real numbers here.
\<close>

definition base_bw :: "u64 \<Rightarrow> real \<Rightarrow> real" where
  "base_bw bytes sec = real (unat bytes) / 10 ^ 9 / sec"

definition AllGatherGetBw :: "u64 \<Rightarrow> u64 \<Rightarrow> real \<Rightarrow> int \<Rightarrow> real \<times> real" where
  "AllGatherGetBw cnt typesize sec nranks =
     (let baseBw = base_bw (cnt * typesize * u64_of_int nranks) sec; factor = real_of_int (nranks - 1) / real_of_int nranks
      in (baseBw, baseBw * factor))"

definition AllReduceGetBw :: "u64 \<Rightarrow> u64 \<Rightarrow> real \<Rightarrow> int \<Rightarrow> real \<times> real" where
  "AllReduceGetBw cnt typesize sec nranks =
     (let baseBw = base_bw (cnt * typesize) sec; factor = real_of_int (2 * (nranks - 1)) / real_of_int nranks
      in (baseBw, baseBw * factor))"

definition AlltoAllGetBw :: "u64 \<Rightarrow> u64 \<Rightarrow> real \<Rightarrow> int \<Rightarrow> real \<times> real" where
  "AlltoAllGetBw cnt typesize sec nranks =
     (let baseBw = base_bw (cnt * u64_of_int nranks * typesize) sec; factor = real_of_int (nranks - 1) / real_of_int nranks
      in (baseBw, baseBw * factor))"

definition BroadcastGetBw :: "u64 \<Rightarrow> u64 \<Rightarrow> real \<Rightarrow> int \<Rightarrow> real \<times> real" where
  "BroadcastGetBw cnt typesize sec nranks = (let baseBw = base_bw (cnt * typesize) sec; factor = 1 in (baseBw, baseBw * factor))"

definition GatherGetBw :: "u64 \<Rightarrow> u64 \<Rightarrow> real \<Rightarrow> int \<Rightarrow> real \<times> real" where
  "GatherGetBw cnt typesize sec nranks =
     (let baseBw = base_bw (cnt * u64_of_int nranks * typesize) sec; factor = real_of_int (nranks - 1) / real_of_int nranks
      in (baseBw, baseBw * factor))"

definition HyperCubeGetBw :: "u64 \<Rightarrow> u64 \<Rightarrow> real \<Rightarrow> int \<Rightarrow> real \<times> real" where
  "HyperCubeGetBw cnt typesize sec nranks =
     (let baseBw = base_bw (cnt * typesize * u64_of_int (nranks - 1)) sec; factor = 1 in (baseBw, baseBw * factor))"

definition ReduceGetBw :: "u64 \<Rightarrow> u64 \<Rightarrow> real \<Rightarrow> int \<Rightarrow> real \<times> real" where
  "ReduceGetBw cnt typesize sec nranks = (let baseBw = base_bw (cnt * typesize) sec in (baseBw, baseBw))"

definition ReduceScatterGetBw :: "u64 \<Rightarrow> u64 \<Rightarrow> real \<Rightarrow> int \<Rightarrow> real \<times> real" where
  "ReduceScatterGetBw cnt typesize sec nranks =
     (let baseBw = base_bw (cnt * typesize * u64_of_int nranks) sec; factor = real_of_int (nranks - 1) / real_of_int nranks
      in (baseBw, baseBw * factor))"

definition ScatterGetBw :: "u64 \<Rightarrow> u64 \<Rightarrow> real \<Rightarrow> int \<Rightarrow> real \<times> real" where
  "ScatterGetBw cnt typesize sec nranks =
     (let baseBw = base_bw (cnt * u64_of_int nranks * typesize) sec; factor = real_of_int (nranks - 1) / real_of_int nranks
      in (baseBw, baseBw * factor))"

definition SendRecvGetBw :: "u64 \<Rightarrow> u64 \<Rightarrow> real \<Rightarrow> int \<Rightarrow> real \<times> real" where
  "SendRecvGetBw cnt typesize sec nranks = (let baseBw = base_bw (cnt * typesize) sec; factor = 1 in (baseBw, baseBw * factor))"

fun getBw :: "testColl \<Rightarrow> u64 \<Rightarrow> u64 \<Rightarrow> real \<Rightarrow> int \<Rightarrow> real \<times> real" where
  "getBw AllReduceTest = AllReduceGetBw"
| "getBw AllGatherTest = AllGatherGetBw"
| "getBw ReduceScatterTest = ReduceScatterGetBw"
| "getBw BroadcastTest = BroadcastGetBw"
| "getBw ReduceTest = ReduceGetBw"
| "getBw GatherTest = GatherGetBw"
| "getBw ScatterTest = ScatterGetBw"
| "getBw SendRecvTest = SendRecvGetBw"
| "getBw HyperCubeTest = HyperCubeGetBw"
| "getBw AlltoAllTest = AlltoAllGetBw"

lemmas getBw_defs = AllReduceGetBw_def AllGatherGetBw_def ReduceScatterGetBw_def BroadcastGetBw_def ReduceGetBw_def
  GatherGetBw_def ScatterGetBw_def SendRecvGetBw_def HyperCubeGetBw_def AlltoAllGetBw_def

section \<open>The call of a collective\<close>

text \<open>A pointer is a buffer (\<^const>\<open>True\<close> for the receive buffer) and a distance in bytes.\<close>

type_synonym buf_ptr = "bool \<times> u64"

datatype nccl_op =
    AllReduceOp buf_ptr buf_ptr u64 red_code
  | AllGatherOp buf_ptr buf_ptr u64
  | ReduceScatterOp buf_ptr buf_ptr u64 red_code
  | BroadcastOp buf_ptr buf_ptr u64 int
  | ReduceOp buf_ptr buf_ptr u64 red_code int
  | GatherOp buf_ptr buf_ptr u64 int
  | ScatterOp buf_ptr buf_ptr u64 int
  | AlltoAllOp buf_ptr buf_ptr u64
  | SendOp buf_ptr u64 int
  | RecvOp buf_ptr u64 int
  | CopyOp buf_ptr buf_ptr u64
  | GroupStart
  | GroupEnd
  | PutSignalOp put
  | WaitSignalOp "wait_desc list"
  | KernelOp int elt_type

definition send_ptr :: "coll_call \<Rightarrow> buf_ptr" where
  "send_ptr c = (call_in_recv c, call_send c + call_sendoffset c)"

definition recv_ptr :: "coll_call \<Rightarrow> buf_ptr" where
  "recv_ptr c = (True, call_recv c + call_recvoffset c)"

text \<open>The kernels exist for sums of nine types; the others are null pointers.\<close>

definition SPECIALIZE_KERNEL :: "int \<Rightarrow> elt_type \<Rightarrow> red_code \<Rightarrow> (int \<times> elt_type) option" where
  "SPECIALIZE_KERNEL krn ty red =
     (if red \<noteq> NcclSum then None
      else if ty = NcclInt8 then Some (krn, ty) else if ty = NcclUint8 then Some (krn, ty)
      else if ty = NcclInt32 then Some (krn, ty) else if ty = NcclUint32 then Some (krn, ty)
      else if ty = NcclInt64 then Some (krn, ty) else if ty = NcclUint64 then Some (krn, ty)
      else if ty = NcclFloat16 then Some (krn, ty) else if ty = NcclFloat32 then Some (krn, ty)
      else if ty = NcclFloat64 then Some (krn, ty) else None)"

definition testLaunchDeviceKernel :: "(int \<times> elt_type) option \<Rightarrow> nccl_op list \<times> testResult" where
  "testLaunchDeviceKernel krn =
     (case krn of None \<Rightarrow> ([], TestNotImplemented) | Some (k, ty) \<Rightarrow> ([KernelOp k ty], TestSuccess))"

text \<open>
  What \<open>runColl\<close> calls, in order, and what it returns when all calls succeed. \<open>env\<close> are the version of
  NCCL, the number of RMA contexts, and number of ranks and rank of the communicator.
\<close>

record coll_env =
  env_version :: int
  env_nctx :: int
  env_nranks :: int
  env_rank :: int

definition one_group :: "put list \<times> wait_desc list \<Rightarrow> nccl_op list" where
  "one_group pw = GroupStart # map PutSignalOp (fst pw) @ [GroupEnd]"

definition AllGatherRunColl :: "coll_env \<Rightarrow> coll_call \<Rightarrow> elt_type \<Rightarrow> red_code \<Rightarrow> int \<Rightarrow> nccl_op list \<times> testResult" where
  "AllGatherRunColl env c ty red rt =
     (if call_impl c = 0 then ([AllGatherOp (send_ptr c) (recv_ptr c) (call_count c)], TestSuccess)
      else if call_impl c = HOST_RMA_IMPL then
        (let pw = AllGatherRmaPut (env_nctx env) (env_nranks env) (call_in_recv c) (call_sendoffset c) (call_recvoffset c)
               (call_count c) (wordSize ty) rt (env_rank env)
         in (one_group pw @ [WaitSignalOp (snd pw)], TestSuccess))
      else ([], TestNotImplemented))"

definition BroadcastRunColl :: "coll_env \<Rightarrow> coll_call \<Rightarrow> elt_type \<Rightarrow> red_code \<Rightarrow> int \<Rightarrow> nccl_op list \<times> testResult" where
  "BroadcastRunColl env c ty red rt =
     (if call_impl c = 0 then ([BroadcastOp (send_ptr c) (recv_ptr c) (call_count c) rt], TestSuccess)
      else if call_impl c = HOST_RMA_IMPL then
        (let pw = BroadcastRmaPut (env_nctx env) (env_nranks env) (call_in_recv c) (call_sendoffset c) (call_recvoffset c)
               (call_count c) (wordSize ty) rt (env_rank env)
         in (one_group pw @ [WaitSignalOp (snd pw)], TestSuccess))
      else ([], TestNotImplemented))"

definition GatherRunColl :: "coll_env \<Rightarrow> coll_call \<Rightarrow> elt_type \<Rightarrow> red_code \<Rightarrow> int \<Rightarrow> nccl_op list \<times> testResult" where
  "GatherRunColl env c ty red rt =
     (if call_impl c = 0 then
        (if call_count c = 0 then ([], TestSuccess)
         else ([GatherOp (send_ptr c) (recv_ptr c) (call_count c) rt], TestSuccess))
      else if call_impl c = HOST_RMA_IMPL then
        (let pw = GatherRmaPut (env_nctx env) (env_nranks env) (call_in_recv c) (call_sendoffset c) (call_recvoffset c)
               (call_count c) (wordSize ty) rt (env_rank env)
         in (one_group pw @ (if env_rank env = rt then [WaitSignalOp (snd pw)] else []), TestSuccess))
      else ([], TestNotImplemented))"

definition ScatterRunColl :: "coll_env \<Rightarrow> coll_call \<Rightarrow> elt_type \<Rightarrow> red_code \<Rightarrow> int \<Rightarrow> nccl_op list \<times> testResult" where
  "ScatterRunColl env c ty red rt =
     (if call_impl c = 0 then
        (if call_count c = 0 then ([], TestSuccess)
         else ([ScatterOp (send_ptr c) (recv_ptr c) (call_count c) rt], TestSuccess))
      else if call_impl c = HOST_RMA_IMPL then
        (let pw = ScatterRmaPut (env_nctx env) (env_nranks env) (call_in_recv c) (call_sendoffset c) (call_recvoffset c)
               (call_count c) (wordSize ty) rt (env_rank env)
         in (one_group pw @ map (\<lambda>w. WaitSignalOp [w]) (snd pw), TestSuccess))
      else ([], TestNotImplemented))"

definition SendRecvRunColl :: "coll_env \<Rightarrow> coll_call \<Rightarrow> elt_type \<Rightarrow> red_code \<Rightarrow> int \<Rightarrow> nccl_op list \<times> testResult" where
  "SendRecvRunColl env c ty red rt =
     (if call_impl c = 0 then
        (let recvPeer = (env_rank env - 1 + env_nranks env) smod env_nranks env;
             sendPeer = (env_rank env + 1) smod env_nranks env
         in ([GroupStart, SendOp (send_ptr c) (call_count c) sendPeer, RecvOp (recv_ptr c) (call_count c) recvPeer, GroupEnd], TestSuccess))
      else if call_impl c = HOST_RMA_IMPL then
        (let pw = SendRecvRmaPut (env_nctx env) (env_nranks env) (call_in_recv c) (call_sendoffset c) (call_recvoffset c)
               (call_count c) (wordSize ty) rt (env_rank env)
         in (one_group pw @ map (\<lambda>w. WaitSignalOp [w]) (snd pw), TestSuccess))
      else ([], TestNotImplemented))"

definition ReduceRunColl :: "coll_env \<Rightarrow> coll_call \<Rightarrow> elt_type \<Rightarrow> red_code \<Rightarrow> int \<Rightarrow> nccl_op list \<times> testResult" where
  "ReduceRunColl env c ty red rt =
     (if call_impl c = 0 then ([ReduceOp (send_ptr c) (recv_ptr c) (call_count c) red rt], TestSuccess)
      else ([], TestNotImplemented))"

definition ReduceScatterRunColl :: "coll_env \<Rightarrow> coll_call \<Rightarrow> elt_type \<Rightarrow> red_code \<Rightarrow> int \<Rightarrow> nccl_op list \<times> testResult" where
  "ReduceScatterRunColl env c ty red rt =
     (if call_impl c = 0 then ([ReduceScatterOp (send_ptr c) (recv_ptr c) (call_count c) red], TestSuccess)
      else ([], TestNotImplemented))"

definition AllReduceRunColl :: "coll_env \<Rightarrow> coll_call \<Rightarrow> elt_type \<Rightarrow> red_code \<Rightarrow> int \<Rightarrow> nccl_op list \<times> testResult" where
  "AllReduceRunColl env c ty red rt =
     (if call_impl c = 0 then ([AllReduceOp (send_ptr c) (recv_ptr c) (call_count c) red], TestSuccess)
      else if call_impl c = 1 then testLaunchDeviceKernel (SPECIALIZE_KERNEL 1 ty red)
      else if call_impl c = 2 then testLaunchDeviceKernel (SPECIALIZE_KERNEL 2 ty red)
      else if call_impl c = 3 then testLaunchDeviceKernel (SPECIALIZE_KERNEL 3 ty red)
      else if call_impl c = 4 then testLaunchDeviceKernel (SPECIALIZE_KERNEL 4 ty red)
      else ([], TestNotImplemented))"

text \<open>Without \<open>ncclAlltoAll\<close> in the library the exchange is a group of sends and receives.\<close>

definition AlltoAllRunColl :: "coll_env \<Rightarrow> coll_call \<Rightarrow> elt_type \<Rightarrow> red_code \<Rightarrow> int \<Rightarrow> nccl_op list \<times> testResult" where
  "AlltoAllRunColl env c ty red rt =
     (if call_impl c = 0 then
        (if env_version env \<ge> 22800 then ([AlltoAllOp (send_ptr c) (recv_ptr c) (call_count c)], TestSuccess)
         else
           (let rankOffset = call_count c * wordSize ty
            in (GroupStart # concat (map (\<lambda>r. [SendOp (fst (send_ptr c), snd (send_ptr c) + u64_of_int r * rankOffset) (call_count c) r,
                    RecvOp (True, snd (recv_ptr c) + u64_of_int r * rankOffset) (call_count c) r]) [0..env_nranks env - 1]) @ [GroupEnd], TestSuccess)))
      else if call_impl c = HOST_RMA_IMPL then
        (let pw = AlltoAllRmaPut (env_nctx env) (env_nranks env) (call_in_recv c) (call_sendoffset c) (call_recvoffset c)
               (call_count c) (wordSize ty) rt (env_rank env)
         in (one_group pw @ [WaitSignalOp (snd pw)], TestSuccess))
      else if call_impl c = 1 then testLaunchDeviceKernel (SPECIALIZE_KERNEL 1 ty red)
      else if call_impl c = 2 then testLaunchDeviceKernel (SPECIALIZE_KERNEL 2 ty red)
      else if call_impl c = 3 then testLaunchDeviceKernel (SPECIALIZE_KERNEL 3 ty red)
      else if call_impl c = 4 then testLaunchDeviceKernel (SPECIALIZE_KERNEL 4 ty red)
      else ([], TestNotImplemented))"

text \<open>The masks of the rounds: 1, 2, 4 and so on below the number of ranks.\<close>

function hyper_masks :: "int \<Rightarrow> int \<Rightarrow> int list" where
  "hyper_masks nRanks m = (if 0 < m \<and> m < nRanks then m # hyper_masks nRanks (push_bit 1 m) else [])"
  by pat_completeness auto
termination by (relation "measure (\<lambda>(n, m). nat (n - m))") (auto simp: push_bit_eq_mult)

definition hyper_group :: "int \<Rightarrow> u64 \<Rightarrow> u64 \<Rightarrow> u64 \<Rightarrow> int \<Rightarrow> nccl_op list" where
  "hyper_group rank rbuff rankSize cnt m =
     (let s = rank AND NOT (m - 1);
          r = s XOR m
      in [GroupStart, SendOp (True, rbuff + u64_of_int s * rankSize) (cnt * u64_of_int m) (rank XOR m),
          RecvOp (True, rbuff + u64_of_int r * rankSize) (cnt * u64_of_int m) (rank XOR m), GroupEnd])"

definition HyperCubeRunColl :: "coll_env \<Rightarrow> coll_call \<Rightarrow> elt_type \<Rightarrow> red_code \<Rightarrow> int \<Rightarrow> nccl_op list \<times> testResult" where
  "HyperCubeRunColl env c ty red rt =
     (if call_impl c = 0 then
        (let sbuff = send_ptr c; rbuff = snd (recv_ptr c); rank = env_rank env;
             rankSize = call_count c * wordSize ty;
             own = (True, rbuff + u64_of_int rank * rankSize)
         in ((if own \<noteq> sbuff then [CopyOp own sbuff rankSize] else [])
             @ concat (map (hyper_group rank rbuff rankSize (call_count c)) (hyper_masks (env_nranks env) 1)), TestSuccess))
      else ([], TestNotImplemented))"

fun runColl :: "testColl \<Rightarrow> coll_env \<Rightarrow> coll_call \<Rightarrow> elt_type \<Rightarrow> red_code \<Rightarrow> int \<Rightarrow> nccl_op list \<times> testResult" where
  "runColl AllReduceTest = AllReduceRunColl"
| "runColl AllGatherTest = AllGatherRunColl"
| "runColl ReduceScatterTest = ReduceScatterRunColl"
| "runColl BroadcastTest = BroadcastRunColl"
| "runColl ReduceTest = ReduceRunColl"
| "runColl GatherTest = GatherRunColl"
| "runColl ScatterTest = ScatterRunColl"
| "runColl SendRecvTest = SendRecvRunColl"
| "runColl HyperCubeTest = HyperCubeRunColl"
| "runColl AlltoAllTest = AlltoAllRunColl"

declare hyper_masks.simps [simp del]

lemmas runColl_defs = AllReduceRunColl_def AllGatherRunColl_def ReduceScatterRunColl_def BroadcastRunColl_def ReduceRunColl_def
  GatherRunColl_def ScatterRunColl_def SendRecvRunColl_def HyperCubeRunColl_def AlltoAllRunColl_def

section \<open>The runs of a test\<close>

text \<open>
  What \<open>RunTest\<close> asks \<open>TimeTest\<close> for: type, operation and root with the names that are printed. A
  type or an operation is \<^const>\<open>None\<close> for the value -1 (all). \<open>zero_op\<close> is the operation number 0.
\<close>

type_synonym test_call = "elt_type \<times> string \<times> red_code \<times> string \<times> int"

record test_tables =
  tab_typenum :: nat
  tab_types :: "elt_type list"
  tab_typenames :: "string list"
  tab_opnum :: nat
  tab_ops :: "red_code list"
  tab_opnames :: "string list"
  tab_zero_op :: red_code

definition run_types :: "test_tables \<Rightarrow> elt_type option \<Rightarrow> string \<Rightarrow> (elt_type \<times> string) list" where
  "run_types tb ty typeName =
     (case ty of Some t \<Rightarrow> [(t, typeName)]
      | None \<Rightarrow> map (\<lambda>i. (tab_types tb ! i, tab_typenames tb ! i)) [0..<tab_typenum tb])"

definition run_ops :: "test_tables \<Rightarrow> red_code option \<Rightarrow> string \<Rightarrow> (red_code \<times> string) list" where
  "run_ops tb red opName =
     (case red of Some p \<Rightarrow> [(p, opName)]
      | None \<Rightarrow> map (\<lambda>i. (tab_ops tb ! i, tab_opnames tb ! i)) [0..<tab_opnum tb])"

definition run_roots :: "threadArgs \<Rightarrow> int \<Rightarrow> int list" where
  "run_roots args rt = (if rt \<noteq> -1 then [rt..rt] else [0..nranks_of args - 1])"

text \<open>Nested loops around \<open>TESTCHECK(TimeTest(...))\<close>: the first failure ends the test.\<close>

fun time_tests :: "(test_call \<Rightarrow> 's \<Rightarrow> testResult \<times> 's) \<Rightarrow> test_call list \<Rightarrow> 's \<Rightarrow> testResult \<times> 's" where
  "time_tests TimeTest [] s = (TestSuccess, s)"
| "time_tests TimeTest (c # cs) s =
     (let (r, s') = TimeTest c s in if r \<noteq> TestSuccess then (r, s') else time_tests TimeTest cs s')"

definition AllGatherRunTest where
  "AllGatherRunTest TimeTest tb args (rt :: int) ty typeName (red :: red_code option) (opName :: string) =
     time_tests TimeTest (map (\<lambda>(t, n). (t, n, tab_zero_op tb, ''none'', -1)) (run_types tb ty typeName))"

definition AlltoAllRunTest where
  "AlltoAllRunTest TimeTest tb args (rt :: int) ty typeName (red :: red_code option) (opName :: string) =
     time_tests TimeTest (map (\<lambda>(t, n). (t, n, tab_zero_op tb, ''none'', -1)) (run_types tb ty typeName))"

definition HyperCubeRunTest where
  "HyperCubeRunTest TimeTest tb args (rt :: int) ty typeName (red :: red_code option) (opName :: string) =
     (let nRanks = nranks_of args
      in if nRanks \<noteq> 0 \<and> nRanks AND (nRanks - 1) = 0
         then time_tests TimeTest (map (\<lambda>(t, n). (t, n, tab_zero_op tb, [], -1)) (run_types tb ty typeName))
         else Pair TestSuccess)"

definition AllReduceRunTest where
  "AllReduceRunTest TimeTest tb args (rt :: int) ty typeName red opName =
     time_tests TimeTest (concat (map (\<lambda>(t, n). map (\<lambda>(p, q). (t, n, p, q, -1)) (run_ops tb red opName)) (run_types tb ty typeName)))"

definition ReduceScatterRunTest where
  "ReduceScatterRunTest TimeTest tb args (rt :: int) ty typeName red opName =
     time_tests TimeTest (concat (map (\<lambda>(t, n). map (\<lambda>(p, q). (t, n, p, q, -1)) (run_ops tb red opName)) (run_types tb ty typeName)))"

definition SendRecvRunTest where
  "SendRecvRunTest TimeTest tb args (rt :: int) ty typeName red opName =
     time_tests TimeTest (concat (map (\<lambda>(t, n). map (\<lambda>(p, q). (t, n, p, q, -1)) (run_ops tb red opName)) (run_types tb ty typeName)))"

definition BroadcastRunTest where
  "BroadcastRunTest TimeTest tb args rt ty typeName (red :: red_code option) (opName :: string) =
     time_tests TimeTest (concat (map (\<lambda>(t, n). map (\<lambda>j. (t, n, tab_zero_op tb, ''none'', j)) (run_roots args rt)) (run_types tb ty typeName)))"

definition GatherRunTest where
  "GatherRunTest TimeTest tb args rt ty typeName (red :: red_code option) (opName :: string) =
     time_tests TimeTest (concat (map (\<lambda>(t, n). map (\<lambda>j. (t, n, tab_zero_op tb, ''none'', j)) (run_roots args rt)) (run_types tb ty typeName)))"

definition ScatterRunTest where
  "ScatterRunTest TimeTest tb args rt ty typeName (red :: red_code option) (opName :: string) =
     time_tests TimeTest (concat (map (\<lambda>(t, n). map (\<lambda>j. (t, n, tab_zero_op tb, ''none'', j)) (run_roots args rt)) (run_types tb ty typeName)))"

definition ReduceRunTest where
  "ReduceRunTest TimeTest tb args rt ty typeName red opName =
     time_tests TimeTest (concat (map (\<lambda>(t, n). concat (map (\<lambda>(p, q). map (\<lambda>k. (t, n, p, q, k)) (run_roots args rt)) (run_ops tb red opName)))
       (run_types tb ty typeName)))"

fun runTest :: "testColl \<Rightarrow> (test_call \<Rightarrow> 's \<Rightarrow> testResult \<times> 's) \<Rightarrow> test_tables \<Rightarrow> threadArgs \<Rightarrow> int \<Rightarrow> elt_type option \<Rightarrow> string
    \<Rightarrow> red_code option \<Rightarrow> string \<Rightarrow> 's \<Rightarrow> testResult \<times> 's" where
  "runTest AllReduceTest = AllReduceRunTest"
| "runTest AllGatherTest = AllGatherRunTest"
| "runTest ReduceScatterTest = ReduceScatterRunTest"
| "runTest BroadcastTest = BroadcastRunTest"
| "runTest ReduceTest = ReduceRunTest"
| "runTest GatherTest = GatherRunTest"
| "runTest ScatterTest = ScatterRunTest"
| "runTest SendRecvTest = SendRecvRunTest"
| "runTest HyperCubeTest = HyperCubeRunTest"
| "runTest AlltoAllTest = AlltoAllRunTest"

lemmas runTest_defs = AllReduceRunTest_def AllGatherRunTest_def ReduceScatterRunTest_def BroadcastRunTest_def ReduceRunTest_def
  GatherRunTest_def ScatterRunTest_def SendRecvRunTest_def HyperCubeRunTest_def AlltoAllRunTest_def

section \<open>What the reported bandwidths mean\<close>

text \<open>The factors of doc/PERFORMANCE.md, for the six collectives it treats.\<close>

definition documented_factor :: "testColl \<Rightarrow> int \<Rightarrow> real option" where
  "documented_factor t n =
     (if t = AllReduceTest then Some (2 * (real_of_int n - 1) / real_of_int n)
      else if t \<in> {ReduceScatterTest, AllGatherTest, AlltoAllTest} then Some ((real_of_int n - 1) / real_of_int n)
      else if t \<in> {BroadcastTest, ReduceTest} then Some 1 else None)"

text \<open>The quotient of the bus bandwidth and the printed size by the time, in the code.\<close>

definition bus_factor :: "testColl \<Rightarrow> int \<Rightarrow> real" where
  "bus_factor t n =
     (if t = AllReduceTest then 2 * (real_of_int n - 1) / real_of_int n
      else if t \<in> {BroadcastTest, ReduceTest, SendRecvTest} then 1 else (real_of_int n - 1) / real_of_int n)"

lemma base_count_traffic:
  fixes b m :: u64 and ty args
  defines "q \<equiv> base_count (b div wordSize ty) (wordSize ty) (u64_of_int (nranks_of args))"
  assumes m: "unat m \<le> unat (u64_of_int (nranks_of args))"
  shows "unat (q * wordSize ty * m) = unat q * unat m * unat (wordSize ty)"
    and "unat (q * m * wordSize ty) = unat q * unat m * unat (wordSize ty)"
proof -
  have "unat q * unat m \<le> unat q * unat (u64_of_int (nranks_of args))" using m by (rule mult_le_mono2)
  also have "\<dots> \<le> unat (b div wordSize ty)" unfolding q_def by (rule base_count_times_le) simp
  finally have "unat q * unat m + 0 \<le> unat (b div wordSize ty)" by simp
  from in_place_word [OF this] show "unat (q * wordSize ty * m) = unat q * unat m * unat (wordSize ty)" .
  then show "unat (q * m * wordSize ty) = unat q * unat m * unat (wordSize ty)" by (simp only: ac_simps)
qed

definition in_blocks :: "testColl \<Rightarrow> bool" where
  "in_blocks t \<longleftrightarrow> t \<notin> {AllReduceTest, BroadcastTest, ReduceTest, SendRecvTest}"

lemma max_bytes:
  fixes t b ty args
  defines "a \<equiv> setupArgs (getCollByteCount t) b ty args"
  assumes wf: "wf_args args"
  shows "real (unat (max (sendBytes a) (expectedBytes a)))
    = (if in_blocks t then real_of_int (nranks_of args) else 1) * (real (unat (paramcount (run_counts t b ty args))) * real (unat (wordSize ty)))"
proof -
  let ?c = "run_counts t b ty args" and ?w = "unat (wordSize ty)" and ?n = "nat (nranks_of args)"
  have n: "1 \<le> ?n" "real ?n = real_of_int (nranks_of args)" using wf_nranks [OF wf] by linarith+
  have "unat (max (sendBytes a) (expectedBytes a)) = max (unat (sendBytes a)) (unat (expectedBytes a))"
    by (simp add: max_def word_le_nat_alt)
  also have "\<dots> = max (unat (sendcount ?c)) (unat (recvcount ?c)) * ?w"
    unfolding a_def setupArgs_bytes(1,3) by (simp add: max_def)
  also have "max (unat (sendcount ?c)) (unat (recvcount ?c)) = (if in_blocks t then ?n * unat (paramcount ?c) else unat (paramcount ?c))"
  proof -
    have le: "x \<le> x * ?n" for x :: nat using mult_le_mono2 [OF n(1), of x] by (simp only: mult_1_right)
    have m: "max x (x * ?n) = ?n * x" "max (x * ?n) x = ?n * x" "max (?n * x) (?n * x) = ?n * x" for x :: nat
      unfolding max_absorb1 [OF le] max_absorb2 [OF le] by (simp_all only: mult.commute max.idem)
    have m': "max x (?n * x) = ?n * x" "max (?n * x) x = ?n * x" for x using m [of x] by (simp_all only: mult.commute)
    show ?thesis
      by (cases t) (simp_all add: in_blocks_def count_defs Let_def base_count_times base_count_times' nranks_word(1) [OF wf] m' mult.commute)
  qed
  finally show ?thesis using n(2) by simp
qed

lemma getBw_bytes:
  fixes t b ty args sec
  defines "c \<equiv> run_counts t b ty args" and "n \<equiv> nranks_of args"
  assumes wf: "wf_args args"
  shows "getBw t (paramcount c) (wordSize ty) sec n =
    (let p = real (unat (paramcount c)) * real (unat (wordSize ty));
         S = (if t = HyperCubeTest then real_of_int n - 1 else if in_blocks t then real_of_int n else 1) * p / 10 ^ 9 / sec
     in (S, S * (if t = HyperCubeTest then 1 else bus_factor t n)))"
proof -
  let ?N = "u64_of_int n" and ?w = "wordSize ty" and ?p = "paramcount c"
  have n: "unat ?N = nat n" "0 < n" "n < 2 ^ 64" using nranks_word(1) [OF wf] wf_nranks [OF wf] by (simp_all add: n_def)
  have n1: "unat (u64_of_int (n - 1)) = nat (n - 1)" using n by (intro unat_word_of_int_small) simp_all
  then have n2: "unat (?N - 1) = nat (n - 1)" by simp
  have m: "unat ?N \<le> unat (u64_of_int (nranks_of args))" "unat (u64_of_int (n - 1)) \<le> unat (u64_of_int (nranks_of args))"
    using n n1 by (simp_all add: n_def)
  have p: "?p = base_count (b div ?w) ?w (u64_of_int (nranks_of args))" if "in_blocks t"
    using that by (cases t) (simp_all add: in_blocks_def c_def count_defs Let_def)
  note traffic = base_count_traffic [OF m(1), of b ty] base_count_traffic [OF m(2), of b ty]
  have one: "unat (?p * ?w) = unat ?p * unat ?w"
    using sized.counts_le [OF wordSize_width [of ty], of t "b div ?w" "u64_of_int (nranks_of args)"]
    unfolding c_def by (intro unat_times_word) blast
  have r: "real (nat n) = real_of_int n" "real (nat (n - 1)) = real_of_int n - 1" using n by simp_all
  have B: "base_bw (?p * ?w) sec = real (unat ?p) * real (unat ?w) / 10 ^ 9 / sec"
    "in_blocks t \<Longrightarrow> base_bw (?p * ?w * ?N) sec = real_of_int n * (real (unat ?p) * real (unat ?w)) / 10 ^ 9 / sec"
    "in_blocks t \<Longrightarrow> base_bw (?p * ?N * ?w) sec = real_of_int n * (real (unat ?p) * real (unat ?w)) / 10 ^ 9 / sec"
    "in_blocks t \<Longrightarrow> base_bw (?p * ?w * u64_of_int (n - 1)) sec = (real_of_int n - 1) * (real (unat ?p) * real (unat ?w)) / 10 ^ 9 / sec"
    using p traffic one by (simp_all add: base_bw_def n n1 n2 r mult.commute mult.left_commute del: of_nat_unat)
  show ?thesis
    using B by (cases t) (simp_all only: getBw.simps getBw_defs in_blocks_def bus_factor_def Let_def insert_iff empty_iff simp_thms testColl.distinct if_True if_False, simp_all)
qed

text \<open>C32: the bandwidths that are reported. Let \<open>S\<close> be the size printed for the run (the larger of the send and the receive buffer).
  For every collective but the hypercube the algorithm bandwidth is \<open>S\<close> by the time, as doc/PERFORMANCE.md defines it. For the
  six collectives that file treats the bus bandwidth is that times the factor given there. It says nothing of the others: the code takes the factor
  \<open>(n - 1) / n\<close> for gather and scatter and 1 for sendrecv, and for the hypercube both bandwidths are \<open>S * (n - 1) / n\<close> by the time (what
  a rank receives from others), against the definition of the algorithm bandwidth in the document.\<close>

theorem reported_bandwidths:
  assumes "wf_args args" and a: "a = setupArgs (getCollByteCount t) b ty args"
  defines "n \<equiv> real_of_int (nranks_of args)"
  shows "getBw t (nbytes a div wordSize ty) (wordSize ty) sec (nranks_of args) =
    (let algbw = real (unat (max (sendBytes a) (expectedBytes a))) / 10 ^ 9 / sec
     in case documented_factor t (nranks_of args) of
          Some f \<Rightarrow> (algbw, algbw * f)
        | None \<Rightarrow> if t = SendRecvTest then (algbw, algbw)
                  else if t = HyperCubeTest then (algbw * (n - 1) / n, algbw * (n - 1) / n)
                  else (algbw, algbw * (n - 1) / n))"
proof -
  let ?a = "setupArgs (getCollByteCount t) b ty args"
  have p: "nbytes ?a div wordSize ty = paramcount (run_counts t b ty args)"
    using setupArgs_bytes(5) [of t b ty args] by (simp add: word_unat_eq_iff unat_div)
  have "real_of_int (nranks_of args) \<noteq> 0" using wf_nranks [OF assms(1)] by simp
  then show ?thesis
    unfolding a p
    unfolding getBw_bytes [OF assms(1)] Let_def max_bytes [OF assms(1)]
    by (cases t) (simp_all add: bus_factor_def documented_factor_def in_blocks_def n_def)
qed

theorem reported_bandwidths_witness:
  "getBw AllReduceTest 1024 4 (1 / 10 ^ 9) 4 = (4096, 6144)"
proof -
  have wf: "wf_args example_args" and n: "nranks_of example_args = 4" by (rule example_args_wf) (simp add: example_args_def nranks_of_def)
  show ?thesis
    using reported_bandwidths [OF wf refl, where t = AllReduceTest and b = 4096 and ty = NcclFloat32 and sec = "1 / 10 ^ 9"]
    by (simp add: n setupArgs_def count_defs documented_factor_def)
qed

section \<open>Which calls are implemented\<close>

definition implemented :: "testColl \<Rightarrow> int \<Rightarrow> elt_type \<Rightarrow> red_code \<Rightarrow> bool" where
  "implemented t impl ty red \<longleftrightarrow> impl = 0
     \<or> impl = HOST_RMA_IMPL \<and> t \<in> {AllGatherTest, BroadcastTest, GatherTest, ScatterTest, SendRecvTest, AlltoAllTest}
     \<or> impl \<in> {1..4} \<and> t \<in> {AllReduceTest, AlltoAllTest} \<and> red = NcclSum \<and> ty \<notin> {NcclBfloat16, NcclFloat8e4m3, NcclFloat8e5m2}"

lemma launch_device_kernel:
  "testLaunchDeviceKernel (SPECIALIZE_KERNEL k ty red) =
     (if red = NcclSum \<and> ty \<notin> {NcclBfloat16, NcclFloat8e4m3, NcclFloat8e5m2} then ([KernelOp k ty], TestSuccess) else ([], TestNotImplemented))"
  by (cases ty) (simp_all add: testLaunchDeviceKernel_def SPECIALIZE_KERNEL_def)

text \<open>A call of a collective issues operations and succeeds for the implementations the collective has: NCCL's own for
  all, the one-sided one for six of them, the device kernels 1 to 4 for all-reduce and all-to-all sums of the nine types
  that have kernels. All other calls issue nothing and return \<open>testNotImplemented\<close>. In particular a run
  without \<open>-D\<close> and \<open>-H\<close> never returns that.\<close>

theorem run_coll_implemented:
  "snd (runColl t env c ty red rt) = (if implemented t (call_impl c) ty red then TestSuccess else TestNotImplemented)
   \<and> (\<not> implemented t (call_impl c) ty red \<longrightarrow> fst (runColl t env c ty red rt) = [])
   \<and> (start_call o' args misalign ty in_place iter i = Some c \<and> opt_deviceImpl o' = 0 \<and> \<not> opt_hostRmaImpl o'
        \<longrightarrow> snd (runColl t env c ty red rt) = TestSuccess)"
proof -
  consider "call_impl c = 0" | "call_impl c = 10" | "call_impl c = 1" | "call_impl c = 2" | "call_impl c = 3" | "call_impl c = 4"
    | "call_impl c \<notin> {0, 10, 1, 2, 3, 4}" by blast
  then have 1: "snd (runColl t env c ty red rt) = (if implemented t (call_impl c) ty red then TestSuccess else TestNotImplemented)
      \<and> (\<not> implemented t (call_impl c) ty red \<longrightarrow> fst (runColl t env c ty red rt) = [])"
    by cases (cases t; simp add: runColl_defs implemented_def HOST_RMA_IMPL_def launch_device_kernel Let_def)+
  have "call_impl c = 0" if "start_call o' args misalign ty in_place iter i = Some c" "opt_deviceImpl o' = 0" "\<not> opt_hostRmaImpl o'"
    using that by (auto simp: start_call_def Let_def)
  with 1 show ?thesis by (simp add: implemented_def)
qed

theorem run_coll_implemented_witness:
  "\<exists>c. start_call default_options (setupArgs (getCollByteCount AllReduceTest) 4096 NcclBfloat16 example_args) 0 NcclBfloat16 False 5 1 = Some c
    \<and> snd (runColl AllReduceTest \<lparr>env_version = 23100, env_nctx = 1, env_nranks = 4, env_rank = 1\<rparr> c NcclBfloat16 NcclSum 0) = TestSuccess
    \<and> runColl AllReduceTest \<lparr>env_version = 23100, env_nctx = 1, env_nranks = 4, env_rank = 1\<rparr> (c\<lparr>call_impl := 3\<rparr>) NcclBfloat16 NcclSum 0 = ([], TestNotImplemented)"
proof -
  let ?start = "start_call default_options (setupArgs (getCollByteCount AllReduceTest) 4096 NcclBfloat16 example_args) 0 NcclBfloat16 False 5 1"
  obtain c where c: "?start = Some c" by (simp add: start_call_def coll_shift_def setupArgs_def count_defs default_options_def example_args_def)
  have "opt_deviceImpl default_options = 0 \<and> \<not> opt_hostRmaImpl default_options" by (simp add: default_options_def)
  with c run_coll_implemented [of AllReduceTest "\<lparr>env_version = 23100, env_nctx = 1, env_nranks = 4, env_rank = 1\<rparr>" c NcclBfloat16 NcclSum 0]
    run_coll_implemented [of AllReduceTest "\<lparr>env_version = 23100, env_nctx = 1, env_nranks = 4, env_rank = 1\<rparr>" "c\<lparr>call_impl := 3\<rparr>" NcclBfloat16 NcclSum 0]
  have "snd (runColl AllReduceTest \<lparr>env_version = 23100, env_nctx = 1, env_nranks = 4, env_rank = 1\<rparr> c NcclBfloat16 NcclSum 0) = TestSuccess"
    "runColl AllReduceTest \<lparr>env_version = 23100, env_nctx = 1, env_nranks = 4, env_rank = 1\<rparr> (c\<lparr>call_impl := 3\<rparr>) NcclBfloat16 NcclSum 0 = ([], TestNotImplemented)"
    by (blast, simp add: implemented_def HOST_RMA_IMPL_def prod_eq_iff)
  with c show ?thesis by blast
qed

section \<open>Names and tables\<close>

lemma find_name_nth:
  "distinct ns \<Longrightarrow> i < length ns \<Longrightarrow> find_name (ns ! i) ns t = Some (t + int i)"
proof (induction ns arbitrary: i t)
  case (Cons n ns)
  then show ?case by (cases i) (auto simp: nth_Cons')
qed simp

lemma find_name_none: "str \<notin> set ns \<Longrightarrow> find_name str ns t = None"
  by (induction ns arbitrary: t) auto

lemma table_sizes: "init_typenum v \<in> {9, 10, 12}" "init_opnum v \<in> {4, 5, 6}"
  by (auto simp: init_typenum_def init_opnum_def)

text \<open>Round trip of the names. For every version of NCCL, the name of a type (operation) of the table given on
  the command line selects the index of that type (operation); \<open>all\<close> selects -1, and a name that is not in the
  table selects float (sum).\<close>

theorem names_round_trip:
  assumes "i < init_typenum version" and "j < init_opnum version"
  shows "ncclstringtotype flt (init_typenum version) test_typenames (test_typenames ! i) = int i
    \<and> ncclstringtoop sm (init_opnum version) test_opnames (test_opnames ! j) = int j
    \<and> ncclstringtotype flt (init_typenum version) test_typenames ''all'' = -1
    \<and> ncclstringtoop sm (init_opnum version) test_opnames ''all'' = -1
    \<and> (str \<notin> set (take (init_typenum version) test_typenames) \<union> {''all''} \<longrightarrow>
        ncclstringtotype flt (init_typenum version) test_typenames str = flt)
    \<and> (str \<notin> set (take (init_opnum version) test_opnames) \<union> {''all''} \<longrightarrow>
        ncclstringtoop sm (init_opnum version) test_opnames str = sm)"
proof -
  let ?ts = "take (init_typenum version) test_typenames" and ?os = "take (init_opnum version) test_opnames"
  have len: "length ?ts = init_typenum version" "length ?os = init_opnum version"
    using table_sizes [of version] by (auto simp: test_typenames_def test_opnames_def)
  have "distinct test_typenames" "distinct test_opnames" by (simp_all add: test_typenames_def test_opnames_def)
  then have d: "distinct ?ts" "distinct ?os" by simp_all
  have nth: "?ts ! i = test_typenames ! i" "?os ! j = test_opnames ! j" using assms by simp_all
  have "''all'' \<notin> set test_typenames" "''all'' \<notin> set test_opnames" by (simp_all add: test_typenames_def test_opnames_def)
  then have a: "find_name ''all'' ?ts 0 = None" "find_name ''all'' ?os 0 = None"
    by (auto intro!: find_name_none dest: in_set_takeD)
  from find_name_nth [OF d(1), of i 0] find_name_nth [OF d(2), of j 0] assms show ?thesis
    unfolding ncclstringtotype_def ncclstringtoop_def a len nth by (simp add: find_name_none)
qed

theorem names_round_trip_witness:
  "ncclstringtotype 7 (init_typenum 23100) test_typenames ''bfloat16'' = 9 \<and> ncclstringtoop 0 (init_opnum 23100) test_opnames ''avg'' = 4"
  using names_round_trip [of 9 23100 4] by (simp add: init_typenum_def init_opnum_def test_typenames_def test_opnames_def)

text \<open>Removing the entries in place: the next free slot never overtakes the entry that is read.\<close>

definition is_fp8 :: "elt_type \<Rightarrow> bool" where
  "is_fp8 ty \<longleftrightarrow> ty = NcclFloat8e4m3 \<or> ty = NcclFloat8e5m2"

lemma filter_fp8_Suc:
  "filter_fp8 (Suc k) i n (types, names) =
     (if is_fp8 (types ! i) then filter_fp8 k (Suc i) n (types, names)
      else filter_fp8 k (Suc i) (Suc n) (types[n := types ! i], names[n := names ! i]))"
  by (simp add: is_fp8_def)

declare filter_fp8.simps(2) [simp del]

lemma filter_fp8_spec:
  assumes "n \<le> i" "i + k \<le> length types" "length names = length types"
  shows "\<exists>types' names'. filter_fp8 k i n (types, names) = (n + length (filter (\<lambda>p. \<not> is_fp8 (fst p)) (take k (drop i (zip types names)))), types', names')
    \<and> length types' = length types \<and> length names' = length types
    \<and> take (n + length (filter (\<lambda>p. \<not> is_fp8 (fst p)) (take k (drop i (zip types names))))) (zip types' names')
      = take n (zip types names) @ filter (\<lambda>p. \<not> is_fp8 (fst p)) (take k (drop i (zip types names)))"
  using assms
proof (induction k arbitrary: i n types names)
  case (Suc k)
  let ?Z = "zip types names"
  have i: "i < length ?Z" using Suc.prems by simp
  have d: "take (Suc k) (drop i ?Z) = (types ! i, names ! i) # take k (drop (Suc i) ?Z)"
    using i by (simp add: Cons_nth_drop_Suc [symmetric])
  show ?case
  proof (cases "is_fp8 (types ! i)")
    case True
    with Suc.IH [of n "Suc i" types names] Suc.prems show ?thesis unfolding d filter_fp8_Suc by simp
  next
    case False
    let ?t = "types[n := types ! i]" and ?m = "names[n := names ! i]"
    have z: "zip ?t ?m = ?Z[n := (types ! i, names ! i)]" using Suc.prems by (simp add: update_zip)
    have rest: "drop (Suc i) (zip ?t ?m) = drop (Suc i) ?Z" using Suc.prems unfolding z by simp
    have first: "take (Suc n) (zip ?t ?m) = take n ?Z @ [(types ! i, names ! i)]"
      using Suc.prems unfolding z by (simp add: take_Suc_conv_app_nth)
    from Suc.IH [of "Suc n" "Suc i" ?t ?m] Suc.prems False show ?thesis
      unfolding d rest first filter_fp8_Suc by simp
  qed
qed simp

text \<open>On devices before Hopper the tables that are run hold exactly the entries of the version's types that are not
  8 bit floating point, in order and each with its name; on others, exactly the version's types.\<close>

theorem types_filtered:
  defines "all_types \<equiv> \<lambda>version. take (init_typenum version) (zip test_types test_typenames)"
  shows "\<exists>n types names. filter_types version minCudaArch (init_typenum version) = (n, types, names)
    \<and> n \<le> length types \<and> n \<le> length names
    \<and> map (\<lambda>i. (types ! i, names ! i)) [0..<n]
      = (if minCudaArch < 900 then filter (\<lambda>p. \<not> is_fp8 (fst p)) (all_types version) else all_types version)"
proof -
  have len: "length test_types = 12" "length test_typenames = 12" by (simp_all add: test_types_def test_typenames_def)
  have le: "init_typenum version \<le> 12" using table_sizes(1) [of version] by auto
  have tab: "map (\<lambda>i. (ts ! i, ns ! i)) [0..<n] = take n (zip ts ns)" if "n \<le> length ts" "n \<le> length ns" for n and ts :: "elt_type list" and ns :: "string list"
    using that by (intro nth_equalityI) simp_all
  have old: "filter (\<lambda>p. \<not> is_fp8 (fst p)) (all_types version) = all_types version" if "version < 22400"
  proof -
    have "init_typenum version \<le> 10" using that by (simp add: init_typenum_def)
    then have "set (all_types version) \<subseteq> set (take 10 (zip test_types test_typenames))"
      unfolding all_types_def by (rule set_take_subset_set_take)
    moreover have "\<forall>p\<in>set (take 10 (zip test_types test_typenames)). \<not> is_fp8 (fst p)"
      by (simp add: test_types_def test_typenames_def is_fp8_def)
    ultimately show ?thesis by (auto intro!: filter_True)
  qed
  show ?thesis
  proof (cases "version \<ge> 22400 \<and> minCudaArch < 900")
    case True
    let ?F = "filter (\<lambda>p. \<not> is_fp8 (fst p)) (all_types version)"
    obtain ts ns where r: "filter_types version minCudaArch (init_typenum version) = (length ?F, ts, ns)"
      "length ts = 12" "length ns = 12" "take (length ?F) (zip ts ns) = ?F"
      using filter_fp8_spec [of 0 0 "init_typenum version" test_types test_typenames] True le len
      by (auto simp: filter_types_def all_types_def)
    have "length ?F \<le> 12" using le unfolding all_types_def by (intro order_trans [OF length_filter_le]) simp
    with r tab [of "length ?F" ts ns] True show ?thesis by simp
  next
    case False
    with le len tab [of "init_typenum version" test_types test_typenames] old show ?thesis
      by (auto simp: filter_types_def all_types_def)
  qed
qed

section \<open>Which runs a test makes\<close>

lemma and_pred_zero_iff: "0 < n \<Longrightarrow> n AND (n - 1) = 0 \<longleftrightarrow> (\<exists>k::nat. n = (2::int) ^ k)"
proof (induction "nat n" arbitrary: n rule: less_induct)
  case less
  show ?case
  proof (cases "even n")
    case True
    then obtain m where m: "n = 2 * m" by blast
    have "(2 * m - 1) div 2 = m - 1" by presburger
    then have "n AND (n - 1) = 2 * (m AND (m - 1))"
      using and_rec [of n "n - 1"] by (simp add: m)
    moreover have "m AND (m - 1) = 0 \<longleftrightarrow> (\<exists>k::nat. m = 2 ^ k)"
      using less.prems m by (intro less.hyps) auto
    moreover have "(\<exists>k::nat. m = 2 ^ k) \<longleftrightarrow> (\<exists>k::nat. n = 2 ^ k)"
    proof
      assume "\<exists>k::nat. n = 2 ^ k"
      then obtain k :: nat where k: "n = 2 ^ k" by blast
      with True obtain j where "k = Suc j" by (cases k) auto
      with k m show "\<exists>k::nat. m = 2 ^ k" by auto
    qed (use m power_Suc [of "2::int"] in metis)
    ultimately show ?thesis by simp
  next
    case False
    then obtain m where m: "n = 2 * m + 1" by (elim oddE)
    have "n AND (n - 1) = 2 * m"
      using and_rec [of n "n - 1"] m by simp
    moreover have "n = 1" if "n = 2 ^ k" for k :: nat
      using False that by (cases k) auto
    moreover have "\<exists>k::nat. n = 2 ^ k" if "n = 1" using that by (intro exI [of _ 0]) simp
    ultimately show ?thesis using m by auto
  qed
qed

definition uses_op :: "testColl \<Rightarrow> bool" where
  "uses_op t \<longleftrightarrow> t \<in> {AllReduceTest, ReduceScatterTest, ReduceTest, SendRecvTest}"

definition uses_root :: "testColl \<Rightarrow> bool" where
  "uses_root t \<longleftrightarrow> t \<in> {BroadcastTest, ReduceTest, GatherTest, ScatterTest}"

text \<open>The runs that the command line asks for.\<close>

definition wanted :: "testColl \<Rightarrow> test_tables \<Rightarrow> threadArgs \<Rightarrow> int \<Rightarrow> elt_type option \<Rightarrow> string \<Rightarrow> red_code option \<Rightarrow> string \<Rightarrow> test_call set" where
  "wanted t tb args rt ty typeName red opName = {(a, n, p, q, k).
     (a, n) \<in> set (run_types tb ty typeName)
     \<and> (if uses_op t then (p, q) \<in> set (run_ops tb red opName) else (p, q) = (tab_zero_op tb, if t = HyperCubeTest then [] else ''none''))
     \<and> (if uses_root t then (if rt = -1 then 0 \<le> k \<and> k < nranks_of args else k = rt) else k = -1)
     \<and> (t = HyperCubeTest \<longrightarrow> (\<exists>j::nat. nranks_of args = 2 ^ j))}"

text \<open>The loops over a list: the calls are made in order up to the first that fails.\<close>

lemma time_tests_log:
  "\<exists>k \<le> length cs. snd (time_tests (\<lambda>c lg. (outcome c, lg @ [c])) cs lg) = lg @ take k cs
    \<and> (if \<forall>c\<in>set cs. outcome c = TestSuccess then k = length cs \<and> fst (time_tests (\<lambda>c lg. (outcome c, lg @ [c])) cs lg) = TestSuccess
       else 0 < k \<and> outcome (cs ! (k - 1)) \<noteq> TestSuccess \<and> fst (time_tests (\<lambda>c lg. (outcome c, lg @ [c])) cs lg) = outcome (cs ! (k - 1))
         \<and> (\<forall>i<k - 1. outcome (cs ! i) = TestSuccess))"
proof (induction cs arbitrary: lg)
  case (Cons c cs)
  show ?case
  proof (cases "outcome c = TestSuccess")
    case True
    from Cons.IH [of "lg @ [c]"] obtain k where k: "k \<le> length cs"
      "snd (time_tests (\<lambda>c lg. (outcome c, lg @ [c])) cs (lg @ [c])) = (lg @ [c]) @ take k cs"
      "if \<forall>c\<in>set cs. outcome c = TestSuccess then k = length cs \<and> fst (time_tests (\<lambda>c lg. (outcome c, lg @ [c])) cs (lg @ [c])) = TestSuccess
       else 0 < k \<and> outcome (cs ! (k - 1)) \<noteq> TestSuccess \<and> fst (time_tests (\<lambda>c lg. (outcome c, lg @ [c])) cs (lg @ [c])) = outcome (cs ! (k - 1))
         \<and> (\<forall>i<k - 1. outcome (cs ! i) = TestSuccess)" by blast
    show ?thesis
      using k True by (intro exI [of _ "Suc k"]) (auto simp: nth_Cons' split: if_splits)
  next
    case False
    then show ?thesis by (intro exI [of _ 1]) auto
  qed
qed simp

text \<open>Every test is such a loop over a list of distinct calls.\<close>

lemma distinct_products:
  assumes "distinct xs" "\<And>x. x \<in> set xs \<Longrightarrow> distinct (f x)" "\<And>x y c. c \<in> set (f x) \<Longrightarrow> c \<in> set (f y) \<Longrightarrow> x = y"
  shows "distinct (concat (map f xs))"
  using assms by (induction xs) auto

definition test_calls :: "testColl \<Rightarrow> test_tables \<Rightarrow> threadArgs \<Rightarrow> int \<Rightarrow> elt_type option \<Rightarrow> string \<Rightarrow> red_code option \<Rightarrow> string \<Rightarrow> test_call list" where
  "test_calls t tb args rt ty typeName red opName =
     concat (map (\<lambda>(a, n). concat (map (\<lambda>(p, q). map (\<lambda>k. (a, n, p, q, k)) (if uses_root t then run_roots args rt else [-1]))
         (if uses_op t then run_ops tb red opName else [(tab_zero_op tb, if t = HyperCubeTest then [] else ''none'')])))
       (if t = HyperCubeTest \<and> \<not> (nranks_of args \<noteq> 0 \<and> nranks_of args AND (nranks_of args - 1) = 0) then []
        else run_types tb ty typeName))"

lemma runTest_calls:
  "runTest t TimeTest tb args rt ty typeName red opName = time_tests TimeTest (test_calls t tb args rt ty typeName red opName)"
  by (cases t) (auto simp: test_calls_def runTest_defs Let_def uses_op_def uses_root_def case_prod_unfold
      concat_map_singleton [where f = "\<lambda>x. (fst x, y x)" for y] fun_eq_iff)

lemma product_calls:
  fixes types :: "('a \<times> 'b) list" and ops :: "('c \<times> 'd) list" and ks :: "'e list"
  defines "cs \<equiv> concat (map (\<lambda>(a, n). concat (map (\<lambda>(p, q). map (\<lambda>k. (a, n, p, q, k)) ks) ops)) types)"
  shows "set cs = {(a, n, p, q, k). (a, n) \<in> set types \<and> (p, q) \<in> set ops \<and> k \<in> set ks}"
    and "distinct types \<Longrightarrow> distinct ops \<Longrightarrow> distinct ks \<Longrightarrow> distinct cs"
proof -
  show "set cs = {(a, n, p, q, k). (a, n) \<in> set types \<and> (p, q) \<in> set ops \<and> k \<in> set ks}"
    unfolding cs_def by (force simp: image_iff)
  assume d: "distinct types" "distinct ops" "distinct ks"
  have "distinct (map (\<lambda>k. (a, n, p, q, k)) ks)" for a :: 'a and n :: 'b and p :: 'c and q :: 'd
    using d(3) by (simp add: distinct_map inj_on_def)
  then have "distinct (concat (map (\<lambda>(p, q). map (\<lambda>k. (a, n, p, q, k)) ks) ops))" for a :: 'a and n :: 'b
    using d(2) by (intro distinct_products) auto
  with d(1) show "distinct cs" unfolding cs_def by (intro distinct_products) auto
qed

lemma test_calls:
  assumes wf: "wf_args args" and d: "distinct (run_types tb ty typeName)" "distinct (run_ops tb red opName)"
  shows "set (test_calls t tb args rt ty typeName red opName) = wanted t tb args rt ty typeName red opName"
    and "distinct (test_calls t tb args rt ty typeName red opName)"
proof -
  have n: "0 < nranks_of args" using wf_nranks [OF wf] by simp
  have roots: "set (run_roots args rt) = {k. if rt = -1 then 0 \<le> k \<and> k < nranks_of args else k = rt}" "distinct (run_roots args rt)"
    by (auto simp: run_roots_def)
  show "set (test_calls t tb args rt ty typeName red opName) = wanted t tb args rt ty typeName red opName"
    unfolding test_calls_def product_calls wanted_def
    using and_pred_zero_iff [OF n] n by (auto simp: roots)
  show "distinct (test_calls t tb args rt ty typeName red opName)"
    unfolding test_calls_def using d roots(2) by (intro product_calls) simp_all
qed

text \<open>C31: with tables without duplicates, a test makes exactly the runs the command line asks for (every selected type,
  with every selected operation and root where the collective has one; none for the hypercube unless the number of
  ranks is a power of two), each once; at the first run that fails it stops and returns that failure.\<close>

theorem test_runs_all_wanted:
  assumes wf: "wf_args args" and d: "distinct (run_types tb ty typeName)" "distinct (run_ops tb red opName)"
  shows "\<exists>calls r. runTest t (\<lambda>c calls. (outcome c, calls @ [c])) tb args rt ty typeName red opName [] = (r, calls)
    \<and> distinct calls \<and> set calls \<subseteq> wanted t tb args rt ty typeName red opName
    \<and> (r = TestSuccess \<longrightarrow> set calls = wanted t tb args rt ty typeName red opName \<and> (\<forall>c\<in>set calls. outcome c = TestSuccess))
    \<and> (r \<noteq> TestSuccess \<longrightarrow> (\<exists>done c. calls = done @ [c] \<and> outcome c = r \<and> (\<forall>c'\<in>set done. outcome c' = TestSuccess)))"
proof -
  let ?cs = "test_calls t tb args rt ty typeName red opName"
  let ?run = "time_tests (\<lambda>c calls. (outcome c, calls @ [c])) ?cs []"
  note cs = test_calls [OF wf d, of t rt]
  from time_tests_log [of ?cs outcome "[]"] obtain k where k: "k \<le> length ?cs" "snd ?run = take k ?cs"
    "if \<forall>c\<in>set ?cs. outcome c = TestSuccess then k = length ?cs \<and> fst ?run = TestSuccess
     else 0 < k \<and> outcome (?cs ! (k - 1)) \<noteq> TestSuccess \<and> fst ?run = outcome (?cs ! (k - 1)) \<and> (\<forall>i<k - 1. outcome (?cs ! i) = TestSuccess)"
    by auto
  have run: "?run = (fst ?run, take k ?cs)" using k(2) by (simp add: prod_eq_iff)
  have sub: "distinct (take k ?cs)" "set (take k ?cs) \<subseteq> wanted t tb args rt ty typeName red opName"
    using cs set_take_subset [of k ?cs] by simp_all
  have fail: "\<exists>done c. take k ?cs = done @ [c] \<and> outcome c = fst ?run \<and> (\<forall>c'\<in>set done. outcome c' = TestSuccess)"
    if "fst ?run \<noteq> TestSuccess"
  proof -
    have f: "0 < k" "fst ?run = outcome (?cs ! (k - 1))" "\<forall>i<k - 1. outcome (?cs ! i) = TestSuccess"
      using k(3) that by (auto split: if_splits)
    then have "take k ?cs = take (k - 1) ?cs @ [?cs ! (k - 1)]"
      using k(1) take_Suc_conv_app_nth [of "k - 1" ?cs] by simp
    moreover have "\<forall>c'\<in>set (take (k - 1) ?cs). outcome c' = TestSuccess"
    proof
      fix c' assume "c' \<in> set (take (k - 1) ?cs)"
      then obtain i where i: "i < length (take (k - 1) ?cs)" "take (k - 1) ?cs ! i = c'" unfolding in_set_conv_nth by blast
      then have "i < k - 1" "?cs ! i = c'" by simp_all
      with f(3) show "outcome c' = TestSuccess" by blast
    qed
    ultimately show ?thesis
      using f(2) by (intro exI [of _ "take (k - 1) ?cs"] exI [of _ "?cs ! (k - 1)"] conjI) simp_all
  qed
  have ok: "set (take k ?cs) = wanted t tb args rt ty typeName red opName \<and> (\<forall>c\<in>set (take k ?cs). outcome c = TestSuccess)"
    if "fst ?run = TestSuccess"
    using k(3) that cs(1) by (auto split: if_splits)
  show ?thesis
    unfolding runTest_calls using run sub fail ok by blast
qed

definition all_tables :: test_tables where
  "all_tables = \<lparr>tab_typenum = 12, tab_types = test_types, tab_typenames = test_typenames,
     tab_opnum = 6, tab_ops = test_ops, tab_opnames = test_opnames, tab_zero_op = NcclSum\<rparr>"

theorem test_runs_all_wanted_witness:
  "\<exists>calls. runTest ReduceTest (\<lambda>c calls. (if snd (snd (snd (snd c))) = 2 then TestTimeout else TestSuccess, calls @ [c])) all_tables example_args
      (-1) None '''' (Some NcclMax) ''max'' [] = (TestTimeout, calls)
    \<and> (\<exists>done c. calls = done @ [c] \<and> snd (snd (snd (snd c))) = 2)"
proof -
  have d: "distinct (run_types all_tables None '''')" "distinct (run_ops all_tables (Some NcclMax) ''max'')"
    by (simp_all add: run_types_def run_ops_def all_tables_def test_types_def upt_rec)
  have w: "(NcclInt8, ''int8'', NcclMax, ''max'', 2) \<in> wanted ReduceTest all_tables example_args (-1) None '''' (Some NcclMax) ''max''"
    by (simp add: wanted_def uses_op_def uses_root_def run_types_def run_ops_def all_tables_def upt_rec test_types_def test_typenames_def nranks_of_def example_args_def)
  from test_runs_all_wanted [OF example_args_wf(1) d, of ReduceTest "\<lambda>c. if snd (snd (snd (snd c))) = 2 then TestTimeout else TestSuccess" "-1"]
  obtain calls r where run: "runTest ReduceTest (\<lambda>c calls. (if snd (snd (snd (snd c))) = 2 then TestTimeout else TestSuccess, calls @ [c])) all_tables example_args
      (-1) None '''' (Some NcclMax) ''max'' [] = (r, calls)"
    and ok: "r = TestSuccess \<longrightarrow> set calls = wanted ReduceTest all_tables example_args (-1) None '''' (Some NcclMax) ''max''
      \<and> (\<forall>c\<in>set calls. (if snd (snd (snd (snd c))) = 2 then TestTimeout else TestSuccess) = TestSuccess)"
    and fail: "r \<noteq> TestSuccess \<longrightarrow> (\<exists>done c. calls = done @ [c] \<and> (if snd (snd (snd (snd c))) = 2 then TestTimeout else TestSuccess) = r)"
    by blast
  have "r \<noteq> TestSuccess" using ok w by force
  with fail run show ?thesis by (auto split: if_splits)
qed

end
