(* ===== verification/HostRmaRun.thy ===== *)
theory HostRmaRun
  imports HostRma HostInit
begin

unbundle bit_operations_syntax

text \<open>
  The one-sided collectives as the harness runs them (option \<open>-H\<close>): the puts and waits of every rank
  of a job, with the offsets \<open>startColl\<close> gives them. Two properties: the signals of every pair of
  ranks match, and the puts of all ranks leave in the receive buffers the result of the collective
  that \<open>CheckData\<close> expects.
\<close>

section \<open>The ranks of a job\<close>

text \<open>The arguments of the thread that runs rank \<open>r\<close>, whose device is \<open>r mod nGpus\<close>.\<close>

definition rank_args :: "threadArgs \<Rightarrow> int \<Rightarrow> threadArgs" where
  "rank_args args r = args\<lparr>proc := r div (nThreads args * nGpus args), thread := r div nGpus args mod nThreads args\<rparr>"

lemma rank_args_fields [simp]:
  "nranks_of (rank_args args r) = nranks_of args" "nGpus (rank_args args r) = nGpus args"
  "maxbytes (rank_args args r) = maxbytes args"
  by (simp_all add: rank_args_def nranks_of_def)

lemma rank_args:
  assumes "wf_args args" and r: "r \<in> {0..<nranks_of args}"
  shows "rank_of (rank_args args r) (r mod nGpus args) = r" and "wf_args (rank_args args r)"
    and "0 \<le> r mod nGpus args" "r mod nGpus args < nGpus args"
proof -
  let ?t = "nThreads args" and ?g = "nGpus args"
  have pos: "0 < ?t" "0 < ?g" using assms(1) by (simp_all add: wf_args_def)
  have "r div (?t * ?g) * ?t + r div ?g mod ?t = r div ?g"
    using div_mult_mod_eq [of "r div ?g" ?t] pos by (simp add: mult.commute [of ?t] zdiv_zmult2_eq)
  then show "rank_of (rank_args args r) (r mod ?g) = r"
    by (simp add: rank_of_def rank_args_def)
  have "r div (?t * ?g) < nProcs args"
  proof (rule ccontr)
    assume "\<not> r div (?t * ?g) < nProcs args"
    then have "nProcs args * (?t * ?g) \<le> r div (?t * ?g) * (?t * ?g)" using pos by (intro mult_right_mono) simp_all
    also have "\<dots> \<le> r" using pos by (simp add: minus_mod_eq_div_mult [symmetric])
    finally show False using r by (simp add: nranks_of_def mult.assoc)
  qed
  moreover have "0 \<le> r div (?t * ?g)" using r pos by (simp add: pos_imp_zdiv_nonneg_iff)
  ultimately show "wf_args (rank_args args r)"
    using assms(1) pos by (simp add: wf_args_def rank_args_def nranks_of_def)
  show "0 \<le> r mod ?g" "r mod ?g < ?g" using pos by simp_all
qed

section \<open>A one-sided run\<close>

definition rma_call :: "options \<Rightarrow> testColl \<Rightarrow> threadArgs \<Rightarrow> u64 \<Rightarrow> elt_type \<Rightarrow> bool \<Rightarrow> int \<Rightarrow> int \<Rightarrow> coll_call option" where
  "rma_call o' t args bytes ty in_place iter r =
     start_call o' (setupArgs (getCollByteCount t) bytes ty (rank_args args r)) (time_test_misalign o' ty) ty in_place iter (r mod nGpus args)"

definition rma_rank :: "options \<Rightarrow> testColl \<Rightarrow> threadArgs \<Rightarrow> u64 \<Rightarrow> elt_type \<Rightarrow> bool \<Rightarrow> int \<Rightarrow> int \<Rightarrow> int \<Rightarrow> (put list \<times> wait_desc list) option" where
  "rma_rank o' t args bytes ty in_place iter rt r =
     Option.bind (rma_call o' t args bytes ty in_place iter r)
       (\<lambda>c. map_option (\<lambda>f. f (opt_rmaCtxCount o') (nranks_of args) (call_in_recv c) (call_sendoffset c) (call_recvoffset c)
           (call_count c) (wordSize ty) rt r) (rmaPut t))"

text \<open>Where the buffers of all ranks start, and what every rank passes.\<close>

definition rma_ready :: "options \<Rightarrow> threadArgs \<Rightarrow> u64 \<Rightarrow> bool" where
  "rma_ready o' args bytes \<longleftrightarrow> wf_args args \<and> bytes \<le> maxbytes args \<and> opt_hostRmaImpl o' \<and> 0 < opt_rmaCtxCount o' \<and> opt_rmaCtxCount o' < 2 ^ 31 \<and> 0 \<le> opt_unalign o'
     \<and> int (unat (maxbytes args)) + 8 * opt_unalign o' < 2 ^ 64"

lemma setup_rank_counts:
  fixes t ty args b r
  defines "a \<equiv> setupArgs (getCollByteCount t) b ty (rank_args args r)" and "c \<equiv> run_counts t b ty args"
  shows "sendInplaceOffset a = sendInplace c * wordSize ty" "recvInplaceOffset a = recvInplace c * wordSize ty"
    "nbytes a div wordSize ty = paramcount c" "sendBytes a = sendcount c * wordSize ty"
    "expectedBytes a = recvcount c * wordSize ty" "maxbytes a = maxbytes args"
proof -
  show "sendInplaceOffset a = sendInplace c * wordSize ty" "recvInplaceOffset a = recvInplace c * wordSize ty"
    "sendBytes a = sendcount c * wordSize ty" "expectedBytes a = recvcount c * wordSize ty" "maxbytes a = maxbytes args"
    by (simp_all add: a_def c_def setupArgs_def Let_def)
  have "unat (nbytes a) = unat (paramcount c) * unat (wordSize ty)"
    using setupArgs_bytes(5) [of t b ty "rank_args args r", folded a_def] by (simp only: c_def rank_args_fields)
  then show "nbytes a div wordSize ty = paramcount c"
    by (simp only: word_unat_eq_iff unat_div) simp
qed

lemma unalign_bytes:
  assumes "0 \<le> opt_unalign o'" "int (unat (m :: u64)) + 8 * opt_unalign o' < 2 ^ 64"
  shows "unat (u64_of_int (opt_unalign o') * wordSize ty) \<le> 8 * nat (opt_unalign o')"
    and "unat m + 8 * nat (opt_unalign o') < 2 ^ 64"
proof -
  show room: "unat m + 8 * nat (opt_unalign o') < 2 ^ 64" by (rule nat_room [OF assms(2,1)])
  have "0 \<le> int (unat m)" by (rule of_nat_0_le_iff)
  then have "opt_unalign o' < 2 ^ 64" using assms by linarith
  then have "opt_unalign o' < 2 ^ LENGTH(64)" by simp
  then have n: "unat (u64_of_int (opt_unalign o')) = nat (opt_unalign o')" using assms(1) by (intro unat_word_of_int_small)
  have "unat (wordSize ty) \<le> 8" by (cases ty) simp_all
  then have le: "nat (opt_unalign o') * unat (wordSize ty) \<le> 8 * nat (opt_unalign o')" by simp
  have "unat (u64_of_int (opt_unalign o') * wordSize ty) = nat (opt_unalign o') * unat (wordSize ty)"
    by (subst unat_mult_small) (simp_all only: n, rule order_le_less_trans [OF le], use room in simp)
  with le show "unat (u64_of_int (opt_unalign o') * wordSize ty) \<le> 8 * nat (opt_unalign o')" by simp
qed

lemma rma_call_offsets:
  fixes t ty args b o' ip iter
  defines "c \<equiv> run_counts t b ty args"
  defines "off \<equiv> \<lambda>x r. (if ip then x * wordSize ty * u64_of_int r else 0)"
  assumes ready: "rma_ready o' args b"
  shows "\<exists>base. unat base + unat (max (sendcount c * wordSize ty) (recvcount c * wordSize ty)) < 2 ^ 64 \<and>
    (\<forall>r\<in>{0..<nranks_of args}. rma_call o' t args b ty ip iter r
      = Some \<lparr>call_in_recv = ip, call_send = 0, call_sendoffset = base + off (sendInplace c) r, call_recv = 0,
          call_recvoffset = base + off (recvInplace c) r, call_count = paramcount c, call_impl = HOST_RMA_IMPL\<rparr>)"
proof -
  let ?a = "\<lambda>r. setupArgs (getCollByteCount t) b ty (rank_args args r)"
  let ?m = "max (sendcount c * wordSize ty) (recvcount c * wordSize ty)" and ?u = "u64_of_int (opt_unalign o') * wordSize ty"
  note cs = setup_rank_counts [of t b ty args, folded c_def]
  have shift: "coll_shift (?a r) iter = coll_shift (?a 0) iter" for r by (simp add: coll_shift_def Let_def cs)
  have "max (sendBytes (?a 0)) (expectedBytes (?a 0)) \<le> maxbytes (?a 0)"
    using setupArgs_bytes(2,4) [of t b ty "rank_args args 0"] ready by (simp add: rma_ready_def word_le_nat_alt max_def)
  from coll_shift_room [OF this, of iter] obtain sh where sh: "coll_shift (?a 0) iter = Some sh"
    and room: "unat sh + unat ?m \<le> unat (maxbytes args)"
    by (auto simp: cs)
  have u: "unat ?u \<le> 8 * nat (opt_unalign o')" "unat (maxbytes args) + 8 * nat (opt_unalign o') < 2 ^ 64"
    using ready unalign_bytes(1) [of o' "maxbytes args" ty] unalign_bytes(2) [of o' "maxbytes args"] by (simp_all add: rma_ready_def)
  have b: "unat (sh + ?u) = unat sh + unat ?u" using room u by (intro unat_add_small) simp
  have fits: "unat (sh + ?u) + unat ?m < 2 ^ 64" using b room u by linarith
  have "rma_call o' t args b ty ip iter r
      = Some \<lparr>call_in_recv = ip, call_send = 0, call_sendoffset = (sh + ?u) + off (sendInplace c) r, call_recv = 0,
          call_recvoffset = (sh + ?u) + off (recvInplace c) r, call_count = paramcount c, call_impl = HOST_RMA_IMPL\<rparr>"
    if "r \<in> {0..<nranks_of args}" for r
    using ready that unfolding rma_call_def start_call_def shift [of r] sh Let_def cs off_def
    by (simp add: rma_ready_def rank_args(1) add.commute add.left_commute)
  with fits show ?thesis by blast
qed

text \<open>The calls of all ranks of a run with a one-sided implementation.\<close>

lemma rma_ranks:
  fixes t ty args b o' ip
  defines "c \<equiv> run_counts t b ty args"
  defines "off \<equiv> \<lambda>x r. (if ip then x * wordSize ty * u64_of_int r else 0)"
  assumes "rma_ready o' args b" and "rmaPut t = Some f"
  shows "\<exists>base. unat base + unat (max (sendcount c * wordSize ty) (recvcount c * wordSize ty)) < 2 ^ 64 \<and>
    (\<forall>r\<in>{0..<nranks_of args}. map_option call_sendoffset (rma_call o' t args b ty ip iter r) = Some (base + off (sendInplace c) r) \<and>
     map_option call_recvoffset (rma_call o' t args b ty ip iter r) = Some (base + off (recvInplace c) r) \<and>
     rma_rank o' t args b ty ip iter rt r = Some (f (opt_rmaCtxCount o') (nranks_of args) ip
       (base + off (sendInplace c) r) (base + off (recvInplace c) r) (paramcount c) (wordSize ty) rt r))"
  using rma_call_offsets [OF assms(3), where t = t and ty = ty and ip = ip and iter = iter] assms(4)
  by (auto simp: rma_rank_def c_def off_def)

section \<open>Every signal is waited for\<close>

text \<open>C28: between any two ranks of any collective with a one-sided implementation, at every size, type, root, number of
  contexts and iteration, in place or not: for every signal and every context, the sender raises at the
  receiver exactly as many signals as the receiver waits for from the sender; so no wait is left
  without its signal, and no signal is left over for the next iteration.\<close>

theorem rma_signals_match:
  assumes "rma_ready o' args bytes" and "rmaPut t \<noteq> None"
    and "s \<in> {0..<nranks_of args}" and "r \<in> {0..<nranks_of args}"
  shows "\<exists>ps ws ps' ws'. rma_rank o' t args bytes ty in_place iter rt s = Some (ps, ws)
    \<and> rma_rank o' t args bytes ty in_place iter rt r = Some (ps', ws')
    \<and> signals_sent ps r sg ctx = signals_awaited ws' s sg ctx"
proof -
  obtain f where f: "rmaPut t = Some f" using assms(2) by blast
  let ?c = "run_counts t bytes ty args" and ?n = "nranks_of args"
  define off where "off x r = (if in_place then x * wordSize ty * u64_of_int r else 0)" for x r
  from rma_ranks [OF assms(1) f, where ty = ty and ip = in_place and iter = iter and rt = rt, folded off_def] obtain base where
    run: "\<And>r. r \<in> {0..<?n} \<Longrightarrow> rma_rank o' t args bytes ty in_place iter rt r = Some (f (opt_rmaCtxCount o') ?n in_place
       (base + off (sendInplace ?c) r) (base + off (recvInplace ?c) r) (paramcount ?c) (wordSize ty) rt r)"
    by blast
  have "signals_match s r
      (f (opt_rmaCtxCount o') ?n in_place (base + off (sendInplace ?c) s) (base + off (recvInplace ?c) s) (paramcount ?c) (wordSize ty) rt s)
      (f (opt_rmaCtxCount o') ?n in_place (base + off (sendInplace ?c) r) (base + off (recvInplace ?c) r) (paramcount ?c) (wordSize ty) rt r)"
  proof (cases t)
    case AllGatherTest
    then have "(in_place \<and> base + off (sendInplace ?c) x = base + off (recvInplace ?c) x + u64_of_int x * (paramcount ?c * wordSize ty)) = in_place" for x
      by (simp add: off_def AllGatherGetCollByteCount_def Let_def ac_simps)
    with f AllGatherTest AllGather_signals [OF assms(3,4), where so = "\<lambda>r. base + off (sendInplace ?c) r" and ro = "\<lambda>r. base + off (recvInplace ?c) r"]
    show ?thesis by simp
  next
    case ScatterTest
    then have "(in_place \<and> base + off (recvInplace ?c) x = base + off (sendInplace ?c) x + u64_of_int x * (paramcount ?c * wordSize ty)) = in_place" for x
      by (simp add: off_def ScatterGetCollByteCount_def Let_def ac_simps)
    with f ScatterTest Scatter_signals [OF assms(3,4), where so = "\<lambda>r. base + off (sendInplace ?c) r" and ro = "\<lambda>r. base + off (recvInplace ?c) r"]
    show ?thesis by simp
  qed (use f Broadcast_signals [OF assms(3,4)] Gather_signals [OF assms(3,4)] SendRecv_signals [OF assms(3,4)]
      AlltoAll_signals [OF assms(3,4)] in \<open>auto\<close>)
  with run [OF assms(3)] run [OF assms(4)] show ?thesis
    unfolding signals_match_def by (metis prod.collapse)
qed

theorem rma_signals_match_witness:
  "\<exists>ps ws ps' ws'. rma_rank (default_options\<lparr>opt_hostRmaImpl := True\<rparr>) AllGatherTest example_args 4096 NcclFloat32 True 3 0 2 = Some (ps, ws)
    \<and> rma_rank (default_options\<lparr>opt_hostRmaImpl := True\<rparr>) AllGatherTest example_args 4096 NcclFloat32 True 3 0 1 = Some (ps', ws')
    \<and> signals_sent ps 1 2 0 = signals_awaited ws' 2 2 0"
proof -
  have "rma_ready (default_options\<lparr>opt_hostRmaImpl := True\<rparr>) example_args 4096" "rmaPut AllGatherTest \<noteq> None"
    "2 \<in> {0..<nranks_of example_args}" "1 \<in> {0..<nranks_of example_args}"
    by (simp_all add: rma_ready_def default_options_def) (simp_all add: example_args_def nranks_of_def)
  from rma_signals_match [OF this] show ?thesis by blast
qed

section \<open>Every element arrives\<close>

text \<open>
  The memory of all ranks, by rank, buffer (\<^const>\<open>True\<close> for the receive window) and address of an
  element. A put copies its elements one by one.
\<close>

type_synonym cell = "int \<times> bool \<times> nat"

definition put_copies :: "nat \<Rightarrow> bool \<Rightarrow> int \<Rightarrow> put \<Rightarrow> (cell \<times> cell) list" where
  "put_copies ws in_recv r p =
     map (\<lambda>k. ((put_target p, True, unat (put_dst p) + ws * k), (r, in_recv, unat (put_src p) + ws * k))) [0..<unat (put_count p)]"

definition rank_copies :: "options \<Rightarrow> testColl \<Rightarrow> threadArgs \<Rightarrow> u64 \<Rightarrow> elt_type \<Rightarrow> bool \<Rightarrow> int \<Rightarrow> int \<Rightarrow> int \<Rightarrow> (cell \<times> cell) list" where
  "rank_copies o' t args bytes ty in_place iter rt r =
     concat (map (put_copies (unat (wordSize ty)) in_place r) (fst (the (rma_rank o' t args bytes ty in_place iter rt r))))"

text \<open>
  Copies described by who sends to whom (\<open>T\<close>) and by the blocks that are read (\<open>sm\<close>) and written (\<open>dm\<close>),
  all blocks of \<open>c\<close> elements.
\<close>

lemma block_inj: "k < c \<Longrightarrow> k' < c \<Longrightarrow> m * c + k = m' * c + k' \<Longrightarrow> m = m' \<and> k = (k' :: nat)"
  by (metis div_mult_self3 div_less add.right_neutral add_left_cancel mult.commute not_less_zero)

lemma copies_placed:
  fixes dm sm :: "int \<Rightarrow> int \<Rightarrow> int"
  assumes ps: "set ps = {((t, True, E (nat (dm j t) * c + k)), (j, ip, E (nat (sm j t) * c + k))) | j t k. T j t \<and> k < c}"
    and E: "inj E"
    and fn: "\<And>j j' t. T j t \<Longrightarrow> T j' t \<Longrightarrow> nat (dm j t) = nat (dm j' t) \<Longrightarrow> j = j'"
    and keep: "\<And>j j' t. ip \<Longrightarrow> T j t \<Longrightarrow> T j' j \<Longrightarrow> nat (dm j' j) = nat (sm j t) \<Longrightarrow> T j j \<and> nat (dm j j) = nat (sm j t) \<and> nat (sm j j) = nat (sm j t)"
  shows "T j t \<Longrightarrow> k < c \<Longrightarrow> run_copies ps mem (t, True, E (nat (dm j t) * c + k)) = mem (j, ip, E (nat (sm j t) * c + k))"
    and "(\<And>j. T j t \<Longrightarrow> nat (dm j t) \<noteq> m) \<Longrightarrow> k < c \<Longrightarrow> run_copies ps mem (t, True, E (m * c + k)) = mem (t, True, E (m * c + k))"
    and "(\<And>j. \<not> T j t) \<Longrightarrow> run_copies ps mem (t, True, a) = mem (t, True, a)"
proof -
  have inj: "E i = E i' \<longleftrightarrow> i = i'" for i i' using E by (auto dest: injD)
  have blk: "m * c + k = m' * c + k' \<longleftrightarrow> m = m' \<and> k = k'" if "k < c" "k' < c" for m m' k k'
    using block_inj [OF that] by blast
  have one: "s = s'" if "(d, s) \<in> set ps" "(d, s') \<in> set ps" for d s s'
    using that unfolding ps by (clarsimp simp: inj) (metis blk fn)
  have twice: "(s, s) \<in> set ps" if "(d, s) \<in> set ps" "s \<in> fst ` set ps" for d s
  proof -
    from that(1) obtain j t k where s: "s = (j, ip, E (nat (sm j t) * c + k))" "T j t" "k < c" unfolding ps by blast
    from that(2) obtain j' t' k' where "s = (t', True, E (nat (dm j' t') * c + k'))" "T j' t'" "k' < c" unfolding ps by force
    with s have j': "ip" "T j' j" "nat (dm j' j) = nat (sm j t)" using blk inj by auto
    from keep [OF j'(1) s(2) j'(2,3)] s j'(1) show ?thesis unfolding ps by fastforce
  qed
  note run = run_copies_apply [of ps, OF one twice]
  show "T j t \<Longrightarrow> k < c \<Longrightarrow> run_copies ps mem (t, True, E (nat (dm j t) * c + k)) = mem (j, ip, E (nat (sm j t) * c + k))"
    by (rule run [THEN conjunct1, rule_format]) (auto simp: ps)
  show "run_copies ps mem (t, True, E (m * c + k)) = mem (t, True, E (m * c + k))" if "\<And>j. T j t \<Longrightarrow> nat (dm j t) \<noteq> m" "k < c"
  proof (rule run [THEN conjunct2, rule_format])
    show "(t, True, E (m * c + k)) \<notin> fst ` set ps" using that unfolding ps by (clarsimp simp: inj) (metis blk)
  qed
  show "run_copies ps mem (t, True, a) = mem (t, True, a)" if "\<And>j. \<not> T j t"
    by (rule run [THEN conjunct2, rule_format]) (use that in \<open>auto simp: ps\<close>)
qed

text \<open>The chunks of a message, one for each context, cover it.\<close>

lemma uint_add_fits: "uint x + uint y < 2 ^ 64 \<Longrightarrow> uint (x + y :: u64) = uint x + uint y"
  by (simp add: uint_word_ariths)

lemma uint_mult_fits: "uint x * uint y < 2 ^ 64 \<Longrightarrow> uint (x * y :: u64) = uint x * uint y"
  by (simp add: uint_word_ariths)

lemma sendrecv_chunk_next:
  assumes "0 \<le> c" "c < nctx" "nctx < 2 ^ 31"
  shows "block_start (uint cnt) nctx (c + 1) = block_start (uint cnt) nctx c + uint (sendrecv_chunk nctx cnt c)"
proof -
  have g: "uint (u64_of_int nctx) = nctx" "uint (u64_of_int c) = c" using assms by (simp_all add: uint_word_of_int)
  have lt: "u64_of_int c < cnt mod u64_of_int nctx \<longleftrightarrow> c < uint cnt mod nctx"
    by (simp only: word_less_def uint_mod g)
  have "0 \<le> uint cnt div nctx" using assms by (simp add: pos_imp_zdiv_nonneg_iff)
  have le: "uint cnt div nctx + (if c < uint cnt mod nctx then 1 else 0) \<le> uint cnt div nctx * nctx + uint cnt mod nctx"
  proof -
    have "uint cnt div nctx \<le> uint cnt div nctx * nctx"
      using \<open>0 \<le> uint cnt div nctx\<close> assms mult_left_mono [of 1 nctx "uint cnt div nctx"] by simp
    moreover have "0 \<le> uint cnt mod nctx" using assms by simp
    ultimately show ?thesis using assms(1) by (cases "c < uint cnt mod nctx"; simp only: if_True if_False; linarith)
  qed
  have d: "uint (cnt div u64_of_int nctx) = uint cnt div nctx" by (simp only: uint_div g)
  have "uint (sendrecv_chunk nctx cnt c) = uint cnt div nctx + (if c < uint cnt mod nctx then 1 else 0)"
    unfolding sendrecv_chunk_def lt using le \<open>0 \<le> uint cnt div nctx\<close> uint_bounded [of cnt] d by (subst uint_add_fits) (auto split: if_splits)
  then show ?thesis using block_start_step [of "uint cnt" nctx c] assms by simp
qed

lemma put_copies_range:
  "set (put_copies ws ir j \<lparr>put_target = t, put_src = a, put_count = n, put_dst = b, put_sig = sg, put_ctx = ctx\<rparr>)
    = {((t, True, unat b + ws * k), (j, ir, unat a + ws * k)) | k. k < unat n}"
  by (auto simp: put_copies_def)

lemma byte_off:
  fixes x off e :: u64
  assumes "uint x + uint off * uint e < 2 ^ 64"
  shows "unat (x + off * e) = unat x + unat e * unat off"
proof -
  have b: "0 \<le> uint x" by simp
  then have m: "uint (off * e) = uint off * uint e" using assms by (intro uint_mult_fits) linarith
  have "uint (x + off * e) = uint x + uint off * uint e" using assms m by (subst uint_add_fits) simp_all
  then have "int (unat (x + off * e)) = int (unat x + unat e * unat off)" by (simp only: uint_nat of_nat_add of_nat_mult mult.commute)
  then show ?thesis by (simp only: of_nat_eq_iff)
qed

lemma split_range: "{f k | k. k < m} = {f k | k. k < (n::nat)} \<union> {f (n + k) | k. k < m - n}" if "n \<le> m"
proof -
  have "k < n \<or> (\<exists>k'. k = n + k' \<and> k' < m - n)" if "k < m" for k
    using that \<open>n \<le> m\<close> by (cases "k < n") (auto intro: exI [of _ "k - n"])
  with that show ?thesis by (auto; fastforce)
qed

lemma sendrecv_copies:
  assumes "0 \<le> c" "c \<le> nctx" "0 < nctx" "nctx < 2 ^ 31"
    and "uint off = block_start (uint cnt) nctx c"
    and so: "uint so + uint cnt * uint e < 2 ^ 64" and ro: "uint ro + uint cnt * uint e < 2 ^ 64"
  shows "set (concat (map (put_copies (unat e) ip j) (sendrecv_puts nctx t so ro cnt e off [c..nctx - 1]))) =
    {((t, True, unat ro + unat e * (unat off + k)), (j, ip, unat so + unat e * (unat off + k))) | k. k < unat cnt - unat off}"
  using assms(1,2,5)
proof (induction "nat (nctx - c)" arbitrary: c off)
  case 0
  then have "uint off = uint cnt" using block_start_ends [of "uint cnt" nctx] assms(3) by simp
  then have "off = cnt" by (simp add: word_uint_eq_iff)
  with 0 show ?case by simp
next
  case (Suc n)
  let ?ch = "sendrecv_chunk nctx cnt c"
  have c: "c < nctx" "n = nat (nctx - (c + 1))" "0 \<le> c + 1" "c + 1 \<le> nctx" using Suc.hyps(2) Suc.prems by simp_all
  have next_start: "block_start (uint cnt) nctx (c + 1) = uint off + uint ?ch"
    using sendrecv_chunk_next [OF Suc.prems(1) c(1) assms(4), of cnt] Suc.prems(3) by simp
  have "block_start (uint cnt) nctx (c + 1) \<le> block_start (uint cnt) nctx nctx"
    by (rule block_start_mono) (use c assms(3) in simp_all)
  then have le: "uint off + uint ?ch \<le> uint cnt"
    using next_start block_start_ends [of "uint cnt" nctx] assms(3) by simp
  then have plus: "uint (off + ?ch) = uint off + uint ?ch" using uint_bounded [of cnt] by (intro uint_add_fits) simp
  have IH: "set (concat (map (put_copies (unat e) ip j) (sendrecv_puts nctx t so ro cnt e (off + ?ch) [c + 1..nctx - 1]))) =
      {((t, True, unat ro + unat e * (unat (off + ?ch) + k)), (j, ip, unat so + unat e * (unat (off + ?ch) + k))) | k. k < unat cnt - unat (off + ?ch)}"
    by (rule Suc.hyps(1) [OF c(2,3,4)]) (simp only: plus next_start)
  have "0 \<le> uint ?ch" by simp
  then have "uint off \<le> uint cnt" using le by linarith
  then have "uint off * uint e \<le> uint cnt * uint e" by (intro mult_right_mono) simp_all
  then have b: "unat (so + off * e) = unat so + unat e * unat off" "unat (ro + off * e) = unat ro + unat e * unat off"
    using so ro by (intro byte_off; linarith)+
  have up: "[c..nctx - 1] = c # [c + 1..nctx - 1]" using c(1) by (subst upto_rec1) simp_all
  have un: "unat (off + ?ch) = unat off + unat ?ch" using plus by (simp only: uint_nat of_nat_add [symmetric] of_nat_eq_iff)
  show ?case
  proof (cases "?ch = 0")
    case True
    with IH show ?thesis unfolding up by simp
  next
    case False
    have ch: "unat ?ch \<le> unat cnt - unat off" using le by (simp only: uint_nat)
    let ?f = "\<lambda>k. ((t, True, unat ro + unat e * (unat off + k)), (j, ip, unat so + unat e * (unat off + k)))"
    have "set (concat (map (put_copies (unat e) ip j) (sendrecv_puts nctx t so ro cnt e off [c..nctx - 1]))) =
        {?f k | k. k < unat ?ch} \<union> {?f (unat ?ch + k) | k. k < unat cnt - unat off - unat ?ch}"
      using False IH unfolding up by (simp add: Let_def put_copies_range b un distrib_left add.assoc)
    also have "\<dots> = {?f k | k. k < unat cnt - unat off}"
      by (rule split_range [where f = ?f, OF ch, symmetric])
    finally show ?thesis .
  qed
qed

text \<open>
  The puts of one rank by blocks: block \<open>m\<close> is at \<open>base + m * bytes\<close>. \<open>T\<close>, \<open>dm\<close> and \<open>sm\<close> are the targets
  of rank \<open>j\<close> and the blocks written and read.
\<close>

definition put_shape :: "u64 \<Rightarrow> u64 \<Rightarrow> u64 \<Rightarrow> put list \<Rightarrow> (int \<Rightarrow> bool) \<Rightarrow> (int \<Rightarrow> int) \<Rightarrow> (int \<Rightarrow> int) \<Rightarrow> bool" where
  "put_shape base cnt e puts T dm sm \<longleftrightarrow>
     (\<lambda>p. (put_target p, put_src p, put_dst p, put_count p)) ` set puts =
     {(t, base + u64_of_int (sm t) * (cnt * e), base + u64_of_int (dm t) * (cnt * e), cnt) | t. T t}"

lemma shape_copies:
  assumes shape: "put_shape base cnt e puts T dm sm"
    and addr: "\<And>t. T t \<Longrightarrow> unat (base + u64_of_int (sm t) * (cnt * e)) = unat base + unat e * (nat (sm t) * unat cnt)"
      "\<And>t. T t \<Longrightarrow> unat (base + u64_of_int (dm t) * (cnt * e)) = unat base + unat e * (nat (dm t) * unat cnt)"
  shows "set (concat (map (put_copies (unat e) ip j) puts)) =
    {((t, True, unat base + unat e * (nat (dm t) * unat cnt + k)), (j, ip, unat base + unat e * (nat (sm t) * unat cnt + k))) | t k. T t \<and> k < unat cnt}"
proof -
  let ?q = "\<lambda>p. (put_target p, put_src p, put_dst p, put_count p)"
  let ?g = "\<lambda>(t, s, d, n). {((t, True, unat d + unat e * k), (j, ip, unat s + unat e * k)) | k. k < unat n}"
  have "set (put_copies (unat e) ip j p) = ?g (?q p)" for p by (auto simp: put_copies_def)
  then have "set (concat (map (put_copies (unat e) ip j) puts)) = (\<Union>x\<in>?q ` set puts. ?g x)" by simp
  also have "\<dots> = {((t, True, unat base + unat e * (nat (dm t) * unat cnt + k)), (j, ip, unat base + unat e * (nat (sm t) * unat cnt + k))) | t k. T t \<and> k < unat cnt}"
    unfolding shape [unfolded put_shape_def] by (force simp: addr distrib_left add.assoc)
  finally show ?thesis .
qed

lemma rotate_set: "j \<in> {0..<n} \<Longrightarrow> (\<lambda>p. (j + p) smod n) ` set [0..n - 1] = {0..<n}"
proof -
  assume j: "j \<in> {0..<n}"
  have "\<exists>p\<in>{0..n - 1}. r = (j + p) mod n" if "r \<in> {0..<n}" for r
    using that j by (intro bexI [of _ "(r - j) mod n"]) (simp_all add: mod_add_right_eq)
  then show "(\<lambda>p. (j + p) smod n) ` set [0..n - 1] = {0..<n}"
    using j by (auto simp: image_iff)
qed

lemma AllGather_shape:
  assumes "j \<in> {0..<n}" and "(ir \<and> so = ro + u64_of_int j * (cnt * e)) = ip"
    and "so = base + u64_of_int (if ip then j else 0) * (cnt * e)" "ro = base"
  shows "put_shape base cnt e (fst (AllGatherRmaPut nctx n ir so ro cnt e rt j))
    (\<lambda>t. t \<in> {0..<n} \<and> \<not> (ip \<and> t = j)) (\<lambda>_. j) (\<lambda>_. if ip then j else 0)"
proof -
  have "set (filter (\<lambda>t. \<not> (ip \<and> t = j)) (map (\<lambda>peer. (j + peer) smod n) [0..n - 1])) = {t. t \<in> {0..<n} \<and> \<not> (ip \<and> t = j)}"
    using rotate_set [OF assms(1)] by auto
  then show ?thesis
    unfolding put_shape_def AllGatherRmaPut_def Let_def fst_conv assms(2) set_map image_image put.simps
    unfolding assms(3,4) by auto
qed

lemma AlltoAll_shape:
  assumes "j \<in> {0..<n}"
  shows "put_shape base cnt e (fst (AlltoAllRmaPut nctx n ir base base cnt e rt j)) (\<lambda>t. t \<in> {0..<n}) (\<lambda>_. j) (\<lambda>t. t)"
  using rotate_set [OF assms]
  unfolding put_shape_def AlltoAllRmaPut_def Let_def fst_conv set_map image_image put.simps by auto

lemma Broadcast_shape:
  "put_shape base cnt e (fst (BroadcastRmaPut nctx n ir base base cnt e rt j)) (\<lambda>t. t \<in> {0..<n} \<and> j = rt) (\<lambda>_. 0) (\<lambda>_. 0)"
  unfolding put_shape_def BroadcastRmaPut_def Let_def fst_conv by (cases "j = rt") (auto simp: image_image)

lemma Gather_shape:
  assumes "so = base + u64_of_int (if ip then j else 0) * (cnt * e)"
  shows "put_shape base cnt e (fst (GatherRmaPut nctx n ir so base cnt e rt j)) (\<lambda>t. t = rt) (\<lambda>_. j) (\<lambda>_. if ip then j else 0)"
  unfolding put_shape_def GatherRmaPut_def Let_def fst_conv assms by auto

lemma Scatter_shape:
  assumes "(ir \<and> ro = so + u64_of_int j * (cnt * e)) = ip"
    and "ro = base + u64_of_int (if ip then j else 0) * (cnt * e)" "so = base"
  shows "put_shape base cnt e (fst (ScatterRmaPut nctx n ir so ro cnt e rt j))
    (\<lambda>t. t \<in> {0..<n} \<and> j = rt \<and> \<not> (t = j \<and> ip)) (\<lambda>t. if ip then t else 0) (\<lambda>t. t)"
proof -
  have dst: "(if ip then ro + u64_of_int (t - j) * (cnt * e) else ro) = base + u64_of_int (if ip then t else 0) * (cnt * e)" for t
  proof -
    have "u64_of_int j + u64_of_int (t - j) = u64_of_int t" by (simp only: wi_hom_add) simp
    then show ?thesis unfolding assms(2) by (cases ip) (simp_all add: add.assoc distrib_right [symmetric])
  qed
  have set: "set (filter (\<lambda>peer. \<not> (peer = j \<and> ip)) [0..n - 1]) = {t. t \<in> {0..<n} \<and> \<not> (t = j \<and> ip)}" by auto
  show ?thesis
  proof (cases "j = rt")
    case True
    then show ?thesis
      unfolding put_shape_def ScatterRmaPut_def Let_def fst_conv assms(1) dst unfolding assms(3) if_P [OF True] set_map set image_image put.simps
      by auto
  qed (simp add: put_shape_def ScatterRmaPut_def)
qed

text \<open>The address of a block, when the last one still fits.\<close>

lemma block_addr:
  assumes "m = 0 \<or> 0 \<le> m \<and> m < n \<and> n < 2 ^ 31 \<and> uint base + n * (uint cnt * uint e) < 2 ^ 64"
  shows "unat (base + u64_of_int m * (cnt * e)) = unat base + unat e * (nat m * unat cnt)"
proof (cases "m = 0")
  case False
  with assms have m: "0 < m" "m < n" "n < 2 ^ 31" "uint base + n * (uint cnt * uint e) < 2 ^ 64" by auto
  have ce: "0 \<le> uint cnt * uint e" by simp
  then have "1 * (uint cnt * uint e) \<le> n * (uint cnt * uint e)" "m * (uint cnt * uint e) \<le> n * (uint cnt * uint e)"
    using m by (intro mult_right_mono; simp)+
  moreover have "0 \<le> uint base" by simp
  ultimately have le: "uint cnt * uint e < 2 ^ 64" "m * (uint cnt * uint e) < 2 ^ 64" "uint base + m * (uint cnt * uint e) < 2 ^ 64"
    using m(4) by linarith+
  have um: "uint (u64_of_int m) = m" using m by (simp add: uint_word_of_int)
  have "uint (cnt * e) = uint cnt * uint e" by (rule uint_mult_fits [OF le(1)])
  then have "uint (u64_of_int m * (cnt * e)) = m * (uint cnt * uint e)" using le(2) um by (subst uint_mult_fits) simp_all
  then have "uint (base + u64_of_int m * (cnt * e)) = uint base + m * (uint cnt * uint e)" using le(3) by (subst uint_add_fits) simp_all
  then have "int (unat (base + u64_of_int m * (cnt * e))) = int (unat base + unat e * (nat m * unat cnt))"
    using m(1) by (simp only: uint_nat of_nat_add of_nat_mult int_nat_eq) simp
  then show ?thesis by (simp only: of_nat_eq_iff)
qed simp

text \<open>The targets and blocks of every collective, and the blocks at which the buffers of a rank start.\<close>

fun put_to :: "testColl \<Rightarrow> int \<Rightarrow> int \<Rightarrow> bool \<Rightarrow> int \<Rightarrow> int \<Rightarrow> bool" where
  "put_to AllGatherTest n rt ip j x \<longleftrightarrow> x \<in> {0..<n} \<and> \<not> (ip \<and> x = j)"
| "put_to AlltoAllTest n rt ip j x \<longleftrightarrow> x \<in> {0..<n}"
| "put_to BroadcastTest n rt ip j x \<longleftrightarrow> x \<in> {0..<n} \<and> j = rt"
| "put_to GatherTest n rt ip j x \<longleftrightarrow> x = rt"
| "put_to ScatterTest n rt ip j x \<longleftrightarrow> x \<in> {0..<n} \<and> j = rt \<and> \<not> (x = j \<and> ip)"
| "put_to _ n rt ip j x \<longleftrightarrow> x = (j + 1) smod n"

definition send_block :: "testColl \<Rightarrow> bool \<Rightarrow> int \<Rightarrow> int" where
  "send_block t ip j = (if t \<in> {AllGatherTest, GatherTest} \<and> ip then j else 0)"

definition recv_block :: "testColl \<Rightarrow> bool \<Rightarrow> int \<Rightarrow> int" where
  "recv_block t ip j = (if t = ScatterTest \<and> ip then j else 0)"

definition src_block :: "testColl \<Rightarrow> bool \<Rightarrow> int \<Rightarrow> int \<Rightarrow> int" where
  "src_block t ip j x = (if t \<in> {AlltoAllTest, ScatterTest} then x else send_block t ip j)"

definition dst_block :: "testColl \<Rightarrow> bool \<Rightarrow> int \<Rightarrow> int \<Rightarrow> int" where
  "dst_block t ip j x = (if t \<in> {AllGatherTest, GatherTest, AlltoAllTest} then j else recv_block t ip x)"

lemmas block_defs = send_block_def recv_block_def src_block_def dst_block_def

lemma rma_offsets:
  assumes "rmaPut t = Some f"
  shows "base + (if ip then sendInplace (run_counts t b ty args) * wordSize ty * u64_of_int j else 0)
      = base + u64_of_int (send_block t ip j) * (paramcount (run_counts t b ty args) * wordSize ty)"
    "base + (if ip then recvInplace (run_counts t b ty args) * wordSize ty * u64_of_int j else 0)
      = base + u64_of_int (recv_block t ip j) * (paramcount (run_counts t b ty args) * wordSize ty)"
  using assms by (cases t; simp add: count_defs Let_def block_defs ac_simps)+

text \<open>All blocks of a run lie behind the start of the buffers without wrap-around.\<close>

definition blocks_fit :: "testColl \<Rightarrow> int \<Rightarrow> u64 \<Rightarrow> u64 \<Rightarrow> u64 \<Rightarrow> bool" where
  "blocks_fit t n base cnt e \<longleftrightarrow>
     uint base + (if t \<in> {BroadcastTest, SendRecvTest} then 1 else n) * (uint cnt * uint e) < 2 ^ 64"

lemma rma_paramcount:
  assumes "rmaPut t = Some f" "t \<noteq> AlltoAllTest" "c = run_counts t b ty args"
  shows "paramcount c = (if t \<in> {AllGatherTest, GatherTest, BroadcastTest, SendRecvTest} then sendcount c else recvcount c)"
  using assms by (cases t) (simp_all add: count_defs Let_def)

lemma AlltoAll_recvcount:
  assumes "wf_args args" "c = run_counts AlltoAllTest b ty args"
  shows "uint (sendcount c) = nranks_of args * uint (paramcount c)" "uint (recvcount c) = nranks_of args * uint (paramcount c)"
proof -
  let ?n = "nranks_of args"
  have n: "int (unat (u64_of_int ?n)) = ?n" using nranks_word(1) [OF assms(1)] wf_nranks [OF assms(1)] by (simp del: of_nat_unat)
  have "int (unat (sendcount c)) = int (unat (paramcount c) * unat (u64_of_int ?n))" "int (unat (recvcount c)) = int (unat (paramcount c) * unat (u64_of_int ?n))"
    unfolding assms(2) getCollByteCount.simps AlltoAllGetCollByteCount_def Let_def coll_counts.simps
    by (simp_all only: base_count_times' [OF wordSize_width])
  then show "uint (sendcount c) = ?n * uint (paramcount c)" "uint (recvcount c) = ?n * uint (paramcount c)"
    by (simp_all only: of_nat_mult n uint_nat mult.commute)
qed

lemma rma_blocks_fit:
  assumes wf: "wf_args args" and f: "rmaPut t = Some f" and c: "c = run_counts t b ty args"
    and room: "unat base + unat (max (sendcount c * wordSize ty) (recvcount c * wordSize ty)) < 2 ^ 64"
  shows "blocks_fit t (nranks_of args) base (paramcount c) (wordSize ty)"
proof -
  let ?ws = "wordSize ty" and ?n = "nranks_of args"
  note a = setup_counts(1,3) [of t b ty args, folded c] and bb = setupArgs_bytes(1,3) [of t b ty args, folded c]
  have u: "uint (sendcount c * ?ws) = uint (sendcount c) * uint ?ws" "uint (recvcount c * ?ws) = uint (recvcount c) * uint ?ws"
    using bb unfolding a by (simp_all only: uint_nat of_nat_mult)
  have mx: "uint (sendcount c * ?ws) \<le> uint (max (sendcount c * ?ws) (recvcount c * ?ws))" "uint (recvcount c * ?ws) \<le> uint (max (sendcount c * ?ws) (recvcount c * ?ws))"
    by (simp_all add: max_def word_le_def)
  have "int (unat base + unat (max (sendcount c * ?ws) (recvcount c * ?ws))) < 2 ^ 64" using room by (simp only: of_nat_less_numeral_power_cancel_iff)
  then have lt: "uint base + uint (max (sendcount c * ?ws) (recvcount c * ?ws)) < 2 ^ 64" by (simp only: of_nat_add uint_nat)
  have rel: "counts_related t ?n (uint (sendcount c)) (uint (recvcount c))" unfolding c by (rule run_counts_related [OF wf])
  note pc = rma_paramcount [OF f _ c]
  have total: "(if t \<in> {BroadcastTest, SendRecvTest} then 1 else ?n) * uint (paramcount c) = uint (sendcount c)
      \<or> (if t \<in> {BroadcastTest, SendRecvTest} then 1 else ?n) * uint (paramcount c) = uint (recvcount c)"
  proof (cases "t = AlltoAllTest")
    case True
    with AlltoAll_recvcount [OF wf, of c b ty] c have "uint (recvcount c) = ?n * uint (paramcount c)" by simp
    with True show ?thesis by simp
  next
    case False
    with f rel pc [OF False] show ?thesis by (cases t) (simp_all add: counts_related_def)
  qed
  then have "(if t \<in> {BroadcastTest, SendRecvTest} then 1 else ?n) * (uint (paramcount c) * uint ?ws) \<le> uint (max (sendcount c * ?ws) (recvcount c * ?ws))"
    using mx unfolding u by (simp only: mult.assoc [symmetric]) fastforce
  with lt show ?thesis unfolding blocks_fit_def by linarith
qed

lemma rma_shape:
  assumes f: "rmaPut t = Some f" "t \<noteq> SendRecvTest" and j: "j \<in> {0..<n}" and ip: "t = AlltoAllTest \<Longrightarrow> \<not> ip"
  shows "put_shape base cnt e (fst (f nctx n ip (base + u64_of_int (send_block t ip j) * (cnt * e))
      (base + u64_of_int (recv_block t ip j) * (cnt * e)) cnt e rt j)) (put_to t n rt ip j) (dst_block t ip j) (src_block t ip j)"
proof (cases t)
  case AllGatherTest
  with f AllGather_shape [OF j, of ip "base + u64_of_int (send_block t ip j) * (cnt * e)" base cnt e ip base nctx rt] show ?thesis
    by (cases ip; simp add: put_to.simps [abs_def] block_defs [abs_def])
next
  case ScatterTest
  with f Scatter_shape [of ip "base + u64_of_int (recv_block t ip j) * (cnt * e)" base j cnt e ip base nctx n rt] show ?thesis
    by (cases ip; simp add: put_to.simps [abs_def] block_defs [abs_def])
next
  case GatherTest
  with f Gather_shape [of "base + u64_of_int (send_block t ip j) * (cnt * e)" base ip j cnt e nctx n ip rt] show ?thesis
    by (cases ip; simp add: put_to.simps [abs_def] block_defs [abs_def])
next
  case BroadcastTest
  with f Broadcast_shape [of base cnt e nctx n ip rt j] show ?thesis by (cases ip; simp add: put_to.simps [abs_def] block_defs [abs_def])
next
  case AlltoAllTest
  with f AlltoAll_shape [OF j, of base cnt e nctx ip rt] ip show ?thesis
    by (cases ip; simp add: put_to.simps [abs_def] block_defs [abs_def])
qed (use f in simp_all)

lemma SendRecv_rank_copies:
  assumes "0 < nctx" "nctx < 2 ^ 31" "uint base + uint cnt * uint e < 2 ^ 64"
  shows "set (concat (map (put_copies (unat e) ip j) (fst (SendRecvRmaPut nctx n ip base base cnt e rt j)))) =
    {(((j + 1) smod n, True, unat base + unat e * k), (j, ip, unat base + unat e * k)) | k. k < unat cnt}"
  using sendrecv_copies [of 0 nctx 0 cnt base e base ip j "(j + 1) smod n"] assms block_start_ends [of "uint cnt" nctx]
  by (simp add: SendRecvRmaPut_def)

text \<open>What every rank copies, and where its buffers are.\<close>

lemma rma_blocks:
  fixes t ty args b ip o' iter rt
  defines "c \<equiv> run_counts t b ty args" and "n \<equiv> nranks_of args"
  defines "C \<equiv> unat (paramcount c)" and "ws \<equiv> unat (wordSize ty)"
  assumes ready: "rma_ready o' args b" and f: "rmaPut t = Some f" and rt: "rt \<in> {0..<n}"
    and ip: "t \<in> {SendRecvTest, AlltoAllTest} \<Longrightarrow> \<not> ip"
  shows "\<exists>base. \<forall>j\<in>{0..<n}.
      map_option (\<lambda>cl. unat (call_sendoffset cl)) (rma_call o' t args b ty ip iter j) = Some (base + ws * (nat (send_block t ip j) * C))
    \<and> map_option (\<lambda>cl. unat (call_recvoffset cl)) (rma_call o' t args b ty ip iter j) = Some (base + ws * (nat (recv_block t ip j) * C))
    \<and> set (rank_copies o' t args b ty ip iter rt j) = {((x, True, base + ws * (nat (dst_block t ip j x) * C + k)), (j, ip, base + ws * (nat (src_block t ip j x) * C + k)))
        | x k. put_to t n rt ip j x \<and> k < C}"
proof -
  let ?cnt = "paramcount c" and ?e = "wordSize ty"
  have wf: "wf_args args" and nctx: "0 < opt_rmaCtxCount o'" "opt_rmaCtxCount o' < 2 ^ 31" using ready by (simp_all add: rma_ready_def)
  from rma_ranks [OF ready f, where ty = ty and ip = ip and iter = iter and rt = rt, unfolded rma_offsets [OF f], folded c_def n_def]
  obtain base where room: "unat base + unat (max (sendcount c * ?e) (recvcount c * ?e)) < 2 ^ 64"
    and run: "\<And>j. j \<in> {0..<n} \<Longrightarrow> map_option call_sendoffset (rma_call o' t args b ty ip iter j) = Some (base + u64_of_int (send_block t ip j) * (?cnt * ?e))
      \<and> map_option call_recvoffset (rma_call o' t args b ty ip iter j) = Some (base + u64_of_int (recv_block t ip j) * (?cnt * ?e))
      \<and> rma_rank o' t args b ty ip iter rt j = Some (f (opt_rmaCtxCount o') n ip (base + u64_of_int (send_block t ip j) * (?cnt * ?e))
          (base + u64_of_int (recv_block t ip j) * (?cnt * ?e)) ?cnt ?e rt j)"
    by blast
  have fit: "blocks_fit t n base ?cnt ?e" unfolding n_def by (rule rma_blocks_fit [OF wf f meta_eq_to_obj_eq [OF c_def] room])
  have n: "0 < n" "n < 2 ^ 31" using wf_nranks [OF wf] by (simp_all add: n_def)
  have addr: "unat (base + u64_of_int m * (?cnt * ?e)) = unat base + ws * (nat m * C)"
    if "m \<in> {0..<n}" "t \<in> {BroadcastTest, SendRecvTest} \<Longrightarrow> m = 0" for m
    unfolding ws_def C_def using that fit n by (intro block_addr) (auto simp: blocks_fit_def split: if_splits)
  have blocks: "send_block t ip j \<in> {0..<n}" "recv_block t ip j \<in> {0..<n}" if "j \<in> {0..<n}" for j
    using that n by (simp_all add: block_defs)
  have zero: "send_block t ip j = 0" "recv_block t ip j = 0" if "t \<in> {BroadcastTest, SendRecvTest}" for j
    using that by (auto simp: block_defs)
  have copies: "set (rank_copies o' t args b ty ip iter rt j) = {((x, True, unat base + ws * (nat (dst_block t ip j x) * C + k)),
      (j, ip, unat base + ws * (nat (src_block t ip j x) * C + k))) | x k. put_to t n rt ip j x \<and> k < C}" if j: "j \<in> {0..<n}" for j
  proof (cases "t = SendRecvTest")
    case True
    have "uint base + uint ?cnt * uint ?e < 2 ^ 64" using fit by (simp add: blocks_fit_def True)
    from SendRecv_rank_copies [OF nctx this, of ip j n rt] show ?thesis
      using run [OF j] f unfolding rank_copies_def by (simp add: True block_defs C_def ws_def)
  next
    case False
    have m: "src_block t ip j x \<in> {0..<n}" "dst_block t ip j x \<in> {0..<n}" if "put_to t n rt ip j x" for x
      using that f j n rt by (cases t; auto simp: block_defs)+
    have z: "src_block t ip j x = 0" "dst_block t ip j x = 0" if "t \<in> {BroadcastTest, SendRecvTest}" for x
      using that by (auto simp: block_defs)
    have "set (concat (map (put_copies (unat ?e) ip j) (fst (f (opt_rmaCtxCount o') n ip (base + u64_of_int (send_block t ip j) * (?cnt * ?e))
          (base + u64_of_int (recv_block t ip j) * (?cnt * ?e)) ?cnt ?e rt j)))) =
        {((x, True, unat base + unat ?e * (nat (dst_block t ip j x) * unat ?cnt + k)), (j, ip, unat base + unat ?e * (nat (src_block t ip j x) * unat ?cnt + k)))
          | x k. put_to t n rt ip j x \<and> k < unat ?cnt}"
      by (rule shape_copies [OF rma_shape [OF f False j]]) (use ip addr [unfolded ws_def C_def] m z in \<open>blast+\<close>)
    then show ?thesis using run [OF j] by (simp add: rank_copies_def C_def ws_def)
  qed
  show ?thesis
    using run copies addr blocks zero by (intro exI [of _ "unat base"]) (force simp: option.map_comp [symmetric])
qed

lemma block_index_nat: "0 \<le> j \<Longrightarrow> 0 \<le> k \<Longrightarrow> nat (j * int C + k) = nat j * C + nat k"
  by (simp add: nat_add_distrib nat_mult_distrib)

lemma put_source_unique:
  assumes "rmaPut t = Some f" "j \<in> {0..<n}" "j' \<in> {0..<n}" "x \<in> {0..<n}" "put_to t n rt ip j x" "put_to t n rt ip j' x"
    and "nat (dst_block t ip j x) = nat (dst_block t ip j' x)"
  shows "j = j'"
proof (cases "t = SendRecvTest")
  case True
  with assms have "(j + 1) smod n = x" "(j' + 1) smod n = x" by simp_all
  with ring_peers [OF assms(2,4)] ring_peers [OF assms(3,4)] show ?thesis by simp
qed (use assms in \<open>cases t; auto simp: block_defs\<close>)

lemma put_source_kept:
  assumes "rmaPut t = Some f" "j \<in> {0..<n}" "j' \<in> {0..<n}" "put_to t n rt ip j x" "put_to t n rt ip j' j" "ip"
    and "nat (dst_block t ip j' j) = nat (src_block t ip j x)" and "t \<notin> {SendRecvTest, AlltoAllTest}"
  shows "put_to t n rt ip j j \<and> nat (dst_block t ip j j) = nat (src_block t ip j x) \<and> nat (src_block t ip j j) = nat (src_block t ip j x)"
  using assms by (cases t) (auto simp: block_defs)

definition elements_of :: "testColl \<Rightarrow> int \<Rightarrow> int \<Rightarrow> int \<Rightarrow> int \<Rightarrow> bool" where
  "elements_of t n c sc rc \<longleftrightarrow>
     (if t \<in> {AllGatherTest, GatherTest} then sc = c \<and> rc = n * c else if t = AlltoAllTest then sc = n * c else rc = c)"

lemma placed_result:
  fixes base ws C :: nat
  defines "E \<equiv> \<lambda>i. base + ws * i"
  assumes f: "rmaPut t = Some f" and rt: "rt \<in> {0..<n}" and ip: "t \<in> {SendRecvTest, AlltoAllTest} \<Longrightarrow> \<not> ip" and ws: "0 < ws"
    and ps: "set ps = {((x, True, E (nat (dst_block t ip j x) * C + k)), (j, ip, E (nat (src_block t ip j x) * C + k)))
        | j x k. (j \<in> {0..<n} \<and> x \<in> {0..<n} \<and> put_to t n rt ip j x) \<and> k < C}"
    and cnt: "elements_of t n (int C) sc rc"
  shows "coll_result t ty op n rt sc rc (\<lambda>r k. mem (r, ip, E (nat (send_block t ip r) * C + nat k)))
      (\<lambda>r k. mem (r, True, E (nat (recv_block t ip r) * C + nat k)))
      (\<lambda>r k. run_copies ps mem (r, True, E (nat (recv_block t ip r) * C + nat k)))"
proof -
  have E: "inj E" using ws by (auto simp: E_def inj_on_def)
  let ?T = "\<lambda>j x. j \<in> {0..<n} \<and> x \<in> {0..<n} \<and> put_to t n rt ip j x"
  have fn: "\<And>j j' x. ?T j x \<Longrightarrow> ?T j' x \<Longrightarrow> nat (dst_block t ip j x) = nat (dst_block t ip j' x) \<Longrightarrow> j = j'"
    using put_source_unique [OF f] by blast
  have keep: "?T j j \<and> nat (dst_block t ip j j) = nat (src_block t ip j x) \<and> nat (src_block t ip j j) = nat (src_block t ip j x)"
    if "ip" "?T j x" "?T j' j" "nat (dst_block t ip j' j) = nat (src_block t ip j x)" for j j' x
  proof -
    have "t \<notin> {SendRecvTest, AlltoAllTest}" using ip that(1) by blast
    with put_source_kept [OF f] that show ?thesis by blast
  qed
  note placed = copies_placed [where T = ?T and dm = "dst_block t ip" and sm = "src_block t ip" and mem = mem, OF ps E]
  have sent: "run_copies ps mem (x, True, E (nat (dst_block t ip j x) * C + nat k)) = mem (j, ip, E (nat (src_block t ip j x) * C + nat k))"
    if "j \<in> {0..<n}" "x \<in> {0..<n}" "put_to t n rt ip j x" "k \<in> {0..<int C}" for j x k
    by (rule placed(1), erule (2) fn, erule (3) keep) (use that in auto)
  have kept: "run_copies ps mem (x, True, E (nat m * C + nat k)) = mem (x, True, E (nat m * C + nat k))"
    if "\<And>j. ?T j x \<Longrightarrow> nat (dst_block t ip j x) \<noteq> nat m" "k \<in> {0..<int C}" for x k m
    by (rule placed(2), erule (2) fn, erule (3) keep, erule that(1)) (use that(2) in auto)
  have none: "run_copies ps mem (x, True, e) = mem (x, True, e)" if "\<And>j. \<not> ?T j x" for x e
    by (rule placed(3), erule (2) fn, erule (3) keep, rule that)
  note idx = block_index_nat [of _ _ C]
  show ?thesis
  proof (cases t)
    case AllGatherTest
    have "run_copies ps mem (r, True, E (nat j * C + nat k)) = mem (j, ip, E (nat (send_block t ip j) * C + nat k))"
      if "r \<in> {0..<n}" "j \<in> {0..<n}" "k \<in> {0..<int C}" for r j k
    proof (cases "ip \<and> r = j")
      case True
      with kept [of r j k] that show ?thesis by (auto simp: AllGatherTest block_defs eq_nat_nat_iff)
    next
      case False
      with sent [of j r k] that show ?thesis by (auto simp: AllGatherTest block_defs)
    qed
    with cnt show ?thesis by (simp add: AllGatherTest elements_of_def recv_block_def idx)
  next
    case GatherTest
    have "run_copies ps mem (rt, True, E (nat j * C + nat k)) = mem (j, ip, E (nat (send_block t ip j) * C + nat k))"
      if "j \<in> {0..<n}" "k \<in> {0..<int C}" for j k
      using sent [of j rt k] that rt by (auto simp: GatherTest block_defs)
    moreover have "run_copies ps mem (r, True, e) = mem (r, True, e)" if "r \<noteq> rt" for r e
      using that by (intro none) (simp add: GatherTest)
    ultimately show ?thesis using cnt by (simp add: GatherTest elements_of_def recv_block_def idx)
  next
    case ScatterTest
    have "run_copies ps mem (r, True, E (nat (recv_block t ip r) * C + nat k)) = mem (rt, ip, E (nat r * C + nat k))"
      if "r \<in> {0..<n}" "k \<in> {0..<int C}" for r k
    proof (cases "ip \<and> r = rt")
      case True
      with kept [of r r k] that show ?thesis by (auto simp: ScatterTest block_defs)
    next
      case False
      with sent [of rt r k] that rt show ?thesis by (auto simp: ScatterTest block_defs)
    qed
    with cnt show ?thesis by (simp add: ScatterTest elements_of_def send_block_def idx)
  next
    case BroadcastTest
    have "run_copies ps mem (r, True, E (nat k)) = mem (rt, ip, E (nat k))" if "r \<in> {0..<n}" "k \<in> {0..<int C}" for r k
      using sent [of rt r k] that rt by (auto simp: BroadcastTest block_defs)
    with cnt show ?thesis by (simp add: BroadcastTest elements_of_def block_defs)
  next
    case SendRecvTest
    have "run_copies ps mem (r, True, E (nat k)) = mem ((r - 1 + n) mod n, ip, E (nat k))" if "r \<in> {0..<n}" "k \<in> {0..<int C}" for r k
    proof -
      have j: "(r - 1 + n) mod n \<in> {0..<n}" using that by simp
      have "(r - 1 + n) smod n = (r - 1 + n) mod n" using that by simp
      with ring_peers [OF j that(1)] have "((r - 1 + n) mod n + 1) smod n = r" by simp
      with sent [OF j that(1) _ that(2)] show ?thesis by (simp add: SendRecvTest block_defs)
    qed
    with cnt show ?thesis by (simp add: SendRecvTest elements_of_def block_defs)
  next
    case AlltoAllTest
    have "run_copies ps mem (r, True, E (nat j * C + nat k)) = mem (j, ip, E (nat r * C + nat k))"
      if "r \<in> {0..<n}" "j \<in> {0..<n}" "k \<in> {0..<int C}" for r j k
      using sent [of j r k] that by (auto simp: AlltoAllTest block_defs)
    moreover have "sc div n = int C" using cnt rt by (simp add: elements_of_def AlltoAllTest)
    ultimately show ?thesis by (simp add: AlltoAllTest block_defs idx)
  qed (use f in simp_all)
qed

lemma rma_all_copies:
  assumes ready: "rma_ready o' args bytes" and f: "rmaPut t = Some f" and rt: "rt \<in> {0..<nranks_of args}"
    and ip: "t \<in> {SendRecvTest, AlltoAllTest} \<Longrightarrow> \<not> in_place"
  shows "\<exists>base. (\<forall>j\<in>{0..<nranks_of args}.
      map_option (\<lambda>c. unat (call_sendoffset c)) (rma_call o' t args bytes ty in_place iter j) =
        Some (base + unat (wordSize ty) * (nat (send_block t in_place j) * unat (paramcount (run_counts t bytes ty args))))
      \<and> map_option (\<lambda>c. unat (call_recvoffset c)) (rma_call o' t args bytes ty in_place iter j) =
        Some (base + unat (wordSize ty) * (nat (recv_block t in_place j) * unat (paramcount (run_counts t bytes ty args)))))
    \<and> set (concat (map (rank_copies o' t args bytes ty in_place iter rt) [0..nranks_of args - 1])) =
      {((x, True, base + unat (wordSize ty) * (nat (dst_block t in_place j x) * unat (paramcount (run_counts t bytes ty args)) + k)),
        (j, in_place, base + unat (wordSize ty) * (nat (src_block t in_place j x) * unat (paramcount (run_counts t bytes ty args)) + k)))
        | j x k. (j \<in> {0..<nranks_of args} \<and> x \<in> {0..<nranks_of args} \<and> put_to t (nranks_of args) rt in_place j x)
          \<and> k < unat (paramcount (run_counts t bytes ty args))}"
proof -
  let ?n = "nranks_of args"
  let ?C = "unat (paramcount (run_counts t bytes ty args))" and ?ws = "unat (wordSize ty)"
  have wf: "wf_args args" using ready by (simp add: rma_ready_def)
  from rma_blocks [OF ready f rt ip, of ty iter] obtain base where
    at: "\<forall>j\<in>{0..<?n}. map_option (\<lambda>c. unat (call_sendoffset c)) (rma_call o' t args bytes ty in_place iter j) = Some (base + ?ws * (nat (send_block t in_place j) * ?C))
      \<and> map_option (\<lambda>c. unat (call_recvoffset c)) (rma_call o' t args bytes ty in_place iter j) = Some (base + ?ws * (nat (recv_block t in_place j) * ?C))"
    and copies: "\<And>j. j \<in> {0..<?n} \<Longrightarrow> set (rank_copies o' t args bytes ty in_place iter rt j) =
      {((x, True, base + ?ws * (nat (dst_block t in_place j x) * ?C + k)), (j, in_place, base + ?ws * (nat (src_block t in_place j x) * ?C + k)))
        | x k. put_to t ?n rt in_place j x \<and> k < ?C}"
    by blast
  have target: "x \<in> {0..<?n}" if "put_to t ?n rt in_place j x" "j \<in> {0..<?n}" for j x
    using that f rt wf_nranks [OF wf] by (cases t) auto
  have "set (concat (map (rank_copies o' t args bytes ty in_place iter rt) [0..?n - 1])) = (\<Union>j\<in>{0..<?n}. set (rank_copies o' t args bytes ty in_place iter rt j))"
    by (auto simp: atLeastLessThan_def)
  also have "\<dots> = {((x, True, base + ?ws * (nat (dst_block t in_place j x) * ?C + k)), (j, in_place, base + ?ws * (nat (src_block t in_place j x) * ?C + k)))
        | j x k. (j \<in> {0..<?n} \<and> x \<in> {0..<?n} \<and> put_to t ?n rt in_place j x) \<and> k < ?C}" (is "_ = ?R")
  proof (intro set_eqI iffI)
    fix y assume "y \<in> (\<Union>j\<in>{0..<?n}. set (rank_copies o' t args bytes ty in_place iter rt j))"
    then obtain j where j: "j \<in> {0..<?n}" "y \<in> set (rank_copies o' t args bytes ty in_place iter rt j)" by blast
    then obtain x k where "put_to t ?n rt in_place j x" "k < ?C"
      "y = ((x, True, base + ?ws * (nat (dst_block t in_place j x) * ?C + k)), (j, in_place, base + ?ws * (nat (src_block t in_place j x) * ?C + k)))"
      unfolding copies [OF j(1)] by blast
    with j(1) target show "y \<in> ?R" by blast
  next
    fix y assume "y \<in> ?R"
    then obtain j x k where j: "j \<in> {0..<?n}" and y: "put_to t ?n rt in_place j x" "k < ?C"
      "y = ((x, True, base + ?ws * (nat (dst_block t in_place j x) * ?C + k)), (j, in_place, base + ?ws * (nat (src_block t in_place j x) * ?C + k)))"
      by blast
    then have "y \<in> set (rank_copies o' t args bytes ty in_place iter rt j)" unfolding copies [OF j] by blast
    with j show "y \<in> (\<Union>j\<in>{0..<?n}. set (rank_copies o' t args bytes ty in_place iter rt j))" by blast
  qed
  finally show ?thesis using at by blast
qed

text \<open>C26: the one-sided collectives move the data. Let \<open>ps\<close> be the element copies of the puts of all ranks, in any order
  and interleaved at will; the memory after them holds, at the receive addresses of every rank, what
  the definition of the collective says in terms of the memory before, at every size, type, root,
  number of contexts and iteration, in place or not (sendrecv and alltoall, which the harness does not
  check in place, out of place). So the check of the results finds no error.\<close>

theorem rma_data_placed:
  assumes ready: "rma_ready o' args bytes" and "rmaPut t \<noteq> None" and rt: "rt \<in> {0..<nranks_of args}"
    and ip: "t \<in> {SendRecvTest, AlltoAllTest} \<Longrightarrow> \<not> in_place"
    and ps: "mset ps = mset (concat (map (rank_copies o' t args bytes ty in_place iter rt) [0..nranks_of args - 1]))"
    and a: "a = setupArgs (getCollByteCount t) bytes ty args"
  shows "\<exists>send_at recv_at.
      (\<forall>r\<in>{0..<nranks_of args}. map_option (\<lambda>c. unat (call_sendoffset c)) (rma_call o' t args bytes ty in_place iter r) = Some (send_at r)
        \<and> map_option (\<lambda>c. unat (call_recvoffset c)) (rma_call o' t args bytes ty in_place iter r) = Some (recv_at r))
    \<and> coll_result t ty op (nranks_of args) rt (uint (sendBytes a div wordSize ty)) (uint (expectedBytes a div wordSize ty))
        (\<lambda>r k. mem (r, in_place, send_at r + unat (wordSize ty) * nat k))
        (\<lambda>r k. mem (r, True, recv_at r + unat (wordSize ty) * nat k))
        (\<lambda>r k. run_copies ps mem (r, True, recv_at r + unat (wordSize ty) * nat k))"
proof -
  let ?n = "nranks_of args" and ?c = "run_counts t bytes ty args"
  let ?C = "unat (paramcount ?c)" and ?ws = "unat (wordSize ty)"
  obtain f where f: "rmaPut t = Some f" using assms(2) by blast
  have wf: "wf_args args" using ready by (simp add: rma_ready_def)
  from rma_all_copies [OF ready f rt ip, of ty iter] obtain base where
    at: "\<forall>j\<in>{0..<?n}. map_option (\<lambda>c. unat (call_sendoffset c)) (rma_call o' t args bytes ty in_place iter j) = Some (base + ?ws * (nat (send_block t in_place j) * ?C))
      \<and> map_option (\<lambda>c. unat (call_recvoffset c)) (rma_call o' t args bytes ty in_place iter j) = Some (base + ?ws * (nat (recv_block t in_place j) * ?C))"
    and "set (concat (map (rank_copies o' t args bytes ty in_place iter rt) [0..?n - 1])) =
      {((x, True, base + ?ws * (nat (dst_block t in_place j x) * ?C + k)), (j, in_place, base + ?ws * (nat (src_block t in_place j x) * ?C + k)))
        | j x k. (j \<in> {0..<?n} \<and> x \<in> {0..<?n} \<and> put_to t ?n rt in_place j x) \<and> k < ?C}"
    by blast
  note set_ps = trans [OF mset_eq_setD [OF ps] this(2)]
  have "elements_of t ?n (int ?C) (uint (sendcount ?c)) (uint (recvcount ?c))"
  proof (cases "t = AlltoAllTest")
    case True
    with AlltoAll_recvcount [OF wf refl, of bytes ty] show ?thesis by (simp add: elements_of_def)
  next
    case False
    with f rma_paramcount [OF f False refl, of bytes ty args] run_counts_related [OF wf, of t bytes ty] show ?thesis
      by (cases t) (auto simp: elements_of_def counts_related_def)
  qed
  note res = placed_result [OF f rt ip wordSize_pos set_ps this]
  have cs: "sendBytes a div wordSize ty = sendcount ?c" "expectedBytes a div wordSize ty = recvcount ?c"
    unfolding a by (rule setup_counts)+
  show ?thesis
    unfolding cs using at res [where mem = mem and ty = ty and op = op]
    by (intro exI [of _ "\<lambda>j. base + ?ws * (nat (send_block t in_place j) * ?C)"] exI [of _ "\<lambda>j. base + ?ws * (nat (recv_block t in_place j) * ?C)"])
      (simp only: distrib_left add.assoc simp_thms)
qed
theorem rma_data_placed_witness:
  "\<exists>send_at recv_at. coll_result ScatterTest NcclFloat32 ReduceNil 4 1 1024 256
     (\<lambda>r k. of_nat (send_at r + 4 * nat k)) (\<lambda>r k. of_nat (recv_at r + 4 * nat k))
     (\<lambda>r k. run_copies (concat (map (rank_copies (default_options\<lparr>opt_hostRmaImpl := True\<rparr>) ScatterTest example_args 4096 NcclFloat32 True 3 1) [0..3]))
        (\<lambda>(r, b, a). of_nat a) (r, True, recv_at r + 4 * nat k))"
proof -
  have h: "rma_ready (default_options\<lparr>opt_hostRmaImpl := True\<rparr>) example_args 4096" "rmaPut ScatterTest \<noteq> None"
    "1 \<in> {0..<nranks_of example_args}" "ScatterTest \<in> {SendRecvTest, AlltoAllTest} \<Longrightarrow> \<not> True"
    by (simp_all add: rma_ready_def default_options_def) (simp_all add: example_args_def nranks_of_def)
  have n: "nranks_of example_args = 4" by (simp add: example_args_def nranks_of_def)
  have c: "uint (sendBytes (setupArgs (getCollByteCount ScatterTest) 4096 NcclFloat32 example_args) div wordSize NcclFloat32) = 1024"
    "uint (expectedBytes (setupArgs (getCollByteCount ScatterTest) 4096 NcclFloat32 example_args) div wordSize NcclFloat32) = 256"
    by (simp_all add: setupArgs_def count_defs base_count_def n)
  from rma_data_placed [OF h refl refl, where ty = NcclFloat32 and iter = 3 and op = ReduceNil and mem = "\<lambda>(r, b, a). of_nat a"]
  show ?thesis unfolding c n by auto
qed

end
