(* ===== verification/HostHyper.thy ===== *)
theory HostHyper
  imports HostTests HostRmaRun
begin

unbundle bit_operations_syntax

text \<open>
  The hypercube all-gather of src/hypercube.cu: rounds of pairwise exchanges between ranks that differ in one
  bit. The theory gives the groups of sends and receives of all ranks their meaning (a receive takes
  the data of the send of its peer in the same round) and shows that for a power of two of ranks every
  receive buffer ends up with the result of an all-gather.
\<close>

section \<open>The meaning of sends and receives\<close>

text \<open>The operations of a rank after its local copies, split after every \<^const>\<open>GroupEnd\<close>.\<close>

fun rounds_of :: "nccl_op list \<Rightarrow> nccl_op list \<Rightarrow> nccl_op list list" where
  "rounds_of cur [] = []"
| "rounds_of cur (GroupEnd # ops) = (cur @ [GroupEnd]) # rounds_of [] ops"
| "rounds_of cur (CopyOp d s b # ops) = rounds_of cur ops"
| "rounds_of cur (x # ops) = rounds_of (cur @ [x]) ops"

text \<open>The copies of a round: the elements of every receive with those of the send of the peer to this rank.\<close>

fun sends_to :: "int \<Rightarrow> u64 \<Rightarrow> nccl_op \<Rightarrow> buf_ptr list" where
  "sends_to b c (SendOp p c' d) = (if d = b \<and> c' = c then [p] else [])"
| "sends_to b c x = []"

fun recv_copies :: "nat \<Rightarrow> (int \<Rightarrow> nccl_op list) \<Rightarrow> int \<Rightarrow> nccl_op \<Rightarrow> (cell \<times> cell) list" where
  "recv_copies ws grp b (RecvOp q c a) =
     concat (map (\<lambda>p. map (\<lambda>k. ((b, fst q, unat (snd q) + ws * k), (a, fst p, unat (snd p) + ws * k))) [0..<unat c])
       (concat (map (sends_to b c) (grp a))))"
| "recv_copies ws grp b x = []"

definition p2p_copies :: "nat \<Rightarrow> int \<Rightarrow> (int \<Rightarrow> nccl_op list) \<Rightarrow> (cell \<times> cell) list" where
  "p2p_copies ws n grp = concat (map (\<lambda>b. concat (map (recv_copies ws grp b) (grp b))) [0..n - 1])"

fun local_copies :: "u64 \<Rightarrow> int \<Rightarrow> nccl_op \<Rightarrow> (cell \<times> cell) list" where
  "local_copies ws r (CopyOp d s b) =
     map (\<lambda>k. ((r, fst d, unat (snd d) + unat ws * k), (r, fst s, unat (snd s) + unat ws * k))) [0..<unat (b div ws)]"
| "local_copies ws r x = []"

text \<open>All ranks: the local copies, then round after round.\<close>

definition run_p2p :: "u64 \<Rightarrow> int \<Rightarrow> nat \<Rightarrow> (int \<Rightarrow> nccl_op list) \<Rightarrow> (cell \<Rightarrow> 'v) \<Rightarrow> cell \<Rightarrow> 'v" where
  "run_p2p ws n rounds prog mem =
     foldl (\<lambda>m i. run_copies (p2p_copies (unat ws) n (\<lambda>r. rounds_of [] (prog r) ! i)) m)
       (run_copies (concat (map (\<lambda>r. concat (map (local_copies ws r) (prog r))) [0..n - 1])) mem) [0..<rounds]"

section \<open>Partners\<close>

lemma hyper_masks_pow: "j \<le> k \<Longrightarrow> hyper_masks (2 ^ k) (2 ^ j) = map (\<lambda>i. 2 ^ i) [j..<k]"
proof (induction "k - j" arbitrary: j)
  case 0
  then show ?case by (subst hyper_masks.simps) simp
next
  case (Suc d)
  then have "j < k" by simp
  with Suc.hyps(1) [of "Suc j"] Suc.hyps(2) show ?case
    by (subst hyper_masks.simps) (simp add: push_bit_eq_mult upt_conv_Cons mult.commute [of _ 2])
qed

lemma low_cleared: "b AND NOT (2 ^ j - 1) = b div 2 ^ j * 2 ^ j" for b :: int
proof -
  have "b AND NOT (mask j) = push_bit j (drop_bit j b)" by (rule bit_eqI) (auto simp: bit_simps)
  then show ?thesis by (simp add: mask_eq_exp_minus_1 push_bit_eq_mult drop_bit_eq_div)
qed

lemma xor_block: "q * 2 ^ j XOR 2 ^ j = (q XOR 1) * 2 ^ j" for q :: int
proof -
  have "push_bit j q XOR push_bit j 1 = push_bit j (q XOR 1)" by (simp only: push_bit_xor)
  then show ?thesis by (simp add: push_bit_eq_mult)
qed

lemma partner_block: "(b XOR 2 ^ j) div 2 ^ j = b div 2 ^ j XOR 1" for b :: int
proof -
  have "drop_bit j (b XOR push_bit j 1) = drop_bit j b XOR 1" by (rule bit_eqI) (auto simp: bit_simps)
  then show ?thesis by (simp add: drop_bit_eq_div push_bit_eq_mult)
qed

lemma xor_one: "q XOR 1 = (if even q then q + 1 else q - 1)" for q :: int
  by (simp add: xor_one_eq)

lemma same_pair: "x div 2 = q div 2 \<longleftrightarrow> x = q \<or> x = q XOR 1" for q :: int
  unfolding xor_one by (cases "even q"; cases "even x") (auto elim!: evenE oddE)

lemma partner_range:
  fixes b :: int
  assumes "b \<in> {0..<2 ^ k}" "j < k"
  shows "b XOR 2 ^ j \<in> {0..<2 ^ k}"
proof -
  have "(2::int) ^ j < 2 ^ k" using assms(2) by simp
  with assms(1) XOR_upper [of b k "2 ^ j"] show ?thesis by simp
qed

lemma partner_partner: "(b XOR m) XOR m = b" for b :: int
  by (simp add: xor.assoc)

section \<open>One round\<close>

text \<open>The block of ranks a rank sends, and the block it receives, in the round with mask \<open>2 ^ j\<close>.\<close>

lemma hyper_group_eq:
  "hyper_group r R B c (2 ^ j) =
     [GroupStart, SendOp (True, R + u64_of_int (r div 2 ^ j * 2 ^ j) * B) (c * u64_of_int (2 ^ j)) (r XOR 2 ^ j),
      RecvOp (True, R + u64_of_int ((r div 2 ^ j XOR 1) * 2 ^ j) * B) (c * u64_of_int (2 ^ j)) (r XOR 2 ^ j), GroupEnd]"
  unfolding hyper_group_def Let_def low_cleared xor_block ..

lemma hyper_round_copies:
  assumes j: "j < k" and grp: "\<And>r. r \<in> {0..<2 ^ k} \<Longrightarrow> grp r = hyper_group r R B c (2 ^ j)"
  shows "set (p2p_copies ws (2 ^ k) grp) =
    {((b, True, unat (R + u64_of_int ((b div 2 ^ j XOR 1) * 2 ^ j) * B) + ws * i),
      (b XOR 2 ^ j, True, unat (R + u64_of_int ((b div 2 ^ j XOR 1) * 2 ^ j) * B) + ws * i))
      | b i. b \<in> {0..<2 ^ k} \<and> i < unat (c * u64_of_int (2 ^ j))}"
proof -
  let ?a = "\<lambda>b. unat (R + u64_of_int ((b div 2 ^ j XOR 1) * 2 ^ j) * B)"
  have one: "set (concat (map (recv_copies ws grp b) (grp b)))
      = {((b, True, ?a b + ws * i), (b XOR 2 ^ j, True, ?a b + ws * i)) | i. i < unat (c * u64_of_int (2 ^ j))}"
    if "b \<in> {0..<2 ^ k}" for b
    unfolding grp [OF that] using grp [OF partner_range [OF that j]]
    by (auto simp: hyper_group_eq partner_partner partner_block)
  have "set (p2p_copies ws (2 ^ k) grp) = (\<Union>b\<in>{0..<2 ^ k}. set (concat (map (recv_copies ws grp b) (grp b))))"
    by (simp only: p2p_copies_def set_concat set_map image_image set_upto) (simp add: atLeastLessThanPlusOne_atLeastAtMost_int [symmetric])
  also have "\<dots> = (\<Union>b\<in>{0..<2 ^ k}. {((b, True, ?a b + ws * i), (b XOR 2 ^ j, True, ?a b + ws * i)) | i. i < unat (c * u64_of_int (2 ^ j))})"
    by (rule SUP_cong [OF refl]) (rule one)
  finally show ?thesis by blast
qed

text \<open>
  The round on elements: the receive buffers start at \<open>base\<close> and hold blocks of \<open>C\<close> elements; when every rank holds the
  blocks of its group of \<open>2 ^ j\<close> ranks, afterwards it holds those of its group of twice the size.
\<close>

definition holds_blocks :: "nat \<Rightarrow> nat \<Rightarrow> nat \<Rightarrow> nat \<Rightarrow> nat \<Rightarrow> (int \<Rightarrow> nat \<Rightarrow> 'v) \<Rightarrow> (cell \<Rightarrow> 'v) \<Rightarrow> bool" where
  "holds_blocks base ws C k j v mem \<longleftrightarrow>
     (\<forall>b\<in>{0..<2 ^ k}. \<forall>x\<in>{0..<2 ^ k}. \<forall>i<C. x div 2 ^ j = b div 2 ^ j \<longrightarrow> mem (b, True, base + ws * (nat x * C + i)) = v x i)"

lemma block_range:
  assumes "i < C"
  shows "s * C \<le> x * C + i \<and> x * C + i < (s + m) * C \<longleftrightarrow> s \<le> x \<and> x < s + (m::nat)"
proof -
  have "x * C + i < (s + m) * C \<longleftrightarrow> x < s + m"
  proof
    assume "x * C + i < (s + m) * C"
    then have "x * C < (s + m) * C" by linarith
    then show "x < s + m" by simp
  next
    assume "x < s + m"
    then have "Suc x * C \<le> (s + m) * C" by (intro mult_le_mono1) simp
    with assms show "x * C + i < (s + m) * C" by simp
  qed
  moreover have "s * C \<le> x * C + i \<longleftrightarrow> s \<le> x"
  proof
    assume "s * C \<le> x * C + i"
    then have "s * C < Suc x * C" unfolding mult_Suc using assms by linarith
    then have "s < Suc x" by (rule mult_less_cancel2 [THEN iffD1, THEN conjunct2])
    then show "s \<le> x" by simp
  next
    assume "s \<le> x"
    then have "s * C \<le> x * C" by (rule mult_le_mono1)
    then show "s * C \<le> x * C + i" by (rule trans_le_add1)
  qed
  ultimately show ?thesis by blast
qed

lemma in_group: "0 \<le> x \<Longrightarrow> 0 \<le> q \<Longrightarrow> nat (q * 2 ^ j) \<le> nat x \<and> nat x < nat (q * 2 ^ j) + 2 ^ j \<longleftrightarrow> x div 2 ^ j = (q::int)"
proof -
  assume a: "0 \<le> x" "0 \<le> q"
  have "x div 2 ^ j = q \<longleftrightarrow> q * 2 ^ j \<le> x \<and> x < q * 2 ^ j + 2 ^ j"
  proof
    have "x div 2 ^ j * 2 ^ j + x mod 2 ^ j = x" "x mod 2 ^ j < 2 ^ j" "0 \<le> x mod 2 ^ j"
      by (rule div_mult_mod_eq) simp_all
    then have "x div 2 ^ j * 2 ^ j \<le> x \<and> x < x div 2 ^ j * 2 ^ j + 2 ^ j" by linarith
    then show "x div 2 ^ j = q \<Longrightarrow> q * 2 ^ j \<le> x \<and> x < q * 2 ^ j + 2 ^ j" by simp
    show "q * 2 ^ j \<le> x \<and> x < q * 2 ^ j + 2 ^ j \<Longrightarrow> x div 2 ^ j = q"
      by (rule int_div_pos_eq [of x "2 ^ j" q "x - q * 2 ^ j"]) (simp_all add: mult.commute)
  qed
  moreover have "nat x < nat (q * 2 ^ j) + 2 ^ j \<longleftrightarrow> x < q * 2 ^ j + 2 ^ j"
  proof -
    have "nat (q * 2 ^ j) + 2 ^ j = nat (q * 2 ^ j + 2 ^ j)" using a by (simp add: nat_add_distrib nat_power_eq)
    then show ?thesis using a by (simp only: nat_less_eq_zless)
  qed
  ultimately show ?thesis using a by (simp add: nat_le_eq_zle)
qed

lemma hyper_round:
  fixes v :: "int \<Rightarrow> nat \<Rightarrow> 'v"
  assumes j: "j < k" and ws: "0 < ws"
    and ps: "set ps = {((b, True, base + ws * (nat ((b div 2 ^ j XOR 1) * 2 ^ j) * C + i)),
        (b XOR 2 ^ j, True, base + ws * (nat ((b div 2 ^ j XOR 1) * 2 ^ j) * C + i))) | b i. b \<in> {0..<2 ^ k} \<and> i < C * 2 ^ j}"
    and holds: "holds_blocks base ws C k j v mem"
  shows "holds_blocks base ws C k (Suc j) v (run_copies ps mem)"
proof -
  let ?q = "\<lambda>b :: int. b div 2 ^ j XOR 1"
  let ?s = "\<lambda>b. nat (?q b * 2 ^ j) * C"
  have q: "0 \<le> ?q b" if "b \<in> {0..<2 ^ k}" for b
    using that by (simp add: pos_imp_zdiv_nonneg_iff)
  have E: "base + ws * a = base + ws * a' \<longleftrightarrow> a = a'" for a a' using ws by simp
  have blk: "(?s b + e) div (C * 2 ^ j) = nat (?q b)" if "b \<in> {0..<2 ^ k}" "e < C * 2 ^ j" for b e
  proof -
    have "?s b = nat (?q b) * (C * 2 ^ j)" using q [OF that(1)] by (simp add: nat_mult_distrib nat_power_eq)
    then show ?thesis by (simp only: div_block [OF that(2)])
  qed
  have D: "(a + 2 ^ j) * C = a * C + C * 2 ^ j" for a :: nat
    by (simp only: add_mult_distrib mult.commute [of C])
  have one: "s = s'" if "(d, s) \<in> set ps" "(d, s') \<in> set ps" for d s s'
    using that unfolding ps by auto
  have twice: "(s, s) \<in> set ps" if "(d, s) \<in> set ps" "s \<in> fst ` set ps" for d s
  proof -
    from that(1) obtain b e where s: "s = (b XOR 2 ^ j, True, base + ws * (?s b + e))" "b \<in> {0..<2 ^ k}" "e < C * 2 ^ j"
      unfolding ps by blast
    from that(2) obtain b' e' where "s = (b', True, base + ws * (?s b' + e'))" "b' \<in> {0..<2 ^ k}" "e' < C * 2 ^ j"
      unfolding ps by force
    with s E have "b' = b XOR 2 ^ j" "?s b + e = ?s b' + e'" "b' \<in> {0..<2 ^ k}" "e' < C * 2 ^ j" by auto
    with blk [of b e] blk [of b' e'] s have "nat (?q b) = nat (?q (b XOR 2 ^ j))" by metis
    with eq_nat_nat_iff [OF q [OF s(2)] q [OF partner_range [OF s(2) j]]] have "?q b = ?q (b XOR 2 ^ j)" by blast
    then have "?q b = ?q b XOR 1" unfolding partner_block .
    then have False unfolding xor_one [of "?q b"] by (simp split: if_splits)
    then show ?thesis ..
  qed
  have run: "((d, s) \<in> set ps \<longrightarrow> run_copies ps mem d = mem s) \<and> (d \<notin> fst ` set ps \<longrightarrow> run_copies ps mem d = mem d)" for d s
    by (rule run_copies_apply) (erule (1) one, erule (1) twice)
  show ?thesis
    unfolding holds_blocks_def
  proof (intro ballI allI impI)
    fix b x :: int and i
    assume b: "b \<in> {0..<2 ^ k}" and x: "x \<in> {0..<2 ^ k}" and i: "i < C" and grp: "x div 2 ^ Suc j = b div 2 ^ Suc j"
    let ?d = "(b, True, base + ws * (nat x * C + i))"
    have "x div 2 ^ j div 2 = b div 2 ^ j div 2" using grp by (simp add: zdiv_zmult2_eq [symmetric] mult.commute)
    then consider (got) "x div 2 ^ j = ?q b" | (own) "x div 2 ^ j = b div 2 ^ j" unfolding same_pair by blast
    then show "run_copies ps mem ?d = v x i"
    proof cases
      case got
      have r: "nat (?q b * 2 ^ j) \<le> nat x \<and> nat x < nat (?q b * 2 ^ j) + 2 ^ j"
        using in_group [of x "?q b" j] x q [OF b] got by simp
      then have "?s b \<le> nat x * C + i \<and> nat x * C + i < ?s b + C * 2 ^ j"
        using block_range [OF i, of "nat (?q b * 2 ^ j)" "nat x" "2 ^ j"] unfolding D by blast
      then obtain e where e: "nat x * C + i = ?s b + e" "e < C * 2 ^ j"
        by (metis le_add_diff_inverse nat_add_left_cancel_less)
      then have "(?d, (b XOR 2 ^ j, True, base + ws * (nat x * C + i))) \<in> set ps" unfolding ps e(1) using b e(2) by blast
      from run [THEN conjunct1, rule_format, OF this]
      have "run_copies ps mem ?d = mem (b XOR 2 ^ j, True, base + ws * (nat x * C + i))" .
      also have "\<dots> = v x i"
        using holds partner_range [OF b j] x i got unfolding holds_blocks_def partner_block by (simp add: partner_block)
      finally show ?thesis .
    next
      case own
      have "?d \<notin> fst ` set ps"
      proof
        assume "?d \<in> fst ` set ps"
        then obtain e where e: "nat x * C + i = ?s b + e" "e < C * 2 ^ j" unfolding ps using ws by (auto simp: E)
        then have "?s b \<le> nat x * C + i \<and> nat x * C + i < (nat (?q b * 2 ^ j) + 2 ^ j) * C"
          unfolding D by simp
        then have "nat (?q b * 2 ^ j) \<le> nat x \<and> nat x < nat (?q b * 2 ^ j) + 2 ^ j" using block_range [OF i] by blast
        then have "x div 2 ^ j = ?q b" using in_group [of x "?q b" j] x q [OF b] by simp
        with own show False unfolding xor_one by (simp split: if_splits)
      qed
      from run [THEN conjunct2, rule_format, OF this] have "run_copies ps mem ?d = mem ?d" .
      also have "\<dots> = v x i" using holds b x i own unfolding holds_blocks_def by blast
      finally show ?thesis .
    qed
  qed
qed

section \<open>The calls of a run without one-sided puts\<close>

definition host_ready :: "options \<Rightarrow> threadArgs \<Rightarrow> u64 \<Rightarrow> bool" where
  "host_ready o' args bytes \<longleftrightarrow> wf_args args \<and> bytes \<le> maxbytes args \<and> \<not> opt_hostRmaImpl o' \<and> opt_deviceImpl o' = 0
     \<and> 0 \<le> opt_unalign o' \<and> int (unat (maxbytes args)) + 8 * opt_unalign o' < 2 ^ 64"

lemma host_call_offsets:
  fixes t ty args b o' ip iter
  defines "c \<equiv> run_counts t b ty args"
  defines "off \<equiv> \<lambda>x r. (if ip then x * wordSize ty * u64_of_int r else 0)"
  assumes ready: "host_ready o' args b"
  shows "\<exists>base. unat base + unat (max (sendcount c * wordSize ty) (recvcount c * wordSize ty)) < 2 ^ 64 \<and>
    (\<forall>r\<in>{0..<nranks_of args}. rma_call o' t args b ty ip iter r
      = Some \<lparr>call_in_recv = ip, call_send = base, call_sendoffset = off (sendInplace c) r, call_recv = base,
          call_recvoffset = off (recvInplace c) r, call_count = paramcount c, call_impl = 0\<rparr>)"
proof -
  let ?a = "\<lambda>r. setupArgs (getCollByteCount t) b ty (rank_args args r)"
  let ?m = "max (sendcount c * wordSize ty) (recvcount c * wordSize ty)" and ?u = "u64_of_int (opt_unalign o') * wordSize ty"
  note cs = setup_rank_counts [of t b ty args, folded c_def]
  have shift: "coll_shift (?a r) iter = coll_shift (?a 0) iter" for r by (simp add: coll_shift_def Let_def cs)
  have "max (sendBytes (?a 0)) (expectedBytes (?a 0)) \<le> maxbytes (?a 0)"
    using setupArgs_bytes(2,4) [of t b ty "rank_args args 0"] ready by (simp add: host_ready_def word_le_nat_alt max_def)
  from coll_shift_room [OF this, of iter] obtain sh where sh: "coll_shift (?a 0) iter = Some sh"
    and room: "unat sh + unat ?m \<le> unat (maxbytes args)"
    by (auto simp: cs)
  have u: "unat ?u \<le> 8 * nat (opt_unalign o')" "unat (maxbytes args) + 8 * nat (opt_unalign o') < 2 ^ 64"
    using ready unalign_bytes(1) [of o' "maxbytes args" ty] unalign_bytes(2) [of o' "maxbytes args"] by (simp_all add: host_ready_def)
  have b: "unat (?u + sh) = unat ?u + unat sh" using room u by (intro unat_add_small) simp
  have fits: "unat (?u + sh) + unat ?m < 2 ^ 64" using b room u by linarith
  have "rma_call o' t args b ty ip iter r
      = Some \<lparr>call_in_recv = ip, call_send = ?u + sh, call_sendoffset = off (sendInplace c) r, call_recv = ?u + sh,
          call_recvoffset = off (recvInplace c) r, call_count = paramcount c, call_impl = 0\<rparr>"
    if "r \<in> {0..<nranks_of args}" for r
    using ready that unfolding rma_call_def start_call_def shift [of r] sh Let_def cs off_def time_test_misalign_def
    by (simp add: host_ready_def rank_args(1))
  with fits show ?thesis by blast
qed

section \<open>All rounds\<close>

lemma rounds_of_groups:
  "rounds_of [] (concat (map (hyper_group r R B c) ms)) = map (hyper_group r R B c) ms"
  by (induction ms) (simp_all add: hyper_group_def Let_def)

lemma hyper_rounds:
  fixes R :: u64 and v :: "int \<Rightarrow> nat \<Rightarrow> 'v"
  assumes fits: "(2::int) ^ k < 2 ^ 31" "uint R + 2 ^ k * (uint c * uint ws) < 2 ^ 64" and ws: "0 < unat ws"
    and prog: "\<And>r. r \<in> {0..<2 ^ k} \<Longrightarrow> rounds_of [] (prog r) = map (\<lambda>i. hyper_group r R (c * ws) c (2 ^ i)) [0..<k]"
    and start: "holds_blocks (unat R) (unat ws) (unat c) k 0 v mem"
  shows "j \<le> k \<Longrightarrow> holds_blocks (unat R) (unat ws) (unat c) k j v
    (foldl (\<lambda>m i. run_copies (p2p_copies (unat ws) (2 ^ k) (\<lambda>r. rounds_of [] (prog r) ! i)) m) mem [0..<j])"
proof (induction j)
  case (Suc j)
  then have j: "j < k" by simp
  have cj: "unat (c * u64_of_int (2 ^ j)) = unat c * 2 ^ j"
  proof -
    have p: "(2::int) ^ j \<le> 2 ^ k" using j by simp
    have "1 \<le> int (unat ws)" using ws by linarith
    then have "1 \<le> uint ws" by (simp only: uint_nat)
    then have "uint c * 1 \<le> uint c * uint ws" by (intro mult_left_mono) simp_all
    then have "uint c * 2 ^ j \<le> (uint c * uint ws) * 2 ^ k" using p by (intro mult_mono) simp_all
    then have "uint c * 2 ^ j \<le> 2 ^ k * (uint c * uint ws)" by (simp only: mult.commute)
    then have lt: "uint c * 2 ^ j < 2 ^ 64" using fits(2) uint_ge_0 [of R] by linarith
    have u: "uint (u64_of_int (2 ^ j)) = 2 ^ j" unfolding uint_word_of_int
      using order_le_less_trans [OF p fits(1)] by (intro mod_pos_pos_trivial) simp_all
    have "uint (c * u64_of_int (2 ^ j)) = uint c * 2 ^ j" using lt by (subst uint_mult_fits) (simp_all only: u)
    then have "int (unat (c * u64_of_int (2 ^ j))) = int (unat c * 2 ^ j)" by (simp only: uint_nat of_nat_mult of_nat_power of_nat_numeral)
    then show ?thesis by (simp only: of_nat_eq_iff)
  qed
  have addr: "unat (R + u64_of_int ((b div 2 ^ j XOR 1) * 2 ^ j) * (c * ws)) + unat ws * i
      = unat R + unat ws * (nat ((b div 2 ^ j XOR 1) * 2 ^ j) * unat c + i)" if "b \<in> {0..<2 ^ k}" for b i
  proof -
    have p: "b XOR 2 ^ j \<in> {0..<2 ^ k}" by (rule partner_range [OF that j])
    let ?m = "(b XOR 2 ^ j) div 2 ^ j * 2 ^ j"
    have "0 \<le> ?m" using p by (simp add: pos_imp_zdiv_nonneg_iff)
    moreover have "?m \<le> b XOR 2 ^ j"
      using div_mult_mod_eq [of "b XOR 2 ^ j" "2 ^ j"] pos_mod_sign [of "2 ^ j" "b XOR 2 ^ j", OF zero_less_power] by linarith
    ultimately have "0 \<le> ?m" "?m \<le> b XOR 2 ^ j" by blast+
    then have "0 \<le> ?m \<and> ?m < 2 ^ k" using p by simp
    then have "unat (R + u64_of_int ?m * (c * ws)) = unat R + unat ws * (nat ?m * unat c)"
      using fits by (intro block_addr [where n = "2 ^ k"]) simp
    then show ?thesis unfolding partner_block by (simp only: add_mult_distrib2 add.assoc)
  qed
  let ?ps = "p2p_copies (unat ws) (2 ^ k) (\<lambda>r. rounds_of [] (prog r) ! j)"
  have grp: "rounds_of [] (prog r) ! j = hyper_group r R (c * ws) c (2 ^ j)" if "r \<in> {0..<2 ^ k}" for r
    using prog [OF that] j by simp
  have "set ?ps = {((b, True, unat (R + u64_of_int ((b div 2 ^ j XOR 1) * 2 ^ j) * (c * ws)) + unat ws * i),
      (b XOR 2 ^ j, True, unat (R + u64_of_int ((b div 2 ^ j XOR 1) * 2 ^ j) * (c * ws)) + unat ws * i))
      | b i. b \<in> {0..<2 ^ k} \<and> i < unat (c * u64_of_int (2 ^ j))}"
    by (rule hyper_round_copies [OF j]) (rule grp)
  also have "\<dots> = {((b, True, unat R + unat ws * (nat ((b div 2 ^ j XOR 1) * 2 ^ j) * unat c + i)),
        (b XOR 2 ^ j, True, unat R + unat ws * (nat ((b div 2 ^ j XOR 1) * 2 ^ j) * unat c + i))) | b i. b \<in> {0..<2 ^ k} \<and> i < unat c * 2 ^ j}"
    unfolding cj
    by (intro equalityI subsetI; elim CollectE exE conjE; intro CollectI exI conjI; (assumption | simp only: addr))
  finally have ps: "set ?ps = {((b, True, unat R + unat ws * (nat ((b div 2 ^ j XOR 1) * 2 ^ j) * unat c + i)),
        (b XOR 2 ^ j, True, unat R + unat ws * (nat ((b div 2 ^ j XOR 1) * 2 ^ j) * unat c + i))) | b i. b \<in> {0..<2 ^ k} \<and> i < unat c * 2 ^ j}" .
  from hyper_round [OF j ws ps Suc.IH] j show ?case by simp
qed (simp add: start)

text \<open>The program of every rank of a hypercube run.\<close>

definition hyper_env :: "options \<Rightarrow> threadArgs \<Rightarrow> int \<Rightarrow> coll_env" where
  "hyper_env o' args r = \<lparr>env_version = 23100, env_nctx = opt_rmaCtxCount o', env_nranks = nranks_of args, env_rank = r\<rparr>"

definition hyper_call :: "options \<Rightarrow> threadArgs \<Rightarrow> u64 \<Rightarrow> elt_type \<Rightarrow> bool \<Rightarrow> int \<Rightarrow> int \<Rightarrow> coll_call" where
  "hyper_call o' args bytes ty ip iter r = the (rma_call o' HyperCubeTest args bytes ty ip iter r)"

definition hyper_prog :: "options \<Rightarrow> threadArgs \<Rightarrow> u64 \<Rightarrow> elt_type \<Rightarrow> bool \<Rightarrow> int \<Rightarrow> int \<Rightarrow> nccl_op list" where
  "hyper_prog o' args bytes ty ip iter r =
     fst (runColl HyperCubeTest (hyper_env o' args r) (hyper_call o' args bytes ty ip iter r) ty NcclSum (-1))"

lemma hyper_program:
  assumes "hyper_call o' args b ty ip iter r = \<lparr>call_in_recv = ip, call_send = R, call_sendoffset = (if ip then q * wordSize ty * u64_of_int r else 0),
      call_recv = R, call_recvoffset = 0, call_count = q, call_impl = 0\<rparr>"
    and n: "nranks_of args = 2 ^ k"
  shows "hyper_prog o' args b ty ip iter r =
      (if ip then [] else [CopyOp (True, R + u64_of_int r * (q * wordSize ty)) (False, R) (q * wordSize ty)])
      @ concat (map (hyper_group r R (q * wordSize ty) q) (map (\<lambda>i. 2 ^ i) [0..<k]))"
  using hyper_masks_pow [of 0 k] n
  by (simp add: hyper_prog_def assms(1) HyperCubeRunColl_def Let_def send_ptr_def recv_ptr_def hyper_env_def mult.commute mult.left_commute del: hyper_masks.simps)

lemma hyper_program_rounds:
  "rounds_of [] ((if ip then [] else [CopyOp d s l]) @ concat (map (hyper_group r R B c) ms)) = map (hyper_group r R B c) ms"
  by (simp add: rounds_of_groups)

lemma hyper_program_copies:
  "concat (map (local_copies ws r) ((if ip then [] else [CopyOp d s l]) @ concat (map (hyper_group r R B c) ms)))
    = (if ip then [] else map (\<lambda>i. ((r, fst d, unat (snd d) + unat ws * i), (r, fst s, unat (snd s) + unat ws * i))) [0..<unat (l div ws)])"
  by (induction ms) (simp_all add: hyper_group_def Let_def)

lemma hyper_local:
  fixes mem :: "cell \<Rightarrow> 'v" and base ws :: nat
  assumes ps: "set ps = (if ip then {} else {((r, True, base + ws * (nat r * C + i)), (r, False, S r + ws * i)) | r i. r \<in> {0..<2 ^ k} \<and> i < C})"
    and ws: "0 < ws" and own: "\<And>r. ip \<Longrightarrow> r \<in> {0..<2 ^ k} \<Longrightarrow> S r = base + ws * (nat r * C)"
  shows "holds_blocks base ws C k 0 (\<lambda>x i. mem (x, ip, S x + ws * i)) (run_copies ps mem)"
proof (cases ip)
  case True
  with ps own show ?thesis by (simp add: holds_blocks_def run_copies_def add_mult_distrib2 add.assoc)
next
  case False
  have inj: "nat r * C + i = nat r * C + i' \<longleftrightarrow> i = i'" for r i i' by simp
  have run: "((d, s) \<in> set ps \<longrightarrow> run_copies ps mem d = mem s) \<and> (d \<notin> fst ` set ps \<longrightarrow> run_copies ps mem d = mem d)" for d s
    using ps ws False by (intro run_copies_apply) auto
  have "run_copies ps mem (r, True, base + ws * (nat r * C + i)) = mem (r, False, S r + ws * i)" if "r \<in> {0..<2 ^ k}" "i < C" for r i
    by (rule run [THEN conjunct1, rule_format]) (use ps that False in auto)
  with False show ?thesis by (simp add: holds_blocks_def)
qed

text \<open>C27: the hypercube all-gather. With a power of two of ranks every rank has one round for every bit; a round's
  receives are matched by sends of the same length, and at the end the receive buffer of every rank holds the blocks
  of all ranks in order, which is what \<open>CheckData\<close> expects, in place and out of place.\<close>

theorem hypercube_gathers:
  fixes ip :: bool and iter :: int
  assumes ready: "host_ready o' args b" and n: "nranks_of args = 2 ^ k"
    and a: "a = setupArgs (getCollByteCount HyperCubeTest) b ty args"
  defines "call \<equiv> hyper_call o' args b ty ip iter" and "prog \<equiv> hyper_prog o' args b ty ip iter"
  shows "(\<forall>r\<in>{0..<2 ^ k}. rma_call o' HyperCubeTest args b ty ip iter r = Some (call r) \<and> length (rounds_of [] (prog r)) = k)
    \<and> coll_result HyperCubeTest ty red (2 ^ k) rt (uint (sendBytes a div wordSize ty)) (uint (expectedBytes a div wordSize ty))
        (\<lambda>r j. mem (r, ip, unat (snd (send_ptr (call r))) + unat (wordSize ty) * nat j)) before
        (\<lambda>r j. run_p2p (wordSize ty) (2 ^ k) k prog mem (r, True, unat (snd (recv_ptr (call r))) + unat (wordSize ty) * nat j))"
proof -
  let ?c = "run_counts HyperCubeTest b ty args" and ?w = "wordSize ty"
  let ?q = "sendcount ?c" and ?R = "{0..<2 ^ k :: int}"
  have wf: "wf_args args" using ready by (simp add: host_ready_def)
  have cs: "recvcount ?c = ?q * u64_of_int (nranks_of args)" "sendInplace ?c = ?q" "recvInplace ?c = 0" "paramcount ?c = ?q"
    by (simp_all only: getCollByteCount.simps HyperCubeGetCollByteCount_def Let_def coll_counts.simps)
  have R: "{0..<nranks_of args} = ?R" by (simp only: n)
  have "\<exists>base. unat base + unat (max (?q * ?w) (?q * u64_of_int (nranks_of args) * ?w)) < 2 ^ 64
    \<and> (\<forall>r\<in>?R. rma_call o' HyperCubeTest args b ty ip iter r = Some \<lparr>call_in_recv = ip, call_send = base,
      call_sendoffset = (if ip then ?q * ?w * u64_of_int r else 0), call_recv = base, call_recvoffset = 0, call_count = ?q, call_impl = 0\<rparr>)"
    using host_call_offsets [OF ready, of HyperCubeTest ty ip iter] unfolding cs mult_zero_left if_cancel R .
  then obtain base where room: "unat base + unat (max (?q * ?w) (?q * u64_of_int (nranks_of args) * ?w)) < 2 ^ 64"
    and calls: "\<And>r. r \<in> ?R \<Longrightarrow> rma_call o' HyperCubeTest args b ty ip iter r = Some \<lparr>call_in_recv = ip, call_send = base,
      call_sendoffset = (if ip then ?q * ?w * u64_of_int r else 0), call_recv = base, call_recvoffset = 0, call_count = ?q, call_impl = 0\<rparr>"
    by blast
  have call: "call r = \<lparr>call_in_recv = ip, call_send = base, call_sendoffset = (if ip then ?q * ?w * u64_of_int r else 0),
      call_recv = base, call_recvoffset = 0, call_count = ?q, call_impl = 0\<rparr>" if "r \<in> ?R" for r
    using calls [OF that] by (simp add: call_def hyper_call_def)
  have prog: "prog r = (if ip then [] else [CopyOp (True, base + u64_of_int r * (?q * ?w)) (False, base) (?q * ?w)])
      @ concat (map (hyper_group r base (?q * ?w) ?q) (map (\<lambda>i. 2 ^ i) [0..<k]))" if "r \<in> ?R" for r
    unfolding prog_def by (rule hyper_program [OF call [OF that, unfolded call_def] n])
  have k31: "(2::int) ^ k < 2 ^ 31" using wf by (simp add: wf_args_def n)
  have fits: "uint base + 2 ^ k * (uint ?q * uint ?w) < 2 ^ 64"
  proof -
    have N: "unat (u64_of_int (nranks_of args)) = nat (2 ^ k)" using nranks_word(1) [OF wf] by (simp only: n)
    have "unat (?q * u64_of_int (nranks_of args) * ?w) = unat ?q * nat (2 ^ k) * unat ?w"
      using base_count_traffic(2) [of "u64_of_int (nranks_of args)" args b ty] unfolding N
      by (simp only: getCollByteCount.simps HyperCubeGetCollByteCount_def Let_def coll_counts.simps order.refl simp_thms)
    then have "unat base + unat ?q * nat (2 ^ k) * unat ?w < 2 ^ 64" using room by (simp add: max_def word_le_nat_alt split: if_splits)
    then have "int (unat base + unat ?q * nat (2 ^ k) * unat ?w) < int (2 ^ 64)" by (simp only: of_nat_less_iff)
    then show ?thesis by (simp only: of_nat_add of_nat_mult uint_nat [symmetric] int_nat_eq) (simp add: mult.commute mult.left_commute)
  qed
  have addr: "unat (base + u64_of_int r * (?q * ?w)) = unat base + unat ?w * (nat r * unat ?q)" if "r \<in> ?R" for r
    using that k31 fits by (intro block_addr [where n = "2 ^ k"]) auto
  let ?S = "\<lambda>r. unat (snd (send_ptr (call r)))" and ?C = "unat ?q"
  have own: "?S r = unat base + unat ?w * (nat r * ?C)" if ip "r \<in> ?R" for r
    using addr [OF that(2)] that(1) by (simp add: send_ptr_def call [OF that(2)] mult.commute mult.left_commute)
  have other: "?S r = unat base" if "\<not> ip" "r \<in> ?R" for r
    using that(1) by (simp add: send_ptr_def call [OF that(2)])
  have recv: "unat (snd (recv_ptr (call r))) = unat base" if "r \<in> ?R" for r
    by (simp add: recv_ptr_def call [OF that])
  have qw: "?q * ?w div ?w = ?q" using setup_counts(2) [of HyperCubeTest b ty args] unfolding setup_counts(1) .
  have local: "set (concat (map (local_copies ?w r) (prog r))) = (if ip then {} else
      {((r, True, unat base + unat ?w * (nat r * ?C + i)), (r, False, ?S r + unat ?w * i)) | i. i < ?C})" if "r \<in> ?R" for r
    unfolding prog [OF that] hyper_program_copies using addr [OF that] other [OF _ that] qw
    by (auto simp: add_mult_distrib2 add.assoc)
  let ?ps = "concat (map (\<lambda>r. concat (map (local_copies ?w r) (prog r))) [0..2 ^ k - 1])"
  have "set ?ps = (\<Union>r\<in>?R. set (concat (map (local_copies ?w r) (prog r))))"
    by (simp only: set_concat set_map image_image set_upto) (simp add: atLeastLessThanPlusOne_atLeastAtMost_int [symmetric])
  also have "\<dots> = (if ip then {} else {((r, True, unat base + unat ?w * (nat r * ?C + i)), (r, False, ?S r + unat ?w * i))
      | r i. r \<in> ?R \<and> i < ?C})"
    by (subst SUP_cong [OF refl local]) auto
  finally have ps: "set ?ps = \<dots>" .
  have start: "holds_blocks (unat base) (unat ?w) ?C k 0 (\<lambda>x i. mem (x, ip, ?S x + unat ?w * i)) (run_copies ?ps mem)"
    by (rule hyper_local [OF ps wordSize_pos own])
  have rounds: "rounds_of [] (prog r) = map (\<lambda>i. hyper_group r base (?q * ?w) ?q (2 ^ i)) [0..<k]" if "r \<in> ?R" for r
    unfolding prog [OF that] hyper_program_rounds by simp
  note all = hyper_rounds [OF k31 fits wordSize_pos rounds start order.refl, folded run_p2p_def]
  have C: "uint ?q = int ?C" "sendBytes a div ?w = ?q" unfolding a setup_counts(1) by (simp, rule qw)
  have "run_p2p ?w (2 ^ k) k prog mem (r, True, unat (snd (recv_ptr (call r))) + unat ?w * nat (j * int ?C + i))
      = mem (j, ip, ?S j + unat ?w * nat i)" if "r \<in> ?R" "j \<in> ?R" "i \<in> {0..<int ?C}" for r j i
  proof -
    have "nat (j * int ?C + i) = nat j * ?C + nat i" using that by (intro block_index_nat) auto
    moreover have "j div 2 ^ k = r div 2 ^ k" using that by simp
    moreover have "nat i < ?C" using that(3) by (simp add: nat_less_iff)
    ultimately show ?thesis
      using all that(1,2) unfolding recv [OF that(1)] holds_blocks_def by metis
  qed
  then have "coll_result HyperCubeTest ty red (2 ^ k) rt (uint (sendBytes a div ?w)) (uint (expectedBytes a div ?w))
        (\<lambda>r j. mem (r, ip, ?S r + unat ?w * nat j)) before
        (\<lambda>r j. run_p2p ?w (2 ^ k) k prog mem (r, True, unat (snd (recv_ptr (call r))) + unat ?w * nat j))"
    unfolding coll_result.simps C by blast
  moreover have "rma_call o' HyperCubeTest args b ty ip iter r = Some (call r) \<and> length (rounds_of [] (prog r)) = k" if "r \<in> ?R" for r
    using calls [OF that] call [OF that] rounds [OF that] by simp
  ultimately show ?thesis by blast
qed

theorem hypercube_gathers_witness:
  "\<exists>send_at recv_at. coll_result HyperCubeTest NcclInt8 ReduceNil 4 0 1024 4096
     (\<lambda>r j. of_nat (send_at r + nat j)) (\<lambda>r j. 0)
     (\<lambda>r j. run_p2p 1 4 2 (hyper_prog default_options example_args 4096 NcclInt8 False 0) (\<lambda>(r, b, i). of_nat i) (r, True, recv_at r + nat j))"
proof -
  have h: "host_ready default_options example_args 4096" "nranks_of example_args = 2 ^ 2"
    by (simp_all add: host_ready_def default_options_def) (simp add: example_args_def nranks_of_def)
  have c: "uint (sendBytes (setupArgs (getCollByteCount HyperCubeTest) 4096 NcclInt8 example_args) div wordSize NcclInt8) = 1024"
    "uint (expectedBytes (setupArgs (getCollByteCount HyperCubeTest) 4096 NcclInt8 example_args) div wordSize NcclInt8) = 4096"
    by (simp_all add: setupArgs_def count_defs base_count_def h(2))
  from hypercube_gathers [OF h refl, where ty = NcclInt8 and iter = 0 and ip = False and red = ReduceNil and rt = 0
      and mem = "\<lambda>(r, b, i). of_nat i" and before = "\<lambda>r j. 0"]
  show ?thesis
    unfolding c
    by (intro exI [of _ "\<lambda>r. unat (snd (send_ptr (hyper_call default_options example_args 4096 NcclInt8 False 0 r)))"]
      exI [of _ "\<lambda>r. unat (snd (recv_ptr (hyper_call default_options example_args 4096 NcclInt8 False 0 r)))"]) simp
qed

end
