(* ===== verification/HostSync.thy ===== *)
theory HostSync
  imports NcclPrelude
begin

text \<open>
  The rendezvous of the threads of a process: \<open>Barrier\<close>, \<open>Allreduce\<close> and \<open>GatherProcessMaxIterTimes\<close> of
  src/common.cu. The three functions are one protocol on two slots that are used in turn (the epochs):
  a thread takes the lock of its slot, puts in its contribution and counts itself, and waits; the
  last thread of the process waits for the counter to be full, finishes the slot (the call of MPI, the
  division of an average) and resets the counter; the others wait for the counter to be zero. The
  value of the slot is read after the lock has been released. The protocol is a step relation over
  any number of threads and rounds, in which a thread that waits goes on when the counter allows it (the condition variables, which
  make it look at the counter, are in HostWait); what is put into a slot is a parameter, given for each of the
  three functions below.
\<close>

section \<open>The protocol\<close>

text \<open>A thread is outside, waits inside the function, or has left the wait and not yet returned.\<close>

datatype place = Running | Waiting | Leaving

record 'd sync_state =
  counter :: "nat \<Rightarrow> nat"
  slot :: "nat \<Rightarrow> 'd"
  epoch :: "nat \<Rightarrow> nat"
  place_of :: "nat \<Rightarrow> place"
  results :: "nat \<Rightarrow> 'd list"

text \<open>
  \<open>contribute t first d v\<close> is the slot after thread \<open>t\<close> has put in \<open>v\<close>, \<open>first\<close> when the counter was zero.
  \<open>finish k d\<close> is the slot after the last thread has finished round \<open>k\<close>. \<open>vals t k\<close> is what thread \<open>t\<close>
  passes in its \<open>k\<close>-th call; every thread makes \<open>rounds\<close> calls.
\<close>

inductive sync_step :: "nat \<Rightarrow> nat \<Rightarrow> (nat \<Rightarrow> bool \<Rightarrow> 'd \<Rightarrow> 'v \<Rightarrow> 'd) \<Rightarrow> (nat \<Rightarrow> 'd \<Rightarrow> 'd) \<Rightarrow> (nat \<Rightarrow> nat \<Rightarrow> 'v) \<Rightarrow>
    'd sync_state \<Rightarrow> 'd sync_state \<Rightarrow> bool"
  for nThreads :: nat and rounds :: nat and contribute finish vals where
  enter: "t < nThreads \<Longrightarrow> place_of s t = Running \<Longrightarrow> length (results s t) < rounds \<Longrightarrow> e = epoch s t \<Longrightarrow>
    sync_step nThreads rounds contribute finish vals s
      (s\<lparr>slot := (slot s)(e := contribute t (counter s e = 0) (slot s e) (vals t (length (results s t)))),
         counter := (counter s)(e := counter s e + 1), place_of := (place_of s)(t := Waiting)\<rparr>)"
| last: "t < nThreads \<Longrightarrow> place_of s t = Waiting \<Longrightarrow> t + 1 = nThreads \<Longrightarrow> e = epoch s t \<Longrightarrow> counter s e = nThreads \<Longrightarrow>
    sync_step nThreads rounds contribute finish vals s
      (s\<lparr>slot := (slot s)(e := finish (length (results s t)) (slot s e)),
         counter := (counter s)(e := 0), place_of := (place_of s)(t := Leaving)\<rparr>)"
| other: "t < nThreads \<Longrightarrow> place_of s t = Waiting \<Longrightarrow> t + 1 \<noteq> nThreads \<Longrightarrow> counter s (epoch s t) = 0 \<Longrightarrow>
    sync_step nThreads rounds contribute finish vals s (s\<lparr>place_of := (place_of s)(t := Leaving)\<rparr>)"
| leave: "t < nThreads \<Longrightarrow> place_of s t = Leaving \<Longrightarrow> e = epoch s t \<Longrightarrow>
    sync_step nThreads rounds contribute finish vals s
      (s\<lparr>results := (results s)(t := results s t @ [slot s e]), epoch := (epoch s)(t := 1 - e),
         place_of := (place_of s)(t := Running)\<rparr>)"

inductive_cases sync_stepE: "sync_step nThreads rounds contribute finish vals s s'"

definition sync_init :: "'d sync_state \<Rightarrow> bool" where
  "sync_init s \<longleftrightarrow> (\<forall>e. counter s e = 0) \<and> (\<forall>t. epoch s t = 0 \<and> place_of s t = Running \<and> results s t = [])"

abbreviation sync_reach where
  "sync_reach nThreads rounds contribute finish vals s s' \<equiv> (sync_step nThreads rounds contribute finish vals)\<^sup>*\<^sup>* s s'"

text \<open>At most one rule applies to a thread: the relation as a function of the thread that is scheduled.\<close>

definition sync_next :: "nat \<Rightarrow> nat \<Rightarrow> (nat \<Rightarrow> bool \<Rightarrow> 'd \<Rightarrow> 'v \<Rightarrow> 'd) \<Rightarrow> (nat \<Rightarrow> 'd \<Rightarrow> 'd) \<Rightarrow> (nat \<Rightarrow> nat \<Rightarrow> 'v) \<Rightarrow> nat \<Rightarrow>
    'd sync_state \<Rightarrow> 'd sync_state option" where
  "sync_next nThreads rounds contribute finish vals t s =
     (let e = epoch s t; k = length (results s t)
      in if \<not> t < nThreads then None
         else case place_of s t of
           Running \<Rightarrow> if k < rounds
             then Some (s\<lparr>slot := (slot s)(e := contribute t (counter s e = 0) (slot s e) (vals t k)),
                          counter := (counter s)(e := counter s e + 1), place_of := (place_of s)(t := Waiting)\<rparr>)
             else None
         | Waiting \<Rightarrow> if t + 1 = nThreads
             then if counter s e = nThreads
                  then Some (s\<lparr>slot := (slot s)(e := finish k (slot s e)), counter := (counter s)(e := 0),
                               place_of := (place_of s)(t := Leaving)\<rparr>)
                  else None
             else if counter s e = 0 then Some (s\<lparr>place_of := (place_of s)(t := Leaving)\<rparr>) else None
         | Leaving \<Rightarrow> Some (s\<lparr>results := (results s)(t := results s t @ [slot s e]), epoch := (epoch s)(t := 1 - e),
                            place_of := (place_of s)(t := Running)\<rparr>))"

fun sync_run :: "nat \<Rightarrow> nat \<Rightarrow> (nat \<Rightarrow> bool \<Rightarrow> 'd \<Rightarrow> 'v \<Rightarrow> 'd) \<Rightarrow> (nat \<Rightarrow> 'd \<Rightarrow> 'd) \<Rightarrow> (nat \<Rightarrow> nat \<Rightarrow> 'v) \<Rightarrow> nat list \<Rightarrow>
    'd sync_state \<Rightarrow> 'd sync_state option" where
  "sync_run nThreads rounds contribute finish vals [] s = Some s"
| "sync_run nThreads rounds contribute finish vals (t # ts) s =
     Option.bind (sync_next nThreads rounds contribute finish vals t s) (sync_run nThreads rounds contribute finish vals ts)"

lemma sync_step_iff:
  "sync_step nThreads rounds contribute finish vals s s' \<longleftrightarrow> (\<exists>t. sync_next nThreads rounds contribute finish vals t s = Some s')"
proof
  assume "sync_step nThreads rounds contribute finish vals s s'"
  then show "\<exists>t. sync_next nThreads rounds contribute finish vals t s = Some s'"
  proof cases
    case (enter t e)
    then show ?thesis by (intro exI [of _ t]) (simp add: sync_next_def Let_def)
  next
    case (last t e)
    then show ?thesis by (intro exI [of _ t]) (simp add: sync_next_def Let_def)
  next
    case (other t)
    then show ?thesis by (intro exI [of _ t]) (simp add: sync_next_def Let_def)
  next
    case (leave t e)
    then show ?thesis by (intro exI [of _ t]) (simp add: sync_next_def Let_def)
  qed
next
  assume "\<exists>t. sync_next nThreads rounds contribute finish vals t s = Some s'"
  then obtain t where t: "sync_next nThreads rounds contribute finish vals t s = Some s'" by blast
  then have lt: "t < nThreads" by (simp add: sync_next_def Let_def split: if_splits)
  show "sync_step nThreads rounds contribute finish vals s s'"
  proof (cases "place_of s t")
    case Running
    with t lt sync_step.enter [OF lt Running _ refl, where rounds = rounds and contribute = contribute and finish = finish and vals = vals]
    show ?thesis by (auto simp: sync_next_def Let_def split: if_splits)
  next
    case Waiting
    with t lt sync_step.other [OF lt Waiting, where rounds = rounds and contribute = contribute and finish = finish and vals = vals]
      sync_step.last [OF lt Waiting _ refl, where rounds = rounds and contribute = contribute and finish = finish and vals = vals]
    show ?thesis by (auto simp: sync_next_def Let_def split: if_splits)
  next
    case Leaving
    with t lt sync_step.leave [OF lt Leaving refl, where rounds = rounds and contribute = contribute and finish = finish and vals = vals]
    show ?thesis by (auto simp: sync_next_def Let_def)
  qed
qed

lemma sync_run_reach: "sync_run nThreads rounds contribute finish vals ts s = Some s' \<Longrightarrow> sync_reach nThreads rounds contribute finish vals s s'"
proof (induction ts arbitrary: s)
  case (Cons t ts)
  then obtain s1 where "sync_next nThreads rounds contribute finish vals t s = Some s1" "sync_run nThreads rounds contribute finish vals ts s1 = Some s'"
    by (auto simp: bind_eq_Some_conv)
  with Cons.IH show ?case by (meson converse_rtranclp_into_rtranclp sync_step_iff)
qed simp

section \<open>The contributions of a round\<close>

fun collect :: "(nat \<Rightarrow> bool \<Rightarrow> 'd \<Rightarrow> 'v \<Rightarrow> 'd) \<Rightarrow> (nat \<Rightarrow> 'v) \<Rightarrow> nat list \<Rightarrow> 'd \<Rightarrow> 'd" where
  "collect contribute v [] d = d"
| "collect contribute v (t # ts) d = foldl (\<lambda>d t. contribute t False d (v t)) (contribute t True d (v t)) ts"

lemma collect_snoc: "collect contribute v (ts @ [t]) d = contribute t (ts = []) (collect contribute v ts d) (v t)"
  by (cases ts) simp_all

text \<open>The slot of round \<open>m\<close> while threads come in; \<open>order\<close> is the order of their arrival.\<close>

definition gathering :: "nat \<Rightarrow> (nat \<Rightarrow> bool \<Rightarrow> 'd \<Rightarrow> 'v \<Rightarrow> 'd) \<Rightarrow> (nat \<Rightarrow> nat \<Rightarrow> 'v) \<Rightarrow> nat \<Rightarrow> 'd sync_state \<Rightarrow> bool" where
  "gathering nThreads contribute vals m s \<longleftrightarrow>
     (\<exists>order d. distinct order \<and> set order = {t. t < nThreads \<and> length (results s t) = m \<and> place_of s t = Waiting}
        \<and> counter s (m mod 2) = length order \<and> slot s (m mod 2) = collect contribute (\<lambda>t. vals t m) order d)"

text \<open>A value that some order of all threads gives.\<close>

definition complete :: "nat \<Rightarrow> (nat \<Rightarrow> bool \<Rightarrow> 'd \<Rightarrow> 'v \<Rightarrow> 'd) \<Rightarrow> (nat \<Rightarrow> 'd \<Rightarrow> 'd) \<Rightarrow> (nat \<Rightarrow> nat \<Rightarrow> 'v) \<Rightarrow> nat \<Rightarrow> 'd \<Rightarrow> bool" where
  "complete nThreads contribute finish vals m x \<longleftrightarrow>
     (\<exists>order d. distinct order \<and> set order = {0..<nThreads} \<and> x = finish m (collect contribute (\<lambda>t. vals t m) order d))"

section \<open>The invariant\<close>

text \<open>In round \<open>m\<close> the threads come in (\<open>released\<close> false), or the slot is finished and they leave; those that
  have left may already have come into the next round.\<close>

definition coming_in :: "nat \<Rightarrow> (nat \<Rightarrow> bool \<Rightarrow> 'd \<Rightarrow> 'v \<Rightarrow> 'd) \<Rightarrow> (nat \<Rightarrow> nat \<Rightarrow> 'v) \<Rightarrow> nat \<Rightarrow> 'd sync_state \<Rightarrow> bool" where
  "coming_in nThreads contribute vals m s \<longleftrightarrow>
     (\<forall>t<nThreads. length (results s t) = m \<and> place_of s t \<noteq> Leaving)
     \<and> gathering nThreads contribute vals m s \<and> counter s (Suc m mod 2) = 0"

definition going_out :: "nat \<Rightarrow> (nat \<Rightarrow> bool \<Rightarrow> 'd \<Rightarrow> 'v \<Rightarrow> 'd) \<Rightarrow> (nat \<Rightarrow> nat \<Rightarrow> 'v) \<Rightarrow> (nat \<Rightarrow> 'd) \<Rightarrow> nat \<Rightarrow> 'd sync_state \<Rightarrow> bool" where
  "going_out nThreads contribute vals res m s \<longleftrightarrow>
     (\<forall>t<nThreads. length (results s t) = m \<and> place_of s t \<noteq> Running \<and> (place_of s t = Waiting \<longrightarrow> Suc t \<noteq> nThreads)
        \<or> length (results s t) = Suc m \<and> place_of s t \<noteq> Leaving)
     \<and> (\<exists>t<nThreads. length (results s t) = m)
     \<and> counter s (m mod 2) = 0 \<and> slot s (m mod 2) = res m \<and> gathering nThreads contribute vals (Suc m) s"

definition history :: "nat \<Rightarrow> (nat \<Rightarrow> bool \<Rightarrow> 'd \<Rightarrow> 'v \<Rightarrow> 'd) \<Rightarrow> (nat \<Rightarrow> 'd \<Rightarrow> 'd) \<Rightarrow> (nat \<Rightarrow> nat \<Rightarrow> 'v) \<Rightarrow> (nat \<Rightarrow> 'd) \<Rightarrow> nat \<Rightarrow> 'd sync_state \<Rightarrow> bool" where
  "history nThreads contribute finish vals res n s \<longleftrightarrow>
     (\<forall>t<nThreads. epoch s t = length (results s t) mod 2 \<and> length (results s t) \<le> n \<and> (\<forall>k<length (results s t). results s t ! k = res k))
     \<and> (\<forall>k<n. complete nThreads contribute finish vals k (res k))"

definition sync_inv :: "nat \<Rightarrow> (nat \<Rightarrow> bool \<Rightarrow> 'd \<Rightarrow> 'v \<Rightarrow> 'd) \<Rightarrow> (nat \<Rightarrow> 'd \<Rightarrow> 'd) \<Rightarrow> (nat \<Rightarrow> nat \<Rightarrow> 'v) \<Rightarrow> 'd sync_state \<Rightarrow> bool" where
  "sync_inv nThreads contribute finish vals s \<longleftrightarrow>
     (\<exists>res m. coming_in nThreads contribute vals m s \<and> history nThreads contribute finish vals res m s
        \<or> going_out nThreads contribute vals res m s \<and> history nThreads contribute finish vals res (Suc m) s)"

lemma parity [simp]: "Suc m mod 2 \<noteq> m mod 2" "m mod 2 \<noteq> Suc m mod 2" "Suc (Suc m) mod 2 = m mod 2" "Suc 0 - m mod 2 = Suc m mod 2"
  by presburger+

lemma gathering_enter:
  assumes "gathering n contribute vals m s" and "t < n" "place_of s t = Running" "length (results s t) = m"
  shows "gathering n contribute vals m (s\<lparr>slot := (slot s)(m mod 2 := contribute t (counter s (m mod 2) = 0) (slot s (m mod 2)) (vals t m)),
      counter := (counter s)(m mod 2 := counter s (m mod 2) + 1), place_of := (place_of s)(t := Waiting)\<rparr>)"
proof -
  from assms(1) obtain order d where o: "distinct order" "set order = {t. t < n \<and> length (results s t) = m \<and> place_of s t = Waiting}"
    "counter s (m mod 2) = length order" "slot s (m mod 2) = collect contribute (\<lambda>t. vals t m) order d"
    unfolding gathering_def by blast
  have "distinct (order @ [t])" "set (order @ [t]) = {u. u < n \<and> length (results s u) = m \<and> ((place_of s)(t := Waiting)) u = Waiting}"
    using o(1,2) assms(2-4) by auto
  with o(3,4) show ?thesis
    unfolding gathering_def by (intro exI [of _ "order @ [t]"] exI [of _ d]) (simp add: collect_snoc)
qed

lemma gathering_cong:
  assumes "gathering n contribute vals m s" "counter s' (m mod 2) = counter s (m mod 2)" "slot s' (m mod 2) = slot s (m mod 2)"
    and "\<And>t. t < n \<Longrightarrow> length (results s' t) = m \<and> place_of s' t = Waiting \<longleftrightarrow> length (results s t) = m \<and> place_of s t = Waiting"
  shows "gathering n contribute vals m s'"
proof -
  have "{t. t < n \<and> length (results s' t) = m \<and> place_of s' t = Waiting} = {t. t < n \<and> length (results s t) = m \<and> place_of s t = Waiting}"
    using assms(4) by blast
  with assms(1-3) show ?thesis unfolding gathering_def by simp
qed

lemma gathering_counter:
  assumes "gathering n contribute vals m s"
  shows "counter s (m mod 2) = card {t. t < n \<and> length (results s t) = m \<and> place_of s t = Waiting}"
  using assms unfolding gathering_def by (metis distinct_card)

lemma gathering_waits:
  assumes "gathering n contribute vals m s" "t < n" "length (results s t) = m" "place_of s t = Waiting"
  shows "0 < counter s (m mod 2)"
proof -
  have "finite {t. t < n \<and> length (results s t) = m \<and> place_of s t = Waiting}" by simp
  with assms show ?thesis by (auto simp: gathering_counter card_gt_0_iff)
qed

lemma gathering_full:
  assumes "gathering n contribute vals m s" "counter s (m mod 2) = n" "t < n"
  shows "length (results s t) = m" "place_of s t = Waiting"
proof -
  let ?A = "{t. t < n \<and> length (results s t) = m \<and> place_of s t = Waiting}"
  have "?A \<subseteq> {0..<n}" "card ?A = card {0..<n}" using gathering_counter [OF assms(1)] assms(2) by auto
  then have "?A = {0..<n}" by (intro card_subset_eq) simp_all
  moreover have "t \<in> {0..<n}" using assms(3) by simp
  ultimately have "t \<in> ?A" by simp
  then show "length (results s t) = m" "place_of s t = Waiting" by simp_all
qed

lemma gathering_empty:
  assumes "counter s (m mod 2) = 0" "\<And>t. t < n \<Longrightarrow> length (results s t) = m \<Longrightarrow> place_of s t \<noteq> Waiting"
  shows "gathering n contribute vals m s"
  unfolding gathering_def using assms by (intro exI [of _ "[]"] exI [of _ "slot s (m mod 2)"]) auto

lemma history_cong:
  assumes "history n contribute finish vals res k s" and "\<And>t. t < n \<Longrightarrow> epoch s' t = epoch s t \<and> results s' t = results s t"
  shows "history n contribute finish vals res k s'"
  using assms unfolding history_def by simp

text \<open>The rules keep the invariant.\<close>

lemma enter_inv:
  fixes s contribute vals t
  defines "s' \<equiv> s\<lparr>slot := (slot s)(epoch s t := contribute t (counter s (epoch s t) = 0) (slot s (epoch s t)) (vals t (length (results s t)))),
      counter := (counter s)(epoch s t := counter s (epoch s t) + 1), place_of := (place_of s)(t := Waiting)\<rparr>"
  assumes inv: "sync_inv n contribute finish vals s" and t: "t < n" "place_of s t = Running"
  shows "sync_inv n contribute finish vals s'"
proof -
  have frame: "results s' = results s" "epoch s' = epoch s" by (simp_all add: s'_def)
  from inv consider res m where "coming_in n contribute vals m s" "history n contribute finish vals res m s"
    | res m where "going_out n contribute vals res m s" "history n contribute finish vals res (Suc m) s"
    unfolding sync_inv_def by blast
  then show ?thesis
  proof cases
    case 1
    have e: "length (results s t) = m" "epoch s t = m mod 2" using 1 t(1) by (auto simp: coming_in_def history_def)
    have "gathering n contribute vals m s'"
      unfolding s'_def e by (rule gathering_enter) (use 1 t e in \<open>auto simp: coming_in_def\<close>)
    moreover have "counter s' (Suc m mod 2) = 0" using 1(1) by (simp add: s'_def e coming_in_def)
    ultimately have "coming_in n contribute vals m s'"
      using 1(1) by (simp add: coming_in_def s'_def)
    with history_cong [OF 1(2), of s'] frame show ?thesis unfolding sync_inv_def by auto
  next
    case 2
    have e: "length (results s t) = Suc m" using 2(1) t by (auto simp: going_out_def)
    then have e': "epoch s t = Suc m mod 2" using 2(2) t(1) by (auto simp: history_def)
    have "gathering n contribute vals (Suc m) s'"
      unfolding s'_def e e' by (rule gathering_enter) (use 2 t e in \<open>auto simp: going_out_def\<close>)
    moreover have "counter s' (m mod 2) = 0" "slot s' (m mod 2) = res m" using 2(1) by (simp_all add: s'_def e' going_out_def)
    ultimately have "going_out n contribute vals res m s'"
      using 2(1) e by (auto simp: going_out_def s'_def)
    with history_cong [OF 2(2), of s'] frame show ?thesis unfolding sync_inv_def by auto
  qed
qed

lemma last_inv:
  fixes s finish t
  defines "s' \<equiv> s\<lparr>slot := (slot s)(epoch s t := finish (length (results s t)) (slot s (epoch s t))),
      counter := (counter s)(epoch s t := 0), place_of := (place_of s)(t := Leaving)\<rparr>"
  assumes inv: "sync_inv n contribute finish vals s" and t: "t < n" "place_of s t = Waiting" "Suc t = n" "counter s (epoch s t) = n"
  shows "sync_inv n contribute finish vals s'"
proof -
  have frame: "results s' = results s" "epoch s' = epoch s" by (simp_all add: s'_def)
  from inv consider res m where "coming_in n contribute vals m s" "history n contribute finish vals res m s"
    | res m where "going_out n contribute vals res m s" "history n contribute finish vals res (Suc m) s"
    unfolding sync_inv_def by blast
  then show ?thesis
  proof cases
    case 1
    have e: "length (results s t) = m" "epoch s t = m mod 2" using 1 t(1) by (auto simp: coming_in_def history_def)
    have g: "gathering n contribute vals m s" using 1(1) by (simp add: coming_in_def)
    from gathering_full [OF g] t(4) e(2) have all: "\<And>u. u < n \<Longrightarrow> length (results s u) = m \<and> place_of s u = Waiting" by simp
    from g obtain order d where o: "distinct order" "set order = {u. u < n \<and> length (results s u) = m \<and> place_of s u = Waiting}"
      "slot s (m mod 2) = collect contribute (\<lambda>t. vals t m) order d"
      unfolding gathering_def by blast
    have "set order = {u. u < n}" unfolding o(2) by (rule Collect_cong) (metis all)
    then have "set order = {0..<n}" by (simp only: atLeast0LessThan lessThan_def)
    with o have c: "complete n contribute finish vals m (finish m (slot s (m mod 2)))"
      unfolding complete_def by (intro exI [of _ order] exI [of _ d]) simp
    let ?res = "res(m := finish m (slot s (m mod 2)))"
    have "history n contribute finish vals ?res (Suc m) s"
    proof -
      have "epoch s u = length (results s u) mod 2 \<and> length (results s u) \<le> Suc m \<and>
          (\<forall>k<length (results s u). results s u ! k = ?res k)" if "u < n" for u
      proof -
        have "epoch s u = length (results s u) mod 2" "\<forall>k<length (results s u). results s u ! k = res k"
          using 1(2) that by (auto simp: history_def)
        with all [OF that] show ?thesis by simp
      qed
      moreover have "complete n contribute finish vals k (?res k)" if "k < Suc m" for k
        using that c 1(2) by (cases "k = m") (simp_all add: history_def)
      ultimately show ?thesis unfolding history_def by blast
    qed
    then have h: "history n contribute finish vals ?res (Suc m) s'" by (rule history_cong) (simp add: frame)
    have "gathering n contribute vals (Suc m) s'"
      by (rule gathering_empty) (use 1(1) all in \<open>auto simp: s'_def e coming_in_def\<close>)
    moreover have "length (results s' u) = m \<and> place_of s' u \<noteq> Running \<and> (place_of s' u = Waiting \<longrightarrow> Suc u \<noteq> n)" if "u < n" for u
      using all [OF that] t(3) by (auto simp: s'_def)
    moreover have "counter s' (m mod 2) = 0" "slot s' (m mod 2) = ?res m" by (simp_all add: s'_def e)
    ultimately have "going_out n contribute vals ?res m s'" using t(1) unfolding going_out_def by blast
    with h show ?thesis unfolding sync_inv_def by blast
  next
    case 2
    have e: "length (results s t) = Suc m" using 2(1) t by (auto simp: going_out_def)
    then have "epoch s t = Suc m mod 2" using 2(2) t(1) by (auto simp: history_def)
    then have full: "counter s (Suc m mod 2) = n" using t(4) by simp
    have g: "gathering n contribute vals (Suc m) s" using 2(1) by (simp add: going_out_def)
    obtain u where u: "u < n" "length (results s u) = m" using 2(1) unfolding going_out_def by blast
    with gathering_full(1) [OF g full u(1)] show ?thesis by simp
  qed
qed

lemma other_inv:
  assumes inv: "sync_inv n contribute finish vals s" and t: "t < n" "place_of s t = Waiting" "Suc t \<noteq> n" "counter s (epoch s t) = 0"
  shows "sync_inv n contribute finish vals (s\<lparr>place_of := (place_of s)(t := Leaving)\<rparr>)" (is "sync_inv _ _ _ _ ?s'")
proof -
  from inv consider res m where "coming_in n contribute vals m s" "history n contribute finish vals res m s"
    | res m where "going_out n contribute vals res m s" "history n contribute finish vals res (Suc m) s"
    unfolding sync_inv_def by blast
  then show ?thesis
  proof cases
    case 1
    then have "length (results s t) = m" "epoch s t = m mod 2" using t(1) by (auto simp: coming_in_def history_def)
    with gathering_waits [of n contribute vals m s t] 1(1) t show ?thesis by (simp add: coming_in_def)
  next
    case 2
    have "length (results s t) \<noteq> Suc m"
    proof
      assume e: "length (results s t) = Suc m"
      then have "epoch s t = Suc m mod 2" using 2(2) t(1) by (auto simp: history_def)
      with gathering_waits [of n contribute vals "Suc m" s t] e 2(1) t show False by (simp add: going_out_def)
    qed
    then have e: "length (results s t) = m" using 2(1) t by (auto simp: going_out_def)
    have "gathering n contribute vals (Suc m) ?s'"
      by (rule gathering_cong [of n contribute vals "Suc m" s]) (use 2(1) e in \<open>auto simp: going_out_def\<close>)
    then have "going_out n contribute vals res m ?s'" using 2(1) e t by (auto simp: going_out_def)
    with history_cong [OF 2(2), of ?s'] show ?thesis unfolding sync_inv_def by auto
  qed
qed

lemma leave_inv:
  fixes s t
  defines "s' \<equiv> s\<lparr>results := (results s)(t := results s t @ [slot s (epoch s t)]), epoch := (epoch s)(t := 1 - epoch s t),
         place_of := (place_of s)(t := Running)\<rparr>"
  assumes inv: "sync_inv n contribute finish vals s" and t: "t < n" "place_of s t = Leaving"
  shows "sync_inv n contribute finish vals s'"
proof -
  from inv obtain res m where g: "going_out n contribute vals res m s" and h: "history n contribute finish vals res (Suc m) s"
    using t unfolding sync_inv_def coming_in_def by blast
  have e: "length (results s t) = m" using g t by (auto simp: going_out_def)
  then have e': "epoch s t = m mod 2" using h t(1) by (auto simp: history_def)
  have s: "slot s (m mod 2) = res m" using g by (simp add: going_out_def)
  have h': "history n contribute finish vals res (Suc m) s'"
    using h e s by (auto simp: history_def s'_def e' nth_append less_Suc_eq)
  have ga: "gathering n contribute vals (Suc m) s'"
    by (rule gathering_cong [of n contribute vals "Suc m" s]) (use g e t in \<open>auto simp: going_out_def s'_def\<close>)
  show ?thesis
  proof (cases "\<exists>u<n. length (results s' u) = m")
    case True
    then have "going_out n contribute vals res m s'" using g e ga by (auto simp: going_out_def s'_def)
    with h' show ?thesis unfolding sync_inv_def by blast
  next
    case False
    have all: "length (results s u) = Suc m \<and> place_of s u \<noteq> Leaving" if "u < n" "u \<noteq> t" for u
    proof -
      have "length (results s u) \<noteq> m" using False that by (auto simp: s'_def)
      with g that show ?thesis unfolding going_out_def by blast
    qed
    have "length (results s' u) = Suc m \<and> place_of s' u \<noteq> Leaving" if "u < n" for u
      using all [OF that] e by (simp add: s'_def)
    moreover have "counter s' (Suc (Suc m) mod 2) = 0" using g by (simp add: s'_def going_out_def)
    ultimately have "coming_in n contribute vals (Suc m) s'" using ga by (simp add: coming_in_def)
    with h' show ?thesis unfolding sync_inv_def by blast
  qed
qed

lemma sync_step_inv:
  assumes "sync_step n rounds contribute finish vals s s'" "sync_inv n contribute finish vals s"
  shows "sync_inv n contribute finish vals s'"
  using assms(1)
proof cases
  case (enter t e)
  with enter_inv [OF assms(2), of t] show ?thesis by simp
next
  case (last t e)
  with last_inv [OF assms(2), of t] show ?thesis by simp
next
  case (other t)
  with other_inv [OF assms(2), of t] show ?thesis by simp
next
  case (leave t e)
  with leave_inv [OF assms(2), of t] show ?thesis by simp
qed

lemma sync_init_inv: "0 < n \<Longrightarrow> sync_init s \<Longrightarrow> sync_inv n contribute finish vals s"
  unfolding sync_inv_def sync_init_def coming_in_def history_def
  by (intro exI [of _ undefined] exI [of _ 0] disjI1) (auto intro: gathering_empty)

lemma sync_reach_inv:
  assumes "sync_reach n rounds contribute finish vals s s'" "0 < n" "sync_init s"
  shows "sync_inv n contribute finish vals s'"
  using assms(1) by (induction rule: rtranclp_induct) (auto intro: sync_init_inv assms sync_step_inv)

section \<open>Two threads, one call\<close>

definition example_init :: "'d \<Rightarrow> 'd sync_state" where
  "example_init d = \<lparr>counter = \<lambda>_. 0, slot = \<lambda>_. d, epoch = \<lambda>_. 0, place_of = \<lambda>_. Running, results = \<lambda>_. []\<rparr>"

lemma example_init [simp]: "sync_init (example_init d)"
  by (simp add: sync_init_def example_init_def)

text \<open>Thread 1 is the last to come in, and the first to return.\<close>

definition example_slot :: "(nat \<Rightarrow> bool \<Rightarrow> 'd \<Rightarrow> 'v \<Rightarrow> 'd) \<Rightarrow> (nat \<Rightarrow> 'd \<Rightarrow> 'd) \<Rightarrow> (nat \<Rightarrow> nat \<Rightarrow> 'v) \<Rightarrow> 'd \<Rightarrow> 'd" where
  "example_slot contribute finish vals d =
     finish 0 (contribute 1 False (contribute 0 True d (vals 0 0)) (vals 1 0))"

lemma example_run:
  "\<exists>s'. sync_reach 2 1 contribute finish vals (example_init d) s' \<and> results s' 1 = [example_slot contribute finish vals d]
    \<and> results s' 0 = [] \<and> place_of s' 0 = Leaving"
proof -
  have "\<exists>s'. sync_run 2 1 contribute finish vals [0, 1, 1, 0, 1] (example_init d) = Some s' \<and> results s' 1 = [example_slot contribute finish vals d]
      \<and> results s' 0 = [] \<and> place_of s' 0 = Leaving"
    by (simp add: sync_next_def example_init_def example_slot_def)
  then show ?thesis using sync_run_reach by blast
qed

section \<open>What every run satisfies\<close>

text \<open>C29: a round is a rendezvous: a thread returns from its \<open>k\<close>-th call only after every thread has entered its
  own \<open>k\<close>-th call, in every interleaving of any number of threads and rounds.\<close>

theorem sync_separates:
  assumes "0 < nThreads" and "sync_init s" and "sync_reach nThreads rounds contribute finish vals s s'"
    and "t < nThreads" and "k < length (results s' t)" and "u < nThreads"
  shows "k < length (results s' u) \<or> k = length (results s' u) \<and> place_of s' u \<noteq> Running"
proof -
  from sync_reach_inv [OF assms(3,1,2)] consider m where "coming_in nThreads contribute vals m s'"
    | res m where "going_out nThreads contribute vals res m s'" unfolding sync_inv_def by blast
  then show ?thesis
  proof cases
    case 1
    then have "length (results s' u) = m" "length (results s' t) = m" using assms(4,6) by (simp_all add: coming_in_def)
    with assms(5) show ?thesis by simp
  next
    case 2
    then have "length (results s' t) \<le> Suc m" "length (results s' u) = Suc m \<or> length (results s' u) = m \<and> place_of s' u \<noteq> Running"
      using assms(4,6) unfolding going_out_def by (metis le_Suc_eq order_refl)+
    with assms(5) show ?thesis by auto
  qed
qed

theorem sync_separates_witness:
  "\<exists>s'. sync_reach 2 1 (\<lambda>t first d v. ()) (\<lambda>k d. ()) (\<lambda>t k. ()) (example_init ()) s' \<and> length (results s' 1) = 1 \<and> place_of s' 0 \<noteq> Running"
proof -
  obtain s' where s': "sync_reach 2 1 (\<lambda>t first d v. ()) (\<lambda>k d. ()) (\<lambda>t k. ()) (example_init ()) s'" "length (results s' 1) = 1" "results s' 0 = []"
    using example_run [of "\<lambda>t first d v. ()" "\<lambda>k d. ()" "\<lambda>t k. ()" "()"] by auto
  have "place_of s' 0 \<noteq> Running"
  proof -
    have "0 < length (results s' 1)" using s'(2) by (simp only: zero_less_one)
    from sync_separates [OF _ example_init s'(1) _ this, of 0] s'(3) show ?thesis by simp
  qed
  with s' show ?thesis by blast
qed

text \<open>The value that is read after the lock has been released is not disturbed by the threads that are already
  in a later call: in every interleaving all threads get the same value from their \<open>k\<close>-th call, and
  that value is the one the contributions of all threads to this round give, each once, in some order.\<close>

theorem sync_agreement:
  assumes "0 < nThreads" and "sync_init s" and "sync_reach nThreads rounds contribute finish vals s s'"
  shows "\<exists>res. \<forall>t<nThreads. \<forall>k<length (results s' t). results s' t ! k = res k
    \<and> (\<exists>order d. distinct order \<and> set order = {0..<nThreads} \<and> res k = finish k (collect contribute (\<lambda>t. vals t k) order d))"
proof -
  from sync_reach_inv [OF assms(3,1,2)] obtain res n where h: "history nThreads contribute finish vals res n s'"
    unfolding sync_inv_def by blast
  show ?thesis
  proof (intro exI [of _ res] allI impI)
    fix t k assume "t < nThreads" "k < length (results s' t)"
    with h have "results s' t ! k = res k" "complete nThreads contribute finish vals k (res k)"
      by (auto simp: history_def)
    then show "results s' t ! k = res k \<and>
      (\<exists>order d. distinct order \<and> set order = {0..<nThreads} \<and> res k = finish k (collect contribute (\<lambda>t. vals t k) order d))"
      by (simp add: complete_def)
  qed
qed

theorem sync_agreement_witness:
  "\<exists>s' :: nat sync_state. length (results s' 1) = 1
    \<and> (\<exists>order d. set order = {0..<2} \<and> results s' 1 ! 0 = collect (\<lambda>t first d v. if first then v else d + v) (\<lambda>t. t + 5) order d)"
proof -
  let ?c = "\<lambda>(t::nat) first (d::nat) v. if first then v else d + v"
  obtain s' where s': "sync_reach 2 1 ?c (\<lambda>k d. d) (\<lambda>t k. t + 5) (example_init 0) s'" "length (results s' 1) = 1"
    using example_run [of ?c "\<lambda>k d. d" "\<lambda>t k. t + 5" 0] by auto
  from sync_agreement [OF _ _ s'(1)] obtain res where
    "\<forall>t<2. \<forall>k<length (results s' t). results s' t ! k = res k
      \<and> (\<exists>order d. distinct order \<and> set order = {0..<2} \<and> res k = collect ?c (\<lambda>t. t + 5) order d)"
    by auto
  moreover have l: "0 < length (results s' 1)" using s'(2) by (simp only: zero_less_one)
  moreover have "(1::nat) < 2" by simp
  ultimately have "results s' 1 ! 0 = res 0 \<and> (\<exists>order d. distinct order \<and> set order = {0..<2} \<and> res 0 = collect ?c (\<lambda>t. t + 5) order d)"
    by blast
  with s'(2) show ?thesis by (intro exI [of _ s']) auto
qed

text \<open>How much a run has left to do, in steps.\<close>

definition place_steps :: "place \<Rightarrow> nat" where
  "place_steps p = (case p of Running \<Rightarrow> 0 | Waiting \<Rightarrow> 1 | Leaving \<Rightarrow> 2)"

definition sync_work :: "nat \<Rightarrow> nat \<Rightarrow> 'd sync_state \<Rightarrow> nat" where
  "sync_work nThreads rounds s = (\<Sum>t<nThreads. 3 * (rounds - length (results s t)) - place_steps (place_of s t))"

definition bounded :: "nat \<Rightarrow> nat \<Rightarrow> 'd sync_state \<Rightarrow> bool" where
  "bounded nThreads rounds s \<longleftrightarrow>
     (\<forall>t<nThreads. length (results s t) \<le> rounds \<and> (place_of s t \<noteq> Running \<longrightarrow> length (results s t) < rounds))"

lemma sync_step_bounded:
  assumes "sync_step n rounds contribute finish vals s s'" "bounded n rounds s"
  shows "bounded n rounds s'"
  using assms by cases (auto simp: bounded_def Suc_le_eq)

lemma sync_reach_bounded:
  assumes "sync_reach n rounds contribute finish vals s s'" "sync_init s"
  shows "bounded n rounds s'"
  using assms(1)
proof (induction rule: rtranclp_induct)
  case base
  show ?case using assms(2) by (simp add: bounded_def sync_init_def)
qed (rule sync_step_bounded)

lemma sum_less_at:
  assumes "t < (n::nat)" "\<And>u. u \<noteq> t \<Longrightarrow> f u = g u" "f t < (g t :: nat)"
  shows "(\<Sum>u<n. f u) < (\<Sum>u<n. g u)"
proof -
  have "f u \<le> g u" for u using assms(2) [of u] assms(3) by (cases "u = t") simp_all
  then show ?thesis using assms(1,3) by (intro sum_strict_mono_ex1) auto
qed

lemma sync_step_work:
  assumes "sync_step n rounds contribute finish vals s s'" "bounded n rounds s"
  shows "sync_work n rounds s' < sync_work n rounds s"
  using assms(1)
proof cases
  case (enter t e)
  then show ?thesis unfolding sync_work_def by (intro sum_less_at [of t]) (auto simp: place_steps_def)
next
  case (last t e)
  with assms(2) have "length (results s t) < rounds" by (simp add: bounded_def)
  with last show ?thesis unfolding sync_work_def by (intro sum_less_at [of t]) (auto simp: place_steps_def)
next
  case (other t)
  with assms(2) have "length (results s t) < rounds" by (simp add: bounded_def)
  with other show ?thesis unfolding sync_work_def by (intro sum_less_at [of t]) (auto simp: place_steps_def)
next
  case (leave t e)
  with assms(2) have "length (results s t) < rounds" by (simp add: bounded_def)
  with leave show ?thesis unfolding sync_work_def by (intro sum_less_at [of t]) (auto simp: place_steps_def)
qed

lemma sync_progress:
  assumes inv: "sync_inv n contribute finish vals s" and "0 < n" and b: "bounded n rounds s"
    and stuck: "\<And>s'. \<not> sync_step n rounds contribute finish vals s s'" and t: "t < n"
  shows "length (results s t) = rounds \<and> place_of s t = Running"
proof -
  have run: "length (results s u) = rounds" if "u < n" "place_of s u = Running" for u
    using b that stuck sync_step.enter [OF that, of rounds] by (force simp: bounded_def)
  have nl: "place_of s u \<noteq> Leaving" if "u < n" for u using that stuck sync_step.leave by metis
  from inv consider res m where "coming_in n contribute vals m s" "history n contribute finish vals res m s"
    | res m where "going_out n contribute vals res m s" "history n contribute finish vals res (Suc m) s"
    unfolding sync_inv_def by blast
  then show ?thesis
  proof cases
    case 1
    have all: "length (results s u) = m" "epoch s u = m mod 2" if "u < n" for u
      using 1 that by (auto simp: coming_in_def history_def)
    have g: "gathering n contribute vals m s" using 1(1) by (simp add: coming_in_def)
    show ?thesis
    proof (cases "\<exists>u<n. place_of s u = Running")
      case True
      then have "rounds = m" using run all by auto
      moreover have "place_of s t = Running" using b t all [OF t] \<open>rounds = m\<close> unfolding bounded_def by auto
      ultimately show ?thesis using all [OF t] by simp
    next
      case False
      then have w: "place_of s u = Waiting" if "u < n" for u using nl [OF that] that by (metis place.exhaust)
      have "{u. u < n \<and> length (results s u) = m \<and> place_of s u = Waiting} = {u. u < n}"
        by (rule Collect_cong) (metis all(1) w)
      then have c: "counter s (m mod 2) = n" using gathering_counter [OF g] by simp
      obtain u where u: "Suc u = n" using \<open>0 < n\<close> by (metis Suc_pred)
      then have "u < n" by simp
      with sync_step.last [OF \<open>u < n\<close> w] u c all(2) stuck show ?thesis by (metis Suc_eq_plus1)
    qed
  next
    case 2
    then obtain u where u: "u < n" "length (results s u) = m" unfolding going_out_def by blast
    with 2(1) nl [OF u(1)] have w: "place_of s u = Waiting" "Suc u \<noteq> n" unfolding going_out_def by (metis n_not_Suc_n place.exhaust)+
    have "epoch s u = m mod 2" using 2(2) u by (auto simp: history_def)
    then have "counter s (epoch s u) = 0" using 2(1) by (simp add: going_out_def)
    with sync_step.other [OF u(1) w(1)] w(2) stuck show ?thesis by (metis Suc_eq_plus1)
  qed
qed

text \<open>After any steps, every further step reduces the work that is left, and when no step is possible every thread has returned from
  all its calls. What becomes of threads that sleep is shown in HostWait.\<close>

lemma guards_complete:
  assumes "0 < nThreads" and "sync_init s" and "sync_reach nThreads rounds contribute finish vals s s'"
  shows "sync_work nThreads rounds s' \<le> 3 * nThreads * rounds
    \<and> (\<forall>s''. sync_step nThreads rounds contribute finish vals s' s'' \<longrightarrow> sync_work nThreads rounds s'' < sync_work nThreads rounds s')
    \<and> ((\<nexists>s''. sync_step nThreads rounds contribute finish vals s' s'') \<longrightarrow>
        (\<forall>t<nThreads. length (results s' t) = rounds \<and> place_of s' t = Running))"
proof (intro conjI impI allI)
  note b = sync_reach_bounded [OF assms(3,2)]
  have "sync_work nThreads rounds s' \<le> (\<Sum>t<nThreads. 3 * rounds)"
    unfolding sync_work_def by (rule sum_mono) simp
  then show "sync_work nThreads rounds s' \<le> 3 * nThreads * rounds" by (simp add: ac_simps)
  show "sync_work nThreads rounds s'' < sync_work nThreads rounds s'" if "sync_step nThreads rounds contribute finish vals s' s''" for s''
    by (rule sync_step_work [OF that b])
  show "length (results s' t) = rounds" "place_of s' t = Running"
    if "\<nexists>s''. sync_step nThreads rounds contribute finish vals s' s''" "t < nThreads" for t
    using sync_progress [OF sync_reach_inv [OF assms(3,1,2)] assms(1) b _ that(2)] that(1) by blast+
qed

section \<open>The three functions\<close>

subsection \<open>Barrier\<close>

definition barrier_contribute :: "nat \<Rightarrow> bool \<Rightarrow> unit \<Rightarrow> unit \<Rightarrow> unit" where
  "barrier_contribute t first d v = ()"

definition barrier_finish :: "nat \<Rightarrow> unit \<Rightarrow> unit" where
  "barrier_finish k d = ()"

subsection \<open>Allreduce\<close>

text \<open>The template is instantiated with the addition, minimum, maximum and division of its type.\<close>

record 'a arith =
  ar_plus :: "'a \<Rightarrow> 'a \<Rightarrow> 'a"
  ar_min :: "'a \<Rightarrow> 'a \<Rightarrow> 'a"
  ar_max :: "'a \<Rightarrow> 'a \<Rightarrow> 'a"
  ar_div :: "'a \<Rightarrow> int \<Rightarrow> 'a"

definition allreduce_contribute :: "'a arith \<Rightarrow> int \<Rightarrow> nat \<Rightarrow> bool \<Rightarrow> 'a \<Rightarrow> 'a \<Rightarrow> 'a" where
  "allreduce_contribute ar average thread first acc v =
     (if first then (if average \<noteq> 0 \<or> thread = 0 then v else acc)
      else if average = 0 then (if thread = 0 then v else acc)
      else if average = 1 then ar_plus ar acc v
      else if average = 2 then ar_min ar acc v
      else if average = 3 then ar_max ar acc v
      else if average = 4 then ar_plus ar acc v
      else acc)"

text \<open>\<open>across k\<close> is the reduction over the processes of round \<open>k\<close> (\<open>MPI_Allreduce\<close>; the identity without MPI).\<close>

definition allreduce_finish :: "'a arith \<Rightarrow> int \<Rightarrow> int \<Rightarrow> int \<Rightarrow> (nat \<Rightarrow> 'a \<Rightarrow> 'a) \<Rightarrow> nat \<Rightarrow> 'a \<Rightarrow> 'a" where
  "allreduce_finish ar average totalProcs nThreads across k acc =
     (let acc = (if average \<noteq> 0 then across k acc else acc)
      in if average = 1 then ar_div ar acc (totalProcs * nThreads) else acc)"

text \<open>\<open>long long\<close>: a \<^typ>\<open>u64\<close> read as signed.\<close>

definition long_long :: "u64 arith" where
  "long_long = \<lparr>ar_plus = (+), ar_min = (\<lambda>a b. if sint b < sint a then b else a),
     ar_max = (\<lambda>a b. if sint a < sint b then b else a), ar_div = (\<lambda>a n. word_of_int (sint a sdiv n))\<rparr>"

subsection \<open>GatherProcessMaxIterTimes\<close>

text \<open>The first \<open>nIters\<close> entries of the buffers; times are of any linear order.\<close>

definition gather_contribute :: "nat \<Rightarrow> nat \<Rightarrow> bool \<Rightarrow> 'a::linorder list \<Rightarrow> (nat \<Rightarrow> 'a) \<Rightarrow> 'a list" where
  "gather_contribute nIters thread first sendBuf localTimes =
     map (\<lambda>i. if first then localTimes i else max (sendBuf ! i) (localTimes i)) [0..<nIters]"

text \<open>The result for the threads is the row of the process; MPI gathers the rows and does not change it.\<close>

definition gather_finish :: "nat \<Rightarrow> 'a list \<Rightarrow> 'a list" where
  "gather_finish k sendBuf = sendBuf"

definition ReduceProcessMaxIterTimes :: "'a::linorder list \<Rightarrow> nat \<Rightarrow> nat \<Rightarrow> 'a list" where
  "ReduceProcessMaxIterTimes allProcessTimes nProcs nIters =
     map (\<lambda>i. foldl (\<lambda>m p. max m (allProcessTimes ! (p * nIters + i))) (allProcessTimes ! i) [1..<nProcs]) [0..<nIters]"

section \<open>Contributions whose order does not matter\<close>

text \<open>The contract of a slot whose value is a function of the contributions alone.\<close>

locale order_free =
  fixes contribute :: "nat \<Rightarrow> bool \<Rightarrow> 'd \<Rightarrow> 'v \<Rightarrow> 'd"
    and total :: "nat \<Rightarrow> (nat \<Rightarrow> 'v) \<Rightarrow> 'd"
  assumes collect_total: "0 < n \<Longrightarrow> distinct order \<Longrightarrow> set order = {0..<n} \<Longrightarrow> collect contribute v order d = total n v"
begin

lemma results_total:
  assumes "0 < n" "sync_init s" "sync_reach n rounds contribute finish vals s s'" "t < n" "k < length (results s' t)"
  shows "results s' t ! k = finish k (total n (\<lambda>t. vals t k))"
proof -
  from sync_reach_inv [OF assms(3,1,2)] obtain res m where h: "history n contribute finish vals res m s'"
    unfolding sync_inv_def by blast
  with assms(4,5) have "results s' t ! k = res k" "complete n contribute finish vals k (res k)" by (auto simp: history_def)
  then show ?thesis unfolding complete_def using collect_total [OF assms(1)] by metis
qed

end

interpretation barrier: order_free barrier_contribute "\<lambda>n v. ()"
  by unfold_locales simp

text \<open>Threads other than the first of an order combine into the slot one by one.\<close>

lemma collect_fold:
  assumes "order \<noteq> []" "\<And>t acc. contribute t False acc (v t) = f acc (v t)" "\<And>t d. contribute t True d (v t) = v t"
  shows "collect contribute v order d = foldl f (v (hd order)) (map v (tl order))"
proof -
  obtain t ts where "order = t # ts" using assms(1) by (cases order) auto
  moreover have "foldl (\<lambda>d t. contribute t False d (v t)) x ts = foldl f x (map v ts)" for x ts
    by (induction ts arbitrary: x) (simp_all add: assms(2))
  ultimately show ?thesis by (simp add: assms(3))
qed

lemma order_nonempty: "0 < (n::nat) \<Longrightarrow> set order = {0..<n} \<Longrightarrow> order \<noteq> []"
  by (metis atLeastLessThan_empty_iff2 empty_set)

lemma foldl_plus_sum: "foldl (+) x xs = x + sum_list (xs :: 'a::comm_monoid_add list)"
  by (induction xs arbitrary: x) (simp_all add: add.assoc)

lemma sum_order:
  fixes n :: nat
  assumes "0 < n" "distinct order" "set order = {0..<n}"
  shows "foldl (+) (v (hd order)) (map v (tl order)) = (\<Sum>t<n. v t :: 'a::comm_monoid_add)"
proof -
  obtain t ts where o: "order = t # ts" using order_nonempty [OF assms(1,3)] by (cases order) auto
  have "foldl (+) (v (hd order)) (map v (tl order)) = sum_list (map v order)" by (simp add: o foldl_plus_sum)
  also have "\<dots> = sum v (set order)" using assms(2) by (rule sum_list_distinct_conv_sum_set)
  finally show ?thesis by (simp only: assms(3) atLeast0LessThan)
qed

interpretation ll_sum: order_free "allreduce_contribute long_long 4" "\<lambda>n v. \<Sum>t<n. v t"
proof
  fix n :: nat and order :: "nat list" and v :: "nat \<Rightarrow> u64" and d :: u64
  assume a: "0 < n" "distinct order" "set order = {0..<n}"
  from collect_fold [OF order_nonempty [OF a(1,3)], of "allreduce_contribute long_long 4" v "(+)"]
  show "collect (allreduce_contribute long_long 4) v order d = (\<Sum>t<n. v t)"
    by (simp add: allreduce_contribute_def long_long_def sum_order [OF a])
qed

text \<open>The value of thread 0, whenever it arrives.\<close>

lemma collect_thread0:
  assumes "distinct order" "0 \<in> set order"
  shows "collect (allreduce_contribute ar 0) v order d = v 0"
  using assms
proof (induction order rule: rev_induct)
  case (snoc t ts)
  show ?case
  proof (cases "t = 0")
    case True
    then show ?thesis by (simp add: collect_snoc allreduce_contribute_def)
  next
    case False
    with snoc have "ts \<noteq> []" and IH: "collect (allreduce_contribute ar 0) v ts d = v 0" by auto
    have "collect (allreduce_contribute ar 0) v (ts @ [t]) d = allreduce_contribute ar 0 t (ts = []) (v 0) (v t)"
      by (simp only: collect_snoc IH)
    also have "\<dots> = v 0" using False \<open>ts \<noteq> []\<close> by (simp add: allreduce_contribute_def)
    finally show ?thesis .
  qed
qed simp

interpretation from_thread0: order_free "allreduce_contribute ar 0" "\<lambda>n v. v 0" for ar :: "'a arith"
  by unfold_locales (rule collect_thread0, simp_all)

text \<open>Minimum and maximum: an operation that picks one of its arguments, by a total order of their keys.\<close>

lemma foldl_pick:
  assumes "\<And>a b. f a b = (if le (key b) (key a) then b else a)" and "\<And>x y. le x y \<or> le y x" "\<And>x y z. le x y \<Longrightarrow> le y z \<Longrightarrow> le x z"
  shows "foldl f a xs \<in> set (a # xs) \<and> (\<forall>x\<in>set (a # xs). le (key (foldl f a xs)) (key x))"
proof (induction xs rule: rev_induct)
  case Nil
  show ?case using assms(2) by simp blast
next
  case (snoc x xs)
  let ?y = "foldl f a xs"
  have y: "?y \<in> set (a # xs)" "\<And>z. z \<in> set (a # xs) \<Longrightarrow> le (key ?y) (key z)" using snoc by blast+
  have e: "foldl f a (xs @ [x]) = (if le (key x) (key ?y) then x else ?y)" by (simp add: assms(1))
  show ?case
  proof (cases "le (key x) (key ?y)")
    case True
    with y(2) assms(2,3) have "le (key x) (key z)" if "z \<in> set (a # xs @ [x])" for z
      using that by (metis Un_iff append_Cons empty_iff list.set(1) set_ConsD set_append)
    with True show ?thesis unfolding e by simp
  next
    case False
    with assms(2) have "le (key ?y) (key x)" by blast
    with y False show ?thesis unfolding e by auto
  qed
qed

lemma pick_order:
  fixes n :: nat and key :: "'a \<Rightarrow> int"
  assumes "0 < n" "distinct order" "set order = {0..<n}" and f: "\<And>a b. f a b = (if le (key b) (key a) then b else a)"
    and le: "le = (\<le>) \<or> le = (\<ge>)"
  shows "\<exists>t<n. foldl f (v (hd order)) (map v (tl order)) = v t \<and> (\<forall>u<n. le (key (v t)) (key (v u)))"
proof -
  obtain t ts where o: "order = t # ts" using order_nonempty [OF assms(1,3)] by (cases order) auto
  let ?y = "foldl f (v (hd order)) (map v (tl order))"
  have total: "le x y \<or> le y x" "le x y \<Longrightarrow> le y z \<Longrightarrow> le x z" for x y z using le by auto
  have "?y \<in> set (map v order) \<and> (\<forall>x\<in>set (map v order). le (key ?y) (key x))"
    using foldl_pick [where f = f and le = le and key = key and a = "v t" and xs = "map v ts", OF f total] by (simp add: o)
  then have "?y \<in> v ` {0..<n}" "\<forall>u\<in>{0..<n}. le (key ?y) (key (v u))" by (simp_all only: set_map assms(3) ball_simps image_iff) (blast+)?
  then show ?thesis by (metis atLeastLessThan_iff imageE le0)
qed

interpretation gathered: order_free "gather_contribute nIters" "\<lambda>n v. map (\<lambda>i. Max ((\<lambda>t. v t i) ` {0..<n})) [0..<nIters]" for nIters
proof
  fix n :: nat and order :: "nat list" and v :: "nat \<Rightarrow> nat \<Rightarrow> 'a::linorder" and d :: "'a list"
  assume a: "0 < n" "distinct order" "set order = {0..<n}"
  have "collect (gather_contribute nIters) v order d = map (\<lambda>i. Max ((\<lambda>t. v t i) ` set order)) [0..<nIters]"
    using order_nonempty [OF a(1,3)]
  proof (induction order rule: rev_induct)
    case (snoc t ts)
    show ?case
    proof (cases "ts = []")
      case False
      with snoc.IH show ?thesis by (simp add: collect_snoc gather_contribute_def max.commute)
    qed (simp add: gather_contribute_def)
  qed simp
  then show "collect (gather_contribute nIters) v order d = map (\<lambda>i. Max ((\<lambda>t. v t i) ` {0..<n})) [0..<nIters]"
    by (simp only: a(3))
qed

lemma sint_inj: "sint a = sint b \<longleftrightarrow> a = (b :: 'w::len word)"
  by (metis signed_word_eqI)

lemma sint_pick: "(if sint b < sint a then b else a) = (if sint b \<le> sint a then b else (a :: 'w::len word))"
proof (cases "sint b = sint a")
  case True
  then have "b = a" by (simp only: sint_inj)
  then show ?thesis by simp
qed (simp add: order_le_less)

lemma pick_value:
  fixes v :: "nat \<Rightarrow> u64"
  assumes "t < n" "\<forall>u<n. sint (v t) \<le> sint (v u)"
  shows "word_of_int (Min ((\<lambda>u. sint (v u)) ` {0..<n})) = v t"
proof -
  have "Min ((\<lambda>u. sint (v u)) ` {0..<n}) = sint (v t)" using assms by (intro Min_eqI) auto
  then show ?thesis by simp
qed

lemma pick_value_max:
  fixes v :: "nat \<Rightarrow> u64"
  assumes "t < n" "\<forall>u<n. sint (v t) \<ge> sint (v u)"
  shows "word_of_int (Max ((\<lambda>u. sint (v u)) ` {0..<n})) = v t"
proof -
  have "Max ((\<lambda>u. sint (v u)) ` {0..<n}) = sint (v t)" using assms by (intro Max_eqI) auto
  then show ?thesis by simp
qed

interpretation ll_avg: order_free "allreduce_contribute long_long 1" "\<lambda>n v. \<Sum>t<n. v t"
proof
  fix n :: nat and order :: "nat list" and v :: "nat \<Rightarrow> u64" and d :: u64
  assume a: "0 < n" "distinct order" "set order = {0..<n}"
  from collect_fold [OF order_nonempty [OF a(1,3)], of "allreduce_contribute long_long 1" v "(+)"]
  show "collect (allreduce_contribute long_long 1) v order d = (\<Sum>t<n. v t)"
    by (simp add: allreduce_contribute_def long_long_def sum_order [OF a])
qed

interpretation ll_min: order_free "allreduce_contribute long_long 2" "\<lambda>n v. word_of_int (Min ((\<lambda>t. sint (v t)) ` {0..<n}))"
proof
  fix n :: nat and order :: "nat list" and v :: "nat \<Rightarrow> u64" and d :: u64
  assume a: "0 < n" "distinct order" "set order = {0..<n}"
  from collect_fold [OF order_nonempty [OF a(1,3)], of "allreduce_contribute long_long 2" v "ar_min long_long"]
  have "collect (allreduce_contribute long_long 2) v order d = foldl (ar_min long_long) (v (hd order)) (map v (tl order))"
    by (simp add: allreduce_contribute_def)
  moreover have "ar_min long_long x y = (if sint y \<le> sint x then y else x)" for x y by (simp add: long_long_def sint_pick)
  ultimately show "collect (allreduce_contribute long_long 2) v order d = word_of_int (Min ((\<lambda>t. sint (v t)) ` {0..<n}))"
    using pick_order [OF a, of "ar_min long_long" "(\<le>)" sint v] pick_value [of _ n v] by auto
qed

interpretation ll_max: order_free "allreduce_contribute long_long 3" "\<lambda>n v. word_of_int (Max ((\<lambda>t. sint (v t)) ` {0..<n}))"
proof
  fix n :: nat and order :: "nat list" and v :: "nat \<Rightarrow> u64" and d :: u64
  assume a: "0 < n" "distinct order" "set order = {0..<n}"
  from collect_fold [OF order_nonempty [OF a(1,3)], of "allreduce_contribute long_long 3" v "ar_max long_long"]
  have "collect (allreduce_contribute long_long 3) v order d = foldl (ar_max long_long) (v (hd order)) (map v (tl order))"
    by (simp add: allreduce_contribute_def)
  moreover have "ar_max long_long x y = (if sint y \<ge> sint x then y else x)" for x y
    by (cases "sint x = sint y") (simp_all add: long_long_def order_le_less sint_inj)
  ultimately show "collect (allreduce_contribute long_long 3) v order d = word_of_int (Max ((\<lambda>t. sint (v t)) ` {0..<n}))"
    using pick_order [OF a, of "ar_max long_long" "(\<ge>)" sint v] pick_value_max [of _ n v] by auto
qed

text \<open>Every thread of a process gets from \<open>Allreduce<long long>\<close>, in every interleaving, thread 0's value, the
  rounded average, the minimum, the maximum or the sum of the values of all threads (with wrap-around),
  taken across the processes when MPI is used; the order of arrival does not matter.\<close>

theorem allreduce_values:
  assumes "0 < nThreads" and "sync_init s"
    and "sync_reach nThreads rounds (allreduce_contribute long_long average)
      (allreduce_finish long_long average totalProcs (int nThreads) across) vals s s'"
    and "t < nThreads" and "k < length (results s' t)" and "average \<in> {0, 1, 2, 3, 4}"
  shows "results s' t ! k =
    (if average = 0 then vals 0 k
     else if average = 1 then ar_div long_long (across k (\<Sum>u<nThreads. vals u k)) (totalProcs * int nThreads)
     else across k (if average = 2 then word_of_int (Min ((\<lambda>u. sint (vals u k)) ` {0..<nThreads}))
       else if average = 3 then word_of_int (Max ((\<lambda>u. sint (vals u k)) ` {0..<nThreads}))
       else \<Sum>u<nThreads. vals u k))"
proof -
  consider "average = 0" | "average = 1" | "average = 2" | "average = 3" | "average = 4" using assms(6) by auto
  then show ?thesis
  proof cases
    case 1
    from from_thread0.results_total [OF assms(1,2) assms(3) [unfolded 1] assms(4,5)] show ?thesis
      by (simp add: 1 allreduce_finish_def)
  next
    case 2
    from ll_avg.results_total [OF assms(1,2) assms(3) [unfolded 2] assms(4,5)] show ?thesis
      by (simp add: 2 allreduce_finish_def)
  next
    case 3
    from ll_min.results_total [OF assms(1,2) assms(3) [unfolded 3] assms(4,5)] show ?thesis
      by (simp add: 3 allreduce_finish_def)
  next
    case 4
    from ll_max.results_total [OF assms(1,2) assms(3) [unfolded 4] assms(4,5)] show ?thesis
      by (simp add: 4 allreduce_finish_def)
  next
    case 5
    from ll_sum.results_total [OF assms(1,2) assms(3) [unfolded 5] assms(4,5)] show ?thesis
      by (simp add: 5 allreduce_finish_def)
  qed
qed

theorem allreduce_values_witness:
  "\<exists>s'. results s' 1 = [12] \<and> sync_reach 2 1 (allreduce_contribute long_long 4) (allreduce_finish long_long 4 1 2 (\<lambda>k x. x))
    (\<lambda>t k. if t = 0 then 5 else 7) (example_init 9) s'"
proof -
  let ?v = "\<lambda>t k. if t = 0 then 5 else 7 :: u64"
  obtain s' x where s': "sync_reach 2 1 (allreduce_contribute long_long 4) (allreduce_finish long_long 4 1 (int 2) (\<lambda>k x. x)) ?v (example_init 9) s'"
    "results s' 1 = [x]"
    using example_run [of "allreduce_contribute long_long 4" "allreduce_finish long_long 4 1 (int 2) (\<lambda>k x. x)" ?v 9] by blast
  have "results s' 1 ! 0 = 12"
    using allreduce_values [OF _ _ s'(1), of 1 0] s'(2) by (simp add: numeral_2_eq_2)
  with s' show ?thesis by auto
qed

lemma concat_rows:
  assumes "\<And>p. p < n \<Longrightarrow> length (f p) = m"
  shows "length (concat (map f [0..<n])) = n * m" "p < n \<Longrightarrow> i < m \<Longrightarrow> concat (map f [0..<n]) ! (p * m + i) = f p ! i"
  using assms
proof (induction n)
  case (Suc n)
  { case 1
    with Suc.IH(1) show ?case by simp
  next
    case 2
    with Suc.IH have IH: "length (concat (map f [0..<n])) = n * m" "p < n \<Longrightarrow> concat (map f [0..<n]) ! (p * m + i) = f p ! i" by simp_all
    show ?case
    proof (cases "p = n")
      case True
      with IH(1) 2 show ?thesis by (simp add: nth_append)
    next
      case False
      then have "p < n" "Suc p * m \<le> n * m" using 2 by (simp, intro mult_le_mono1) simp
      then have "p * m + i < n * m" using 2(2) by simp
      with IH \<open>p < n\<close> show ?thesis by (simp add: nth_append)
    qed }
qed simp_all

lemma foldl_max_upt: "foldl (\<lambda>m p. max m (f p)) (f 0) [1..<n] = Max (f ` {0..<n})" if "0 < n" for f :: "nat \<Rightarrow> 'a::linorder"
  using that
proof (induction n rule: nat_induct_non_zero)
  case (Suc n)
  then show ?case by (simp add: atLeastLessThanSuc max.commute)
qed simp

lemma Max_pairs: "Max ((\<lambda>p. Max (f p ` B)) ` A) = Max ((\<lambda>(p, u). f p u :: 'a::linorder) ` (A \<times> B))"
  if "finite A" "A \<noteq> {}" "finite B" "B \<noteq> {}"
proof (rule sym, rule Max_eqI)
  show "finite ((\<lambda>(p, u). f p u) ` (A \<times> B))" using that by simp
  show "y \<le> Max ((\<lambda>p. Max (f p ` B)) ` A)" if y: "y \<in> (\<lambda>(p, u). f p u) ` (A \<times> B)" for y
  proof -
    from y obtain p u where "p \<in> A" "u \<in> B" "y = f p u" by auto
    then have "y \<le> Max (f p ` B)" "Max (f p ` B) \<in> (\<lambda>p. Max (f p ` B)) ` A" using \<open>finite B\<close> by auto
    moreover have "finite ((\<lambda>p. Max (f p ` B)) ` A)" using \<open>finite A\<close> by (rule finite_imageI)
    ultimately show ?thesis by (blast intro: order_trans Max_ge)
  qed
  have "Max ((\<lambda>p. Max (f p ` B)) ` A) \<in> (\<lambda>p. Max (f p ` B)) ` A" using that by (intro Max_in) auto
  then obtain p where "p \<in> A" "Max ((\<lambda>p. Max (f p ` B)) ` A) = Max (f p ` B)" by auto
  moreover have "Max (f p ` B) \<in> f p ` B" using that by (intro Max_in) auto
  ultimately show "Max ((\<lambda>p. Max (f p ` B)) ` A) \<in> (\<lambda>(p, u). f p u) ` (A \<times> B)" by auto
qed

text \<open>The times of the iterations: the rows of all processes, each the result of \<open>GatherProcessMaxIterTimes\<close> in any
  interleaving of its threads, reduced by \<open>ReduceProcessMaxIterTimes\<close>, are the maxima over all threads
  of all processes.\<close>

theorem iteration_times_max:
  fixes times :: "nat \<Rightarrow> nat \<Rightarrow> nat \<Rightarrow> nat \<Rightarrow> 'a::linorder"
  assumes "0 < nThreads" and "0 < nProcs"
    and "\<And>p. p < nProcs \<Longrightarrow> sync_init (s p)"
    and "\<And>p. p < nProcs \<Longrightarrow> sync_reach nThreads rounds (gather_contribute nIters) gather_finish (times p) (s p) (s' p)"
    and "\<And>p. p < nProcs \<Longrightarrow> t p < nThreads \<and> k < length (results (s' p) (t p))"
  shows "ReduceProcessMaxIterTimes (concat (map (\<lambda>p. results (s' p) (t p) ! k) [0..<nProcs])) nProcs nIters =
    map (\<lambda>i. Max ((\<lambda>(p, u). times p u k i) ` ({0..<nProcs} \<times> {0..<nThreads}))) [0..<nIters]"
proof -
  let ?row = "\<lambda>p. results (s' p) (t p) ! k"
  have row: "?row p = map (\<lambda>i. Max ((\<lambda>u. times p u k i) ` {0..<nThreads})) [0..<nIters]" if "p < nProcs" for p
    using gathered.results_total [OF assms(1) assms(3,4) [OF that], of "t p" k] assms(5) [OF that] by (simp add: gather_finish_def)
  have all: "concat (map ?row [0..<nProcs]) ! (p * nIters + i) = Max ((\<lambda>u. times p u k i) ` {0..<nThreads})"
    if "p < nProcs" "i < nIters" for p i
    using concat_rows(2) [of nProcs ?row nIters p i] row that by simp
  have "foldl (\<lambda>m p. max m (concat (map ?row [0..<nProcs]) ! (p * nIters + i))) (concat (map ?row [0..<nProcs]) ! i) [1..<nProcs]
      = Max ((\<lambda>(p, u). times p u k i) ` ({0..<nProcs} \<times> {0..<nThreads}))" if "i < nIters" for i
  proof -
    have "foldl (\<lambda>m p. max m (concat (map ?row [0..<nProcs]) ! (p * nIters + i))) (concat (map ?row [0..<nProcs]) ! i) [1..<nProcs]
        = Max ((\<lambda>p. concat (map ?row [0..<nProcs]) ! (p * nIters + i)) ` {0..<nProcs})"
      using foldl_max_upt [OF assms(2), of "\<lambda>p. concat (map ?row [0..<nProcs]) ! (p * nIters + i)"] by simp
    also have "\<dots> = Max ((\<lambda>p. Max ((\<lambda>u. times p u k i) ` {0..<nThreads})) ` {0..<nProcs})"
      using all that by (intro arg_cong [where f = Max] image_cong) simp_all
    also have "\<dots> = Max ((\<lambda>(p, u). times p u k i) ` ({0..<nProcs} \<times> {0..<nThreads}))"
      using assms(1,2) by (intro Max_pairs) auto
    finally show ?thesis .
  qed
  then show ?thesis by (simp add: ReduceProcessMaxIterTimes_def)
qed

theorem iteration_times_max_witness:
  "\<exists>s' :: nat \<Rightarrow> nat list sync_state. ReduceProcessMaxIterTimes (concat (map (\<lambda>p. results (s' p) 1 ! 0) [0..<2])) 2 3 = [12, 13, 14 :: nat]"
proof -
  define times :: "nat \<Rightarrow> nat \<Rightarrow> nat \<Rightarrow> nat \<Rightarrow> nat" where "times p u k i = 10 * p + u + i + 1" for p u k i
  have "\<exists>s'. sync_reach 2 1 (gather_contribute 3) gather_finish (times p) (example_init []) s' \<and> length (results s' 1) = 1" for p
    using example_run [of "gather_contribute 3" gather_finish "times p" "[]"] by auto
  then obtain s' where s': "\<And>p. sync_reach 2 1 (gather_contribute 3) gather_finish (times p) (example_init []) (s' p)" "\<And>p. length (results (s' p) 1) = 1"
    by metis
  have "ReduceProcessMaxIterTimes (concat (map (\<lambda>p. results (s' p) 1 ! 0) [0..<2])) 2 3 =
      map (\<lambda>i. Max ((\<lambda>(p, u). times p u 0 i) ` ({0..<2} \<times> {0..<2}))) [0..<3]"
    by (rule iteration_times_max [where s = "\<lambda>p. example_init []" and nThreads = 2 and rounds = 1]) (use s' in simp_all)
  also have "\<dots> = [12, 13, 14]"
    by (simp add: times_def numeral_2_eq_2 numeral_3_eq_3 atLeastLessThanSuc upt_rec insert_Times_insert)
  finally show ?thesis by blast
qed

end
