(* ===== verification/HostWait.thy ===== *)
theory HostWait
  imports HostSync
begin

text \<open>
  The waiting inside \<open>Barrier\<close>, \<open>Allreduce\<close> and \<open>GatherProcessMaxIterTimes\<close> of src/common.cu with the condition variables.
  In the protocol of HostSync a thread goes on as soon as the counter allows it; in the code it tests the counter under the lock and
  goes to sleep in \<open>wait\<close>, and it is \<open>notify_all\<close> of another thread that wakes it. Here a state also says which threads are asleep.
  The steps without the sleeping are those of HostSync, so everything that holds after any steps there holds here too; that no
  thread sleeps for ever is a matter of the two calls of \<open>notify_all\<close>.
\<close>

record 'd wait_state =
  shared :: "'d sync_state"
  asleep :: "nat \<Rightarrow> bool"

text \<open>\<open>cond[e].notify_all()\<close>: every thread that sleeps at slot \<open>e\<close> is woken and tests the counter again.\<close>

definition notify_all :: "nat \<Rightarrow> 'd wait_state \<Rightarrow> 'd wait_state" where
  "notify_all e w = w\<lparr>asleep := \<lambda>u. asleep w u \<and> epoch (shared w) u \<noteq> e\<rparr>"

text \<open>The loop of a thread in the function is over: for the last thread when the counter is full, for the others when it is reset.\<close>

definition ready :: "nat \<Rightarrow> 'd sync_state \<Rightarrow> nat \<Rightarrow> bool" where
  "ready nThreads s t = (if t + 1 = nThreads then counter s (epoch s t) = nThreads else counter s (epoch s t) = 0)"

text \<open>
  Every step but the last is taken under the lock of the slot. A thread comes in, counts itself and wakes the others when the
  counter is full; an awake thread inside goes to sleep when its loop is not over (the test and the falling asleep are one
  step, for \<open>wait\<close> releases the lock only then); the last thread finishes the slot, resets the counter and wakes the others; a thread
  returns.
\<close>

inductive wait_step :: "nat \<Rightarrow> nat \<Rightarrow> (nat \<Rightarrow> bool \<Rightarrow> 'd \<Rightarrow> 'v \<Rightarrow> 'd) \<Rightarrow> (nat \<Rightarrow> 'd \<Rightarrow> 'd) \<Rightarrow> (nat \<Rightarrow> nat \<Rightarrow> 'v) \<Rightarrow>
    'd wait_state \<Rightarrow> 'd wait_state \<Rightarrow> bool"
  for nThreads :: nat and rounds :: nat and contribute finish vals where
  enter: "t < nThreads \<Longrightarrow> s = shared w \<Longrightarrow> place_of s t = Running \<Longrightarrow> length (results s t) < rounds \<Longrightarrow> e = epoch s t \<Longrightarrow>
    s' = s\<lparr>slot := (slot s)(e := contribute t (counter s e = 0) (slot s e) (vals t (length (results s t)))),
           counter := (counter s)(e := counter s e + 1), place_of := (place_of s)(t := Waiting)\<rparr> \<Longrightarrow>
    wait_step nThreads rounds contribute finish vals w
      (if counter s' e = nThreads then notify_all e (w\<lparr>shared := s'\<rparr>) else w\<lparr>shared := s'\<rparr>)"
| sleep: "t < nThreads \<Longrightarrow> place_of (shared w) t = Waiting \<Longrightarrow> \<not> asleep w t \<Longrightarrow> \<not> ready nThreads (shared w) t \<Longrightarrow>
    wait_step nThreads rounds contribute finish vals w (w\<lparr>asleep := (asleep w)(t := True)\<rparr>)"
| last: "t < nThreads \<Longrightarrow> s = shared w \<Longrightarrow> place_of s t = Waiting \<Longrightarrow> \<not> asleep w t \<Longrightarrow> ready nThreads s t \<Longrightarrow> t + 1 = nThreads \<Longrightarrow>
    e = epoch s t \<Longrightarrow>
    s' = s\<lparr>slot := (slot s)(e := finish (length (results s t)) (slot s e)), counter := (counter s)(e := 0),
           place_of := (place_of s)(t := Leaving)\<rparr> \<Longrightarrow>
    wait_step nThreads rounds contribute finish vals w (notify_all e (w\<lparr>shared := s'\<rparr>))"
| other: "t < nThreads \<Longrightarrow> s = shared w \<Longrightarrow> place_of s t = Waiting \<Longrightarrow> \<not> asleep w t \<Longrightarrow> ready nThreads s t \<Longrightarrow> t + 1 \<noteq> nThreads \<Longrightarrow>
    wait_step nThreads rounds contribute finish vals w (w\<lparr>shared := s\<lparr>place_of := (place_of s)(t := Leaving)\<rparr>\<rparr>)"
| leave: "t < nThreads \<Longrightarrow> s = shared w \<Longrightarrow> place_of s t = Leaving \<Longrightarrow> e = epoch s t \<Longrightarrow>
    wait_step nThreads rounds contribute finish vals w
      (w\<lparr>shared := s\<lparr>results := (results s)(t := results s t @ [slot s e]), epoch := (epoch s)(t := 1 - e),
                     place_of := (place_of s)(t := Running)\<rparr>\<rparr>)"

text \<open>\<open>wait\<close> may also return without a notification.\<close>

definition wakes_up :: "'d wait_state \<Rightarrow> 'd wait_state \<Rightarrow> bool" where
  "wakes_up w w' \<longleftrightarrow> (\<exists>t. asleep w t \<and> w' = w\<lparr>asleep := (asleep w)(t := False)\<rparr>)"

abbreviation wait_reach where
  "wait_reach nThreads rounds contribute finish vals w w' \<equiv>
     (\<lambda>w w'. wait_step nThreads rounds contribute finish vals w w' \<or> wakes_up w w')\<^sup>*\<^sup>* w w'"

definition all_awake :: "'d sync_state \<Rightarrow> 'd wait_state" where
  "all_awake s = \<lparr>shared = s, asleep = \<lambda>t. False\<rparr>"

section \<open>Who sleeps has to wait\<close>

definition sleeps_well :: "nat \<Rightarrow> 'd wait_state \<Rightarrow> bool" where
  "sleeps_well nThreads w \<longleftrightarrow>
     (\<forall>t. asleep w t \<longrightarrow> t < nThreads \<and> place_of (shared w) t = Waiting \<and> \<not> ready nThreads (shared w) t)"

lemma wait_step_sleeps:
  assumes "wait_step n rounds contribute finish vals w w'" "sleeps_well n w"
  shows "sleeps_well n w'"
  using assms by cases ((auto simp: sleeps_well_def notify_all_def ready_def split: if_splits; metis Suc_inject)+)

lemma wakes_up_sleeps: "wakes_up w w' \<Longrightarrow> sleeps_well n w \<Longrightarrow> sleeps_well n w'"
  by (auto simp: wakes_up_def sleeps_well_def split: if_splits)

lemma wait_reach_sleeps:
  assumes "wait_reach n rounds contribute finish vals (all_awake s) w"
  shows "sleeps_well n w"
  using assms
proof (induction rule: rtranclp_induct)
  case base
  show ?case by (simp add: sleeps_well_def all_awake_def)
qed (blast intro: wait_step_sleeps wakes_up_sleeps)

section \<open>The steps are those of the protocol\<close>

text \<open>The shared state makes a step of the protocol, or a thread falls asleep.\<close>

lemma notify_all_shared [simp]: "shared (notify_all e w) = shared w"
  by (simp add: notify_all_def)

lemma wait_step_shared:
  assumes "wait_step n rounds contribute finish vals w w'"
  obtains "sync_step n rounds contribute finish vals (shared w) (shared w')"
  | t where "t < n" "\<not> asleep w t" "w' = w\<lparr>asleep := (asleep w)(t := True)\<rparr>"
  using assms
proof cases
  case (enter t s e s')
  then have "shared w' = s'" by (simp split: if_splits)
  then have "sync_step n rounds contribute finish vals (shared w) (shared w')"
    using enter sync_step.enter [of t n s rounds e contribute finish vals] by (simp only:)
  then show ?thesis by (rule that(1))
next
  case (sleep t)
  with that(2) show ?thesis by blast
next
  case (last t s e s')
  then have "sync_step n rounds contribute finish vals (shared w) (shared w')"
    using sync_step.last [of t n s e rounds contribute finish vals] by (simp add: ready_def)
  then show ?thesis by (rule that(1))
next
  case (other t s)
  then have "sync_step n rounds contribute finish vals (shared w) (shared w')"
    using sync_step.other [of t n s rounds contribute finish vals] by (simp add: ready_def)
  then show ?thesis by (rule that(1))
next
  case (leave t s e)
  then have "sync_step n rounds contribute finish vals (shared w) (shared w')"
    using sync_step.leave [of t n s e rounds contribute finish vals] by (simp add: ready_def)
  then show ?thesis by (rule that(1))
qed

lemma wait_reach_shared:
  assumes "wait_reach n rounds contribute finish vals (all_awake s) w"
  shows "sync_reach n rounds contribute finish vals s (shared w)"
  using assms
proof (induction rule: rtranclp_induct)
  case (step w w')
  have "sync_step n rounds contribute finish vals (shared w) (shared w') \<or> shared w' = shared w"
    using step.hyps(2) by (auto simp: wakes_up_def elim: wait_step_shared)
  with step.IH show ?case by (metis rtranclp.rtrancl_into_rtrancl)
qed (simp add: all_awake_def)

text \<open>A step of the protocol is possible for the threads that are awake, and they are the only ones it is possible for.\<close>

lemma sync_step_possible:
  assumes "sync_step n rounds contribute finish vals (shared w) s'" "sleeps_well n w"
  shows "\<exists>w'. wait_step n rounds contribute finish vals w w'"
  using assms(1)
proof cases
  case (enter t e)
  then show ?thesis using wait_step.enter [OF _ refl _ _ refl refl] by blast
next
  case (last t e)
  then have "ready n (shared w) t" by (simp add: ready_def)
  moreover from this have "\<not> asleep w t" using assms(2) by (auto simp: sleeps_well_def)
  ultimately show ?thesis using last wait_step.last [OF _ refl _ _ _ _ refl refl] by blast
next
  case (other t)
  then have "ready n (shared w) t" by (simp add: ready_def)
  moreover from this have "\<not> asleep w t" using assms(2) by (auto simp: sleeps_well_def)
  ultimately show ?thesis using other wait_step.other [OF _ refl] by blast
next
  case (leave t e)
  then show ?thesis using wait_step.leave [OF _ refl _ refl] by blast
qed

section \<open>No thread sleeps for ever\<close>

text \<open>A bound of the steps that are left: a step of the protocol may wake all threads, and each falls asleep once more.\<close>

definition wait_work :: "nat \<Rightarrow> nat \<Rightarrow> 'd wait_state \<Rightarrow> nat" where
  "wait_work nThreads rounds w = (nThreads + 1) * sync_work nThreads rounds (shared w) + card {t. t < nThreads \<and> \<not> asleep w t}"

lemma awake_le: "card {t. t < (n::nat) \<and> P t} \<le> n"
  using card_mono [of "{..<n}" "{t. t < n \<and> P t}"] by auto

lemma wait_step_work:
  assumes "wait_step n rounds contribute finish vals w w'" "bounded n rounds (shared w)"
  shows "wait_work n rounds w' < wait_work n rounds w"
  using assms(1)
proof (cases rule: wait_step_shared)
  case 1
  then have "Suc (sync_work n rounds (shared w')) \<le> sync_work n rounds (shared w)" using sync_step_work [OF _ assms(2)] by (simp add: Suc_le_eq)
  then have "(n + 1) * Suc (sync_work n rounds (shared w')) \<le> (n + 1) * sync_work n rounds (shared w)" by (rule mult_le_mono2)
  then show ?thesis using awake_le [of n "\<lambda>t. \<not> asleep w' t"] unfolding wait_work_def mult_Suc_right by linarith
next
  case (2 t)
  then have "{u. u < n \<and> \<not> asleep w' u} = {u. u < n \<and> \<not> asleep w u} - {t}" "t \<in> {u. u < n \<and> \<not> asleep w u}" by auto
  then have "card {u. u < n \<and> \<not> asleep w' u} < card {u. u < n \<and> \<not> asleep w u}" by (simp only: card_Diff1_less finite_Collect_conjI finite_Collect_less_nat simp_thms)
  with 2(3) show ?thesis by (simp add: wait_work_def)
qed

text \<open>C30: no deadlock and no lost wake-up, for any number of threads and calls, with the condition variables. After any
  steps, those included in which \<open>wait\<close> returns without a notification: the shared state is one that the protocol reaches (so the results
  of the calls are those of C29); every further step reduces a bound of the steps that are left, and a wake-up without a notification adds
  one to it; and when no further step is possible every thread has returned from all its calls, and none is asleep.\<close>

theorem waits_end:
  assumes "0 < nThreads" and "sync_init s" and "wait_reach nThreads rounds contribute finish vals (all_awake s) w"
  shows "sync_reach nThreads rounds contribute finish vals s (shared w)
    \<and> wait_work nThreads rounds w \<le> (nThreads + 1) * (3 * nThreads * rounds) + nThreads
    \<and> (\<forall>w'. wait_step nThreads rounds contribute finish vals w w' \<longrightarrow> wait_work nThreads rounds w' < wait_work nThreads rounds w)
    \<and> (\<forall>w'. wakes_up w w' \<longrightarrow> wait_work nThreads rounds w' = wait_work nThreads rounds w + 1)
    \<and> ((\<nexists>w'. wait_step nThreads rounds contribute finish vals w w') \<longrightarrow>
        (\<forall>t<nThreads. length (results (shared w) t) = rounds \<and> place_of (shared w) t = Running) \<and> (\<forall>t. \<not> asleep w t))"
proof (intro conjI impI allI)
  note reach = wait_reach_shared [OF assms(3)] and sleeps = wait_reach_sleeps [OF assms(3)]
  note guards = guards_complete [OF assms(1,2) reach]
  show "sync_reach nThreads rounds contribute finish vals s (shared w)" by (rule reach)
  show "wait_work nThreads rounds w \<le> (nThreads + 1) * (3 * nThreads * rounds) + nThreads"
    unfolding wait_work_def using guards by (intro add_mono mult_le_mono2 awake_le) blast
  show "wait_work nThreads rounds w' < wait_work nThreads rounds w" if "wait_step nThreads rounds contribute finish vals w w'" for w'
    by (rule wait_step_work [OF that sync_reach_bounded [OF reach assms(2)]])
  show "wait_work nThreads rounds w' = wait_work nThreads rounds w + 1" if wake: "wakes_up w w'" for w'
  proof -
    obtain t where t: "asleep w t" "w' = w\<lparr>asleep := (asleep w)(t := False)\<rparr>" using wake by (auto simp: wakes_up_def)
    then have "{u. u < nThreads \<and> \<not> asleep w' u} = insert t {u. u < nThreads \<and> \<not> asleep w u}" using sleeps by (auto simp: sleeps_well_def)
    then have "card {u. u < nThreads \<and> \<not> asleep w' u} = card {u. u < nThreads \<and> \<not> asleep w u} + 1" using t(1) by simp
    then show ?thesis using t(2) by (simp add: wait_work_def)
  qed
  assume stuck: "\<nexists>w'. wait_step nThreads rounds contribute finish vals w w'"
  then have "\<nexists>s'. sync_step nThreads rounds contribute finish vals (shared w) s'" using sync_step_possible [OF _ sleeps] by blast
  then have all: "\<forall>t<nThreads. length (results (shared w) t) = rounds \<and> place_of (shared w) t = Running" using guards by blast
  show "length (results (shared w) t) = rounds" "place_of (shared w) t = Running" if "t < nThreads" for t using all that by blast+
  show "\<not> asleep w t" for t using all sleeps by (auto simp: sleeps_well_def)
qed

text \<open>Two threads, one call: thread 1, the last, comes in and sleeps, thread 0 comes in and wakes it.\<close>

theorem waits_end_witness:
  "\<exists>w w'. wait_reach 2 1 (\<lambda>t first d v. d) (\<lambda>k d. d) (\<lambda>t k. ()) (all_awake (example_init ())) w \<and> asleep w 1
    \<and> wait_step 2 1 (\<lambda>t first d v. d) (\<lambda>k d. d) (\<lambda>t k. ()) w w' \<and> \<not> asleep w' 1
    \<and> wait_work 2 1 w' < wait_work 2 1 w \<and> wait_work 2 1 w \<le> 20"
proof -
  let ?step = "wait_step 2 1 (\<lambda>t first d v. d) (\<lambda>k d. d) (\<lambda>t k. ())"
  let ?s = "example_init ()\<lparr>counter := (\<lambda>_. 0)(0 := 1), place_of := (\<lambda>_. Running)(1 := Waiting)\<rparr>"
  let ?w1 = "\<lparr>shared = ?s, asleep = \<lambda>t. False\<rparr>" and ?w2 = "\<lparr>shared = ?s, asleep = (\<lambda>t. False)(1 := True)\<rparr>"
  have "?step (all_awake (example_init ())) ?w1"
    using wait_step.enter [of 1 2 _ "all_awake (example_init ())" 1 0 _ "\<lambda>t first d v. d" "\<lambda>t k. ()" "\<lambda>k d. d"]
    by (simp add: all_awake_def example_init_def fun_upd_def)
  moreover have "?step ?w1 ?w2" using wait_step.sleep [of 1 2 ?w1 1] by (simp add: ready_def example_init_def)
  ultimately have reach: "wait_reach 2 1 (\<lambda>t first d v. d) (\<lambda>k d. d) (\<lambda>t k. ()) (all_awake (example_init ())) ?w2"
    by (blast intro: rtranclp.rtrancl_into_rtrancl)
  obtain w' where w': "?step ?w2 w'" "\<not> asleep w' 1"
    using wait_step.enter [of 0 2 _ ?w2 1 0 _ "\<lambda>t first d v. d" "\<lambda>t k. ()" "\<lambda>k d. d"]
    by (force simp: notify_all_def example_init_def)
  have "wait_work 2 1 w' < wait_work 2 1 ?w2 \<and> wait_work 2 1 ?w2 \<le> 20" using waits_end [OF _ example_init reach] w'(1) by simp
  with reach w' show ?thesis by (intro exI [of _ ?w2] exI [of _ w']) simp
qed

end
