(* ===== verification/HostBench.thy ===== *)
theory HostBench
  imports HostInit HostRun HostSync
begin

text \<open>
  One measurement of src/common.cu (\<open>BenchTime\<close> with \<open>startColl\<close>, \<open>completeColl\<close> and the events): the actions
  a thread performs on the devices, in order, with the early return of \<open>TESTCHECK\<close>, \<open>NCCLCHECK\<close> and \<open>CUDACHECK\<close>
  on the first failure. What the actions return and what the clock shows is a function of the actions
  performed so far.
\<close>

section \<open>Actions\<close>

text \<open>GPUs are counted from 0 in their thread; an event is its index in the array of the thread.\<close>

datatype action =
    InitBufs int bool                \<comment> \<open>\<open>initData\<close> with its repetition\<close>
  | OpenGroup | CloseGroup
  | CreateOp int | DestroyOp int
  | SetDevice int
  | Coll int int bool                \<comment> \<open>\<open>runColl\<close> on a GPU, its iteration, in place\<close>
  | StreamSync                       \<comment> \<open>\<open>testStreamSynchronize\<close>\<close>
  | ThreadBarrier | AllreduceTime real | AllreduceWrong int | GatherTimes
  | EventCreate int | EventRecord int int | EventDestroy int
  | EventElapsed int int int         \<comment> \<open>entry of \<open>ms\<close>, start, stop; the time is divided by \<open>agg_iters\<close>\<close>
  | BeginCapture int | EndCapture int | Instantiate int | Launch int | DestroyExec int | DestroyGraph int
  | CheckResults bool

record bench_env =
  env_outcome :: "action list \<Rightarrow> action \<Rightarrow> testResult"
  env_clock :: "action list \<Rightarrow> real"
  env_wrong :: "action list \<Rightarrow> int"
  env_allreduce_time :: "action list \<Rightarrow> real \<Rightarrow> real"
  env_allreduce_wrong :: "action list \<Rightarrow> int \<Rightarrow> int"

text \<open>The barrier, the reductions and the gathering of times return nothing.\<close>

definition action_result :: "bench_env \<Rightarrow> action list \<Rightarrow> action \<Rightarrow> testResult" where
  "action_result e tr a =
     (case a of ThreadBarrier \<Rightarrow> TestSuccess | AllreduceTime _ \<Rightarrow> TestSuccess | AllreduceWrong _ \<Rightarrow> TestSuccess
      | GatherTimes \<Rightarrow> TestSuccess | _ \<Rightarrow> env_outcome e tr a)"

text \<open>Actions in a row: the first failure is returned.\<close>

fun perform :: "bench_env \<Rightarrow> action list \<Rightarrow> action list \<Rightarrow> testResult \<times> action list" where
  "perform e [] tr = (TestSuccess, tr)"
| "perform e (a # as) tr =
     (let r = action_result e tr a in if r \<noteq> TestSuccess then (r, tr @ [a]) else perform e as (tr @ [a]))"

definition only_if :: "bool \<Rightarrow> 'a list \<Rightarrow> 'a list" where
  "only_if b xs = (if b then xs else [])"

definition for_gpus :: "threadArgs \<Rightarrow> (int \<Rightarrow> action list) \<Rightarrow> action list" where
  "for_gpus args f = concat (map f [0..nGpus args - 1])"

section \<open>The steps of a measurement\<close>

text \<open>
  The calls of one iteration. \<^const>\<open>NcclPreMulSum\<close> stands for the operations at and above \<open>ncclNumOps\<close>; the
  arguments of the call itself are those of \<^const>\<open>start_call\<close>.
\<close>

definition start_actions :: "options \<Rightarrow> threadArgs \<Rightarrow> red_code \<Rightarrow> bool \<Rightarrow> int \<Rightarrow> action list" where
  "start_actions o' args red in_place iter =
     only_if (nGpus args > 1) [OpenGroup]
     @ for_gpus args (\<lambda>i.
         only_if (red = NcclPreMulSum) [CreateOp i]
         @ only_if (opt_hostRmaImpl o' \<or> opt_deviceImpl o' \<noteq> 0) [SetDevice i]
         @ [Coll i iter in_place]
         @ only_if (red = NcclPreMulSum) [DestroyOp i])
     @ only_if (nGpus args > 1) [CloseGroup]
     @ only_if (opt_blocking_coll o' \<noteq> 0 \<and> opt_blocking_coll o' \<noteq> 3) [StreamSync]
     @ only_if (opt_blocking_coll o' = 1) [ThreadBarrier]"

definition completeColl :: "options \<Rightarrow> action list" where
  "completeColl o' =
     (if opt_blocking_coll o' \<noteq> 0 \<and> opt_blocking_coll o' \<noteq> 3 \<and> opt_agg_iters o' \<le> 1 then [] else [StreamSync])"

definition getEventCount :: "options \<Rightarrow> int \<Rightarrow> int" where
  "getEventCount o' eventIters = (if opt_blocking_coll o' = 3 then eventIters * 2 else eventIters + 1)"

definition getElapsedTimes :: "options \<Rightarrow> threadArgs \<Rightarrow> int \<Rightarrow> action list" where
  "getElapsedTimes o' args eventIters =
     (let pairedEvents = (opt_blocking_coll o' = 3);
          eventCount = getEventCount o' eventIters
      in for_gpus args (\<lambda>i. SetDevice i # map (\<lambda>j.
           let startEvent = (if pairedEvents then 2 * j else j);
               stopEvent = (if pairedEvents then 2 * j + 1 else j + 1)
           in EventElapsed (i * eventIters + j) (i * eventCount + startEvent) (i * eventCount + stopEvent)) [0..eventIters - 1]))"

definition recordEvents :: "options \<Rightarrow> threadArgs \<Rightarrow> int \<Rightarrow> int \<Rightarrow> int \<Rightarrow> action list" where
  "recordEvents o' args iterations iteration stopEvent =
     (let pairedEvents = (opt_blocking_coll o' = 3);
          eventCount = getEventCount o' iterations;
          eventIndex = (if pairedEvents then 2 * iteration + stopEvent else iteration)
      in for_gpus args (\<lambda>i. [SetDevice i, EventRecord (i * eventCount + eventIndex) i]))"

definition initEvents :: "options \<Rightarrow> threadArgs \<Rightarrow> int \<Rightarrow> action list" where
  "initEvents o' args eventIters =
     (let eventCount = getEventCount o' eventIters
      in for_gpus args (\<lambda>i. SetDevice i # map (\<lambda>j. EventCreate (i * eventCount + j)) [0..eventCount - 1]))"

definition destroyEvents :: "options \<Rightarrow> threadArgs \<Rightarrow> int \<Rightarrow> action list" where
  "destroyEvents o' args eventIters =
     (let eventCount = getEventCount o' eventIters
      in for_gpus args (\<lambda>i. map (\<lambda>j. EventDestroy (i * eventCount + j)) [0..eventCount - 1]))"

section \<open>BenchTime\<close>

text \<open>From the start to the start of the clock.\<close>

definition bench_prologue :: "options \<Rightarrow> threadArgs \<Rightarrow> red_code \<Rightarrow> bool \<Rightarrow> action list" where
  "bench_prologue o' args red in_place =
     only_if (opt_datacheck o' \<noteq> 0) [InitBufs 99 in_place]
     @ concat (map (start_actions o' args red in_place) [0..opt_warmup_iters o' - 1])
     @ completeColl o'
     @ [ThreadBarrier]
     @ only_if (opt_cudaGraphLaunches o' \<ge> 1) (for_gpus args (\<lambda>i. [BeginCapture i]))
     @ only_if (opt_per_iter_timing o' \<noteq> 0) (initEvents o' args (opt_iters o'))"

text \<open>An iteration up to the second reading of the clock in blocking mode 3.\<close>

definition bench_iter_actions :: "options \<Rightarrow> threadArgs \<Rightarrow> red_code \<Rightarrow> bool \<Rightarrow> int \<Rightarrow> action list" where
  "bench_iter_actions o' args red in_place iter =
     only_if (opt_agg_iters o' > 1) [OpenGroup]
     @ only_if (opt_per_iter_timing o' \<noteq> 0) (recordEvents o' args (opt_iters o') iter 0)
     @ concat (map (\<lambda>aiter. start_actions o' args red in_place (iter * opt_agg_iters o' + aiter)) [0..opt_agg_iters o' - 1])
     @ only_if (opt_agg_iters o' > 1) [CloseGroup]
     @ only_if (opt_blocking_coll o' = 3) (StreamSync
         # only_if (opt_per_iter_timing o' \<noteq> 0) (recordEvents o' args (opt_iters o') iter 1))"

text \<open>The loop, with \<open>collOnlySec\<close>.\<close>

fun bench_iters :: "bench_env \<Rightarrow> options \<Rightarrow> threadArgs \<Rightarrow> red_code \<Rightarrow> bool \<Rightarrow> int list \<Rightarrow> real \<Rightarrow> action list
    \<Rightarrow> testResult \<times> real \<times> action list" where
  "bench_iters e o' args red in_place [] acc tr = (TestSuccess, acc, tr)"
| "bench_iters e o' args red in_place (iter # its) acc tr =
     (let (r, tr1) = perform e (bench_iter_actions o' args red in_place iter) tr
      in if r \<noteq> TestSuccess then (r, acc, tr1)
         else if opt_blocking_coll o' = 3 then
           (let acc' = acc + (env_clock e tr1 - env_clock e tr);
                (r2, tr2) = perform e [ThreadBarrier] tr1
            in if r2 \<noteq> TestSuccess then (r2, acc', tr2) else bench_iters e o' args red in_place its acc' tr2)
         else bench_iters e o' args red in_place its acc tr1)"

text \<open>From the end of the loop to the launches of the graph; the clock is started again after the first list.\<close>

definition bench_capture_end :: "options \<Rightarrow> threadArgs \<Rightarrow> action list" where
  "bench_capture_end o' args =
     only_if (opt_per_iter_timing o' \<noteq> 0 \<and> opt_blocking_coll o' \<noteq> 3) (recordEvents o' args (opt_iters o') (opt_iters o') 0)
     @ only_if (opt_cudaGraphLaunches o' \<ge> 1)
         (for_gpus args (\<lambda>i. [EndCapture i]) @ for_gpus args (\<lambda>i. [Instantiate i]) @ [ThreadBarrier])"

definition bench_launches :: "options \<Rightarrow> threadArgs \<Rightarrow> action list" where
  "bench_launches o' args =
     only_if (opt_cudaGraphLaunches o' \<ge> 1)
       (concat (map (\<lambda>l. for_gpus args (\<lambda>i. [Launch i])) [0..opt_cudaGraphLaunches o' - 1]))"

definition bench_read_events :: "options \<Rightarrow> threadArgs \<Rightarrow> action list" where
  "bench_read_events o' args =
     only_if (opt_per_iter_timing o' \<noteq> 0)
       (only_if (opt_blocking_coll o' \<noteq> 0 \<and> opt_blocking_coll o' \<noteq> 3 \<and> opt_agg_iters o' \<le> 1) [StreamSync]
        @ getElapsedTimes o' args (opt_iters o') @ destroyEvents o' args (opt_iters o'))"

definition bench_free_graphs :: "options \<Rightarrow> threadArgs \<Rightarrow> action list" where
  "bench_free_graphs o' args =
     only_if (opt_cudaGraphLaunches o' \<ge> 1) (for_gpus args (\<lambda>i. [DestroyExec i, DestroyGraph i]))"

text \<open>One check of the results.\<close>

definition bench_check_actions :: "options \<Rightarrow> threadArgs \<Rightarrow> red_code \<Rightarrow> bool \<Rightarrow> int \<Rightarrow> action list" where
  "bench_check_actions o' args red in_place rep =
     [InitBufs rep in_place]
     @ only_if (opt_cudaGraphLaunches o' \<ge> 1) (for_gpus args (\<lambda>i. [BeginCapture i]))
     @ start_actions o' args red in_place 0
     @ only_if (opt_cudaGraphLaunches o' \<ge> 1)
         (for_gpus args (\<lambda>i. [EndCapture i]) @ for_gpus args (\<lambda>i. [Instantiate i]) @ for_gpus args (\<lambda>i. [Launch i]))
     @ completeColl o'
     @ bench_free_graphs o' args
     @ [CheckResults in_place]"

text \<open>The loop over the checks, for the number that is left, ends at the first with wrong elements.\<close>

fun bench_checks :: "bench_env \<Rightarrow> options \<Rightarrow> threadArgs \<Rightarrow> red_code \<Rightarrow> bool \<Rightarrow> int \<Rightarrow> nat \<Rightarrow> int \<Rightarrow> action list
    \<Rightarrow> testResult \<times> int \<times> action list" where
  "bench_checks e o' args red in_place rep 0 wrong tr = (TestSuccess, wrong, tr)"
| "bench_checks e o' args red in_place rep (Suc c) wrong tr =
     (let (r, tr1) = perform e (bench_check_actions o' args red in_place rep) tr
      in if r \<noteq> TestSuccess then (r, wrong, tr1)
         else (let wrong1 = env_wrong e tr1;
                   (r2, tr2) = perform e [AllreduceWrong wrong1] tr1
               in if r2 \<noteq> TestSuccess then (r2, wrong, tr2)
                  else (let wrong2 = env_allreduce_wrong e tr1 wrong1
                        in if wrong2 \<noteq> 0 then (TestSuccess, wrong2, tr2)
                           else bench_checks e o' args red in_place rep c wrong2 tr2)))"

text \<open>What is reported.\<close>

record bench_report =
  rep_cputimeSec :: real
  rep_localSec :: real
  rep_deltaSec :: real
  rep_timeUsec :: real
  rep_bw :: "real \<times> real"
  rep_wrong :: int
  rep_trace :: "action list"

text \<open>\<open>TESTCHECK\<close>: a failure is returned, otherwise it goes on with what was computed.\<close>

definition check_then :: "testResult \<times> 'b \<Rightarrow> ('b \<Rightarrow> testResult + 'a) \<Rightarrow> testResult + 'a" where
  "check_then p k = (if fst p \<noteq> TestSuccess then Inl (fst p) else k (snd p))"

text \<open>
  All of it, with the static counter \<open>rep\<close>. The reduction over all threads replaces the time of the thread
  (\<open>rep_localSec\<close>) by that of all threads (\<open>rep_deltaSec\<close>).
\<close>

definition BenchTime :: "bench_env \<Rightarrow> options \<Rightarrow> threadArgs \<Rightarrow> elt_type \<Rightarrow> red_code \<Rightarrow> bool
    \<Rightarrow> (u64 \<Rightarrow> u64 \<Rightarrow> real \<Rightarrow> int \<Rightarrow> real \<times> real) \<Rightarrow> int \<Rightarrow> action list \<Rightarrow> testResult + bench_report" where
  "BenchTime e o' args ty red in_place getBw rep tr0 =
     (let runs = real_of_int (opt_iters o' * opt_agg_iters o')
      in check_then (perform e (bench_prologue o' args red in_place) tr0) (\<lambda>tr1.
         check_then (bench_iters e o' args red in_place [0..opt_iters o' - 1] 0 tr1) (\<lambda>(collOnlySec, tr2).
         check_then (perform e (bench_capture_end o' args) tr2) (\<lambda>tr3.
         check_then (perform e (bench_launches o' args) tr3) (\<lambda>tr4.
         let started = (if opt_cudaGraphLaunches o' \<ge> 1 then tr3 else tr1);
             cputimeSec = (if opt_blocking_coll o' = 3 then collOnlySec else env_clock e tr4 - env_clock e started) / runs
         in check_then (perform e (completeColl o') tr4) (\<lambda>tr5.
         let delta = (if opt_blocking_coll o' = 3 then collOnlySec else env_clock e tr5 - env_clock e started) / runs;
             localSec = (if opt_cudaGraphLaunches o' \<ge> 1 then delta / real_of_int (opt_cudaGraphLaunches o') else delta)
         in check_then (perform e (bench_read_events o' args) tr5) (\<lambda>tr6.
         let deltaSec = env_allreduce_time e tr6 localSec
         in check_then (perform e ([AllreduceTime localSec] @ bench_free_graphs o' args @ [ThreadBarrier]) tr6) (\<lambda>tr7.
            check_then (bench_checks e o' args red in_place (rep + 1) (nat (opt_datacheck o')) 0 tr7) (\<lambda>(wrong, tr8).
            check_then (perform e (only_if (opt_per_iter_timing o' \<noteq> 0) [GatherTimes]) tr8) (\<lambda>tr9.
              Inr \<lparr>rep_cputimeSec = cputimeSec, rep_localSec = localSec, rep_deltaSec = deltaSec,
                rep_timeUsec = (if opt_report_cputime o' \<noteq> 0 then cputimeSec else deltaSec) * 10 ^ 6,
                rep_bw = getBw (nbytes args div wordSize ty) (wordSize ty) deltaSec (nranks_of args),
                rep_wrong = wrong, rep_trace = tr9\<rparr>))))))))))"

section \<open>Runs without a failure\<close>

lemma perform_ok: "perform e as tr = (TestSuccess, tr') \<Longrightarrow> tr' = tr @ as"
  by (induction e as tr rule: perform.induct) (auto simp: Let_def split: if_splits)

definition iter_full :: "options \<Rightarrow> threadArgs \<Rightarrow> red_code \<Rightarrow> bool \<Rightarrow> int \<Rightarrow> action list" where
  "iter_full o' args red ip it = bench_iter_actions o' args red ip it @ only_if (opt_blocking_coll o' = 3) [ThreadBarrier]"

text \<open>The windows of the clock in blocking mode 3: what was done before, and what is measured.\<close>

fun iter_windows :: "options \<Rightarrow> threadArgs \<Rightarrow> red_code \<Rightarrow> bool \<Rightarrow> int list \<Rightarrow> action list \<Rightarrow> (action list \<times> action list) list" where
  "iter_windows o' args red ip [] tr = []"
| "iter_windows o' args red ip (it # its) tr =
     (tr, bench_iter_actions o' args red ip it) # iter_windows o' args red ip its (tr @ iter_full o' args red ip it)"

definition window_time :: "bench_env \<Rightarrow> (action list \<times> action list) list \<Rightarrow> real" where
  "window_time e ws = (\<Sum>w\<leftarrow>ws. env_clock e (fst w @ snd w) - env_clock e (fst w))"

lemma bench_iters_ok:
  "bench_iters e o' args red ip its acc tr = (TestSuccess, acc', tr') \<Longrightarrow>
     tr' = tr @ concat (map (iter_full o' args red ip) its)
     \<and> acc' = acc + (if opt_blocking_coll o' = 3 then window_time e (iter_windows o' args red ip its tr) else 0)"
proof (induction its arbitrary: acc tr)
  case (Cons it its)
  obtain r tr1 where 1: "perform e (bench_iter_actions o' args red ip it) tr = (r, tr1)" by force
  with Cons.prems have tr1: "r = TestSuccess" "tr1 = tr @ bench_iter_actions o' args red ip it"
    by (auto simp: Let_def split: if_splits dest: perform_ok)
  show ?case
  proof (cases "opt_blocking_coll o' = 3")
    case True
    with Cons.prems 1 tr1 have "bench_iters e o' args red ip its (acc + (env_clock e tr1 - env_clock e tr)) (tr1 @ [ThreadBarrier]) = (TestSuccess, acc', tr')"
      by (simp add: action_result_def)
    from Cons.IH [OF this] True tr1(2) show ?thesis
      by (simp add: iter_full_def only_if_def window_time_def)
  next
    case False
    with Cons.prems 1 tr1 have "bench_iters e o' args red ip its acc tr1 = (TestSuccess, acc', tr')" by simp
    from Cons.IH [OF this] False tr1(2) show ?thesis by (simp add: iter_full_def only_if_def)
  qed
qed (simp add: window_time_def)

text \<open>A measurement that succeeds: its actions before the check, and the times.\<close>

definition bench_started :: "options \<Rightarrow> threadArgs \<Rightarrow> red_code \<Rightarrow> bool \<Rightarrow> action list \<Rightarrow> action list" where
  "bench_started o' args red ip tr0 = tr0 @ bench_prologue o' args red ip"

definition bench_looped :: "options \<Rightarrow> threadArgs \<Rightarrow> red_code \<Rightarrow> bool \<Rightarrow> action list \<Rightarrow> action list" where
  "bench_looped o' args red ip tr0 = bench_started o' args red ip tr0
     @ concat (map (iter_full o' args red ip) [0..opt_iters o' - 1]) @ bench_capture_end o' args"

definition bench_windows :: "options \<Rightarrow> threadArgs \<Rightarrow> red_code \<Rightarrow> bool \<Rightarrow> action list \<Rightarrow> (action list \<times> action list) list" where
  "bench_windows o' args red ip tr0 =
     (let started = bench_started o' args red ip tr0; looped = bench_looped o' args red ip tr0
      in if opt_blocking_coll o' = 3 then iter_windows o' args red ip [0..opt_iters o' - 1] started
         else if opt_cudaGraphLaunches o' \<ge> 1 then [(looped, bench_launches o' args @ completeColl o')]
         else [(started, concat (map (iter_full o' args red ip) [0..opt_iters o' - 1]) @ bench_capture_end o' args @ completeColl o')])"

lemma check_then_Inr: "check_then p k = Inr R \<longleftrightarrow> fst p = TestSuccess \<and> k (snd p) = Inr R"
  by (simp add: check_then_def)

lemma perform_snd: "fst (perform e as tr) = TestSuccess \<Longrightarrow> snd (perform e as tr) = tr @ as"
  using perform_ok [of e as tr "snd (perform e as tr)"] by (simp add: prod_eq_iff)

lemma bench_iters_snd:
  assumes "fst (bench_iters e o' args red ip its acc tr) = TestSuccess"
  shows "snd (snd (bench_iters e o' args red ip its acc tr)) = tr @ concat (map (iter_full o' args red ip) its)"
    and "fst (snd (bench_iters e o' args red ip its acc tr))
      = acc + (if opt_blocking_coll o' = 3 then window_time e (iter_windows o' args red ip its tr) else 0)"
  using bench_iters_ok [of e o' args red ip its acc tr "fst (snd (bench_iters e o' args red ip its acc tr))"
      "snd (snd (bench_iters e o' args red ip its acc tr))"] assms
  by (simp_all add: prod_eq_iff)

lemma bench_time_ok:
  assumes "BenchTime e o' args ty red ip getBw rep tr0 = Inr R"
  shows "\<exists>checks. bench_checks e o' args red ip (rep + 1) (nat (opt_datacheck o')) 0
        (bench_looped o' args red ip tr0 @ bench_launches o' args @ completeColl o' @ bench_read_events o' args
          @ [AllreduceTime (rep_localSec R)] @ bench_free_graphs o' args @ [ThreadBarrier])
        = (TestSuccess, rep_wrong R, checks)
      \<and> rep_trace R = checks @ only_if (opt_per_iter_timing o' \<noteq> 0) [GatherTimes]"
    and "opt_blocking_coll o' \<noteq> 3 \<or> opt_cudaGraphLaunches o' < 1 \<Longrightarrow>
      rep_localSec R = window_time e (bench_windows o' args red ip tr0) / real_of_int (opt_iters o' * opt_agg_iters o')
      / (if opt_cudaGraphLaunches o' \<ge> 1 then real_of_int (opt_cudaGraphLaunches o') else 1)"
    and "rep_deltaSec R = env_allreduce_time e (bench_looped o' args red ip tr0 @ bench_launches o' args @ completeColl o' @ bench_read_events o' args)
      (rep_localSec R)"
    and "rep_bw R = getBw (nbytes args div wordSize ty) (wordSize ty) (rep_deltaSec R) (nranks_of args)"
proof -
  note A = assms [unfolded BenchTime_def Let_def check_then_Inr case_prod_unfold]
  note ok = perform_snd [OF A [THEN conjunct1]]
  note A = A [THEN conjunct2, unfolded ok]
  note it = bench_iters_snd [OF A [THEN conjunct1]]
  note A = A [THEN conjunct2, unfolded it append_assoc]
  note ok = perform_snd [OF A [THEN conjunct1]]
  note A = A [THEN conjunct2, unfolded ok append_assoc]
  note ok = perform_snd [OF A [THEN conjunct1]]
  note A = A [THEN conjunct2, unfolded ok append_assoc]
  note ok = perform_snd [OF A [THEN conjunct1]]
  note A = A [THEN conjunct2, unfolded ok append_assoc]
  note ok = perform_snd [OF A [THEN conjunct1]]
  note A = A [THEN conjunct2, unfolded ok append_assoc]
  note ok = perform_snd [OF A [THEN conjunct1]]
  note A = A [THEN conjunct2, unfolded ok append_assoc]
  note ok = perform_snd [OF A [THEN conjunct2, THEN conjunct1]]
  note A = A [unfolded ok append_assoc]

  show "rep_bw R = getBw (nbytes args div wordSize ty) (wordSize ty) (rep_deltaSec R) (nranks_of args)"
    using A by auto
  show "\<exists>checks. bench_checks e o' args red ip (rep + 1) (nat (opt_datacheck o')) 0
        (bench_looped o' args red ip tr0 @ bench_launches o' args @ completeColl o' @ bench_read_events o' args
          @ [AllreduceTime (rep_localSec R)] @ bench_free_graphs o' args @ [ThreadBarrier])
        = (TestSuccess, rep_wrong R, checks)
      \<and> rep_trace R = checks @ only_if (opt_per_iter_timing o' \<noteq> 0) [GatherTimes]"
    using A by (auto simp: bench_looped_def bench_started_def prod_eq_iff)
  show "rep_localSec R = window_time e (bench_windows o' args red ip tr0) / real_of_int (opt_iters o' * opt_agg_iters o')
      / (if opt_cudaGraphLaunches o' \<ge> 1 then real_of_int (opt_cudaGraphLaunches o') else 1)"
    if "opt_blocking_coll o' \<noteq> 3 \<or> opt_cudaGraphLaunches o' < 1"
  proof -
    have "bench_launches o' args = []" if "\<not> 1 \<le> opt_cudaGraphLaunches o'" using that by (simp add: bench_launches_def only_if_def)
    then show ?thesis
      using A that by (auto simp: bench_looped_def bench_started_def bench_windows_def window_time_def Let_def)
  qed
  show "rep_deltaSec R = env_allreduce_time e (bench_looped o' args red ip tr0 @ bench_launches o' args @ completeColl o' @ bench_read_events o' args)
      (rep_localSec R)"
    using A by (auto simp: bench_looped_def bench_started_def)
qed

section \<open>How often the collective is executed\<close>

text \<open>
  The collectives a GPU executes: a call is executed where it is made, unless its stream is being captured; a
  launch executes the calls captured last. The state is: capturing, number of calls captured, number executed.
\<close>

fun exec_step :: "int \<Rightarrow> bool \<times> nat \<times> nat \<Rightarrow> action \<Rightarrow> bool \<times> nat \<times> nat" where
  "exec_step i (cap, n, d) (Coll j it ip) = (if j = i then (if cap then (cap, n + 1, d) else (cap, n, d + 1)) else (cap, n, d))"
| "exec_step i (cap, n, d) (BeginCapture j) = (if j = i then (True, 0, d) else (cap, n, d))"
| "exec_step i (cap, n, d) (EndCapture j) = (if j = i then (False, n, d) else (cap, n, d))"
| "exec_step i (cap, n, d) (Launch j) = (if j = i then (cap, n, d + n) else (cap, n, d))"
| "exec_step i s a = s"

definition exec_run :: "int \<Rightarrow> bool \<times> nat \<times> nat \<Rightarrow> action list \<Rightarrow> bool \<times> nat \<times> nat" where
  "exec_run i s tr = foldl (exec_step i) s tr"

definition executed :: "int \<Rightarrow> action list \<Rightarrow> nat" where
  "executed i tr = snd (snd (exec_run i (False, 0, 0) tr))"

definition capturing :: "int \<Rightarrow> action list \<Rightarrow> bool" where
  "capturing i tr \<longleftrightarrow> fst (exec_run i (False, 0, 0) tr)"

fun is_coll :: "int \<Rightarrow> action \<Rightarrow> bool" where
  "is_coll i (Coll j it ip) = (j = i)"
| "is_coll i a = False"

definition colls :: "int \<Rightarrow> action list \<Rightarrow> nat" where
  "colls i tr = length (filter (is_coll i) tr)"

text \<open>Actions that do not capture and do not launch.\<close>

fun plain :: "action \<Rightarrow> bool" where
  "plain (BeginCapture j) = False"
| "plain (EndCapture j) = False"
| "plain (Launch j) = False"
| "plain a = True"

lemma colls_simps [simp]:
  "colls i [] = 0" "colls i (a # as) = (if is_coll i a then 1 else 0) + colls i as" "colls i (as @ bs) = colls i as + colls i bs"
  by (simp_all add: colls_def)

lemma colls_concat: "colls i (concat xss) = sum_list (map (colls i) xss)"
  by (induction xss) simp_all

lemma colls_zero: "(\<And>a. a \<in> set as \<Longrightarrow> \<not> is_coll i a) \<Longrightarrow> colls i as = 0"
  by (simp add: colls_def filter_empty_conv)

lemma exec_run_simps [simp]:
  "exec_run i s [] = s" "exec_run i s (a # as) = exec_run i (exec_step i s a) as" "exec_run i s (as @ bs) = exec_run i (exec_run i s as) bs"
  by (simp_all add: exec_run_def)

lemma exec_step_plain:
  "plain a \<Longrightarrow> exec_step i (cap, n, d) a
     = (cap, if cap \<and> is_coll i a then n + 1 else n, if \<not> cap \<and> is_coll i a then d + 1 else d)"
  by (cases a) simp_all

lemma exec_run_plain:
  assumes "\<And>a. a \<in> set as \<Longrightarrow> plain a"
  shows "exec_run i (cap, n, d) as = (cap, if cap then n + colls i as else n, if cap then d else d + colls i as)"
  using assms
proof (induction as arbitrary: n d)
  case (Cons a as)
  then have "plain a" "\<And>a. a \<in> set as \<Longrightarrow> plain a" by simp_all
  with Cons.IH show ?case by (simp add: exec_step_plain)
qed simp

lemma set_for_gpus: "set (for_gpus args f) = (\<Union>i\<in>{0..<nGpus args}. set (f i))"
  by (auto simp: for_gpus_def)

lemma set_only_if: "set (only_if b xs) = (if b then set xs else {})"
  by (simp add: only_if_def)

lemma colls_only_if [simp]: "colls i (only_if b xs) = (if b then colls i xs else 0)"
  by (simp add: only_if_def)

lemma colls_for_gpus:
  assumes i: "i \<in> {0..<nGpus args}" and f: "\<And>j. colls i (f j) = (if j = i then c else 0)"
  shows "colls i (for_gpus args f) = c"
proof -
  have "colls i (concat (map f js)) = (if i \<in> set js then c else 0)" if "distinct js" for js
    using that f by (induction js) auto
  from this [of "[0..nGpus args - 1]"] i show ?thesis by (simp add: for_gpus_def)
qed

lemmas set_actions = set_for_gpus set_only_if start_actions_def completeColl_def recordEvents_def initEvents_def
  destroyEvents_def getElapsedTimes_def Let_def

lemma start_colls: "i \<in> {0..<nGpus args} \<Longrightarrow> colls i (start_actions o' args red ip it) = 1"
  unfolding start_actions_def colls_simps colls_only_if by (subst colls_for_gpus [where c = 1]) auto

lemma list_all_only_if [simp]: "list_all P (only_if b xs) \<longleftrightarrow> (b \<longrightarrow> list_all P xs)"
  by (simp add: only_if_def)

lemma list_all_for_gpus: "(\<And>i. list_all P (f i)) \<Longrightarrow> list_all P (for_gpus args f)"
  by (auto simp: list_all_iff set_for_gpus)

lemma start_plain: "a \<in> set (start_actions o' args red ip it) \<Longrightarrow> plain a"
proof -
  have "list_all plain (start_actions o' args red ip it)"
    unfolding start_actions_def list_all_append by (intro conjI list_all_for_gpus) simp_all
  then show "a \<in> set (start_actions o' args red ip it) \<Longrightarrow> plain a" by (simp add: list_all_iff)
qed

lemma record_neutral: "a \<in> set (recordEvents o' args m it s) \<Longrightarrow> plain a \<and> \<not> is_coll i a"
  "a \<in> set (initEvents o' args m) \<Longrightarrow> plain a \<and> \<not> is_coll i a"
  "a \<in> set (completeColl o') \<Longrightarrow> plain a \<and> \<not> is_coll i a"
  by (auto simp: set_actions split: if_splits)

lemma neutral_colls [simp]: "colls i (recordEvents o' args m it s) = 0" "colls i (initEvents o' args m) = 0" "colls i (completeColl o') = 0"
  by (rule colls_zero, use record_neutral in blast)+

lemma iter_plain: "a \<in> set (iter_full o' args red ip it) \<Longrightarrow> plain a" "a \<in> set (bench_iter_actions o' args red ip it) \<Longrightarrow> plain a"
  using record_neutral(1) start_plain by (fastforce simp: iter_full_def bench_iter_actions_def set_only_if split: if_splits)+

lemma sum_list_const: "(\<And>x. x \<in> set xs \<Longrightarrow> f x = c) \<Longrightarrow> (\<Sum>x\<leftarrow>xs. f x) = length xs * (c :: nat)"
  by (induction xs) auto

lemma iter_colls:
  assumes "i \<in> {0..<nGpus args}"
  shows "colls i (bench_iter_actions o' args red ip it) = nat (opt_agg_iters o')"
    and "colls i (iter_full o' args red ip it) = nat (opt_agg_iters o')"
proof -
  have "colls i (concat (map (\<lambda>k. start_actions o' args red ip (f k)) [0..opt_agg_iters o' - 1])) = nat (opt_agg_iters o')" for f
    unfolding colls_concat map_map comp_def by (subst sum_list_const [where c = 1]) (simp_all add: start_colls [OF assms])
  then show "colls i (bench_iter_actions o' args red ip it) = nat (opt_agg_iters o')"
    by (simp add: bench_iter_actions_def)
  then show "colls i (iter_full o' args red ip it) = nat (opt_agg_iters o')" by (simp add: iter_full_def)
qed

text \<open>One action on every GPU.\<close>

lemma exec_run_gpus:
  assumes i: "i \<in> {0..<nGpus args}" and other: "\<And>j s. j \<noteq> i \<Longrightarrow> exec_step i s (f j) = s"
  shows "exec_run i s (for_gpus args (\<lambda>j. [f j])) = exec_step i s (f i)"
proof -
  have none: "exec_run i s (concat (map (\<lambda>j. [f j]) js)) = s" if "i \<notin> set js" for js s
    using that other by (induction js arbitrary: s) auto
  have "exec_run i s (concat (map (\<lambda>j. [f j]) js)) = (if i \<in> set js then exec_step i s (f i) else s)" if "distinct js" for js s
    using that
  proof (induction js arbitrary: s)
    case (Cons a js)
    then show ?case by (cases "a = i") (simp_all add: none other del: split_paired_All)
  qed simp
  from this [of "[0..nGpus args - 1]"] i show ?thesis by (simp add: for_gpus_def)
qed

lemma exec_run_only_if [simp]: "exec_run i s (only_if b xs) = (if b then exec_run i s xs else s)"
  by (simp add: only_if_def)

lemma exec_capture:
  assumes "i \<in> {0..<nGpus args}"
  shows "exec_run i s (for_gpus args (\<lambda>j. [BeginCapture j])) = exec_step i s (BeginCapture i)"
    "exec_run i s (for_gpus args (\<lambda>j. [EndCapture j])) = exec_step i s (EndCapture i)"
    "exec_run i s (for_gpus args (\<lambda>j. [Launch j])) = exec_step i s (Launch i)"
    "exec_run i s (for_gpus args (\<lambda>j. [Instantiate j])) = exec_step i s (Instantiate i)"
proof -
  have other: "exec_step i s (BeginCapture j) = s" "exec_step i s (EndCapture j) = s" "exec_step i s (Launch j) = s"
    "exec_step i s (Instantiate j) = s" if "j \<noteq> i" for j s
    using that by (cases s; simp)+
  show "exec_run i s (for_gpus args (\<lambda>j. [BeginCapture j])) = exec_step i s (BeginCapture i)"
    "exec_run i s (for_gpus args (\<lambda>j. [EndCapture j])) = exec_step i s (EndCapture i)"
    "exec_run i s (for_gpus args (\<lambda>j. [Launch j])) = exec_step i s (Launch i)"
    "exec_run i s (for_gpus args (\<lambda>j. [Instantiate j])) = exec_step i s (Instantiate i)"
    by (rule exec_run_gpus [OF assms], erule other)+
qed

lemma exec_plain_run:
  "(\<And>a. a \<in> set as \<Longrightarrow> plain a) \<Longrightarrow> exec_run i s as
     = (fst s, if fst s then fst (snd s) + colls i as else fst (snd s), if fst s then snd (snd s) else snd (snd s) + colls i as)"
  using exec_run_plain [of as i "fst s" "fst (snd s)" "snd (snd s)"] by simp

lemma exec_neutral:
  assumes "\<And>a. a \<in> set as \<Longrightarrow> plain a \<and> \<not> is_coll i a"
  shows "exec_run i s as = s"
  using exec_plain_run [of as i s] assms colls_zero [of as i] by (cases s) simp

lemma concat_plain: "(\<And>k a. a \<in> set (f k) \<Longrightarrow> plain a) \<Longrightarrow> a \<in> set (concat (map f xs)) \<Longrightarrow> plain a"
  by auto

lemma exec_stages:
  assumes i: "i \<in> {0..<nGpus args}"
  shows "exec_run i (cap, n, d) (concat (map (start_actions o' args red ip) [0..m - 1])) = (cap, if cap then n + nat m else n, if cap then d else d + nat m)"
    and "exec_run i (cap, n, d) (bench_iter_actions o' args red ip it)
      = (cap, if cap then n + nat (opt_agg_iters o') else n, if cap then d else d + nat (opt_agg_iters o'))"
    and "exec_run i (cap, n, d) (concat (map (iter_full o' args red ip) its))
      = (cap, if cap then n + length its * nat (opt_agg_iters o') else n, if cap then d else d + length its * nat (opt_agg_iters o'))"
    and "exec_run i (cap, n, d) (completeColl o') = (cap, n, d)"
    and "exec_run i (cap, n, d) (bench_capture_end o' args) = (if opt_cudaGraphLaunches o' \<ge> 1 then False else cap, n, d)"
    and "exec_run i (False, n, d) (bench_launches o' args) = (False, n, d + nat (opt_cudaGraphLaunches o') * n)"
proof -
  have s: "colls i (concat (map (start_actions o' args red ip) [0..m - 1])) = nat m"
    unfolding colls_concat map_map comp_def by (subst sum_list_const [where c = 1]) (simp_all add: start_colls [OF i])
  show "exec_run i (cap, n, d) (concat (map (start_actions o' args red ip) [0..m - 1])) = (cap, if cap then n + nat m else n, if cap then d else d + nat m)"
    by (subst exec_plain_run) (rule concat_plain, rule start_plain, assumption+, simp add: s)
  show "exec_run i (cap, n, d) (bench_iter_actions o' args red ip it)
      = (cap, if cap then n + nat (opt_agg_iters o') else n, if cap then d else d + nat (opt_agg_iters o'))"
    by (subst exec_plain_run) (rule iter_plain, assumption, simp add: iter_colls [OF i])
  have c: "colls i (concat (map (iter_full o' args red ip) its)) = length its * nat (opt_agg_iters o')"
    unfolding colls_concat map_map comp_def by (rule sum_list_const) (rule iter_colls [OF i])
  show "exec_run i (cap, n, d) (concat (map (iter_full o' args red ip) its))
      = (cap, if cap then n + length its * nat (opt_agg_iters o') else n, if cap then d else d + length its * nat (opt_agg_iters o'))"
    by (subst exec_plain_run) (rule concat_plain, rule iter_plain, assumption+, simp add: c)
  show "exec_run i (cap, n, d) (completeColl o') = (cap, n, d)"
    by (rule exec_neutral) (rule record_neutral)
  have r: "exec_run i s (recordEvents o' args m it st) = s" for s m it st
    by (rule exec_neutral) (rule record_neutral)
  show "exec_run i (cap, n, d) (bench_capture_end o' args) = (if opt_cudaGraphLaunches o' \<ge> 1 then False else cap, n, d)"
    by (simp add: bench_capture_end_def r exec_capture [OF i])
  have l: "exec_run i (False, n, d) (concat (map (\<lambda>l. for_gpus args (\<lambda>j. [Launch j])) ls)) = (False, n, d + length ls * n)" for ls :: "int list"
    by (induction ls arbitrary: d) (simp_all add: exec_capture [OF i])
  show "exec_run i (False, n, d) (bench_launches o' args) = (False, n, d + nat (opt_cudaGraphLaunches o') * n)"
    unfolding bench_launches_def exec_run_only_if l by simp
qed

lemma exec_prologue:
  assumes i: "i \<in> {0..<nGpus args}"
  shows "exec_run i (False, n, d) (bench_prologue o' args red ip)
    = (if opt_cudaGraphLaunches o' \<ge> 1 then (True, 0, d + nat (opt_warmup_iters o')) else (False, n, d + nat (opt_warmup_iters o')))"
proof -
  have e: "exec_run i s (initEvents o' args m) = s" for s m by (rule exec_neutral) (rule record_neutral)
  show ?thesis
    by (simp add: bench_prologue_def exec_stages [OF i] exec_capture [OF i] e)
qed

lemma bench_checks_extend:
  "bench_checks e o' args red ip rep c w tr = (r, w', tr') \<Longrightarrow> r = TestSuccess \<Longrightarrow> \<exists>more. tr' = tr @ more"
proof (induction c arbitrary: w tr)
  case (Suc c)
  obtain r1 tr1 where 1: "perform e (bench_check_actions o' args red ip rep) tr = (r1, tr1)" by force
  have tr1: "r1 = TestSuccess \<Longrightarrow> tr1 = tr @ bench_check_actions o' args red ip rep" using 1 by (auto dest: perform_ok)
  show ?case
    using Suc.prems 1 tr1 Suc.IH by (fastforce simp: Let_def action_result_def split: if_splits)
qed simp

text \<open>The executions in the windows of the clock.\<close>

definition window_runs :: "int \<Rightarrow> (action list \<times> action list) list \<Rightarrow> int" where
  "window_runs i ws = (\<Sum>w\<leftarrow>ws. int (executed i (fst w @ snd w)) - int (executed i (fst w)))"

lemma iter_window_runs:
  assumes i: "i \<in> {0..<nGpus args}" and "exec_run i (False, 0, 0) tr = (False, n, d)"
  shows "window_runs i (iter_windows o' args red ip its tr) = int (length its) * int (nat (opt_agg_iters o'))"
  using assms(2)
proof (induction its arbitrary: tr d)
  case (Cons it its)
  have "exec_run i (False, 0, 0) (tr @ iter_full o' args red ip it) = (False, n, d + nat (opt_agg_iters o'))"
    using exec_stages(3) [OF i, of False n d o' red ip "[it]"] Cons.prems by simp
  from Cons.IH [OF this] show ?case
    by (simp add: window_runs_def executed_def Cons.prems exec_stages [OF i] algebra_simps)
qed (simp add: window_runs_def)

lemma bench_window_runs:
  assumes i: "i \<in> {0..<nGpus args}" and start: "\<not> capturing i tr0"
    and "0 \<le> opt_iters o'" "0 \<le> opt_agg_iters o'" and x: "opt_cudaGraphLaunches o' \<ge> 1 \<longrightarrow> opt_blocking_coll o' \<noteq> 3"
  shows "window_runs i (bench_windows o' args red ip tr0)
    = opt_iters o' * opt_agg_iters o' * (if opt_cudaGraphLaunches o' \<ge> 1 then opt_cudaGraphLaunches o' else 1)"
proof -
  obtain n d where s: "exec_run i (False, 0, 0) tr0 = (False, n, d)"
    using start by (cases "exec_run i (False, 0, 0) tr0") (auto simp: capturing_def)
  have its: "length [0..opt_iters o' - 1] = nat (opt_iters o')" by simp
  note runs = exec_stages [OF i] exec_prologue [OF i]
  consider "opt_blocking_coll o' = 3" "\<not> opt_cudaGraphLaunches o' \<ge> 1" | "opt_blocking_coll o' \<noteq> 3" "opt_cudaGraphLaunches o' \<ge> 1"
    | "opt_blocking_coll o' \<noteq> 3" "\<not> opt_cudaGraphLaunches o' \<ge> 1" using x by blast
  then show ?thesis
  proof cases
    case 1
    then have "exec_run i (False, 0, 0) (bench_started o' args red ip tr0) = (False, n, d + nat (opt_warmup_iters o'))"
      by (simp add: bench_started_def s runs)
    from iter_window_runs [OF i this, of o' red ip "[0..opt_iters o' - 1]"] 1 assms(3,4) show ?thesis
      by (simp add: bench_windows_def)
  next
    case 2
    then show ?thesis using assms(3,4)
      by (simp add: bench_windows_def window_runs_def executed_def bench_looped_def bench_started_def s runs mult.commute)
  next
    case 3
    then show ?thesis using assms(3,4)
      by (simp add: bench_windows_def window_runs_def executed_def bench_started_def s runs)
  qed
qed

lemma iter_windows_in_trace:
  "w \<in> set (iter_windows o' args red ip its tr) \<Longrightarrow> \<exists>rest. tr @ concat (map (iter_full o' args red ip) its) = fst w @ snd w @ rest"
proof (induction its arbitrary: tr)
  case (Cons it its)
  show ?case
  proof (cases "w = (tr, bench_iter_actions o' args red ip it)")
    case True
    then show ?thesis by (simp add: iter_full_def)
  next
    case False
    with Cons.prems have "w \<in> set (iter_windows o' args red ip its (tr @ iter_full o' args red ip it))" by auto
    from Cons.IH [OF this] show ?thesis by simp
  qed
qed simp

lemma bench_windows_in_trace:
  assumes "w \<in> set (bench_windows o' args red ip tr0)" and x: "opt_cudaGraphLaunches o' \<ge> 1 \<longrightarrow> opt_blocking_coll o' \<noteq> 3"
  shows "\<exists>rest. bench_looped o' args red ip tr0 @ bench_launches o' args @ completeColl o' @ zs = fst w @ snd w @ rest"
proof -
  have l: "bench_launches o' args = []" if "\<not> opt_cudaGraphLaunches o' \<ge> 1" using that by (simp add: bench_launches_def only_if_def)
  show ?thesis
  proof (cases "opt_blocking_coll o' = 3")
    case True
    with assms have "w \<in> set (iter_windows o' args red ip [0..opt_iters o' - 1] (bench_started o' args red ip tr0))"
      by (simp add: bench_windows_def)
    from iter_windows_in_trace [OF this] obtain rest where
      "bench_started o' args red ip tr0 @ concat (map (iter_full o' args red ip) [0..opt_iters o' - 1]) = fst w @ snd w @ rest" by blast
    then have "bench_looped o' args red ip tr0 = fst w @ snd w @ rest @ bench_capture_end o' args"
      unfolding bench_looped_def append_assoc [symmetric] by simp
    then show ?thesis by simp
  next
    case False
    then show ?thesis using assms l by (auto simp: bench_windows_def Let_def bench_looped_def split: if_splits)
  qed
qed

lemma iter_windows_ordered:
  "w \<in> set (iter_windows o' args red ip its tr) \<Longrightarrow> \<exists>x. fst w = tr @ x"
  "sorted_wrt (\<lambda>w w'. \<exists>x. fst w' = fst w @ snd w @ x) (iter_windows o' args red ip its tr)"
proof -
  show pre: "\<exists>x. fst w = tr @ x" if "w \<in> set (iter_windows o' args red ip its tr)" for w its tr
    using that by (induction its arbitrary: tr) fastforce+
  show "sorted_wrt (\<lambda>w w'. \<exists>x. fst w' = fst w @ snd w @ x) (iter_windows o' args red ip its tr)"
    by (induction its arbitrary: tr) (auto simp: iter_full_def dest!: pre)
qed

text \<open>C5: what the reported time measures. When a measurement succeeds, the time of the thread is the time the clock
  runs divided by the number of executions: in the stretches of the trace that are timed, one after the other, every GPU
  executes the collective exactly iterations times aggregated iterations times graph launches often (a captured call counts
  once for every launch of the graph); preparation, the barrier of blocking mode 3 and the check are outside. The
  bandwidths are those of the time reduced over all threads.\<close>

theorem bench_measures_executions:
  assumes R: "BenchTime e o' args ty red ip getBw rep tr0 = Inr R"
    and start: "\<forall>i. \<not> capturing i tr0" and its: "0 < opt_iters o'" "0 < opt_agg_iters o'"
    and opts: "options_ok version o'"
  shows "\<exists>timed. (\<forall>(before, during) \<in> set timed. \<exists>after. rep_trace R = before @ during @ after)
    \<and> sorted_wrt (\<lambda>(before, during) (before', during'). \<exists>between. before' = before @ during @ between) timed
    \<and> (\<forall>i\<in>{0..<nGpus args}. window_runs i timed = opt_iters o' * opt_agg_iters o' * max 1 (opt_cudaGraphLaunches o')
        \<and> real_of_int (window_runs i timed) * rep_localSec R = window_time e timed)
    \<and> (\<exists>n. rep_deltaSec R = env_allreduce_time e (take n (rep_trace R)) (rep_localSec R)
        \<and> n < length (rep_trace R) \<and> rep_trace R ! n = AllreduceTime (rep_localSec R))
    \<and> rep_bw R = getBw (nbytes args div wordSize ty) (wordSize ty) (rep_deltaSec R) (nranks_of args)"
proof (intro exI [of _ "bench_windows o' args red ip tr0"] conjI)
  let ?ws = "bench_windows o' args red ip tr0" and ?g = "opt_cudaGraphLaunches o'"
  note ok = bench_time_ok [OF R]
  have x: "?g \<ge> 1 \<longrightarrow> opt_blocking_coll o' \<noteq> 3" using opts by (simp add: options_ok_def)
  then have x': "opt_blocking_coll o' \<noteq> 3 \<or> ?g < 1" by linarith
  let ?before = "bench_looped o' args red ip tr0 @ bench_launches o' args @ completeColl o' @ bench_read_events o' args"
  obtain zs where tr: "rep_trace R = ?before @ AllreduceTime (rep_localSec R) # zs"
    using ok(1) bench_checks_extend by fastforce
  show "\<forall>(before, during) \<in> set ?ws. \<exists>after. rep_trace R = before @ during @ after"
    using bench_windows_in_trace [OF _ x] unfolding tr append_assoc by fastforce
  show "sorted_wrt (\<lambda>(before, during) (before', during'). \<exists>between. before' = before @ during @ between) ?ws"
    using iter_windows_ordered(2) by (simp add: bench_windows_def Let_def case_prod_unfold)
  show "\<forall>i\<in>{0..<nGpus args}. window_runs i ?ws = opt_iters o' * opt_agg_iters o' * max 1 ?g
      \<and> real_of_int (window_runs i ?ws) * rep_localSec R = window_time e ?ws"
  proof
    fix i assume i: "i \<in> {0..<nGpus args}"
    have "window_runs i ?ws = opt_iters o' * opt_agg_iters o' * (if ?g \<ge> 1 then ?g else 1)"
      using bench_window_runs [OF i _ _ _ x] start its by simp
    then have "window_runs i ?ws = opt_iters o' * opt_agg_iters o' * max 1 ?g" by (simp add: max_def)
    moreover have "rep_localSec R = window_time e ?ws / real_of_int (opt_iters o' * opt_agg_iters o' * max 1 ?g)"
      unfolding ok(2) [OF x'] by (simp add: max_def)
    ultimately show "window_runs i ?ws = opt_iters o' * opt_agg_iters o' * max 1 ?g
        \<and> real_of_int (window_runs i ?ws) * rep_localSec R = window_time e ?ws" using its by simp
  qed
  have "rep_deltaSec R = env_allreduce_time e (take (length ?before) (rep_trace R)) (rep_localSec R)"
    "length ?before < length (rep_trace R)" "rep_trace R ! length ?before = AllreduceTime (rep_localSec R)"
    unfolding tr by (simp_all add: ok(3) nth_append)
  then show "\<exists>n. rep_deltaSec R = env_allreduce_time e (take n (rep_trace R)) (rep_localSec R)
      \<and> n < length (rep_trace R) \<and> rep_trace R ! n = AllreduceTime (rep_localSec R)" by blast
  show "rep_bw R = getBw (nbytes args div wordSize ty) (wordSize ty) (rep_deltaSec R) (nranks_of args)" by (rule ok(4))
qed

text \<open>An environment without failures whose clock counts the actions.\<close>

definition quiet_env :: bench_env where
  "quiet_env = \<lparr>env_outcome = \<lambda>_ _. TestSuccess, env_clock = \<lambda>tr. real (length tr), env_wrong = \<lambda>_. 0,
     env_allreduce_time = \<lambda>_ x. x, env_allreduce_wrong = \<lambda>_ x. x\<rparr>"

lemma quiet_result [simp]: "action_result quiet_env tr a = TestSuccess"
  by (cases a) (simp_all add: action_result_def quiet_env_def)

lemma quiet_perform: "perform quiet_env as tr = (TestSuccess, tr @ as)"
  by (induction as arbitrary: tr) simp_all

lemma quiet_iters: "fst (bench_iters quiet_env o' args red ip its acc tr) = TestSuccess"
  by (induction its arbitrary: acc tr) (simp_all add: quiet_perform Let_def)

lemma quiet_checks: "fst (bench_checks quiet_env o' args red ip rep c w tr) = TestSuccess"
  by (induction c arbitrary: w tr) (simp_all add: quiet_perform Let_def)

lemma quiet_bench: "\<exists>R. BenchTime quiet_env o' args ty red ip getBw rep tr = Inr R"
  by (simp add: BenchTime_def check_then_def quiet_perform quiet_iters quiet_checks Let_def case_prod_unfold)

theorem bench_measures_executions_witness:
  "\<exists>R timed. BenchTime quiet_env (default_options\<lparr>opt_iters := 2, opt_agg_iters := 3, opt_cudaGraphLaunches := 5\<rparr>) example_args NcclFloat32 NcclSum
      False (\<lambda>_ _ sec _. (sec, sec)) 0 [] = Inr R \<and> window_runs 1 timed = 30 \<and> 30 * rep_localSec R = window_time quiet_env timed"
proof -
  let ?o = "default_options\<lparr>opt_iters := 2, opt_agg_iters := 3, opt_cudaGraphLaunches := 5\<rparr>"
  have h: "\<forall>i. \<not> capturing i []" "0 < opt_iters ?o" "0 < opt_agg_iters ?o" "options_ok 23100 ?o"
    by (simp_all add: options_ok_def default_options_def capturing_def)
  obtain R where R: "BenchTime quiet_env ?o example_args NcclFloat32 NcclSum False (\<lambda>_ _ sec _. (sec, sec)) 0 [] = Inr R"
    using quiet_bench by blast
  have g: "1 \<in> {0..<nGpus example_args}" by simp
  from bench_measures_executions [OF R h] obtain timed where
    "\<forall>i\<in>{0..<nGpus example_args}. window_runs i timed = opt_iters ?o * opt_agg_iters ?o * max 1 (opt_cudaGraphLaunches ?o)
      \<and> real_of_int (window_runs i timed) * rep_localSec R = window_time quiet_env timed" by blast
  note one = bspec [OF this g]
  then have t: "window_runs 1 timed = 30" by simp
  have "30 * rep_localSec R = window_time quiet_env timed" using conjunct2 [OF one] unfolding t by simp
  with R t show ?thesis by blast
qed

end
