(* ===== verification/HostEvents.thy ===== *)
theory HostEvents
  imports HostBench
begin

text \<open>
  The timing of single iterations (option \<open>-I\<close>) of \<open>BenchTime\<close> in src/common.cu: the events of a measurement and
  what the time between two of them covers. An event belongs to the GPU it was recorded on last; the time between two
  events of a GPU covers the collectives launched on the GPU in between. A call inside a group is launched at the
  end of the outermost group.
\<close>

section \<open>The meaning of events\<close>

text \<open>
  The collectives launched on every GPU and those waiting for the end of a group, the open groups, where every event was
  recorded last (GPU and number of collectives before it), the collectives every entry of \<open>ms\<close> covers, the events that
  exist, and whether only existing events were recorded, read and destroyed, and no event was created twice.
\<close>

record ev_state =
  ev_colls :: "int \<Rightarrow> int"
  ev_waiting :: "int \<Rightarrow> int"
  ev_depth :: nat
  ev_at :: "int \<Rightarrow> (int \<times> int) option"
  ev_ms :: "int \<Rightarrow> int option"
  ev_live :: "int set"
  ev_ok :: bool

definition ev_between :: "(int \<times> int) option \<Rightarrow> (int \<times> int) option \<Rightarrow> int option" where
  "ev_between a b =
     (case (a, b) of (Some (i, m), Some (i', n)) \<Rightarrow> if i = i' then Some (n - m) else None | _ \<Rightarrow> None)"

fun ev_step :: "ev_state \<Rightarrow> action \<Rightarrow> ev_state" where
  "ev_step s OpenGroup = s\<lparr>ev_depth := ev_depth s + 1\<rparr>"
| "ev_step s CloseGroup =
     (if ev_depth s = 1 then s\<lparr>ev_depth := 0, ev_colls := \<lambda>i. ev_colls s i + ev_waiting s i, ev_waiting := \<lambda>i. 0\<rparr>
      else s\<lparr>ev_depth := ev_depth s - 1\<rparr>)"
| "ev_step s (Coll i it ip) =
     (if ev_depth s = 0 then s\<lparr>ev_colls := (ev_colls s)(i := ev_colls s i + 1)\<rparr>
      else s\<lparr>ev_waiting := (ev_waiting s)(i := ev_waiting s i + 1)\<rparr>)"
| "ev_step s (EventCreate e) = s\<lparr>ev_live := insert e (ev_live s), ev_ok := (ev_ok s \<and> e \<notin> ev_live s)\<rparr>"
| "ev_step s (EventRecord e i) = s\<lparr>ev_at := (ev_at s)(e := Some (i, ev_colls s i)), ev_ok := (ev_ok s \<and> e \<in> ev_live s)\<rparr>"
| "ev_step s (EventElapsed k a b) = s\<lparr>ev_ms := (ev_ms s)(k := ev_between (ev_at s a) (ev_at s b)),
     ev_ok := (ev_ok s \<and> a \<in> ev_live s \<and> b \<in> ev_live s)\<rparr>"
| "ev_step s (EventDestroy e) = s\<lparr>ev_live := ev_live s - {e}, ev_ok := (ev_ok s \<and> e \<in> ev_live s)\<rparr>"
| "ev_step s a = s"

definition ev_run :: "ev_state \<Rightarrow> action list \<Rightarrow> ev_state" where
  "ev_run s tr = foldl ev_step s tr"

lemma ev_run_simps [simp]:
  "ev_run s [] = s" "ev_run s (a # as) = ev_run (ev_step s a) as" "ev_run s (as @ bs) = ev_run (ev_run s as) bs"
  by (simp_all add: ev_run_def)

lemma ev_run_only_if [simp]: "ev_run s (only_if b xs) = (if b then ev_run s xs else s)"
  by (simp add: only_if_def)

fun silent :: "action \<Rightarrow> bool" where
  "silent OpenGroup = False"
| "silent CloseGroup = False"
| "silent (Coll i it ip) = False"
| "silent (EventCreate e) = False"
| "silent (EventRecord e i) = False"
| "silent (EventElapsed k a b) = False"
| "silent (EventDestroy e) = False"
| "silent a = True"

lemma ev_run_silent: "list_all silent as \<Longrightarrow> ev_run s as = s"
proof (induction as arbitrary: s)
  case (Cons a as)
  moreover have "ev_step s a = s" using Cons.prems by (cases a) simp_all
  ultimately show ?case by simp
qed simp

section \<open>What the loops over the GPUs do\<close>

abbreviation gpu_set :: "threadArgs \<Rightarrow> int set" where
  "gpu_set args \<equiv> {0..<nGpus args}"

text \<open>More collectives on every GPU, and no collectives left over from a group.\<close>

definition add_colls :: "int set \<Rightarrow> int \<Rightarrow> ev_state \<Rightarrow> ev_state" where
  "add_colls G n s =
     (if ev_depth s = 0 then s\<lparr>ev_colls := \<lambda>i. ev_colls s i + (if i \<in> G then n else 0)\<rparr>
      else s\<lparr>ev_waiting := \<lambda>i. ev_waiting s i + (if i \<in> G then n else 0)\<rparr>)"

definition ev_settled :: "ev_state \<Rightarrow> bool" where
  "ev_settled s \<longleftrightarrow> (ev_depth s = 0 \<longrightarrow> ev_waiting s = (\<lambda>i. 0))"

lemma add_colls_simps [simp]:
  "ev_at (add_colls G n s) = ev_at s" "ev_ms (add_colls G n s) = ev_ms s" "ev_live (add_colls G n s) = ev_live s" "ev_ok (add_colls G n s) = ev_ok s"
  "ev_depth (add_colls G n s) = ev_depth s" "ev_settled (add_colls G n s) = ev_settled s" "add_colls G 0 s = s"
  "add_colls G n (add_colls G m s) = add_colls G (n + m) s"
  by (auto simp: add_colls_def ev_settled_def fun_eq_iff)

lemma add_colls_outside [simp]:
  "ev_depth s = 0 \<Longrightarrow> ev_colls (add_colls G n s) i = ev_colls s i + (if i \<in> G then n else 0)"
  by (simp add: add_colls_def)

text \<open>A group of calls is the same as the calls outside a group.\<close>

lemma ev_group:
  "ev_settled s \<Longrightarrow> ev_step (add_colls G n (s\<lparr>ev_depth := Suc (ev_depth s)\<rparr>)) CloseGroup = add_colls G n s"
  by (auto simp: add_colls_def ev_settled_def fun_eq_iff)

lemma ev_start:
  assumes s: "ev_settled s"
  shows "ev_run s (start_actions o' args red ip it) = add_colls (gpu_set args) 1 s"
proof -
  let ?f = "\<lambda>i. only_if (red = NcclPreMulSum) [CreateOp i] @ only_if (opt_hostRmaImpl o' \<or> opt_deviceImpl o' \<noteq> 0) [SetDevice i]
      @ [Coll i it ip] @ only_if (red = NcclPreMulSum) [DestroyOp i]"
  have f: "ev_run s (?f i) = add_colls {i} 1 s" for i s by (auto simp: add_colls_def fun_eq_iff)
  have "ev_run s (concat (map ?f js)) = add_colls (set js) 1 s" if "distinct js" for js s
    using that
  proof (induction js arbitrary: s)
    case (Cons i js)
    then show ?case by (simp only: list.map concat.simps ev_run_simps(3) f) (auto simp: add_colls_def fun_eq_iff)
  qed (simp add: add_colls_def)
  from this [of "[0..nGpus args - 1]"] have r: "ev_run s (for_gpus args ?f) = add_colls (gpu_set args) 1 s" for s
    by (simp add: for_gpus_def atLeastLessThanPlusOne_atLeastAtMost_int [symmetric])
  show ?thesis
    using ev_group [OF s, of "gpu_set args" 1]
    unfolding start_actions_def ev_run_simps(3) ev_run_only_if r by (simp del: ev_step.simps(2))
qed

text \<open>A record of one event for every GPU.\<close>

definition set_events :: "int set \<Rightarrow> int \<Rightarrow> int \<Rightarrow> ev_state \<Rightarrow> ev_state" where
  "set_events G c x s = s\<lparr>ev_at := \<lambda>e. if e mod c = x \<and> e div c \<in> G then Some (e div c, ev_colls s (e div c)) else ev_at s e\<rparr>"

lemma index_split: "0 \<le> x \<Longrightarrow> x < c \<Longrightarrow> (i * c + x) div c = i \<and> (i * c + x) mod c = (x :: int)"
  by simp

lemma ev_record:
  assumes x: "0 \<le> x" "x < c" and live: "\<And>i. i \<in> set js \<Longrightarrow> i * c + x \<in> ev_live s"
  shows "ev_run s (concat (map (\<lambda>i. [SetDevice i, EventRecord (i * c + x) i]) js)) = set_events (set js) c x s"
  using live
proof (induction js arbitrary: s)
  case (Cons i js)
  let ?s = "s\<lparr>ev_at := (ev_at s)(i * c + x := Some (i, ev_colls s i))\<rparr>"
  have "ev_run s (concat (map (\<lambda>i. [SetDevice i, EventRecord (i * c + x) i]) (i # js)))
      = ev_run ?s (concat (map (\<lambda>i. [SetDevice i, EventRecord (i * c + x) i]) js))"
    using Cons.prems by simp
  also have "\<dots> = set_events (set js) c x ?s" using Cons.prems by (intro Cons.IH) simp
  also have "\<dots> = set_events (set (i # js)) c x s"
  proof -
    have e: "e = i * c + x \<longleftrightarrow> e mod c = x \<and> e div c = i" for e
      using index_split [OF x, of i] div_mult_mod_eq [of e c] by auto
    show ?thesis
      unfolding set_events_def by (intro ev_state.equality) (auto simp: fun_eq_iff e)
  qed
  finally show ?case .
qed (simp add: set_events_def)

lemma set_events_simps [simp]:
  "ev_colls (set_events G c x s) = ev_colls s" "ev_ms (set_events G c x s) = ev_ms s" "ev_live (set_events G c x s) = ev_live s"
  "ev_ok (set_events G c x s) = ev_ok s" "ev_depth (set_events G c x s) = ev_depth s" "ev_waiting (set_events G c x s) = ev_waiting s"
  "ev_settled (set_events G c x s) = ev_settled s"
  by (simp_all add: set_events_def ev_settled_def)

lemma set_events_at:
  "i \<in> G \<Longrightarrow> 0 \<le> y \<Longrightarrow> y < c \<Longrightarrow> ev_at (set_events G c x s) (i * c + y) = (if y = x then Some (i, ev_colls s i) else ev_at s (i * c + y))"
  using index_split [of y c i] by (simp add: set_events_def)

lemma gpu_list: "set [0..nGpus args - 1] = gpu_set args"
  by (auto simp: atLeastLessThanPlusOne_atLeastAtMost_int [symmetric])

text \<open>The events of all GPUs, \<open>c\<close> for each.\<close>

definition all_events :: "int set \<Rightarrow> int \<Rightarrow> int set" where
  "all_events G c = {e. 0 < c \<and> e div c \<in> G}"

lemma all_events_mem: "i \<in> G \<Longrightarrow> 0 \<le> x \<Longrightarrow> x < c \<Longrightarrow> i * c + x \<in> all_events G c"
  using index_split [of x c i] by (simp add: all_events_def)

lemma ev_create_list:
  "\<lbrakk>distinct es; set es \<inter> ev_live s = {}\<rbrakk> \<Longrightarrow> ev_run s (map EventCreate es) = s\<lparr>ev_live := ev_live s \<union> set es\<rparr>"
  by (induction es arbitrary: s) auto

lemma ev_destroy_list:
  "\<lbrakk>distinct es; set es \<subseteq> ev_live s\<rbrakk> \<Longrightarrow> ev_run s (map EventDestroy es) = s\<lparr>ev_live := ev_live s - set es\<rparr>"
proof (induction es arbitrary: s)
  case (Cons e es)
  then have "set es \<subseteq> ev_live s - {e}" by auto
  with Cons show ?case by (simp add: insert_absorb) (intro ev_state.equality; auto)
qed simp

definition event_row :: "int \<Rightarrow> int \<Rightarrow> int list" where
  "event_row c i = map (\<lambda>j. i * c + j) [0..c - 1]"

lemma event_row: "0 < c \<Longrightarrow> set (event_row c i) = {e. e div c = i}" "distinct (event_row c i)"
proof -
  show "set (event_row c i) = {e. e div c = i}" if "0 < c"
  proof (intro equalityI subsetI)
    fix e assume "e \<in> {e. e div c = i}"
    then have "e = i * c + e mod c" using div_mult_mod_eq [of e c] by simp
    moreover have "e mod c \<in> set [0..c - 1]" using that by simp
    ultimately show "e \<in> set (event_row c i)" unfolding event_row_def set_map by blast
  next
    fix e assume "e \<in> set (event_row c i)"
    then obtain j where "j \<in> set [0..c - 1]" "e = i * c + j" unfolding event_row_def set_map by blast
    then show "e \<in> {e. e div c = i}" using index_split [of j c i] by simp
  qed
  show "distinct (event_row c i)" by (auto simp: event_row_def distinct_map inj_on_def)
qed

lemma ev_create:
  assumes c: "0 < c" and "distinct js" and "ev_live s \<inter> all_events (set js) c = {}"
  shows "ev_run s (concat (map (\<lambda>i. SetDevice i # map (\<lambda>j. EventCreate (i * c + j)) [0..c - 1]) js))
    = s\<lparr>ev_live := ev_live s \<union> all_events (set js) c\<rparr>"
  using assms(2,3)
proof (induction js arbitrary: s)
  case (Cons i js)
  have row: "map (\<lambda>j. EventCreate (i * c + j)) [0..c - 1] = map EventCreate (event_row c i)" by (simp add: event_row_def)
  let ?s = "s\<lparr>ev_live := ev_live s \<union> set (event_row c i)\<rparr>"
  have "set (event_row c i) \<inter> ev_live s = {}" using Cons.prems c by (auto simp: event_row all_events_def)
  then have "ev_run s (SetDevice i # map (\<lambda>j. EventCreate (i * c + j)) [0..c - 1]) = ?s"
    unfolding row by (simp add: ev_create_list event_row)
  moreover have "ev_live ?s \<inter> all_events (set js) c = {}" using Cons.prems c by (auto simp: event_row all_events_def)
  ultimately have "ev_run s (concat (map (\<lambda>i. SetDevice i # map (\<lambda>j. EventCreate (i * c + j)) [0..c - 1]) (i # js)))
      = ?s\<lparr>ev_live := ev_live ?s \<union> all_events (set js) c\<rparr>"
    using Cons.IH [of ?s] Cons.prems(1) by simp
  also have "\<dots> = s\<lparr>ev_live := ev_live s \<union> all_events (set (i # js)) c\<rparr>"
    using c by (intro ev_state.equality) (auto simp: event_row all_events_def)
  finally show ?case .
qed (simp add: all_events_def)

lemma ev_destroy:
  assumes c: "0 < c" and "distinct js" and "all_events (set js) c \<subseteq> ev_live s"
  shows "ev_run s (concat (map (\<lambda>i. map (\<lambda>j. EventDestroy (i * c + j)) [0..c - 1]) js))
    = s\<lparr>ev_live := ev_live s - all_events (set js) c\<rparr>"
  using assms(2,3)
proof (induction js arbitrary: s)
  case (Cons i js)
  have row: "map (\<lambda>j. EventDestroy (i * c + j)) [0..c - 1] = map EventDestroy (event_row c i)" by (simp add: event_row_def)
  let ?s = "s\<lparr>ev_live := ev_live s - set (event_row c i)\<rparr>"
  have "set (event_row c i) \<subseteq> ev_live s" using Cons.prems c by (auto simp: event_row all_events_def)
  then have "ev_run s (map (\<lambda>j. EventDestroy (i * c + j)) [0..c - 1]) = ?s"
    unfolding row by (simp add: ev_destroy_list event_row)
  moreover have "all_events (set js) c \<subseteq> ev_live ?s" using Cons.prems c by (auto simp: event_row all_events_def)
  ultimately have "ev_run s (concat (map (\<lambda>i. map (\<lambda>j. EventDestroy (i * c + j)) [0..c - 1]) (i # js)))
      = ?s\<lparr>ev_live := ev_live ?s - all_events (set js) c\<rparr>"
    using Cons.IH [of ?s] Cons.prems(1) by simp
  also have "\<dots> = s\<lparr>ev_live := ev_live s - all_events (set (i # js)) c\<rparr>"
    using c by (intro ev_state.equality) (auto simp: event_row all_events_def)
  finally show ?case .
qed (simp add: all_events_def)

text \<open>The times that are read.\<close>

lemma ev_elapsed_list:
  assumes "distinct (map fst ts)" and "\<And>k a b. (k, a, b) \<in> set ts \<Longrightarrow> a \<in> ev_live s \<and> b \<in> ev_live s"
  shows "ev_run s (map (\<lambda>(k, a, b). EventElapsed k a b) ts)
    = s\<lparr>ev_ms := \<lambda>k. case map_of ts k of None \<Rightarrow> ev_ms s k | Some (a, b) \<Rightarrow> ev_between (ev_at s a) (ev_at s b)\<rparr>"
  using assms
proof (induction ts arbitrary: s)
  case (Cons t ts)
  obtain k a b where t: "t = (k, a, b)" by (cases t)
  let ?s = "s\<lparr>ev_ms := (ev_ms s)(k := ev_between (ev_at s a) (ev_at s b))\<rparr>"
  have live: "a \<in> ev_live s \<and> b \<in> ev_live s" using Cons.prems(2) [of k a b] t by simp
  have "map_of ts k = None" using Cons.prems(1) t by (simp add: map_of_eq_None_iff)
  moreover have "ev_run ?s (map (\<lambda>(k, a, b). EventElapsed k a b) ts)
      = ?s\<lparr>ev_ms := \<lambda>k. case map_of ts k of None \<Rightarrow> ev_ms ?s k | Some (a, b) \<Rightarrow> ev_between (ev_at ?s a) (ev_at ?s b)\<rparr>"
    using Cons.prems by (intro Cons.IH) auto
  moreover have "ev_step s (EventElapsed k a b) = ?s" using live by simp
  ultimately show ?case unfolding t by (auto simp: fun_eq_iff intro!: ev_state.equality split: option.splits)
qed simp

definition elapsed_reads :: "int \<Rightarrow> int \<Rightarrow> (int \<Rightarrow> int) \<Rightarrow> (int \<Rightarrow> int) \<Rightarrow> int list \<Rightarrow> (int \<times> int \<times> int) list" where
  "elapsed_reads n c a b js = concat (map (\<lambda>i. map (\<lambda>j. (i * n + j, i * c + a j, i * c + b j)) [0..n - 1]) js)"

lemma event_rows_distinct: "distinct js \<Longrightarrow> distinct (concat (map (event_row n) js))"
proof (cases "0 < n")
  case True
  assume "distinct js"
  then show ?thesis
    by (induction js) (auto simp: event_row(1) [OF True] event_row(2))
next
  case False
  then have "event_row n = (\<lambda>i. [])" by (simp add: fun_eq_iff event_row_def)
  then show ?thesis by (induction js) simp_all
qed

lemma ev_elapsed:
  assumes js: "distinct js" and ab: "\<And>j. j \<in> {0..<n} \<Longrightarrow> 0 \<le> a j \<and> a j < c \<and> 0 \<le> b j \<and> b j < c"
    and live: "all_events (set js) c \<subseteq> ev_live s" and ij: "i \<in> set js" "j \<in> {0..<n}"
    and s': "s' = ev_run s (concat (map (\<lambda>i. SetDevice i # map (\<lambda>j. EventElapsed (i * n + j) (i * c + a j) (i * c + b j)) [0..n - 1]) js))"
  shows "ev_ms s' (i * n + j) = ev_between (ev_at s (i * c + a j)) (ev_at s (i * c + b j))" "ev_live s' = ev_live s" "ev_ok s' = ev_ok s"
    "ev_depth s' = ev_depth s" "ev_waiting s' = ev_waiting s"
proof -
  let ?ts = "elapsed_reads n c a b js"
  have "ev_run s (concat (map (\<lambda>i. SetDevice i # map (\<lambda>j. EventElapsed (i * n + j) (i * c + a j) (i * c + b j)) [0..n - 1]) js))
      = ev_run s (map (\<lambda>(k, a, b). EventElapsed k a b) (elapsed_reads n c a b js))" for s js
    by (induction js arbitrary: s) (simp_all add: elapsed_reads_def comp_def)
  with s' have s': "s' = ev_run s (map (\<lambda>(k, a, b). EventElapsed k a b) ?ts)" by simp
  have "map fst ?ts = concat (map (event_row n) js)"
    by (simp add: elapsed_reads_def map_concat comp_def event_row_def [abs_def])
  then have d: "distinct (map fst ?ts)" using event_rows_distinct [OF js] by simp
  have l: "x \<in> ev_live s \<and> y \<in> ev_live s" if "(k, x, y) \<in> set ?ts" for k x y
    using that ab live by (auto simp: elapsed_reads_def intro!: subsetD [OF live] all_events_mem)
  have "(i * n + j, i * c + a j, i * c + b j) \<in> set ?ts"
  proof -
    have "j \<in> set [0..n - 1]" using ij by simp
    then have "(i * n + j, i * c + a j, i * c + b j) \<in> set (map (\<lambda>j. (i * n + j, i * c + a j, i * c + b j)) [0..n - 1])"
      unfolding set_map by (rule imageI)
    moreover have "map (\<lambda>j. (i * n + j, i * c + a j, i * c + b j)) [0..n - 1]
        \<in> set (map (\<lambda>i. map (\<lambda>j. (i * n + j, i * c + a j, i * c + b j)) [0..n - 1]) js)"
      unfolding set_map by (rule imageI) (rule ij(1))
    ultimately show ?thesis unfolding elapsed_reads_def set_concat by (rule UN_I [rotated])
  qed
  note some = map_of_is_SomeI [OF d this]
  have run: "ev_run s (map (\<lambda>(k, a, b). EventElapsed k a b) ?ts)
      = s\<lparr>ev_ms := \<lambda>k. case map_of ?ts k of None \<Rightarrow> ev_ms s k | Some (a, b) \<Rightarrow> ev_between (ev_at s a) (ev_at s b)\<rparr>"
    by (rule ev_elapsed_list [OF d]) (rule l)
  from some show "ev_ms s' (i * n + j) = ev_between (ev_at s (i * c + a j)) (ev_at s (i * c + b j))"
    unfolding s' run by simp
  show "ev_live s' = ev_live s" "ev_ok s' = ev_ok s" "ev_depth s' = ev_depth s" "ev_waiting s' = ev_waiting s"
    unfolding s' run by simp_all
qed

section \<open>The steps of a measurement\<close>

abbreviation ev_count :: "options \<Rightarrow> int" where
  "ev_count o' \<equiv> getEventCount o' (opt_iters o')"

lemma ev_complete: "ev_run s (completeColl o') = s"
  by (simp add: completeColl_def)

lemma ev_recordEvents:
  assumes x: "0 \<le> x" "x < getEventCount o' n" and "x = (if opt_blocking_coll o' = 3 then 2 * it + st else it)"
    and live: "all_events (gpu_set args) (getEventCount o' n) \<subseteq> ev_live s"
  shows "ev_run s (recordEvents o' args n it st) = set_events (gpu_set args) (getEventCount o' n) x s"
proof -
  have "i * getEventCount o' n + x \<in> ev_live s" if "i \<in> set [0..nGpus args - 1]" for i
    using that x by (auto intro!: subsetD [OF live] all_events_mem)
  from ev_record [where js = "[0..nGpus args - 1]", OF x this] show ?thesis
    unfolding recordEvents_def for_gpus_def Let_def gpu_list assms(3) [symmetric] by blast
qed

lemma ev_initEvents:
  "0 < getEventCount o' n \<Longrightarrow> ev_live s = {} \<Longrightarrow>
    ev_run s (initEvents o' args n) = s\<lparr>ev_live := all_events (gpu_set args) (getEventCount o' n)\<rparr>"
  using ev_create [of "getEventCount o' n" "[0..nGpus args - 1]" s]
  unfolding initEvents_def for_gpus_def Let_def gpu_list by simp

lemma ev_destroyEvents:
  "0 < getEventCount o' n \<Longrightarrow> ev_live s = all_events (gpu_set args) (getEventCount o' n) \<Longrightarrow>
    ev_run s (destroyEvents o' args n) = s\<lparr>ev_live := {}\<rparr>"
  using ev_destroy [of "getEventCount o' n" "[0..nGpus args - 1]" s]
  unfolding destroyEvents_def for_gpus_def Let_def gpu_list by simp

lemma ev_starts:
  "ev_settled s \<Longrightarrow> ev_run s (concat (map (\<lambda>a. start_actions o' args red ip (f a)) js)) = add_colls (gpu_set args) (int (length js)) s"
  by (induction js arbitrary: s) (simp_all add: ev_start add.commute)

text \<open>One iteration, between groups: the start event, the collectives, and in blocking mode 3 the stop event.\<close>

lemma ev_iteration:
  assumes s: "ev_settled s" "ev_depth s = 0" and it: "0 \<le> it" "it < opt_iters o'" and agg: "0 < opt_agg_iters o'"
    and timing: "opt_per_iter_timing o' \<noteq> 0" and live: "all_events (gpu_set args) (ev_count o') \<subseteq> ev_live s"
  shows "ev_run s (iter_full o' args red ip it) =
    (if opt_blocking_coll o' = 3
     then set_events (gpu_set args) (ev_count o') (2 * it + 1)
       (add_colls (gpu_set args) (opt_agg_iters o') (set_events (gpu_set args) (ev_count o') (2 * it) s))
     else add_colls (gpu_set args) (opt_agg_iters o') (set_events (gpu_set args) (ev_count o') it s))"
proof -
  let ?x = "if opt_blocking_coll o' = 3 then 2 * it else it" and ?A = "opt_agg_iters o'"
  let ?E = "set_events (gpu_set args) (ev_count o') ?x" and ?C = "add_colls (gpu_set args)"
  let ?d = "\<lambda>s. if 1 < ?A then s\<lparr>ev_depth := Suc (ev_depth s)\<rparr> else s"
  have E: "ev_run (?d s) (recordEvents o' args (opt_iters o') it 0) = ?E (?d s)"
    using it live by (intro ev_recordEvents) (auto simp: getEventCount_def)
  have settled: "ev_settled (?E (?d s))" using s by (simp add: ev_settled_def)
  have swap: "?E (s\<lparr>ev_depth := n\<rparr>) = (?E s)\<lparr>ev_depth := n\<rparr>" for n
    by (intro ev_state.equality) (simp_all add: set_events_def fun_eq_iff del: atLeastLessThan_iff)
  have starts: "ev_run (?E (?d s)) (concat (map (\<lambda>aiter. start_actions o' args red ip (it * ?A + aiter)) [0..?A - 1])) = ?C ?A (?E (?d s))"
    using ev_starts [OF settled, of o' args red ip "\<lambda>aiter. it * ?A + aiter" "[0..?A - 1]"] agg by simp
  have close: "ev_run (?C ?A (?E (?d s))) (only_if (?A > 1) [CloseGroup]) = ?C ?A (?E s)"
    using ev_group [of "?E s" "gpu_set args" ?A] s by (simp add: swap del: ev_step.simps(2))
  have "ev_run (?C ?A (?E s)) (recordEvents o' args (opt_iters o') it 1) = set_events (gpu_set args) (ev_count o') (2 * it + 1) (?C ?A (?E s))"
    if "opt_blocking_coll o' = 3"
    using it live that by (intro ev_recordEvents) (auto simp: getEventCount_def)

  note stop = this
  have start: "ev_run s (only_if (?A > 1) [OpenGroup]) = ?d s" by simp
  have rec: "ev_run (?d s) (only_if (opt_per_iter_timing o' \<noteq> 0) (recordEvents o' args (opt_iters o') it 0)) = ?E (?d s)"
    using E timing by (simp only: ev_run_only_if if_True simp_thms)
  show ?thesis
    unfolding iter_full_def bench_iter_actions_def ev_run_simps(3) start rec starts close using timing stop by simp
qed

section \<open>The loop\<close>

text \<open>After \<open>k\<close> iterations, for the numbers of collectives at the start.\<close>

definition timed_upto :: "options \<Rightarrow> threadArgs \<Rightarrow> (int \<Rightarrow> int) \<Rightarrow> int \<Rightarrow> ev_state \<Rightarrow> bool" where
  "timed_upto o' args base k s \<longleftrightarrow>
     ev_settled s \<and> ev_depth s = 0 \<and> ev_ok s \<and> ev_live s = all_events (gpu_set args) (ev_count o')
     \<and> (\<forall>i\<in>gpu_set args. ev_colls s i = base i + k * opt_agg_iters o'
         \<and> (\<forall>m\<in>{0..<k}.
              if opt_blocking_coll o' = 3
              then ev_at s (i * ev_count o' + 2 * m) = Some (i, base i + m * opt_agg_iters o')
                \<and> ev_at s (i * ev_count o' + (2 * m + 1)) = Some (i, base i + (m + 1) * opt_agg_iters o')
              else ev_at s (i * ev_count o' + m) = Some (i, base i + m * opt_agg_iters o')))"

lemma timed_step:
  assumes s: "timed_upto o' args base k s" and k: "0 \<le> k" "k < opt_iters o'" and agg: "0 < opt_agg_iters o'"
    and timing: "opt_per_iter_timing o' \<noteq> 0"
  shows "timed_upto o' args base (k + 1) (ev_run s (iter_full o' args red ip k))"
proof (cases "opt_blocking_coll o' = 3")
  case True
  let ?c = "ev_count o'" and ?A = "opt_agg_iters o'" and ?G = "gpu_set args"
  have c: "?c = 2 * opt_iters o'" using True by (simp add: getEventCount_def)
  have run: "ev_run s (iter_full o' args red ip k) = set_events ?G ?c (2 * k + 1) (add_colls ?G ?A (set_events ?G ?c (2 * k) s))"
    using ev_iteration [of s k o' args red ip] s k agg timing True by (simp add: timed_upto_def)
  have at: "ev_at (ev_run s (iter_full o' args red ip k)) (i * ?c + y)
      = (if y = 2 * k + 1 then Some (i, ev_colls s i + ?A) else if y = 2 * k then Some (i, ev_colls s i) else ev_at s (i * ?c + y))"
    if "i \<in> ?G" "0 \<le> y" "y < ?c" for i y
    using s that unfolding run timed_upto_def by (simp add: set_events_at)
  show ?thesis
    unfolding timed_upto_def
  proof (intro conjI ballI)
    fix i m assume i: "i \<in> ?G" and m: "m \<in> {0..<k + 1}"
    have b: "0 \<le> 2 * m" "2 * m < ?c" "0 \<le> 2 * m + 1" "2 * m + 1 < ?c" using m k c by auto
    have col: "ev_colls s i = base i + k * ?A" using s i unfolding timed_upto_def by simp
    have old: "ev_at s (i * ?c + 2 * m) = Some (i, base i + m * ?A) \<and> ev_at s (i * ?c + (2 * m + 1)) = Some (i, base i + (m + 1) * ?A)" if "m < k"
      using s i m True that unfolding timed_upto_def by simp
    show "if opt_blocking_coll o' = 3
        then ev_at (ev_run s (iter_full o' args red ip k)) (i * ?c + 2 * m) = Some (i, base i + m * ?A)
          \<and> ev_at (ev_run s (iter_full o' args red ip k)) (i * ?c + (2 * m + 1)) = Some (i, base i + (m + 1) * ?A)
        else ev_at (ev_run s (iter_full o' args red ip k)) (i * ?c + m) = Some (i, base i + m * ?A)"
      unfolding at [OF i b(1,2)] at [OF i b(3,4)] using True m old by (cases "m = k") (auto simp: col distrib_right)
  qed (use s in \<open>auto simp: run timed_upto_def algebra_simps\<close>)
next
  case False
  let ?c = "ev_count o'" and ?A = "opt_agg_iters o'" and ?G = "gpu_set args"
  have c: "?c = opt_iters o' + 1" using False by (simp add: getEventCount_def)
  have run: "ev_run s (iter_full o' args red ip k) = add_colls ?G ?A (set_events ?G ?c k s)"
    using ev_iteration [of s k o' args red ip] s k agg timing False by (simp add: timed_upto_def)
  have at: "ev_at (ev_run s (iter_full o' args red ip k)) (i * ?c + y) = (if y = k then Some (i, ev_colls s i) else ev_at s (i * ?c + y))"
    if "i \<in> ?G" "0 \<le> y" "y < ?c" for i y
    using s that unfolding run timed_upto_def by (simp add: set_events_at)
  show ?thesis
    unfolding timed_upto_def
  proof (intro conjI ballI)
    fix i m assume i: "i \<in> ?G" and m: "m \<in> {0..<k + 1}"
    have b: "0 \<le> m" "m < ?c" using m k c by auto
    have col: "ev_colls s i = base i + k * ?A" using s i unfolding timed_upto_def by simp
    have old: "ev_at s (i * ?c + m) = Some (i, base i + m * ?A)" if "m < k"
      using s i m False that unfolding timed_upto_def by simp
    show "if opt_blocking_coll o' = 3
        then ev_at (ev_run s (iter_full o' args red ip k)) (i * ?c + 2 * m) = Some (i, base i + m * ?A)
          \<and> ev_at (ev_run s (iter_full o' args red ip k)) (i * ?c + (2 * m + 1)) = Some (i, base i + (m + 1) * ?A)
        else ev_at (ev_run s (iter_full o' args red ip k)) (i * ?c + m) = Some (i, base i + m * ?A)"
      unfolding at [OF i b] using False m old by (cases "m = k") (auto simp: col)
  qed (use s in \<open>auto simp: run timed_upto_def algebra_simps\<close>)
qed

lemma timed_loop:
  assumes s: "timed_upto o' args base 0 s" and k: "k \<le> nat (opt_iters o')" and agg: "0 < opt_agg_iters o'"
    and timing: "opt_per_iter_timing o' \<noteq> 0"
  shows "timed_upto o' args base (int k) (ev_run s (concat (map (iter_full o' args red ip) [0..int k - 1])))"
  using k
proof (induction k)
  case (Suc k)
  have "[0..int (Suc k) - 1] = [0..int k - 1] @ [int k]" using upto_rec2 [of 0 "int k"] by simp
  with Suc timed_step [of o' args base "int k" _ red ip] agg timing show ?case by (simp add: add.commute)
qed (simp add: s)

text \<open>After the loop and the last event every pair of events covers one iteration.\<close>

definition start_event :: "options \<Rightarrow> int \<Rightarrow> int" where
  "start_event o' j = (if opt_blocking_coll o' = 3 then 2 * j else j)"

definition stop_event :: "options \<Rightarrow> int \<Rightarrow> int" where
  "stop_event o' j = (if opt_blocking_coll o' = 3 then 2 * j + 1 else j + 1)"

lemma timed_end:
  assumes s: "timed_upto o' args base (opt_iters o') s" and i: "i \<in> gpu_set args" and j: "j \<in> {0..<opt_iters o'}"
    and s': "s' = ev_run s (only_if (opt_blocking_coll o' \<noteq> 3) (recordEvents o' args (opt_iters o') (opt_iters o') 0))"
  shows "ev_between (ev_at s' (i * ev_count o' + start_event o' j)) (ev_at s' (i * ev_count o' + stop_event o' j)) = Some (opt_agg_iters o')"
proof (cases "opt_blocking_coll o' = 3")
  case True
  then have "ev_at s (i * ev_count o' + 2 * j) = Some (i, base i + j * opt_agg_iters o')"
    "ev_at s (i * ev_count o' + (2 * j + 1)) = Some (i, base i + (j + 1) * opt_agg_iters o')"
    using s i j unfolding timed_upto_def by simp_all
  with True show ?thesis by (simp add: s' ev_between_def start_event_def stop_event_def distrib_right)
next
  case False
  let ?c = "ev_count o'"
  have c: "?c = opt_iters o' + 1" using False by (simp add: getEventCount_def)
  have run: "s' = set_events (gpu_set args) ?c (opt_iters o') s"
    using s j False c ev_recordEvents [of "opt_iters o'" o' "opt_iters o'" "opt_iters o'" 0 args s] by (simp add: s' timed_upto_def)
  have at: "ev_at s' (i * ?c + y) = Some (i, base i + y * opt_agg_iters o')" if "0 \<le> y" "y \<le> opt_iters o'" for y
  proof (cases "y = opt_iters o'")
    case True
    then show ?thesis using s i that c unfolding run timed_upto_def by (simp add: set_events_at)
  next
    case neq: False
    then have "ev_at s (i * ?c + y) = Some (i, base i + y * opt_agg_iters o')"
      using s i that False unfolding timed_upto_def by simp
    moreover have "ev_at s' (i * ?c + y) = ev_at s (i * ?c + y)"
      unfolding run using i that neq c by (subst set_events_at) auto
    ultimately show ?thesis by simp
  qed
  have "0 \<le> j" "j \<le> opt_iters o'" "0 \<le> j + 1" "j + 1 \<le> opt_iters o'" using j by auto
  then show ?thesis unfolding start_event_def stop_event_def if_not_P [OF False]
    by (simp only: at) (simp add: ev_between_def distrib_right)
qed

definition ev_idle :: "ev_state \<Rightarrow> bool" where
  "ev_idle s \<longleftrightarrow> ev_settled s \<and> ev_depth s = 0 \<and> ev_ok s \<and> ev_live s = {}"

lemma ev_prologue:
  assumes s: "ev_idle s" and its: "0 < opt_iters o'" and timing: "opt_per_iter_timing o' \<noteq> 0" and g: "\<not> opt_cudaGraphLaunches o' \<ge> 1"
  shows "\<exists>base. timed_upto o' args base 0 (ev_run s (bench_prologue o' args red ip))"
proof -
  let ?s = "add_colls (gpu_set args) (int (length [0..opt_warmup_iters o' - 1])) s"
  have "0 < ev_count o'" using its by (simp add: getEventCount_def)
  moreover have "ev_run s (concat (map (start_actions o' args red ip) [0..opt_warmup_iters o' - 1])) = ?s"
    using ev_starts [of s o' args red ip "\<lambda>i. i"] s by (simp add: ev_idle_def)
  ultimately have "ev_run s (bench_prologue o' args red ip) = ?s\<lparr>ev_live := all_events (gpu_set args) (ev_count o')\<rparr>"
    using s timing g by (simp add: bench_prologue_def ev_complete ev_initEvents ev_idle_def only_if_def)
  moreover have "timed_upto o' args (ev_colls ?s) 0 (?s\<lparr>ev_live := all_events (gpu_set args) (ev_count o')\<rparr>)"
    using s by (simp add: timed_upto_def ev_idle_def ev_settled_def add_colls_def)
  ultimately show ?thesis by metis
qed

lemma ev_reads:
  assumes s: "ev_settled s" "ev_depth s = 0" "ev_ok s" "ev_live s = all_events (gpu_set args) (ev_count o')" and its: "0 < opt_iters o'"
    and timing: "opt_per_iter_timing o' \<noteq> 0"
    and between: "\<And>i j. i \<in> gpu_set args \<Longrightarrow> j \<in> {0..<opt_iters o'} \<Longrightarrow>
      ev_between (ev_at s (i * ev_count o' + start_event o' j)) (ev_at s (i * ev_count o' + stop_event o' j)) = Some n"
    and s': "s' = ev_run s (bench_read_events o' args)"
  shows "ev_idle s'" "i \<in> gpu_set args \<Longrightarrow> j \<in> {0..<opt_iters o'} \<Longrightarrow> ev_ms s' (i * opt_iters o' + j) = Some n"
proof -
  let ?c = "ev_count o'" and ?gs = "[0..nGpus args - 1]"
  let ?r = "ev_run s (getElapsedTimes o' args (opt_iters o'))"
  have c: "0 < ?c" using its by (simp add: getEventCount_def)
  have b: "0 \<le> start_event o' j \<and> start_event o' j < ?c \<and> 0 \<le> stop_event o' j \<and> stop_event o' j < ?c" if "j \<in> {0..<opt_iters o'}" for j
    using that by (auto simp: start_event_def stop_event_def getEventCount_def)
  have r: "?r = ev_run s (concat (map (\<lambda>i. SetDevice i
      # map (\<lambda>j. EventElapsed (i * opt_iters o' + j) (i * ?c + start_event o' j) (i * ?c + stop_event o' j)) [0..opt_iters o' - 1]) ?gs))"
    by (simp add: getElapsedTimes_def for_gpus_def Let_def start_event_def stop_event_def)
  have live: "all_events (set ?gs) ?c \<subseteq> ev_live s" unfolding gpu_list s(4) ..
  note el = ev_elapsed [of ?gs "opt_iters o'" "start_event o'" ?c "stop_event o'" s, OF _ b live _ _ r]
  have s': "s' = ev_run ?r (destroyEvents o' args (opt_iters o'))"
    using timing by (simp add: s' bench_read_events_def)
  have same: "ev_live ?r = ev_live s \<and> ev_ok ?r = ev_ok s \<and> ev_depth ?r = ev_depth s \<and> ev_waiting ?r = ev_waiting s"
  proof (cases "gpu_set args = {}")
    case True
    then have "?gs = []" by simp
    then show ?thesis unfolding r by simp
  next
    case False
    then obtain i where "i \<in> set ?gs" by (auto simp: gpu_list)
    moreover have "0 \<in> {0..<opt_iters o'}" using its by simp
    ultimately show ?thesis using el(2-5) [of i 0] by simp
  qed
  have d: "s' = ?r\<lparr>ev_live := {}\<rparr>"
    unfolding s' using ev_destroyEvents [OF c, of ?r args] same s(4) by simp
  show "ev_idle s'" unfolding d using same s by (simp add: ev_idle_def ev_settled_def)
  show "ev_ms s' (i * opt_iters o' + j) = Some n" if "i \<in> gpu_set args" "j \<in> {0..<opt_iters o'}"
    unfolding d using el(1) [of i j] between that by (simp add: gpu_list)
qed

text \<open>The check issues collectives and nothing else.\<close>

lemma for_gpus_silent: "(\<And>i. list_all silent (f i)) \<Longrightarrow> list_all silent (for_gpus args f)"
  by (auto simp: for_gpus_def list_all_iff)

lemma free_graphs_silent: "list_all silent (bench_free_graphs o' args)"
  by (simp add: bench_free_graphs_def only_if_def for_gpus_silent)

lemma ev_checks:
  assumes "ev_settled s" "bench_checks e o' args red ip rep c w tr = (TestSuccess, w', tr @ rest)"
  shows "\<exists>n. ev_run s rest = add_colls (gpu_set args) n s"
  using assms
proof (induction c arbitrary: w tr s rest)
  case 0
  then show ?case by (intro exI [of _ 0]) simp
next
  case (Suc c)
  let ?as = "bench_check_actions o' args red ip rep"
  have silent: "list_all silent (for_gpus args (\<lambda>i. [BeginCapture i]))" "list_all silent (for_gpus args (\<lambda>i. [EndCapture i]))"
    "list_all silent (for_gpus args (\<lambda>i. [Instantiate i]))" "list_all silent (for_gpus args (\<lambda>i. [Launch i]))"
    by (simp_all add: for_gpus_silent)
  have as: "ev_run s ?as = add_colls (gpu_set args) 1 s"
    using Suc.prems(1)
    by (simp add: bench_check_actions_def ev_start ev_run_silent [OF silent(1)] ev_run_silent [OF silent(2)] ev_run_silent [OF silent(3)]
      ev_run_silent [OF silent(4)] ev_run_silent [OF free_graphs_silent] ev_complete)
  obtain r tr1 where 1: "perform e ?as tr = (r, tr1)" by force
  with Suc.prems(2) have r: "r = TestSuccess" by (auto simp: Let_def split: if_splits)
  with 1 have tr1: "tr1 = tr @ ?as" by (auto dest: perform_ok)
  let ?w = "env_allreduce_wrong e tr1 (env_wrong e tr1)" and ?b = "AllreduceWrong (env_wrong e tr1)"
  have res: "(if ?w \<noteq> 0 then (TestSuccess, ?w, tr1 @ [?b]) else bench_checks e o' args red ip rep c ?w (tr1 @ [?b])) = (TestSuccess, w', tr @ rest)"
    using Suc.prems(2) 1 r by (simp add: action_result_def Let_def)
  show ?case
  proof (cases "?w = 0")
    case True
    with res have 2: "bench_checks e o' args red ip rep c ?w (tr1 @ [?b]) = (TestSuccess, w', tr @ rest)" by simp
    from bench_checks_extend [OF 2] obtain zs where zs: "tr @ rest = (tr1 @ [?b]) @ zs" by auto
    then have rest: "rest = ?as @ [?b] @ zs" unfolding tr1 by simp
    have "ev_settled (add_colls (gpu_set args) 1 s)" using Suc.prems(1) by simp
    from Suc.IH [OF this 2 [unfolded zs]] obtain n where "ev_run (add_colls (gpu_set args) 1 s) zs = add_colls (gpu_set args) n (add_colls (gpu_set args) 1 s)"
      by blast
    then show ?thesis by (intro exI [of _ "n + 1"]) (simp add: rest as)
  next
    case False
    with res have "tr @ rest = tr1 @ [?b]" by simp
    then have "rest = ?as @ [?b]" unfolding tr1 by simp
    then show ?thesis by (intro exI [of _ 1]) (simp add: as)
  qed
qed

text \<open>No collective and no event before the measurement.\<close>

definition ev_init :: ev_state where
  "ev_init = \<lparr>ev_colls = \<lambda>i. 0, ev_waiting = \<lambda>i. 0, ev_depth = 0, ev_at = \<lambda>e. None, ev_ms = \<lambda>k. None, ev_live = {}, ev_ok = True\<rparr>"

text \<open>C6: the times of single iterations (option -I). After a measurement that succeeds, the entry of every GPU and iteration
  is the time between two events of that GPU with exactly the aggregated calls of one iteration launched in between; only
  events that exist were recorded, read and destroyed, and at the end no event is left.\<close>

theorem iteration_times_cover:
  assumes R: "BenchTime e o' args ty red ip getBw rep tr0 = Inr R" and start: "ev_idle (ev_run ev_init tr0)"
    and its: "0 < opt_iters o'" "0 < opt_agg_iters o'" and timing: "opt_per_iter_timing o' \<noteq> 0" and opts: "options_ok version o'"
  shows "ev_idle (ev_run ev_init (rep_trace R))
    \<and> (\<forall>i\<in>{0..<nGpus args}. \<forall>j\<in>{0..<opt_iters o'}. ev_ms (ev_run ev_init (rep_trace R)) (i * opt_iters o' + j) = Some (opt_agg_iters o'))"
proof -
  have g: "\<not> opt_cudaGraphLaunches o' \<ge> 1" using opts timing by (auto simp: options_ok_def)
  let ?s0 = "ev_run ev_init tr0"
  let ?s1 = "ev_run ?s0 (bench_prologue o' args red ip)"
  let ?s2 = "ev_run ?s1 (concat (map (iter_full o' args red ip) [0..opt_iters o' - 1]))"
  let ?s3 = "ev_run ?s2 (only_if (opt_blocking_coll o' \<noteq> 3) (recordEvents o' args (opt_iters o') (opt_iters o') 0))"
  let ?s4 = "ev_run ?s3 (bench_read_events o' args)"
  obtain base where "timed_upto o' args base 0 ?s1" using ev_prologue [OF start its(1) timing g] by blast
  from timed_loop [OF this order_refl its(2) timing, of red ip] its have s2: "timed_upto o' args base (opt_iters o') ?s2" by simp
  have same: "ev_settled ?s3 = ev_settled ?s2 \<and> ev_depth ?s3 = ev_depth ?s2 \<and> ev_ok ?s3 = ev_ok ?s2 \<and> ev_live ?s3 = ev_live ?s2"
  proof (cases "opt_blocking_coll o' = 3")
    case False
    then show ?thesis
      using s2 its ev_recordEvents [of "opt_iters o'" o' "opt_iters o'" "opt_iters o'" 0 args ?s2] by (simp add: timed_upto_def getEventCount_def)
  qed simp
  with s2 have s3: "ev_settled ?s3" "ev_depth ?s3 = 0" "ev_ok ?s3" "ev_live ?s3 = all_events (gpu_set args) (ev_count o')"
    by (simp_all add: timed_upto_def)
  note reads = ev_reads [OF s3 its(1) timing timed_end [OF s2 _ _ refl] refl]
  obtain checks where c: "bench_checks e o' args red ip (rep + 1) (nat (opt_datacheck o')) 0
        (bench_looped o' args red ip tr0 @ bench_launches o' args @ completeColl o' @ bench_read_events o' args
          @ [AllreduceTime (rep_localSec R)] @ bench_free_graphs o' args @ [ThreadBarrier]) = (TestSuccess, rep_wrong R, checks)"
    and tr: "rep_trace R = checks @ only_if (opt_per_iter_timing o' \<noteq> 0) [GatherTimes]"
    using bench_time_ok(1) [OF R] by blast
  let ?pre = "bench_looped o' args red ip tr0 @ bench_launches o' args @ completeColl o' @ bench_read_events o' args
      @ [AllreduceTime (rep_localSec R)] @ bench_free_graphs o' args @ [ThreadBarrier]"
  have pre: "ev_run ev_init ?pre = ?s4"
    using g timing by (simp add: bench_looped_def bench_started_def bench_capture_end_def bench_launches_def ev_complete
      ev_run_silent [OF free_graphs_silent] only_if_def)
  obtain zs where zs: "checks = ?pre @ zs" using bench_checks_extend [OF c refl] by blast
  have "ev_settled ?s4" using reads(1) by (simp add: ev_idle_def)
  from ev_checks [OF this c [unfolded zs]] obtain n where "ev_run ?s4 zs = add_colls (gpu_set args) n ?s4" by blast
  then have "ev_run ev_init checks = add_colls (gpu_set args) n ?s4"
    unfolding zs ev_run_simps(3) [of ev_init ?pre] pre .
  then have "ev_run ev_init (rep_trace R) = add_colls (gpu_set args) n ?s4"
    unfolding tr using timing by (simp add: only_if_def)
  then show ?thesis using reads by (simp add: ev_idle_def)
qed

theorem iteration_times_cover_witness:
  "\<exists>R. BenchTime quiet_env (default_options\<lparr>opt_iters := 4, opt_agg_iters := 3, opt_per_iter_timing := 1\<rparr>) example_args NcclFloat32 NcclSum
      False (\<lambda>_ _ sec _. (sec, sec)) 0 [] = Inr R \<and> ev_ms (ev_run ev_init (rep_trace R)) 6 = Some 3"
proof -
  let ?o = "default_options\<lparr>opt_iters := 4, opt_agg_iters := 3, opt_per_iter_timing := 1\<rparr>"
  obtain R where R: "BenchTime quiet_env ?o example_args NcclFloat32 NcclSum False (\<lambda>_ _ sec _. (sec, sec)) 0 [] = Inr R"
    using quiet_bench by blast
  have h: "ev_idle (ev_run ev_init [])" "0 < opt_iters ?o" "0 < opt_agg_iters ?o" "opt_per_iter_timing ?o \<noteq> 0" "options_ok 23100 ?o"
    by (simp_all add: options_ok_def default_options_def ev_init_def ev_idle_def ev_settled_def)
  have ij: "1 \<in> {0..<nGpus example_args}" "2 \<in> {0..<opt_iters ?o}" by simp_all
  from bspec [OF bspec [OF conjunct2 [OF iteration_times_cover [OF R h]] ij(1)] ij(2)] R show ?thesis by auto
qed

end
