(* ===== verification/HostJson.thy ===== *)
theory HostJson
  imports NcclPrelude "HOL-Library.Monad_Syntax"
begin

text \<open>
  The JSON writer of src/util.cu: strings that are quoted, the stack of states, and the operations that write keys,
  values, objects and lists. An operation that fails an assertion, or writes past the end of a buffer, has no result.
  The writer is a refinement of building a tree: what it writes is the text of the tree built so far, for every
  sequence of operations, and closing what is open gives a complete document.
\<close>

section \<open>Strings\<close>

text \<open>The characters that are quoted, and what follows the backslash.\<close>

definition json_quoted :: "char \<Rightarrow> bool" where
  "json_quoted c \<longleftrightarrow> c \<in> {CHR 0x22, CHR 0x5C, CHR 0x2F, CHR 0x09, CHR 0x0A}"

definition quote_char :: "char \<Rightarrow> char" where
  "quote_char c = (if c = CHR 0x0A then CHR ''n'' else if c = CHR 0x09 then CHR ''t'' else c)"

text \<open>A \<open>char\<close> of C, which is signed.\<close>

definition char_value :: "char \<Rightarrow> int" where
  "char_value c = (let n = int (of_char c) in if n \<ge> 128 then n - 256 else n)"

definition unprintable :: "char \<Rightarrow> bool" where
  "unprintable c \<longleftrightarrow> char_value c \<ge> 0x7F \<or> char_value c \<le> 0x1F"

text \<open>The characters written so far are an argument; the terminating zero goes behind those of the result.\<close>

fun sanitize_from :: "int \<Rightarrow> string \<Rightarrow> string \<Rightarrow> bool \<times> string" where
  "sanitize_from m out [] = (True, out)"
| "sanitize_from m out (x # xs) =
     (if int (length out) + 1 \<ge> m then (False, out)
      else if json_quoted x then
        (if int (length out) + 2 > m then (False, out) else sanitize_from m (out @ [CHR 0x5C, quote_char x]) xs)
      else if unprintable x then (False, out)
      else sanitize_from m (out @ [x]) xs)"

definition sanitizeJson :: "int \<Rightarrow> string \<Rightarrow> bool \<times> string" where
  "sanitizeJson m s = sanitize_from m [] s"

text \<open>The text of a string, and the string of a text.\<close>

definition escape :: "string \<Rightarrow> string" where
  "escape s = concat (map (\<lambda>c. if json_quoted c then [CHR 0x5C, quote_char c] else [c]) s)"

fun unescape :: "string \<Rightarrow> string" where
  "unescape [] = []"
| "unescape [c] = [c]"
| "unescape (c # d # r) =
     (if c = CHR 0x5C then (if d = CHR ''n'' then CHR 0x0A else if d = CHR ''t'' then CHR 0x09 else d) # unescape r
      else c # unescape (d # r))"

definition printable_string :: "string \<Rightarrow> bool" where
  "printable_string s \<longleftrightarrow> (\<forall>c\<in>set s. json_quoted c \<or> \<not> unprintable c)"

lemma escape_simps [simp]:
  "escape [] = []" "escape (c # s) = (if json_quoted c then [CHR 0x5C, quote_char c] else [c]) @ escape s"
  "escape (s @ t) = escape s @ escape t"
  by (simp_all add: escape_def)

lemma unescape_plain: "c \<noteq> CHR 0x5C \<Longrightarrow> unescape (c # r) = c # unescape r"
  by (cases r) simp_all

lemma unescape_escape: "unescape (escape s) = s"
proof (induction s)
  case (Cons c s)
  show ?case
  proof (cases "json_quoted c")
    case True
    then show ?thesis using Cons by (auto simp: json_quoted_def quote_char_def)
  next
    case False
    then have "c \<noteq> CHR 0x5C" by (auto simp: json_quoted_def)
    then show ?thesis using Cons False by (simp add: unescape_plain)
  qed
qed simp

text \<open>
  What is kept of a string is its longest prefix that fits and is printable. The text may be one longer than the buffer
  allows: there is no room left for the terminating zero when a quoted character fills the buffer.
\<close>

definition overflows :: "int \<Rightarrow> string \<Rightarrow> bool" where
  "overflows m s \<longleftrightarrow> (\<exists>p c r. s = p @ c # r \<and> printable_string p \<and> int (length (escape p)) = m - 2 \<and> json_quoted c)"

lemma sanitize_from_prefix:
  "\<exists>p r. sanitize_from m out s = (r = [], out @ escape p) \<and> s = p @ r \<and> printable_string p"
proof (induction s arbitrary: out)
  case (Cons x xs)
  let ?out = "if json_quoted x then out @ [CHR 0x5C, quote_char x] else out @ [x]"
  show ?case
  proof (cases "sanitize_from m out (x # xs) = sanitize_from m ?out xs \<and> (json_quoted x \<or> \<not> unprintable x)")
    case True
    from Cons.IH [of ?out] obtain p r where "sanitize_from m ?out xs = (r = [], ?out @ escape p)" "xs = p @ r" "printable_string p" by blast
    with True show ?thesis
      by (intro exI [of _ "x # p"] exI [of _ r]) (auto simp: printable_string_def)
  next
    case False
    then have "sanitize_from m out (x # xs) = (False, out)" by (auto split: if_splits)
    then show ?thesis by (intro exI [of _ "[]"] exI [of _ "x # xs"]) (simp add: printable_string_def)
  qed
qed (simp add: printable_string_def)

lemma sanitize_from_length:
  "int (length out) \<le> m \<Longrightarrow> int (length (snd (sanitize_from m out s))) \<le> m"
  by (induction m out s rule: sanitize_from.induct) auto

lemma sanitize_from_overflow:
  "int (length out) + 1 \<le> m \<Longrightarrow> int (length (snd (sanitize_from m out s))) = m \<longleftrightarrow>
    (\<exists>p c r. s = p @ c # r \<and> printable_string p \<and> int (length out) + int (length (escape p)) = m - 2 \<and> json_quoted c)"
proof (induction s arbitrary: out)
  case (Cons x xs)
  have split: "(\<exists>p c r. x # xs = p @ c # r \<and> printable_string p \<and> int (length out) + int (length (escape p)) = m - 2 \<and> json_quoted c)
    \<longleftrightarrow> (int (length out) = m - 2 \<and> json_quoted x)
      \<or> (json_quoted x \<or> \<not> unprintable x) \<and> (\<exists>p c r. xs = p @ c # r \<and> printable_string p
          \<and> int (length out) + (if json_quoted x then 2 else 1) + int (length (escape p)) = m - 2 \<and> json_quoted c)"
    (is "?A \<longleftrightarrow> ?B \<or> ?C")
  proof
    assume ?A
    then obtain p c r where A: "x # xs = p @ c # r" "printable_string p" "int (length out) + int (length (escape p)) = m - 2" "json_quoted c" by blast
    then show "?B \<or> ?C" by (cases p) (auto simp: printable_string_def split: if_splits)
  next
    assume "?B \<or> ?C"
    then show ?A
    proof
      assume ?B
      then show ?A by (intro exI [of _ "[]"] exI [of _ x] exI [of _ xs]) (simp add: printable_string_def)
    next
      assume ?C
      then obtain p c r where "json_quoted x \<or> \<not> unprintable x" "xs = p @ c # r" "printable_string p"
        "int (length out) + (if json_quoted x then 2 else 1) + int (length (escape p)) = m - 2" "json_quoted c" by blast
      then show ?A by (intro exI [of _ "x # p"] exI [of _ c] exI [of _ r]) (auto simp: printable_string_def)
    qed
  qed
  consider "int (length out) + 1 = m" | "int (length out) + 2 = m" "json_quoted x" | "int (length out) + 3 \<le> m" "json_quoted x"
    | "int (length out) + 2 \<le> m" "\<not> json_quoted x" using Cons.prems by linarith
  then show ?case
  proof cases
    case 1
    then show ?thesis unfolding split by auto
  next
    case 2
    then have "sanitize_from m (out @ [CHR 0x5C, quote_char x]) xs = (xs = [], out @ [CHR 0x5C, quote_char x])" by (cases xs) auto
    with 2 show ?thesis unfolding split by simp
  next
    case 3
    then have "int (length (out @ [CHR 0x5C, quote_char x])) + 1 \<le> m" by simp
    from Cons.IH [OF this] 3 show ?thesis unfolding split by (simp add: algebra_simps)
  next
    case 4
    then have "int (length (out @ [x])) + 1 \<le> m" by simp
    from Cons.IH [OF this] 4 show ?thesis unfolding split by (auto simp: algebra_simps)
  qed
qed auto

text \<open>The bound of the buffer of \<open>sanitizeJson\<close>. With room for two characters or more, the characters written never
  exceed the buffer, but the terminating zero behind them does, by one, exactly for the strings that fill it to the
  last two characters and go on with one that is quoted.\<close>

theorem sanitize_bounds:
  assumes "2 \<le> m"
  shows "int (length (snd (sanitizeJson m s))) \<le> m \<and> (int (length (snd (sanitizeJson m s))) = m \<longleftrightarrow> overflows m s)"
  using sanitize_from_length [of "[]" m s] sanitize_from_overflow [of "[]" m s] assms
  by (simp_all add: sanitizeJson_def overflows_def)

theorem sanitize_bounds_witness:
  "int (length (snd (sanitizeJson 4 ''ab/''))) = 4 \<and> snd (sanitizeJson 4 ''ab/'') = [CHR ''a'', CHR ''b'', CHR 0x5C, CHR ''/'']
    \<and> overflows 4 ''ab/'' \<and> int (length (snd (sanitizeJson 4 ''ab''))) \<le> 4"
proof -
  have l: "snd (sanitizeJson 4 ''ab/'') = [CHR ''a'', CHR ''b'', CHR 0x5C, CHR ''/'']"
    by (simp add: sanitizeJson_def json_quoted_def unprintable_def char_value_def quote_char_def)
  then have "overflows 4 ''ab/''" using sanitize_bounds [of 4 "''ab/''"] by simp
  with l sanitize_bounds [of 4 "''ab''"] show ?thesis by simp
qed

text \<open>C39: round trip of \<open>sanitizeJson\<close>. Read back, its output is a prefix of the string, and all of it when it returns true.\<close>

theorem sanitize_round_trip:
  "\<exists>r. s = unescape (snd (sanitizeJson m s)) @ r \<and> (fst (sanitizeJson m s) \<longleftrightarrow> r = [])
    \<and> snd (sanitizeJson m s) = escape (unescape (snd (sanitizeJson m s)))"
  using sanitize_from_prefix [of m "[]" s] by (auto simp: sanitizeJson_def unescape_escape)

section \<open>The stack and the output\<close>

datatype json_state = JSON_NONE | JSON_KEY | JSON_OBJECT_EMPTY | JSON_OBJECT_SOME | JSON_LIST_EMPTY | JSON_LIST_SOME

text \<open>The top of the stack is the head of the list; \<open>state_n\<close> is its length.\<close>

record json_out =
  json_report :: string
  states :: "json_state list"
  state_cap :: nat

type_synonym json_op = "json_out \<Rightarrow> json_out option"

definition json_start :: json_out where
  "json_start = \<lparr>json_report = [], states = [], state_cap = 0\<rparr>"

text \<open>The array grows when it could be full after the next write; the write itself must be inside of it.\<close>

definition jsonPushState :: "json_state \<Rightarrow> json_op" where
  "jsonPushState st j =
     (let cap = (if state_cap j \<le> length (states j) + 1 then max 16 (state_cap j * 2) else state_cap j)
      in if st \<noteq> JSON_NONE \<and> length (states j) < cap then Some (j\<lparr>states := st # states j, state_cap := cap\<rparr>) else None)"

definition jsonCurrState :: "json_out \<Rightarrow> json_state" where
  "jsonCurrState j = (case states j of [] \<Rightarrow> JSON_NONE | st # _ \<Rightarrow> st)"

definition jsonReplaceState :: "json_state \<Rightarrow> json_op" where
  "jsonReplaceState st j =
     (case states j of [] \<Rightarrow> None | _ # sts \<Rightarrow> if st \<noteq> JSON_NONE then Some (j\<lparr>states := st # sts\<rparr>) else None)"

definition jsonPopState :: "json_out \<Rightarrow> json_state \<times> json_out" where
  "jsonPopState j = (case states j of [] \<Rightarrow> (JSON_NONE, j) | st # sts \<Rightarrow> (st, j\<lparr>states := sts\<rparr>))"

definition json_print :: "string \<Rightarrow> json_op" where
  "json_print s j = Some (j\<lparr>json_report := json_report j @ s\<rparr>)"

text \<open>Operations in a row.\<close>

definition json_seq :: "json_op list \<Rightarrow> json_op" where
  "json_seq ops j = foldl Option.bind (Some j) ops"

text \<open>A quoted string, from a buffer of 2048 characters.\<close>

definition json_text :: "string \<Rightarrow> string option" where
  "json_text s =
     (let out = snd (sanitizeJson 2048 s)
      in if length out < 2048 then Some ([CHR 0x22] @ out @ [CHR 0x22]) else None)"

definition jsonKey :: "string \<Rightarrow> json_op" where
  "jsonKey name j =
     do { j \<leftarrow> (case jsonCurrState j of
             JSON_OBJECT_EMPTY \<Rightarrow> jsonReplaceState JSON_OBJECT_SOME j
           | JSON_OBJECT_SOME \<Rightarrow> json_print '','' j
           | _ \<Rightarrow> None);
          t \<leftarrow> json_text name;
          j \<leftarrow> json_print (t @ '':'') j;
          jsonPushState JSON_KEY j }"

definition jsonValHelper :: json_op where
  "jsonValHelper j =
     (case jsonCurrState j of
        JSON_LIST_EMPTY \<Rightarrow> jsonReplaceState JSON_LIST_SOME j
      | JSON_LIST_SOME \<Rightarrow> json_print '','' j
      | JSON_KEY \<Rightarrow> Some (snd (jsonPopState j))
      | JSON_NONE \<Rightarrow> Some j
      | _ \<Rightarrow> None)"

definition jsonStartObject :: json_op where
  "jsonStartObject = json_seq [jsonValHelper, json_print ''{'', jsonPushState JSON_OBJECT_EMPTY]"

definition jsonFinishObject :: json_op where
  "jsonFinishObject j =
     (case jsonPopState j of
        (st, j') \<Rightarrow> if st \<in> {JSON_OBJECT_EMPTY, JSON_OBJECT_SOME} then json_print ''}'' j' else None)"

definition jsonStartList :: json_op where
  "jsonStartList = json_seq [jsonValHelper, json_print ''['', jsonPushState JSON_LIST_EMPTY]"

definition jsonFinishList :: json_op where
  "jsonFinishList j =
     (case jsonPopState j of
        (st, j') \<Rightarrow> if st \<in> {JSON_LIST_EMPTY, JSON_LIST_SOME} then json_print '']'' j' else None)"

definition jsonNull :: json_op where
  "jsonNull = json_seq [jsonValHelper, json_print ''null'']"

definition jsonFinishCurrent :: json_op where
  "jsonFinishCurrent j =
     (case jsonCurrState j of
        JSON_KEY \<Rightarrow> jsonNull j
      | JSON_OBJECT_EMPTY \<Rightarrow> jsonFinishObject j
      | JSON_OBJECT_SOME \<Rightarrow> jsonFinishObject j
      | JSON_LIST_EMPTY \<Rightarrow> jsonFinishList j
      | JSON_LIST_SOME \<Rightarrow> jsonFinishList j
      | JSON_NONE \<Rightarrow> None)"

text \<open>A null pointer is None.\<close>

definition jsonStr :: "string option \<Rightarrow> json_op" where
  "jsonStr s j =
     (case s of None \<Rightarrow> jsonNull j
      | Some s \<Rightarrow> do { j \<leftarrow> jsonValHelper j; t \<leftarrow> json_text s; json_print t j })"

definition jsonBool :: "bool \<Rightarrow> json_op" where
  "jsonBool val = jsonStr (Some (if val then ''true'' else ''false''))"

section \<open>Numbers\<close>

text \<open>The formats of \<open>printf\<close> for numbers.\<close>

definition dec_digit :: "nat \<Rightarrow> char" where
  "dec_digit n = ''0123456789'' ! n"

fun dec_nat :: "nat \<Rightarrow> string" where
  "dec_nat n = (if n < 10 then [dec_digit n] else dec_nat (n div 10) @ [dec_digit (n mod 10)])"

declare dec_nat.simps [simp del]

definition dec_int :: "int \<Rightarrow> string" where
  "dec_int n = (if n < 0 then ''-'' @ dec_nat (nat (- n)) else dec_nat (nat n))"

text \<open>The values of a double; zero has no sign.\<close>

datatype c_double = Finite real | Infinite bool | Nan

definition round_even :: "real \<Rightarrow> nat" where
  "round_even x =
     (let n = nat \<lfloor>x\<rfloor>; d = x - of_int \<lfloor>x\<rfloor> in if d > 1 / 2 \<or> d = 1 / 2 \<and> odd n then n + 1 else n)"

fun print_lf :: "c_double \<Rightarrow> string" where
  "print_lf (Finite x) =
     (let n = round_even (\<bar>x\<bar> * 10 ^ 6)
      in (if x < 0 then ''-'' else []) @ dec_nat (n div 10 ^ 6) @ ''.'' @ map (\<lambda>i. dec_digit (n div 10 ^ i mod 10)) [5, 4, 3, 2, 1, 0])"
| "print_lf (Infinite neg) = (if neg then ''-inf'' else ''inf'')"
| "print_lf Nan = ''nan''"

definition jsonInt :: "int \<Rightarrow> json_op" where
  "jsonInt val = json_seq [jsonValHelper, json_print (dec_int val)]"

definition jsonSize_t :: "u64 \<Rightarrow> json_op" where
  "jsonSize_t val = json_seq [jsonValHelper, json_print (dec_nat (unat val))]"

definition jsonDouble :: "c_double \<Rightarrow> json_op" where
  "jsonDouble val =
     json_seq [jsonValHelper, json_print (if val = Nan then [CHR 0x22] @ ''nan'' @ [CHR 0x22] else print_lf val)]"

section \<open>Closing the report\<close>

text \<open>The loop of \<open>jsonOutputFinalize\<close>.\<close>

partial_function (option) json_close :: "json_out \<Rightarrow> json_out option" where
  "json_close j = (if states j \<noteq> [] then Option.bind (jsonFinishCurrent j) json_close else Some j)"

text \<open>With the time of the end as an argument. The stack is freed.\<close>

definition jsonOutputFinalize :: "string \<Rightarrow> json_op" where
  "jsonOutputFinalize end_time j =
     do { j \<leftarrow> (if length (states j) = 1 \<and> jsonCurrState j \<in> {JSON_OBJECT_EMPTY, JSON_OBJECT_SOME}
               then json_seq [jsonKey ''end_time'', jsonStr (Some end_time)] j else Some j);
          j \<leftarrow> json_close j;
          if jsonCurrState j = JSON_NONE then Some (j\<lparr>states := [], state_cap := 0\<rparr>) else None }"

section \<open>Documents\<close>

text \<open>A value; numbers are their text.\<close>

datatype json = JNull | JNumber string | JString string | JList "json list" | JObject "(string \<times> json) list"

definition quoted :: "string \<Rightarrow> string" where
  "quoted s = [CHR 0x22] @ escape s @ [CHR 0x22]"

fun commas :: "string list \<Rightarrow> string" where
  "commas [] = []"
| "commas [t] = t"
| "commas (t # ts) = t @ '','' @ commas ts"

fun render :: "json \<Rightarrow> string" where
  "render JNull = ''null''"
| "render (JNumber t) = t"
| "render (JString s) = quoted s"
| "render (JList vs) = ''['' @ commas (map render vs) @ '']''"
| "render (JObject kvs) = ''{'' @ commas (map (\<lambda>(k, v). quoted k @ '':'' @ render v) kvs) @ ''}''"

lemma commas_snoc: "commas (ts @ [t]) = commas ts @ (if ts = [] then [] else '','') @ t"
proof (induction ts)
  case (Cons u us)
  then show ?case by (cases us) simp_all
qed simp

text \<open>What is open, innermost first: a key that waits for its value, an object or a list with what it holds so far.\<close>

datatype json_frame = FKey string | FObject "(string \<times> json) list" | FList "json list"

type_synonym json_doc = "json list \<times> json_frame list"

definition members :: "(string \<times> json) list \<Rightarrow> string" where
  "members kvs = commas (map (\<lambda>(k, v). quoted k @ '':'' @ render v) kvs)"

fun frame_text :: "json_frame \<Rightarrow> string" where
  "frame_text (FKey k) = quoted k @ '':''"
| "frame_text (FObject kvs) = ''{'' @ members kvs"
| "frame_text (FList vs) = ''['' @ commas (map render vs)"

fun separator :: "json_frame list \<Rightarrow> string" where
  "separator (FObject (_ # _) # _) = '',''"
| "separator (FList (_ # _) # _) = '',''"
| "separator _ = []"

fun open_text :: "json_frame list \<Rightarrow> string" where
  "open_text [] = []"
| "open_text (f # fs) = open_text fs @ separator fs @ frame_text f"

definition doc_text :: "json_doc \<Rightarrow> string" where
  "doc_text d = concat (map render (fst d)) @ open_text (snd d)"

fun frame_state :: "bool \<Rightarrow> json_frame \<Rightarrow> json_state" where
  "frame_state b (FKey k) = JSON_KEY"
| "frame_state b (FObject kvs) = (if b \<and> kvs = [] then JSON_OBJECT_EMPTY else JSON_OBJECT_SOME)"
| "frame_state b (FList vs) = (if b \<and> vs = [] then JSON_LIST_EMPTY else JSON_LIST_SOME)"

text \<open>A key is on the stack until its value starts.\<close>

fun below :: "json_frame list \<Rightarrow> json_state list" where
  "below [] = []"
| "below (FKey k # fs) = below fs"
| "below (f # fs) = frame_state False f # below fs"

fun frame_states :: "json_frame list \<Rightarrow> json_state list" where
  "frame_states [] = []"
| "frame_states (f # fs) = frame_state True f # below fs"

fun takes_value :: "json_frame list \<Rightarrow> bool" where
  "takes_value (FObject _ # _) = False"
| "takes_value _ = True"

fun frames_ok :: "json_frame list \<Rightarrow> bool" where
  "frames_ok [] = True"
| "frames_ok (FKey k # fs) = (\<not> takes_value fs \<and> frames_ok fs)"
| "frames_ok (f # fs) = (takes_value fs \<and> frames_ok fs)"

text \<open>The operations on documents.\<close>

fun add_value :: "json \<Rightarrow> json_doc \<Rightarrow> json_doc option" where
  "add_value v (vs, []) = Some (vs @ [v], [])"
| "add_value v (vs, FList us # fs) = Some (vs, FList (us @ [v]) # fs)"
| "add_value v (vs, FKey k # FObject kvs # fs) = Some (vs, FObject (kvs @ [(k, v)]) # fs)"
| "add_value v _ = None"

fun add_key :: "string \<Rightarrow> json_doc \<Rightarrow> json_doc option" where
  "add_key k (vs, FObject kvs # fs) = Some (vs, FKey k # FObject kvs # fs)"
| "add_key k _ = None"

fun open_frame :: "json_frame \<Rightarrow> json_doc \<Rightarrow> json_doc option" where
  "open_frame f (vs, fs) = (if takes_value fs then Some (vs, f # fs) else None)"

fun finish_object :: "json_doc \<Rightarrow> json_doc option" where
  "finish_object (vs, FObject kvs # fs) = add_value (JObject kvs) (vs, fs)"
| "finish_object _ = None"

fun finish_list :: "json_doc \<Rightarrow> json_doc option" where
  "finish_list (vs, FList us # fs) = add_value (JList us) (vs, fs)"
| "finish_list _ = None"

text \<open>What is kept of a string, if it does not overflow its buffer.\<close>

definition kept :: "string \<Rightarrow> string" where
  "kept s = unescape (snd (sanitizeJson 2048 s))"

lemma json_text: "json_text s = (if overflows 2048 s then None else Some (quoted (kept s)))"
proof -
  have "snd (sanitizeJson 2048 s) = escape (kept s)"
    using sanitize_from_prefix [of 2048 "[]" s] by (auto simp: sanitizeJson_def kept_def unescape_escape)
  moreover have "length (snd (sanitizeJson 2048 s)) < 2048 \<longleftrightarrow> \<not> overflows 2048 s"
    using sanitize_from_length [of "[]" 2048 s] sanitize_from_overflow [of "[]" 2048 s]
    by (auto simp: sanitizeJson_def overflows_def)
  ultimately show ?thesis by (simp add: json_text_def quoted_def Let_def)
qed

section \<open>The writer implements the operations on documents\<close>

definition json_rel :: "json_doc \<Rightarrow> json_out \<Rightarrow> bool" where
  "json_rel d j \<longleftrightarrow> json_report j = doc_text d \<and> states j = frame_states (snd d) \<and> length (states j) \<le> state_cap j \<and> frames_ok (snd d)"

definition implements :: "json_op \<Rightarrow> (json_doc \<Rightarrow> json_doc option) \<Rightarrow> bool" where
  "implements f g \<longleftrightarrow> (\<forall>d j. json_rel d j \<longrightarrow> (case g d of None \<Rightarrow> f j = None | Some d' \<Rightarrow> \<exists>j'. f j = Some j' \<and> json_rel d' j'))"

lemma implementsI:
  "(\<And>d j. json_rel d j \<Longrightarrow> g d = None \<Longrightarrow> f j = None) \<Longrightarrow> (\<And>d j d'. json_rel d j \<Longrightarrow> g d = Some d' \<Longrightarrow> \<exists>j'. f j = Some j' \<and> json_rel d' j')
    \<Longrightarrow> implements f g"
  by (auto simp: implements_def split: option.split)

lemma implementsD:
  "implements f g \<Longrightarrow> json_rel d j \<Longrightarrow> (case g d of None \<Rightarrow> f j = None | Some d' \<Rightarrow> \<exists>j'. f j = Some j' \<and> json_rel d' j')"
  unfolding implements_def by blast

lemma json_seq_simps [simp]:
  "json_seq [] j = Some j" "json_seq (f # fs) j = Option.bind (f j) (json_seq fs)"
proof -
  have n: "foldl Option.bind None fs = None" for fs :: "json_op list" by (induction fs) simp_all
  show "json_seq [] j = Some j" "json_seq (f # fs) j = Option.bind (f j) (json_seq fs)"
    by (cases "f j"; simp add: json_seq_def [abs_def] n)+
qed

lemma push_grows:
  "length (states j) \<le> state_cap j \<Longrightarrow> st \<noteq> JSON_NONE \<Longrightarrow>
    \<exists>c. jsonPushState st j = Some (j\<lparr>states := st # states j, state_cap := c\<rparr>) \<and> length (states j) < c"
  by (cases j) (auto simp: jsonPushState_def Let_def)

lemma separator_if:
  "separator (FObject kvs # fs) = (if kvs = [] then [] else '','')" "separator (FList us # fs) = (if us = [] then [] else '','')"
  by (cases kvs; simp) (cases us; simp)

lemma separator_key: "separator (FKey k # fs) = []" by simp

lemma commas_end: "commas (t # ts @ [u]) = commas (t # ts) @ '','' @ u"
  using commas_snoc [of "t # ts" u] by simp

lemma add_value_facts:
  assumes "frames_ok fs"
  shows "add_value v (vs, fs) = None \<longleftrightarrow> \<not> takes_value fs"
    and "add_value v (vs, fs) = Some d \<Longrightarrow>
      doc_text d = doc_text (vs, fs) @ separator fs @ render v \<and> frame_states (snd d) = below fs \<and> frames_ok (snd d)"
proof -
  consider "fs = []" | us fs' where "fs = FList us # fs'" | kvs fs' where "fs = FObject kvs # fs'"
    | k kvs fs' where "fs = FKey k # FObject kvs # fs'"
    using assms by (cases fs rule: frames_ok.cases) (auto elim: takes_value.elims)
  then have "(add_value v (vs, fs) = None \<longleftrightarrow> \<not> takes_value fs) \<and> (add_value v (vs, fs) = Some d \<longrightarrow>
      doc_text d = doc_text (vs, fs) @ separator fs @ render v \<and> frame_states (snd d) = below fs \<and> frames_ok (snd d))"
  proof cases
    case (2 us fs')
    then show ?thesis using assms by (cases us) (auto simp: doc_text_def commas_end)
  next
    case (4 k kvs fs')
    then show ?thesis using assms by (cases kvs) (auto simp: doc_text_def members_def commas_end)
  qed (use assms in \<open>auto simp: doc_text_def\<close>)
  then show "add_value v (vs, fs) = None \<longleftrightarrow> \<not> takes_value fs"
    and "add_value v (vs, fs) = Some d \<Longrightarrow>
      doc_text d = doc_text (vs, fs) @ separator fs @ render v \<and> frame_states (snd d) = below fs \<and> frames_ok (snd d)" by blast+
qed

lemma below_length: "length (below fs) \<le> length (frame_states fs)"
  by (cases fs rule: below.cases) simp_all

lemma val_helper:
  assumes "json_rel (vs, fs) j"
  shows "\<not> takes_value fs \<Longrightarrow> jsonValHelper j = None"
    and "takes_value fs \<Longrightarrow> \<exists>j'. jsonValHelper j = Some j' \<and> json_report j' = json_report j @ separator fs
      \<and> states j' = below fs \<and> state_cap j' = state_cap j"
proof -
  note r = assms [unfolded json_rel_def]
  show "\<not> takes_value fs \<Longrightarrow> jsonValHelper j = None"
    using r by (cases fs rule: takes_value.cases) (auto simp: jsonValHelper_def jsonCurrState_def)
  show "\<exists>j'. jsonValHelper j = Some j' \<and> json_report j' = json_report j @ separator fs \<and> states j' = below fs \<and> state_cap j' = state_cap j"
    if "takes_value fs"
  proof (cases fs)
    case (Cons f gs)
    with that r show ?thesis
      by (cases f; cases "f = FList []")
        (auto simp: jsonValHelper_def jsonCurrState_def jsonReplaceState_def jsonPopState_def json_print_def separator_if separator_key simp del: separator.simps split: list.splits)
  qed (use r in \<open>simp add: jsonValHelper_def jsonCurrState_def\<close>)
qed

lemma print_value: "implements (json_seq [jsonValHelper, json_print (render v)]) (add_value v)"
proof (rule implementsI)
  fix d j assume r: "json_rel d j" and "add_value v d = None"
  obtain vs fs where d: "d = (vs, fs)" by (cases d)
  with r \<open>add_value v d = None\<close> have "\<not> takes_value fs" using add_value_facts(1) [of fs v vs] by (simp add: json_rel_def)
  then show "json_seq [jsonValHelper, json_print (render v)] j = None" using val_helper(1) [OF r [unfolded d]] by simp
next
  fix d j d' assume r: "json_rel d j" and v: "add_value v d = Some d'"
  obtain vs fs where d: "d = (vs, fs)" by (cases d)
  with r have ok: "frames_ok fs" by (simp add: json_rel_def)
  have "takes_value fs" using add_value_facts(1) [OF ok, of v vs] v d by simp
  from val_helper(2) [OF r [unfolded d] this] obtain j' where j': "jsonValHelper j = Some j'" "json_report j' = json_report j @ separator fs"
    "states j' = below fs" "state_cap j' = state_cap j" by blast
  have f: "doc_text d' = doc_text (vs, fs) @ separator fs @ render v" "frame_states (snd d') = below fs" "frames_ok (snd d')"
    using add_value_facts(2) [OF ok, of v vs d'] v d by simp_all
  have "length (below fs) \<le> state_cap j" using r d below_length [of fs] by (auto simp: json_rel_def)
  then have "json_rel d' (j'\<lparr>json_report := json_report j' @ render v\<rparr>)"
    using r f j' d by (simp add: json_rel_def)
  then show "\<exists>j'. json_seq [jsonValHelper, json_print (render v)] j = Some j' \<and> json_rel d' j'"
    using j'(1) by (simp add: json_print_def)
qed

text \<open>A value that has no result at all when a string overflows.\<close>

definition guarded :: "string \<Rightarrow> (json_doc \<Rightarrow> json_doc option) \<Rightarrow> json_doc \<Rightarrow> json_doc option" where
  "guarded s g d = (if overflows 2048 s then None else g d)"

lemma implements_null: "implements jsonNull (add_value JNull)"
  using print_value [of JNull] by (simp add: jsonNull_def)

lemma implements_number:
  "implements (jsonInt n) (add_value (JNumber (dec_int n)))"
  "implements (jsonSize_t m) (add_value (JNumber (dec_nat (unat m))))"
  using print_value [of "JNumber (dec_int n)"] print_value [of "JNumber (dec_nat (unat m))"]
  by (simp_all add: jsonInt_def [abs_def] jsonSize_t_def [abs_def])

definition double_value :: "c_double \<Rightarrow> json" where
  "double_value x = (if x = Nan then JString ''nan'' else JNumber (print_lf x))"

lemma implements_double: "implements (jsonDouble x) (add_value (double_value x))"
proof -
  have "quoted ''nan'' = [CHR 0x22] @ ''nan'' @ [CHR 0x22]" by (simp add: quoted_def json_quoted_def)
  then show ?thesis
    using print_value [of "double_value x"] by (cases "x = Nan") (simp_all add: jsonDouble_def [abs_def] double_value_def)
qed

definition str_value :: "string option \<Rightarrow> json_doc \<Rightarrow> json_doc option" where
  "str_value s = (case s of None \<Rightarrow> add_value JNull | Some s \<Rightarrow> guarded s (add_value (JString (kept s))))"

lemma implements_str: "implements (jsonStr s) (str_value s)"
proof (cases s)
  case None
  then show ?thesis using implements_null by (simp add: jsonStr_def [abs_def] str_value_def)
next
  case (Some t)
  show ?thesis
  proof (cases "overflows 2048 t")
    case True
    then have "jsonStr s j = None" for j by (cases "jsonValHelper j") (simp_all add: jsonStr_def Some json_text)
    then show ?thesis using Some True by (simp add: implements_def str_value_def guarded_def)
  next
    case False
    have "jsonStr s = json_seq [jsonValHelper, json_print (render (JString (kept t)))]"
    proof
      fix j
      show "jsonStr s j = json_seq [jsonValHelper, json_print (render (JString (kept t)))] j"
        using False by (cases "jsonValHelper j") (simp_all add: jsonStr_def Some json_text json_print_def)
    qed
    then show ?thesis using print_value [of "JString (kept t)"] False Some by (simp add: str_value_def guarded_def [abs_def])
  qed
qed

lemma implements_key: "implements (jsonKey k) (guarded k (add_key (kept k)))"
proof (rule implementsI)
  fix d j assume r: "json_rel d j" and n: "guarded k (add_key (kept k)) d = None"
  obtain vs fs where d: "d = (vs, fs)" by (cases d)
  show "jsonKey k j = None"
  proof (cases "overflows 2048 k")
    case True
    then show ?thesis by (auto simp: jsonKey_def json_text bind_eq_None_conv)
  next
    case False
    then show ?thesis using n r d
      by (cases fs rule: takes_value.cases) (auto simp: guarded_def jsonKey_def json_rel_def jsonCurrState_def)
  qed
next
  fix d j d' assume r: "json_rel d j" and s: "guarded k (add_key (kept k)) d = Some d'"
  then have o: "\<not> overflows 2048 k" by (auto simp: guarded_def split: if_splits)
  with s obtain vs kvs fs where d: "d = (vs, FObject kvs # fs)" "d' = (vs, FKey (kept k) # FObject kvs # fs)"
    by (cases "(kept k, d)" rule: add_key.cases) (auto simp: guarded_def)
  let ?t = "separator (FObject kvs # fs) @ quoted (kept k) @ '':''"
  let ?j = "j\<lparr>json_report := json_report j @ ?t, states := JSON_OBJECT_SOME # below fs\<rparr>"
  have "length (states ?j) \<le> state_cap ?j" using r d by (auto simp: json_rel_def)
  from push_grows [OF this, of JSON_KEY] obtain c where c: "jsonPushState JSON_KEY ?j = Some (?j\<lparr>states := JSON_KEY # states ?j, state_cap := c\<rparr>)"
    "length (states ?j) < c" by auto
  have "jsonKey k j = jsonPushState JSON_KEY ?j"
    using r d o by (cases j) (auto simp: jsonKey_def json_rel_def jsonCurrState_def jsonReplaceState_def json_text json_print_def separator_if
      simp del: separator.simps)
  moreover have "json_rel d' (?j\<lparr>states := JSON_KEY # states ?j, state_cap := c\<rparr>)"
    using r d c by (simp add: json_rel_def doc_text_def)
  ultimately show "\<exists>j'. jsonKey k j = Some j' \<and> json_rel d' j'" using c(1) by auto
qed

lemma implements_open:
  assumes f: "f = FObject [] \<or> f = FList []" and ops: "ops = [jsonValHelper, json_print (frame_text f), jsonPushState (frame_state True f)]"
  shows "implements (json_seq ops) (open_frame f)"
proof (rule implementsI)
  fix d j assume r: "json_rel d j" and "open_frame f d = None"
  then obtain vs fs where d: "d = (vs, fs)" "\<not> takes_value fs" by (cases d) (auto split: if_splits)
  then show "json_seq ops j = None" using val_helper(1) [OF r [unfolded d]] by (simp add: ops)
next
  fix d j d' assume r: "json_rel d j" and s: "open_frame f d = Some d'"
  then obtain vs fs where d: "d = (vs, fs)" "takes_value fs" "d' = (vs, f # fs)" by (cases d) (auto split: if_splits)
  from val_helper(2) [OF r [unfolded d(1)] d(2)] obtain j1 where j1: "jsonValHelper j = Some j1" "json_report j1 = json_report j @ separator fs"
    "states j1 = below fs" "state_cap j1 = state_cap j" by blast
  let ?j = "j1\<lparr>json_report := json_report j1 @ frame_text f\<rparr>"
  have "length (states ?j) \<le> state_cap ?j" using r d j1 below_length [of fs] by (auto simp: json_rel_def)
  moreover have "frame_state True f \<noteq> JSON_NONE" using f by auto
  ultimately obtain c where c: "jsonPushState (frame_state True f) ?j = Some (?j\<lparr>states := frame_state True f # states ?j, state_cap := c\<rparr>)"
    "length (states ?j) < c" using push_grows by blast
  have "json_rel d' (?j\<lparr>states := frame_state True f # states ?j, state_cap := c\<rparr>)"
    using r d c j1 f by (auto simp: json_rel_def doc_text_def members_def)
  then show "\<exists>j'. json_seq ops j = Some j' \<and> json_rel d' j'" using j1(1) c(1) by (auto simp: ops json_print_def)
qed

lemma implements_start:
  "implements jsonStartObject (open_frame (FObject []))" "implements jsonStartList (open_frame (FList []))"
  by (simp_all add: jsonStartObject_def jsonStartList_def implements_open members_def)

lemma finish_frame:
  assumes r: "json_rel (vs, f # fs) j" and f: "f = FObject kvs \<and> v = JObject kvs \<or> f = FList us \<and> v = JList us"
    and t: "render v = frame_text f @ t" and s: "add_value v (vs, fs) = Some d'"
  shows "\<exists>j'. json_print t (snd (jsonPopState j)) = Some j' \<and> json_rel d' j'"
proof -
  have ok: "frames_ok fs" using r f by (auto simp: json_rel_def)
  from add_value_facts(2) [OF ok s]
  have a: "doc_text d' = doc_text (vs, fs) @ separator fs @ render v" "frame_states (snd d') = below fs" "frames_ok (snd d')" by simp_all
  have j: "json_report j = doc_text (vs, fs) @ separator fs @ frame_text f" "states j = frame_state True f # below fs" "length (states j) \<le> state_cap j"
    using r by (auto simp: json_rel_def doc_text_def)
  then show ?thesis using a t by (auto simp: json_print_def jsonPopState_def json_rel_def)
qed

lemma implements_finish: "implements jsonFinishObject finish_object" "implements jsonFinishList finish_list"
proof -
  have take: "add_value v (vs, fs) \<noteq> None" if "json_rel (vs, f # fs) j" "f = FObject kvs \<or> f = FList us" for v vs f fs j kvs us
    using that add_value_facts(1) [of fs v vs] by (auto simp: json_rel_def)
  show "implements jsonFinishObject finish_object"
  proof (rule implementsI)
    fix d j assume "json_rel d j" "finish_object d = None"
    moreover from this have "d \<noteq> (vs, FObject kvs # fs)" for vs kvs fs using take [of vs "FObject kvs" fs j kvs _ "JObject kvs"] by auto
    ultimately show "jsonFinishObject j = None"
      by (cases d rule: finish_object.cases) (auto simp: jsonFinishObject_def jsonPopState_def json_rel_def split: if_splits)
  next
    fix d j d' assume r: "json_rel d j" and s: "finish_object d = Some d'"
    then obtain vs kvs fs where d: "d = (vs, FObject kvs # fs)" "add_value (JObject kvs) (vs, fs) = Some d'"
      by (cases d rule: finish_object.cases) auto
    from finish_frame [OF r [unfolded d(1)] _ _ d(2), of kvs "[]" "''}''"]
    show "\<exists>j'. jsonFinishObject j = Some j' \<and> json_rel d' j'"
      using r d by (auto simp: jsonFinishObject_def members_def jsonPopState_def json_rel_def)
  qed
  show "implements jsonFinishList finish_list"
  proof (rule implementsI)
    fix d j assume "json_rel d j" "finish_list d = None"
    moreover from this have "d \<noteq> (vs, FList us # fs)" for vs us fs using take [of vs "FList us" fs j _ us "JList us"] by auto
    ultimately show "jsonFinishList j = None"
      by (cases d rule: finish_list.cases) (auto simp: jsonFinishList_def jsonPopState_def json_rel_def split: if_splits)
  next
    fix d j d' assume r: "json_rel d j" and s: "finish_list d = Some d'"
    then obtain vs us fs where d: "d = (vs, FList us # fs)" "add_value (JList us) (vs, fs) = Some d'"
      by (cases d rule: finish_list.cases) auto
    from finish_frame [OF r [unfolded d(1)] _ _ d(2), of "[]" us "'']''"]
    show "\<exists>j'. jsonFinishList j = Some j' \<and> json_rel d' j'"
      using r d by (auto simp: jsonFinishList_def jsonPopState_def json_rel_def)
  qed
qed

section \<open>JSON\<close>

text \<open>The grammar of RFC 8259 without white space: the texts of a value.\<close>

definition json_digits :: "string \<Rightarrow> bool" where
  "json_digits s \<longleftrightarrow> s \<noteq> [] \<and> set s \<subseteq> set ''0123456789''"

definition json_number :: "string \<Rightarrow> bool" where
  "json_number s \<longleftrightarrow> (\<exists>sign ip fp. s = sign @ ip @ fp \<and> sign \<in> {[], ''-''} \<and> json_digits ip \<and> (hd ip = CHR ''0'' \<longrightarrow> ip = ''0'')
     \<and> (fp = [] \<or> (\<exists>ds. fp = CHR ''.'' # ds \<and> json_digits ds)))"

inductive json_chars :: "string \<Rightarrow> string \<Rightarrow> bool" where
  chars_nil: "json_chars [] []"
| chars_plain: "json_chars s t \<Longrightarrow> c \<notin> {CHR 0x22, CHR 0x5C} \<Longrightarrow> of_char c \<ge> (0x20 :: nat) \<Longrightarrow> json_chars (c # s) (c # t)"
| chars_same: "json_chars s t \<Longrightarrow> c \<in> {CHR 0x22, CHR 0x5C, CHR 0x2F} \<Longrightarrow> json_chars (c # s) (CHR 0x5C # c # t)"
| chars_tab: "json_chars s t \<Longrightarrow> json_chars (CHR 0x09 # s) (CHR 0x5C # CHR ''t'' # t)"
| chars_newline: "json_chars s t \<Longrightarrow> json_chars (CHR 0x0A # s) (CHR 0x5C # CHR ''n'' # t)"

inductive json_text_of :: "json \<Rightarrow> string \<Rightarrow> bool" where
  of_null: "json_text_of JNull ''null''"
| of_number: "json_number t \<Longrightarrow> json_text_of (JNumber t) t"
| of_string: "json_chars s t \<Longrightarrow> json_text_of (JString s) ([CHR 0x22] @ t @ [CHR 0x22])"
| of_list: "list_all2 json_text_of vs ts \<Longrightarrow> json_text_of (JList vs) (''['' @ commas ts @ '']'')"
| of_object: "list_all2 (\<lambda>kv t. \<exists>a b. json_chars (fst kv) a \<and> json_text_of (snd kv) b \<and> t = [CHR 0x22] @ a @ [CHR 0x22] @ '':'' @ b) kvs ts
    \<Longrightarrow> json_text_of (JObject kvs) (''{'' @ commas ts @ ''}'')"

text \<open>Values whose text is one of these.\<close>

fun json_valid :: "json \<Rightarrow> bool" where
  "json_valid JNull = True"
| "json_valid (JNumber t) = json_number t"
| "json_valid (JString s) = printable_string s"
| "json_valid (JList vs) = (\<forall>v\<in>set vs. json_valid v)"
| "json_valid (JObject kvs) = (\<forall>(k, v)\<in>set kvs. printable_string k \<and> json_valid v)"

lemma escape_chars: "printable_string s \<Longrightarrow> json_chars s (escape s)"
proof (induction s)
  case (Cons c s)
  then have IH: "json_chars s (escape s)" by (simp add: printable_string_def)
  show ?case
  proof (cases "json_quoted c")
    case True
    then consider "c = CHR 0x0A" | "c = CHR 0x09" | "c \<in> {CHR 0x22, CHR 0x5C, CHR 0x2F}" "c \<noteq> CHR 0x0A" "c \<noteq> CHR 0x09" by (auto simp: json_quoted_def)
    then show ?thesis
      by cases (use True IH in \<open>auto simp: quote_char_def intro: json_chars.intros\<close>)
  next
    case False
    then have "\<not> unprintable c" using Cons.prems by (simp add: printable_string_def)
    then have "of_char c \<ge> (0x20 :: nat)" by (auto simp: unprintable_def char_value_def Let_def split: if_splits)
    then show ?thesis using False IH by (auto simp: json_quoted_def intro: chars_plain)
  qed
qed (simp add: chars_nil)

lemma render_json: "json_valid v \<Longrightarrow> json_text_of v (render v)"
proof (induction v)
  case (JString s)
  then show ?case using of_string [OF escape_chars] by (simp add: quoted_def)
next
  case (JList vs)
  have "list_all2 json_text_of vs (map render vs)"
    using JList by (auto simp: list_all2_conv_all_nth)
  from of_list [OF this] show ?case by simp
next
  case (JObject kvs)
  have "list_all2 (\<lambda>kv t. \<exists>a b. json_chars (fst kv) a \<and> json_text_of (snd kv) b \<and> t = [CHR 0x22] @ a @ [CHR 0x22] @ '':'' @ b) kvs
      (map (\<lambda>(k, v). quoted k @ '':'' @ render v) kvs)"
    unfolding list_all2_conv_all_nth
  proof (intro conjI allI impI)
    fix i assume i: "i < length kvs"
    obtain k v where kv: "kvs ! i = (k, v)" by (cases "kvs ! i")
    then have m: "(k, v) \<in> set kvs" using i by (metis nth_mem)
    then have "json_chars k (escape k)" "json_valid v" using JObject.prems by (auto intro: escape_chars)
    moreover have "json_text_of v (render v)" using JObject.IH [OF m, of v] \<open>json_valid v\<close> by simp
    ultimately show "\<exists>a b. json_chars (fst (kvs ! i)) a \<and> json_text_of (snd (kvs ! i)) b
        \<and> map (\<lambda>(k, v). quoted k @ '':'' @ render v) kvs ! i = [CHR 0x22] @ a @ [CHR 0x22] @ '':'' @ b"
      using i by (intro exI [of _ "escape k"] exI [of _ "render v"]) (simp add: kv quoted_def)
  qed simp
  from of_object [OF this] show ?case by simp
qed (auto intro: json_text_of.intros)

lemma dec_digit: "n < 10 \<Longrightarrow> dec_digit n \<in> set ''0123456789'' \<and> (dec_digit n = CHR ''0'' \<longrightarrow> n = 0)"
proof -
  assume "n < 10"
  then have "n \<in> {0, 1, 2, 3, 4, 5, 6, 7, 8, 9}" by auto
  then show ?thesis by (elim insertE) (simp_all add: dec_digit_def)
qed

lemma dec_nat_cases: "n < 10 \<Longrightarrow> dec_nat n = [dec_digit n]" "\<not> n < 10 \<Longrightarrow> dec_nat n = dec_nat (n div 10) @ [dec_digit (n mod 10)]"
  by (simp_all add: dec_nat.simps [of n])

lemma dec_nat_digits: "json_digits (dec_nat n) \<and> (hd (dec_nat n) = CHR ''0'' \<longrightarrow> n = 0)"
proof (induction n rule: dec_nat.induct)
  case (1 n)
  show ?case
  proof (cases "n < 10")
    case True
    then show ?thesis using dec_digit [OF True] unfolding dec_nat_cases(1) [OF True] json_digits_def by auto
  next
    case False
    then have "n div 10 \<noteq> 0" by simp
    with 1 [OF False] dec_digit [of "n mod 10"] show ?thesis
      unfolding dec_nat_cases(2) [OF False] json_digits_def by auto
  qed
qed

lemma numbers_valid: "json_number (dec_int n)" "json_number (dec_nat m)" "json_number (print_lf (Finite x))"
proof -
  have n: "json_number (sign @ dec_nat m @ fp)" if "sign \<in> {[], ''-''}" "fp = [] \<or> (\<exists>ds. fp = CHR ''.'' # ds \<and> json_digits ds)" for sign m fp
  proof -
    have "hd (dec_nat m) = CHR ''0'' \<longrightarrow> dec_nat m = ''0''"
      using dec_nat_digits [of m] by (auto simp: dec_nat_cases(1) dec_digit_def)
    then show ?thesis
      unfolding json_number_def using dec_nat_digits [of m] that by (intro exI [of _ sign] exI [of _ "dec_nat m"] exI [of _ fp] conjI) simp_all
  qed
  show "json_number (dec_int n)" using n [of "[]" "[]" "nat n"] n [of "''-''" "[]" "nat (- n)"] by (simp add: dec_int_def)
  show "json_number (dec_nat m)" using n [of "[]" "[]" m] by simp
  have d: "json_digits (map (\<lambda>i. dec_digit (k div 10 ^ i mod 10)) [5, 4, 3, 2, 1, 0])" for k
  proof -
    have "dec_digit (k div 10 ^ i mod 10) \<in> set ''0123456789''" for i using dec_digit [of "k div 10 ^ i mod 10"] by simp
    then show ?thesis unfolding json_digits_def set_map by (intro conjI image_subsetI) (simp, assumption)
  qed
  show "json_number (print_lf (Finite x))"
    using n [of "if x < 0 then ''-'' else []"] d by (simp add: Let_def)
qed

section \<open>Reports\<close>

text \<open>The calls of the writer; a report is a list of them.\<close>

datatype json_call =
    WKey string | WStr "string option" | WBool bool | WInt int | WSize u64 | WDouble c_double | WNull
  | WStartObject | WFinishObject | WStartList | WFinishList

fun json_exec :: "json_call \<Rightarrow> json_op" where
  "json_exec (WKey k) = jsonKey k"
| "json_exec (WStr s) = jsonStr s"
| "json_exec (WBool b) = jsonBool b"
| "json_exec (WInt n) = jsonInt n"
| "json_exec (WSize n) = jsonSize_t n"
| "json_exec (WDouble x) = jsonDouble x"
| "json_exec WNull = jsonNull"
| "json_exec WStartObject = jsonStartObject"
| "json_exec WFinishObject = jsonFinishObject"
| "json_exec WStartList = jsonStartList"
| "json_exec WFinishList = jsonFinishList"

fun doc_exec :: "json_call \<Rightarrow> json_doc \<Rightarrow> json_doc option" where
  "doc_exec (WKey k) = guarded k (add_key (kept k))"
| "doc_exec (WStr s) = str_value s"
| "doc_exec (WBool b) = str_value (Some (if b then ''true'' else ''false''))"
| "doc_exec (WInt n) = add_value (JNumber (dec_int n))"
| "doc_exec (WSize n) = add_value (JNumber (dec_nat (unat n)))"
| "doc_exec (WDouble x) = add_value (double_value x)"
| "doc_exec WNull = add_value JNull"
| "doc_exec WStartObject = open_frame (FObject [])"
| "doc_exec WFinishObject = finish_object"
| "doc_exec WStartList = open_frame (FList [])"
| "doc_exec WFinishList = finish_list"

definition json_run :: "json_call list \<Rightarrow> json_op" where
  "json_run cs = json_seq (map json_exec cs)"

fun doc_run :: "json_call list \<Rightarrow> json_doc \<Rightarrow> json_doc option" where
  "doc_run [] d = Some d"
| "doc_run (c # cs) d = Option.bind (doc_exec c d) (doc_run cs)"

lemma implements_exec: "implements (json_exec c) (doc_exec c)"
  by (cases c) (simp_all add: implements_key implements_str implements_number implements_double implements_null implements_start
    implements_finish jsonBool_def)

lemma json_run_simps [simp]: "json_run [] j = Some j" "json_run (c # cs) j = Option.bind (json_exec c j) (json_run cs)"
  by (simp_all add: json_run_def [abs_def])

lemma implements_run: "implements (json_run cs) (doc_run cs)"
proof (induction cs)
  case (Cons c cs)
  show ?case
    unfolding implements_def
  proof (intro allI impI)
    fix d j assume r: "json_rel d j"
    have c: "case doc_exec c d of None \<Rightarrow> json_exec c j = None | Some d' \<Rightarrow> \<exists>j'. json_exec c j = Some j' \<and> json_rel d' j'"
      by (rule implementsD [OF implements_exec r])
    show "case doc_run (c # cs) d of None \<Rightarrow> json_run (c # cs) j = None | Some d' \<Rightarrow> \<exists>j'. json_run (c # cs) j = Some j' \<and> json_rel d' j'"
    proof (cases "doc_exec c d")
      case None
      then show ?thesis using c by simp
    next
      case (Some d1)
      then obtain j1 where "json_exec c j = Some j1" "json_rel d1 j1" using c by auto
      then show ?thesis using implementsD [OF Cons.IH, of d1 j1] Some by (cases "doc_run cs d1") simp_all
    qed
  qed
qed (simp add: implements_def)

lemma start_rel: "json_rel ([], []) json_start"
  by (simp add: json_rel_def json_start_def doc_text_def)

text \<open>Documents whose values have JSON texts.\<close>

fun frame_valid :: "json_frame \<Rightarrow> bool" where
  "frame_valid (FKey k) = printable_string k"
| "frame_valid (FObject kvs) = json_valid (JObject kvs)"
| "frame_valid (FList vs) = json_valid (JList vs)"

definition doc_valid :: "json_doc \<Rightarrow> bool" where
  "doc_valid d \<longleftrightarrow> (\<forall>v\<in>set (fst d). json_valid v) \<and> (\<forall>f\<in>set (snd d). frame_valid f)"

definition call_finite :: "json_call \<Rightarrow> bool" where
  "call_finite c \<longleftrightarrow> (\<forall>neg. c \<noteq> WDouble (Infinite neg))"

lemma kept_printable: "printable_string (kept s)"
  using sanitize_from_prefix [of 2048 "[]" s] by (auto simp: kept_def sanitizeJson_def unescape_escape)

lemma add_value_valid: "doc_valid d \<Longrightarrow> json_valid v \<Longrightarrow> add_value v d = Some d' \<Longrightarrow> doc_valid d'"
  by (cases "(v, d)" rule: add_value.cases) (auto simp: doc_valid_def)

lemma double_value_valid: "(\<forall>neg. x \<noteq> Infinite neg) \<Longrightarrow> json_valid (double_value x)"
  using numbers_valid(3) by (cases x) (auto simp: double_value_def printable_string_def unprintable_def char_value_def Let_def simp del: print_lf.simps)

lemma doc_exec_valid:
  assumes "doc_valid d" "doc_exec c d = Some d'" "call_finite c"
  shows "doc_valid d'"
proof -
  have str: "doc_valid d'" if "str_value s d = Some d'" for s
    using that add_value_valid [OF assms(1), of JNull d'] add_value_valid [OF assms(1), of "JString t" d' for t] kept_printable
    by (auto simp: str_value_def guarded_def split: option.splits if_splits)
  show ?thesis
  proof (cases c)
    case (WKey k)
    then show ?thesis using assms kept_printable
      by (cases "(kept k, d)" rule: add_key.cases) (auto simp: guarded_def doc_valid_def split: if_splits)
  next
    case (WDouble x)
    then show ?thesis using assms add_value_valid [OF assms(1), of "double_value x" d'] double_value_valid [of x] by (auto simp: call_finite_def)
  next
    case WFinishObject
    then obtain vs kvs fs where d: "d = (vs, FObject kvs # fs)" "add_value (JObject kvs) (vs, fs) = Some d'"
      using assms(2) by (cases d rule: finish_object.cases) auto
    then show ?thesis using assms(1) by (intro add_value_valid [OF _ _ d(2)]) (simp_all add: doc_valid_def)
  next
    case WFinishList
    then obtain vs us fs where d: "d = (vs, FList us # fs)" "add_value (JList us) (vs, fs) = Some d'"
      using assms(2) by (cases d rule: finish_list.cases) auto
    then show ?thesis using assms(1) by (intro add_value_valid [OF _ _ d(2)]) (simp_all add: doc_valid_def)
  next
    case (WInt n)
    then show ?thesis using assms(2) add_value_valid [OF assms(1), of "JNumber (dec_int n)" d'] numbers_valid(1) by simp
  next
    case (WSize n)
    then show ?thesis using assms(2) add_value_valid [OF assms(1), of "JNumber (dec_nat (unat n))" d'] numbers_valid(2) by simp
  next
    case WNull
    then show ?thesis using assms(2) add_value_valid [OF assms(1), of JNull d'] by simp
  next
    case WStartObject
    then show ?thesis using assms(1,2) by (cases d) (auto simp: doc_valid_def split: if_splits)
  next
    case WStartList
    then show ?thesis using assms(1,2) by (cases d) (auto simp: doc_valid_def split: if_splits)
  qed (use assms(2) str in simp_all)
qed

lemma doc_run_valid: "doc_valid d \<Longrightarrow> doc_run cs d = Some d' \<Longrightarrow> \<forall>c\<in>set cs. call_finite c \<Longrightarrow> doc_valid d'"
  by (induction cs arbitrary: d) (auto simp: bind_eq_Some_conv dest: doc_exec_valid)

section \<open>Closing\<close>

text \<open>Strings that cannot overflow, and are kept.\<close>

lemma escape_length: "length (escape s) \<le> 2 * length s"
  by (induction s) auto

lemma short_string: "length s < 1024 \<Longrightarrow> \<not> overflows 2048 s"
proof
  assume "length s < 1024" "overflows 2048 s"
  then obtain p c r where "s = p @ c # r" "int (length (escape p)) = 2046" by (auto simp: overflows_def)
  with escape_length [of p] \<open>length s < 1024\<close> show False by simp
qed

lemma sanitize_all:
  "printable_string s \<Longrightarrow> int (length out) + 2 * int (length s) + 1 \<le> m \<Longrightarrow> sanitize_from m out s = (True, out @ escape s)"
  by (induction s arbitrary: out) (auto simp: printable_string_def)

lemma kept_all: "printable_string s \<Longrightarrow> length s < 1024 \<Longrightarrow> kept s = s"
  using sanitize_all [of s "[]" 2048] by (simp add: kept_def sanitizeJson_def unescape_escape)

text \<open>One step closes the innermost frame.\<close>

definition finish_current :: "json_doc \<Rightarrow> json_doc option" where
  "finish_current d =
     (case snd d of [] \<Rightarrow> None | FKey k # fs \<Rightarrow> add_value JNull d | FObject kvs # fs \<Rightarrow> finish_object d | FList us # fs \<Rightarrow> finish_list d)"

lemma finish_current_step:
  assumes r: "json_rel d j" and ne: "snd d \<noteq> []"
  obtains d' j' where "jsonFinishCurrent j = Some j'" "json_rel d' j'" "finish_current d = Some d'" "length (snd d') < length (snd d)"
    "\<exists>rest. json_report j' = json_report j @ rest"
proof -
  obtain vs f fs where d: "d = (vs, f # fs)" using ne by (cases d; cases "snd d") auto
  have ok: "frames_ok (f # fs)" using r d by (simp add: json_rel_def)
  have len: "length (snd d') \<le> length fs" if "add_value v (vs, fs) = Some d'" for v d'
    using that by (cases "(v, (vs, fs))" rule: add_value.cases) auto
  have cur: "jsonFinishCurrent j = (case f of FKey k \<Rightarrow> jsonNull j | FObject kvs \<Rightarrow> jsonFinishObject j | FList us \<Rightarrow> jsonFinishList j)"
    using r d by (cases f) (auto simp: jsonFinishCurrent_def jsonCurrState_def json_rel_def)
  have "\<exists>d' j'. jsonFinishCurrent j = Some j' \<and> json_rel d' j' \<and> finish_current d = Some d' \<and> length (snd d') < length (snd d)"
  proof (cases f)
    case (FKey k)
    then obtain kvs gs where gs: "fs = FObject kvs # gs" using ok by (cases fs rule: takes_value.cases) auto
    then show ?thesis using implementsD [OF implements_null r] FKey d cur by (auto simp: finish_current_def)
  next
    case (FObject kvs)
    then obtain d' where d': "add_value (JObject kvs) (vs, fs) = Some d'" using ok add_value_facts(1) [of fs "JObject kvs" vs] by auto
    then show ?thesis using implementsD [OF implements_finish(1) r] FObject d cur len [OF d'] by (cases d') (auto simp: finish_current_def)
  next
    case (FList us)
    then obtain d' where d': "add_value (JList us) (vs, fs) = Some d'" using ok add_value_facts(1) [of fs "JList us" vs] by auto
    then show ?thesis using implementsD [OF implements_finish(2) r] FList d cur len [OF d'] by (cases d') (auto simp: finish_current_def)
  qed
  then obtain d' j' where dj: "jsonFinishCurrent j = Some j'" "json_rel d' j'" "finish_current d = Some d'" "length (snd d') < length (snd d)" by blast
  have "\<exists>rest. json_report j' = json_report j @ rest"
    using dj(1) unfolding cur
    by (cases f) (auto simp: jsonNull_def jsonValHelper_def jsonFinishObject_def jsonFinishList_def json_print_def jsonPopState_def jsonReplaceState_def
      split: json_state.splits list.splits if_splits prod.splits)
  with dj show thesis by (rule that)
qed

lemma finish_current_valid: "doc_valid d \<Longrightarrow> finish_current d = Some d' \<Longrightarrow> doc_valid d'"
  using doc_exec_valid [of d WNull d'] doc_exec_valid [of d WFinishObject d'] doc_exec_valid [of d WFinishList d']
  by (auto simp: finish_current_def call_finite_def split: list.splits json_frame.splits)

lemma json_close_total:
  "json_rel d j \<Longrightarrow> doc_valid d \<Longrightarrow>
    \<exists>j' vs rest. json_close j = Some j' \<and> json_rel (vs, []) j' \<and> doc_valid (vs, []) \<and> json_report j' = json_report j @ rest"
proof (induction "length (snd d)" arbitrary: d j rule: less_induct)
  case less
  show ?case
  proof (cases "snd d = []")
    case True
    then have "states j = []" using less.prems by (simp add: json_rel_def)
    with less.prems True show ?thesis by (intro exI [of _ j] exI [of _ "fst d"] exI [of _ "[]"]) (cases d; simp add: json_close.simps)
  next
    case False
    from finish_current_step [OF less.prems(1) False] obtain d' j' rest where s: "jsonFinishCurrent j = Some j'" "json_rel d' j'"
      "finish_current d = Some d'" "length (snd d') < length (snd d)" "json_report j' = json_report j @ rest" by metis
    from less.hyps [OF s(4,2) finish_current_valid [OF less.prems(2) s(3)]] obtain j2 vs rest2 where
      j2: "json_close j' = Some j2" "json_rel (vs, []) j2" "doc_valid (vs, [])" "json_report j2 = json_report j' @ rest2" by blast
    have "states j \<noteq> []" using less.prems False by (cases "snd d") (auto simp: json_rel_def)
    then have "json_close j = Some j2" using s(1) j2(1) by (simp add: json_close.simps [of j])
    then show ?thesis using j2 s(5) by (intro exI [of _ j2] exI [of _ vs] exI [of _ "rest @ rest2"]) simp
  qed
qed

text \<open>C8: the writer refines building a tree of values. A sequence of calls from the empty report fails an assertion or a
  bound exactly when it does not build a document (a value in an object without a key, a key outside an object, an end that
  does not match, a string that overflows its buffer); otherwise the report is the text of the document built so far, with
  every comma and colon in place.\<close>

theorem writer_builds_documents:
  "case doc_run cs ([], []) of None \<Rightarrow> json_run cs json_start = None
    | Some d \<Rightarrow> \<exists>j. json_run cs json_start = Some j \<and> json_report j = doc_text d \<and> states j = frame_states (snd d)"
  using implementsD [OF implements_run start_rel, of cs] by (cases "doc_run cs ([], [])") (auto simp: json_rel_def)

text \<open>C9: at whatever point a report ends, its last operation completes it. It returns, closes everything that is open, keeps what
  was written, and the file is a sequence of JSON texts, provided no infinite number was written.\<close>

theorem report_closes:
  assumes run: "json_run cs json_start = Some j" and fin: "\<forall>c\<in>set cs. call_finite c" and t: "\<not> overflows 2048 end_time"
  shows "\<exists>j' vs rest. jsonOutputFinalize end_time j = Some j' \<and> json_report j' = json_report j @ rest
    \<and> json_report j' = concat (map render vs) \<and> (\<forall>v\<in>set vs. json_text_of v (render v)) \<and> states j' = []"
proof -
  obtain d where d: "doc_run cs ([], []) = Some d" and r: "json_rel d j"
    using implementsD [OF implements_run start_rel, of cs] run by (auto split: option.splits)
  have v: "doc_valid d" using doc_run_valid [OF _ d fin] by (simp add: doc_valid_def)
  let ?outer = "length (states j) = 1 \<and> jsonCurrState j \<in> {JSON_OBJECT_EMPTY, JSON_OBJECT_SOME}"
  let ?cs = "if ?outer then [WKey ''end_time'', WStr (Some end_time)] else []"
  obtain d1 j1 rest where 1: "json_run ?cs j = Some j1" "json_rel d1 j1" "doc_valid d1" "json_report j1 = json_report j @ rest"
  proof (cases ?outer)
    case False
    show thesis by (rule that [of j d "[]"]) (use False r v in auto)
  next
    case True
    obtain vs fs where dv: "d = (vs, fs)" by (cases d)
    have "states j = frame_states fs" "frames_ok fs" using r dv by (simp_all add: json_rel_def)
    with True obtain kvs gs where fs: "fs = FObject kvs # gs" by (cases fs rule: frames_ok.cases) (auto simp: jsonCurrState_def split: if_splits)
    have key: "\<not> overflows 2048 ''end_time''" using short_string [of "''end_time''"] by simp
    have run: "doc_run ?cs d = Some (vs, FObject (kvs @ [(kept ''end_time'', JString (kept end_time))]) # gs)"
      using True t key by (simp add: dv fs guarded_def str_value_def)
    then obtain j1 where j1: "json_run ?cs j = Some j1" "json_rel (vs, FObject (kvs @ [(kept ''end_time'', JString (kept end_time))]) # gs) j1"
      using implementsD [OF implements_run r, of ?cs] by auto
    moreover have "doc_valid (vs, FObject (kvs @ [(kept ''end_time'', JString (kept end_time))]) # gs)"
      by (rule doc_run_valid [OF v run]) (auto simp: call_finite_def)
    moreover have "\<exists>rest. json_report j1 = json_report j @ rest"
    proof -
      have "json_report j = doc_text d" "json_report j1 = doc_text (vs, FObject (kvs @ [(kept ''end_time'', JString (kept end_time))]) # gs)"
        using r j1(2) by (simp_all add: json_rel_def)
      then show ?thesis by (simp add: dv fs doc_text_def members_def commas_snoc)
    qed
    ultimately show thesis using that by blast
  qed
  from json_close_total [OF 1(2,3)] obtain j2 vs rest2 where 2: "json_close j1 = Some j2" "json_rel (vs, []) j2" "doc_valid (vs, [])"
    "json_report j2 = json_report j1 @ rest2" by blast
  have "json_run ?cs j = (if ?outer then json_seq [jsonKey ''end_time'', jsonStr (Some end_time)] j else Some j)"
  proof (cases ?outer)
    case True
    show ?thesis unfolding if_P [OF True] by (simp add: json_run_def)
  next
    case False
    show ?thesis unfolding if_not_P [OF False] by simp
  qed
  then have "jsonOutputFinalize end_time j = Some (j2\<lparr>states := [], state_cap := 0\<rparr>)"
    using 1(1) 2 by (simp add: jsonOutputFinalize_def jsonCurrState_def json_rel_def)
  moreover have "json_report j2 = concat (map render vs)" using 2(2) by (simp add: json_rel_def doc_text_def)
  moreover have "\<forall>v\<in>set vs. json_text_of v (render v)" using 2(3) render_json by (simp add: doc_valid_def)
  ultimately show ?thesis using 1(4) 2(4) by (intro exI [of _ "j2\<lparr>states := [], state_cap := 0\<rparr>"] exI [of _ vs] exI [of _ "rest @ rest2"]) simp
qed

theorem report_closes_witness:
  "\<exists>j j' vs. json_run [WStartObject, WKey ''a'', WStartList, WInt 1] json_start = Some j \<and> jsonOutputFinalize ''t'' j = Some j'
    \<and> json_report j' = concat (map render vs) \<and> (\<forall>v\<in>set vs. json_text_of v (render v))"
proof -
  let ?cs = "[WStartObject, WKey ''a'', WStartList, WInt 1]"
  have "doc_run ?cs ([], []) \<noteq> None" using short_string [of "''a''"] by (simp add: guarded_def)
  then obtain j where j: "json_run ?cs json_start = Some j"
    using implementsD [OF implements_run start_rel, of ?cs] by (cases "doc_run ?cs ([], [])") (fastforce simp del: doc_run.simps json_run_simps)+
  have "\<forall>c\<in>set ?cs. call_finite c" "\<not> overflows 2048 ''t''" using short_string [of "''t''"] by (simp_all add: call_finite_def)
  from report_closes [OF j this] j show ?thesis by blast
qed

end
