(* ===== verification/HostProfiler.thy ===== *)
theory HostProfiler
  imports NcclPrelude
begin

text \<open>
  The profiler plugin of src/util.cu, with which NCCL tells how it runs a collective: the events that start and stop, the
  counters that say when a batch of events is over, and what the report prints of them. Calls of NCCL are one after the
  other; an atomic counter is an integer.
\<close>

section \<open>Events\<close>

datatype event_type = ProfileNone | ProfileGroup | ProfileColl | ProfileP2p | ProfileProxyOp | ProfileCeColl | ProfileOther

text \<open>The union of the data of a task.\<close>

datatype task_data =
    TaskColl string string string string int int   \<comment> \<open>implementation, algo, proto, kernelVariant, nChannels, nWarps\<close>
  | TaskP2p int
  | TaskCe string
  | TaskNone

record task_event =
  task_type :: event_type
  task_count :: int
  task_ready :: bool
  task_what :: task_data

record proxy_event =
  proxy_type :: event_type
  proxy_count :: int
  proxy_ready :: bool
  proxy_chunkSize :: int

record profiler =
  prof_group_type :: event_type
  prof_group_count :: int
  prof_task :: task_event
  prof_proxy :: proxy_event

text \<open>Where the handle of an event points to; an event of another type leaves it as it is.\<close>

datatype event_handle = HandleGroup | HandleTask | HandleProxy | HandleNone

text \<open>The description of an event; a null pointer is None.\<close>

record event_descr =
  descr_type :: event_type
  descr_algo :: "string option"
  descr_proto :: "string option"
  descr_func :: "string option"
  descr_kernelVariant :: "string option"
  descr_isSymColl :: bool
  descr_nChannels :: u8
  descr_nWarps :: u8
  descr_p2p_nChannels :: u8
  descr_chunkSize :: int
  descr_syncStrategy :: "string option"

section \<open>Start\<close>

definition or_na :: "string option \<Rightarrow> string" where
  "or_na s = (case s of None \<Rightarrow> ''N/A'' | Some s \<Rightarrow> s)"

text \<open>The first event of a batch is kept.\<close>

definition start_task :: "event_type \<Rightarrow> task_data \<Rightarrow> profiler \<Rightarrow> profiler \<times> event_handle" where
  "start_task ty what p =
     (let t = prof_task p;
          t1 = t\<lparr>task_count := task_count t + 1\<rparr>;
          t2 = (if task_count t = 0 then t1\<lparr>task_type := ty, task_what := what\<rparr> else t1)
      in (p\<lparr>prof_task := t2\<rparr>, HandleTask))"

definition ncclProfilerStartCollEvent :: "event_type \<Rightarrow> string \<Rightarrow> string option \<Rightarrow> string option \<Rightarrow> string option \<Rightarrow> u8 \<Rightarrow> u8
    \<Rightarrow> profiler \<Rightarrow> profiler \<times> event_handle" where
  "ncclProfilerStartCollEvent ty implementation algo proto kernelVariant nChannels nWarps =
     start_task ty (TaskColl implementation (or_na algo) (or_na proto) (or_na kernelVariant)
       (if nChannels = 0 then - 1 else uint nChannels) (uint nWarps))"

definition ncclProfilerStartP2pEvent :: "event_type \<Rightarrow> u8 \<Rightarrow> profiler \<Rightarrow> profiler \<times> event_handle" where
  "ncclProfilerStartP2pEvent ty nChannels = start_task ty (TaskP2p (uint nChannels))"

definition ncclProfilerStartCeEvent :: "event_type \<Rightarrow> string option \<Rightarrow> profiler \<Rightarrow> profiler \<times> event_handle" where
  "ncclProfilerStartCeEvent ty syncStrategy = start_task ty (TaskCe (or_na syncStrategy))"

definition ncclProfilerStartProxyEvent :: "event_type \<Rightarrow> int \<Rightarrow> profiler \<Rightarrow> profiler \<times> event_handle" where
  "ncclProfilerStartProxyEvent ty chunkSize p =
     (let x = prof_proxy p;
          x1 = x\<lparr>proxy_count := proxy_count x + 1\<rparr>;
          x2 = (if proxy_count x = 0 then x1\<lparr>proxy_type := ty, proxy_chunkSize := chunkSize\<rparr> else x1)
      in (p\<lparr>prof_proxy := x2\<rparr>, HandleProxy))"

definition ncclProfilerStartEventCommon :: "event_descr \<Rightarrow> profiler \<Rightarrow> profiler \<times> event_handle" where
  "ncclProfilerStartEventCommon d p =
     (case descr_type d of
        ProfileGroup \<Rightarrow> (p\<lparr>prof_group_type := ProfileGroup, prof_group_count := prof_group_count p + 1\<rparr>, HandleGroup)
      | ProfileP2p \<Rightarrow> ncclProfilerStartP2pEvent (descr_type d) (descr_p2p_nChannels d) p
      | ProfileProxyOp \<Rightarrow> ncclProfilerStartProxyEvent (descr_type d) (descr_chunkSize d) p
      | _ \<Rightarrow> (p, HandleNone))"

definition ncclProfilerStartEvent_v5 :: "event_descr \<Rightarrow> profiler \<Rightarrow> profiler \<times> event_handle" where
  "ncclProfilerStartEvent_v5 d p =
     (if descr_type d = ProfileColl then
        ncclProfilerStartCollEvent (descr_type d) ''GEN'' (descr_algo d) (descr_proto d) None (descr_nChannels d) (descr_nWarps d) p
      else ncclProfilerStartEventCommon d p)"

definition ncclProfilerStartEvent_v6 :: "event_descr \<Rightarrow> profiler \<Rightarrow> profiler \<times> event_handle" where
  "ncclProfilerStartEvent_v6 d p =
     (if descr_type d = ProfileCeColl then ncclProfilerStartCeEvent (descr_type d) (descr_syncStrategy d) p
      else if descr_type d = ProfileColl then
        ncclProfilerStartCollEvent (descr_type d) ''GEN'' (descr_algo d) (descr_proto d) None (descr_nChannels d) (descr_nWarps d) p
      else ncclProfilerStartEventCommon d p)"

text \<open>The name of the function and an underscore are removed from the front of the name of a kernel.\<close>

definition strip_func :: "string option \<Rightarrow> string \<Rightarrow> string" where
  "strip_func func kv =
     (case func of None \<Rightarrow> kv
      | Some f \<Rightarrow> (let len = length f in
          if take len kv = f \<and> len < length kv \<and> kv ! len = CHR ''_'' then drop (len + 1) kv else kv))"

definition ncclProfilerStartEvent_v7 :: "event_descr \<Rightarrow> profiler \<Rightarrow> profiler \<times> event_handle" where
  "ncclProfilerStartEvent_v7 d p =
     (if descr_type d = ProfileColl then
        (let sym = descr_isSymColl d;
             kernelVariant = (if sym then map_option (strip_func (descr_func d)) (descr_kernelVariant d) else None)
         in ncclProfilerStartCollEvent (descr_type d) (if sym then ''SYM'' else ''GEN'') (if sym then Some ''N/A'' else descr_algo d)
              (if sym then Some ''N/A'' else descr_proto d) kernelVariant (descr_nChannels d) (descr_nWarps d) p)
      else if descr_type d = ProfileCeColl then ncclProfilerStartCeEvent (descr_type d) (descr_syncStrategy d) p
      else ncclProfilerStartEventCommon d p)"

section \<open>Stop\<close>

text \<open>The type is read from where the handle points to.\<close>

definition ncclProfilerStopEvent :: "event_handle \<Rightarrow> profiler \<Rightarrow> profiler" where
  "ncclProfilerStopEvent h p =
     (case h of
        HandleGroup \<Rightarrow> if prof_group_type p = ProfileGroup then p\<lparr>prof_group_count := prof_group_count p - 1\<rparr> else p
      | HandleTask \<Rightarrow>
          (let t = prof_task p;
               t1 = t\<lparr>task_count := task_count t - 1, task_ready := (task_ready t \<or> task_count t = 1)\<rparr>
           in if task_type t \<in> {ProfileColl, ProfileP2p, ProfileCeColl} then p\<lparr>prof_task := t1\<rparr> else p)
      | HandleProxy \<Rightarrow>
          (let x = prof_proxy p;
               x1 = x\<lparr>proxy_count := proxy_count x - 1, proxy_ready := (proxy_ready x \<or> proxy_count x = 1)\<rparr>
           in if proxy_type x = ProfileProxyOp then p\<lparr>prof_proxy := x1\<rparr> else p)
      | HandleNone \<Rightarrow> p)"

section \<open>What is reported\<close>

record tuning_info =
  tun_implementation :: string
  tun_algo :: string
  tun_proto :: string
  tun_kernelVariant :: string
  tun_syncStrategy :: string
  tun_nChannels :: int
  tun_nWarps :: int
  tun_chunkSize :: "int option"

definition no_tuning :: tuning_info where
  "no_tuning = \<lparr>tun_implementation = ''N/A'', tun_algo = ''N/A'', tun_proto = ''N/A'', tun_kernelVariant = ''N/A'', tun_syncStrategy = ''N/A'',
     tun_nChannels = - 1, tun_nWarps = - 1, tun_chunkSize = None\<rparr>"

text \<open>The first part of \<open>writeBenchmarkLineTerminator\<close>; at its end nothing is ready.\<close>

definition read_tuning :: "profiler \<Rightarrow> tuning_info" where
  "read_tuning p =
     (let t = prof_task p; x = prof_proxy p;
          info = (if task_ready t then
              (case (task_type t, task_what t) of
                 (ProfileColl, TaskColl implementation algo proto kernelVariant nChannels nWarps) \<Rightarrow>
                   no_tuning\<lparr>tun_implementation := implementation, tun_algo := algo, tun_proto := proto, tun_kernelVariant := kernelVariant,
                     tun_nChannels := nChannels, tun_nWarps := nWarps\<rparr>
               | (ProfileP2p, TaskP2p nChannels) \<Rightarrow> no_tuning\<lparr>tun_implementation := ''P2P'', tun_nChannels := nChannels\<rparr>
               | (ProfileCeColl, TaskCe syncStrategy) \<Rightarrow> no_tuning\<lparr>tun_implementation := ''CE'', tun_syncStrategy := syncStrategy\<rparr>
               | _ \<Rightarrow> no_tuning) else no_tuning)
      in info\<lparr>tun_chunkSize := (if proxy_ready x then Some (proxy_chunkSize x) else None)\<rparr>)"

definition clear_ready :: "profiler \<Rightarrow> profiler" where
  "clear_ready p = p\<lparr>prof_task := (prof_task p)\<lparr>task_ready := False\<rparr>, prof_proxy := (prof_proxy p)\<lparr>proxy_ready := False\<rparr>\<rparr>"

section \<open>Batches of events\<close>

text \<open>NCCL uses one version of the interface.\<close>

datatype prof_call = ProfStart event_descr | ProfStop event_handle

definition start_event_of :: "nat \<Rightarrow> event_descr \<Rightarrow> profiler \<Rightarrow> profiler \<times> event_handle" where
  "start_event_of v =
     (if v = 5 then ncclProfilerStartEvent_v5 else if v = 6 then ncclProfilerStartEvent_v6 else ncclProfilerStartEvent_v7)"

fun prof_run :: "nat \<Rightarrow> prof_call list \<Rightarrow> profiler \<Rightarrow> profiler" where
  "prof_run v [] p = p"
| "prof_run v (ProfStart d # cs) p = prof_run v cs (fst (start_event_of v d p))"
| "prof_run v (ProfStop h # cs) p = prof_run v cs (ncclProfilerStopEvent h p)"

text \<open>Events that are tasks, and how many more are started than stopped.\<close>

definition is_task :: "nat \<Rightarrow> event_descr \<Rightarrow> bool" where
  "is_task v d \<longleftrightarrow> descr_type d \<in> {ProfileColl, ProfileP2p} \<or> descr_type d = ProfileCeColl \<and> v \<noteq> 5"

fun outstanding :: "nat \<Rightarrow> prof_call list \<Rightarrow> int" where
  "outstanding v [] = 0"
| "outstanding v (ProfStart d # cs) = (if is_task v d then 1 else 0) + outstanding v cs"
| "outstanding v (ProfStop h # cs) = (if h = HandleTask then - 1 else 0) + outstanding v cs"

text \<open>What a report on an event says, apart from the network.\<close>

definition tuning_of :: "nat \<Rightarrow> event_descr \<Rightarrow> tuning_info" where
  "tuning_of v d =
     (if descr_type d = ProfileColl then
        (let sym = (v \<notin> {5, 6} \<and> descr_isSymColl d)
         in no_tuning\<lparr>tun_implementation := (if sym then ''SYM'' else ''GEN''),
              tun_algo := (if sym then ''N/A'' else or_na (descr_algo d)), tun_proto := (if sym then ''N/A'' else or_na (descr_proto d)),
              tun_kernelVariant := (if sym then or_na (map_option (strip_func (descr_func d)) (descr_kernelVariant d)) else ''N/A''),
              tun_nChannels := (if descr_nChannels d = 0 then - 1 else uint (descr_nChannels d)), tun_nWarps := uint (descr_nWarps d)\<rparr>)
      else if descr_type d = ProfileP2p then no_tuning\<lparr>tun_implementation := ''P2P'', tun_nChannels := uint (descr_p2p_nChannels d)\<rparr>
      else no_tuning\<lparr>tun_implementation := ''CE'', tun_syncStrategy := or_na (descr_syncStrategy d)\<rparr>)"

lemmas start_defs = start_event_of_def ncclProfilerStartEvent_v5_def ncclProfilerStartEvent_v6_def ncclProfilerStartEvent_v7_def
  ncclProfilerStartEventCommon_def ncclProfilerStartCollEvent_def ncclProfilerStartP2pEvent_def ncclProfilerStartCeEvent_def
  ncclProfilerStartProxyEvent_def start_task_def

lemma start_other: "\<not> is_task v d \<Longrightarrow> prof_task (fst (start_event_of v d p)) = prof_task p"
  by (cases "descr_type d") (auto simp: start_defs is_task_def Let_def)

text \<open>In a batch a task only counts; the first one is kept.\<close>

lemma start_in_batch:
  "is_task v d \<Longrightarrow> task_count (prof_task p) \<noteq> 0 \<Longrightarrow>
    prof_task (fst (start_event_of v d p)) = (prof_task p)\<lparr>task_count := task_count (prof_task p) + 1\<rparr>"
  by (auto simp: start_defs is_task_def Let_def)

lemma start_first:
  assumes "is_task v d" "task_count (prof_task p) = 0"
  defines "t \<equiv> prof_task (fst (start_event_of v d p))"
  shows "task_count t = 1" "task_ready t = task_ready (prof_task p)" "task_type t \<in> {ProfileColl, ProfileP2p, ProfileCeColl}"
    and "prof_task q = t\<lparr>task_count := n, task_ready := True\<rparr> \<Longrightarrow> (read_tuning q)\<lparr>tun_chunkSize := None\<rparr> = tuning_of v d"
  using assms(1,2) unfolding t_def
  by (auto simp: start_defs is_task_def Let_def read_tuning_def tuning_of_def no_tuning_def or_na_def)

lemma stop_task:
  "prof_task (ncclProfilerStopEvent h p) =
     (if h = HandleTask \<and> task_type (prof_task p) \<in> {ProfileColl, ProfileP2p, ProfileCeColl}
      then (prof_task p)\<lparr>task_count := task_count (prof_task p) - 1, task_ready := (task_ready (prof_task p) \<or> task_count (prof_task p) = 1)\<rparr>
      else prof_task p)"
  by (cases h) (auto simp: ncclProfilerStopEvent_def Let_def)

text \<open>As long as a task is running the first one of the batch stays, and nothing becomes ready before the last has stopped.\<close>

lemma batch_run:
  assumes "task_type (prof_task p) \<in> {ProfileColl, ProfileP2p, ProfileCeColl}" "0 < task_count (prof_task p)"
    and "\<And>k. k < length cs \<Longrightarrow> 0 < task_count (prof_task p) + outstanding v (take k cs)"
  shows "prof_task (prof_run v cs p) = (prof_task p)\<lparr>task_count := task_count (prof_task p) + outstanding v cs,
    task_ready := (task_ready (prof_task p) \<or> task_count (prof_task p) + outstanding v cs = 0)\<rparr>"
  using assms
proof (induction cs arbitrary: p)
  case Nil
  then show ?case by simp
next
  case (Cons c cs)
  have pre: "0 < task_count (prof_task p) + outstanding v (c # take k cs)" if "k < length cs" for k
    using Cons.prems(3) [of "Suc k"] that by simp
  show ?case
  proof (cases "cs = []")
    case True
    then show ?thesis using Cons.prems(1,2)
      by (cases c) (auto simp: start_in_batch start_other stop_task)
  next
    case False
    let ?q = "case c of ProfStart d \<Rightarrow> fst (start_event_of v d p) | ProfStop h \<Rightarrow> ncclProfilerStopEvent h p"
    have run: "prof_run v (c # cs) p = prof_run v cs ?q" by (cases c) simp_all
    have o: "outstanding v (c # xs) = outstanding v [c] + outstanding v xs" for xs by (cases c) simp_all
    have pos: "0 < task_count (prof_task p) + outstanding v [c]" using pre [of 0] False by simp
    then have q: "prof_task ?q = (prof_task p)\<lparr>task_count := task_count (prof_task p) + outstanding v [c]\<rparr>"
      using Cons.prems(1,2) by (cases c) (auto simp: start_in_batch start_other stop_task)
    have "prof_task (prof_run v cs ?q) = (prof_task ?q)\<lparr>task_count := task_count (prof_task ?q) + outstanding v cs,
        task_ready := (task_ready (prof_task ?q) \<or> task_count (prof_task ?q) + outstanding v cs = 0)\<rparr>"
    proof (rule Cons.IH)
      show "0 < task_count (prof_task ?q) + outstanding v (take k cs)" if "k < length cs" for k
        using pre [OF that] o [of "take k cs"] q by simp
    qed (use Cons.prems(1) pos q in simp_all)
    then show ?thesis unfolding run using q o [of cs] by (simp add: add.assoc)
  qed
qed

text \<open>C40: the profiler. When the tasks NCCL starts in a batch (nested or after one another, with any events of other kinds between
  them) are all stopped, and not before, the task is ready, the counter is back at zero, and the report shows the first task
  of the batch, whatever followed it.\<close>

theorem profiler_reports_first:
  assumes idle: "task_count (prof_task p) = 0" "\<not> task_ready (prof_task p)" and d: "is_task v d"
    and running: "\<forall>k<length cs. 0 < 1 + outstanding v (take k cs)"
  shows "(task_ready (prof_task (prof_run v (ProfStart d # cs) p)) \<longleftrightarrow> 1 + outstanding v cs = 0)
    \<and> (1 + outstanding v cs = 0 \<longrightarrow> task_count (prof_task (prof_run v (ProfStart d # cs) p)) = 0
      \<and> (read_tuning (prof_run v (ProfStart d # cs) p))\<lparr>tun_chunkSize := None\<rparr> = tuning_of v d)"
proof -
  let ?p = "fst (start_event_of v d p)"
  note first = start_first [OF d idle(1)]
  have q: "prof_task (prof_run v cs ?p) = (prof_task ?p)\<lparr>task_count := task_count (prof_task ?p) + outstanding v cs,
      task_ready := (task_ready (prof_task ?p) \<or> task_count (prof_task ?p) + outstanding v cs = 0)\<rparr>"
    by (rule batch_run) (use first(1,3) running in simp_all)
  show ?thesis
  proof (intro conjI impI)
    show "task_ready (prof_task (prof_run v (ProfStart d # cs) p)) \<longleftrightarrow> 1 + outstanding v cs = 0"
      using q first(1,2) idle(2) by simp
    assume e: "1 + outstanding v cs = 0"
    show "task_count (prof_task (prof_run v (ProfStart d # cs) p)) = 0" using q first(1) e by simp
    have "prof_task (prof_run v (ProfStart d # cs) p) = (prof_task ?p)\<lparr>task_count := 0, task_ready := True\<rparr>"
      using q first(1) e by simp
    from first(4) [OF this] show "(read_tuning (prof_run v (ProfStart d # cs) p))\<lparr>tun_chunkSize := None\<rparr> = tuning_of v d" .
  qed
qed

definition no_events :: profiler where
  "no_events = \<lparr>prof_group_type = ProfileNone, prof_group_count = 0,
     prof_task = \<lparr>task_type = ProfileNone, task_count = 0, task_ready = False, task_what = TaskNone\<rparr>,
     prof_proxy = \<lparr>proxy_type = ProfileNone, proxy_count = 0, proxy_ready = False, proxy_chunkSize = 0\<rparr>\<rparr>"

definition some_event :: "event_type \<Rightarrow> event_descr" where
  "some_event ty = \<lparr>descr_type = ty, descr_algo = Some ''RING'', descr_proto = Some ''LL'', descr_func = Some ''AllReduce'',
     descr_kernelVariant = Some ''AllReduce_AGxLL_R'', descr_isSymColl = True, descr_nChannels = 8, descr_nWarps = 4, descr_p2p_nChannels = 2,
     descr_chunkSize = 4096, descr_syncStrategy = None\<rparr>"

theorem profiler_reports_first_witness:
  "let q = prof_run 7 [ProfStart (some_event ProfileColl), ProfStart (some_event ProfileGroup), ProfStart (some_event ProfileP2p),
      ProfStop HandleTask, ProfStop HandleTask] no_events
    in task_ready (prof_task q) \<and> tun_implementation (read_tuning q) = ''SYM'' \<and> tun_kernelVariant (read_tuning q) = ''AGxLL_R''"
proof -
  let ?cs = "[ProfStart (some_event ProfileGroup), ProfStart (some_event ProfileP2p), ProfStop HandleTask, ProfStop HandleTask]"
  have o: "outstanding 7 ?cs = - 1" by (simp add: is_task_def some_event_def)
  have r: "\<forall>k<length ?cs. 0 < 1 + outstanding 7 (take k ?cs)"
    by (auto simp: less_Suc_eq is_task_def some_event_def)
  have h: "task_count (prof_task no_events) = 0" "\<not> task_ready (prof_task no_events)" "is_task 7 (some_event ProfileColl)"
    by (simp_all add: no_events_def is_task_def some_event_def)
  note t = profiler_reports_first [OF h r]
  let ?q = "prof_run 7 (ProfStart (some_event ProfileColl) # ?cs) no_events"
  have "(read_tuning ?q)\<lparr>tun_chunkSize := None\<rparr> = tuning_of 7 (some_event ProfileColl)" "task_ready (prof_task ?q)"
    using t o by simp_all
  moreover have "tun_implementation (tuning_of 7 (some_event ProfileColl)) = ''SYM''"
    "tun_kernelVariant (tuning_of 7 (some_event ProfileColl)) = ''AGxLL_R''"
    by (simp_all add: tuning_of_def some_event_def no_tuning_def or_na_def strip_func_def)
  ultimately show ?thesis by (metis tuning_info.select_convs(1,4) tuning_info.surjective tuning_info.update_convs(8))
qed

end
