(* ===== verification/HostMatrix.thy ===== *)
theory HostMatrix
  imports NcclPrelude
begin

unbundle bit_operations_syntax

text \<open>
  The traffic matrix of src/alltoallv.cu: the environment of the test and the file with the matrix. The file is scanned twice,
  first for its shape and then for its values; the theory shows that the scans agree and return the rows of numbers of
  the file. Numbers of type \<open>double\<close> and \<open>long double\<close> are real numbers; a value that is not a number is left out.
\<close>

section \<open>Scanning\<close>

text \<open>\<open>strtod\<close> gives the value, the number of characters it has used (zero when there is no number) and whether it has set
  \<open>errno\<close> to \<open>ERANGE\<close>.\<close>

type_synonym strtod = "string \<Rightarrow> real \<times> nat \<times> bool"

definition newline :: char where "newline = char_of (10::nat)"

definition isspace :: "char \<Rightarrow> bool" where
  "isspace c \<longleftrightarrow> c = CHR '' '' \<or> (9 \<le> (of_char c :: nat) \<and> (of_char c :: nat) \<le> 13)"

text \<open>The largest value of \<open>size_t\<close>, and the conversion of a number to it, rounded down to 16 bytes.\<close>

definition size_max :: real where "size_max = 2 ^ 64 - 1"

definition align16 :: "real \<Rightarrow> 64 word" where
  "align16 x = word_of_int \<lfloor>x\<rfloor> AND NOT 15"

text \<open>The first pass counts rows and columns: the state is the number of rows, their columns, and the columns of the current
  row. None where the file is rejected.\<close>

function first_pass :: "strtod \<Rightarrow> real \<Rightarrow> string \<Rightarrow> nat \<Rightarrow> nat \<Rightarrow> nat \<Rightarrow> (nat \<times> nat \<times> nat) option" where
  "first_pass strtod scale [] rows cols tmp_cols = Some (rows, cols, tmp_cols)"
| "first_pass strtod scale (c # p) rows cols tmp_cols =
     (if isspace c
      then (if c = newline \<and> tmp_cols > 0
            then (if rows = 0 then first_pass strtod scale p 1 tmp_cols 0
                  else if tmp_cols \<noteq> cols then None
                  else first_pass strtod scale p (rows + 1) cols 0)
            else first_pass strtod scale p rows cols tmp_cols)
      else (case strtod (c # p) of (v, used, erange) \<Rightarrow>
              let rest = drop used (c # p) in
              if used = 0 \<or> erange then None
              else if rest \<noteq> [] \<and> \<not> isspace (hd rest) then None
              else if v < 0 then None
              else if v * scale > size_max then None
              else first_pass strtod scale rest rows cols (tmp_cols + 1)))"
  by pat_completeness auto
termination by (relation "measure (\<lambda>(s, sc, p, r). length p)") (auto simp: less_Suc_eq_le)

text \<open>The last line may have no newline. The shape must be square.\<close>

definition matrix_shape :: "strtod \<Rightarrow> real \<Rightarrow> string \<Rightarrow> nat option" where
  "matrix_shape strtod scale buf =
     (case first_pass strtod scale buf 0 0 0 of
        None \<Rightarrow> None
      | Some (rows, cols, tmp_cols) \<Rightarrow>
          (case (if tmp_cols > 0
                 then (if rows = 0 then Some (1, tmp_cols) else if tmp_cols \<noteq> cols then None else Some (rows + 1, cols))
                 else Some (rows, cols)) of
             None \<Rightarrow> None
           | Some (rows, cols) \<Rightarrow> if rows = 0 \<or> rows \<noteq> cols then None else Some rows))"

text \<open>The second pass reads the values into an array of \<open>n_elts\<close> elements; \<open>acc\<close> are those it has read.\<close>

function second_pass :: "strtod \<Rightarrow> real \<Rightarrow> nat \<Rightarrow> string \<Rightarrow> 64 word list \<Rightarrow> 64 word list option" where
  "second_pass strtod scale n_elts [] acc = (if length acc \<noteq> n_elts then None else Some acc)"
| "second_pass strtod scale n_elts (c # p) acc =
     (if isspace c then second_pass strtod scale n_elts p acc
      else if length acc \<ge> n_elts then None
      else (case strtod (c # p) of (v, used, erange) \<Rightarrow>
              if used = 0 then None
              else second_pass strtod scale n_elts (drop used (c # p)) (acc @ [align16 (v * scale)])))"
  by pat_completeness auto
termination by (relation "measure (\<lambda>(s, sc, n, p, a). length p)") (auto simp: less_Suc_eq_le)

text \<open>The file: None when it cannot be read. Characters after a zero are not seen. The result is the dimension and the
  elements, row after row.\<close>

definition AlltoAllvReadTrafficMatrix :: "strtod \<Rightarrow> real \<Rightarrow> string option \<Rightarrow> (nat \<times> 64 word list) option" where
  "AlltoAllvReadTrafficMatrix strtod scale file =
     (case file of
        None \<Rightarrow> None
      | Some contents \<Rightarrow>
          (let buf = takeWhile (\<lambda>c. c \<noteq> CHR 0x00) contents in
           case matrix_shape strtod scale buf of
             None \<Rightarrow> None
           | Some n \<Rightarrow> map_option (\<lambda>vals. (n, vals)) (second_pass strtod scale (n * n) buf [])))"

section \<open>The rows of a file\<close>

text \<open>What the scans are to find: the words of the lines, without the lines that have none.\<close>

function words_of :: "string \<Rightarrow> string list" where
  "words_of [] = []"
| "words_of (c # s) = (if isspace c then words_of s
     else takeWhile (\<lambda>x. \<not> isspace x) (c # s) # words_of (dropWhile (\<lambda>x. \<not> isspace x) (c # s)))"
  by pat_completeness auto
termination by (relation "measure length") (auto simp: less_Suc_eq_le length_dropWhile_le)

fun lines_of :: "string \<Rightarrow> string list" where
  "lines_of [] = [[]]"
| "lines_of (c # s) = (if c = newline then [] # lines_of s else (c # hd (lines_of s)) # tl (lines_of s))"

definition file_rows :: "string \<Rightarrow> string list list" where
  "file_rows s = filter (\<lambda>ws. ws \<noteq> []) (map words_of (lines_of s))"

text \<open>A word that is accepted, and its number of bytes.\<close>

definition good_word :: "strtod \<Rightarrow> real \<Rightarrow> string \<Rightarrow> bool" where
  "good_word strtod scale w \<longleftrightarrow>
     (case strtod w of (v, used, erange) \<Rightarrow> used = length w \<and> \<not> erange \<and> 0 \<le> v \<and> v * scale \<le> size_max)"

definition word_bytes :: "strtod \<Rightarrow> real \<Rightarrow> string \<Rightarrow> 64 word" where
  "word_bytes strtod scale w = align16 (fst (strtod w) * scale)"

text \<open>By its documentation \<open>strtod\<close> reads no white space within a number, and what follows white space does not matter.\<close>

definition reads_words :: "strtod \<Rightarrow> bool" where
  "reads_words strtod \<longleftrightarrow>
     (\<forall>w rest. w \<noteq> [] \<and> (\<forall>c\<in>set w. \<not> isspace c) \<and> (rest = [] \<or> isspace (hd rest)) \<longrightarrow>
        strtod (w @ rest) = strtod w \<and> fst (snd (strtod w)) \<le> length w)"

lemma newline_space [simp]: "isspace newline"
  by (simp add: isspace_def newline_def)

lemma lines_ne [simp]: "lines_of s \<noteq> []"
  by (cases s) auto

lemma lines_word:
  assumes "\<forall>c\<in>set w. \<not> isspace c"
  shows "lines_of (w @ s) = (w @ hd (lines_of s)) # tl (lines_of s)"
  using assms
proof (induction w)
  case (Cons c w)
  then have "c \<noteq> newline" by auto
  with Cons show ?case by simp
qed simp

lemma words_word:
  assumes "w \<noteq> []" "\<forall>c\<in>set w. \<not> isspace c" "s = [] \<or> isspace (hd s)"
  shows "words_of (w @ s) = w # words_of s"
proof -
  obtain c w' where w: "w = c # w'" using assms(1) by (cases w) auto
  have "takeWhile (\<lambda>x. \<not> isspace x) s = []" "dropWhile (\<lambda>x. \<not> isspace x) s = s" using assms(3) by (cases s; simp)+
  then have "takeWhile (\<lambda>x. \<not> isspace x) (w @ s) = w" "dropWhile (\<lambda>x. \<not> isspace x) (w @ s) = s"
    using assms(2) by (simp_all add: takeWhile_append2 dropWhile_append2)
  then show ?thesis using assms(2) by (simp add: w)
qed

lemma first_line_space: "s = [] \<or> isspace (hd s) \<Longrightarrow> hd (lines_of s) = [] \<or> isspace (hd (hd (lines_of s)))"
  by (cases s) auto

text \<open>A position that is not white space begins a word.\<close>

lemma split_word:
  assumes "\<not> isspace c"
  obtains w s where "c # p = w @ s" "w \<noteq> []" "\<forall>c\<in>set w. \<not> isspace c" "s = [] \<or> isspace (hd s)" "length s < length (c # p)"
proof
  let ?w = "takeWhile (\<lambda>x. \<not> isspace x) (c # p)" and ?s = "dropWhile (\<lambda>x. \<not> isspace x) (c # p)"
  show "c # p = ?w @ ?s" by (simp only: takeWhile_dropWhile_id)
  show "?w \<noteq> []" using assms by simp
  show "\<forall>c\<in>set ?w. \<not> isspace c" by (auto dest: set_takeWhileD)
  show "?s = [] \<or> isspace (hd ?s)" using hd_dropWhile [of "\<lambda>x. \<not> isspace x" "c # p"] by blast
  show "length ?s < length (c # p)" using assms by (simp add: less_Suc_eq_le length_dropWhile_le)
qed

section \<open>The first pass\<close>

text \<open>What the first pass does with the numbers of words of the lines.\<close>

fun check_counts :: "nat \<Rightarrow> nat \<Rightarrow> nat list \<Rightarrow> (nat \<times> nat) option" where
  "check_counts rows cols [] = Some (rows, cols)"
| "check_counts rows cols (n # ns) =
     (if n = 0 then check_counts rows cols ns
      else if rows = 0 then check_counts 1 n ns
      else if n \<noteq> cols then None else check_counts (rows + 1) cols ns)"

definition all_good :: "strtod \<Rightarrow> real \<Rightarrow> string \<Rightarrow> bool" where
  "all_good strtod scale p \<longleftrightarrow> (\<forall>l\<in>set (lines_of p). \<forall>w\<in>set (words_of l). good_word strtod scale w)"

lemma all_good_space:
  "all_good strtod scale (newline # p) = all_good strtod scale p"
  "isspace c \<Longrightarrow> c \<noteq> newline \<Longrightarrow> all_good strtod scale (c # p) = all_good strtod scale p"
proof -
  show "all_good strtod scale (newline # p) = all_good strtod scale p" by (simp add: all_good_def)
  assume c: "isspace c" "c \<noteq> newline"
  obtain l ls where "lines_of p = l # ls" by (cases "lines_of p") auto
  with c show "all_good strtod scale (c # p) = all_good strtod scale p" by (simp add: all_good_def)
qed

lemma all_good_word:
  assumes "w \<noteq> []" "\<forall>c\<in>set w. \<not> isspace c" "s = [] \<or> isspace (hd s)"
  shows "all_good strtod scale (w @ s) = (good_word strtod scale w \<and> all_good strtod scale s)"
    "words_of (hd (lines_of (w @ s))) = w # words_of (hd (lines_of s))" "tl (lines_of (w @ s)) = tl (lines_of s)"
proof -
  obtain l ls where l: "lines_of s = l # ls" by (cases "lines_of s") auto
  have first: "l = [] \<or> isspace (hd l)" using first_line_space [OF assms(3)] l by simp
  show "all_good strtod scale (w @ s) = (good_word strtod scale w \<and> all_good strtod scale s)"
    by (simp add: all_good_def lines_word [OF assms(2)] l words_word [OF assms(1,2) first])
  show "words_of (hd (lines_of (w @ s))) = w # words_of (hd (lines_of s))" "tl (lines_of (w @ s)) = tl (lines_of s)"
    by (simp_all add: lines_word [OF assms(2)] l words_word [OF assms(1,2) first])
qed

lemma strtod_word:
  assumes "reads_words strtod" "w \<noteq> []" "\<forall>c\<in>set w. \<not> isspace c" "s = [] \<or> isspace (hd s)"
  shows "strtod (w @ s) = strtod w" "fst (snd (strtod w)) \<le> length w"
  using assms unfolding reads_words_def by blast+

text \<open>A word that is not read to its end is rejected.\<close>

lemma first_pass_word:
  assumes "reads_words strtod" "w \<noteq> []" "\<forall>c\<in>set w. \<not> isspace c" "s = [] \<or> isspace (hd s)"
  shows "first_pass strtod scale (w @ s) rows cols tmp =
    (if good_word strtod scale w then first_pass strtod scale s rows cols (tmp + 1) else None)"
proof -
  obtain c p where cp: "w @ s = c # p" using assms(2) by (cases w) auto
  have c: "\<not> isspace c" using assms(2,3) cp by (cases w) auto
  obtain v used er where t: "strtod w = (v, used, er)" by (metis prod.collapse)
  note sw = strtod_word [OF assms, unfolded t fst_conv snd_conv]
  have z: "(used = length w) = (\<not> (drop used (w @ s) \<noteq> [] \<and> \<not> isspace (hd (drop used (w @ s)))))"
  proof (cases "used = length w")
    case False
    with sw(2) have u: "used < length w" by simp
    then have "drop used (w @ s) = w ! used # (drop (Suc used) w @ s)" by (simp add: Cons_nth_drop_Suc [symmetric])
    with u assms(3) show ?thesis by simp
  qed (use assms(4) in auto)
  have u0: "used = length w \<Longrightarrow> used \<noteq> 0" using assms(2) by simp
  show ?thesis
    unfolding cp first_pass.simps(2) good_word_def t using c sw(1) t z u0 assms(4)
    by (auto simp: Let_def cp [symmetric] not_le not_less)
qed

lemma first_pass_counts:
  assumes "reads_words strtod"
  shows "Option.bind (first_pass strtod scale p rows cols tmp) (\<lambda>(r, c, t). check_counts r c [t]) =
    (if all_good strtod scale p
     then check_counts rows cols ((tmp + length (words_of (hd (lines_of p)))) # map (\<lambda>l. length (words_of l)) (tl (lines_of p)))
     else None)"
proof (induction "length p" arbitrary: p rows cols tmp rule: less_induct)
  case less
  show ?case
  proof (cases p)
    case Nil
    then show ?thesis by (simp add: all_good_def)
  next
    case (Cons c q)
    have q: "length q < length p" by (simp add: Cons)
    obtain l ls where l: "lines_of q = l # ls" by (cases "lines_of q") auto
    show ?thesis
    proof (cases "isspace c")
      case True
      then show ?thesis
        using less [OF q] l by (cases "c = newline") (auto simp: Cons all_good_space)
    next
      case False
      from split_word [OF False, of q] obtain w s where w: "c # q = w @ s" "w \<noteq> []" "\<forall>c\<in>set w. \<not> isspace c" "s = [] \<or> isspace (hd s)"
        "length s < length (c # q)" by metis
      have s: "length s < length p" using w(5) Cons by simp
      show ?thesis
        unfolding Cons w(1) all_good_word [OF w(2-4)] first_pass_word [OF assms w(2-4)]
        using less [OF s] by (simp add: add.commute)
    qed
  qed
qed

lemma check_counts_more:
  "0 < rows \<Longrightarrow> check_counts rows cols ns =
     (if \<forall>n\<in>set (filter (\<lambda>n. n \<noteq> 0) ns). n = cols then Some (rows + length (filter (\<lambda>n. n \<noteq> 0) ns), cols) else None)"
  by (induction ns arbitrary: rows) auto

lemma check_counts_square:
  "(case check_counts 0 0 ns of None \<Rightarrow> None | Some (rows, cols) \<Rightarrow> if rows = 0 \<or> rows \<noteq> cols then None else Some rows) =
   (let ms = filter (\<lambda>n. n \<noteq> 0) ns in if ms \<noteq> [] \<and> (\<forall>m\<in>set ms. m = length ms) then Some (length ms) else None)"
proof (induction ns)
  case (Cons n ns)
  show ?case
  proof (cases "n = 0")
    case True
    with Cons show ?thesis by simp
  next
    case False
    have "check_counts 0 0 (n # ns) = check_counts 1 n ns" using False by simp
    then show ?thesis using False check_counts_more [of 1 n ns] by (auto simp: Let_def)
  qed
qed simp

lemma matrix_shape_counts:
  "matrix_shape strtod scale buf =
     (case Option.bind (first_pass strtod scale buf 0 0 0) (\<lambda>(r, c, t). check_counts r c [t]) of
        None \<Rightarrow> None | Some (rows, cols) \<Rightarrow> if rows = 0 \<or> rows \<noteq> cols then None else Some rows)"
  by (auto simp: matrix_shape_def split: option.splits prod.splits)

lemma row_lengths: "filter (\<lambda>n. n \<noteq> 0) (map (\<lambda>l. length (words_of l)) ls) = map length (filter (\<lambda>ws. ws \<noteq> []) (map words_of ls))"
  by (induction ls) auto

text \<open>The shape that is found is that of the rows of the file.\<close>

lemma matrix_shape_rows:
  assumes "reads_words strtod"
  shows "matrix_shape strtod scale buf =
    (if all_good strtod scale buf \<and> file_rows buf \<noteq> [] \<and> (\<forall>r\<in>set (file_rows buf). length r = length (file_rows buf))
     then Some (length (file_rows buf)) else None)"
proof -
  let ?ns = "map (\<lambda>l. length (words_of l)) (lines_of buf)"
  have "?ns = length (words_of (hd (lines_of buf))) # map (\<lambda>l. length (words_of l)) (tl (lines_of buf))"
    by (cases "lines_of buf") auto
  then have m: "matrix_shape strtod scale buf = (if all_good strtod scale buf
      then (case check_counts 0 0 ?ns of None \<Rightarrow> None | Some (rows, cols) \<Rightarrow> if rows = 0 \<or> rows \<noteq> cols then None else Some rows) else None)"
    using first_pass_counts [OF assms, of scale buf 0 0 0] by (simp add: matrix_shape_counts)
  have "filter (\<lambda>n. n \<noteq> 0) ?ns = map length (file_rows buf)" by (simp only: row_lengths file_rows_def)
  then show ?thesis unfolding m check_counts_square Let_def by (simp only:) simp
qed

section \<open>The second pass\<close>

lemma words_lines: "words_of p = concat (map words_of (lines_of p))"
proof (induction "length p" arbitrary: p rule: less_induct)
  case less
  show ?case
  proof (cases p)
    case (Cons c q)
    have q: "length q < length p" by (simp add: Cons)
    obtain l ls where l: "lines_of q = l # ls" by (cases "lines_of q") auto
    show ?thesis
    proof (cases "isspace c")
      case True
      then show ?thesis using less [OF q] l by (cases "c = newline") (simp_all add: Cons)
    next
      case False
      from split_word [OF False, of q] obtain w s where w: "c # q = w @ s" "w \<noteq> []" "\<forall>c\<in>set w. \<not> isspace c" "s = [] \<or> isspace (hd s)"
        "length s < length (c # q)" by metis
      have s: "length s < length p" using w(5) Cons by simp
      obtain l ls where l: "lines_of s = l # ls" by (cases "lines_of s") auto
      have "words_of (w @ l) = w # words_of l" using first_line_space [OF w(4)] l by (intro words_word w(2,3)) simp
      then show ?thesis
        unfolding Cons w(1) words_word [OF w(2-4)] lines_word [OF w(3)] using less [OF s] l by simp
    qed
  qed simp
qed

lemma file_words: "concat (file_rows p) = words_of p"
proof -
  have "concat (filter (\<lambda>ws. ws \<noteq> []) xss) = concat xss" for xss :: "string list list" by (induction xss) auto
  then show ?thesis by (simp add: file_rows_def words_lines [of p])
qed

lemma all_good_words: "all_good strtod scale p = (\<forall>w\<in>set (words_of p). good_word strtod scale w)"
  by (auto simp: all_good_def words_lines [of p])

lemma second_pass_words:
  assumes "reads_words strtod"
  shows "\<forall>w\<in>set (words_of p). good_word strtod scale w \<Longrightarrow> length acc + length (words_of p) = n
    \<Longrightarrow> second_pass strtod scale n p acc = Some (acc @ map (word_bytes strtod scale) (words_of p))"
proof (induction "length p" arbitrary: p acc rule: less_induct)
  case less
  show ?case
  proof (cases p)
    case Nil
    then show ?thesis using less.prems by simp
  next
    case (Cons c q)
    have q: "length q < length p" by (simp add: Cons)
    show ?thesis
    proof (cases "isspace c")
      case True
      then show ?thesis using less.hyps [OF q] less.prems by (simp add: Cons)
    next
      case False
      from split_word [OF False, of q] obtain w s where w: "c # q = w @ s" "w \<noteq> []" "\<forall>c\<in>set w. \<not> isspace c" "s = [] \<or> isspace (hd s)"
        "length s < length (c # q)" by metis
      have s: "length s < length p" using w(5) Cons by simp
      have ws: "words_of p = w # words_of s" unfolding Cons w(1) by (rule words_word [OF w(2-4)])
      obtain v used er where t: "strtod w = (v, used, er)" by (metis prod.collapse)
      have used: "used = length w" using less.prems(1) by (simp add: ws good_word_def t)
      have st: "strtod (w @ s) = (v, used, er)" using strtod_word(1) [OF assms w(2-4)] t by simp
      have "second_pass strtod scale n s (acc @ [align16 (v * scale)])
          = Some ((acc @ [align16 (v * scale)]) @ map (word_bytes strtod scale) (words_of s))"
        using less.prems by (intro less.hyps [OF s]) (simp_all add: ws)
      then show ?thesis
        unfolding ws unfolding Cons second_pass.simps(2) unfolding w(1) st
        using False less.prems(2) used w(2) by (simp add: ws word_bytes_def t)
    qed
  qed
qed

text \<open>C16: the matrix of a file. Both scans together accept exactly the files whose lines with words form a square of
  numbers that are accepted (not negative, and not too large once they are scaled), and return the size of the square and its numbers,
  row after row, scaled and rounded down to 16 bytes. In particular the second scan never runs over
  its array and never rejects what the first has accepted.\<close>

theorem matrix_read_correct:
  assumes "reads_words strtod"
  shows "AlltoAllvReadTrafficMatrix strtod scale (Some contents) =
    (let rows = file_rows (takeWhile (\<lambda>c. c \<noteq> CHR 0x00) contents) in
     if rows \<noteq> [] \<and> (\<forall>r\<in>set rows. length r = length rows) \<and> (\<forall>r\<in>set rows. \<forall>w\<in>set r. good_word strtod scale w)
     then Some (length rows, map (word_bytes strtod scale) (concat rows)) else None)"
proof -
  let ?buf = "takeWhile (\<lambda>c. c \<noteq> CHR 0x00) contents"
  let ?rows = "file_rows ?buf"
  have good: "all_good strtod scale ?buf = (\<forall>r\<in>set ?rows. \<forall>w\<in>set r. good_word strtod scale w)"
    unfolding all_good_words file_words [symmetric] by auto
  have len: "length (words_of ?buf) = length ?rows * length ?rows" if "\<forall>r\<in>set ?rows. length r = length ?rows"
  proof -
    have "length (concat xss) = length xss * m" if "\<forall>r\<in>set xss. length r = m" for m and xss :: "string list list"
      using that by (induction xss) auto
    with that show ?thesis by (simp only: file_words [symmetric])
  qed
  show ?thesis
    using second_pass_words [OF assms, of ?buf scale "[]" "length ?rows * length ?rows"] len good
    unfolding AlltoAllvReadTrafficMatrix_def option.case Let_def matrix_shape_rows [OF assms] all_good_words
    by (auto simp: file_words)
qed

text \<open>A reader of decimal digits.\<close>

definition is_digit :: "char \<Rightarrow> bool" where
  "is_digit c \<longleftrightarrow> 48 \<le> (of_char c :: nat) \<and> (of_char c :: nat) \<le> 57"

definition digits_strtod :: strtod where
  "digits_strtod s = (let ds = takeWhile is_digit s in (foldl (\<lambda>v c. 10 * v + (of_char c - 48)) 0 ds, length ds, False))"

lemma space_no_digit: "isspace c \<Longrightarrow> \<not> is_digit c"
proof -
  assume "isspace c"
  then consider "c = CHR '' ''" | "(of_char c :: nat) \<le> 13" unfolding isspace_def by blast
  then show "\<not> is_digit c" by cases (simp_all add: is_digit_def)
qed

lemma digits_read_words: "reads_words digits_strtod"
  unfolding reads_words_def
proof (intro allI impI)
  fix w rest :: string
  assume a: "w \<noteq> [] \<and> (\<forall>c\<in>set w. \<not> isspace c) \<and> (rest = [] \<or> isspace (hd rest))"
  then have "takeWhile is_digit rest = []" using space_no_digit by (cases rest) auto
  then have "takeWhile is_digit (w @ rest) = (if \<forall>x\<in>set w. is_digit x then w else takeWhile is_digit w)"
    by (simp only: takeWhile_append append_Nil2)
  moreover have "takeWhile is_digit w = w" if "\<forall>x\<in>set w. is_digit x" using that by (simp only: takeWhile_eq_all_conv)
  ultimately have "takeWhile is_digit (w @ rest) = takeWhile is_digit w" by presburger
  then show "digits_strtod (w @ rest) = digits_strtod w \<and> fst (snd (digits_strtod w)) \<le> length w"
    by (simp add: digits_strtod_def Let_def length_takeWhile_le)
qed

definition example_matrix :: string where
  "example_matrix = ''100 20'' @ [newline, newline] @ ''7 8''"

lemma example_rows: "file_rows (takeWhile (\<lambda>c. c \<noteq> CHR 0x00) example_matrix) = [[''100'', ''20''], [''7'', ''8'']]"
  by code_simp

lemma example_digits:
  "digits_strtod ''100'' = (100, 3, False)" "digits_strtod ''20'' = (20, 2, False)" "digits_strtod ''7'' = (7, 1, False)"
  "digits_strtod ''8'' = (8, 1, False)"
  by (simp_all add: digits_strtod_def is_digit_def)

theorem matrix_read_correct_witness:
  "AlltoAllvReadTrafficMatrix digits_strtod 2 (Some example_matrix) = Some (2, [192, 32, 0, 16])"
  using matrix_read_correct [OF digits_read_words, of 2 example_matrix]
  by (simp add: example_rows good_word_def word_bytes_def example_digits align16_def size_max_def)

end
