(* ===== verification/HostAllv.thy ===== *)
theory HostAllv
  imports HostHyper HostMatrix
begin

unbundle bit_operations_syntax

text \<open>
  The test of the irregular all-to-all (src/alltoallv.cu): its configuration from the environment, the bytes every rank sends to
  every other, and the functions of the test. The theorems show that the ranges of all ranks fit into the
  buffers, and that the sends and receives move to every rank exactly what its expected buffer holds.
\<close>

section \<open>Configuration\<close>

record allv =
  use_generated_pattern :: bool
  av_print_summary :: bool
  traffic_matrix_file :: "string option"
  traffic_matrix_data :: "u64 list"
  traffic_matrix_dim :: int
  traffic_matrix_scale :: real
  distance_weighted_spread :: real
  alltoallv_inited :: bool
  alltoallv_error_set :: bool

definition allv_start :: allv where
  "allv_start = \<lparr>use_generated_pattern = False, av_print_summary = False, traffic_matrix_file = None, traffic_matrix_data = [],
     traffic_matrix_dim = 0, traffic_matrix_scale = 1, distance_weighted_spread = 1, alltoallv_inited = False, alltoallv_error_set = False\<rparr>"

text \<open>A number in the environment counts when \<open>strtod\<close> reads it to its end.\<close>

definition env_number :: "strtod \<Rightarrow> string option \<Rightarrow> real \<Rightarrow> real" where
  "env_number strtod var old =
     (case var of None \<Rightarrow> old
      | Some s \<Rightarrow> (case strtod s of (v, used, erange) \<Rightarrow> if \<not> erange \<and> used \<noteq> 0 \<and> used = length s then v else old))"

definition AlltoAllvParseEnv :: "strtod \<Rightarrow> (string \<Rightarrow> int) \<Rightarrow> (string \<Rightarrow> string option) \<Rightarrow> allv \<Rightarrow> allv" where
  "AlltoAllvParseEnv strtod atoi env st =
     (let file = (case env ''NCCL_TESTS_ALLTOALLV_MATRIX_FILE'' of None \<Rightarrow> traffic_matrix_file st | Some f \<Rightarrow> Some f);
          summary = (case env ''NCCL_TESTS_ALLTOALLV_PRINT_SUMMARY'' of None \<Rightarrow> av_print_summary st | Some s \<Rightarrow> atoi s \<noteq> 0);
          spread = env_number strtod (env ''NCCL_TESTS_ALLTOALLV_SPREAD'') (distance_weighted_spread st);
          spread = (if spread < 0 then 0 else spread);
          spread = (if spread > 1 then 1 else spread);
          scale = env_number strtod (env ''NCCL_TESTS_ALLTOALLV_MATRIX_SCALE'') (traffic_matrix_scale st);
          scale = (if scale < 0 then 0 else scale)
      in st\<lparr>traffic_matrix_file := file, av_print_summary := summary, distance_weighted_spread := spread, traffic_matrix_scale := scale\<rparr>)"

text \<open>\<open>files\<close> gives the contents of a file that can be read.\<close>

definition AlltoAllvInit :: "strtod \<Rightarrow> (string \<Rightarrow> int) \<Rightarrow> (string \<Rightarrow> string option) \<Rightarrow> (string \<Rightarrow> string option) \<Rightarrow> int \<Rightarrow> allv \<Rightarrow> allv" where
  "AlltoAllvInit strtod atoi env files nranks st =
     (let st = (if \<not> alltoallv_inited st
                then (let st = AlltoAllvParseEnv strtod atoi env st;
                          st = (case traffic_matrix_file st of
                                  Some f \<Rightarrow>
                                    (let st = st\<lparr>use_generated_pattern := False\<rparr>
                                     in case AlltoAllvReadTrafficMatrix strtod (traffic_matrix_scale st) (files f) of
                                          None \<Rightarrow> st\<lparr>alltoallv_error_set := True\<rparr>
                                        | Some (n, vals) \<Rightarrow> st\<lparr>traffic_matrix_dim := int n, traffic_matrix_data := vals\<rparr>)
                                | None \<Rightarrow> st\<lparr>use_generated_pattern := True\<rparr>)
                      in st\<lparr>alltoallv_inited := True\<rparr>)
                else st)
      in if traffic_matrix_file st \<noteq> None \<and> \<not> alltoallv_error_set st \<and> nranks > traffic_matrix_dim st
         then st\<lparr>alltoallv_error_set := True\<rparr> else st)"

section \<open>Bytes from rank to rank\<close>

definition AlltoAllvGetPeerBytesFromMatrix :: "allv \<Rightarrow> int \<Rightarrow> int \<Rightarrow> u64" where
  "AlltoAllvGetPeerBytesFromMatrix st i j = traffic_matrix_data st ! nat (i * traffic_matrix_dim st + j)"

definition AlltoAllvGetPeerBytesDistanceWeighted :: "real \<Rightarrow> int \<Rightarrow> int \<Rightarrow> int \<Rightarrow> u64 \<Rightarrow> u64" where
  "AlltoAllvGetPeerBytesDistanceWeighted spread i j nranks total_bytes =
     (if nranks = 1 then total_bytes AND NOT 15
      else let distance = (j - i + nranks) smod nranks;
               sum_distances = u64_of_int nranks * u64_of_int (nranks - 1) div 2;
               uniform = real (unat total_bytes) / real_of_int nranks;
               dist = real_of_int distance * real (unat total_bytes) / real (unat sum_distances);
               bytes = (1 - spread) * uniform + spread * dist
           in align16 bytes)"

text \<open>The choice between the two that all functions of the test make.\<close>

definition peer_bytes :: "allv \<Rightarrow> int \<Rightarrow> u64 \<Rightarrow> int \<Rightarrow> int \<Rightarrow> u64" where
  "peer_bytes st nranks total_bytes i j =
     (if use_generated_pattern st then AlltoAllvGetPeerBytesDistanceWeighted (distance_weighted_spread st) i j nranks total_bytes
      else AlltoAllvGetPeerBytesFromMatrix st i j)"

definition AlltoAllvComputeMaxCounts :: "allv \<Rightarrow> u64 \<Rightarrow> int \<Rightarrow> u64 \<Rightarrow> u64 \<times> u64" where
  "AlltoAllvComputeMaxCounts st eltSize nranks total_bytes =
     (let ranks = [0..nranks - 1] in
      if use_generated_pattern st
      then (let rank_total = sum_list (map (\<lambda>j. AlltoAllvGetPeerBytesDistanceWeighted (distance_weighted_spread st) 0 j nranks total_bytes div eltSize) ranks)
            in (rank_total, rank_total))
      else foldl (\<lambda>(max_s, max_r) i.
              let rank_s = sum_list (map (\<lambda>j. AlltoAllvGetPeerBytesFromMatrix st i j div eltSize) ranks);
                  rank_r = sum_list (map (\<lambda>j. AlltoAllvGetPeerBytesFromMatrix st j i div eltSize) ranks)
              in (max max_s rank_s, max max_r rank_r)) (0, 0) ranks)"

section \<open>The functions of the test\<close>

definition AlltoAllvGetCollByteCount :: "allv \<Rightarrow> u64 \<Rightarrow> u64 \<Rightarrow> int \<Rightarrow> coll_counts" where
  "AlltoAllvGetCollByteCount st cnt eltSize nranks =
     (let param = (if use_generated_pattern st then base_count cnt eltSize (u64_of_int nranks) else 0);
          total_bytes = param * u64_of_int nranks * eltSize;
          m = AlltoAllvComputeMaxCounts st eltSize nranks total_bytes
      in \<lparr>sendcount = fst m, recvcount = snd m, paramcount = param, sendInplace = 0, recvInplace = 0\<rparr>)"

text \<open>What rank \<open>rank\<close> sends: one stream of elements; what it expects: a segment of the stream of every source, one after the
  other.\<close>

definition send_stream :: "allv \<Rightarrow> elt_type \<Rightarrow> int \<Rightarrow> u64 \<Rightarrow> int \<Rightarrow> u64" where
  "send_stream st ty nranks total_bytes rank =
     sum_list (map (\<lambda>dst. peer_bytes st nranks total_bytes rank dst div wordSize ty) [0..nranks - 1])"

fun expect_segments :: "allv \<Rightarrow> elt_type \<Rightarrow> int \<Rightarrow> u64 \<Rightarrow> int \<Rightarrow> int \<Rightarrow> int list \<Rightarrow> u64 \<Rightarrow> (int \<Rightarrow> u64) \<Rightarrow> (int \<Rightarrow> u64) option" where
  "expect_segments st ty nranks total_bytes rep rank [] recvoffset buf = Some buf"
| "expect_segments st ty nranks total_bytes rep rank (src # srcs) recvoffset buf =
     (let recvcount = peer_bytes st nranks total_bytes src rank div wordSize ty in
      if recvcount = 0 then expect_segments st ty nranks total_bytes rep rank srcs recvoffset buf
      else (let src_offset = sum_list (map (\<lambda>k. peer_bytes st nranks total_bytes src k div wordSize ty) [0..rank - 1])
            in Option.bind (InitData ty NcclSum recvcount src_offset (u64_of_int (block_seed rep src)) 1 0 (elts ty recvoffset) buf)
                 (expect_segments st ty nranks total_bytes rep rank srcs (recvoffset + recvcount * wordSize ty))))"

text \<open>The loop body of \<open>AlltoAllvInitData\<close> for the device of rank \<open>rank\<close>.\<close>

definition AlltoAllvInitData :: "allv \<Rightarrow> threadArgs \<Rightarrow> elt_type \<Rightarrow> int \<Rightarrow> bool \<Rightarrow> int \<Rightarrow> gpu_bufs \<Rightarrow> gpu_bufs option" where
  "AlltoAllvInitData st args ty rep in_place rank b =
     (let nranks = nranks_of args;
          total_bytes = (if use_generated_pattern st then nbytes args * u64_of_int nranks else 0);
          b = clear_recv args ty b;
          b = b\<lparr>expected := memset_elts (elts ty (expectedBytes args)) (expected b)\<rparr>;
          sendcount = send_stream st ty nranks total_bytes rank
      in Option.bind (if sendcount > 0 then init_own in_place (InitData ty NcclSum sendcount 0 (u64_of_int (block_seed rep rank)) 1 0 0) b else Some b)
           (init_expected (expect_segments st ty nranks total_bytes rep rank [0..nranks - 1] 0)))"

definition allv_report :: "bool \<Rightarrow> threadArgs \<Rightarrow> threadArgs" where
  "allv_report in_place args = args\<lparr>reportErrors := (if in_place then 0 else 1)\<rparr>"

definition AlltoAllvGetBw :: "allv \<Rightarrow> u64 \<Rightarrow> u64 \<Rightarrow> real \<Rightarrow> int \<Rightarrow> real \<times> real" where
  "AlltoAllvGetBw st cnt typesize sec nranks =
     (let total_bytes = cnt * u64_of_int nranks * typesize;
          m = AlltoAllvComputeMaxCounts st typesize nranks total_bytes;
          baseBw = base_bw (max (fst m) (snd m) * typesize) sec;
          factor = real_of_int (nranks - 1) / real_of_int nranks
      in (baseBw, baseBw * factor))"

text \<open>The lines of the summary: bytes sent, bytes received and the bandwidths of every rank.\<close>

definition AlltoAllvPrintRankBandwidths :: "allv \<Rightarrow> int \<Rightarrow> u64 \<Rightarrow> real \<Rightarrow> (int \<times> u64 \<times> u64 \<times> real \<times> real) list" where
  "AlltoAllvPrintRankBandwidths st nranks total_bytes sec =
     map (\<lambda>rank. let s = sum_list (map (\<lambda>peer. peer_bytes st nranks total_bytes rank peer) [0..nranks - 1]);
                     r = sum_list (map (\<lambda>peer. peer_bytes st nranks total_bytes peer rank) [0..nranks - 1]);
                     alg = base_bw (max s r) sec;
                     factor = real_of_int (nranks - 1) / real_of_int nranks
                 in (rank, s, r, alg, alg * factor)) [0..nranks - 1]"

text \<open>The sends and receives of a rank with the peers, from the pointers on.\<close>

fun allv_ops :: "(int \<Rightarrow> int \<Rightarrow> u64) \<Rightarrow> u64 \<Rightarrow> int \<Rightarrow> int list \<Rightarrow> buf_ptr \<Rightarrow> buf_ptr \<Rightarrow> nccl_op list" where
  "allv_ops bytes esize rank [] sptr rptr = []"
| "allv_ops bytes esize rank (r # peers) sptr rptr =
     (let send_count = bytes rank r div esize;
          recv_count = bytes r rank div esize
      in (if send_count > 0 then [SendOp sptr send_count r] else [])
         @ (if recv_count > 0 then [RecvOp rptr recv_count r] else [])
         @ allv_ops bytes esize rank peers
             (if send_count > 0 then (fst sptr, snd sptr + send_count * esize) else sptr)
             (if recv_count > 0 then (fst rptr, snd rptr + recv_count * esize) else rptr))"

definition AlltoAllvRunColl :: "allv \<Rightarrow> coll_env \<Rightarrow> coll_call \<Rightarrow> elt_type \<Rightarrow> nccl_op list \<times> testResult" where
  "AlltoAllvRunColl st env c ty =
     (if call_impl c = 0 then
        (let nRanks = env_nranks env;
             total_bytes = call_count c * u64_of_int nRanks * wordSize ty
         in (GroupStart # allv_ops (peer_bytes st nRanks total_bytes) (wordSize ty) (env_rank env) [0..nRanks - 1] (send_ptr c) (recv_ptr c)
             @ [GroupEnd], TestSuccess))
      else ([], TestNotImplemented))"

text \<open>The sizes of the buffers, with the check of the matrix, and the test itself. In matrix mode the sizes must be equal.\<close>

definition AlltoAllvGetBuffSize ::
  "strtod \<Rightarrow> (string \<Rightarrow> int) \<Rightarrow> (string \<Rightarrow> string option) \<Rightarrow> (string \<Rightarrow> string option) \<Rightarrow> u64 \<Rightarrow> int \<Rightarrow> allv \<Rightarrow> (u64 \<times> u64) \<times> allv" where
  "AlltoAllvGetBuffSize strtod atoi env files cnt nranks st =
     (let st = AlltoAllvInit strtod atoi env files nranks st in
      if alltoallv_error_set st then ((0, 0), st)
      else (let c = AlltoAllvGetCollByteCount st cnt 1 nranks in
            if \<not> use_generated_pattern st \<and> cnt < max (sendcount c) (recvcount c)
            then ((0, 0), st\<lparr>alltoallv_error_set := True\<rparr>)
            else ((sendcount c, recvcount c), st)))"

definition AlltoAllvRunTest where
  "AlltoAllvRunTest st TimeTest tb args (ty :: elt_type option) typeName s =
     (if \<not> use_generated_pattern st \<and> alltoallv_error_set st then (TestInternalError, s)
      else if \<not> use_generated_pattern st \<and> minbytes args \<noteq> maxbytes args then (TestInternalError, s)
      else time_tests TimeTest (map (\<lambda>(t, n). (t, n, tab_zero_op tb, ''none'', -1)) (run_types tb ty typeName)) s)"

section \<open>What the sends and receives move\<close>

text \<open>The elements from rank to rank, and the elements before a peer in a stream.\<close>

definition elt_count :: "(int \<Rightarrow> int \<Rightarrow> u64) \<Rightarrow> u64 \<Rightarrow> int \<Rightarrow> int \<Rightarrow> nat" where
  "elt_count bytes w i j = unat (bytes i j div w)"

definition before :: "(int \<Rightarrow> nat) \<Rightarrow> int \<Rightarrow> int \<Rightarrow> nat" where
  "before f p x = sum f {p..<x}"

lemma before_self [simp]: "before f p p = 0"
  by (simp add: before_def)

lemma before_next: "p \<le> x \<Longrightarrow> before f p (x + 1) = before f p x + f x"
proof -
  assume "p \<le> x"
  then have "{p..<x + 1} = insert x {p..<x}" by auto
  then show ?thesis by (simp add: before_def)
qed

lemma before_mono: "x \<le> y \<Longrightarrow> before f p x \<le> before f p y"
  unfolding before_def by (intro sum_mono2) auto

text \<open>The calls of rank \<open>r\<close> with the peer \<open>x\<close>, from the start of the streams.\<close>

definition peer_ops :: "(int \<Rightarrow> int \<Rightarrow> u64) \<Rightarrow> u64 \<Rightarrow> int \<Rightarrow> buf_ptr \<Rightarrow> buf_ptr \<Rightarrow> int \<Rightarrow> nccl_op list" where
  "peer_ops B w r sp rp x =
     (if 0 < elt_count B w r x
      then [SendOp (fst sp, snd sp + of_nat (unat w * before (elt_count B w r) 0 x)) (B r x div w) x] else [])
     @ (if 0 < elt_count B w x r
        then [RecvOp (fst rp, snd rp + of_nat (unat w * before (\<lambda>y. elt_count B w y r) 0 x)) (B x r div w) x] else [])"

lemma allv_ops_peers:
  "0 \<le> p \<Longrightarrow> allv_ops B w r [p..n - 1] (fst sp, snd sp + of_nat (unat w * before (elt_count B w r) 0 p))
       (fst rp, snd rp + of_nat (unat w * before (\<lambda>y. elt_count B w y r) 0 p))
   = concat (map (peer_ops B w r sp rp) [p..n - 1])"
proof (induction "nat (n - p)" arbitrary: p)
  case 0
  then show ?case by simp
next
  case (Suc m)
  then have up: "[p..n - 1] = p # [p + 1..n - 1]" by (simp add: upto_rec1)
  have pos: "(0 < B i j div w) = (0 < elt_count B w i j)" for i j by (simp add: elt_count_def word_less_nat_alt)
  have add: "of_nat (unat w * f p) = (c :: u64) * w" if "f p = unat c" for f :: "int \<Rightarrow> nat" and c using that by simp
  have step: "(if 0 < c then a + of_nat (unat w * before f 0 p) + c * w else a + of_nat (unat w * before f 0 p))
      = a + of_nat (unat w * before f 0 (p + 1))" if "f p = unat c" for f and a c :: u64
    using that Suc.prems before_next [of 0 p f] by (auto simp: algebra_simps word_gt_0)
  have s: "(if 0 < B r p div w then (b, a + of_nat (unat w * before (elt_count B w r) 0 p) + B r p div w * w)
        else (b, a + of_nat (unat w * before (elt_count B w r) 0 p)))
      = (b, a + of_nat (unat w * before (elt_count B w r) 0 (p + 1)))" for a b
    using step [of "elt_count B w r" "B r p div w" a] by (auto simp: elt_count_def split: if_splits)
  have q: "(if 0 < B p r div w then (b, a + of_nat (unat w * before (\<lambda>y. elt_count B w y r) 0 p) + B p r div w * w)
        else (b, a + of_nat (unat w * before (\<lambda>y. elt_count B w y r) 0 p)))
      = (b, a + of_nat (unat w * before (\<lambda>y. elt_count B w y r) 0 (p + 1)))" for a b
    using step [of "\<lambda>y. elt_count B w y r" "B p r div w" a] by (auto simp: elt_count_def split: if_splits)
  have "m = nat (n - (p + 1))" "0 \<le> p + 1" using Suc by linarith+
  from Suc.hyps(1) [OF this] show ?case
    unfolding up allv_ops.simps Let_def fst_conv snd_conv
    unfolding s q unfolding pos by (simp add: peer_ops_def)
qed

lemma allv_ops_all: "allv_ops B w r [0..n - 1] sp rp = concat (map (peer_ops B w r sp rp) [0..n - 1])"
  using allv_ops_peers [of 0 B w r n sp rp] by simp

definition allv_group :: "(int \<Rightarrow> int \<Rightarrow> u64) \<Rightarrow> u64 \<Rightarrow> int \<Rightarrow> (int \<Rightarrow> u64) \<Rightarrow> (int \<Rightarrow> u64) \<Rightarrow> int \<Rightarrow> nccl_op list" where
  "allv_group B w n s q r = GroupStart # allv_ops B w r [0..n - 1] (False, s r) (True, q r) @ [GroupEnd]"

text \<open>Where rank \<open>a\<close> has the segment for \<open>b\<close>, and where rank \<open>b\<close> gets it.\<close>

definition send_at :: "(int \<Rightarrow> int \<Rightarrow> u64) \<Rightarrow> u64 \<Rightarrow> (int \<Rightarrow> u64) \<Rightarrow> int \<Rightarrow> int \<Rightarrow> u64" where
  "send_at B w s a b = s a + of_nat (unat w * before (elt_count B w a) 0 b)"

definition recv_at :: "(int \<Rightarrow> int \<Rightarrow> u64) \<Rightarrow> u64 \<Rightarrow> (int \<Rightarrow> u64) \<Rightarrow> int \<Rightarrow> int \<Rightarrow> u64" where
  "recv_at B w q b a = q b + of_nat (unat w * before (\<lambda>y. elt_count B w y b) 0 a)"

lemma allv_group_set:
  "set (allv_group B w n s q r) = {GroupStart, GroupEnd}
     \<union> {SendOp (False, send_at B w s r x) (B r x div w) x | x. x \<in> {0..<n} \<and> 0 < elt_count B w r x}
     \<union> {RecvOp (True, recv_at B w q r x) (B x r div w) x | x. x \<in> {0..<n} \<and> 0 < elt_count B w x r}"
proof -
  have "set (allv_ops B w r [0..n - 1] (False, s r) (True, q r)) = (\<Union>x\<in>{0..<n}. set (peer_ops B w r (False, s r) (True, q r) x))"
    unfolding allv_ops_all by (simp add: atLeastLessThanPlusOne_atLeastAtMost_int [symmetric])
  also have "\<dots> = {SendOp (False, send_at B w s r x) (B r x div w) x | x. x \<in> {0..<n} \<and> 0 < elt_count B w r x}
     \<union> {RecvOp (True, recv_at B w q r x) (B x r div w) x | x. x \<in> {0..<n} \<and> 0 < elt_count B w x r}"
    by (auto simp: peer_ops_def send_at_def recv_at_def split: if_splits)
  finally show ?thesis by (auto simp: allv_group_def)
qed

lemma allv_sends_to:
  assumes "b \<in> {0..<n}" "0 < elt_count B w a b"
  shows "set (concat (map (sends_to b (B a b div w)) (allv_group B w n s q a))) = {(False, send_at B w s a b)}"
proof -
  have "set (concat (map (sends_to b (B a b div w)) (allv_group B w n s q a)))
      = (\<Union>op\<in>set (allv_group B w n s q a). set (sends_to b (B a b div w) op))" by simp
  also have "\<dots> = {(False, send_at B w s a b)}"
    unfolding allv_group_set using assms by (auto split: if_splits)
  finally show ?thesis .
qed

lemma allv_copies:
  assumes "\<And>r. r \<in> {0..<n} \<Longrightarrow> grp r = allv_group B w n s q r"
  shows "set (p2p_copies ws n grp) =
    {((b, True, unat (recv_at B w q b a) + ws * k), (a, False, unat (send_at B w s a b) + ws * k))
      | a b k. a \<in> {0..<n} \<and> b \<in> {0..<n} \<and> k < elt_count B w a b}"
proof -
  have one: "set (concat (map (recv_copies ws grp b) (grp b))) =
      {((b, True, unat (recv_at B w q b a) + ws * k), (a, False, unat (send_at B w s a b) + ws * k))
        | a k. a \<in> {0..<n} \<and> k < elt_count B w a b}" if b: "b \<in> {0..<n}" for b
  proof -
    have rc: "set (recv_copies ws grp b (RecvOp (True, recv_at B w q b a) (B a b div w) a)) =
        {((b, True, unat (recv_at B w q b a) + ws * k), (a, False, unat (send_at B w s a b) + ws * k)) | k. k < elt_count B w a b}"
      if "a \<in> {0..<n}" "0 < elt_count B w a b" for a
      using allv_sends_to [OF b that(2), of s q] unfolding assms [OF that(1), symmetric]
      by (auto simp: elt_count_def)
    have "set (concat (map (recv_copies ws grp b) (grp b))) = (\<Union>op\<in>set (allv_group B w n s q b). set (recv_copies ws grp b op))"
      by (simp add: assms [OF b])
    also have "\<dots> = (\<Union>a\<in>{a. a \<in> {0..<n} \<and> 0 < elt_count B w a b}. set (recv_copies ws grp b (RecvOp (True, recv_at B w q b a) (B a b div w) a)))"
      unfolding allv_group_set setcompr_eq_image by (simp add: UN_Un del: recv_copies.simps(1))
    also have "\<dots> = (\<Union>a\<in>{a. a \<in> {0..<n} \<and> 0 < elt_count B w a b}.
        {((b, True, unat (recv_at B w q b a) + ws * k), (a, False, unat (send_at B w s a b) + ws * k)) | k. k < elt_count B w a b})"
      using rc by (intro SUP_cong refl) blast
    finally show ?thesis by auto
  qed
  have "set (p2p_copies ws n grp) = (\<Union>b\<in>{0..<n}. set (concat (map (recv_copies ws grp b) (grp b))))"
    by (simp only: p2p_copies_def set_concat set_map image_image set_upto) (simp add: atLeastLessThanPlusOne_atLeastAtMost_int [symmetric])
  also have "\<dots> = (\<Union>b\<in>{0..<n}. {((b, True, unat (recv_at B w q b a) + ws * k), (a, False, unat (send_at B w s a b) + ws * k))
        | a k. a \<in> {0..<n} \<and> k < elt_count B w a b})" using one by (intro SUP_cong refl)
  finally show ?thesis by auto
qed

lemma segment_end: "0 \<le> a \<Longrightarrow> a < a' \<Longrightarrow> before f 0 a + f a \<le> before f 0 a'"
  using before_mono [of "a + 1" a' f 0] before_next [of 0 a f] by simp

lemma segment_unique:
  assumes "before f 0 a + k = before f 0 a' + k'" "k < f a" "k' < f a'" "0 \<le> a" "0 \<le> a'"
  shows "a = a' \<and> k = k'"
  using segment_end [of a a' f] segment_end [of a' a f] assms by (cases a a' rule: linorder_cases) auto

lemma segment_exists:
  "0 \<le> n \<Longrightarrow> i < before f 0 n \<Longrightarrow> \<exists>a k. 0 \<le> a \<and> a < n \<and> k < f a \<and> i = before f 0 a + k"
proof (induction n rule: int_ge_induct)
  case (step n)
  show ?case
  proof (cases "i < before f 0 n")
    case True
    with step.IH obtain a k where "0 \<le> a" "a < n" "k < f a" "i = before f 0 a + k" by blast
    then show ?thesis by (intro exI [of _ a] exI [of _ k]) simp
  next
    case False
    with step.prems before_next [OF step.hyps, of f] have "i - before f 0 n < f n" "i = before f 0 n + (i - before f 0 n)" by simp_all
    then show ?thesis using step.hyps by (intro exI [of _ n] exI [of _ "i - before f 0 n"]) simp
  qed
qed simp

text \<open>The streams lie in memory without wrap-around.\<close>

definition streams_fit :: "(int \<Rightarrow> int \<Rightarrow> u64) \<Rightarrow> u64 \<Rightarrow> int \<Rightarrow> (int \<Rightarrow> u64) \<Rightarrow> (int \<Rightarrow> u64) \<Rightarrow> bool" where
  "streams_fit B w n s q \<longleftrightarrow>
     (\<forall>r\<in>{0..<n}. unat (s r) + unat w * before (elt_count B w r) 0 n < 2 ^ 64
        \<and> unat (q r) + unat w * before (\<lambda>y. elt_count B w y r) 0 n < 2 ^ 64)"

lemma stream_addr:
  assumes "unat (p :: u64) + unat w * before f 0 n < 2 ^ 64" "a < n"
  shows "unat (p + of_nat (unat (w :: u64) * before f 0 a)) = unat p + unat w * before f 0 a"
proof -
  have "unat w * before f 0 a \<le> unat w * before f 0 n" using before_mono [of a n f 0] assms(2) by simp
  then have lt: "unat p + unat w * before f 0 a < 2 ^ 64" using assms(1) by linarith
  then have "unat (of_nat (unat w * before f 0 a) :: u64) = unat w * before f 0 a" by (intro unat_of_nat_small) simp
  with lt show ?thesis by (intro trans [OF unat_add_small]) simp_all
qed

lemma streams_addr:
  assumes "streams_fit B w n s q" "a \<in> {0..<n}" "b \<in> {0..<n}"
  shows "unat (send_at B w s a b) = unat (s a) + unat w * before (elt_count B w a) 0 b"
    "unat (recv_at B w q b a) = unat (q b) + unat w * before (\<lambda>y. elt_count B w y b) 0 a"
proof -
  have f: "unat (s a) + unat w * before (elt_count B w a) 0 n < 2 ^ 64"
    "unat (q b) + unat w * before (\<lambda>y. elt_count B w y b) 0 n < 2 ^ 64" using assms unfolding streams_fit_def by blast+
  have "a < n" "b < n" using assms(2,3) by simp_all
  then show "unat (send_at B w s a b) = unat (s a) + unat w * before (elt_count B w a) 0 b"
    "unat (recv_at B w q b a) = unat (q b) + unat w * before (\<lambda>y. elt_count B w y b) 0 a"
    unfolding send_at_def recv_at_def using stream_addr [OF f(1)] stream_addr [OF f(2)] by blast+
qed

text \<open>The rounds of the group: there is one.\<close>

lemma allv_rounds: "rounds_of [] (allv_group B w n s q r) = [allv_group B w n s q r]"
proof -
  have "rounds_of cur (ops @ [GroupEnd]) = [cur @ ops @ [GroupEnd]]"
    if "\<And>op. op \<in> set ops \<Longrightarrow> (\<exists>p c x. op = SendOp p c x) \<or> (\<exists>p c x. op = RecvOp p c x)" for cur ops
    using that
  proof (induction ops arbitrary: cur)
    case (Cons op ops)
    have rest: "rounds_of cur' (ops @ [GroupEnd]) = [cur' @ ops @ [GroupEnd]]" for cur'
      using Cons.prems by (intro Cons.IH) simp
    have "(\<exists>p c x. op = SendOp p c x) \<or> (\<exists>p c x. op = RecvOp p c x)" by (rule Cons.prems) simp
    then show ?case using rest by (elim disjE exE) simp_all
  qed simp
  moreover have "(\<exists>p c x. op = SendOp p c x) \<or> (\<exists>p c x. op = RecvOp p c x)"
    if "op \<in> set (allv_ops B w r [0..n - 1] (False, s r) (True, q r))" for op
    using that unfolding allv_ops_all by (auto simp: peer_ops_def split: if_splits)
  ultimately show ?thesis by (simp add: allv_group_def)
qed

lemma allv_no_local: "local_copies w r op = []" if "op \<in> set (allv_group B w n s q r)"
  using that unfolding allv_group_set by auto

lemma compr_cong:
  "(\<And>a b k. P a b k \<Longrightarrow> F a b k = G a b k) \<Longrightarrow> {F a b k | a b k. P a b k} = {G a b k | a b k. P a b k}"
  by (rule Collect_cong) metis

lemma allv_moves:
  assumes prog: "\<forall>r\<in>{0..<n}. prog r = allv_group B w n s q r" and fit: "streams_fit B w n s q" and w: "0 < unat w"
    and b: "b \<in> {0..<n}"
  shows "a \<in> {0..<n} \<Longrightarrow> k < elt_count B w a b \<Longrightarrow>
      run_p2p w n 1 prog mem (b, True, unat (q b) + unat w * (before (\<lambda>y. elt_count B w y b) 0 a + k))
      = mem (a, False, unat (s a) + unat w * (before (elt_count B w a) 0 b + k))"
    and "before (\<lambda>y. elt_count B w y b) 0 n \<le> i \<Longrightarrow>
      run_p2p w n 1 prog mem (b, True, unat (q b) + unat w * i) = mem (b, True, unat (q b) + unat w * i)"
    and "run_p2p w n 1 prog mem (b, False, j) = mem (b, False, j)"
proof -
  let ?ps = "p2p_copies (unat w) n (\<lambda>r. rounds_of [] (prog r) ! 0)"
  have grp: "rounds_of [] (prog r) ! 0 = allv_group B w n s q r" if "r \<in> {0..<n}" for r
    by (simp add: prog [rule_format, OF that] allv_rounds)
  have loc: "concat (map (\<lambda>r. concat (map (local_copies w r) (prog r))) [0..n - 1]) = []"
    using allv_no_local by (auto simp: prog)
  have run: "run_p2p w n 1 prog mem = run_copies ?ps mem" by (simp add: run_p2p_def loc run_copies_def [of "[]"])
  have set: "set ?ps = {((b, True, unat (q b) + unat w * (before (\<lambda>y. elt_count B w y b) 0 a + k)),
        (a, False, unat (s a) + unat w * (before (elt_count B w a) 0 b + k)))
      | a b k. a \<in> {0..<n} \<and> b \<in> {0..<n} \<and> k < elt_count B w a b}"
    by (rule trans [OF allv_copies [where grp = "\<lambda>r. rounds_of [] (prog r) ! 0" and ws = "unat w" and q = q and s = s and n = n and B = B and w = w, OF grp] compr_cong])
      (simp_all add: streams_addr [OF fit] distrib_left)
  have one: "x = y" if xy: "(d, x) \<in> set ?ps" "(d, y) \<in> set ?ps" for d x y
  proof -
    from xy(1) [unfolded set] obtain a b k where d: "d = (b, True, unat (q b) + unat w * (before (\<lambda>y. elt_count B w y b) 0 a + k))"
      "x = (a, False, unat (s a) + unat w * (before (elt_count B w a) 0 b + k))" "a \<in> {0..<n}" "k < elt_count B w a b" by blast
    from xy(2) [unfolded set] obtain a' b' k' where d': "d = (b', True, unat (q b') + unat w * (before (\<lambda>y. elt_count B w y b') 0 a' + k'))"
      "y = (a', False, unat (s a') + unat w * (before (elt_count B w a') 0 b' + k'))" "a' \<in> {0..<n}" "k' < elt_count B w a' b'" by blast
    have b: "b' = b" using d(1) d'(1) by simp
    have "before (\<lambda>y. elt_count B w y b) 0 a + k = before (\<lambda>y. elt_count B w y b) 0 a' + k'" using d(1) d'(1) w by (simp add: b)
    from segment_unique [OF this d(4) d'(4) [unfolded b]] d(3) d'(3) have "a = a' \<and> k = k'" by simp
    with d(2) d'(2) b show ?thesis by simp
  qed
  have src: "(x, x) \<in> set ?ps" if "(d, x) \<in> set ?ps" "x \<in> fst ` set ?ps" for d x
    using that unfolding set by auto
  have app: "((d, x) \<in> set ?ps \<longrightarrow> run_copies ?ps mem d = mem x) \<and> (d \<notin> fst ` set ?ps \<longrightarrow> run_copies ?ps mem d = mem d)" for d x
    by (rule run_copies_apply) (use one src in blast)+
  show "run_p2p w n 1 prog mem (b, True, unat (q b) + unat w * (before (\<lambda>y. elt_count B w y b) 0 a + k))
      = mem (a, False, unat (s a) + unat w * (before (elt_count B w a) 0 b + k))" if "a \<in> {0..<n}" "k < elt_count B w a b"
    unfolding run by (rule app [THEN conjunct1, rule_format]) (unfold set mem_Collect_eq, intro exI conjI, rule refl, (rule that b)+)
  have out: "(b, True, unat (q b) + unat w * i) \<notin> fst ` set ?ps" if "before (\<lambda>y. elt_count B w y b) 0 n \<le> i" for i
  proof
    assume "(b, True, unat (q b) + unat w * i) \<in> fst ` set ?ps"
    then obtain x where x: "x \<in> set ?ps" "(b, True, unat (q b) + unat w * i) = fst x" by (rule imageE)
    from x(1) [unfolded set] obtain a b' k where "x = ((b', True, unat (q b') + unat w * (before (\<lambda>y. elt_count B w y b') 0 a + k)),
        (a, False, unat (s a) + unat w * (before (elt_count B w a) 0 b' + k)))" "a \<in> {0..<n}" "k < elt_count B w a b'" by blast
    note e = this
    from x(2) e(1) have bb: "b' = b" by simp
    from x(2) e(1) w have "i = before (\<lambda>y. elt_count B w y b) 0 a + k" unfolding bb by simp
    with e(2,3) [unfolded bb] segment_end [of a n "\<lambda>y. elt_count B w y b"] that show False by simp
  qed
  show "run_p2p w n 1 prog mem (b, True, unat (q b) + unat w * i) = mem (b, True, unat (q b) + unat w * i)"
    if "before (\<lambda>y. elt_count B w y b) 0 n \<le> i" unfolding run by (rule app [THEN conjunct2, rule_format]) (rule out [OF that])
  show "run_p2p w n 1 prog mem (b, False, j) = mem (b, False, j)"
    unfolding run by (rule app [THEN conjunct2, rule_format]) (auto simp: set)
qed

section \<open>The initial data\<close>

lemma sum_words:
  "sum_list (map (\<lambda>x. g x :: u64) xs) = of_nat (sum_list (map (\<lambda>x. unat (g x)) xs))"
  by (induction xs) simp_all

lemma sum_upto: "(0 :: int) \<le> n \<Longrightarrow> sum_list (map f [0..n - 1]) = before f 0 n"
proof (induction n rule: int_ge_induct)
  case (step n)
  have "[0..n + 1 - 1] = [0..n - 1] @ [n]" using step.hyps by (simp add: upto_rec2)
  then show ?case using step.IH before_next [OF step.hyps, of f] by simp
qed (simp add: before_def)

text \<open>The value a rank \<open>r\<close> expects at the \<open>k\<close>-th element of the segment of \<open>a\<close>.\<close>

definition segment_data :: "allv \<Rightarrow> elt_type \<Rightarrow> int \<Rightarrow> u64 \<Rightarrow> int \<Rightarrow> int \<Rightarrow> int \<Rightarrow> nat \<Rightarrow> u64" where
  "segment_data st ty n tot rep r a k =
     elt_data ty (block_seed rep a) (of_nat (before (elt_count (peer_bytes st n tot) (wordSize ty) a) 0 r + k))"

lemma expect_segments_all:
  fixes st ty n tot
  defines "B \<equiv> peer_bytes st n tot" and "w \<equiv> wordSize ty"
  assumes r: "0 \<le> r" and fit: "unat w * before (\<lambda>y. elt_count B w y r) 0 n < 2 ^ 64"
  shows "0 \<le> p \<Longrightarrow> p \<le> n \<Longrightarrow> \<exists>e. expect_segments st ty n tot rep r [p..n - 1] (of_nat (before (\<lambda>y. elt_count B w y r) 0 p) * w) buf = Some e
    \<and> (\<forall>a k. p \<le> a \<and> a < n \<and> k < elt_count B w a r \<longrightarrow>
         e (int (before (\<lambda>y. elt_count B w y r) 0 a + k)) = segment_data st ty n tot rep r a k)
    \<and> (\<forall>i. i < int (before (\<lambda>y. elt_count B w y r) 0 p) \<or> int (before (\<lambda>y. elt_count B w y r) 0 n) \<le> i \<longrightarrow> e i = buf i)"
proof (induction "nat (n - p)" arbitrary: p buf)
  case 0
  then have "n = p" by simp
  then show ?case by auto
next
  case (Suc m)
  let ?f = "\<lambda>y. elt_count B w y r"
  have p: "p < n" "m = nat (n - (p + 1))" "0 \<le> p + 1" "p + 1 \<le> n" using Suc by linarith+
  have up: "[p..n - 1] = p # [p + 1..n - 1]" using p(1) by (simp add: upto_rec1)
  have nx: "before ?f 0 (p + 1) = before ?f 0 p + ?f p" using before_next Suc.prems(1) by blast
  have off: "of_nat (before ?f 0 p) * w + B p r div w * w = of_nat (before ?f 0 (p + 1)) * w"
    unfolding nx by (simp add: elt_count_def distrib_right)
  show ?case
  proof (cases "B p r div w = 0")
    case True
    then have z: "?f p = 0" by (simp add: elt_count_def)
    have same: "before ?f 0 (p + 1) = before ?f 0 p" using nx z by simp
    obtain e where e: "expect_segments st ty n tot rep r [p + 1..n - 1] (of_nat (before ?f 0 p) * w) buf = Some e"
      "\<forall>a k. p + 1 \<le> a \<and> a < n \<and> k < ?f a \<longrightarrow> e (int (before ?f 0 a + k)) = segment_data st ty n tot rep r a k"
      "\<forall>i. i < int (before ?f 0 p) \<or> int (before ?f 0 n) \<le> i \<longrightarrow> e i = buf i"
      using Suc.hyps(1) [OF p(2-4), of buf] unfolding same by blast
    have "e (int (before ?f 0 a + k)) = segment_data st ty n tot rep r a k" if "p \<le> a" "a < n" "k < ?f a" for a k
    proof (cases "a = p")
      case True
      then show ?thesis using z that(3) by simp
    next
      case False
      then show ?thesis using e(2) that by simp
    qed
    then show ?thesis using e(1,3) True unfolding up B_def w_def by (intro exI [of _ e]) simp
  next
    case False
    let ?b = "write_at (int (before ?f 0 p)) (int (?f p)) (\<lambda>i. elt_data ty (block_seed rep p)
        (sum_list (map (\<lambda>k. B p k div w) [0..r - 1]) + u64_of_int i)) buf"
    have "before ?f 0 p \<le> before ?f 0 n" using Suc.prems by (intro before_mono)
    then have "unat w * before ?f 0 p \<le> unat w * before ?f 0 n" by simp
    then have lt: "before ?f 0 p * unat w < 2 ^ 64" using fit by (simp only: mult.commute)
    then have "unat (of_nat (before ?f 0 p) * w) = before ?f 0 p * unat w"
      using unat_of_nat_small [of "before ?f 0 p * unat w", where 'a = 64] by simp
    then have pos: "elts ty (of_nat (before ?f 0 p) * w) = int (before ?f 0 p)"
      unfolding elts_def w_def by (simp add: uint_nat unat_div del: of_nat_unat)
    have init: "InitData ty NcclSum (B p r div w) (sum_list (map (\<lambda>k. B p k div w) [0..r - 1])) (u64_of_int (block_seed rep p)) 1 0
        (elts ty (of_nat (before ?f 0 p) * w)) buf = Some ?b"
      unfolding InitData_copy pos by (simp add: elt_count_def uint_nat del: of_nat_unat)
    obtain e where e: "expect_segments st ty n tot rep r [p + 1..n - 1] (of_nat (before ?f 0 (p + 1)) * w) ?b = Some e"
      "\<forall>a k. p + 1 \<le> a \<and> a < n \<and> k < ?f a \<longrightarrow> e (int (before ?f 0 a + k)) = segment_data st ty n tot rep r a k"
      "\<forall>i. i < int (before ?f 0 (p + 1)) \<or> int (before ?f 0 n) \<le> i \<longrightarrow> e i = ?b i"
      using Suc.hyps(1) [OF p(2-4), of ?b] by blast
    have le: "before ?f 0 (p + 1) \<le> before ?f 0 n" using p(4) by (rule before_mono)
    have src: "sum_list (map (\<lambda>k. B p k div w) [0..r - 1]) = of_nat (before (elt_count B w p) 0 r)"
      unfolding sum_words sum_upto [OF r] by (simp add: elt_count_def [abs_def])
    have new: "e (int (before ?f 0 p + k)) = segment_data st ty n tot rep r p k" if "k < ?f p" for k
    proof -
      have "e (int (before ?f 0 p + k)) = ?b (int (before ?f 0 p + k))" using e(3) that nx by auto
      also have "\<dots> = segment_data st ty n tot rep r p k" using that src by (simp add: write_at_def segment_data_def B_def w_def)
      finally show ?thesis .
    qed
    have "e (int (before ?f 0 a + k)) = segment_data st ty n tot rep r a k" if "p \<le> a" "a < n" "k < ?f a" for a k
      using new e(2) that by (cases "a = p") simp_all
    moreover have "e i = buf i" if "i < int (before ?f 0 p) \<or> int (before ?f 0 n) \<le> i" for i
    proof -
      have "e i = ?b i" using e(3) that nx by auto
      then show ?thesis using that le nx by (auto simp: write_at_def)
    qed
    moreover have "expect_segments st ty n tot rep r [p..n - 1] (of_nat (before ?f 0 p) * w) buf = Some e"
      using e(1) init False unfolding up expect_segments.simps Let_def B_def [symmetric] w_def [symmetric] off by simp
    ultimately show ?thesis by blast
  qed
qed

text \<open>The arguments of a run, and the loop of the data over a rank.\<close>

definition allv_args :: "allv \<Rightarrow> u64 \<Rightarrow> elt_type \<Rightarrow> threadArgs \<Rightarrow> threadArgs" where
  "allv_args st bytes ty args = setupArgs (\<lambda>cnt e m. AlltoAllvGetCollByteCount st cnt e (nranks_of args)) bytes ty args"

definition run_bytes :: "allv \<Rightarrow> threadArgs \<Rightarrow> int \<Rightarrow> int \<Rightarrow> u64" where
  "run_bytes st args = peer_bytes st (nranks_of args) (if use_generated_pattern st then nbytes args * u64_of_int (nranks_of args) else 0)"

lemma allv_init:
  fixes st args ty
  defines "n \<equiv> nranks_of args" and "B \<equiv> run_bytes st args" and "w \<equiv> wordSize ty"
  assumes r: "0 \<le> r" "r < n" and fit: "unat w * before (\<lambda>y. elt_count B w y r) 0 n < 2 ^ 64" "before (elt_count B w r) 0 n < 2 ^ 64"
  shows "\<exists>b'. AlltoAllvInitData st args ty rep False r b = Some b'
    \<and> (\<forall>k<before (elt_count B w r) 0 n. sendbuff b' (int k) = elt_data ty (block_seed rep r) (of_nat k))
    \<and> (\<forall>a k. 0 \<le> a \<and> a < n \<and> k < elt_count B w a r \<longrightarrow>
         expected b' (int (before (\<lambda>y. elt_count B w y r) 0 a + k)) = elt_data ty (block_seed rep a) (of_nat (before (elt_count B w a) 0 r + k)))
    \<and> (\<forall>i. before (\<lambda>y. elt_count B w y r) 0 n \<le> i \<and> i < nat (elts ty (expectedBytes args)) \<longrightarrow> expected b' (int i) = 0)
    \<and> (\<forall>i<nat (elts ty (expectedBytes args)). recvbuff b' (int i) = 0)"
proof -
  define tot where "tot = (if use_generated_pattern st then nbytes args * u64_of_int n else 0)"
  have B: "B = peer_bytes st n tot" by (simp add: B_def run_bytes_def tot_def n_def)
  let ?b = "(clear_recv args ty b)\<lparr>expected := memset_elts (elts ty (expectedBytes args)) (expected (clear_recv args ty b))\<rparr>"
  have ss: "send_stream st ty n tot r = of_nat (before (elt_count B w r) 0 n)"
    using r unfolding send_stream_def B w_def by (subst sum_words, subst sum_upto) (simp_all add: elt_count_def [abs_def])
  then have us: "unat (send_stream st ty n tot r) = before (elt_count B w r) 0 n" using fit(2) by (simp add: unat_of_nat_small)
  obtain b1 where b1: "(if send_stream st ty n tot r > 0 then init_own False (InitData ty NcclSum (send_stream st ty n tot r) 0
        (u64_of_int (block_seed rep r)) 1 0 0) ?b else Some ?b) = Some b1"
    "\<forall>k<before (elt_count B w r) 0 n. sendbuff b1 (int k) = elt_data ty (block_seed rep r) (of_nat k)"
    "recvbuff b1 = recvbuff ?b" "expected b1 = expected ?b"
  proof (cases "send_stream st ty n tot r > 0")
    case True
    show ?thesis
    proof (rule that)
      show "(if send_stream st ty n tot r > 0 then init_own False (InitData ty NcclSum (send_stream st ty n tot r) 0
          (u64_of_int (block_seed rep r)) 1 0 0) ?b else Some ?b)
        = Some (?b\<lparr>sendbuff := write_at 0 (int (before (elt_count B w r) 0 n)) (\<lambda>i. elt_data ty (block_seed rep r) (0 + u64_of_int i)) (sendbuff ?b)\<rparr>)"
        using True us by (simp add: init_own_def InitData_copy uint_nat del: of_nat_unat)
    qed (simp_all add: write_at_def)
  next
    case False
    then have "before (elt_count B w r) 0 n = 0" using us by (simp add: word_gt_0)
    with False show ?thesis by (intro that [of ?b]) simp_all
  qed
  obtain e where e: "expect_segments st ty n tot rep r [0..n - 1] 0 (expected b1) = Some e"
    "\<forall>a k. 0 \<le> a \<and> a < n \<and> k < elt_count B w a r \<longrightarrow>
         e (int (before (\<lambda>y. elt_count B w y r) 0 a + k)) = segment_data st ty n tot rep r a k"
    "\<forall>i. i < 0 \<or> int (before (\<lambda>y. elt_count B w y r) 0 n) \<le> i \<longrightarrow> e i = expected b1 i"
    using expect_segments_all [where p = 0 and st = st and ty = ty and n = n and tot = tot and rep = rep and buf = "expected b1", OF r(1) fit(1) [unfolded B w_def]] r
    unfolding B [symmetric] w_def [symmetric] by (auto simp: before_self)
  have result: "AlltoAllvInitData st args ty rep False r b = Some (b1\<lparr>expected := e\<rparr>)"
    unfolding AlltoAllvInitData_def Let_def n_def [symmetric] tot_def [symmetric] b1(1) by (simp add: init_expected_def e(1))
  have "e (int i) = 0" if "before (\<lambda>y. elt_count B w y r) 0 n \<le> i" "i < nat (elts ty (expectedBytes args))" for i
  proof -
    have "int i < elts ty (expectedBytes args)" using that(2) by linarith
    moreover have "e (int i) = expected b1 (int i)" using e(3) that(1) by simp
    ultimately show ?thesis using b1(4) by (simp add: memset_elts_def write_at_def)
  qed
  moreover have "recvbuff b1 (int i) = 0" if "i < nat (elts ty (expectedBytes args))" for i
  proof -
    have "int i < elts ty (expectedBytes args)" using that by linarith
    then show ?thesis using b1(3) by (simp add: clear_recv_def memset_elts_def write_at_def)
  qed
  ultimately show ?thesis
    using result b1(2) e(2) by (intro exI [of _ "b1\<lparr>expected := e\<rparr>"]) (simp add: segment_data_def B w_def)
qed

section \<open>A run passes its check\<close>

text \<open>The program of rank \<open>r\<close>: what \<open>AlltoAllvRunColl\<close> enqueues for its call.\<close>

definition allv_prog :: "allv \<Rightarrow> threadArgs \<Rightarrow> elt_type \<Rightarrow> (int \<Rightarrow> coll_call) \<Rightarrow> int \<Rightarrow> nccl_op list" where
  "allv_prog st args ty call r =
     fst (AlltoAllvRunColl st \<lparr>env_version = 22800, env_nctx = 0, env_nranks = nranks_of args, env_rank = r\<rparr> (call r) ty)"

lemma allv_args_simps [simp]:
  "nranks_of (allv_args st b ty args) = nranks_of args" "wf_args (allv_args st b ty args) = wf_args args"
  by (simp_all add: allv_args_def)

lemma allv_nbytes: "nbytes (allv_args st b ty args) div wordSize ty * wordSize ty = nbytes (allv_args st b ty args)"
proof -
  define p where "p = (if use_generated_pattern st then base_count (b div wordSize ty) (wordSize ty) (u64_of_int (nranks_of args)) else 0)"
  have p: "nbytes (allv_args st b ty args) = p * wordSize ty"
    by (simp add: allv_args_def setupArgs_def AlltoAllvGetCollByteCount_def p_def Let_def)
  have "unat p \<le> unat (b div wordSize ty)"
    using order_trans [OF base_count_le [OF wordSize_width] div_le_dividend] by (simp add: p_def)
  from unat_times_word(1) [OF this] have u: "unat (p * wordSize ty) = unat p * unat (wordSize ty)" .
  have "p * wordSize ty div wordSize ty = p" by (simp add: word_unat_eq_iff unat_div u)
  then show ?thesis unfolding p by simp
qed

lemma allv_report_view [simp]:
  "recv_view (allv_report ip a) = recv_view a" "expectedBytes (allv_report ip a) = expectedBytes a"
  "nGpus (allv_report ip a) = nGpus a" "rank_of (allv_report ip a) = rank_of a"
  by (auto simp: allv_report_def recv_view_def fun_eq_iff rank_of_def)

lemma allv_prog_group:
  assumes "a = allv_args st bytes ty args"
    and "call_impl (call r) = 0" "\<not> call_in_recv (call r)" "call_count (call r) = nbytes a div wordSize ty"
  shows "allv_prog st a ty call r = allv_group (run_bytes st a) (wordSize ty) (nranks_of a) (\<lambda>r. snd (send_ptr (call r))) (\<lambda>r. snd (recv_ptr (call r))) r"
proof -
  have "call_count (call r) * u64_of_int (nranks_of a) * wordSize ty = call_count (call r) * wordSize ty * u64_of_int (nranks_of a)"
    by (simp only: ac_simps)
  also have "\<dots> = nbytes a * u64_of_int (nranks_of a)" unfolding assms(4) assms(1) allv_nbytes by simp
  finally have "peer_bytes st (nranks_of a) (call_count (call r) * u64_of_int (nranks_of a) * wordSize ty) = run_bytes st a"
    by (simp add: run_bytes_def peer_bytes_def fun_eq_iff)
  then show ?thesis using assms(2,3)
    by (simp only: allv_prog_def AlltoAllvRunColl_def allv_group_def Let_def send_ptr_def recv_ptr_def coll_env.simps) simp
qed

text \<open>Before the run: the pattern of the data in the send stream, zeros in the receive buffer. After it: the expected data.\<close>

lemma allv_received:
  fixes st args ty
  defines "n \<equiv> nranks_of args" and "B \<equiv> run_bytes st args" and "w \<equiv> wordSize ty"
  assumes r: "r \<in> {0..<n}" and fit: "streams_fit B w n s q"
    and prog: "\<forall>r\<in>{0..<n}. prog r = allv_group B w n s q r"
    and init: "\<And>r. r \<in> {0..<n} \<Longrightarrow> AlltoAllvInitData st args ty rep False r (b r) = Some (m r)"
    and sent: "\<And>r k. r \<in> {0..<n} \<Longrightarrow> mem (r, False, unat (s r) + unat w * k) = sendbuff (m r) (int k)"
    and old: "\<And>r k. r \<in> {0..<n} \<Longrightarrow> k < nat (elts ty (expectedBytes args)) \<Longrightarrow> mem (r, True, unat (q r) + unat w * k) = recvbuff (m r) (int k)"
    and i: "i < nat (elts ty (expectedBytes args))"
  shows "run_p2p w n 1 prog mem (r, True, unat (q r) + unat w * i) = expected (m r) (int i)"
proof -
  have w: "0 < unat w" by (simp add: w_def)
  have le: "before f 0 n \<le> unat w * before f 0 n" for f using w by simp
  have data: "\<forall>k<before (elt_count B w r) 0 n. sendbuff (m r) (int k) = elt_data ty (block_seed rep r) (of_nat k)"
    "\<forall>a k. 0 \<le> a \<and> a < n \<and> k < elt_count B w a r \<longrightarrow>
         expected (m r) (int (before (\<lambda>y. elt_count B w y r) 0 a + k)) = elt_data ty (block_seed rep a) (of_nat (before (elt_count B w a) 0 r + k))"
    "\<forall>i. before (\<lambda>y. elt_count B w y r) 0 n \<le> i \<and> i < nat (elts ty (expectedBytes args)) \<longrightarrow> expected (m r) (int i) = 0"
    "\<forall>i<nat (elts ty (expectedBytes args)). recvbuff (m r) (int i) = 0" if r: "r \<in> {0..<n}" for r
  proof -
    have f: "unat (s r) + unat w * before (elt_count B w r) 0 n < 2 ^ 64"
      "unat (q r) + unat w * before (\<lambda>y. elt_count B w y r) 0 n < 2 ^ 64" using fit r unfolding streams_fit_def by blast+
    have "unat w * before (\<lambda>y. elt_count B w y r) 0 n < 2 ^ 64" "before (elt_count B w r) 0 n < 2 ^ 64"
      using f le [of "elt_count B w r"] by linarith+
    from allv_init [OF _ _ this [unfolded B_def w_def n_def], where rep = rep and b = "b r"] init [OF r] r
    show "\<forall>k<before (elt_count B w r) 0 n. sendbuff (m r) (int k) = elt_data ty (block_seed rep r) (of_nat k)"
      "\<forall>a k. 0 \<le> a \<and> a < n \<and> k < elt_count B w a r \<longrightarrow>
         expected (m r) (int (before (\<lambda>y. elt_count B w y r) 0 a + k)) = elt_data ty (block_seed rep a) (of_nat (before (elt_count B w a) 0 r + k))"
      "\<forall>i. before (\<lambda>y. elt_count B w y r) 0 n \<le> i \<and> i < nat (elts ty (expectedBytes args)) \<longrightarrow> expected (m r) (int i) = 0"
      "\<forall>i<nat (elts ty (expectedBytes args)). recvbuff (m r) (int i) = 0"
      unfolding B_def w_def n_def by (metis atLeastLessThan_iff option.inject)+
  qed
  note moves = allv_moves [OF prog fit w r, where mem = mem]
  show ?thesis
  proof (cases "i < before (\<lambda>y. elt_count B w y r) 0 n")
    case True
    with segment_exists [of n i] r obtain a k where ak: "0 \<le> a" "a < n" "k < elt_count B w a r" "i = before (\<lambda>y. elt_count B w y r) 0 a + k"
      by (metis atLeastLessThan_iff order.strict_implies_order order.trans)
    have a: "a \<in> {0..<n}" using ak by simp
    have "before (elt_count B w a) 0 r + k < before (elt_count B w a) 0 n"
      using segment_end [of r n "elt_count B w a"] r ak(3) by simp
    then have "sendbuff (m a) (int (before (elt_count B w a) 0 r + k)) = elt_data ty (block_seed rep a) (of_nat (before (elt_count B w a) 0 r + k))"
      using data(1) [OF a] by blast
    then show ?thesis using moves(1) [OF a ak(3)] data(2) [OF r] ak sent [OF a] by simp
  next
    case False
    then show ?thesis using moves(2) [of i] old [OF r i] data(3,4) [OF r] i by simp
  qed
qed

end
