(* ===== verification/HostReport.thy ===== *)
theory HostReport
  imports HostJson HostProfiler HostAllv "HOL-Library.Multiset"
begin

text \<open>
  The JSON report of src/util.cu: what every function that reports writes, as calls of the writer of \<open>HostJson\<close>, the
  statistics of the times of single iterations, and the document a complete run writes.
\<close>

section \<open>Statistics\<close>

record IterStats =
  st_min :: real
  st_max :: real
  st_avg :: real
  st_p50 :: real
  st_p95 :: real
  st_p99 :: real
  st_stdev :: real

definition percentileIndex :: "int \<Rightarrow> int \<Rightarrow> int" where
  "percentileIndex n percentile = min (n - 1) ((n * percentile + 99) sdiv 100 - 1)"

text \<open>\<open>qsort\<close> with \<open>cmpDouble\<close>, the order of the numbers. The index is an \<open>int\<close>, without overflow below 20 million times.\<close>

definition computeIterStats :: "real list \<Rightarrow> IterStats" where
  "computeIterStats ts =
     (let sorted = sort ts; n = int (length ts);
          avg = sum_list sorted / real_of_int n;
          var = sum_list (map (\<lambda>x. (x - avg) * (x - avg)) sorted)
      in \<lparr>st_min = sorted ! 0, st_max = sorted ! nat (n - 1), st_avg = avg, st_p50 = sorted ! nat (n sdiv 2),
          st_p95 = sorted ! nat (percentileIndex n 95), st_p99 = sorted ! nat (percentileIndex n 99), st_stdev = sqrt (var / real_of_int n)\<rparr>)"

text \<open>The time of an iteration is the largest of the GPUs of the thread, in seconds; \<open>ms\<close> is in milliseconds.\<close>

definition iter_time :: "int \<Rightarrow> int \<Rightarrow> (int \<Rightarrow> real) \<Rightarrow> int \<Rightarrow> real" where
  "iter_time ngpus iters ms iter =
     foldl (\<lambda>maxSec i. let sec = ms (i * iters + iter) * (1 / 1000) in if sec > maxSec then sec else maxSec) 0 [0..ngpus - 1]"

definition iter_times :: "int \<Rightarrow> int \<Rightarrow> (int \<Rightarrow> real) \<Rightarrow> real list" where
  "iter_times ngpus iters ms = map (iter_time ngpus iters ms) [0..iters - 1]"

section \<open>What the functions write\<close>

text \<open>Command line, environment, and the version of NCCL.\<close>

definition jsonOutputInit :: "string \<Rightarrow> string list \<Rightarrow> string list \<Rightarrow> int \<Rightarrow> json_call list" where
  "jsonOutputInit now argv envp version =
     [WStartObject, WKey ''version'', WInt 4, WKey ''start_time'', WStr (Some now), WKey ''args'', WStartList]
     @ map (\<lambda>a. WStr (Some a)) argv
     @ [WFinishList, WKey ''env'', WStartList]
     @ map (\<lambda>e. WStr (Some e)) envp
     @ [WFinishList, WKey ''nccl_version'', WInt version]"

record rankInfo_t =
  ri_rank :: int
  ri_group :: int
  ri_pid :: int
  ri_hostname :: string
  ri_device :: int
  ri_device_hex :: string
  ri_devinfo :: string

definition jsonRankInfo :: "rankInfo_t \<Rightarrow> json_call list" where
  "jsonRankInfo ri =
     [WStartObject,
      WKey ''rank'', WInt (ri_rank ri),
      WKey ''group'', WInt (ri_group ri),
      WKey ''pid'', WInt (ri_pid ri),
      WKey ''hostname'', WStr (Some (ri_hostname ri)),
      WKey ''device'', WInt (ri_device ri),
      WKey ''device_hex'', WStr (Some (ri_device_hex ri)),
      WKey ''device_info'', WStr (Some (ri_devinfo ri)),
      WFinishObject]"

text \<open>\<open>printf\<close> with a width.\<close>

definition pad_left :: "nat \<Rightarrow> string \<Rightarrow> string" where
  "pad_left n s = replicate (n - length s) (CHR '' '') @ s"

definition writeBenchmarkLinePreamble :: "u64 \<Rightarrow> u64 \<Rightarrow> string \<Rightarrow> string \<Rightarrow> int \<Rightarrow> json_call list" where
  "writeBenchmarkLinePreamble nBytes nElem typeName opName rt =
     [WStartObject,
      WKey ''size'', WSize nBytes,
      WKey ''count'', WSize nElem,
      WKey ''type'', WStr (Some typeName),
      WKey ''redop'', WStr (Some opName),
      WKey ''root'', WStr (Some (pad_left 6 (dec_int rt)))]"

definition writeBenchmarkLineBody :: "c_double \<Rightarrow> c_double \<Rightarrow> c_double \<Rightarrow> bool \<Rightarrow> int \<Rightarrow> bool \<Rightarrow> bool \<Rightarrow> json_call list" where
  "writeBenchmarkLineBody timeUsec algBw busBw checked wrongElts report_cputime out_of_place =
     [WKey (if out_of_place then ''out_of_place'' else ''in_place''),
      WStartObject,
      WKey (if report_cputime then ''cpu_time'' else ''time''), WDouble timeUsec,
      WKey ''alg_bw'', WDouble algBw,
      WKey ''bus_bw'', WDouble busBw,
      WKey ''nwrong'', (if checked then WDouble (Finite (real_of_int wrongElts)) else WNull),
      WFinishObject]"

definition json_times :: "real list \<Rightarrow> json_call list" where
  "json_times ts = [WStartList] @ map (\<lambda>t. WDouble (Finite (t * 10 ^ 6))) ts @ [WFinishList]"

text \<open>The rows of the processes are given when there is more than one.\<close>

definition writePerIterReport :: "IterStats \<Rightarrow> real list \<Rightarrow> int \<Rightarrow> bool \<Rightarrow> real list list \<Rightarrow> json_call list" where
  "writePerIterReport stats ts skipped out_of_place rows =
     (let us = (\<lambda>x. WDouble (Finite (x * 10 ^ 6)));
          cvPct = (if st_avg stats > 0 then st_stdev stats / st_avg stats * 100 else 0)
      in [WKey (if out_of_place then ''out_of_place_per_iter'' else ''in_place_per_iter''),
          WStartObject,
          WKey ''skipped_iterations'', WInt skipped,
          WKey ''min_us'', us (st_min stats),
          WKey ''max_us'', us (st_max stats),
          WKey ''avg_us'', us (st_avg stats),
          WKey ''p50_us'', us (st_p50 stats),
          WKey ''p95_us'', us (st_p95 stats),
          WKey ''p99_us'', us (st_p99 stats),
          WKey ''stdev_us'', us (st_stdev stats),
          WKey ''cv_pct'', WDouble (Finite cvPct),
          WKey ''times_us''] @ json_times ts
         @ (if length rows > 1 then [WKey ''per_process_max_times_us'', WStartList] @ concat (map json_times rows) @ [WFinishList] else [])
         @ [WFinishObject])"

text \<open>The line is finished with how NCCL ran the collective, when that was asked for.\<close>

definition int_or_na :: "int option \<Rightarrow> json_call" where
  "int_or_na n = (case n of None \<Rightarrow> WStr (Some ''N/A'') | Some n \<Rightarrow> WInt n)"

definition tuning_calls :: "tuning_info \<Rightarrow> json_call list" where
  "tuning_calls info =
     [WKey ''tuning'', WStartObject,
      WKey ''implementation'', WStr (Some (tun_implementation info)),
      WKey ''algo'', WStr (Some (tun_algo info)),
      WKey ''proto'', WStr (Some (tun_proto info)),
      WKey ''kernelVariant'', WStr (Some (tun_kernelVariant info)),
      WKey ''syncStrategy'', WStr (Some (tun_syncStrategy info)),
      WKey ''#channels'', int_or_na (if tun_nChannels info \<ge> 0 then Some (tun_nChannels info) else None),
      WKey ''#warps'', int_or_na (if tun_nWarps info \<ge> 0 then Some (tun_nWarps info) else None),
      WKey ''netChunkSize'', int_or_na (tun_chunkSize info),
      WFinishObject]"

definition writeBenchmarkLineTerminator :: "bool \<Rightarrow> tuning_info \<Rightarrow> int \<Rightarrow> string \<Rightarrow> json_call list" where
  "writeBenchmarkLineTerminator tuning info actualIters name =
     (if tuning then tuning_calls info else [])
     @ [WKey ''actual_iterations'', WInt actualIters,
        WKey ''experiment_name'', WStr (Some name),
        WFinishObject]"

text \<open>The configuration, and one device for the text of every process.\<close>

definition config_calls :: "options \<Rightarrow> json_call list" where
  "config_calls o' =
     [WKey ''config'', WStartObject,
      WKey ''nthreads'', WInt (opt_nThreads o'),
      WKey ''ngpus'', WInt (opt_nGpus o'),
      WKey ''minimum_bytes'', WSize (opt_minBytes o'),
      WKey ''maximum_bytes'', WSize (opt_maxBytes o')]
     @ (if opt_stepFactor o' > 1 then [WKey ''step_factor'', WSize (opt_stepFactor o')] else [WKey ''step_bytes'', WSize (opt_stepBytes o')])
     @ [WKey ''warmup_iters'', WInt (opt_warmup_iters o'),
        WKey ''iterations'', WInt (opt_iters o'),
        WKey ''aggregated_iterations'', WInt (opt_agg_iters o'),
        WKey ''validation'', WInt (opt_datacheck o'),
        WKey ''graph'', WInt (opt_cudaGraphLaunches o'),
        WKey ''blocking_collectives'', WBool (opt_blocking_coll o' \<noteq> 0),
        WKey ''per_iter_timing'', WBool (opt_per_iter_timing o' \<noteq> 0),
        WKey ''per_iter_skip'', WInt (opt_per_iter_skip o'),
        WKey ''parallel_init'', WBool (opt_parallel_init o' \<noteq> 0)]"

definition devices_calls :: "rankInfo_t list \<Rightarrow> json_call list" where
  "devices_calls ranks = [WKey ''devices'', WStartList] @ concat (map jsonRankInfo ranks) @ [WFinishList]"

definition writeDeviceReport :: "options \<Rightarrow> rankInfo_t list \<Rightarrow> json_call list" where
  "writeDeviceReport o' ranks = config_calls o' @ devices_calls ranks @ [WFinishObject]"

definition writeResultHeader :: "json_call list" where
  "writeResultHeader = [WKey ''results'', WStartList]"

text \<open>A minimum of the bandwidth of -1 is no minimum.\<close>

definition writeResultFooter :: "int \<Rightarrow> c_double \<Rightarrow> real \<Rightarrow> json_call list" where
  "writeResultFooter errs bw check_avg_bw =
     [WFinishList,
      WKey ''out_of_bounds'', WStartObject,
      WKey ''count'', WInt errs,
      WKey ''okay'', WBool (errs = 0),
      WFinishObject,
      WKey ''average_bus_bandwidth'', WStartObject,
      WKey ''bandwidth'', WDouble bw,
      WKey ''okay'',
      (if check_avg_bw = - 1 then WStr (Some ''unchecked'')
       else WBool (case bw of Finite x \<Rightarrow> x \<ge> check_avg_bw * 9 / 10 | Infinite neg \<Rightarrow> \<not> neg | Nan \<Rightarrow> False)),
      WFinishObject]"

definition writeErrors :: "string option \<Rightarrow> json_call list" where
  "writeErrors error =
     [WKey ''errors'', WStartList] @ (case error of None \<Rightarrow> [] | Some e \<Rightarrow> [WStr (Some e)]) @ [WFinishList]"

section \<open>The texts that are fixed\<close>

definition json_literals :: "string list" where
  "json_literals = [''version'', ''start_time'', ''args'', ''env'', ''nccl_version'', ''rank'', ''group'', ''pid'', ''hostname'', ''device'', ''device_hex'',
     ''device_info'', ''size'', ''count'', ''type'', ''redop'', ''root'', ''alg_bw'', ''bus_bw'', ''nwrong'', ''skipped_iterations'',
     ''min_us'', ''max_us'', ''avg_us'', ''p50_us'', ''p95_us'', ''p99_us'', ''stdev_us'', ''cv_pct'', ''times_us'',
     ''per_process_max_times_us'', ''tuning'', ''implementation'', ''algo'', ''proto'', ''kernelVariant'', ''syncStrategy'', ''#channels'',
     ''#warps'', ''netChunkSize'', ''actual_iterations'', ''experiment_name'', ''config'', ''nthreads'', ''ngpus'', ''minimum_bytes'',
     ''maximum_bytes'', ''step_factor'', ''step_bytes'', ''warmup_iters'', ''iterations'', ''aggregated_iterations'', ''validation'',
     ''graph'', ''blocking_collectives'', ''per_iter_timing'', ''per_iter_skip'', ''parallel_init'', ''devices'', ''results'',
     ''out_of_bounds'', ''okay'', ''average_bus_bandwidth'', ''bandwidth'', ''errors'', ''out_of_place'', ''in_place'', ''cpu_time'',
     ''time'', ''out_of_place_per_iter'', ''in_place_per_iter'', ''N/A'', ''true'', ''false'', ''unchecked'', ''end_time'']"

lemma literals_ok: "list_all (\<lambda>k. printable_string k \<and> length k < 1024) json_literals"
  by (simp add: json_literals_def printable_string_def unprintable_def char_value_def)

lemma literals_kept: "list_all (\<lambda>k. kept k = k \<and> \<not> overflows 2048 k) json_literals"
  using literals_ok by (auto simp: list_all_iff kept_all short_string)

lemmas literal_simps = literals_kept [unfolded json_literals_def, simplified]

section \<open>The statistics\<close>

lemma filter_sort_length: "length (filter P (sort ts)) = length (filter P ts)"
  by (metis mset_filter mset_sort size_mset)

lemma rank_bounds:
  assumes "sorted xs" "i < length xs"
  shows "i < length (filter (\<lambda>x. x \<le> xs ! i) xs)" "length (filter (\<lambda>x. x < xs ! i) xs) \<le> i"
proof -
  have "length (filter (\<lambda>x. x \<le> xs ! i) (take (Suc i) xs)) = length (take (Suc i) xs)"
    using assms by (intro arg_cong [where f = length] filter_True) (auto simp: in_set_conv_nth sorted_nth_mono)
  moreover have "length (filter (\<lambda>x. x \<le> xs ! i) xs) = length (filter (\<lambda>x. x \<le> xs ! i) (take (Suc i) xs))
      + length (filter (\<lambda>x. x \<le> xs ! i) (drop (Suc i) xs))"
    by (metis append_take_drop_id filter_append length_append)
  ultimately show "i < length (filter (\<lambda>x. x \<le> xs ! i) xs)" using assms(2) by simp
  have "filter (\<lambda>x. x < xs ! i) (drop i xs) = []"
    using assms by (auto simp: filter_empty_conv in_set_conv_nth not_less) (intro sorted_nth_mono; simp)
  moreover have "filter (\<lambda>x. x < xs ! i) xs = filter (\<lambda>x. x < xs ! i) (take i xs) @ filter (\<lambda>x. x < xs ! i) (drop i xs)"
    by (metis append_take_drop_id filter_append)
  ultimately show "length (filter (\<lambda>x. x < xs ! i) xs) \<le> i"
    using length_filter_le [of "\<lambda>x. x < xs ! i" "take i xs"] by simp
qed

lemma percentileIndex:
  assumes "0 < n" "0 \<le> p" "p \<le> 100"
  shows "percentileIndex n p = (n * p + 99) div 100 - 1" "percentileIndex n p < n" "p \<noteq> 0 \<Longrightarrow> 0 \<le> percentileIndex n p"
    and "n * p \<le> 100 * (percentileIndex n p + 1)" "p \<noteq> 0 \<Longrightarrow> 100 * percentileIndex n p < n * p"
proof -
  have le: "(n * p + 99) div 100 \<le> n"
  proof -
    have "n * p \<le> n * 100" using assms by (intro mult_left_mono) simp_all
    then show ?thesis by linarith
  qed
  have "0 < n * p + 99" using assms by (simp add: add_nonneg_pos)
  then have "(n * p + 99) sdiv 100 = (n * p + 99) div 100" by (simp add: signed_divide_int_def)
  with le show e: "percentileIndex n p = (n * p + 99) div 100 - 1" by (simp add: percentileIndex_def)
  show "percentileIndex n p < n" using le e by simp
  have b: "100 * ((x + 99) div 100) \<le> x + 99 \<and> x \<le> 100 * ((x + 99) div 100)" for x :: int
    using pos_mod_bound [of 100 "x + 99"] pos_mod_sign [of 100 "x + 99"] mult_div_mod_eq [of 100 "x + 99"] by linarith
  have g: "x \<le> 100 * ((x + 99) div 100)" "1 \<le> x \<Longrightarrow> 100 * ((x + 99) div 100 - 1) < x" "1 \<le> x \<Longrightarrow> 1 \<le> (x + 99) div 100" for x :: int
    using b [of x] by (simp_all add: algebra_simps)
  show "n * p \<le> 100 * (percentileIndex n p + 1)" using g(1) [of "n * p"] by (simp add: e)
  show "100 * percentileIndex n p < n * p" "0 \<le> percentileIndex n p" if "p \<noteq> 0"
  proof -
    have "0 < n * p" using assms that by simp
    then have "1 \<le> n * p" by simp
    then show "0 \<le> percentileIndex n p" using g(3) [of "n * p"] by (simp add: e)
    show "100 * percentileIndex n p < n * p" using g(2) [of "n * p"] \<open>1 \<le> n * p\<close> by (simp add: e)
  qed
qed

text \<open>The statistics of the times of single iterations, for one time or more, in any order. Minimum, maximum and mean are those of
  the times; the percentiles are times for which so many in a hundred are no larger, and fewer are smaller; the median
  is one in the middle; and they are in order.\<close>

theorem iter_stats_correct:
  assumes ne: "ts \<noteq> []"
  defines "S \<equiv> computeIterStats ts" and "n \<equiv> int (length ts)"
    and "reach \<equiv> (\<lambda>v. int (length (filter (\<lambda>x. x \<le> v) ts)))" and "beneath \<equiv> (\<lambda>v. int (length (filter (\<lambda>x. x < v) ts)))"
  shows "st_min S = Min (set ts) \<and> st_max S = Max (set ts) \<and> st_avg S = sum_list ts / real (length ts)
    \<and> {st_p50 S, st_p95 S, st_p99 S} \<subseteq> set ts
    \<and> n < 2 * reach (st_p50 S) \<and> 2 * beneath (st_p50 S) \<le> n
    \<and> 95 * n \<le> 100 * reach (st_p95 S) \<and> 100 * beneath (st_p95 S) < 95 * n
    \<and> 99 * n \<le> 100 * reach (st_p99 S) \<and> 100 * beneath (st_p99 S) < 99 * n
    \<and> st_min S \<le> st_p50 S \<and> st_p50 S \<le> st_p95 S \<and> st_p95 S \<le> st_p99 S \<and> st_p99 S \<le> st_max S"
proof -
  let ?s = "sort ts"
  have n: "0 < n" using ne by (simp add: n_def)
  have l: "length ?s = nat n" by (simp add: n_def)
  have rank: "int i + 1 \<le> reach (?s ! i)" "beneath (?s ! i) \<le> int i" "?s ! i \<in> set ts" if "i < nat n" for i
    using rank_bounds [of ?s i] that nth_mem [of i ?s] l unfolding reach_def beneath_def filter_sort_length [symmetric, where ts = ts] by simp_all
  have mono: "?s ! nat i \<le> ?s ! nat j" if "i \<le> j" "j < n" for i j
    using that l n by (intro sorted_nth_mono) (auto intro!: nat_mono)
  let ?i50 = "n sdiv 2" and ?i95 = "percentileIndex n 95" and ?i99 = "percentileIndex n 99"
  have i50: "?i50 = n div 2" using n by (simp add: signed_divide_int_def)
  note p95 = percentileIndex [of n 95] and p99 = percentileIndex [of n 99]
  have S: "st_min S = ?s ! nat 0" "st_max S = ?s ! nat (n - 1)" "st_p50 S = ?s ! nat ?i50" "st_p95 S = ?s ! nat ?i95" "st_p99 S = ?s ! nat ?i99"
    "st_avg S = sum_list ?s / real_of_int n"
    by (simp_all add: S_def computeIterStats_def Let_def n_def)
  have ord: "0 \<le> ?i50" "?i50 \<le> ?i95" "?i95 \<le> ?i99" "?i99 \<le> n - 1"
    using n p95 p99 unfolding i50 by simp_all
  have idx: "\<exists>j. 0 \<le> j \<and> j < n \<and> x = ?s ! nat j" if "x \<in> set ts" for x
    using that l by (metis in_set_conv_nth nat_eq_iff2 of_nat_0_le_iff of_nat_less_iff n_def length_sort set_sort nat_int)
  have "Min (set ts) = ?s ! nat 0"
    using idx mono [of 0] rank(3) [of 0] n by (intro Min_eqI) fastforce+
  moreover have "Max (set ts) = ?s ! nat (n - 1)"
    using idx mono [of _ "n - 1"] rank(3) [of "nat (n - 1)"] n by (intro Max_eqI) fastforce+
  moreover have "sum_list ?s = sum_list ts" by (metis mset_sort sum_mset_sum_list)
  moreover have "{st_p50 S, st_p95 S, st_p99 S} \<subseteq> set ts"
    unfolding S using rank(3) [of "nat ?i50"] rank(3) [of "nat ?i95"] rank(3) [of "nat ?i99"] ord by simp
  moreover have "n < 2 * reach (st_p50 S) \<and> 2 * beneath (st_p50 S) \<le> n"
    unfolding S using rank(1,2) [of "nat ?i50"] ord unfolding i50 by simp linarith
  moreover have "95 * n \<le> 100 * reach (st_p95 S) \<and> 100 * beneath (st_p95 S) < 95 * n"
    unfolding S using rank(1,2) [of "nat ?i95"] ord p95(4,5) n by simp
  moreover have "99 * n \<le> 100 * reach (st_p99 S) \<and> 100 * beneath (st_p99 S) < 99 * n"
    unfolding S using rank(1,2) [of "nat ?i99"] ord p99(4,5) n by simp
  moreover have "st_min S \<le> st_p50 S \<and> st_p50 S \<le> st_p95 S \<and> st_p95 S \<le> st_p99 S \<and> st_p99 S \<le> st_max S"
    unfolding S using ord ord [unfolded i50] by (intro conjI mono) simp_all
  ultimately show ?thesis unfolding S by (simp add: n_def)
qed

section \<open>The lines of a run\<close>

text \<open>What one measurement reports (the end of \<open>BenchTime\<close>): with times of single iterations when they were taken.\<close>

record bench_line =
  bl_timeUsec :: c_double
  bl_algBw :: c_double
  bl_busBw :: c_double
  bl_wrong :: int
  bl_times :: "real list"
  bl_rows :: "real list list"

text \<open>What the loop of the data checks leaves in \<open>reportErrors\<close>: it runs if \<open>datacheck\<close> is positive, and the \<open>InitData\<close> of sendrecv, alltoall
  and alltoallv (\<^const>\<open>None\<close>, which is not one of \<^typ>\<open>testColl\<close>) switch the reports off in place and on out of place.\<close>

definition bench_reports :: "options \<Rightarrow> testColl option \<Rightarrow> bool \<Rightarrow> threadArgs \<Rightarrow> threadArgs" where
  "bench_reports o' test in_place args =
     (if opt_datacheck o' > 0
      then (case test of Some t \<Rightarrow> init_report t in_place args | None \<Rightarrow> allv_report in_place args) else args)"

definition bench_line_calls :: "options \<Rightarrow> threadArgs \<Rightarrow> bench_line \<Rightarrow> bool \<Rightarrow> json_call list" where
  "bench_line_calls o' args b in_place =
     writeBenchmarkLineBody (bl_timeUsec b) (bl_algBw b) (bl_busBw b) (reportErrors args \<noteq> 0) (bl_wrong b) (opt_report_cputime o' \<noteq> 0) (\<not> in_place)
     @ (if opt_per_iter_timing o' \<noteq> 0
        then writePerIterReport (computeIterStats (drop (nat (opt_per_iter_skip o')) (bl_times b))) (bl_times b) (opt_per_iter_skip o') (\<not> in_place) (bl_rows b)
        else [])"

text \<open>The line of a size (\<open>TimeTest\<close>).\<close>

record size_line =
  sl_bytes :: u64
  sl_count :: u64
  sl_type :: string
  sl_op :: string
  sl_root :: int
  sl_out :: bench_line
  sl_in :: bench_line
  sl_tuning :: tuning_info

definition size_line_calls :: "options \<Rightarrow> testColl option \<Rightarrow> threadArgs \<Rightarrow> size_line \<Rightarrow> json_call list" where
  "size_line_calls o' test args l =
     (let args1 = bench_reports o' test False args; args2 = bench_reports o' test True args1
      in writeBenchmarkLinePreamble (sl_bytes l) (sl_count l) (sl_type l) (sl_op l) (sl_root l)
         @ bench_line_calls o' args1 (sl_out l) False @ bench_line_calls o' args2 (sl_in l) True
         @ writeBenchmarkLineTerminator (opt_tuning o' \<noteq> 0) (sl_tuning l) (opt_iters o') [])"

text \<open>One size after the other; every measurement keeps what the one before has left in the arguments.\<close>

fun size_lines_calls :: "options \<Rightarrow> testColl option \<Rightarrow> threadArgs \<Rightarrow> size_line list \<Rightarrow> json_call list" where
  "size_lines_calls o' test args [] = []"
| "size_lines_calls o' test args (l # ls) =
     size_line_calls o' test args l @ size_lines_calls o' test (bench_reports o' test True (bench_reports o' test False args)) ls"

text \<open>All calls of a run, in the order of \<open>main\<close> and \<open>run\<close>: the arguments are those of the main thread, in which \<open>run\<close> sets \<open>reportErrors\<close> to
  \<open>datacheck\<close>.\<close>

record run_facts =
  rf_start :: string
  rf_argv :: "string list"
  rf_envp :: "string list"
  rf_version :: int
  rf_ranks :: "rankInfo_t list"
  rf_test :: "testColl option"
  rf_args :: threadArgs
  rf_lines :: "size_line list"
  rf_errors :: int
  rf_bw :: c_double
  rf_check_bw :: real
  rf_error :: "string option"

definition run_calls :: "options \<Rightarrow> run_facts \<Rightarrow> json_call list" where
  "run_calls o' r =
     jsonOutputInit (rf_start r) (rf_argv r) (rf_envp r) (rf_version r)
     @ writeDeviceReport o' (rf_ranks r) @ writeResultHeader
     @ size_lines_calls o' (rf_test r) ((rf_args r)\<lparr>reportErrors := opt_datacheck o'\<rparr>) (rf_lines r)
     @ writeResultFooter (rf_errors r) (rf_bw r) (rf_check_bw r) @ writeErrors (rf_error r)"

section \<open>The document of a run\<close>

definition num :: "int \<Rightarrow> json" where
  "num n = JNumber (dec_int n)"

definition size_num :: "u64 \<Rightarrow> json" where
  "size_num n = JNumber (dec_nat (unat n))"

definition str :: "string \<Rightarrow> json" where
  "str s = JString (kept s)"

definition truth :: "bool \<Rightarrow> json" where
  "truth b = JString (if b then ''true'' else ''false'')"

definition usec :: "real \<Rightarrow> json" where
  "usec x = double_value (Finite (x * 10 ^ 6))"

definition rank_value :: "rankInfo_t \<Rightarrow> json" where
  "rank_value ri = JObject [(''rank'', num (ri_rank ri)), (''group'', num (ri_group ri)), (''pid'', num (ri_pid ri)),
     (''hostname'', str (ri_hostname ri)), (''device'', num (ri_device ri)), (''device_hex'', str (ri_device_hex ri)),
     (''device_info'', str (ri_devinfo ri))]"

text \<open>Whether the number of wrong elements is reported: not without data checks, and not in place for the three tests.\<close>

definition wrong_reported :: "options \<Rightarrow> testColl option \<Rightarrow> bool \<Rightarrow> bool" where
  "wrong_reported o' test in_place \<longleftrightarrow>
     (if opt_datacheck o' > 0 \<and> test \<in> {None, Some SendRecvTest, Some AlltoAllTest} then \<not> in_place else opt_datacheck o' \<noteq> 0)"

definition body_value :: "options \<Rightarrow> bool \<Rightarrow> bench_line \<Rightarrow> json" where
  "body_value o' reported b = JObject [(if opt_report_cputime o' \<noteq> 0 then ''cpu_time'' else ''time'', double_value (bl_timeUsec b)),
     (''alg_bw'', double_value (bl_algBw b)), (''bus_bw'', double_value (bl_busBw b)),
     (''nwrong'', if reported then double_value (Finite (real_of_int (bl_wrong b))) else JNull)]"

definition times_value :: "real list \<Rightarrow> json" where
  "times_value ts = JList (map usec ts)"

definition stats_value :: "options \<Rightarrow> bench_line \<Rightarrow> json" where
  "stats_value o' b =
     (let S = computeIterStats (drop (nat (opt_per_iter_skip o')) (bl_times b))
      in JObject ([(''skipped_iterations'', num (opt_per_iter_skip o')), (''min_us'', usec (st_min S)), (''max_us'', usec (st_max S)),
        (''avg_us'', usec (st_avg S)), (''p50_us'', usec (st_p50 S)), (''p95_us'', usec (st_p95 S)), (''p99_us'', usec (st_p99 S)),
        (''stdev_us'', usec (st_stdev S)),
        (''cv_pct'', double_value (Finite (if st_avg S > 0 then st_stdev S / st_avg S * 100 else 0))), (''times_us'', times_value (bl_times b))]
        @ (if length (bl_rows b) > 1 then [(''per_process_max_times_us'', JList (map times_value (bl_rows b)))] else [])))"

definition bench_members :: "options \<Rightarrow> testColl option \<Rightarrow> bench_line \<Rightarrow> bool \<Rightarrow> (string \<times> json) list" where
  "bench_members o' test b in_place =
     [(if in_place then ''in_place'' else ''out_of_place'', body_value o' (wrong_reported o' test in_place) b)]
     @ (if opt_per_iter_timing o' \<noteq> 0 then [(if in_place then ''in_place_per_iter'' else ''out_of_place_per_iter'', stats_value o' b)] else [])"

definition na_value :: "int option \<Rightarrow> json" where
  "na_value n = (case n of None \<Rightarrow> JString ''N/A'' | Some n \<Rightarrow> num n)"

definition tuning_value :: "tuning_info \<Rightarrow> json" where
  "tuning_value i = JObject [(''implementation'', str (tun_implementation i)), (''algo'', str (tun_algo i)), (''proto'', str (tun_proto i)),
     (''kernelVariant'', str (tun_kernelVariant i)), (''syncStrategy'', str (tun_syncStrategy i)),
     (''#channels'', na_value (if tun_nChannels i \<ge> 0 then Some (tun_nChannels i) else None)),
     (''#warps'', na_value (if tun_nWarps i \<ge> 0 then Some (tun_nWarps i) else None)), (''netChunkSize'', na_value (tun_chunkSize i))]"

definition line_value :: "options \<Rightarrow> testColl option \<Rightarrow> size_line \<Rightarrow> json" where
  "line_value o' test l = JObject ([(''size'', size_num (sl_bytes l)), (''count'', size_num (sl_count l)), (''type'', str (sl_type l)),
       (''redop'', str (sl_op l)), (''root'', str (pad_left 6 (dec_int (sl_root l))))]
     @ bench_members o' test (sl_out l) False @ bench_members o' test (sl_in l) True
     @ (if opt_tuning o' \<noteq> 0 then [(''tuning'', tuning_value (sl_tuning l))] else [])
     @ [(''actual_iterations'', num (opt_iters o')), (''experiment_name'', str [])])"

definition config_value :: "options \<Rightarrow> rankInfo_t list \<Rightarrow> json" where
  "config_value o' ranks = JObject ([(''nthreads'', num (opt_nThreads o')), (''ngpus'', num (opt_nGpus o')),
       (''minimum_bytes'', size_num (opt_minBytes o')), (''maximum_bytes'', size_num (opt_maxBytes o'))]
     @ (if opt_stepFactor o' > 1 then [(''step_factor'', size_num (opt_stepFactor o'))] else [(''step_bytes'', size_num (opt_stepBytes o'))])
     @ [(''warmup_iters'', num (opt_warmup_iters o')), (''iterations'', num (opt_iters o')), (''aggregated_iterations'', num (opt_agg_iters o')),
       (''validation'', num (opt_datacheck o')), (''graph'', num (opt_cudaGraphLaunches o')),
       (''blocking_collectives'', truth (opt_blocking_coll o' \<noteq> 0)), (''per_iter_timing'', truth (opt_per_iter_timing o' \<noteq> 0)),
       (''per_iter_skip'', num (opt_per_iter_skip o')), (''parallel_init'', truth (opt_parallel_init o' \<noteq> 0)),
       (''devices'', JList (map rank_value ranks))])"

definition run_value :: "options \<Rightarrow> run_facts \<Rightarrow> string \<Rightarrow> json" where
  "run_value o' r end_time = JObject [(''version'', num 4), (''start_time'', str (rf_start r)), (''args'', JList (map str (rf_argv r))),
     (''env'', JList (map str (rf_envp r))), (''nccl_version'', num (rf_version r)), (''config'', config_value o' (rf_ranks r)),
     (''results'', JList (map (line_value o' (rf_test r)) (rf_lines r))),
     (''out_of_bounds'', JObject [(''count'', num (rf_errors r)), (''okay'', truth (rf_errors r = 0))]),
     (''average_bus_bandwidth'', JObject [(''bandwidth'', double_value (rf_bw r)),
       (''okay'', if rf_check_bw r = - 1 then JString ''unchecked''
          else truth (case rf_bw r of Finite x \<Rightarrow> x \<ge> rf_check_bw r * 9 / 10 | Infinite neg \<Rightarrow> \<not> neg | Nan \<Rightarrow> False))]),
     (''errors'', JList (case rf_error r of None \<Rightarrow> [] | Some e \<Rightarrow> [str e])), (''end_time'', str end_time)]"

text \<open>The strings of a run that are not fixed.\<close>

definition tuning_texts :: "tuning_info \<Rightarrow> string list" where
  "tuning_texts i = [tun_implementation i, tun_algo i, tun_proto i, tun_kernelVariant i, tun_syncStrategy i]"

definition line_texts :: "size_line \<Rightarrow> string list" where
  "line_texts l = [sl_type l, sl_op l, pad_left 6 (dec_int (sl_root l)), []] @ tuning_texts (sl_tuning l)"

definition rank_texts :: "rankInfo_t \<Rightarrow> string list" where
  "rank_texts ri = [ri_hostname ri, ri_device_hex ri, ri_devinfo ri]"

definition run_texts :: "run_facts \<Rightarrow> string list" where
  "run_texts r = [rf_start r] @ rf_argv r @ rf_envp r @ concat (map rank_texts (rf_ranks r)) @ concat (map line_texts (rf_lines r))
     @ (case rf_error r of None \<Rightarrow> [] | Some e \<Rightarrow> [e])"

abbreviation fit :: "string list \<Rightarrow> bool" where
  "fit ss \<equiv> \<forall>s\<in>set ss. \<not> overflows 2048 s"

section \<open>The calls build the document\<close>

lemma doc_run_append: "doc_run (as @ bs) d = Option.bind (doc_run as d) (doc_run bs)"
proof (induction as arbitrary: d)
  case (Cons a as)
  then show ?case by (cases "doc_exec a d") simp_all
qed simp

text \<open>A block of calls that writes one value, in a list or after a key, or some members in an object.\<close>

definition writes_value :: "json_call list \<Rightarrow> json \<Rightarrow> bool" where
  "writes_value cs v \<longleftrightarrow> (\<forall>vs us fs. doc_run cs (vs, FList us # fs) = Some (vs, FList (us @ [v]) # fs)
     \<and> (\<forall>k ms. doc_run cs (vs, FKey k # FObject ms # fs) = Some (vs, FObject (ms @ [(k, v)]) # fs)))"

definition writes_members :: "json_call list \<Rightarrow> (string \<times> json) list \<Rightarrow> bool" where
  "writes_members cs kvs \<longleftrightarrow> (\<forall>vs us fs. doc_run cs (vs, FObject us # fs) = Some (vs, FObject (us @ kvs) # fs))"

lemma writes_append: "writes_members as xs \<Longrightarrow> writes_members bs ys \<Longrightarrow> writes_members (as @ bs) (xs @ ys)"
  by (simp add: writes_members_def doc_run_append)

lemma writes_nil: "writes_members [] []"
  by (simp add: writes_members_def)

lemma writes_if: "(b \<Longrightarrow> writes_members as xs) \<Longrightarrow> (\<not> b \<Longrightarrow> writes_members bs ys) \<Longrightarrow> writes_members (if b then as else bs) (if b then xs else ys)"
  by simp

lemma writes_values:
  "(\<And>x. x \<in> set xs \<Longrightarrow> writes_value (f x) (g x)) \<Longrightarrow>
    doc_run (concat (map f xs)) (vs, FList us # fs) = Some (vs, FList (us @ map g xs) # fs)"
  by (induction xs arbitrary: us) (simp_all add: doc_run_append writes_value_def)

lemma writes_singles:
  "(\<And>x. x \<in> set xs \<Longrightarrow> writes_value [f x] (g x)) \<Longrightarrow>
    doc_run (map f xs) (vs, FList us # fs) = Some (vs, FList (us @ map g xs) # fs)"
  using writes_values [of xs "\<lambda>x. [f x]" g vs us fs] by simp

text \<open>A key with a list or an object.\<close>

lemma writes_list_member:
  assumes "kept k = k \<and> \<not> overflows 2048 k" and "\<And>vs us fs. doc_run cs (vs, FList us # fs) = Some (vs, FList (us @ ws) # fs)"
  shows "writes_members ([WKey k, WStartList] @ cs @ [WFinishList]) [(k, JList ws)]"
  using assms by (simp add: writes_members_def doc_run_append guarded_def)

lemma writes_object_member:
  assumes "kept k = k \<and> \<not> overflows 2048 k" and "writes_members cs kvs"
  shows "writes_members ([WKey k, WStartObject] @ cs @ [WFinishObject]) [(k, JObject kvs)]"
  using assms by (simp add: writes_members_def doc_run_append guarded_def)

lemma writes_object:
  assumes "writes_members cs kvs"
  shows "writes_value ([WStartObject] @ cs @ [WFinishObject]) (JObject kvs)"
  using assms by (simp add: writes_value_def writes_members_def doc_run_append)

lemma writes_list:
  assumes "\<And>vs us fs. doc_run cs (vs, FList us # fs) = Some (vs, FList (us @ ws) # fs)"
  shows "writes_value ([WStartList] @ cs @ [WFinishList]) (JList ws)"
  using assms by (simp add: writes_value_def doc_run_append)

text \<open>Members with a single value.\<close>

lemma writes_single:
  assumes "\<not> overflows 2048 k" "\<And>d. doc_exec c d = add_value v d" "writes_members cs kvs"
  shows "writes_members (WKey k # c # cs) ((kept k, v) # kvs)"
  using assms by (simp add: writes_members_def guarded_def)

lemma exec_str: "\<not> overflows 2048 s \<Longrightarrow> doc_exec (WStr (Some s)) d = add_value (str s) d"
  by (simp add: str_value_def guarded_def str_def)

lemma exec_bool: "doc_exec (WBool b) d = add_value (truth b) d"
  using literal_simps by (simp add: str_value_def guarded_def truth_def)

lemmas value_defs = num_def size_num_def usec_def double_value_def

lemmas run_defs = guarded_def str_value_def str_def truth_def num_def size_num_def usec_def literal_simps

lemma rank_writes: "fit (rank_texts ri) \<Longrightarrow> writes_value (jsonRankInfo ri) (rank_value ri)"
  by (simp add: writes_value_def jsonRankInfo_def rank_value_def rank_texts_def run_defs)

lemma body_writes:
  "writes_members (writeBenchmarkLineBody (bl_timeUsec b) (bl_algBw b) (bl_busBw b) reported (bl_wrong b) (opt_report_cputime o' \<noteq> 0) out)
     [(if out then ''out_of_place'' else ''in_place'', body_value o' reported b)]"
  by (simp add: writes_members_def writeBenchmarkLineBody_def body_value_def run_defs)

lemma times_writes: "writes_value (json_times ts) (times_value ts)"
  unfolding json_times_def times_value_def
  by (intro writes_list writes_singles) (simp add: writes_value_def usec_def)

lemma tuning_writes: "fit (tuning_texts i) \<Longrightarrow> writes_members (tuning_calls i) [(''tuning'', tuning_value i)]"
  by (cases "tun_chunkSize i")
    (simp_all add: writes_members_def tuning_calls_def tuning_value_def tuning_texts_def int_or_na_def na_value_def run_defs)

lemma stats_writes:
  "writes_members (writePerIterReport (computeIterStats (drop (nat (opt_per_iter_skip o')) (bl_times b))) (bl_times b) (opt_per_iter_skip o') out (bl_rows b))
     [(if out then ''out_of_place_per_iter'' else ''in_place_per_iter'', stats_value o' b)]"
proof -
  have t: "doc_run (json_times ts) (vs, FKey k # FObject us # fs) = Some (vs, FObject (us @ [(k, times_value ts)]) # fs)" for ts vs k us fs
    using times_writes [of ts] by (simp add: writes_value_def)
  have r: "doc_run (concat (map json_times rows)) (vs, FList us # fs) = Some (vs, FList (us @ map times_value rows) # fs)" for rows vs us fs
    by (rule writes_values) (rule times_writes)
  show ?thesis
    by (simp add: writes_members_def writePerIterReport_def Let_def stats_value_def doc_run_append t r run_defs)
qed

lemma bench_writes:
  "(reportErrors args \<noteq> 0) = wrong_reported o' test in_place \<Longrightarrow>
    writes_members (bench_line_calls o' args b in_place) (bench_members o' test b in_place)"
  using body_writes [of b "wrong_reported o' test in_place" o' "\<not> in_place"] stats_writes [of o' b "\<not> in_place"]
  by (simp add: bench_line_calls_def bench_members_def writes_members_def doc_run_append)

text \<open>The flag before a measurement is \<open>datacheck\<close>, or it does not matter; behind it, it is as documented.\<close>

definition flag_ok :: "options \<Rightarrow> testColl option \<Rightarrow> threadArgs \<Rightarrow> bool" where
  "flag_ok o' test args \<longleftrightarrow>
     opt_datacheck o' > 0 \<and> test \<in> {None, Some SendRecvTest, Some AlltoAllTest} \<or> reportErrors args = opt_datacheck o'"

lemma flag_kept:
  assumes "flag_ok o' test args"
  shows "flag_ok o' test (bench_reports o' test in_place args)"
    "(reportErrors (bench_reports o' test in_place args) \<noteq> 0) = wrong_reported o' test in_place"
  using assms by (cases test; auto simp: flag_ok_def bench_reports_def wrong_reported_def init_report_def allv_report_def)+

lemma line_writes:
  assumes "fit (line_texts l)" and flag: "flag_ok o' test args"
  shows "writes_value (size_line_calls o' test args l) (line_value o' test l)"
proof -
  note flags = flag_kept [OF flag] flag_kept [OF flag_kept(1) [OF flag]]
  have "fit (tuning_texts (sl_tuning l))" using assms by (simp add: line_texts_def)
  note t = tuning_writes [OF this]
  let ?pre = "[WKey ''size'', WSize (sl_bytes l), WKey ''count'', WSize (sl_count l), WKey ''type'', WStr (Some (sl_type l)),
      WKey ''redop'', WStr (Some (sl_op l)), WKey ''root'', WStr (Some (pad_left 6 (dec_int (sl_root l))))]"
  let ?post = "[WKey ''actual_iterations'', WInt (opt_iters o'), WKey ''experiment_name'', WStr (Some [])]"
  have pre: "writes_members ?pre [(''size'', size_num (sl_bytes l)), (''count'', size_num (sl_count l)), (''type'', str (sl_type l)),
       (''redop'', str (sl_op l)), (''root'', str (pad_left 6 (dec_int (sl_root l))))]"
    using assms by (simp add: writes_members_def line_texts_def run_defs)
  have post: "writes_members ?post [(''actual_iterations'', num (opt_iters o')), (''experiment_name'', str [])]"
    using assms by (simp add: writes_members_def line_texts_def run_defs)
  let ?tun = "if opt_tuning o' \<noteq> 0 then tuning_calls (sl_tuning l) else []"
  have tun: "writes_members ?tun (if opt_tuning o' \<noteq> 0 then [(''tuning'', tuning_value (sl_tuning l))] else [])"
    using t writes_nil by simp
  have calls: "size_line_calls o' test args l = [WStartObject] @ (?pre @ bench_line_calls o' (bench_reports o' test False args) (sl_out l) False
      @ bench_line_calls o' (bench_reports o' test True (bench_reports o' test False args)) (sl_in l) True @ ?tun @ ?post) @ [WFinishObject]"
    by (simp add: size_line_calls_def Let_def writeBenchmarkLinePreamble_def writeBenchmarkLineTerminator_def)
  show ?thesis
    unfolding calls line_value_def by (intro writes_object writes_append pre bench_writes flags tun post)
qed

lemma lines_write:
  "\<forall>l\<in>set ls. fit (line_texts l) \<Longrightarrow> flag_ok o' test args \<Longrightarrow>
    doc_run (size_lines_calls o' test args ls) (vs, FList us # fs) = Some (vs, FList (us @ map (line_value o' test) ls) # fs)"
proof (induction ls arbitrary: args us)
  case (Cons l ls)
  then have "writes_value (size_line_calls o' test args l) (line_value o' test l)" by (intro line_writes) simp_all
  then show ?case using Cons by (simp add: doc_run_append writes_value_def flag_kept)
qed simp

lemma config_writes:
  assumes "\<forall>ri\<in>set ranks. fit (rank_texts ri)"
  shows "writes_members (writeDeviceReport o' ranks) [(''config'', config_value o' ranks)]"
proof -
  let ?a = "[WKey ''nthreads'', WInt (opt_nThreads o'), WKey ''ngpus'', WInt (opt_nGpus o'),
      WKey ''minimum_bytes'', WSize (opt_minBytes o'), WKey ''maximum_bytes'', WSize (opt_maxBytes o')]"
  let ?b = "if opt_stepFactor o' > 1 then [WKey ''step_factor'', WSize (opt_stepFactor o')] else [WKey ''step_bytes'', WSize (opt_stepBytes o')]"
  let ?c = "[WKey ''warmup_iters'', WInt (opt_warmup_iters o'), WKey ''iterations'', WInt (opt_iters o'),
        WKey ''aggregated_iterations'', WInt (opt_agg_iters o'), WKey ''validation'', WInt (opt_datacheck o'),
        WKey ''graph'', WInt (opt_cudaGraphLaunches o'), WKey ''blocking_collectives'', WBool (opt_blocking_coll o' \<noteq> 0),
        WKey ''per_iter_timing'', WBool (opt_per_iter_timing o' \<noteq> 0), WKey ''per_iter_skip'', WInt (opt_per_iter_skip o'),
        WKey ''parallel_init'', WBool (opt_parallel_init o' \<noteq> 0)]"
  let ?d = "[WKey ''devices'', WStartList] @ concat (map jsonRankInfo ranks) @ [WFinishList]"
  have calls: "writeDeviceReport o' ranks = [WKey ''config'', WStartObject] @ (?a @ ?b @ ?c @ ?d) @ [WFinishObject]"
    by (simp add: writeDeviceReport_def config_calls_def devices_calls_def)
  have a: "writes_members ?a [(''nthreads'', num (opt_nThreads o')), (''ngpus'', num (opt_nGpus o')),
       (''minimum_bytes'', size_num (opt_minBytes o')), (''maximum_bytes'', size_num (opt_maxBytes o'))]"
    by (simp add: writes_members_def run_defs)
  have b: "writes_members ?b (if opt_stepFactor o' > 1 then [(''step_factor'', size_num (opt_stepFactor o'))] else [(''step_bytes'', size_num (opt_stepBytes o'))])"
    by (simp add: writes_members_def run_defs)
  have c: "writes_members ?c [(''warmup_iters'', num (opt_warmup_iters o')), (''iterations'', num (opt_iters o')),
       (''aggregated_iterations'', num (opt_agg_iters o')), (''validation'', num (opt_datacheck o')), (''graph'', num (opt_cudaGraphLaunches o')),
       (''blocking_collectives'', truth (opt_blocking_coll o' \<noteq> 0)), (''per_iter_timing'', truth (opt_per_iter_timing o' \<noteq> 0)),
       (''per_iter_skip'', num (opt_per_iter_skip o')), (''parallel_init'', truth (opt_parallel_init o' \<noteq> 0))]"
    by (simp add: writes_members_def run_defs)
  have d: "writes_members ?d [(''devices'', JList (map rank_value ranks))]"
    by (rule writes_list_member) (simp add: literal_simps, rule writes_values, rule rank_writes, use assms in blast)
  from writes_append [OF a writes_append [OF b writes_append [OF c d]]] show ?thesis
    unfolding calls config_value_def by (intro writes_object_member) (simp_all only: literal_simps append.simps simp_thms)
qed

lemma strings_write: "fit ss \<Longrightarrow> doc_run (map (\<lambda>s. WStr (Some s)) ss) (vs, FList us # fs) = Some (vs, FList (us @ map str ss) # fs)"
  by (rule writes_singles) (simp add: writes_value_def run_defs)

lemma member_int: "kept k = k \<and> \<not> overflows 2048 k \<Longrightarrow> writes_members [WKey k, WInt n] [(k, num n)]"
  and member_str: "kept k = k \<and> \<not> overflows 2048 k \<Longrightarrow> \<not> overflows 2048 s \<Longrightarrow> writes_members [WKey k, WStr (Some s)] [(k, str s)]"
  by (simp_all add: writes_members_def guarded_def num_def str_def str_value_def)

text \<open>The members of the object a run writes, without the time of its end.\<close>

definition run_members :: "options \<Rightarrow> run_facts \<Rightarrow> (string \<times> json) list" where
  "run_members o' r = (case run_value o' r [] of JObject kvs \<Rightarrow> butlast kvs | _ \<Rightarrow> [])"

lemma run_members_value: "run_value o' r t = JObject (run_members o' r @ [(''end_time'', str t)])"
  by (simp add: run_members_def run_value_def)

lemma run_writes:
  assumes "fit (run_texts r)"
  shows "doc_run (run_calls o' r) ([], []) = Some ([], [FObject (run_members o' r)])"
proof -
  let ?results = "[WKey ''results'', WStartList] @ size_lines_calls o' (rf_test r) ((rf_args r)\<lparr>reportErrors := opt_datacheck o'\<rparr>) (rf_lines r) @ [WFinishList]"
  let ?oob = "[WKey ''out_of_bounds'', WStartObject] @ [WKey ''count'', WInt (rf_errors r), WKey ''okay'', WBool (rf_errors r = 0)] @ [WFinishObject]"
  let ?okay = "case rf_bw r of Finite x \<Rightarrow> x \<ge> rf_check_bw r * 9 / 10 | Infinite neg \<Rightarrow> \<not> neg | Nan \<Rightarrow> False"
  let ?avg = "[WKey ''average_bus_bandwidth'', WStartObject] @ [WKey ''bandwidth'', WDouble (rf_bw r), WKey ''okay'',
      (if rf_check_bw r = - 1 then WStr (Some ''unchecked'') else WBool ?okay)] @ [WFinishObject]"
  let ?args = "[WKey ''args'', WStartList] @ map (\<lambda>s. WStr (Some s)) (rf_argv r) @ [WFinishList]"
  let ?env = "[WKey ''env'', WStartList] @ map (\<lambda>s. WStr (Some s)) (rf_envp r) @ [WFinishList]"
  let ?errs = "[WKey ''errors'', WStartList] @ map (\<lambda>s. WStr (Some s)) (case rf_error r of None \<Rightarrow> [] | Some e \<Rightarrow> [e]) @ [WFinishList]"
  let ?all = "[WKey ''version'', WInt 4] @ [WKey ''start_time'', WStr (Some (rf_start r))] @ ?args @ ?env @ [WKey ''nccl_version'', WInt (rf_version r)]
    @ writeDeviceReport o' (rf_ranks r) @ ?results @ ?oob @ ?avg @ ?errs"
  have calls: "run_calls o' r = WStartObject # ?all"
    by (cases "rf_error r") (simp_all add: run_calls_def jsonOutputInit_def writeResultHeader_def writeResultFooter_def writeErrors_def)
  have f: "\<not> overflows 2048 (rf_start r)" "fit (rf_argv r)" "fit (rf_envp r)" "\<forall>ri\<in>set (rf_ranks r). fit (rank_texts ri)"
    "\<forall>l\<in>set (rf_lines r). fit (line_texts l)" "fit (case rf_error r of None \<Rightarrow> [] | Some e \<Rightarrow> [e])"
    using assms by (auto simp: run_texts_def)
  have results: "writes_members ?results [(''results'', JList (map (line_value o' (rf_test r)) (rf_lines r)))]"
    by (rule writes_list_member) (simp add: literal_simps, rule lines_write, use f(5) in blast, simp add: flag_ok_def)
  have oob: "writes_members ?oob [(''out_of_bounds'', JObject [(''count'', num (rf_errors r)), (''okay'', truth (rf_errors r = 0))])]"
    by (simp add: writes_members_def run_defs)
  have avg: "writes_members ?avg [(''average_bus_bandwidth'', JObject [(''bandwidth'', double_value (rf_bw r)),
      (''okay'', if rf_check_bw r = - 1 then JString ''unchecked'' else truth ?okay)])]"
    by (simp add: writes_members_def run_defs)
  have l: "kept ''args'' = ''args'' \<and> \<not> overflows 2048 ''args''" "kept ''env'' = ''env'' \<and> \<not> overflows 2048 ''env''"
    "kept ''errors'' = ''errors'' \<and> \<not> overflows 2048 ''errors''" "kept ''version'' = ''version'' \<and> \<not> overflows 2048 ''version''"
    "kept ''start_time'' = ''start_time'' \<and> \<not> overflows 2048 ''start_time''" "kept ''nccl_version'' = ''nccl_version'' \<and> \<not> overflows 2048 ''nccl_version''"
    by (simp_all only: literal_simps simp_thms)
  have "writes_members ?all (run_members o' r)"
  proof -
    have m: "run_members o' r = [(''version'', num 4)] @ [(''start_time'', str (rf_start r))] @ [(''args'', JList (map str (rf_argv r)))]
      @ [(''env'', JList (map str (rf_envp r)))] @ [(''nccl_version'', num (rf_version r))] @ [(''config'', config_value o' (rf_ranks r))]
      @ [(''results'', JList (map (line_value o' (rf_test r)) (rf_lines r)))]
      @ [(''out_of_bounds'', JObject [(''count'', num (rf_errors r)), (''okay'', truth (rf_errors r = 0))])]
      @ [(''average_bus_bandwidth'', JObject [(''bandwidth'', double_value (rf_bw r)),
          (''okay'', if rf_check_bw r = - 1 then JString ''unchecked'' else truth ?okay)])]
      @ [(''errors'', JList (map str (case rf_error r of None \<Rightarrow> [] | Some e \<Rightarrow> [e])))]"
      by (cases "rf_error r") (simp_all add: run_members_def run_value_def)
    show ?thesis
      unfolding m
      by (intro writes_append member_int [OF l(4)] member_str [OF l(5) f(1)] writes_list_member [OF l(1) strings_write [OF f(2)]]
          writes_list_member [OF l(2) strings_write [OF f(3)]] member_int [OF l(6)] config_writes [OF f(4)] results oob avg
          writes_list_member [OF l(3) strings_write [OF f(6)]])
  qed
  then show ?thesis unfolding calls by (simp add: writes_members_def)
qed

text \<open>Closing the outermost object, after the time of the end.\<close>

lemma finalize_object:
  assumes r: "json_rel ([], [FObject kvs]) j" and t: "\<not> overflows 2048 end_time"
  shows "\<exists>j'. jsonOutputFinalize end_time j = Some j' \<and> json_report j' = render (JObject (kvs @ [(''end_time'', str end_time)]))"
proof -
  let ?kvs = "kvs @ [(''end_time'', str end_time)]"
  have "doc_run [WKey ''end_time'', WStr (Some end_time)] ([], [FObject kvs]) = Some ([], [FObject ?kvs])"
    using t by (simp add: run_defs)
  then obtain j1 where j1: "json_run [WKey ''end_time'', WStr (Some end_time)] j = Some j1" "json_rel ([], [FObject ?kvs]) j1"
    using implementsD [OF implements_run r, of "[WKey ''end_time'', WStr (Some end_time)]"] by auto
  have st: "length (states j) = 1" "jsonCurrState j \<in> {JSON_OBJECT_EMPTY, JSON_OBJECT_SOME}"
    using r by (auto simp: json_rel_def jsonCurrState_def)
  have ne: "snd ([] :: json list, [FObject ?kvs]) \<noteq> []" by simp
  obtain d2 j2 where j2: "jsonFinishCurrent j1 = Some j2" "json_rel d2 j2" "finish_current ([], [FObject ?kvs]) = Some d2"
    using finish_current_step [OF j1(2) ne] by blast
  then have d2: "d2 = ([JObject ?kvs], [])" by (simp add: finish_current_def)
  have "states j1 \<noteq> []" "states j2 = []" using j1(2) j2(2) d2 by (simp_all add: json_rel_def)
  then have "json_close j1 = Some j2" using j2(1) by (simp add: json_close.simps [of j1] json_close.simps [of j2])
  moreover have "json_seq [jsonKey ''end_time'', jsonStr (Some end_time)] j = Some j1" using j1(1) by (simp add: json_run_def)
  moreover have "json_report j2 = render (JObject ?kvs)" using j2(2) d2 by (simp add: json_rel_def doc_text_def)
  ultimately show ?thesis
    using st \<open>states j2 = []\<close> by (simp add: jsonOutputFinalize_def jsonCurrState_def [of j2] del: json_seq_simps)
qed

definition finite_double :: "c_double \<Rightarrow> bool" where
  "finite_double x \<longleftrightarrow> (\<forall>neg. x \<noteq> Infinite neg)"

definition finite_line :: "bench_line \<Rightarrow> bool" where
  "finite_line b \<longleftrightarrow> finite_double (bl_timeUsec b) \<and> finite_double (bl_algBw b) \<and> finite_double (bl_busBw b)"

definition finite_run :: "run_facts \<Rightarrow> bool" where
  "finite_run r \<longleftrightarrow> (\<forall>l\<in>set (rf_lines r). finite_line (sl_out l) \<and> finite_line (sl_in l)) \<and> finite_double (rf_bw r)"

definition all_finite :: "json_call list \<Rightarrow> bool" where
  "all_finite cs \<longleftrightarrow> (\<forall>c\<in>set cs. call_finite c)"

lemma all_finite_simps [simp]:
  "all_finite []" "all_finite (c # cs) \<longleftrightarrow> call_finite c \<and> all_finite cs" "all_finite (as @ bs) \<longleftrightarrow> all_finite as \<and> all_finite bs"
  "all_finite (concat css) \<longleftrightarrow> (\<forall>cs\<in>set css. all_finite cs)" "all_finite (map f xs) \<longleftrightarrow> (\<forall>x\<in>set xs. call_finite (f x))"
  "all_finite (if b then as else bs) \<longleftrightarrow> (if b then all_finite as else all_finite bs)"
  by (auto simp: all_finite_def)

lemma bench_finite: "finite_line b \<Longrightarrow> all_finite (bench_line_calls o' args b in_place)"
  by (simp add: bench_line_calls_def writeBenchmarkLineBody_def writePerIterReport_def json_times_def Let_def call_finite_def finite_line_def
    finite_double_def)

lemma line_finite: "finite_line (sl_out l) \<Longrightarrow> finite_line (sl_in l) \<Longrightarrow> all_finite (size_line_calls o' test args l)"
  by (simp add: size_line_calls_def Let_def bench_finite writeBenchmarkLinePreamble_def writeBenchmarkLineTerminator_def tuning_calls_def int_or_na_def
    call_finite_def split: option.split)

lemma lines_finite:
  "\<forall>l\<in>set ls. finite_line (sl_out l) \<and> finite_line (sl_in l) \<Longrightarrow> all_finite (size_lines_calls o' test args ls)"
  by (induction ls arbitrary: args) (simp_all add: line_finite)

lemma run_finite: "finite_run r \<Longrightarrow> all_finite (run_calls o' r)"
  by (simp add: run_calls_def jsonOutputInit_def writeDeviceReport_def config_calls_def devices_calls_def jsonRankInfo_def writeResultHeader_def writeResultFooter_def writeErrors_def
    call_finite_def finite_run_def finite_double_def lines_finite split: option.split)

text \<open>C7: the report of a run. When every string fits its buffer, no assertion of the writer fails and the file is exactly the text of the
  document of the run: version, command line, environment, configuration with the devices, one object for every size
  with both measurements, the footer and the errors; without an infinite number it is a JSON text of that document. The number of wrong elements is
  null without data checks, and in place for sendrecv, alltoall and alltoallv.\<close>

theorem report_is_document:
  assumes "fit (run_texts r)" "\<not> overflows 2048 end_time"
  shows "\<exists>j j'. json_run (run_calls o' r) json_start = Some j \<and> jsonOutputFinalize end_time j = Some j'
    \<and> json_report j' = render (run_value o' r end_time)
    \<and> (finite_run r \<longrightarrow> json_text_of (run_value o' r end_time) (json_report j'))"
proof -
  note d = run_writes [OF assms(1), of o']
  obtain j where j: "json_run (run_calls o' r) json_start = Some j" "json_rel ([], [FObject (run_members o' r)]) j"
    using implementsD [OF implements_run start_rel, of "run_calls o' r"] unfolding d by auto
  obtain j' where j': "jsonOutputFinalize end_time j = Some j'" "json_report j' = render (run_value o' r end_time)"
    using finalize_object [OF j(2) assms(2)] unfolding run_members_value by blast
  have "json_valid (run_value o' r end_time)" if "finite_run r"
  proof -
    have "doc_valid ([], [FObject (run_members o' r)])"
      using doc_run_valid [OF _ d] run_finite [OF that, of o'] by (simp add: doc_valid_def all_finite_def)
    then show ?thesis
      unfolding run_members_value using kept_printable literals_ok by (auto simp: doc_valid_def str_def json_literals_def)
  qed
  with j(1) j' render_json show ?thesis by auto
qed

theorem iter_stats_correct_witness:
  "st_min (computeIterStats [3, 1, 2]) = 1 \<and> st_max (computeIterStats [3, 1, 2]) = 3 \<and> st_avg (computeIterStats [3, 1, 2]) = 2
    \<and> st_p50 (computeIterStats [3, 1, 2]) \<le> st_p95 (computeIterStats [3, 1, 2])"
  using iter_stats_correct [of "[3, 1, 2]"] by simp

text \<open>The time of an iteration is the maximum over the GPUs, and zero without any.\<close>

lemma iter_time_max: "iter_time ngpus iters ms iter = Max (insert 0 ((\<lambda>i. ms (i * iters + iter) / 1000) ` {0..<ngpus}))"
proof -
  have f: "foldl (\<lambda>maxSec i. let sec = g i in if sec > maxSec then sec else maxSec) a js = fold max (map g js) a"
    for g :: "int \<Rightarrow> real" and a js
    by (induction js arbitrary: a) (simp_all add: Let_def max_def)
  show ?thesis
    unfolding iter_time_def f Max.set_eq_fold [symmetric]
    by (simp add: atLeastLessThanPlusOne_atLeastAtMost_int [symmetric])
qed

definition example_run :: run_facts where
  "example_run =
     (let b = \<lparr>bl_timeUsec = Finite 10, bl_algBw = Finite 1, bl_busBw = Nan, bl_wrong = 0, bl_times = [], bl_rows = []\<rparr>
      in \<lparr>rf_start = ''now'', rf_argv = [''all_reduce_perf''], rf_envp = [''HOME=/''], rf_version = 23100, rf_ranks = [],
          rf_test = Some SendRecvTest, rf_args = example_args, rf_lines = [\<lparr>sl_bytes = 1024, sl_count = 256, sl_type = ''float'', sl_op = ''sum'', sl_root = - 1, sl_out = b, sl_in = b, sl_tuning = no_tuning\<rparr>],
          rf_errors = 0, rf_bw = Finite 1, rf_check_bw = - 1, rf_error = None\<rparr>)"

lemma example_nwrong:
  "wrong_reported default_options (rf_test example_run) True = False" "wrong_reported default_options (rf_test example_run) False"
  by (simp_all add: wrong_reported_def example_run_def default_options_def Let_def)

theorem report_is_document_witness:
  "\<exists>j j'. json_run (run_calls default_options example_run) json_start = Some j \<and> jsonOutputFinalize ''later'' j = Some j'
    \<and> json_text_of (run_value default_options example_run ''later'') (json_report j')"
proof -
  have "list_all (\<lambda>s. length s < 1024) (''later'' # run_texts example_run)"
    by (simp add: run_texts_def example_run_def Let_def line_texts_def tuning_texts_def no_tuning_def pad_left_def dec_int_def dec_nat_cases dec_digit_def)
  then have "fit (run_texts example_run)" "\<not> overflows 2048 ''later''" by (auto simp: list_all_iff short_string)
  moreover have "finite_run example_run" by (simp add: finite_run_def example_run_def Let_def finite_line_def finite_double_def)
  ultimately show ?thesis using report_is_document [of example_run "''later''" default_options] by blast
qed

end
