(* ===== verification/HostAllvRun.thy ===== *)
theory HostAllvRun
  imports HostAllv
begin

unbundle bit_operations_syntax

text \<open>
  Whole runs of the irregular all-to-all (src/alltoallv.cu): the sums of the generated pattern, the sizes of the buffers, the
  check of a run, and the errors of the configuration.
\<close>

section \<open>The buffers of the generated pattern\<close>

text \<open>In the generated pattern the bytes depend on the distance.\<close>

definition distance_bytes :: "real \<Rightarrow> u64 \<Rightarrow> int \<Rightarrow> int \<Rightarrow> u64" where
  "distance_bytes spread T n d =
     (if n = 1 then T AND NOT 15
      else align16 ((1 - spread) * (real (unat T) / real_of_int n) + spread * (real_of_int d * real (unat T) / (real_of_int n * (real_of_int n - 1) / 2))))"

lemma sum_distances_word:
  assumes "2 \<le> n" "n < 2 ^ 31"
  shows "real (unat (u64_of_int n * u64_of_int (n - 1) div 2)) = real_of_int n * (real_of_int n - 1) / 2"
proof -
  have "n * (n - 1) < 2 ^ 31 * 2 ^ 31" using assms by (intro mult_strict_mono) simp_all
  then have u: "uint (u64_of_int n * u64_of_int (n - 1)) = n * (n - 1)"
    using assms unfolding wi_hom_mult uint_word_of_int by (intro mod_pos_pos_trivial) simp_all
  have "uint (u64_of_int n * u64_of_int (n - 1) div 2) = n * (n - 1) div 2" using u by (simp add: uint_div)
  moreover have "2 dvd n * (n - 1)" by simp
  ultimately have "2 * uint (u64_of_int n * u64_of_int (n - 1) div 2) = n * (n - 1)" by simp
  then have "2 * real_of_int (uint (u64_of_int n * u64_of_int (n - 1) div 2)) = real_of_int (n * (n - 1))" by (metis of_int_mult of_int_numeral)
  then show ?thesis by simp
qed

lemma peer_bytes_distance:
  assumes "0 \<le> i" "i < n" "0 \<le> j" "j < n" "n < 2 ^ 31"
  shows "AlltoAllvGetPeerBytesDistanceWeighted spread i j n T = distance_bytes spread T n ((j - i) mod n)"
proof (cases "n = 1")
  case False
  with assms have n: "2 \<le> n" by simp
  have "(j - i + n) smod n = (j - i + n) mod n" using assms by (simp add: signed_modulo_int_def)
  then have d: "(j - i + n) smod n = (j - i) mod n" by simp
  show ?thesis
    using False sum_distances_word [OF n assms(5)]
    by (simp only: AlltoAllvGetPeerBytesDistanceWeighted_def distance_bytes_def Let_def d if_False)
qed (simp add: AlltoAllvGetPeerBytesDistanceWeighted_def distance_bytes_def)

text \<open>So every row and every column of the pattern has the same sum, the one over all distances.\<close>

lemma sum_distances:
  assumes "0 \<le> i" "i < (n :: int)"
  shows "before (\<lambda>j. f ((j - i) mod n)) 0 n = before f 0 n" "before (\<lambda>j. f ((i - j) mod n)) 0 n = before f 0 n"
proof -
  have "bij_betw (\<lambda>j. (j - i) mod n) {0..<n} {0..<n}"
    by (rule bij_betw_byWitness [where f' = "\<lambda>d. (d + i) mod n"]) (use assms in \<open>auto simp: mod_simps\<close>)
  from sum.reindex_bij_betw [OF this, of f] show "before (\<lambda>j. f ((j - i) mod n)) 0 n = before f 0 n" by (simp add: before_def)
  have "bij_betw (\<lambda>j. (i - j) mod n) {0..<n} {0..<n}"
    by (rule bij_betw_byWitness [where f' = "\<lambda>d. (i - d) mod n"]) (use assms in \<open>auto simp: mod_simps\<close>)
  from sum.reindex_bij_betw [OF this, of f] show "before (\<lambda>j. f ((i - j) mod n)) 0 n = before f 0 n" by (simp add: before_def)
qed

lemma and_not_15: "unat (x AND NOT 15 :: u64) \<le> unat x"
  using word_and_le2 [of x "NOT 15"] by (simp add: word_le_nat_alt)

lemma align16_le:
  assumes "0 \<le> x" "x < 2 ^ 64"
  shows "real (unat (align16 x)) \<le> x"
proof -
  have "0 \<le> \<lfloor>x\<rfloor>" "\<lfloor>x\<rfloor> < 2 ^ 64" using assms by (simp_all add: floor_less_iff)
  then have "unat (word_of_int \<lfloor>x\<rfloor> :: u64) = nat \<lfloor>x\<rfloor>" by (intro unat_word_of_int_small) simp_all
  then have "unat (align16 x) \<le> nat \<lfloor>x\<rfloor>" using and_not_15 [of "word_of_int \<lfloor>x\<rfloor>"] by (simp add: align16_def)
  then have "real (unat (align16 x)) \<le> real (nat \<lfloor>x\<rfloor>)" by (simp only: of_nat_le_iff)
  also have "\<dots> \<le> x" using assms(1) by (simp add: of_nat_floor)
  finally show ?thesis .
qed

lemma sum_upto_int: "0 \<le> n \<Longrightarrow> (\<Sum>d\<in>{0..<n}. real_of_int d) = real_of_int n * (real_of_int n - 1) / 2"
proof (induction n rule: int_ge_induct)
  case (step n)
  have "{0..<n + 1} = insert n {0..<n}" using step.hyps by auto
  then show ?case using step.IH by (simp add: field_simps)
qed simp

lemma real_word: "real (unat (x :: u64)) < 2 ^ 64"
proof -
  have "real (unat x) < real (2 ^ 64)" using unsigned_less [of x] by (simp only: of_nat_less_iff) simp
  then show ?thesis by simp
qed

lemma distance_bytes_total:
  assumes spread: "0 \<le> spread" "spread \<le> 1" and n: "0 < n"
  shows "before (\<lambda>d. unat (distance_bytes spread T n d)) 0 n \<le> unat T"
proof (cases "n = 1")
  case True
  have "{0..<1 :: int} = {0}" by auto
  then show ?thesis using True and_not_15 [of T] by (simp add: before_def distance_bytes_def)
next
  case False
  then have n2: "2 \<le> n" using n by simp
  define t where "t = real (unat T)"
  let ?S = "real_of_int n * (real_of_int n - 1) / 2" and ?t = t
  let ?g = "\<lambda>d. (1 - spread) * (?t / real_of_int n) + spread * (real_of_int d * ?t / ?S)"
  have S: "0 < ?S" using n2 by simp
  have sum: "(\<Sum>d\<in>{0..<n}. ?g d) = ?t"
  proof -
    have "(\<Sum>d\<in>{0..<n}. ?g d) = real_of_int n * ((1 - spread) * (?t / real_of_int n)) + spread * ((\<Sum>d\<in>{0..<n}. real_of_int d) * ?t / ?S)"
      using n by (simp add: sum.distrib sum_distrib_left sum_distrib_right sum_divide_distrib)
    also have "\<dots> = ?t" unfolding sum_upto_int [OF less_imp_le [OF n]] using n2 S by (simp add: field_simps)
    finally show ?thesis .
  qed
  have t0: "0 \<le> t" unfolding t_def by (rule of_nat_0_le_iff)
  have pos: "0 \<le> ?g d" if "d \<in> {0..<n}" for d using that spread S n2 t0 by (intro add_nonneg_nonneg mult_nonneg_nonneg divide_nonneg_nonneg) simp_all
  have le: "?g d \<le> ?t" if "d \<in> {0..<n}" for d
    using member_le_sum [of d "{0..<n}" ?g] that pos sum by simp
  have t: "?t < 2 ^ 64" unfolding t_def by (rule real_word)
  have "real (before (\<lambda>d. unat (distance_bytes spread T n d)) 0 n) = (\<Sum>d\<in>{0..<n}. real (unat (align16 (?g d))))"
    using False by (simp only: before_def distance_bytes_def t_def if_False of_nat_sum)
  also have "\<dots> \<le> (\<Sum>d\<in>{0..<n}. ?g d)" using pos le t by (intro sum_mono align16_le) (auto intro: le_less_trans)
  finally show ?thesis unfolding sum unfolding t_def of_nat_le_iff .
qed

lemma and_not_15_mod: "unat (x AND NOT 15 :: u64) = unat x div 16 * 16"
  using unat_base_count [of 1 x 1] by (simp add: base_count_def elt_width_def)

lemma align16_mono:
  assumes "0 \<le> x" "x \<le> y" "y < 2 ^ 64"
  shows "unat (align16 x) \<le> unat (align16 y)"
proof -
  have u: "unat (word_of_int \<lfloor>z\<rfloor> :: u64) = nat \<lfloor>z\<rfloor>" if "0 \<le> z" "z < 2 ^ 64" for z
    using that by (intro unat_word_of_int_small) (simp_all add: floor_less_iff)
  have "nat \<lfloor>x\<rfloor> \<le> nat \<lfloor>y\<rfloor>" using assms(2) by (intro nat_mono floor_mono)
  then have "nat \<lfloor>x\<rfloor> div 16 * 16 \<le> nat \<lfloor>y\<rfloor> div 16 * 16" by (intro mult_le_mono1 div_le_mono)
  then show ?thesis using assms u [of x] u [of y] by (simp only: align16_def and_not_15_mod)
qed

lemma distance_bytes_mono:
  assumes spread: "0 \<le> spread" "spread \<le> 1" and d: "0 \<le> d" "d < n" and T: "T \<le> T'"
  shows "unat (distance_bytes spread T n d) \<le> unat (distance_bytes spread T' n d)"
proof (cases "n = 1")
  case True
  have "unat T div 16 * 16 \<le> unat T' div 16 * 16" using T unfolding word_le_nat_alt by (intro mult_le_mono1 div_le_mono)
  then show ?thesis using True by (simp only: distance_bytes_def and_not_15_mod simp_thms if_True)
next
  case False
  then have n: "2 \<le> n" using d by simp
  have S: "0 < real_of_int n * (real_of_int n - 1) / 2" using n by simp
  let ?g = "\<lambda>t d. (1 - spread) * (t / real_of_int n) + spread * (real_of_int d * t / (real_of_int n * (real_of_int n - 1) / 2))"
  have t: "real (unat T) \<le> real (unat T')" using T by (simp only: word_le_nat_alt of_nat_le_iff)
  have up: "?g (real (unat T)) d \<le> ?g (real (unat T')) d"
    using t spread d n S by (intro add_mono mult_left_mono divide_right_mono) simp_all
  have pos: "0 \<le> ?g (real (unat t)) e" if "0 \<le> e" for t :: u64 and e
    using that spread n S by (intro add_nonneg_nonneg mult_nonneg_nonneg divide_nonneg_nonneg of_nat_0_le_iff) simp_all
  have frac: "real_of_int d / (real_of_int n * (real_of_int n - 1) / 2) \<le> 1"
  proof -
    have "d * 2 \<le> n * (n - 1)" using d n mult_mono [of d "n - 1" 2 n] by (simp add: mult.commute)
    then have "real_of_int d * 2 \<le> real_of_int n * (real_of_int n - 1)" by (metis of_int_diff of_int_le_iff of_int_mult of_int_numeral of_int_1)
    then show ?thesis using n by (simp add: field_simps)
  qed
  have "?g (real (unat T')) d \<le> (1 - spread) * real (unat T') + spread * real (unat T')"
  proof (intro add_mono mult_left_mono)
    show "real (unat T') / real_of_int n \<le> real (unat T')" using n mult_left_mono [of 1 "real_of_int n" "real (unat T')", OF _ of_nat_0_le_iff] by (simp add: divide_le_eq)
    show "real_of_int d * real (unat T') / (real_of_int n * (real_of_int n - 1) / 2) \<le> real (unat T')"
      using mult_right_mono [OF frac of_nat_0_le_iff [of "unat T'"]] by (simp add: field_simps)
  qed (use spread in simp_all)
  also have "\<dots> = real (unat T')" by (simp add: algebra_simps)
  also have "\<dots> < 2 ^ 64" by (rule real_word)
  finally show ?thesis using False pos [OF d(1)] up by (simp only: distance_bytes_def if_False) (rule align16_mono)
qed

text \<open>The largest counts of all ranks.\<close>

lemma foldl_max:
  fixes F G :: "int \<Rightarrow> u64"
  shows "(\<forall>i\<in>set is. F i \<le> fst (foldl (\<lambda>(a, b) i. (max a (F i), max b (G i))) (x, y) is)
        \<and> G i \<le> snd (foldl (\<lambda>(a, b) i. (max a (F i), max b (G i))) (x, y) is))
    \<and> x \<le> fst (foldl (\<lambda>(a, b) i. (max a (F i), max b (G i))) (x, y) is)
    \<and> y \<le> snd (foldl (\<lambda>(a, b) i. (max a (F i), max b (G i))) (x, y) is)
    \<and> (\<forall>m. x \<le> m \<and> y \<le> m \<and> (\<forall>i\<in>set is. F i \<le> m \<and> G i \<le> m) \<longrightarrow>
        fst (foldl (\<lambda>(a, b) i. (max a (F i), max b (G i))) (x, y) is) \<le> m
        \<and> snd (foldl (\<lambda>(a, b) i. (max a (F i), max b (G i))) (x, y) is) \<le> m)"
proof (induction "is" arbitrary: x y)
  case (Cons i "is")
  from Cons [of "max x (F i)" "max y (G i)"] show ?case by (auto simp: max.bounded_iff)
qed simp

abbreviation all_max :: "(int \<Rightarrow> int \<Rightarrow> u64) \<Rightarrow> u64 \<Rightarrow> int \<Rightarrow> u64 \<times> u64" where
  "all_max B w n \<equiv> foldl (\<lambda>(max_s, max_r) i. (max max_s (sum_list (map (\<lambda>j. B i j div w) [0..n - 1])),
     max max_r (sum_list (map (\<lambda>j. B j i div w) [0..n - 1])))) (0, 0) [0..n - 1]"

text \<open>No row and no column of the pattern has a sum that wraps.\<close>

definition no_wrap :: "(int \<Rightarrow> int \<Rightarrow> u64) \<Rightarrow> int \<Rightarrow> bool" where
  "no_wrap B n \<longleftrightarrow> (\<forall>r\<in>{0..<n}. before (\<lambda>y. unat (B r y)) 0 n < 2 ^ 64 \<and> before (\<lambda>y. unat (B y r)) 0 n < 2 ^ 64)"

lemma counts_bytes:
  "unat w * before (\<lambda>y. unat (f y div w)) 0 n \<le> before (\<lambda>y. unat (f y :: u64)) 0 n"
  by (simp add: before_def sum_distrib_left unat_div) (intro sum_mono, simp)

lemma row_sum:
  assumes "before (\<lambda>y. unat (f y :: u64)) 0 n < 2 ^ 64" "0 < unat w" "0 \<le> n"
  shows "unat (sum_list (map (\<lambda>j. f j div w) [0..n - 1])) = before (\<lambda>y. unat (f y div w)) 0 n"
proof -
  have "before (\<lambda>y. unat (f y div w)) 0 n \<le> unat w * before (\<lambda>y. unat (f y div w)) 0 n" using assms(2) by simp
  then have "before (\<lambda>y. unat (f y div w)) 0 n < 2 ^ 64" using counts_bytes [of w f n] assms(1) by linarith
  then show ?thesis by (simp only: sum_words sum_upto [OF assms(3)]) (simp add: unat_of_nat_small)
qed

lemma max_counts:
  assumes "no_wrap B n" "0 < unat w" "0 < n"
  shows "r \<in> {0..<n} \<Longrightarrow> before (elt_count B w r) 0 n \<le> unat (fst (all_max B w n))"
    and "r \<in> {0..<n} \<Longrightarrow> before (\<lambda>y. elt_count B w y r) 0 n \<le> unat (snd (all_max B w n))"
    and "\<forall>r\<in>{0..<n}. before (elt_count B w r) 0 n \<le> unat (m :: u64) \<and> before (\<lambda>y. elt_count B w y r) 0 n \<le> unat m \<Longrightarrow>
      unat (fst (all_max B w n)) \<le> unat m \<and> unat (snd (all_max B w n)) \<le> unat m"
proof -
  have set: "set [0..n - 1] = {0..<n}" by auto
  have rows: "unat (sum_list (map (\<lambda>j. B r j div w) [0..n - 1])) = before (elt_count B w r) 0 n"
      "unat (sum_list (map (\<lambda>j. B j r div w) [0..n - 1])) = before (\<lambda>y. elt_count B w y r) 0 n" if "r \<in> {0..<n}" for r
    using row_sum [of "B r" n w] row_sum [of "\<lambda>y. B y r" n w] assms that by (simp_all add: no_wrap_def elt_count_def [abs_def])
  note all = foldl_max [of "[0..n - 1]" "\<lambda>i. sum_list (map (\<lambda>j. B i j div w) [0..n - 1])" "\<lambda>i. sum_list (map (\<lambda>j. B j i div w) [0..n - 1])" 0 0, unfolded set]
  show "before (elt_count B w r) 0 n \<le> unat (fst (all_max B w n))" if "r \<in> {0..<n}"
    by (rule all [THEN conjunct1, THEN bspec, OF that, THEN conjunct1, unfolded word_le_nat_alt rows(1) [OF that]])
  show "before (\<lambda>y. elt_count B w y r) 0 n \<le> unat (snd (all_max B w n))" if "r \<in> {0..<n}"
    by (rule all [THEN conjunct1, THEN bspec, OF that, THEN conjunct2, unfolded word_le_nat_alt rows(2) [OF that]])
  show "unat (fst (all_max B w n)) \<le> unat m \<and> unat (snd (all_max B w n)) \<le> unat m"
    if "\<forall>r\<in>{0..<n}. before (elt_count B w r) 0 n \<le> unat m \<and> before (\<lambda>y. elt_count B w y r) 0 n \<le> unat m"
    by (rule all [THEN conjunct2, THEN conjunct2, THEN conjunct2, THEN spec, THEN mp, unfolded word_le_nat_alt, of m]) (simp add: rows that)
qed

lemma generated_no_wrap:
  assumes "use_generated_pattern st" "0 \<le> distance_weighted_spread st" "distance_weighted_spread st \<le> 1" "0 < n" "n < 2 ^ 31"
  shows "no_wrap (peer_bytes st n T) n"
    and "r \<in> {0..<n} \<Longrightarrow> before (elt_count (peer_bytes st n T) w r) 0 n
      = before (\<lambda>d. unat (distance_bytes (distance_weighted_spread st) T n d div w)) 0 n"
    and "r \<in> {0..<n} \<Longrightarrow> before (\<lambda>y. elt_count (peer_bytes st n T) w y r) 0 n
      = before (\<lambda>d. unat (distance_bytes (distance_weighted_spread st) T n d div w)) 0 n"
proof -
  let ?D = "distance_bytes (distance_weighted_spread st) T n"
  have P: "peer_bytes st n T i j = ?D ((j - i) mod n)" if "i \<in> {0..<n}" "j \<in> {0..<n}" for i j
    using assms(1,5) peer_bytes_distance [of i n j] that by (simp add: peer_bytes_def)
  have row: "before (\<lambda>y. g (peer_bytes st n T r y)) 0 n = before (\<lambda>d. g (?D d)) 0 n" if "r \<in> {0..<n}" for g :: "u64 \<Rightarrow> nat" and r
  proof -
    have "before (\<lambda>y. g (peer_bytes st n T r y)) 0 n = before (\<lambda>j. g (?D ((j - r) mod n))) 0 n"
      unfolding before_def by (rule sum.cong) (simp_all only: P [OF that])
    then show ?thesis using sum_distances(1) [of r n "\<lambda>d. g (?D d)"] that by simp
  qed
  have col: "before (\<lambda>y. g (peer_bytes st n T y r)) 0 n = before (\<lambda>d. g (?D d)) 0 n" if "r \<in> {0..<n}" for g :: "u64 \<Rightarrow> nat" and r
  proof -
    have "before (\<lambda>y. g (peer_bytes st n T y r)) 0 n = before (\<lambda>j. g (?D ((r - j) mod n))) 0 n"
      unfolding before_def by (rule sum.cong) (simp_all only: P [OF _ that])
    then show ?thesis using sum_distances(2) [of r n "\<lambda>d. g (?D d)"] that by simp
  qed
  show "no_wrap (peer_bytes st n T) n"
    unfolding no_wrap_def using row col order_le_less_trans [OF distance_bytes_total [OF assms(2-4)] unsigned_less [of T]] by simp
  show "before (elt_count (peer_bytes st n T) w r) 0 n = before (\<lambda>d. unat (?D d div w)) 0 n" if "r \<in> {0..<n}"
    using row [OF that, of "\<lambda>x. unat (x div w)"] by (simp add: elt_count_def [abs_def])
  show "before (\<lambda>y. elt_count (peer_bytes st n T) w y r) 0 n = before (\<lambda>d. unat (?D d div w)) 0 n" if "r \<in> {0..<n}"
    using col [OF that, of "\<lambda>x. unat (x div w)"] by (simp add: elt_count_def [abs_def])
qed

text \<open>The counts of a run are upper bounds of what every rank sends and receives.\<close>

lemma max_counts_bound:
  assumes spread: "0 \<le> distance_weighted_spread st" "distance_weighted_spread st \<le> 1" and n: "0 < n" "n < 2 ^ 31" and w: "0 < unat w"
    and wrap: "no_wrap (peer_bytes st n T) n"
  defines "c \<equiv> AlltoAllvComputeMaxCounts st w n T"
  shows "r \<in> {0..<n} \<Longrightarrow> before (elt_count (peer_bytes st n T) w r) 0 n \<le> unat (fst c)"
    and "r \<in> {0..<n} \<Longrightarrow> before (\<lambda>y. elt_count (peer_bytes st n T) w y r) 0 n \<le> unat (snd c)"
    and "unat w * unat (snd c) < 2 ^ 64"
proof -
  let ?B = "peer_bytes st n T"
  have bound: "unat w * before (elt_count ?B w r) 0 n < 2 ^ 64 \<and> unat w * before (\<lambda>y. elt_count ?B w y r) 0 n < 2 ^ 64" if "r \<in> {0..<n}" for r
    using that wrap order_le_less_trans [OF counts_bytes [of w "?B r" n]] order_le_less_trans [OF counts_bytes [of w "\<lambda>y. ?B y r" n]]
    by (simp add: no_wrap_def elt_count_def [abs_def])
  have "(\<forall>r\<in>{0..<n}. before (elt_count ?B w r) 0 n \<le> unat (fst c) \<and> before (\<lambda>y. elt_count ?B w y r) 0 n \<le> unat (snd c))
    \<and> unat w * unat (snd c) < 2 ^ 64"
  proof (cases "use_generated_pattern st")
    case True
    have z: "0 \<in> {0..<n}" using n by simp
    have "c = (sum_list (map (\<lambda>j. ?B 0 j div w) [0..n - 1]), sum_list (map (\<lambda>j. ?B 0 j div w) [0..n - 1]))"
      using True by (simp add: c_def AlltoAllvComputeMaxCounts_def peer_bytes_def Let_def)
    moreover have "unat (sum_list (map (\<lambda>j. ?B 0 j div w) [0..n - 1])) = before (elt_count ?B w 0) 0 n"
      using row_sum [of "?B 0" n w] wrap w n z by (simp add: no_wrap_def elt_count_def [abs_def])
    ultimately have c: "unat (fst c) = before (elt_count ?B w 0) 0 n" "unat (snd c) = before (elt_count ?B w 0) 0 n" by simp_all
    show ?thesis using bound [OF z] unfolding c using generated_no_wrap(2,3) [OF True spread n] z by simp
  next
    case False
    have B: "?B = AlltoAllvGetPeerBytesFromMatrix st" using False by (simp add: peer_bytes_def fun_eq_iff)
    have c: "c = all_max ?B w n" using False by (simp add: c_def AlltoAllvComputeMaxCounts_def B Let_def)
    have small: "x \<le> unat ((2 ^ 64 - 1) div w :: u64)" if "unat w * x < 2 ^ 64" for x
    proof -
      have "x * unat w \<le> 2 ^ 64 - 1" using that by (simp add: mult.commute)
      then show ?thesis using w by (simp add: unat_div less_eq_div_iff_mult_less_eq)
    qed
    have "unat (snd c) \<le> unat ((2 ^ 64 - 1) div w :: u64)"
      unfolding c using max_counts(3) [OF wrap w n(1)] bound small by blast
    then have "unat w * unat (snd c) \<le> unat w * ((2 ^ 64 - 1) div unat w)" by (simp add: unat_div)
    also have "\<dots> \<le> 2 ^ 64 - 1" by (rule times_div_less_eq_dividend)
    finally have "unat w * unat (snd c) < 2 ^ 64" by simp
    then show ?thesis unfolding c using max_counts(1,2) [OF wrap w n(1)] by blast
  qed
  then show "r \<in> {0..<n} \<Longrightarrow> before (elt_count ?B w r) 0 n \<le> unat (fst c)"
    and "r \<in> {0..<n} \<Longrightarrow> before (\<lambda>y. elt_count ?B w y r) 0 n \<le> unat (snd c)" and "unat w * unat (snd c) < 2 ^ 64" by blast+
qed

lemma init_spread:
  assumes "0 \<le> distance_weighted_spread st" "distance_weighted_spread st \<le> 1"
  shows "0 \<le> distance_weighted_spread (AlltoAllvInit strtod atoi env files n st)
    \<and> distance_weighted_spread (AlltoAllvInit strtod atoi env files n st) \<le> 1"
proof -
  have "0 \<le> distance_weighted_spread (AlltoAllvParseEnv strtod atoi env st) \<and> distance_weighted_spread (AlltoAllvParseEnv strtod atoi env st) \<le> 1"
    by (simp add: AlltoAllvParseEnv_def Let_def)
  then show ?thesis using assms by (auto simp: AlltoAllvInit_def Let_def split: option.splits)
qed

lemma buff_size_counts:
  assumes "AlltoAllvGetBuffSize strtod atoi env files cnt n st0 = ((sb, rb), st)" "\<not> alltoallv_error_set st"
  shows "st = AlltoAllvInit strtod atoi env files n st0"
    "sb = sendcount (AlltoAllvGetCollByteCount st cnt 1 n)" "rb = recvcount (AlltoAllvGetCollByteCount st cnt 1 n)"
  using assms by (auto simp: AlltoAllvGetBuffSize_def Let_def split: if_splits)

text \<open>The bytes of the pattern at a size and at the largest size.\<close>

abbreviation size_bytes :: "allv \<Rightarrow> u64 \<Rightarrow> u64 \<Rightarrow> int \<Rightarrow> u64" where
  "size_bytes st cnt e n \<equiv> (if use_generated_pattern st then base_count cnt e (u64_of_int n) else 0) * u64_of_int n * e"

lemma size_bytes_mono:
  assumes "bytes \<le> top_bytes"
  shows "size_bytes st (bytes div wordSize ty) (wordSize ty) n \<le> size_bytes st top_bytes 1 n"
proof -
  let ?c = "bytes div wordSize ty" and ?w = "wordSize ty" and ?N = "u64_of_int n"
  have c: "unat ?c * unat ?w \<le> unat top_bytes"
    using div_times_less_eq_dividend [of "unat bytes" "unat ?w"] assms unfolding unat_div word_le_nat_alt by linarith
  note fits = base_count_fits [OF wordSize_width c, of ?N]
  have one: "elt_width (unat (1 :: u64))" by (simp add: elt_width_def)
  have big: "unat (base_count top_bytes 1 ?N * ?N) = unat (base_count top_bytes 1 ?N) * unat ?N" by (rule base_count_times [OF one])
  have "unat (base_count ?c ?w ?N * ?N * ?w) = unat (base_count ?c ?w ?N * ?N) * unat ?w"
    by (rule unat_mult_small) (unfold base_count_times [OF wordSize_width],
      rule order_le_less_trans [OF fits [folded big] unsigned_less])
  then have "unat (base_count ?c ?w ?N * ?N * ?w) \<le> unat (base_count top_bytes 1 ?N * ?N)"
    using fits by (simp only: base_count_times [OF wordSize_width] big)
  then show ?thesis by (simp add: word_le_nat_alt)
qed

lemma run_bytes_size:
  "run_bytes st (allv_args st b ty args) = peer_bytes st (nranks_of args) (size_bytes st (b div wordSize ty) (wordSize ty) (nranks_of args))"
proof -
  have "nbytes (allv_args st b ty args) * u64_of_int (nranks_of args) = size_bytes st (b div wordSize ty) (wordSize ty) (nranks_of args)"
    unfolding allv_args_def setupArgs_def Let_def AlltoAllvGetCollByteCount_def by (simp add: ac_simps)
  then show ?thesis by (auto simp: run_bytes_def peer_bytes_def fun_eq_iff)
qed

lemma peer_bytes_mono:
  assumes "0 \<le> distance_weighted_spread st" "distance_weighted_spread st \<le> 1" "i \<in> {0..<n}" "j \<in> {0..<n}" "n < 2 ^ 31" "T \<le> T'"
  shows "unat (peer_bytes st n T i j) \<le> unat (peer_bytes st n T' i j)"
  using assms peer_bytes_distance [of i n j] by (simp add: peer_bytes_def distance_bytes_mono)

text \<open>C15: the buffers. For every configuration that \<open>AlltoAllvGetBuffSize\<close> accepts for the largest size, every size up to it,
  every element type and every rank: the stream the rank sends fits into the send buffer and the segments it receives fit into the
  receive buffer that have been asked for, and all the elements it receives are among those that are compared. A matrix
  is taken to have rows and columns whose sums are below \<open>2 ^ 64\<close>; in the generated pattern this is
  proved, and there every rank sends and receives exactly the counts of the run.\<close>

theorem allv_fits_buffers:
  assumes wf: "wf_args args" and start: "0 \<le> distance_weighted_spread st0" "distance_weighted_spread st0 \<le> 1"
    and sizes: "AlltoAllvGetBuffSize strtod atoi env files (maxbytes args) (nranks_of args) st0 = ((sb, rb), st)" "\<not> alltoallv_error_set st"
    and wrap: "\<not> use_generated_pattern st \<Longrightarrow> no_wrap (AlltoAllvGetPeerBytesFromMatrix st) (nranks_of args)"
    and b: "bytes \<le> maxbytes args" and a: "a = allv_args st bytes ty args" and r: "r \<in> {0..<nranks_of args}"
  shows "unat (wordSize ty) * before (elt_count (run_bytes st a) (wordSize ty) r) 0 (nranks_of args) \<le> unat sb
    \<and> unat (wordSize ty) * before (\<lambda>y. elt_count (run_bytes st a) (wordSize ty) y r) 0 (nranks_of args) \<le> unat rb
    \<and> before (\<lambda>y. elt_count (run_bytes st a) (wordSize ty) y r) 0 (nranks_of args) \<le> nat (elts ty (expectedBytes a))"
proof -
  let ?n = "nranks_of args" and ?w = "wordSize ty"
  let ?T = "size_bytes st (bytes div ?w) ?w ?n" and ?T' = "size_bytes st (maxbytes args) 1 ?n"
  let ?P = "peer_bytes st ?n ?T" and ?P' = "peer_bytes st ?n ?T'"
  have n: "0 < ?n" "?n < 2 ^ 31" using wf_nranks [OF wf] by simp_all
  note s = buff_size_counts [OF sizes]
  have spread: "0 \<le> distance_weighted_spread st" "distance_weighted_spread st \<le> 1" unfolding s(1) using init_spread [OF start] by blast+
  have wraps: "no_wrap (peer_bytes st ?n T) ?n" for T
    using generated_no_wrap(1) [OF _ spread n] wrap by (cases "use_generated_pattern st") (simp_all add: peer_bytes_def [abs_def])
  have sb: "sb = fst (AlltoAllvComputeMaxCounts st 1 ?n ?T')" and rb: "rb = snd (AlltoAllvComputeMaxCounts st 1 ?n ?T')"
    unfolding s(2,3) AlltoAllvGetCollByteCount_def Let_def by simp_all
  have up: "before (\<lambda>y. unat (?P r y)) 0 ?n \<le> before (elt_count ?P' 1 r) 0 ?n"
      "before (\<lambda>y. unat (?P y r)) 0 ?n \<le> before (\<lambda>y. elt_count ?P' 1 y r) 0 ?n"
    unfolding before_def elt_count_def div_by_1
    by (intro sum_mono peer_bytes_mono [OF spread _ _ n(2) size_bytes_mono [OF b]], use r in simp, assumption)
      (intro sum_mono peer_bytes_mono [OF spread _ _ n(2) size_bytes_mono [OF b]], assumption, use r in simp)
  note max' = max_counts_bound(1,2) [OF spread n _ wraps r, of 1 ?T', folded sb rb]
  have sent: "unat ?w * before (elt_count ?P ?w r) 0 ?n \<le> unat sb"
    using counts_bytes [of ?w "?P r" ?n] up(1) max'(1) unfolding elt_count_def [abs_def] by simp
  have received: "unat ?w * before (\<lambda>y. elt_count ?P ?w y r) 0 ?n \<le> unat rb"
    using counts_bytes [of ?w "\<lambda>y. ?P y r" ?n] up(2) max'(2) unfolding elt_count_def [abs_def] by simp
  let ?c = "AlltoAllvComputeMaxCounts st ?w ?n ?T"
  have e: "expectedBytes a = snd ?c * ?w"
    by (simp add: a allv_args_def setupArgs_def Let_def AlltoAllvGetCollByteCount_def)
  have "unat (snd ?c * ?w) = unat (snd ?c) * unat ?w"
    using max_counts_bound(3) [OF spread n wordSize_pos wraps] by (intro unat_mult_small) (simp add: mult.commute)
  then have "nat (elts ty (expectedBytes a)) = unat (snd ?c)" unfolding e elts_def by (simp add: uint_nat unat_div del: of_nat_unat)
  then have "before (\<lambda>y. elt_count ?P ?w y r) 0 ?n \<le> nat (elts ty (expectedBytes a))"
    using max_counts_bound(2) [OF spread n wordSize_pos wraps r] by simp
  with sent received show ?thesis unfolding a run_bytes_size by simp
qed

section \<open>The whole run\<close>

text \<open>C14: the whole run of the irregular all-to-all, for every element type, every configuration (a matrix from a file or the
  generated pattern) and every number of ranks. Let every rank's data be made by
  \<open>AlltoAllvInitData\<close>, let every rank enqueue what \<open>AlltoAllvRunColl\<close> enqueues for its out-of-place call, with the count of the run, and let the
  streams lie in memory without wrap-around. When the library matches the sends and the receives of the
  group, every receive buffer holds the expected data, element by element and zero in the tail that no rank
  writes, so \<open>CheckData\<close> counts no wrong element and no error.\<close>

theorem allv_correct:
  assumes wf: "wf_args args" and a: "a = allv_args st bytes ty args"
    and call: "\<And>r. r \<in> {0..<nranks_of a} \<Longrightarrow> call_impl (call r) = 0 \<and> \<not> call_in_recv (call r) \<and> call_count (call r) = nbytes a div wordSize ty"
    and fit: "streams_fit (run_bytes st a) (wordSize ty) (nranks_of a) (\<lambda>r. snd (send_ptr (call r))) (\<lambda>r. snd (recv_ptr (call r)))"
    and init: "\<And>r. r \<in> {0..<nranks_of a} \<Longrightarrow> AlltoAllvInitData st a ty rep False r (b r) = Some (m r)"
    and sent: "\<And>r k. r \<in> {0..<nranks_of a} \<Longrightarrow> mem (r, False, unat (snd (send_ptr (call r))) + unat (wordSize ty) * k) = sendbuff (m r) (int k)"
    and old: "\<And>r k. r \<in> {0..<nranks_of a} \<Longrightarrow> k < nat (elts ty (expectedBytes a)) \<Longrightarrow>
      mem (r, True, unat (snd (recv_ptr (call r))) + unat (wordSize ty) * k) = recvbuff (m r) (int k)"
    and m': "\<And>r. r \<in> {0..<nranks_of a} \<Longrightarrow> m' r = (m r)\<lparr>recvbuff := (\<lambda>k.
      run_p2p (wordSize ty) (nranks_of a) 1 (allv_prog st a ty call) mem (r, True, unat (snd (recv_ptr (call r))) + unat (wordSize ty) * nat k))\<rparr>"
  shows "CheckData (allv_report False a) ty NcclSum False m' = Some (0, allv_report False a)"
proof -
  have prog: "\<forall>r\<in>{0..<nranks_of a}. allv_prog st a ty call r
      = allv_group (run_bytes st a) (wordSize ty) (nranks_of a) (\<lambda>r. snd (send_ptr (call r))) (\<lambda>r. snd (recv_ptr (call r))) r"
    using allv_prog_group [OF a] call by blast
  have "the (check_gpu (allv_report False a) ty NcclSum False (rank_of a i) (m' (rank_of a i))) = 0" if "i \<in> set [0..nGpus a - 1]" for i
  proof -
    have "0 \<le> rank_of args i \<and> rank_of args i < nranks_of args" using rank_of_range [OF wf, of i] that by (simp add: a allv_args_def)
    then have r: "rank_of a i \<in> {0..<nranks_of a}" by (simp add: a allv_args_def)
    have "recv_view a ty False (rank_of a i) (m' (rank_of a i)) k = expected (m' (rank_of a i)) k"
      if "0 \<le> k" "k < uint (expectedBytes a div wordSize ty)" for k
    proof -
      have "nat k < nat (elts ty (expectedBytes a))" unfolding elts_def using that by linarith
      from allv_received [OF r fit prog init sent old this] that(1) show ?thesis by (simp add: recv_view_def m' [OF r])
    qed
    then have "{k. 0 \<le> k \<and> k < uint (expectedBytes a div wordSize ty) \<and> int (unat (tolerance ty NcclSum)) <
        \<bar>elt_pattern (elt_size ty) (recv_view a ty False (rank_of a i) (m' (rank_of a i)) k) -
         elt_pattern (elt_size ty) (expected (m' (rank_of a i)) k)\<bar>} = {}"
      by auto
    then show ?thesis unfolding check_gpu_count option.sel allv_report_view by (simp only: card.empty of_nat_0)
  qed
  then have "(\<Sum>i\<leftarrow>[0..nGpus a - 1]. the (check_gpu (allv_report False a) ty NcclSum False (rank_of a i) (m' (rank_of a i)))) = 0"
    by (rule sum_list_zero)
  then show ?thesis by (simp add: CheckData_sum Let_def)
qed

lemma zero_fit: "no_wrap B n \<Longrightarrow> streams_fit B w n (\<lambda>_. 0) (\<lambda>_. 0)"
  using order_le_less_trans [OF counts_bytes [of w "B r" n for r]] order_le_less_trans [OF counts_bytes [of w "\<lambda>y. B y r" n for r]]
  by (simp add: no_wrap_def streams_fit_def elt_count_def [abs_def])

definition example_call :: "threadArgs \<Rightarrow> elt_type \<Rightarrow> coll_call" where
  "example_call a ty = \<lparr>call_in_recv = False, call_send = 0, call_sendoffset = 0, call_recv = 0, call_recvoffset = 0,
     call_count = nbytes a div wordSize ty, call_impl = 0\<rparr>"

theorem allv_correct_witness:
  "\<exists>m'. CheckData (allv_report False (allv_args (allv_start\<lparr>use_generated_pattern := True\<rparr>) 64 NcclInt32 example_args)) NcclInt32 NcclSum False m'
    = Some (0, allv_report False (allv_args (allv_start\<lparr>use_generated_pattern := True\<rparr>) 64 NcclInt32 example_args))"
proof -
  let ?st = "allv_start\<lparr>use_generated_pattern := True\<rparr>" and ?n = "nranks_of example_args"
  let ?a = "allv_args ?st 64 NcclInt32 example_args" and ?w = "wordSize NcclInt32"
  have n: "0 < ?n" "?n < 2 ^ 31" using wf_nranks [OF example_args_wf(1)] by simp_all
  have wrap: "no_wrap (run_bytes ?st ?a) ?n"
    unfolding run_bytes_size by (rule generated_no_wrap(1) [OF _ _ _ n]) (simp_all add: allv_start_def)
  have fit: "streams_fit (run_bytes ?st ?a) ?w (nranks_of ?a) (\<lambda>r. snd (send_ptr (example_call ?a NcclInt32))) (\<lambda>r. snd (recv_ptr (example_call ?a NcclInt32)))"
    using zero_fit [OF wrap] by (simp add: send_ptr_def recv_ptr_def example_call_def)
  have "\<exists>x. AlltoAllvInitData ?st ?a NcclInt32 7 False r undefined = Some x" if "r \<in> {0..<?n}" for r
  proof -
    have f: "unat ?w * before (elt_count (run_bytes ?st ?a) ?w r) 0 ?n < 2 ^ 64"
      "unat ?w * before (\<lambda>y. elt_count (run_bytes ?st ?a) ?w y r) 0 ?n < 2 ^ 64"
      using zero_fit [OF wrap, of ?w] that by (simp_all add: streams_fit_def)
    have "before (elt_count (run_bytes ?st ?a) ?w r) 0 ?n \<le> unat ?w * before (elt_count (run_bytes ?st ?a) ?w r) 0 ?n"
      by simp
    then have s: "before (elt_count (run_bytes ?st ?a) ?w r) 0 ?n < 2 ^ 64" using f(1) by linarith
    show ?thesis
      using allv_init [where args = ?a and rep = 7 and b = undefined and st = ?st and ty = NcclInt32 and r = r] f(2) s that by auto
  qed
  then obtain m where m: "\<And>r. r \<in> {0..<nranks_of ?a} \<Longrightarrow> AlltoAllvInitData ?st ?a NcclInt32 7 False r undefined = Some (m r)"
    by (metis allv_args_simps(1))
  let ?mem = "\<lambda>(r, inrecv, j). (if inrecv then recvbuff (m r) else sendbuff (m r)) (int (j div 4))"
  show ?thesis
    by (rule exI, rule allv_correct [where call = "\<lambda>_. example_call ?a NcclInt32" and b = "\<lambda>_. undefined" and rep = 7 and mem = ?mem,
          OF example_args_wf(1) refl _ fit m _ _ refl])
      (simp_all add: example_call_def send_ptr_def recv_ptr_def)
qed

theorem allv_fits_buffers_witness:
  "\<exists>sb rb st. AlltoAllvGetBuffSize (\<lambda>_. (0, 0, False)) (\<lambda>_. 0) (\<lambda>_. None) (\<lambda>_. None) 4096 4 allv_start = ((sb, rb), st)
    \<and> unat (wordSize NcclInt32) * before (elt_count (run_bytes st (allv_args st 2048 NcclInt32 example_args)) (wordSize NcclInt32) 3) 0 4 \<le> unat sb"
proof -
  obtain sb rb st where sizes: "AlltoAllvGetBuffSize (\<lambda>_. (0, 0, False)) (\<lambda>_. 0) (\<lambda>_. None) (\<lambda>_. None) 4096 4 allv_start = ((sb, rb), st)"
    by (metis prod.collapse)
  then have "use_generated_pattern st" "\<not> alltoallv_error_set st"
    by (auto simp: AlltoAllvGetBuffSize_def AlltoAllvInit_def AlltoAllvParseEnv_def allv_start_def Let_def split: if_splits)
  moreover have n: "nranks_of example_args = 4" by (simp add: example_args_def nranks_of_def)
  moreover have "AlltoAllvGetBuffSize (\<lambda>_. (0, 0, False)) (\<lambda>_. 0) (\<lambda>_. None) (\<lambda>_. None) (maxbytes example_args) (nranks_of example_args) allv_start
      = ((sb, rb), st)" using sizes by (simp add: n)
  moreover have "2048 \<le> maxbytes example_args" by simp
  ultimately have "unat (wordSize NcclInt32) * before (elt_count (run_bytes st (allv_args st 2048 NcclInt32 example_args)) (wordSize NcclInt32) 3) 0 4 \<le> unat sb"
    using allv_fits_buffers [OF example_args_wf(1) _ _, of allv_start "\<lambda>_. (0, 0, False)" "\<lambda>_. 0" "\<lambda>_. None" "\<lambda>_. None" sb rb st 2048
        "allv_args st 2048 NcclInt32 example_args" NcclInt32 3] by (simp add: allv_start_def)
  with sizes show ?thesis by blast
qed

section \<open>Errors of the configuration\<close>

text \<open>What makes a matrix unusable for the ranks and the largest size of a run.\<close>

fun matrix_unusable :: "(nat \<times> u64 list) option \<Rightarrow> int \<Rightarrow> u64 \<Rightarrow> bool" where
  "matrix_unusable None nranks max_bytes = True"
| "matrix_unusable (Some (rows, vals)) nranks max_bytes =
     (int rows < nranks
      \<or> (let needed = all_max (\<lambda>i j. vals ! nat (i * int rows + j)) 1 nranks in max_bytes < max (fst needed) (snd needed)))"

text \<open>C17: the errors of the matrix mode. Let a process that has not been initialised name a matrix file. The sizes of the buffers
  are zero exactly where the matrix cannot be used or needs no bytes; and the
  test ends with the internal error, before any measurement, exactly when the
  file is no matrix, has fewer rows than there are ranks, needs more bytes than \<open>-e\<close> allows, or \<open>-b\<close> and \<open>-e\<close> differ; otherwise
  it measures every type.\<close>

theorem matrix_mode_errors:
  assumes fresh: "\<not> alltoallv_inited st0" "\<not> alltoallv_error_set st0"
    and named: "env ''NCCL_TESTS_ALLTOALLV_MATRIX_FILE'' = Some f"
    and read: "matrix = AlltoAllvReadTrafficMatrix strtod (traffic_matrix_scale (AlltoAllvParseEnv strtod atoi env st0)) (files f)"
    and sizes: "AlltoAllvGetBuffSize strtod atoi env files (maxbytes args) n st0 = (sz, st)"
  shows "AlltoAllvRunTest st TimeTest tb args ty typeName s =
      (if matrix_unusable matrix n (maxbytes args) \<or> minbytes args \<noteq> maxbytes args then (TestInternalError, s)
       else time_tests TimeTest (map (\<lambda>(t, k). (t, k, tab_zero_op tb, ''none'', -1)) (run_types tb ty typeName)) s)
    \<and> sz = (case matrix of Some (rows, vals) \<Rightarrow>
        if matrix_unusable matrix n (maxbytes args) then (0, 0) else all_max (\<lambda>i j. vals ! nat (i * int rows + j)) 1 n | None \<Rightarrow> (0, 0))"
proof (cases matrix)
  case None
  then show ?thesis
    using fresh named read sizes
    by (auto simp: AlltoAllvGetBuffSize_def AlltoAllvInit_def AlltoAllvRunTest_def Let_def AlltoAllvParseEnv_def)
next
  case (Some d)
  obtain rows vals where d: "d = (rows, vals)" by (cases d)
  let ?p = "AlltoAllvParseEnv strtod atoi env st0"
  define u where "u = ?p\<lparr>use_generated_pattern := False, traffic_matrix_dim := int rows, traffic_matrix_data := vals, alltoallv_inited := True\<rparr>"
  define M where "M = all_max (\<lambda>i j. vals ! nat (i * int rows + j)) 1 n"
  have p: "traffic_matrix_file ?p = Some f" "\<not> alltoallv_error_set ?p" using named fresh by (simp_all add: AlltoAllvParseEnv_def Let_def)
  have u: "\<not> use_generated_pattern u" "\<not> alltoallv_error_set u" using p by (simp_all add: u_def)
  have rd: "AlltoAllvReadTrafficMatrix strtod (traffic_matrix_scale ?p) (files f) = Some (rows, vals)" using read Some d by simp
  have init: "AlltoAllvInit strtod atoi env files n st0 = (if int rows < n then u\<lparr>alltoallv_error_set := True\<rparr> else u)"
    using p fresh(1) rd by (simp add: AlltoAllvInit_def Let_def u_def)
  have "sendcount (AlltoAllvGetCollByteCount u cnt 1 n) = fst M" "recvcount (AlltoAllvGetCollByteCount u cnt 1 n) = snd M" for cnt
    using u(1) by (simp_all add: M_def AlltoAllvGetCollByteCount_def AlltoAllvComputeMaxCounts_def AlltoAllvGetPeerBytesFromMatrix_def Let_def)
      (simp_all add: u_def)
  then have "AlltoAllvGetBuffSize strtod atoi env files cnt n st0 =
      (if int rows < n \<or> cnt < max (fst M) (snd M) then ((0, 0), u\<lparr>alltoallv_error_set := True\<rparr>) else (M, u))" for cnt
    using u by (cases "int rows < n") (simp_all only: AlltoAllvGetBuffSize_def init Let_def, simp_all)
  moreover have "matrix_unusable matrix n cnt \<longleftrightarrow> int rows < n \<or> cnt < max (fst M) (snd M)" for cnt
    unfolding Some d M_def by (simp add: Let_def)
  ultimately have made: "(sz, st) = (if matrix_unusable matrix n (maxbytes args) then ((0, 0), u\<lparr>alltoallv_error_set := True\<rparr>) else (M, u))"
    using sizes by simp
  have "(case matrix of Some (rows, vals) \<Rightarrow> if matrix_unusable matrix n (maxbytes args) then (0, 0)
      else all_max (\<lambda>i j. vals ! nat (i * int rows + j)) 1 n | None \<Rightarrow> (0, 0)) = (if matrix_unusable matrix n (maxbytes args) then (0, 0) else M)"
    by (simp only: Some d M_def option.case prod.case)
  then show ?thesis
    using made u by (cases "matrix_unusable matrix n (maxbytes args)") (simp_all add: AlltoAllvRunTest_def)
qed

text \<open>Two ranks, the matrix of the example doubled, and buffers of 224 bytes.\<close>

lemma example_matrix_read: "AlltoAllvReadTrafficMatrix digits_strtod 2 (Some example_matrix) = Some (2, [192, 32, 0, 16])"
proof -
  have words: "words_of (takeWhile (\<lambda>c. c \<noteq> CHR 0x00) example_matrix) = [''100'', ''20'', ''7'', ''8'']"
    using file_words [of "takeWhile (\<lambda>c. c \<noteq> CHR 0x00) example_matrix"] by (simp add: example_rows)
  note facts = example_rows good_word_def word_bytes_def example_digits align16_def size_max_def
  show ?thesis
    using second_pass_words [OF digits_read_words, of "takeWhile (\<lambda>c. c \<noteq> CHR 0x00) example_matrix" 2 "[]" "Suc (Suc (Suc (Suc 0)))"]
    unfolding AlltoAllvReadTrafficMatrix_def option.case Let_def matrix_shape_rows [OF digits_read_words] all_good_words words
    by (simp add: facts)
qed

theorem matrix_mode_errors_witness:
  "\<exists>st. AlltoAllvGetBuffSize digits_strtod (\<lambda>_. 0) [''NCCL_TESTS_ALLTOALLV_MATRIX_FILE'' \<mapsto> ''m'', ''NCCL_TESTS_ALLTOALLV_MATRIX_SCALE'' \<mapsto> ''2'']
      [''m'' \<mapsto> example_matrix] 224 2 allv_start = ((224, 192), st)
    \<and> AlltoAllvRunTest st (\<lambda>_ n. (TestSuccess, n + 1)) all_tables (example_args\<lparr>minbytes := 224, maxbytes := 224\<rparr>) (Some NcclInt8) ''int8'' (0 :: nat) = (TestSuccess, 1)
    \<and> AlltoAllvRunTest st (\<lambda>_ n. (TestSuccess, n + 1)) all_tables (example_args\<lparr>minbytes := 16, maxbytes := 224\<rparr>) (Some NcclInt8) ''int8'' (0 :: nat) = (TestInternalError, 0)"
proof -
  let ?env = "[''NCCL_TESTS_ALLTOALLV_MATRIX_FILE'' \<mapsto> ''m'', ''NCCL_TESTS_ALLTOALLV_MATRIX_SCALE'' \<mapsto> ''2'']"
  obtain sz st where run: "AlltoAllvGetBuffSize digits_strtod (\<lambda>_. 0) ?env [''m'' \<mapsto> example_matrix] 224 2 allv_start = (sz, st)" by (cases rule: prod.exhaust)
  have scale: "traffic_matrix_scale (AlltoAllvParseEnv digits_strtod (\<lambda>_. 0) ?env allv_start) = 2"
    by (simp add: AlltoAllvParseEnv_def allv_start_def env_number_def digits_strtod_def is_digit_def Let_def)
  have M: "all_max (\<lambda>i j. [192, 32, 0, 16 :: u64] ! nat (i * int 2 + j)) 1 2 = (224, 192)" by (simp add: upto_rec1)
  have read: "Some (2, [192, 32, 0, 16]) = AlltoAllvReadTrafficMatrix digits_strtod
      (traffic_matrix_scale (AlltoAllvParseEnv digits_strtod (\<lambda>_. 0) ?env allv_start)) ([''m'' \<mapsto> example_matrix] ''m'')"
    unfolding scale by (simp add: example_matrix_read)
  have start: "\<not> alltoallv_inited allv_start" "\<not> alltoallv_error_set allv_start" by (simp_all add: allv_start_def)
  have unus: "\<not> matrix_unusable (Some (2, [192, 32, 0, 16])) 2 224" unfolding matrix_unusable.simps M Let_def by simp
  note all = matrix_mode_errors [where f = "''m''" and files = "[''m'' \<mapsto> example_matrix]" and strtod = digits_strtod and atoi = "\<lambda>_. 0"
      and env = ?env and n = 2 and sz = sz and st = st and tb = all_tables and ty = "Some NcclInt8" and typeName = "''int8''"
      and TimeTest = "\<lambda>_ n. (TestSuccess, n + 1)" and s = "0 :: nat", OF start _ read]
  note small = all [where args = "example_args\<lparr>minbytes := 16, maxbytes := 224\<rparr>"] and equal = all [where args = "example_args\<lparr>minbytes := 224, maxbytes := 224\<rparr>"]
  show ?thesis
    using run small equal unus by (simp add: run_types_def upto_rec1 del: matrix_unusable.simps)
qed

end
