(* ===== verification/NcclRounding.thy ===== *)
theory NcclRounding
  imports NcclPrelude
begin

text \<open>
  Rounding to the numbers of type \<open>double\<close> (53 significant bits) and \<open>float\<close> (24 bits), to nearest with ties to even, as the
  operations on them and their conversions do. A number is a real number here; its exponent is not bounded, which is right for values that are neither
  tiny (below the smallest normal number) nor as large as the largest number.
\<close>

section \<open>Rounding\<close>

definition nearest_even :: "real \<Rightarrow> int" where
  "nearest_even x = (let f = \<lfloor>x\<rfloor>; d = x - real_of_int f in if d < 1 / 2 \<or> d = 1 / 2 \<and> even f then f else f + 1)"

text \<open>The unit in the last place of a number with \<open>p\<close> significant bits.\<close>

definition last_place :: "nat \<Rightarrow> real \<Rightarrow> real" where
  "last_place p x = 2 powr real_of_int (\<lfloor>log 2 \<bar>x\<bar>\<rfloor> - (int p - 1))"

definition round_bits :: "nat \<Rightarrow> real \<Rightarrow> real" where
  "round_bits p x =
     (if x = 0 then 0 else sgn x * (real_of_int (nearest_even (\<bar>x\<bar> / last_place p x)) * last_place p x))"

abbreviation dbl :: "real \<Rightarrow> real" where "dbl \<equiv> round_bits 53"
abbreviation flt :: "real \<Rightarrow> real" where "flt \<equiv> round_bits 24"

lemma nearest_even_int [simp]: "nearest_even (real_of_int n) = n"
  by (simp add: nearest_even_def)

lemma nearest_even_near: "\<bar>real_of_int (nearest_even x) - x\<bar> \<le> 1 / 2"
proof -
  have "x - real_of_int \<lfloor>x\<rfloor> < 1" "0 \<le> x - real_of_int \<lfloor>x\<rfloor>" by linarith+
  then show ?thesis unfolding nearest_even_def Let_def by (cases "x - real_of_int \<lfloor>x\<rfloor> < 1 / 2") auto
qed

lemma nearest_even_mono: "x \<le> y \<Longrightarrow> nearest_even x \<le> nearest_even y"
proof -
  assume le: "x \<le> y"
  consider "\<lfloor>x\<rfloor> = \<lfloor>y\<rfloor>" | "\<lfloor>x\<rfloor> < \<lfloor>y\<rfloor>" using floor_mono [OF le] by linarith
  then show ?thesis
  proof cases
    case 1
    then show ?thesis using le by (auto simp: nearest_even_def Let_def)
  next
    case 2
    then show ?thesis by (auto simp: nearest_even_def Let_def)
  qed
qed

lemma nearest_even_ge: "real_of_int n \<le> x \<Longrightarrow> n \<le> nearest_even x"
  using nearest_even_mono [of "real_of_int n" x] by simp

lemma nearest_even_le: "x \<le> real_of_int n \<Longrightarrow> nearest_even x \<le> n"
  using nearest_even_mono [of x "real_of_int n"] by simp

lemma last_place_pos [simp]: "0 < last_place p x" "last_place p x \<noteq> 0"
  by (simp_all add: last_place_def)

text \<open>The significand of a positive number is in \<open>[2 ^ (p - 1), 2 ^ p)\<close>.\<close>

lemma significand:
  assumes "0 < x" "0 < p"
  shows "2 ^ (p - 1) \<le> x / last_place p x" "x / last_place p x < 2 ^ p"
proof -
  let ?k = "\<lfloor>log 2 x\<rfloor>"
  have k: "2 powr real_of_int ?k \<le> x" "x < 2 powr (real_of_int ?k + 1)"
    using floor_log_eq_powr_iff [of x 2 ?k] assms(1) by simp_all
  have l: "last_place p x = 2 powr real_of_int ?k / 2 ^ (p - 1)"
    using assms by (simp add: last_place_def powr_diff powr_realpow [symmetric] of_nat_diff)
  have two: "(2 :: real) ^ p = 2 * 2 ^ (p - 1)" using assms(2) by (cases p) simp_all
  show "2 ^ (p - 1) \<le> x / last_place p x" using k(1) by (simp add: l field_simps)
  show "x / last_place p x < 2 ^ p" using k(2) by (simp add: l two powr_add field_simps)
qed

lemma round_bits_pos:
  "0 < x \<Longrightarrow> round_bits p x = real_of_int (nearest_even (x / last_place p x)) * last_place p x"
  by (simp add: round_bits_def)

lemma round_bits_minus: "round_bits p (- x) = - round_bits p x"
  by (simp add: round_bits_def last_place_def sgn_minus)

lemma round_bits_0 [simp]: "round_bits p 0 = 0"
  by (simp add: round_bits_def)

text \<open>Exactly representable: an integer of at most \<open>p\<close> bits.\<close>

lemma round_bits_int:
  assumes "0 < p" "\<bar>n\<bar> \<le> 2 ^ p"
  shows "round_bits p (real_of_int n) = real_of_int n"
proof -
  have pos: "round_bits p (real_of_int m) = real_of_int m" if m: "0 < m" "m \<le> 2 ^ p" for m
  proof -
    let ?k = "\<lfloor>log 2 (real_of_int m)\<rfloor>"
    have k0: "0 \<le> ?k" using m(1) by simp
    have exact: "\<exists>q. real_of_int m / last_place p (real_of_int m) = real_of_int q"
    proof (cases "m = 2 ^ p")
      case True
      have "log 2 (real_of_int m) = real p" by (simp add: True log_nat_power)
      then have "last_place p (real_of_int m) = 2" using m(1) by (simp only: last_place_def abs_of_pos of_int_0_less_iff floor_of_nat) simp
      moreover have "real_of_int m / 2 = real_of_int (2 ^ (p - 1))" using True assms(1) by (cases p) simp_all
      ultimately show ?thesis by metis
    next
      case False
      with m have "m < 2 ^ p" by simp
      then have "real_of_int m < 2 powr real p" by (metis of_int_less_iff of_int_numeral of_int_power powr_realpow zero_less_numeral)
      then have "?k < int p" using m(1) by (simp add: floor_less_iff log_less_iff)
      then have "?k - (int p - 1) = - int (p - 1 - nat ?k)" using k0 by linarith
      then have "last_place p (real_of_int m) = 1 / 2 ^ (p - 1 - nat ?k)"
        using m(1) by (simp only: last_place_def abs_of_pos of_int_0_less_iff) (simp add: powr_minus powr_realpow divide_inverse del: of_nat_diff)
      then have "real_of_int m / last_place p (real_of_int m) = real_of_int (m * 2 ^ (p - 1 - nat ?k))" by simp
      then show ?thesis by blast
    qed
    then obtain q where q: "real_of_int m / last_place p (real_of_int m) = real_of_int q" ..
    then have "real_of_int q * last_place p (real_of_int m) = real_of_int m" by (simp add: field_simps)
    with q show ?thesis using m(1) by (simp add: round_bits_pos)
  qed
  consider "n = 0" | "0 < n" | "n < 0" by linarith
  then show ?thesis
  proof cases
    case 3
    then have "round_bits p (real_of_int (- n)) = real_of_int (- n)" using assms(2) by (intro pos) auto
    then show ?thesis by (simp add: round_bits_minus)
  qed (use pos [of n] assms(2) in auto)
qed

lemma round_bits_nonneg: "0 \<le> x \<Longrightarrow> 0 \<le> round_bits p x"
proof (cases "x = 0")
  case False
  assume "0 \<le> x"
  with False have x: "0 < x" by simp
  have "0 \<le> nearest_even (x / last_place p x)" using x by (intro nearest_even_ge) (simp add: less_imp_le)
  then show ?thesis using less_imp_le [OF last_place_pos(1)] x by (simp add: round_bits_pos)
qed simp

lemma round_bits_mono:
  assumes "x \<le> y" "0 < p"
  shows "round_bits p x \<le> round_bits p y"
proof -
  have pos: "round_bits p x \<le> round_bits p y" if xy: "0 < x" "x \<le> y" for x y
  proof -
    have y: "0 < y" using xy by simp
    let ?i = "\<lfloor>log 2 x\<rfloor>" and ?j = "\<lfloor>log 2 y\<rfloor>"
    have "?i \<le> ?j" using xy y by (intro floor_mono) simp
    then consider "?i = ?j" | "?i + 1 \<le> ?j" by linarith
    then show ?thesis
    proof cases
      case 1
      then have l: "last_place p x = last_place p y" using xy y by (simp add: last_place_def)
      have "nearest_even (x / last_place p y) \<le> nearest_even (y / last_place p y)" using xy by (intro nearest_even_mono divide_right_mono) (simp_all add: less_imp_le)
      then show ?thesis using xy y l by (simp add: round_bits_pos mult_right_mono)
    next
      case 2
      have l: "last_place p z = 2 powr real_of_int \<lfloor>log 2 z\<rfloor> / 2 ^ (p - 1)" if "0 < z" for z
        using that assms(2) by (simp add: last_place_def powr_diff powr_realpow [symmetric] of_nat_diff)
      have "nearest_even (x / last_place p x) \<le> 2 ^ p"
        using significand(2) [OF xy(1) assms(2)] by (intro nearest_even_le) simp
      then have "real_of_int (nearest_even (x / last_place p x)) \<le> 2 ^ p" by (metis of_int_le_iff of_int_numeral of_int_power)
      then have "round_bits p x \<le> 2 ^ p * last_place p x" using xy by (simp add: round_bits_pos mult_right_mono)
      also have "\<dots> = 2 powr (real_of_int ?i + 1)"
      proof -
        have two: "(2 :: real) ^ p = 2 * 2 ^ (p - 1)" using assms(2) by (cases p) simp_all
        show ?thesis by (simp add: l [OF xy(1)] two powr_add)
      qed
      also have "\<dots> \<le> 2 powr real_of_int ?j" using 2 by simp
      also have "\<dots> = 2 ^ (p - 1) * last_place p y" by (simp add: l [OF y])
      also have "\<dots> \<le> round_bits p y"
      proof -
        have "2 ^ (p - 1) \<le> nearest_even (y / last_place p y)" using significand(1) [OF y assms(2)] by (intro nearest_even_ge) simp
        then have "2 ^ (p - 1) \<le> real_of_int (nearest_even (y / last_place p y))" by (metis of_int_le_iff of_int_numeral of_int_power)
        then show ?thesis using y by (simp add: round_bits_pos mult_right_mono)
      qed
      finally show ?thesis .
    qed
  qed
  consider "0 < x" | "x \<le> 0" "0 \<le> y" | "y < 0" using assms(1) by linarith
  then show ?thesis
  proof cases
    case 1
    then show ?thesis using assms(1) by (rule pos)
  next
    case 2
    then have "0 \<le> round_bits p (- x)" "0 \<le> round_bits p y" by (simp_all add: round_bits_nonneg)
    then show ?thesis by (simp add: round_bits_minus)
  next
    case 3
    then have "round_bits p (- y) \<le> round_bits p (- x)" using assms(1) by (intro pos) simp_all
    then show ?thesis by (simp add: round_bits_minus)
  qed
qed

text \<open>The relative error, of at most half a unit in the last place.\<close>

lemma round_bits_error:
  assumes "0 \<le> x" "0 < p"
  shows "(1 - 1 / 2 ^ p) * x \<le> round_bits p x" "round_bits p x \<le> (1 + 1 / 2 ^ p) * x"
proof -
  have "\<bar>round_bits p x - x\<bar> \<le> x / 2 ^ p"
  proof (cases "x = 0")
    case False
    then have x: "0 < x" using assms(1) by simp
    let ?l = "last_place p x"
    have "round_bits p x - x = (real_of_int (nearest_even (x / ?l)) - x / ?l) * ?l" using x by (simp add: round_bits_pos field_simps)
    then have "\<bar>round_bits p x - x\<bar> = \<bar>real_of_int (nearest_even (x / ?l)) - x / ?l\<bar> * ?l" by (simp add: abs_mult less_imp_le)
    also have "\<dots> \<le> 1 / 2 * ?l" by (rule mult_right_mono [OF nearest_even_near]) (simp add: less_imp_le)
    also have "\<dots> \<le> x / 2 ^ p"
    proof -
      have two: "(2 :: real) ^ p = 2 * 2 ^ (p - 1)" using assms(2) by (cases p) simp_all
      show ?thesis using significand(1) [OF x assms(2)] by (simp add: two field_simps)
    qed
    finally show ?thesis .
  qed simp
  then show "(1 - 1 / 2 ^ p) * x \<le> round_bits p x" "round_bits p x \<le> (1 + 1 / 2 ^ p) * x"
    by (auto simp: abs_le_iff algebra_simps)
qed

text \<open>To compute with a number that is not small: \<open>m\<close> is its significand, a multiple of \<open>2 ^ e\<close>.\<close>

lemma round_bits_compute:
  assumes "0 < p" "2 ^ (p - 1 + e) \<le> x" "x < 2 ^ (p + e)"
  shows "round_bits p x = real_of_int (nearest_even (x / 2 ^ e)) * 2 ^ e"
proof -
  have x: "0 < x" using assms(2) by (meson less_le_trans zero_less_numeral zero_less_power)
  have "2 powr real (p - 1 + e) \<le> x" "x < 2 powr (real (p - 1 + e) + 1)"
    using assms by (simp_all add: powr_realpow [symmetric] of_nat_diff)
  then have "\<lfloor>log 2 x\<rfloor> = int (p - 1 + e)" using floor_log_eq_powr_iff [of x 2 "int (p - 1 + e)"] x by simp
  then have "last_place p x = 2 ^ e" using assms(1) x by (simp add: last_place_def powr_realpow of_nat_diff)
  then show ?thesis using x by (simp add: round_bits_pos)
qed

text \<open>A number is rounded as its double or its half is.\<close>

lemma round_bits_scale: "round_bits p (x * 2 ^ k) = round_bits p x * 2 ^ k"
proof (cases "x = 0")
  case False
  have "log 2 \<bar>x * 2 ^ k\<bar> = log 2 \<bar>x\<bar> + real k" using False by (simp add: abs_mult log_mult log_nat_power)
  then have "\<lfloor>log 2 \<bar>x * 2 ^ k\<bar>\<rfloor> = \<lfloor>log 2 \<bar>x\<bar>\<rfloor> + int k" by (metis floor_add_int of_int_of_nat_eq)
  then have "last_place p (x * 2 ^ k) = 2 powr (real_of_int (\<lfloor>log 2 \<bar>x\<bar>\<rfloor> - (int p - 1)) + real k)" by (simp add: last_place_def algebra_simps)
  then have l: "last_place p (x * 2 ^ k) = last_place p x * 2 ^ k" by (simp only: last_place_def powr_add) (simp add: powr_realpow)
  show ?thesis using False by (simp add: round_bits_def l abs_mult sgn_mult)
qed simp

lemma round_bits_fraction:
  assumes "0 < p" "\<bar>n\<bar> \<le> 2 ^ p"
  shows "round_bits p (real_of_int n / 2 ^ k) = real_of_int n / 2 ^ k"
  using round_bits_scale [of p "real_of_int n / 2 ^ k" k] round_bits_int [OF assms] by (simp add: field_simps)

text \<open>Powers of two.\<close>

lemma round_bits_power: "0 < p \<Longrightarrow> round_bits p (2 ^ k) = 2 ^ k"
  using round_bits_scale [of p 1 k] round_bits_int [of p 1] by simp

end
