(* ===== verification/CommOps.thy ===== *)
theory CommOps
  imports NcclRounding
begin

text \<open>
  The test of communicator operations (src/comm_ops.cu), first part: its command line, the sweep over the sizes of the
  communicator, the ranks that host a root, and the colors of a split. Numbers of type \<open>double\<close> are real numbers; what the sweep computes
  with them is rounded as in the code, and the quotient and difference of \<open>pick_color\<close> are exact.
\<close>

section \<open>Arguments\<close>

datatype test_kind = Test_init | Test_split | Test_shrink | Test_grow
datatype step_kind = Kind_factor | Kind_step | Kind_fixed

record comm_args =
  ca_timing_flush_interval :: int
  ca_warmup :: int
  ca_resize_kind :: step_kind
  ca_resize_num :: real
  ca_iterations :: int
  ca_work_iterations :: int
  ca_test_kind :: test_kind
  ca_aborts :: bool
  ca_beginranks :: int
  ca_endranks :: int
  ca_sweep_kind :: step_kind
  ca_sweep_num :: real
  ca_verbose :: int
  ca_nccl_only :: int
  ca_share :: bool
  ca_root_every :: int

definition default_args :: comm_args where
  "default_args = \<lparr>ca_timing_flush_interval = 1, ca_warmup = 1, ca_resize_kind = Kind_factor, ca_resize_num = 2, ca_iterations = 2,
     ca_work_iterations = 2, ca_test_kind = Test_init, ca_aborts = False, ca_beginranks = 0, ca_endranks = 0, ca_sweep_kind = Kind_factor,
     ca_sweep_num = 2, ca_verbose = 0, ca_nccl_only = 1, ca_share = False, ca_root_every = 0\<rparr>"

text \<open>\<open>strtod\<close> gives a finite number, or none when it sets \<open>errno\<close>. The result is true when the argument is rejected.\<close>

definition parse_number :: "(string \<Rightarrow> real option) \<Rightarrow> step_kind \<Rightarrow> string \<Rightarrow> bool \<times> step_kind \<times> real" where
  "parse_number strtod kind numpart =
     (case strtod numpart of
        None \<Rightarrow> (True, kind, 0)
      | Some num \<Rightarrow>
          if num \<le> 0 then (True, kind, num)
          else if kind = Kind_factor \<and> num < 1 then (False, kind, dbl (1 / num)) else (False, kind, num))"

definition parse_step_kinds :: "(string \<Rightarrow> real option) \<Rightarrow> string \<Rightarrow> step_kind \<Rightarrow> bool \<times> step_kind \<times> real" where
  "parse_step_kinds strtod arg kind =
     (if take 7 arg = ''factor-'' then parse_number strtod Kind_factor (drop 7 arg)
      else if take 5 arg = ''step-'' then parse_number strtod Kind_step (drop 5 arg)
      else if take 5 arg = ''fixed'' then (False, Kind_fixed, 0)
      else (False, kind, 0))"

text \<open>The test is the first argument.\<close>

definition parse_test :: "string \<Rightarrow> test_kind option" where
  "parse_test s =
     (if s = ''init'' then Some Test_init else if s = ''split'' then Some Test_split
      else if s = ''shrink'' then Some Test_shrink else if s = ''grow'' then Some Test_grow else None)"

text \<open>One option, as \<open>getopt_long\<close> returns it; None where the program ends.\<close>

definition parse_option :: "(string \<Rightarrow> int) \<Rightarrow> (string \<Rightarrow> real option) \<Rightarrow> char \<times> string \<Rightarrow> comm_args \<Rightarrow> comm_args option" where
  "parse_option atoi strtod opt a =
     (let optarg = snd opt; c = fst opt in
      if c = CHR ''a'' then Some (a\<lparr>ca_aborts := True\<rparr>)
      else if c = CHR ''b'' then Some (a\<lparr>ca_beginranks := atoi optarg\<rparr>)
      else if c = CHR ''e'' then Some (a\<lparr>ca_endranks := atoi optarg\<rparr>)
      else if c = CHR ''s'' then
        (case parse_step_kinds strtod optarg (ca_sweep_kind a) of
           (rejected, kind, num) \<Rightarrow> if rejected then None else Some (a\<lparr>ca_sweep_kind := kind, ca_sweep_num := num\<rparr>))
      else if c = CHR ''F'' then (if atoi optarg \<le> 0 then None else Some (a\<lparr>ca_timing_flush_interval := atoi optarg\<rparr>))
      else if c = CHR ''i'' then Some (a\<lparr>ca_iterations := atoi optarg\<rparr>)
      else if c = CHR ''r'' then
        (case parse_step_kinds strtod optarg (ca_resize_kind a) of
           (rejected, kind, num) \<Rightarrow> if rejected then None else Some (a\<lparr>ca_resize_kind := kind, ca_resize_num := num\<rparr>))
      else if c = CHR ''A'' then Some (a\<lparr>ca_nccl_only := 0\<rparr>)
      else if c = CHR ''R'' then Some (a\<lparr>ca_root_every := atoi optarg\<rparr>)
      else if c = CHR ''S'' then Some (a\<lparr>ca_share := True\<rparr>)
      else if c = CHR ''v'' then Some (a\<lparr>ca_verbose := 1\<rparr>)
      else if c = CHR ''w'' then (if atoi optarg < 0 then None else Some (a\<lparr>ca_warmup := atoi optarg\<rparr>))
      else if c = CHR ''W'' then Some (a\<lparr>ca_work_iterations := atoi optarg\<rparr>)
      else None)"

fun parse_options :: "(string \<Rightarrow> int) \<Rightarrow> (string \<Rightarrow> real option) \<Rightarrow> (char \<times> string) list \<Rightarrow> comm_args \<Rightarrow> comm_args option" where
  "parse_options atoi strtod [] a = Some a"
| "parse_options atoi strtod (opt # opts) a = Option.bind (parse_option atoi strtod opt a) (parse_options atoi strtod opts)"

text \<open>The range of the sweep, and its direction.\<close>

definition sweep_range :: "int \<Rightarrow> comm_args \<Rightarrow> comm_args" where
  "sweep_range nranks a =
     (let b = (if ca_beginranks a = 0 then nranks else ca_beginranks a);
          e = (if ca_endranks a = 0 then 1 else ca_endranks a)
      in a\<lparr>ca_beginranks := min (max b 0) nranks, ca_endranks := min (max e 0) nranks\<rparr>)"

text \<open>A factor of zero (left by an unknown kind) has an infinite inverse: None. The number of ranks of the next size is
  then undefined.\<close>

definition sweep_direction :: "comm_args \<Rightarrow> comm_args option" where
  "sweep_direction a =
     (let up = (ca_beginranks a < ca_endranks a) in
      if ca_sweep_kind a = Kind_factor then
        (if up \<noteq> (ca_sweep_num a > 1)
         then (if ca_sweep_num a = 0 then None else Some (a\<lparr>ca_sweep_num := dbl (1 / ca_sweep_num a)\<rparr>)) else Some a)
      else if ca_sweep_kind a = Kind_step then
        (if up \<noteq> (ca_sweep_num a > 0) then Some (a\<lparr>ca_sweep_num := - ca_sweep_num a\<rparr>) else Some a)
      else Some a)"

datatype args_error = Args_rejected | Args_infinite

definition parse_args :: "(string \<Rightarrow> int) \<Rightarrow> (string \<Rightarrow> real option) \<Rightarrow> string \<Rightarrow> (char \<times> string) list \<Rightarrow> int \<Rightarrow> args_error + comm_args" where
  "parse_args atoi strtod test opts nranks =
     (case parse_test test of None \<Rightarrow> Inl Args_rejected | Some kind \<Rightarrow>
       (case parse_options atoi strtod opts (default_args\<lparr>ca_test_kind := kind\<rparr>) of None \<Rightarrow> Inl Args_rejected | Some a \<Rightarrow>
         (let a' = sweep_range nranks a in
          if ca_test_kind a' = Test_split \<and> ca_share a' \<and> ca_aborts a' then Inl Args_rejected
          else (case sweep_direction a' of None \<Rightarrow> Inl Args_infinite | Some a'' \<Rightarrow> Inr a''))))"

section \<open>The sweep over the sizes\<close>

text \<open>\<open>roundf\<close> takes a \<open>float\<close> and rounds halves away from zero. A conversion to \<open>int\<close> or an addition of \<open>int\<close> out of its range is
  undefined: \<^const>\<open>None\<close> (on x86 the conversion gives the smallest \<open>int\<close>).\<close>

definition roundf :: "real \<Rightarrow> int" where
  "roundf x = (let y = flt x in if y \<ge> 0 then \<lfloor>y + 1 / 2\<rfloor> else - \<lfloor>- y + 1 / 2\<rfloor>)"

definition as_int :: "int \<Rightarrow> int option" where
  "as_int n = (if - (2 ^ 31) \<le> n \<and> n < 2 ^ 31 then Some n else None)"

definition next_step :: "comm_args \<Rightarrow> int \<Rightarrow> int option" where
  "next_step a current =
     (if ca_sweep_kind a = Kind_fixed then Some 0
      else Option.bind
        (if ca_sweep_kind a = Kind_factor then as_int (roundf (dbl (real_of_int current * ca_sweep_num a)))
         else Option.bind (as_int (roundf (ca_sweep_num a))) (\<lambda>step. as_int (current + step)))
        (\<lambda>nxt. if nxt = current then as_int (nxt + (if ca_beginranks a < ca_endranks a then 1 else - 1)) else Some nxt))"

definition keep_testing :: "comm_args \<Rightarrow> int \<Rightarrow> bool" where
  "keep_testing a current =
     (if ca_beginranks a = ca_endranks a then current = ca_endranks a
      else if ca_beginranks a < ca_endranks a then current \<le> ca_endranks a else current \<ge> ca_endranks a)"

text \<open>The sizes \<open>main\<close> tests, and whether the sweep ends behind them or the size after them is undefined; the loop need not end.\<close>

datatype sweep_outcome = Sweep_ended | Size_undefined

partial_function (option) comm_sweep :: "comm_args \<Rightarrow> int \<Rightarrow> (int list \<times> sweep_outcome) option" where
  "comm_sweep a nrank_test =
     (if keep_testing a nrank_test
      then (case next_step a nrank_test of
              None \<Rightarrow> Some ([nrank_test], Size_undefined)
            | Some nxt \<Rightarrow> Option.bind (comm_sweep a nxt) (\<lambda>rest. Some (nrank_test # fst rest, snd rest)))
      else Some ([], Sweep_ended))"

lemma floor_half: "\<lfloor>real_of_int m + 1 / 2\<rfloor> = m"
  by (rule floor_unique) simp_all

lemma roundf_exact: "flt (real_of_int n) = real_of_int n \<Longrightarrow> roundf (real_of_int n) = n"
  using floor_half [of n] floor_half [of "- n"]
  by (cases "0 \<le> n") (simp_all only: roundf_def Let_def of_int_minus of_int_0_le_iff if_True if_False minus_minus)

lemma roundf_int: "\<bar>n\<bar> \<le> 2 ^ 24 \<Longrightarrow> roundf (real_of_int n) = n"
  by (intro roundf_exact round_bits_int) simp_all

lemma roundf_power: "roundf (2 ^ k) = 2 ^ k" "roundf (- (2 ^ k)) = - (2 ^ k)"
  using roundf_exact [of "2 ^ k"] roundf_exact [of "- (2 ^ k)"] by (simp_all add: round_bits_power round_bits_minus)

lemma roundf_mono: "x \<le> y \<Longrightarrow> roundf x \<le> roundf y"
proof -
  assume "x \<le> y"
  then have le: "flt x \<le> flt y" by (rule round_bits_mono) simp
  consider "0 \<le> flt x" | "flt x < 0" "0 \<le> flt y" | "flt y < 0" using le by linarith
  then show ?thesis
  proof cases
    case 1
    then show ?thesis using le floor_mono [of "flt x + 1 / 2" "flt y + 1 / 2"] by (simp add: roundf_def Let_def)
  next
    case 2
    have "0 \<le> \<lfloor>- flt x + 1 / 2\<rfloor>" "0 \<le> \<lfloor>flt y + 1 / 2\<rfloor>" using 2 by (simp_all only: zero_le_floor)
    moreover have "roundf x = - \<lfloor>- flt x + 1 / 2\<rfloor>" "roundf y = \<lfloor>flt y + 1 / 2\<rfloor>" using 2 by (simp_all only: roundf_def Let_def not_le [symmetric] if_True if_False)
    ultimately show ?thesis by linarith
  next
    case 3
    then show ?thesis using le floor_mono [of "- flt y + 1 / 2" "- flt x + 1 / 2"] by (simp add: roundf_def Let_def)
  qed
qed

lemma as_int_Some: "as_int n = Some m \<longleftrightarrow> m = n \<and> - (2 ^ 31) \<le> n \<and> n < 2 ^ 31"
  by (auto simp: as_int_def)

text \<open>The inverse of a factor is at least one, or at most one.\<close>

lemma dbl_one: "dbl 1 = 1"
  using round_bits_int [of 53 1] by simp

lemma dbl_inverse: "0 < num \<Longrightarrow> num \<le> 1 \<Longrightarrow> 1 \<le> dbl (1 / num)" "1 \<le> num \<Longrightarrow> dbl (1 / num) \<le> 1" "0 \<le> num \<Longrightarrow> 0 \<le> dbl (1 / num)"
  using round_bits_mono [of 1 "1 / num" 53] round_bits_mono [of "1 / num" 1 53] round_bits_nonneg [of "1 / num" 53]
  by (simp_all add: dbl_one)

text \<open>What the options leave as a step, and what the sweep is then given.\<close>

definition kind_ok :: "step_kind \<Rightarrow> real \<Rightarrow> bool" where
  "kind_ok kind num \<longleftrightarrow> 0 \<le> num \<and> (kind = Kind_factor \<longrightarrow> num = 0 \<or> 1 \<le> num)"

definition sweep_ok :: "comm_args \<Rightarrow> bool" where
  "sweep_ok a \<longleftrightarrow> 0 \<le> ca_beginranks a \<and> 0 \<le> ca_endranks a
     \<and> (ca_sweep_kind a = Kind_factor \<longrightarrow> (if ca_beginranks a < ca_endranks a then 1 \<le> ca_sweep_num a else 0 \<le> ca_sweep_num a \<and> ca_sweep_num a \<le> 1))
     \<and> (ca_sweep_kind a = Kind_step \<longrightarrow> (if ca_beginranks a < ca_endranks a then 0 \<le> ca_sweep_num a else ca_sweep_num a \<le> 0))"

lemma parse_number_ok: "parse_number strtod kind s = (False, k, n) \<Longrightarrow> kind_ok k n"
proof -
  have "1 \<le> dbl (1 / x) \<and> 0 \<le> dbl (1 / x)" if "\<not> x \<le> 0" "x < 1" for x using dbl_inverse(1) [of x] that by simp
  then show "parse_number strtod kind s = (False, k, n) \<Longrightarrow> kind_ok k n"
    by (auto simp: parse_number_def kind_ok_def split: option.splits if_splits)
qed

lemma parse_step_kinds_ok: "parse_step_kinds strtod s kind = (False, k, n) \<Longrightarrow> kind_ok k n"
  by (auto simp: parse_step_kinds_def kind_ok_def dest: parse_number_ok [unfolded kind_ok_def] split: if_splits)

lemma parse_option_ok:
  assumes "parse_option atoi strtod opt a = Some a'" "kind_ok (ca_sweep_kind a) (ca_sweep_num a)" "kind_ok (ca_resize_kind a) (ca_resize_num a)"
  shows "kind_ok (ca_sweep_kind a') (ca_sweep_num a') \<and> kind_ok (ca_resize_kind a') (ca_resize_num a') \<and> ca_test_kind a' = ca_test_kind a"
  using assms(1) unfolding parse_option_def Let_def
  apply (simp only: split: if_split_asm)
  apply (insert assms(2,3))
  apply (simp_all split: prod.split_asm if_split_asm)
  by ((drule parse_step_kinds_ok)?, hypsubst, simp)+

lemma parse_options_ok:
  "parse_options atoi strtod opts a = Some a' \<Longrightarrow> kind_ok (ca_sweep_kind a) (ca_sweep_num a) \<Longrightarrow> kind_ok (ca_resize_kind a) (ca_resize_num a)
   \<Longrightarrow> kind_ok (ca_sweep_kind a') (ca_sweep_num a') \<and> kind_ok (ca_resize_kind a') (ca_resize_num a') \<and> ca_test_kind a' = ca_test_kind a"
proof (induction opts arbitrary: a)
  case (Cons opt opts)
  then obtain b where "parse_option atoi strtod opt a = Some b" "parse_options atoi strtod opts b = Some a'" by (auto simp: bind_eq_Some_conv)
  with Cons show ?case using parse_option_ok [of atoi strtod opt a b] by auto
qed simp

lemma sweep_direction_ok:
  assumes "sweep_direction a = Some a'" "kind_ok (ca_sweep_kind a) (ca_sweep_num a)" "0 \<le> ca_beginranks a" "0 \<le> ca_endranks a"
  shows "sweep_ok a'"
  using assms dbl_inverse [of "ca_sweep_num a"] by (cases "ca_sweep_kind a") (auto simp: dbl_one sweep_direction_def sweep_ok_def kind_ok_def Let_def split: if_splits)

lemma sweep_direction_keeps:
  "sweep_direction a = Some a' \<Longrightarrow> ca_resize_kind a' = ca_resize_kind a \<and> ca_resize_num a' = ca_resize_num a
     \<and> ca_beginranks a' = ca_beginranks a \<and> ca_endranks a' = ca_endranks a \<and> ca_sweep_kind a' = ca_sweep_kind a \<and> ca_test_kind a' = ca_test_kind a"
  by (auto simp: sweep_direction_def Let_def split: if_splits)

lemma sweep_range_sel [simp]:
  "ca_resize_kind (sweep_range n a) = ca_resize_kind a" "ca_resize_num (sweep_range n a) = ca_resize_num a"
  "ca_sweep_kind (sweep_range n a) = ca_sweep_kind a" "ca_sweep_num (sweep_range n a) = ca_sweep_num a"
  "ca_beginranks (sweep_range n a) \<le> n" "ca_endranks (sweep_range n a) \<le> n"
  "0 \<le> n \<Longrightarrow> 0 \<le> ca_beginranks (sweep_range n a)" "0 \<le> n \<Longrightarrow> 0 \<le> ca_endranks (sweep_range n a)"
  by (simp_all add: sweep_range_def Let_def)

lemma parse_args_ok:
  assumes "parse_args atoi strtod test opts nranks = Inr a" "0 \<le> nranks"
  shows "sweep_ok a" "kind_ok (ca_resize_kind a) (ca_resize_num a)" "ca_beginranks a \<le> nranks" "ca_endranks a \<le> nranks"
proof -
  from assms(1) obtain kind b where b: "parse_options atoi strtod opts (default_args\<lparr>ca_test_kind := kind\<rparr>) = Some b"
    and d: "sweep_direction (sweep_range nranks b) = Some a"
    by (auto simp: parse_args_def Let_def split: option.splits if_splits)
  have k: "kind_ok (ca_sweep_kind b) (ca_sweep_num b)" "kind_ok (ca_resize_kind b) (ca_resize_num b)"
    using parse_options_ok [OF b] by (simp_all add: default_args_def kind_ok_def)
  note r = sweep_direction_keeps [OF d]
  show "sweep_ok a" using sweep_direction_ok [OF d] k assms(2) by simp
  show "kind_ok (ca_resize_kind a) (ca_resize_num a)" using k r by simp
  show "ca_beginranks a \<le> nranks" "ca_endranks a \<le> nranks" using r by simp_all
qed

text \<open>The size before the conversion, and its direction.\<close>

lemma next_step_cases:
  assumes "ca_sweep_kind a \<noteq> Kind_fixed" "next_step a cur = Some nxt"
  defines "x \<equiv> if ca_sweep_kind a = Kind_factor then roundf (dbl (real_of_int cur * ca_sweep_num a)) else cur + roundf (ca_sweep_num a)"
  shows "nxt = (if x = cur then x + (if ca_beginranks a < ca_endranks a then 1 else - 1) else x)"
  using assms by (auto simp: next_step_def bind_eq_Some_conv as_int_Some split: if_splits)

lemma next_step_direction:
  assumes "sweep_ok a" "ca_sweep_kind a \<noteq> Kind_fixed" "0 \<le> cur" "cur \<le> 2 ^ 24" "next_step a cur = Some nxt"
  shows "if ca_beginranks a < ca_endranks a then cur < nxt else nxt < cur"
proof -
  define x where "x = (if ca_sweep_kind a = Kind_factor then roundf (dbl (real_of_int cur * ca_sweep_num a)) else cur + roundf (ca_sweep_num a))"
  have x: "ca_sweep_kind a = Kind_factor \<Longrightarrow> x = roundf (dbl (real_of_int cur * ca_sweep_num a))"
    "ca_sweep_kind a \<noteq> Kind_factor \<Longrightarrow> x = cur + roundf (ca_sweep_num a)"
    "nxt = (if x = cur then x + (if ca_beginranks a < ca_endranks a then 1 else - 1) else x)"
    using next_step_cases [OF assms(2,5)] by (simp_all add: x_def)
  have k: "ca_sweep_kind a = Kind_factor \<or> ca_sweep_kind a = Kind_step" using assms(2) by (cases "ca_sweep_kind a") auto
  have cur: "dbl (real_of_int cur) = real_of_int cur" "roundf (real_of_int cur) = cur" "roundf 0 = 0"
    using assms(3,4) roundf_int [of 0] by (simp_all add: roundf_int round_bits_int)
  have "if ca_beginranks a < ca_endranks a then cur \<le> x else x \<le> cur"
  proof (cases "ca_beginranks a < ca_endranks a")
    case True
    have "real_of_int cur * 1 \<le> real_of_int cur * ca_sweep_num a" if "ca_sweep_kind a = Kind_factor"
      using assms that True by (intro mult_left_mono) (auto simp: sweep_ok_def)
    then have "real_of_int cur \<le> dbl (real_of_int cur * ca_sweep_num a)" if "ca_sweep_kind a = Kind_factor"
      using that round_bits_mono [of "real_of_int cur" "real_of_int cur * ca_sweep_num a" 53] by (simp add: cur(1))
    moreover have "0 \<le> ca_sweep_num a" if "ca_sweep_kind a = Kind_step" using assms(1) that True by (simp add: sweep_ok_def)
    ultimately show ?thesis using True k x(1,2) roundf_mono [of "real_of_int cur"] roundf_mono [of 0 "ca_sweep_num a"] by (auto simp: cur)
  next
    case False
    have "real_of_int cur * ca_sweep_num a \<le> real_of_int cur * 1" if "ca_sweep_kind a = Kind_factor"
      using assms that False by (intro mult_left_mono) (auto simp: sweep_ok_def)
    then have "dbl (real_of_int cur * ca_sweep_num a) \<le> real_of_int cur" if "ca_sweep_kind a = Kind_factor"
      using that round_bits_mono [of "real_of_int cur * ca_sweep_num a" "real_of_int cur" 53] by (simp add: cur(1))
    moreover have "ca_sweep_num a \<le> 0" if "ca_sweep_kind a = Kind_step" using assms(1) that False by (simp add: sweep_ok_def)
    ultimately show ?thesis using False k x(1,2) roundf_mono [of _ "real_of_int cur"] roundf_mono [of "ca_sweep_num a" 0] by (auto simp: cur)
  qed
  then show ?thesis using x(3) by auto
qed

text \<open>Steps that are not too large: no conversion and no addition leaves the range of \<open>int\<close>.\<close>

definition step_fits :: "comm_args \<Rightarrow> bool" where
  "step_fits a \<longleftrightarrow> (case ca_sweep_kind a of
       Kind_factor \<Rightarrow> real_of_int (max (ca_beginranks a) (ca_endranks a)) * ca_sweep_num a \<le> 2 ^ 30
     | Kind_step \<Rightarrow> \<bar>ca_sweep_num a\<bar> \<le> 2 ^ 30 | Kind_fixed \<Rightarrow> True)"

lemma roundf_range: "\<bar>x\<bar> \<le> 2 ^ 30 \<Longrightarrow> - (2 ^ 30) \<le> roundf x \<and> roundf x \<le> 2 ^ 30"
proof -
  assume "\<bar>x\<bar> \<le> 2 ^ 30"
  then have "- (2 ^ 30) \<le> x" "x \<le> 2 ^ 30" by linarith+
  then show ?thesis using roundf_mono [of x "2 ^ 30"] roundf_mono [of "- (2 ^ 30)" x] by (simp only: roundf_power simp_thms)
qed

lemma step_fits_defined:
  assumes "sweep_ok a" "step_fits a" "0 \<le> cur" "cur \<le> max (ca_beginranks a) (ca_endranks a)" "max (ca_beginranks a) (ca_endranks a) \<le> 2 ^ 24"
  shows "next_step a cur \<noteq> None"
proof (cases "ca_sweep_kind a")
  case Kind_factor
  then have num: "0 \<le> ca_sweep_num a" using assms(1) by (auto simp: sweep_ok_def split: if_splits)
  have "real_of_int cur * ca_sweep_num a \<le> real_of_int (max (ca_beginranks a) (ca_endranks a)) * ca_sweep_num a"
    using assms(4) num by (intro mult_right_mono) (simp_all del: of_int_max)
  also have "\<dots> \<le> 2 ^ 30" using assms(2) Kind_factor by (simp add: step_fits_def)
  finally have "dbl (real_of_int cur * ca_sweep_num a) \<le> dbl (2 ^ 30)" by (rule round_bits_mono) simp
  then have "dbl (real_of_int cur * ca_sweep_num a) \<le> 2 ^ 30" using round_bits_power [of 53 30] by simp
  moreover have "0 \<le> dbl (real_of_int cur * ca_sweep_num a)" using num assms(3) by (intro round_bits_nonneg) simp
  ultimately have "\<bar>dbl (real_of_int cur * ca_sweep_num a)\<bar> \<le> 2 ^ 30" by simp
  from roundf_range [OF this] show ?thesis using Kind_factor assms(3-5) by (auto simp: next_step_def as_int_def)
next
  case Kind_step
  then have "\<bar>ca_sweep_num a\<bar> \<le> 2 ^ 30" using assms(2) by (simp add: step_fits_def)
  from roundf_range [OF this] have r: "- (2 ^ 30) \<le> roundf (ca_sweep_num a)" "roundf (ca_sweep_num a) \<le> 2 ^ 30" by simp_all
  have c: "cur \<le> 2 ^ 24" using assms(4,5) by linarith
  have "as_int (roundf (ca_sweep_num a)) = Some (roundf (ca_sweep_num a))"
    "as_int (cur + roundf (ca_sweep_num a)) = Some (cur + roundf (ca_sweep_num a))"
    using r c assms(3) by (simp_all add: as_int_def)
  then show ?thesis using Kind_step c assms(3) by (simp add: next_step_def as_int_def)
qed (simp add: next_step_def)

text \<open>Every size is within the range, the sizes get larger or smaller by the direction.\<close>

definition sweep_order :: "comm_args \<Rightarrow> int \<Rightarrow> int \<Rightarrow> bool" where
  "sweep_order a x y \<longleftrightarrow> (if ca_beginranks a < ca_endranks a then x < y else y < x)"

text \<open>The sweep ends as \<open>e\<close> says: all sizes have one after them, or the last one has not.\<close>

definition ends_as :: "comm_args \<Rightarrow> int list \<Rightarrow> sweep_outcome \<Rightarrow> bool" where
  "ends_as a sizes e \<longleftrightarrow> (\<forall>x\<in>set (butlast sizes). next_step a x \<noteq> None)
     \<and> (e = Size_undefined \<longleftrightarrow> sizes \<noteq> [] \<and> next_step a (last sizes) = None)"

lemma ends_as_Cons: "ends_as a xs e \<Longrightarrow> next_step a x \<noteq> None \<Longrightarrow> ends_as a (x # xs) e"
  by (auto simp: ends_as_def)

lemma ends_as_one: "ends_as a [] Sweep_ended" "next_step a x = None \<Longrightarrow> ends_as a [x] Size_undefined"
  by (simp_all add: ends_as_def)

lemma sweep_up:
  assumes "sweep_ok a" "ca_sweep_kind a \<noteq> Kind_fixed" "ca_beginranks a < ca_endranks a" "ca_endranks a \<le> 2 ^ 24" "0 \<le> cur"
  shows "\<exists>xs e. comm_sweep a cur = Some (xs, e) \<and> sorted_wrt (<) xs \<and> (\<forall>x\<in>set xs. cur \<le> x \<and> x \<le> ca_endranks a) \<and> ends_as a xs e"
  using assms(5)
proof (induction "nat (ca_endranks a + 1 - cur)" arbitrary: cur rule: less_induct)
  case less
  show ?case
  proof (cases "keep_testing a cur")
    case True
    have le: "cur \<le> ca_endranks a" using True assms(3) by (simp add: keep_testing_def)
    show ?thesis
    proof (cases "next_step a cur")
      case None
      then show ?thesis using True le by (subst comm_sweep.simps) (auto simp: ends_as_one)
    next
      case (Some n)
      have n: "cur < n" using next_step_direction [OF assms(1,2) less.prems _ Some] le assms(3,4) by simp
      obtain xs e where "comm_sweep a n = Some (xs, e)" "sorted_wrt (<) xs" "\<forall>x\<in>set xs. n \<le> x \<and> x \<le> ca_endranks a" "ends_as a xs e"
        using less.hyps [of n] n le less.prems by auto
      with True n le Some show ?thesis by (subst comm_sweep.simps) (auto intro: ends_as_Cons)
    qed
  qed (simp add: comm_sweep.simps ends_as_one)
qed

lemma sweep_down:
  assumes "sweep_ok a" "ca_sweep_kind a \<noteq> Kind_fixed" "\<not> ca_beginranks a < ca_endranks a" "cur \<le> 2 ^ 24"
  shows "\<exists>xs e. comm_sweep a cur = Some (xs, e) \<and> sorted_wrt (>) xs \<and> (\<forall>x\<in>set xs. x \<le> cur \<and> ca_endranks a \<le> x) \<and> ends_as a xs e"
  using assms(4)
proof (induction "nat (cur + 1)" arbitrary: cur rule: less_induct)
  case less
  show ?case
  proof (cases "keep_testing a cur")
    case True
    have le: "ca_endranks a \<le> cur" using True assms(3) by (simp add: keep_testing_def split: if_splits)
    with assms(1) have "0 \<le> cur" by (simp add: sweep_ok_def)
    show ?thesis
    proof (cases "next_step a cur")
      case None
      then show ?thesis using True le by (subst comm_sweep.simps) (auto simp: ends_as_one)
    next
      case (Some n)
      with next_step_direction [OF assms(1,2) \<open>0 \<le> cur\<close> less.prems Some] assms(3) have n: "n < cur" by simp
      obtain xs e where "comm_sweep a n = Some (xs, e)" "sorted_wrt (>) xs" "\<forall>x\<in>set xs. x \<le> n \<and> ca_endranks a \<le> x" "ends_as a xs e"
        using less.hyps [of n] n \<open>0 \<le> cur\<close> less.prems by auto
      with True n le Some show ?thesis by (subst comm_sweep.simps) (auto intro: ends_as_Cons)
    qed
  qed (simp add: comm_sweep.simps ends_as_one)
qed

lemma sweep_fixed:
  assumes "sweep_ok a" "ca_sweep_kind a = Kind_fixed"
  shows "comm_sweep a (ca_beginranks a) =
    (if ca_endranks a \<le> ca_beginranks a \<and> 0 < ca_endranks a then Some ([ca_beginranks a], Sweep_ended) else None)"
proof -
  have n: "next_step a cur = Some 0" for cur using assms(2) by (simp add: next_step_def)
  have first: "comm_sweep a (ca_beginranks a) = Option.bind (comm_sweep a 0) (\<lambda>rest. Some (ca_beginranks a # fst rest, snd rest))"
    by (subst comm_sweep.simps) (simp add: n keep_testing_def)
  have zero: "comm_sweep a 0 = (if keep_testing a 0 then Option.bind (comm_sweep a 0) (\<lambda>rest. Some (0 # fst rest, snd rest)) else Some ([], Sweep_ended))"
    by (subst comm_sweep.simps) (simp add: n)
  have "keep_testing a 0 \<longleftrightarrow> \<not> (ca_endranks a \<le> ca_beginranks a \<and> 0 < ca_endranks a)"
    using assms(1) by (auto simp: keep_testing_def sweep_ok_def)
  moreover have "comm_sweep a 0 = None" if "keep_testing a 0"
    using zero that by (cases "comm_sweep a 0") (auto simp: prod_eq_iff)
  moreover have "comm_sweep a 0 = Some ([], Sweep_ended)" if "\<not> keep_testing a 0"
    using zero that by simp
  ultimately show ?thesis using first by simp
qed

lemma sweep_starts: "comm_sweep a (ca_beginranks a) = Some (xs, e) \<Longrightarrow> xs \<noteq> [] \<and> hd xs = ca_beginranks a"
  by (subst (asm) comm_sweep.simps) (auto simp: keep_testing_def bind_eq_Some_conv split: if_splits option.splits)

text \<open>C13: the sweep over the sizes of the communicator, for every command line that is accepted (with a finite number as its step, and not the infinite
  one of an unknown kind) and up to \<open>2 ^ 24\<close> ranks. It goes on for ever exactly if the size is fixed and the range goes up or down to nothing. Otherwise it begins
  with the first size, the sizes get strictly larger or smaller, and all are in the range. Every size but the last has one after it; the
  size after the last one is computed too, and the sweep ends as it should exactly if it is defined: a size or
  step out of the range of \<open>int\<close> is a conversion that is not. With steps up to \<open>2 ^ 30\<close> and factors that lead at most there from the largest size,
  it always is.\<close>

theorem comm_sweep_ends:
  assumes "parse_args atoi strtod test opts nranks = Inr a" "0 \<le> nranks" "nranks \<le> 2 ^ 24"
  shows "(comm_sweep a (ca_beginranks a) = None) = (ca_sweep_kind a = Kind_fixed \<and> \<not> (ca_endranks a \<le> ca_beginranks a \<and> 0 < ca_endranks a))
    \<and> (\<forall>sizes e. comm_sweep a (ca_beginranks a) = Some (sizes, e) \<longrightarrow> sizes \<noteq> [] \<and> hd sizes = ca_beginranks a \<and> sorted_wrt (sweep_order a) sizes
      \<and> (\<forall>x\<in>set sizes. min (ca_beginranks a) (ca_endranks a) \<le> x \<and> x \<le> max (ca_beginranks a) (ca_endranks a))
      \<and> (\<forall>x\<in>set (butlast sizes). next_step a x \<noteq> None)
      \<and> (e = Sweep_ended \<longleftrightarrow> next_step a (last sizes) \<noteq> None) \<and> (step_fits a \<longrightarrow> e = Sweep_ended))"
proof (intro conjI allI impI)
  note ok = parse_args_ok [OF assms(1,2)]
  have b: "0 \<le> ca_beginranks a" "0 \<le> ca_endranks a" using ok(1) by (simp_all add: sweep_ok_def)
  have le: "ca_beginranks a \<le> 2 ^ 24" "ca_endranks a \<le> 2 ^ 24" using ok(3,4) assms(3) by linarith+
  note up = sweep_up [OF ok(1) _ _ le(2) b(1)] and down = sweep_down [OF ok(1) _ _ le(1)]
  show "(comm_sweep a (ca_beginranks a) = None) = (ca_sweep_kind a = Kind_fixed \<and> \<not> (ca_endranks a \<le> ca_beginranks a \<and> 0 < ca_endranks a))"
    using sweep_fixed [OF ok(1)] up down
    by (cases "ca_sweep_kind a = Kind_fixed"; cases "ca_beginranks a < ca_endranks a") auto
  have o: "sweep_order a = (if ca_beginranks a < ca_endranks a then (<) else (>))" by (auto simp: sweep_order_def fun_eq_iff)
  fix sizes e
  assume s: "comm_sweep a (ca_beginranks a) = Some (sizes, e)"
  note start = sweep_starts [OF s]
  have all: "sorted_wrt (sweep_order a) sizes \<and> (\<forall>x\<in>set sizes. min (ca_beginranks a) (ca_endranks a) \<le> x \<and> x \<le> max (ca_beginranks a) (ca_endranks a))
      \<and> ends_as a sizes e"
  proof (cases "ca_sweep_kind a = Kind_fixed")
    case True
    then have "next_step a x = Some 0" for x by (simp add: next_step_def)
    with sweep_fixed [OF ok(1) True] s show ?thesis by (auto simp: ends_as_def split: if_splits)
  next
    case False
    then show ?thesis using s o up down by (cases "ca_beginranks a < ca_endranks a") (auto simp: min_def max_def)
  qed
  then have ends: "ends_as a sizes e" by blast
  show "sizes \<noteq> []" "hd sizes = ca_beginranks a" using start by blast+
  show "sorted_wrt (sweep_order a) sizes" "\<forall>x\<in>set sizes. min (ca_beginranks a) (ca_endranks a) \<le> x \<and> x \<le> max (ca_beginranks a) (ca_endranks a)"
    using all by blast+
  show "\<forall>x\<in>set (butlast sizes). next_step a x \<noteq> None" using ends by (simp add: ends_as_def)
  show e: "e = Sweep_ended \<longleftrightarrow> next_step a (last sizes) \<noteq> None" using ends start by (cases e) (auto simp: ends_as_def)
  show "e = Sweep_ended" if "step_fits a"
  proof -
    have "last sizes \<in> set sizes" using start by simp
    then have "0 \<le> last sizes" "last sizes \<le> max (ca_beginranks a) (ca_endranks a)" using all b by (auto simp: min_def split: if_splits)
    then have "next_step a (last sizes) \<noteq> None" using le by (intro step_fits_defined [OF ok(1) that]) simp_all
    with e show ?thesis by blast
  qed
qed

definition no_number :: "string \<Rightarrow> int" where "no_number s = 0"
definition no_decimal :: "string \<Rightarrow> real option" where "no_decimal s = None"

lemma example_sweep_args:
  "parse_args no_number no_decimal ''init'' [] 8
   = Inr (default_args\<lparr>ca_beginranks := 8, ca_endranks := 1, ca_sweep_num := 1 / 2\<rparr>)"
proof -
  have "dbl (1 / 2) = 1 / 2" using round_bits_fraction [of 53 1 1] by simp
  then show ?thesis by (simp add: parse_args_def parse_test_def sweep_range_def sweep_direction_def default_args_def)
qed

text \<open>A factor with which the sweep ends, and one that is accepted too (\<open>factor-1e10\<close>, from one rank to eight): there is no second size.\<close>

theorem comm_sweep_ends_witness:
  "(\<exists>a sizes. parse_args no_number no_decimal ''init'' [] 8 = Inr a \<and> comm_sweep a 8 = Some (sizes, Sweep_ended) \<and> hd sizes = 8 \<and> (\<forall>x\<in>set sizes. 1 \<le> x))
  \<and> comm_sweep (default_args\<lparr>ca_beginranks := 1, ca_endranks := 8, ca_sweep_num := 10000000000\<rparr>) 1 = Some ([1], Size_undefined)"
proof
  let ?a = "default_args\<lparr>ca_beginranks := 8, ca_endranks := 1, ca_sweep_num := 1 / 2\<rparr>"
  have f: "ca_beginranks ?a = 8" "ca_endranks ?a = 1" "ca_sweep_kind ?a \<noteq> Kind_fixed" "step_fits ?a" by (simp_all add: default_args_def step_fits_def)
  from comm_sweep_ends [OF example_sweep_args] f obtain sizes where
    "comm_sweep ?a 8 = Some (sizes, Sweep_ended)" "hd sizes = 8" "\<forall>x\<in>set sizes. 1 \<le> x" by fastforce
  with example_sweep_args
  show "\<exists>a sizes. parse_args no_number no_decimal ''init'' [] 8 = Inr a \<and> comm_sweep a 8 = Some (sizes, Sweep_ended) \<and> hd sizes = 8 \<and> (\<forall>x\<in>set sizes. 1 \<le> x)"
    by blast
next
  let ?b = "default_args\<lparr>ca_beginranks := 1, ca_endranks := 8, ca_sweep_num := 10000000000\<rparr>"
  have "dbl 10000000000 = 10000000000" using round_bits_int [of 53 10000000000] by simp
  moreover have "2 ^ 31 \<le> roundf 10000000000" using roundf_mono [of "2 ^ 31" 10000000000] roundf_power(1) [of 31] by simp
  ultimately have "next_step ?b 1 = None" by (simp add: next_step_def as_int_def default_args_def)
  then show "comm_sweep ?b 1 = Some ([1], Size_undefined)" by (subst comm_sweep.simps) (simp add: keep_testing_def)
qed

section \<open>Roots\<close>

text \<open>\<open>size\<close> is the size of a communicator, which is positive; ranks are not negative.\<close>

definition rootCount :: "comm_args \<Rightarrow> int \<Rightarrow> int" where
  "rootCount a nranks = (if ca_root_every a > 0 then 1 + (nranks - 1) div ca_root_every a else 1)"

definition isRoot :: "comm_args \<Rightarrow> int \<Rightarrow> bool" where
  "isRoot a rank = (if ca_root_every a > 0 then rank mod ca_root_every a = 0 else rank = 0)"

text \<open>The loop that fills \<open>recv_displ\<close> and \<open>recv_count\<close>, from rank \<open>i\<close> with the bytes \<open>c\<close>; an id has \<open>id_bytes\<close> bytes
  (\<open>NCCL_UNIQUE_ID_BYTES\<close>).\<close>

fun recv_layout :: "nat \<Rightarrow> comm_args \<Rightarrow> int list \<Rightarrow> nat \<Rightarrow> (nat \<times> nat) list" where
  "recv_layout id_bytes a [] c = []"
| "recv_layout id_bytes a (i # ranks) c =
     (let peer_size = (if isRoot a i then id_bytes else 0) in (c, peer_size) # recv_layout id_bytes a ranks (c + peer_size))"

text \<open>\<open>MPI_Allgatherv\<close>: the data of every rank, of which \<open>count\<close> bytes are sent, go to its displacement; None where it would
  write outside the buffer.\<close>

definition put_block :: "(nat \<times> nat) \<Rightarrow> 'b list \<Rightarrow> 'b list \<Rightarrow> 'b list option" where
  "put_block place send buf =
     (if fst place + snd place \<le> length buf
      then Some (take (fst place) buf @ take (snd place) send @ drop (fst place + snd place) buf) else None)"

fun allgatherv :: "((nat \<times> nat) \<times> 'b list) list \<Rightarrow> 'b list \<Rightarrow> 'b list option" where
  "allgatherv [] buf = Some buf"
| "allgatherv ((place, send) # blocks) buf = Option.bind (put_block place send buf) (allgatherv blocks)"

text \<open>The id array of a communicator of \<open>nranks\<close> ranks: \<open>calloc\<close>, then the ids of the roots, of which \<open>commId i\<close> is that of
  rank \<open>i\<close>.\<close>

definition gather_ids :: "nat \<Rightarrow> comm_args \<Rightarrow> int \<Rightarrow> 'b \<Rightarrow> (int \<Rightarrow> 'b list) \<Rightarrow> 'b list option" where
  "gather_ids id_bytes a nranks zero commId =
     allgatherv (zip (recv_layout id_bytes a [0..nranks - 1] 0) (map commId [0..nranks - 1]))
       (replicate (nat (rootCount a nranks) * id_bytes) zero)"

lemma mod_zero_step: "0 < (k::int) \<Longrightarrow> (1 + (n - 1) div k) + (if n mod k = 0 then 1 else 0) = 1 + n div k"
proof -
  assume k: "0 < k"
  have "n = k * (n div k) + n mod k" by simp
  show ?thesis
  proof (cases "n mod k = 0")
    case True
    then obtain q where "n = k * q" by (auto elim: dvdE simp: mod_eq_0_iff_dvd)
    then have "n - 1 = (k - 1) + k * (q - 1)" by (simp add: algebra_simps)
    then have "(n - 1) div k = ((k - 1) + k * (q - 1)) div k" by (simp only:)
    also have "\<dots> = q - 1" using k by (simp add: div_pos_pos_trivial)
    finally have "(n - 1) div k = q - 1" .
    with True \<open>n = k * q\<close> k show ?thesis by simp
  next
    case False
    have m: "0 \<le> n mod k - 1" "n mod k - 1 < k" using False k pos_mod_bound [OF k, of n] pos_mod_sign [OF k, of n] by linarith+
    have "n - 1 = (n mod k - 1) + k * (n div k)" by simp
    then have "(n - 1) div k = (n mod k - 1 + k * (n div k)) div k" by (rule arg_cong)
    also have "\<dots> = n div k" using m k by (simp add: div_pos_pos_trivial)
    finally show ?thesis using False by simp
  qed
qed

lemma count_roots: "length (filter (isRoot a) [0..int n]) = nat (rootCount a (int n + 1))"
proof (induction n)
  case (Suc n)
  have up: "[0..int (Suc n)] = [0..int n] @ [int (Suc n)]" by (simp add: upto_rec2)
  have r: "rootCount a (int (Suc n) + 1) = rootCount a (int n + 1) + (if isRoot a (int (Suc n)) then 1 else 0)"
    using mod_zero_step [of "ca_root_every a" "int (Suc n)"] by (auto simp: rootCount_def isRoot_def)
  have "0 \<le> rootCount a (int n + 1)" by (simp add: rootCount_def pos_imp_zdiv_nonneg_iff)
  with up r Suc show ?case by (simp add: nat_add_distrib)
qed (simp add: rootCount_def isRoot_def)

lemma allgatherv_layout:
  assumes "\<And>i. i \<in> set ranks \<Longrightarrow> length (commId i) = id_bytes" "length rest = length (filter (isRoot a) ranks) * id_bytes"
  shows "allgatherv (zip (recv_layout id_bytes a ranks (length filled)) (map commId ranks)) (filled @ rest)
    = Some (filled @ concat (map commId (filter (isRoot a) ranks)))"
  using assms
proof (induction ranks arbitrary: filled rest)
  case (Cons i ranks)
  have len: "length (commId i) = id_bytes" using Cons.prems(1) by simp
  show ?case
  proof (cases "isRoot a i")
    case True
    have r: "length rest = id_bytes + length (filter (isRoot a) ranks) * id_bytes" using Cons.prems(2) True by simp
    have p: "put_block (length filled, id_bytes) (commId i) (filled @ rest) = Some ((filled @ commId i) @ drop id_bytes rest)"
      using len r by (simp add: put_block_def)
    have "allgatherv (zip (recv_layout id_bytes a ranks (length (filled @ commId i))) (map commId ranks)) ((filled @ commId i) @ drop id_bytes rest)
      = Some ((filled @ commId i) @ concat (map commId (filter (isRoot a) ranks)))"
      using Cons.prems(1) r by (intro Cons.IH) auto
    with p True len show ?thesis by (simp add: Let_def)
  next
    case False
    have p: "put_block (length filled, 0) (commId i) (filled @ rest) = Some (filled @ rest)" by (simp add: put_block_def)
    have "allgatherv (zip (recv_layout id_bytes a ranks (length filled)) (map commId ranks)) (filled @ rest)
      = Some (filled @ concat (map commId (filter (isRoot a) ranks)))"
      using Cons.prems False by (intro Cons.IH) auto
    with p False show ?thesis by (simp add: Let_def)
  qed
qed simp

text \<open>The ids of the roots. The exchange writes no byte outside of \<open>id_array\<close>, which afterwards holds the ids of the
  \<open>rootCount\<close> roots, in the order of their ranks, and nothing else.
\<close>

theorem roots_gathered:
  assumes "0 < nranks" "\<And>i. 0 \<le> i \<Longrightarrow> i < nranks \<Longrightarrow> length (commId i) = id_bytes"
  shows "gather_ids id_bytes a nranks zero commId = Some (concat (map commId (filter (isRoot a) [0..nranks - 1])))
    \<and> int (length (filter (isRoot a) [0..nranks - 1])) = rootCount a nranks \<and> isRoot a 0"
proof -
  have n: "nranks - 1 = int (nat (nranks - 1))" using assms(1) by simp
  have c: "length (filter (isRoot a) [0..nranks - 1]) = nat (rootCount a nranks)"
    using count_roots [of a "nat (nranks - 1)"] n by simp
  have "0 \<le> rootCount a nranks" using assms(1) by (simp add: rootCount_def pos_imp_zdiv_nonneg_iff)
  moreover have "gather_ids id_bytes a nranks zero commId = Some (concat (map commId (filter (isRoot a) [0..nranks - 1])))"
    using allgatherv_layout [of "[0..nranks - 1]" commId id_bytes "replicate (nat (rootCount a nranks) * id_bytes) zero" a "[]"] assms c
    by (simp add: gather_ids_def)
  ultimately show ?thesis using c by (simp add: isRoot_def)
qed

theorem roots_gathered_witness:
  "gather_ids 2 (default_args\<lparr>ca_root_every := 2\<rparr>) 5 0 (\<lambda>i. [i, i + 10])
   = Some (concat (map (\<lambda>i. [i, i + 10]) (filter (isRoot (default_args\<lparr>ca_root_every := 2\<rparr>)) [0..4])))"
  using roots_gathered [of 5 "\<lambda>i. [i, i + 10]" 2 "default_args\<lparr>ca_root_every := 2\<rparr>" 0] by simp

section \<open>Colors\<close>

text \<open>The color of a rank in a split, shrink or growth: \<open>count / resize_num\<close> is infinite for the zero of an unknown kind.\<close>

definition pick_color :: "comm_args \<Rightarrow> int \<Rightarrow> int \<Rightarrow> int" where
  "pick_color a rank count =
     (if ca_resize_kind a = Kind_factor
      then (if ca_resize_num a \<noteq> 0 \<and> real_of_int rank \<ge> real_of_int count / ca_resize_num a then 1 else 0)
      else (if real_of_int rank \<ge> real_of_int count - ca_resize_num a then 1 else 0))"

text \<open>The other ranks a shrink excludes (\<open>exclude_ranks\<close>), and the ranks a communicator grows from (\<open>initial_count\<close>).\<close>

definition exclude_ranks :: "comm_args \<Rightarrow> int \<Rightarrow> int \<Rightarrow> int list" where
  "exclude_ranks a rank count = filter (\<lambda>other. pick_color a rank count \<noteq> pick_color a other count) [0..count - 1]"

definition initial_count :: "comm_args \<Rightarrow> int \<Rightarrow> int" where
  "initial_count a nranks = sum_list (map (\<lambda>other. if pick_color a other nranks = 0 then 1 else 0) [0..nranks - 1])"

lemma pick_color_mono: "r \<le> r' \<Longrightarrow> pick_color a r count \<le> pick_color a r' count"
  by (auto simp: pick_color_def split: if_splits)

lemma pick_color_range: "pick_color a r count = 0 \<or> pick_color a r count = 1"
  by (simp add: pick_color_def)

lemma prefix_count:
  assumes "\<And>r r'. r \<le> r' \<Longrightarrow> P r' \<Longrightarrow> P r"
  shows "\<exists>m\<le>n. length (filter P [0..int n - 1]) = m \<and> (\<forall>r. 0 \<le> r \<and> r < int n \<longrightarrow> P r = (r < int m))"
proof (induction n)
  case (Suc n)
  then obtain m where m: "m \<le> n" "length (filter P [0..int n - 1]) = m" "\<forall>r. 0 \<le> r \<and> r < int n \<longrightarrow> P r = (r < int m)" by blast
  have up: "[0..int (Suc n) - 1] = [0..int n - 1] @ [int n]" by (simp add: upto_rec2)
  show ?case
  proof (cases "P (int n)")
    case True
    have "m = n"
    proof (rule ccontr)
      assume "m \<noteq> n"
      then have "P (int m)" using m(1) True by (intro assms [of "int m" "int n"]) auto
      with m \<open>m \<noteq> n\<close> show False by auto
    qed
    have "P r = (r < int (Suc n))" if "0 \<le> r" "r < int (Suc n)" for r using assms [of r "int n"] True that by auto
    with True m(2) up \<open>m = n\<close> show ?thesis by (intro exI [of _ "Suc n"]) auto
  next
    case False
    have "P r = (r < int m)" if "0 \<le> r" "r < int (Suc n)" for r
      using m(1,3) False that by (cases "r = int n") auto
    with False m up show ?thesis by (intro exI [of _ m]) auto
  qed
qed auto

lemma initial_count_length: "initial_count a n = int (length (filter (\<lambda>r. pick_color a r n = 0) [0..n - 1]))"
proof -
  have "sum_list (map (\<lambda>other. if P other then 1 else 0) xs) = int (length (filter P xs))" for P and xs :: "int list"
    by (induction xs) auto
  then show ?thesis by (simp add: initial_count_def)
qed

lemma color_count:
  assumes "0 < count"
  shows "0 \<le> initial_count a count \<and> initial_count a count \<le> count
    \<and> (\<forall>r. 0 \<le> r \<and> r < count \<longrightarrow> (pick_color a r count = 0) = (r < initial_count a count))"
proof -
  have n: "int (nat count) = count" using assms by simp
  have "\<exists>m\<le>nat count. length (filter (\<lambda>r. pick_color a r count = 0) [0..count - 1]) = m
      \<and> (\<forall>r. 0 \<le> r \<and> r < count \<longrightarrow> (pick_color a r count = 0) = (r < int m))"
  proof (rule prefix_count [where n = "nat count", unfolded n])
    fix r r'
    assume "r \<le> r'" "pick_color a r' count = 0"
    with pick_color_mono [OF this(1), of a count] show "pick_color a r count = 0" using pick_color_range [of a r count] by auto
  qed
  then obtain m where m: "m \<le> nat count" "length (filter (\<lambda>r. pick_color a r count = 0) [0..count - 1]) = m"
    "\<forall>r. 0 \<le> r \<and> r < count \<longrightarrow> (pick_color a r count = 0) = (r < int m)" by blast
  then have "initial_count a count = int m" by (simp only: initial_count_length)
  moreover have "int m \<le> count" using m(1) assms by simp
  ultimately show ?thesis using m(3) by simp
qed

lemma excluded_ranks:
  assumes "0 < count" "0 \<le> r" "r < initial_count a count"
  shows "exclude_ranks a r count = [initial_count a count..count - 1]"
proof -
  let ?m = "initial_count a count"
  note c = color_count [OF assms(1), of a]
  have up: "[0..count - 1] = [0..?m - 1] @ [?m..count - 1]" using c by (cases "?m = count") (auto intro: upto_split1)
  have z: "pick_color a r count = 0" using c assms by simp
  have "filter (\<lambda>other. pick_color a r count \<noteq> pick_color a other count) [0..?m - 1] = []" using c z by (simp add: filter_empty_conv)
  moreover have "filter (\<lambda>other. pick_color a r count \<noteq> pick_color a other count) [?m..count - 1] = [?m..count - 1]"
    using c z by (intro filter_True) auto
  ultimately show ?thesis by (simp add: exclude_ranks_def up)
qed

lemma prefix_ceiling:
  fixes x :: real
  assumes "0 \<le> m" "m \<le> count" "x \<le> real_of_int count"
    and "\<And>r. 0 \<le> r \<Longrightarrow> r < count \<Longrightarrow> P r = (r < m)" "\<And>r. 0 \<le> r \<Longrightarrow> r < count \<Longrightarrow> P r = (real_of_int r < x)"
  shows "m = max 0 \<lceil>x\<rceil>"
proof -
  have le: "\<lceil>x\<rceil> \<le> count" using assms(3) by (simp add: ceiling_le)
  have "\<lceil>x\<rceil> \<le> m"
  proof (rule ccontr)
    assume "\<not> \<lceil>x\<rceil> \<le> m"
    then have "m < \<lceil>x\<rceil>" by simp
    moreover from this have "m < count" using le by simp
    ultimately show False using assms(4,5) [of m] assms(1) by (simp add: less_ceiling_iff)
  qed
  moreover have "m \<le> \<lceil>x\<rceil>" if "0 < m"
    using assms(4,5) [of "m - 1"] assms(2) that less_ceiling_iff [of "m - 1" x] by simp
  ultimately show ?thesis using assms(1) by linarith
qed

text \<open>The colors. The ranks of color zero are the first \<open>initial_count\<close> ranks, so their numbers are also their ranks in the
  smaller communicator (which is what the test that grows passes), and rank 0 is one of them when there are any. A shrink by a
  rank of color zero excludes all other ranks. With a factor, a third of the ranks for a factor of three, rounded up, has color zero; with a step, all ranks but the last \<open>resize_num\<close> have color zero.
\<close>

theorem colors_are_prefixes:
  assumes "0 < count" "kind_ok (ca_resize_kind a) (ca_resize_num a)"
  shows "(\<forall>r. 0 \<le> r \<and> r < count \<longrightarrow> (pick_color a r count = 0) = (r < initial_count a count))
    \<and> (\<forall>r. 0 \<le> r \<and> r < initial_count a count \<longrightarrow> exclude_ranks a r count = [initial_count a count..count - 1])
    \<and> initial_count a count = (if ca_resize_kind a = Kind_factor
        then (if ca_resize_num a = 0 then count else \<lceil>real_of_int count / ca_resize_num a\<rceil>)
        else max 0 \<lceil>real_of_int count - ca_resize_num a\<rceil>)"
proof (intro conjI)
  note c = color_count [OF assms(1)]
  show "\<forall>r. 0 \<le> r \<and> r < count \<longrightarrow> (pick_color a r count = 0) = (r < initial_count a count)" using c by blast
  show "\<forall>r. 0 \<le> r \<and> r < initial_count a count \<longrightarrow> exclude_ranks a r count = [initial_count a count..count - 1]"
    using excluded_ranks [OF assms(1)] by blast
  let ?x = "if ca_resize_kind a = Kind_factor then (if ca_resize_num a = 0 then real_of_int count else real_of_int count / ca_resize_num a)
    else real_of_int count - ca_resize_num a"
  have x: "?x \<le> real_of_int count" "ca_resize_kind a = Kind_factor \<Longrightarrow> 0 < ?x"
    using assms by (auto simp: kind_ok_def field_simps)
  have p: "(pick_color a r count = 0) = (real_of_int r < ?x)" if "0 \<le> r" "r < count" for r
    using that by (auto simp: pick_color_def)
  have "initial_count a count = max 0 \<lceil>?x\<rceil>"
  proof (rule prefix_ceiling [where P = "\<lambda>r. pick_color a r count = 0"])
    show "\<And>r. 0 \<le> r \<Longrightarrow> r < count \<Longrightarrow> (pick_color a r count = 0) = (r < initial_count a count)" using c by blast
  qed (use c p x in auto)
  moreover have "0 < \<lceil>?x\<rceil>" if "ca_resize_kind a = Kind_factor" using x(2) [OF that] by (simp only: zero_less_ceiling)
  ultimately show "initial_count a count = (if ca_resize_kind a = Kind_factor
        then (if ca_resize_num a = 0 then count else \<lceil>real_of_int count / ca_resize_num a\<rceil>)
        else max 0 \<lceil>real_of_int count - ca_resize_num a\<rceil>)" by (auto split: if_splits)
qed

theorem colors_are_prefixes_witness:
  "exclude_ranks (default_args\<lparr>ca_resize_kind := Kind_step, ca_resize_num := 3\<rparr>) 0 8 = [5..7]"
proof -
  let ?a = "default_args\<lparr>ca_resize_kind := Kind_step, ca_resize_num := 3\<rparr>"
  have k: "kind_ok (ca_resize_kind ?a) (ca_resize_num ?a)" by (simp add: kind_ok_def)
  from colors_are_prefixes [OF _ k, of 8] show ?thesis by simp
qed

end
