(* ===== verification/CommTests.thy ===== *)
theory CommTests
  imports CommOps
begin

text \<open>
  The test of communicator operations (src/comm_ops.cu), second part: what every rank does in the tests. A rank is the list
  of its actions: the calls on its timers, on MPI and on NCCL. The theorems compare the lists of two ranks.
\<close>

section \<open>Actions\<close>

datatype timer =
    mpi_init | mpi_barrier | mpi_allgatherv | work_prepare | nccl_init | nccl_split | nccl_grow | nccl_allreduce | nccl_finalize
  | nccl_destroy | nccl_abort | nccl_shrink | cuda_init | cuda_stream_sync

text \<open>The flags of a timer, and the timers of NCCL.\<close>

definition nccl_flag :: nat where "nccl_flag = 2"
definition cuda_flag :: nat where "cuda_flag = 4"
definition mpi_flag :: nat where "mpi_flag = 8"

primrec timer_flags :: "timer \<Rightarrow> nat" where
  "timer_flags mpi_init = mpi_flag" | "timer_flags mpi_barrier = mpi_flag" | "timer_flags mpi_allgatherv = mpi_flag"
| "timer_flags work_prepare = cuda_flag" | "timer_flags nccl_init = nccl_flag" | "timer_flags nccl_split = nccl_flag"
| "timer_flags nccl_grow = nccl_flag" | "timer_flags nccl_allreduce = nccl_flag" | "timer_flags nccl_finalize = nccl_flag"
| "timer_flags nccl_destroy = nccl_flag" | "timer_flags nccl_abort = nccl_flag" | "timer_flags nccl_shrink = nccl_flag"
| "timer_flags cuda_init = cuda_flag" | "timer_flags cuda_stream_sync = cuda_flag"

definition timer_type_nccl :: "timer \<Rightarrow> bool" where
  "timer_type_nccl t = (and (timer_flags t) nccl_flag = nccl_flag)"

text \<open>The communicator of MPI is the one of the test, or the one of the ranks of a color; that of NCCL is the parent
  (\<open>ncclcomm\<close>, \<open>ncclComm_smaller\<close>) or the child (\<open>split_child\<close>, \<open>ncclComm_bigger\<close>). A call that makes a communicator counts
  for the one it makes, but a split for its parent, whose ranks all take part in it.\<close>

datatype mpi_comm = Comm_test | Comm_color
datatype mpi_call = Mpi_barrier | Mpi_allgatherv | Mpi_bcast | Mpi_split
datatype nccl_comm = Comm_parent | Comm_child
datatype nccl_call = Nccl_getUniqueId | Nccl_commGetUniqueId | Nccl_initRank | Nccl_split | Nccl_shrink | Nccl_grow | Nccl_allReduce
  | Nccl_finalize | Nccl_destroy | Nccl_abort

datatype rank_action =
    Set_enabled bool
  | Start timer
  | Stop timer
  | Skip timer
  | Mpi mpi_comm mpi_call
  | Local nccl_call
  | Nccl nccl_comm nccl_call "int list"
  | Stream_sync

section \<open>The tests\<close>

definition do_work :: "nccl_comm option \<Rightarrow> rank_action list" where
  "do_work comm =
     (case comm of
        None \<Rightarrow> [Skip nccl_allreduce, Skip cuda_stream_sync]
      | Some c \<Rightarrow> [Start nccl_allreduce, Nccl c Nccl_allReduce [], Stop nccl_allreduce, Start cuda_stream_sync, Stream_sync, Stop cuda_stream_sync])"

definition do_works :: "comm_args \<Rightarrow> nccl_comm option \<Rightarrow> rank_action list" where
  "do_works a comm = concat (map (\<lambda>i. do_work comm) [0..ca_work_iterations a - 1])"

text \<open>The end of a communicator, and the timers of it that a rank without one skips.\<close>

definition tear_down :: "comm_args \<Rightarrow> nccl_comm \<Rightarrow> rank_action list" where
  "tear_down a c =
     (if ca_aborts a then [Start nccl_abort, Nccl c Nccl_abort [], Stop nccl_abort]
      else [Start nccl_finalize, Nccl c Nccl_finalize [], Stop nccl_finalize, Start nccl_destroy, Nccl c Nccl_destroy [], Stop nccl_destroy])"

definition skip_tear_down :: "comm_args \<Rightarrow> rank_action list" where
  "skip_tear_down a = (if ca_aborts a then [Skip nccl_abort] else [Skip nccl_finalize, Skip nccl_destroy])"

text \<open>The exchange of the ids of the roots; what it exchanges is \<^const>\<open>gather_ids\<close>.\<close>

definition unique_id :: "comm_args \<Rightarrow> int \<Rightarrow> rank_action list" where
  "unique_id a rank = (if isRoot a rank then [Local Nccl_getUniqueId] else [])"

definition barrier_timed :: "rank_action list" where
  "barrier_timed = [Start mpi_barrier, Mpi Comm_test Mpi_barrier, Stop mpi_barrier]"

definition allgatherv_timed :: "mpi_comm \<Rightarrow> rank_action list" where
  "allgatherv_timed c = [Start mpi_allgatherv, Mpi c Mpi_allgatherv, Stop mpi_allgatherv]"

definition init_timed :: "comm_args \<Rightarrow> int \<Rightarrow> int \<Rightarrow> rank_action list" where
  "init_timed a nranks rank = [Start nccl_init, Nccl Comm_parent Nccl_initRank [nranks, rank, rootCount a nranks], Stop nccl_init]"

text \<open>The rounds \<open>j\<close> of the tests, of which the first \<open>warmup\<close> are not recorded.\<close>

definition rounds :: "comm_args \<Rightarrow> int list" where
  "rounds a = [0..ca_iterations a + ca_warmup a - 1]"

definition init_round :: "comm_args \<Rightarrow> int \<Rightarrow> int \<Rightarrow> int \<Rightarrow> rank_action list" where
  "init_round a nranks rank j =
     Set_enabled (j \<ge> ca_warmup a) # unique_id a rank @ allgatherv_timed Comm_test @ barrier_timed @ init_timed a nranks rank
     @ do_works a (Some Comm_parent) @ tear_down a Comm_parent"

definition main_init :: "comm_args \<Rightarrow> int \<Rightarrow> int \<Rightarrow> rank_action list" where
  "main_init a nranks rank =
     Set_enabled (0 \<ge> ca_warmup a) # barrier_timed @ concat (map (init_round a nranks rank) (rounds a))"

text \<open>In a split or shrink the rank and the count of NCCL are those of MPI. A split makes a child for every rank, a shrink for
  the ranks of color zero, the others have none.\<close>

definition split_step :: "comm_args \<Rightarrow> int \<Rightarrow> int \<Rightarrow> rank_action list \<times> nccl_comm option" where
  "split_step a nranks rank =
     (let color = pick_color a rank nranks; excluded = exclude_ranks a rank nranks; new_rank = 0 in
      if ca_test_kind a = Test_split
      then ([Start nccl_split, Nccl Comm_parent Nccl_split [color, new_rank], Stop nccl_split], Some Comm_child)
      else if ca_test_kind a = Test_shrink
      then (if color = 0
            then ([Start nccl_shrink,
                   Nccl Comm_child Nccl_shrink (excluded @ [int (length excluded), if ca_aborts a then 1 else 0]),
                   Stop nccl_shrink], Some Comm_child)
            else ([Start nccl_shrink, Skip nccl_shrink], None))
      else ([], None))"

definition split_round :: "comm_args \<Rightarrow> int \<Rightarrow> int \<Rightarrow> int \<Rightarrow> rank_action list" where
  "split_round a nranks rank j =
     (case split_step a nranks rank of (step, split_child) \<Rightarrow>
        Set_enabled (j \<ge> ca_warmup a) # Mpi Comm_test Mpi_barrier # step @ do_works a split_child
        @ (if split_child \<noteq> None then tear_down a Comm_child else skip_tear_down a))"

definition main_split :: "comm_args \<Rightarrow> int \<Rightarrow> int \<Rightarrow> rank_action list" where
  "main_split a nranks rank =
     Set_enabled (0 \<ge> ca_warmup a)
     # (if nranks = 1 then []
        else barrier_timed @ unique_id a rank @ allgatherv_timed Comm_test @ init_timed a nranks rank
             @ concat (map (split_round a nranks rank) (rounds a)) @ tear_down a Comm_parent)"

text \<open>The growth from the ranks of color zero to all.\<close>

definition grow_round :: "comm_args \<Rightarrow> int \<Rightarrow> int \<Rightarrow> int \<Rightarrow> rank_action list" where
  "grow_round a nranks rank j =
     Set_enabled (j \<ge> ca_warmup a) # Mpi Comm_test Mpi_barrier
     # (if rank = 0 then [Local Nccl_commGetUniqueId] else [])
     @ [Mpi Comm_test Mpi_bcast, Start nccl_grow,
        Nccl Comm_child Nccl_grow [nranks, if pick_color a rank nranks = 0 then - 1 else rank], Stop nccl_grow]
     @ do_works a (Some Comm_child) @ tear_down a Comm_child"

definition main_grow :: "comm_args \<Rightarrow> int \<Rightarrow> int \<Rightarrow> rank_action list" where
  "main_grow a nranks rank =
     (let color = pick_color a rank nranks; initial = initial_count a nranks;
          smaller = (if color = 0 then Some Comm_parent else None) in
      Set_enabled (0 \<ge> ca_warmup a)
      # (if initial = 0 \<or> initial = nranks then []
         else barrier_timed @ [Mpi Comm_test Mpi_split]
              @ (if color = 0 then unique_id a rank @ allgatherv_timed Comm_color @ init_timed a initial rank
                 else [Skip mpi_allgatherv, Skip nccl_init])
              @ do_works a smaller
              @ concat (map (grow_round a nranks rank) (rounds a))
              @ (if color = 0 then tear_down a Comm_parent else skip_tear_down a)))"

text \<open>The test of a rank in a communicator of \<open>nranks\<close> ranks.\<close>

definition comm_test :: "comm_args \<Rightarrow> int \<Rightarrow> int \<Rightarrow> rank_action list" where
  "comm_test a nranks rank =
     (case ca_test_kind a of
        Test_init \<Rightarrow> main_init a nranks rank
      | Test_split \<Rightarrow> main_split a nranks rank
      | Test_shrink \<Rightarrow> main_split a nranks rank
      | Test_grow \<Rightarrow> main_grow a nranks rank)"

section \<open>What two ranks have in common\<close>

text \<open>What a rank records, between the calls in which all ranks of the test take part: the timers that are stopped or skipped
  while recording is enabled. The second component says whether the rank took part.\<close>

datatype sync = Sync_mpi mpi_call | Sync_timer timer

fun lockstep :: "bool \<Rightarrow> rank_action list \<Rightarrow> sync list" where
  "lockstep en [] = []"
| "lockstep en (Set_enabled b # acts) = lockstep b acts"
| "lockstep en (Stop t # acts) = (if en then [Sync_timer t] else []) @ lockstep en acts"
| "lockstep en (Skip t # acts) = (if en then [Sync_timer t] else []) @ lockstep en acts"
| "lockstep en (Mpi Comm_test call # acts) = Sync_mpi call # lockstep en acts"
| "lockstep en (_ # acts) = lockstep en acts"

fun enabled_after :: "bool \<Rightarrow> rank_action list \<Rightarrow> bool" where
  "enabled_after en [] = en"
| "enabled_after en (Set_enabled b # acts) = enabled_after b acts"
| "enabled_after en (_ # acts) = enabled_after en acts"

text \<open>The calls of NCCL on a communicator, and those of MPI on the communicator of the color.\<close>

definition nccl_calls :: "nccl_comm \<Rightarrow> rank_action list \<Rightarrow> nccl_call list" where
  "nccl_calls c acts = List.map_filter (\<lambda>act. case act of Nccl c' call args \<Rightarrow> if c' = c then Some call else None | _ \<Rightarrow> None) acts"

definition color_calls :: "rank_action list \<Rightarrow> mpi_call list" where
  "color_calls acts = List.map_filter (\<lambda>act. case act of Mpi Comm_color call \<Rightarrow> Some call | _ \<Rightarrow> None) acts"

text \<open>The exclude lists of the shrinks.\<close>

definition shrink_args :: "rank_action list \<Rightarrow> int list list" where
  "shrink_args acts = List.map_filter (\<lambda>act. case act of Nccl c Nccl_shrink args \<Rightarrow> Some args | _ \<Rightarrow> None) acts"

text \<open>The ranks of a communicator of NCCL.\<close>

definition comm_member :: "comm_args \<Rightarrow> int \<Rightarrow> nccl_comm \<Rightarrow> int \<Rightarrow> bool" where
  "comm_member a nranks c rank =
     (case c of
        Comm_parent \<Rightarrow> ca_test_kind a = Test_grow \<longrightarrow> pick_color a rank nranks = 0
      | Comm_child \<Rightarrow> ca_test_kind a = Test_shrink \<longrightarrow> pick_color a rank nranks = 0)"

lemma lockstep_append: "lockstep en (xs @ ys) = lockstep en xs @ lockstep (enabled_after en xs) ys"
  by (induction en xs rule: lockstep.induct) auto

lemma enabled_after_append: "enabled_after en (xs @ ys) = enabled_after (enabled_after en xs) ys"
  by (induction en xs rule: enabled_after.induct) auto

text \<open>Lists that look the same to the other ranks.\<close>

definition in_step :: "rank_action list \<Rightarrow> rank_action list \<Rightarrow> bool" where
  "in_step xs ys \<longleftrightarrow> (\<forall>en. lockstep en xs = lockstep en ys \<and> enabled_after en xs = enabled_after en ys)"

lemma in_step_refl [intro, simp]: "in_step xs xs" by (simp add: in_step_def)

lemma in_step_append [intro]: "in_step xs xs' \<Longrightarrow> in_step ys ys' \<Longrightarrow> in_step (xs @ ys) (xs' @ ys')"
  by (simp add: in_step_def lockstep_append enabled_after_append)

lemma in_step_Cons [intro]: "in_step ys ys' \<Longrightarrow> in_step (x # ys) (x # ys')"
  using in_step_append [of "[x]" "[x]" ys ys'] by simp

lemma in_step_concat [intro]: "(\<And>j. in_step (f j) (g j)) \<Longrightarrow> in_step (concat (map f js)) (concat (map g js))"
  by (induction js) auto

lemma do_work_in_step: "in_step (do_work c) (do_work c')"
  by (auto simp: in_step_def do_work_def split: option.splits)

lemma do_works_in_step: "in_step (do_works a c) (do_works a c')"
  unfolding do_works_def by (intro in_step_concat do_work_in_step)

lemma tear_down_in_step:
  "in_step (tear_down a c) (tear_down a c')" "in_step (skip_tear_down a) (skip_tear_down a)"
  "in_step (tear_down a c) (skip_tear_down a)" "in_step (skip_tear_down a) (tear_down a c)"
  by (simp_all add: in_step_def tear_down_def skip_tear_down_def)

lemma unique_id_in_step: "in_step (unique_id a r) (unique_id a r')"
  by (simp add: in_step_def unique_id_def)

lemma init_timed_in_step: "in_step (init_timed a n r) (init_timed a n r')"
  by (simp add: in_step_def init_timed_def)

lemmas in_steps = do_works_in_step tear_down_in_step unique_id_in_step init_timed_in_step

lemma split_step_in_step: "in_step (fst (split_step a n r)) (fst (split_step a n r'))"
  by (simp add: in_step_def split_step_def Let_def)

lemma init_round_in_step: "in_step (init_round a n r j) (init_round a n r' j)"
  unfolding init_round_def by (intro in_step_Cons in_step_append in_steps in_step_refl)

lemma split_round_in_step: "in_step (split_round a n r j) (split_round a n r' j)"
proof -
  have "in_step (if c \<noteq> None then tear_down a Comm_child else skip_tear_down a) (if c' \<noteq> None then tear_down a Comm_child else skip_tear_down a)"
    for c c' :: "nccl_comm option" by (simp add: in_steps)
  then show ?thesis
    unfolding split_round_def case_prod_beta by (intro in_step_Cons in_step_append in_steps split_step_in_step)
qed

lemma grow_round_in_step: "in_step (grow_round a n r j) (grow_round a n r' j)"
proof -
  let ?id = "\<lambda>r. if r = 0 then [Local Nccl_commGetUniqueId] else []"
  let ?grow = "\<lambda>r. [Mpi Comm_test Mpi_bcast, Start nccl_grow,
        Nccl Comm_child Nccl_grow [n, if pick_color a r n = 0 then - 1 else r], Stop nccl_grow]"
  have grow: "in_step (?id r) (?id r')" "in_step (?grow r) (?grow r')" by (simp_all add: in_step_def)
  show ?thesis unfolding grow_round_def by (rule in_step_Cons, rule in_step_Cons) (intro in_step_append grow in_steps)
qed

lemma grow_start_in_step:
  "in_step (if c then unique_id a r @ allgatherv_timed Comm_color @ init_timed a n r else [Skip mpi_allgatherv, Skip nccl_init])
           (if c' then unique_id a r' @ allgatherv_timed Comm_color @ init_timed a n r' else [Skip mpi_allgatherv, Skip nccl_init])"
  by (auto simp: in_step_def unique_id_def allgatherv_timed_def init_timed_def)

lemma grow_stop_in_step:
  "in_step (if c then tear_down a Comm_parent else skip_tear_down a) (if c' then tear_down a Comm_parent else skip_tear_down a)"
  by (simp add: in_steps)

lemma main_in_step:
  "in_step (main_init a n r) (main_init a n r')" "in_step (main_split a n r) (main_split a n r')" "in_step (main_grow a n r) (main_grow a n r')"
proof -
  show "in_step (main_init a n r) (main_init a n r')"
    unfolding main_init_def by (intro in_step_Cons in_step_append in_step_concat init_round_in_step in_step_refl)
  have "in_step (barrier_timed @ unique_id a r @ allgatherv_timed Comm_test @ init_timed a n r @ concat (map (split_round a n r) (rounds a)) @ tear_down a Comm_parent)
    (barrier_timed @ unique_id a r' @ allgatherv_timed Comm_test @ init_timed a n r' @ concat (map (split_round a n r') (rounds a)) @ tear_down a Comm_parent)"
    by (intro in_step_append in_steps in_step_concat split_round_in_step in_step_refl)
  then show "in_step (main_split a n r) (main_split a n r')" unfolding main_split_def by (cases "n = 1") (simp_all add: in_step_Cons)
  have "in_step (barrier_timed @ [Mpi Comm_test Mpi_split] @ (if c then unique_id a r @ allgatherv_timed Comm_color @ init_timed a m r else [Skip mpi_allgatherv, Skip nccl_init])
      @ do_works a w @ concat (map (grow_round a n r) (rounds a)) @ (if c then tear_down a Comm_parent else skip_tear_down a))
    (barrier_timed @ [Mpi Comm_test Mpi_split] @ (if c' then unique_id a r' @ allgatherv_timed Comm_color @ init_timed a m r' else [Skip mpi_allgatherv, Skip nccl_init])
      @ do_works a w' @ concat (map (grow_round a n r') (rounds a)) @ (if c' then tear_down a Comm_parent else skip_tear_down a))" for c c' w w' m
    by (intro in_step_append do_works_in_step in_step_concat grow_round_in_step in_step_refl grow_start_in_step grow_stop_in_step)
  then show "in_step (main_grow a n r) (main_grow a n r')"
    unfolding main_grow_def Let_def by (simp del: append.simps add: in_step_Cons)
qed

lemma comm_test_in_lockstep: "lockstep en (comm_test a nranks rank) = lockstep en (comm_test a nranks rank')"
  using main_in_step [of a nranks rank rank'] by (cases "ca_test_kind a") (simp_all add: comm_test_def in_step_def)

text \<open>C12: the contract of the timers. All ranks of a communicator record the same timers in the same order, and between them make
  the same calls of MPI on it: the tests cannot block in a flush or in a call of their own, and the k-th record of all ranks is of the same
  timer.
\<close>

theorem ranks_in_lockstep: "lockstep en (comm_test a nranks rank) = lockstep en (comm_test a nranks rank')"
  by (rule comm_test_in_lockstep)

section \<open>The communicators\<close>

lemma calls_append:
  "nccl_calls c (xs @ ys) = nccl_calls c xs @ nccl_calls c ys" "color_calls (xs @ ys) = color_calls xs @ color_calls ys"
  "shrink_args (xs @ ys) = shrink_args xs @ shrink_args ys"
  by (simp_all add: nccl_calls_def color_calls_def shrink_args_def map_filter_def)

lemma calls_Cons:
  "nccl_calls c (x # y # ys) = nccl_calls c [x] @ nccl_calls c (y # ys)" "color_calls (x # y # ys) = color_calls [x] @ color_calls (y # ys)"
  "shrink_args (x # y # ys) = shrink_args [x] @ shrink_args (y # ys)"
  using calls_append(1) [of c "[x]" "y # ys"] calls_append(2,3) [of "[x]" "y # ys"] by simp_all

lemma calls_Nil: "nccl_calls c [] = []" "color_calls [] = []" "shrink_args [] = []"
  by (simp_all add: nccl_calls_def color_calls_def shrink_args_def map_filter_def)

lemma calls_concat:
  "nccl_calls c (concat (map f js)) = concat (map (\<lambda>j. nccl_calls c (f j)) js)"
  "color_calls (concat (map f js)) = concat (map (\<lambda>j. color_calls (f j)) js)"
  "shrink_args (concat (map f js)) = concat (map (\<lambda>j. shrink_args (f j)) js)"
  by (induction js) (simp_all add: calls_append calls_Nil)

lemma calls_one:
  "nccl_calls c [Set_enabled b] = []" "nccl_calls c [Start t] = []" "nccl_calls c [Stop t] = []" "nccl_calls c [Skip t] = []"
  "nccl_calls c [Mpi m call] = []" "nccl_calls c [Local ncall] = []" "nccl_calls c [Stream_sync] = []"
  "nccl_calls c [Nccl c' ncall args] = (if c' = c then [ncall] else [])"
  "color_calls [Set_enabled b] = []" "color_calls [Start t] = []" "color_calls [Stop t] = []" "color_calls [Skip t] = []"
  "color_calls [Mpi m call] = (if m = Comm_color then [call] else [])" "color_calls [Local ncall] = []" "color_calls [Stream_sync] = []"
  "color_calls [Nccl c' ncall args] = []"
  "shrink_args [Set_enabled b] = []" "shrink_args [Start t] = []" "shrink_args [Stop t] = []" "shrink_args [Skip t] = []"
  "shrink_args [Mpi m call] = []" "shrink_args [Local ncall] = []" "shrink_args [Stream_sync] = []"
  "shrink_args [Nccl c' ncall args] = (if ncall = Nccl_shrink then [args] else [])"
  by (cases m; cases ncall; simp_all add: nccl_calls_def color_calls_def shrink_args_def map_filter_def)+

lemma calls_first:
  "nccl_calls c (x # xs @ ys) = nccl_calls c [x] @ nccl_calls c xs @ nccl_calls c ys"
  "color_calls (x # xs @ ys) = color_calls [x] @ color_calls xs @ color_calls ys"
  "shrink_args (x # xs @ ys) = shrink_args [x] @ shrink_args xs @ shrink_args ys"
  using calls_append(1) [of c "[x]" "xs @ ys"] calls_append(2,3) [of "[x]" "xs @ ys"] by (simp_all add: calls_append)

lemmas calls = calls_Cons calls_first calls_append calls_concat calls_one calls_Nil

lemma parts_calls:
  "nccl_calls c (unique_id a r) = []" "color_calls (unique_id a r) = []" "shrink_args (unique_id a r) = []"
  "nccl_calls c barrier_timed = []" "color_calls barrier_timed = []" "shrink_args barrier_timed = []"
  "nccl_calls c (allgatherv_timed m) = []" "shrink_args (allgatherv_timed m) = []"
  "nccl_calls c (skip_tear_down a) = []" "color_calls (skip_tear_down a) = []" "shrink_args (skip_tear_down a) = []"
  "color_calls (tear_down a c') = []" "shrink_args (tear_down a c') = []"
  "color_calls (do_work w) = []" "shrink_args (do_work w) = []"
  "nccl_calls c (do_work None) = []"
  "c \<noteq> c' \<Longrightarrow> nccl_calls c (do_work (Some c')) = []" "c \<noteq> c' \<Longrightarrow> nccl_calls c (tear_down a c') = []"
  "nccl_calls c (init_timed a n r) = (if c = Comm_parent then [Nccl_initRank] else [])"
  "color_calls (init_timed a n r) = []" "shrink_args (init_timed a n r) = []"
  "color_calls (allgatherv_timed m) = (if m = Comm_color then [Mpi_allgatherv] else [])"
  by (simp_all add: unique_id_def barrier_timed_def allgatherv_timed_def skip_tear_down_def tear_down_def do_work_def init_timed_def
      calls split: option.splits)

lemma concat_Nil_map: "concat (map (\<lambda>j. []) js) = []"
  by (induction js) auto

lemma works_calls:
  "nccl_calls c (do_works a None) = []" "color_calls (do_works a w) = []" "shrink_args (do_works a w) = []"
  "c \<noteq> c' \<Longrightarrow> nccl_calls c (do_works a (Some c')) = []"
  by (simp_all add: do_works_def calls parts_calls concat_Nil_map)

text \<open>The calls in a round.\<close>

lemma init_round_calls:
  "nccl_calls c (init_round a n r j) = nccl_calls c (init_timed a n 0 @ do_works a (Some Comm_parent) @ tear_down a Comm_parent)"
  "color_calls (init_round a n r j) = []" "shrink_args (init_round a n r j) = []"
  by (simp_all add: init_round_def calls parts_calls works_calls)

lemma split_round_calls:
  "color_calls (split_round a n r j) = []"
  "nccl_calls Comm_parent (split_round a n r j) = (if ca_test_kind a = Test_split then [Nccl_split] else [])"
  "nccl_calls Comm_child (split_round a n r j) =
     (if ca_test_kind a = Test_split then nccl_calls Comm_child (do_works a (Some Comm_child) @ tear_down a Comm_child)
      else if ca_test_kind a = Test_shrink \<and> pick_color a r n = 0
      then Nccl_shrink # nccl_calls Comm_child (do_works a (Some Comm_child) @ tear_down a Comm_child) else [])"
  "shrink_args (split_round a n r j) =
     (if ca_test_kind a = Test_shrink \<and> pick_color a r n = 0
      then [exclude_ranks a r n @ [int (length (exclude_ranks a r n)), if ca_aborts a then 1 else 0]] else [])"
  by (auto simp: split_round_def split_step_def Let_def calls parts_calls works_calls)

lemma grow_round_calls:
  "color_calls (grow_round a n r j) = []" "shrink_args (grow_round a n r j) = []" "nccl_calls Comm_parent (grow_round a n r j) = []"
  "nccl_calls Comm_child (grow_round a n r j) = Nccl_grow # nccl_calls Comm_child (do_works a (Some Comm_child) @ tear_down a Comm_child)"
  by (simp_all add: grow_round_def calls parts_calls works_calls)

lemma main_init_calls:
  "nccl_calls c (main_init a n r) = nccl_calls c (main_init a n r')" "color_calls (main_init a n r) = []" "shrink_args (main_init a n r) = []"
  "nccl_calls Comm_child (main_init a n r) = []"
  by (simp_all add: main_init_def calls parts_calls init_round_calls concat_Nil_map works_calls)

lemma main_split_calls:
  "color_calls (main_split a n r) = []"
  "nccl_calls Comm_parent (main_split a n r) = nccl_calls Comm_parent (main_split a n r')"
  "(ca_test_kind a = Test_shrink \<longrightarrow> pick_color a r n = pick_color a r' n)
   \<Longrightarrow> nccl_calls Comm_child (main_split a n r) = nccl_calls Comm_child (main_split a n r')"
  "ca_test_kind a = Test_shrink \<Longrightarrow> pick_color a r n \<noteq> 0 \<Longrightarrow> nccl_calls Comm_child (main_split a n r) = []"
  by (auto simp: main_split_def calls parts_calls split_round_calls concat_Nil_map)

lemma main_grow_shrinks: "shrink_args (main_grow a n r) = []"
  by (simp add: main_grow_def Let_def calls parts_calls grow_round_calls concat_Nil_map works_calls)

lemma main_grow_calls:
  "color_calls (main_grow a n r) = (if initial_count a n = 0 \<or> initial_count a n = n \<or> pick_color a r n \<noteq> 0 then [] else [Mpi_allgatherv])"
  "nccl_calls Comm_child (main_grow a n r) = nccl_calls Comm_child (main_grow a n r')"
  "pick_color a r n = pick_color a r' n \<Longrightarrow> nccl_calls Comm_parent (main_grow a n r) = nccl_calls Comm_parent (main_grow a n r')"
  "pick_color a r n \<noteq> 0 \<Longrightarrow> nccl_calls Comm_parent (main_grow a n r) = []"
  by (auto simp: main_grow_def Let_def calls parts_calls grow_round_calls concat_Nil_map works_calls)

text \<open>What the shrinks of a rank are given, in every round.\<close>

lemma main_split_shrinks:
  "shrink_args (main_split a n r) =
     (if n = 1 \<or> ca_test_kind a \<noteq> Test_shrink \<or> pick_color a r n \<noteq> 0 then []
      else map (\<lambda>j. exclude_ranks a r n @ [int (length (exclude_ranks a r n)), if ca_aborts a then 1 else 0]) (rounds a))"
proof -
  have "concat (map (\<lambda>j. [x]) js) = map (\<lambda>j. x) js" for x :: "int list" and js :: "int list" by (induction js) auto
  then show ?thesis by (simp add: main_split_def calls parts_calls split_round_calls concat_Nil_map)
qed

text \<open>C11: the communicators of NCCL. All ranks of a communicator make the same calls on it in the same order; a rank that has no
  such communicator makes none. The shrinks of the ranks that stay exclude the same ranks, which are all others.
\<close>

theorem members_agree:
  assumes "0 < nranks" "0 \<le> rank" "rank < nranks" "0 \<le> rank'" "rank' < nranks"
  shows "(\<forall>c. comm_member a nranks c rank \<and> comm_member a nranks c rank'
        \<longrightarrow> nccl_calls c (comm_test a nranks rank) = nccl_calls c (comm_test a nranks rank'))
    \<and> (\<forall>c. \<not> comm_member a nranks c rank \<longrightarrow> nccl_calls c (comm_test a nranks rank) = [])
    \<and> (\<forall>xs\<in>set (shrink_args (comm_test a nranks rank)). comm_member a nranks Comm_child rank
        \<and> take (length xs - 2) xs = [initial_count a nranks..nranks - 1]
        \<and> xs ! (length xs - 2) = nranks - initial_count a nranks)"
proof (intro conjI allI impI)
  fix c
  assume m: "comm_member a nranks c rank \<and> comm_member a nranks c rank'"
  show "nccl_calls c (comm_test a nranks rank) = nccl_calls c (comm_test a nranks rank')"
  proof (cases "ca_test_kind a")
    case Test_init
    then show ?thesis using main_init_calls(1) by (simp add: comm_test_def)
  next
    case Test_split
    then show ?thesis using main_split_calls(2) main_split_calls(3) [of a rank nranks rank'] by (cases c) (simp_all add: comm_test_def)
  next
    case Test_shrink
    then show ?thesis using m main_split_calls(2) main_split_calls(3) [of a rank nranks rank']
      by (cases c) (simp_all add: comm_test_def comm_member_def)
  next
    case Test_grow
    then show ?thesis using m main_grow_calls(2) main_grow_calls(3) [of a rank nranks rank']
      by (cases c) (simp_all add: comm_test_def comm_member_def)
  qed
next
  fix c
  assume "\<not> comm_member a nranks c rank"
  then show "nccl_calls c (comm_test a nranks rank) = []"
    using main_split_calls(4) main_grow_calls(4)
    by (cases c; cases "ca_test_kind a") (simp_all add: comm_test_def comm_member_def)
next
  show "\<forall>xs\<in>set (shrink_args (comm_test a nranks rank)). comm_member a nranks Comm_child rank
        \<and> take (length xs - 2) xs = [initial_count a nranks..nranks - 1]
        \<and> xs ! (length xs - 2) = nranks - initial_count a nranks"
  proof
    fix xs
    assume xs: "xs \<in> set (shrink_args (comm_test a nranks rank))"
    have k: "ca_test_kind a = Test_shrink \<and> pick_color a rank nranks = 0 \<and>
        xs = exclude_ranks a rank nranks @ [int (length (exclude_ranks a rank nranks)), if ca_aborts a then 1 else 0]"
      using xs main_init_calls(3) [of a nranks rank] by (cases "ca_test_kind a") (auto simp: comm_test_def main_split_shrinks main_grow_shrinks split: if_splits)
    moreover have "exclude_ranks a rank nranks = [initial_count a nranks..nranks - 1]" "initial_count a nranks \<le> nranks"
      using excluded_ranks [OF assms(1,2)] color_count [OF assms(1), of a] k assms by auto
    ultimately show "comm_member a nranks Comm_child rank \<and> take (length xs - 2) xs = [initial_count a nranks..nranks - 1]
        \<and> xs ! (length xs - 2) = nranks - initial_count a nranks" by (simp add: comm_member_def nth_append)
  qed
qed

theorem members_agree_witness:
  "nccl_calls Comm_child (comm_test (default_args\<lparr>ca_test_kind := Test_shrink\<rparr>) 4 3) = []
   \<and> nccl_calls Comm_parent (comm_test (default_args\<lparr>ca_test_kind := Test_shrink\<rparr>) 4 0)
     = nccl_calls Comm_parent (comm_test (default_args\<lparr>ca_test_kind := Test_shrink\<rparr>) 4 3)"
proof -
  let ?a = "default_args\<lparr>ca_test_kind := Test_shrink\<rparr>"
  have "\<not> comm_member ?a 4 Comm_child 3" by (simp add: comm_member_def pick_color_def default_args_def)
  moreover have "comm_member ?a 4 Comm_parent 0" "comm_member ?a 4 Comm_parent 3" by (simp_all add: comm_member_def)
  ultimately show ?thesis
    using members_agree [of 4 3 0 ?a, THEN conjunct2, THEN conjunct1, rule_format, of Comm_child]
      members_agree [of 4 0 3 ?a, THEN conjunct1, rule_format, of Comm_parent] by simp
qed

end
