(* ===== verification/CommTimers.thy ===== *)
theory CommTimers
  imports CommTests "HOL-Library.Multiset"
begin

text \<open>
  The test of communicator operations (src/comm_ops.cu), third part: the timers. Every rank records its times in buffers of
  \<open>flush_interval\<close> entries; when they are full rank 0 gathers those of all ranks and adds them up by timer. Numbers of type \<open>double\<close> are
  rounded by every operation, those of type \<open>int\<close> wrap around.
\<close>

section \<open>The record of a rank\<close>

text \<open>The arrays by timer, on rank 0.\<close>

record totals =
  rounds_by_type :: "timer \<Rightarrow> int"
  sum_by_type :: "timer \<Rightarrow> real"
  sumsq_by_type :: "timer \<Rightarrow> real"
  max_by_type :: "timer \<Rightarrow> real"
  participant_count_by_type :: "timer \<Rightarrow> int"

record timer_record =
  flush_interval :: nat
  currently_enabled :: bool
  tr_count :: nat
  timer_enum_start :: "timer \<Rightarrow> 64 word"
  tr_local :: "real list"
  tr_local_sq :: "real list"
  tr_id :: "timer list"
  tr_participated :: "int list"
  tr_max :: "real list"
  tr_sum :: "real list"
  tr_sumsq :: "real list"
  tr_participant_count :: "int list"
  tr_totals :: totals

text \<open>What \<open>malloc\<close> leaves in the arrays is given by \<open>mem\<close>, \<open>mem_id\<close> and \<open>mem_int\<close>.\<close>

definition no_totals :: totals where
  "no_totals = \<lparr>rounds_by_type = (\<lambda>t. 0), sum_by_type = (\<lambda>t. 0), sumsq_by_type = (\<lambda>t. 0), max_by_type = (\<lambda>t. 0),
     participant_count_by_type = (\<lambda>t. 0)\<rparr>"

definition timing_allocate :: "(nat \<Rightarrow> real) \<Rightarrow> (nat \<Rightarrow> timer) \<Rightarrow> (nat \<Rightarrow> int) \<Rightarrow> nat \<Rightarrow> timer_record" where
  "timing_allocate mem mem_id mem_int flush =
     \<lparr>flush_interval = flush, currently_enabled = True, tr_count = 0, timer_enum_start = (\<lambda>t. 0),
      tr_local = map mem [0..<flush], tr_local_sq = map mem [0..<flush], tr_id = map mem_id [0..<flush],
      tr_participated = map mem_int [0..<flush], tr_max = map mem [0..<flush], tr_sum = map mem [0..<flush],
      tr_sumsq = map mem [0..<flush], tr_participant_count = map mem_int [0..<flush], tr_totals = no_totals\<rparr>"

definition set_timer_enabled :: "bool \<Rightarrow> timer_record \<Rightarrow> timer_record" where
  "set_timer_enabled b tr = tr\<lparr>currently_enabled := b\<rparr>"

definition start_timer :: "64 word \<Rightarrow> timer \<Rightarrow> timer_record \<Rightarrow> timer_record" where
  "start_timer now t tr =
     (if currently_enabled tr then tr\<lparr>timer_enum_start := (timer_enum_start tr)(t := now)\<rparr> else tr)"

text \<open>Recording returns whether the buffers are to be flushed. \<open>flush_timing\<close> is a call of all ranks (below).\<close>

definition record_timer :: "64 word \<Rightarrow> timer \<Rightarrow> bool \<Rightarrow> timer_record \<Rightarrow> timer_record \<times> bool" where
  "record_timer elapsed t rec tr =
     (if \<not> currently_enabled tr then (tr, False)
      else let i = tr_count tr;
               e = dbl (real (unat elapsed));
               tr' = (if i < flush_interval tr
                      then tr\<lparr>tr_local := (tr_local tr)[i := e], tr_id := (tr_id tr)[i := t],
                              tr_participated := (tr_participated tr)[i := if rec then 1 else 0],
                              tr_local_sq := (tr_local_sq tr)[i := dbl (e ^ 2)]\<rparr>
                      else tr);
               tr'' = tr'\<lparr>tr_count := i + 1\<rparr>
           in (tr'', tr_count tr'' = flush_interval tr''))"

definition stop_timer :: "64 word \<Rightarrow> timer \<Rightarrow> timer_record \<Rightarrow> timer_record \<times> bool" where
  "stop_timer now t tr =
     (if \<not> currently_enabled tr then (tr, False) else record_timer (now - timer_enum_start tr t) t True tr)"

definition skip_timer :: "timer \<Rightarrow> timer_record \<Rightarrow> timer_record \<times> bool" where
  "skip_timer t tr = record_timer 0 t False tr"

section \<open>Gathering\<close>

text \<open>\<open>MPI_Reduce\<close> of a buffer of all ranks, entry by entry. The sum of \<open>MPI_SUM\<close> over numbers of type \<open>double\<close> is the parameter \<open>mpi_sum\<close>: MPI
  adds in an order and a grouping of its own, every addition rounds.\<close>

inductive rounded_sums :: "real list \<Rightarrow> real \<Rightarrow> bool" where
  one: "rounded_sums [x] x"
| add: "rounded_sums xs s \<Longrightarrow> rounded_sums ys t \<Longrightarrow> mset zs = mset xs + mset ys \<Longrightarrow> rounded_sums zs (dbl (s + t))"

definition mpi_reduce :: "('b list \<Rightarrow> 'b) \<Rightarrow> nat \<Rightarrow> 'b list list \<Rightarrow> 'b list" where
  "mpi_reduce f n bufs = map (\<lambda>i. f (map (\<lambda>buf. buf ! i) bufs)) [0..<n]"

definition wrap_int :: "int \<Rightarrow> int" where "wrap_int n = sint (word_of_int n :: 32 word)"

definition mpi_sum_int :: "int list \<Rightarrow> int" where "mpi_sum_int xs = wrap_int (sum_list xs)"

definition max_list :: "real list \<Rightarrow> real" where "max_list xs = foldr max (tl xs) (hd xs)"

text \<open>One record of rank 0 after the reductions goes to the totals of its timer.\<close>

definition add_record :: "timer \<Rightarrow> real \<Rightarrow> real \<Rightarrow> real \<Rightarrow> int \<Rightarrow> totals \<Rightarrow> totals" where
  "add_record t s sq m n tot =
     (if n > 0
      then tot\<lparr>sum_by_type := (sum_by_type tot)(t := dbl (sum_by_type tot t + s)),
               sumsq_by_type := (sumsq_by_type tot)(t := dbl (sumsq_by_type tot t + sq)),
               max_by_type := (max_by_type tot)(t := max (max_by_type tot t) m),
               participant_count_by_type := (participant_count_by_type tot)(t := wrap_int (participant_count_by_type tot t + n)),
               rounds_by_type := (rounds_by_type tot)(t := wrap_int (rounds_by_type tot t + 1))\<rparr>
      else tot)"

text \<open>\<open>gather_timing\<close> of the ranks of a communicator, rank 0 first. The second component is true when rank 0 reports an
  error (and the program then returns 1).\<close>

definition gather_timing :: "(real list \<Rightarrow> real) \<Rightarrow> timer_record list \<Rightarrow> timer_record list \<times> bool" where
  "gather_timing mpi_sum ts =
     (let root = hd ts;
          n = flush_interval root;
          root' = root\<lparr>tr_max := mpi_reduce max_list n (map tr_local ts), tr_sum := mpi_reduce mpi_sum n (map tr_local ts),
                       tr_participant_count := mpi_reduce mpi_sum_int n (map tr_participated ts),
                       tr_sumsq := mpi_reduce mpi_sum n (map tr_local_sq ts)\<rparr>;
          mismatch = (\<exists>tr\<in>set ts. tr_count tr \<noteq> tr_count root');
          root'' = root'\<lparr>tr_totals := fold (\<lambda>jj. add_record (tr_id root' ! jj) (tr_sum root' ! jj) (tr_sumsq root' ! jj)
                            (tr_max root' ! jj) (tr_participant_count root' ! jj)) [0..<tr_count root'] (tr_totals root')\<rparr>
      in (root'' # tl ts, mismatch \<or> tr_count root' > flush_interval root'))"

definition flush_timing :: "(real list \<Rightarrow> real) \<Rightarrow> timer_record list \<Rightarrow> timer_record list \<times> bool" where
  "flush_timing mpi_sum ts = (case gather_timing mpi_sum ts of (ts', err) \<Rightarrow> (map (\<lambda>tr. tr\<lparr>tr_count := 0\<rparr>) ts', err))"

text \<open>A record of every rank of the communicator, in step; when the buffers are full all ranks flush.\<close>

definition record_all :: "(real list \<Rightarrow> real) \<Rightarrow> (timer \<times> 64 word \<times> bool) list \<Rightarrow> timer_record list \<times> bool \<Rightarrow> timer_record list \<times> bool" where
  "record_all mpi_sum evs st =
     (let rs = map2 (\<lambda>(t, elapsed, rec) tr. record_timer elapsed t rec tr) evs (fst st) in
      if \<exists>r\<in>set rs. snd r
      then (case flush_timing mpi_sum (map fst rs) of (ts, err) \<Rightarrow> (ts, snd st \<or> err))
      else (map fst rs, snd st))"

text \<open>A line of the summary for a timer: the size of the communicator is known; the maximum, the average and the standard deviation in milliseconds, and the number
  of collective records. The standard deviation is not a number where the difference of the rounded terms is negative: \<^const>\<open>None\<close>.\<close>

definition std_dev :: "totals \<Rightarrow> timer \<Rightarrow> real option" where
  "std_dev tot t =
     (let n = real_of_int (participant_count_by_type tot t);
          A = dbl (sumsq_by_type tot t / n);
          B = dbl (dbl (sum_by_type tot t / n) ^ 2);
          d = dbl (A - B)
      in if participant_count_by_type tot t > 1 then (if d < 0 then None else Some (dbl (sqrt d))) else Some 0)"

definition milliseconds :: "real \<Rightarrow> real" where "milliseconds x = dbl (x * dbl (1 / 1000000))"

definition summary_line :: "totals \<Rightarrow> timer \<Rightarrow> (real \<times> real \<times> real option \<times> int) option" where
  "summary_line tot t =
     (if rounds_by_type tot t \<le> 0 then None
      else let avg = dbl (sum_by_type tot t / real_of_int (participant_count_by_type tot t))
           in Some (milliseconds (max_by_type tot t), milliseconds avg, map_option milliseconds (std_dev tot t), rounds_by_type tot t))"

definition timer_order :: "timer list" where
  "timer_order = [mpi_init, mpi_barrier, mpi_allgatherv, work_prepare, nccl_init, nccl_split, nccl_grow, nccl_allreduce, nccl_finalize,
     nccl_destroy, nccl_abort, nccl_shrink, cuda_init, cuda_stream_sync]"

text \<open>The lines rank 0 prints for its records, the contexts of different sizes one after the other for each timer.\<close>

definition summary_lines :: "comm_args \<Rightarrow> totals list \<Rightarrow> (timer \<times> nat \<times> real \<times> real \<times> real option \<times> int) list" where
  "summary_lines a tots =
     concat (map (\<lambda>t. if ca_nccl_only a \<noteq> 0 \<and> \<not> timer_type_nccl t then []
                      else List.map_filter (\<lambda>k. map_option (\<lambda>(m, avg, dev, rounds). (t, k, m, avg, dev, rounds)) (summary_line (tots ! k) t)) [0..<length tots])
        timer_order)"

section \<open>What the totals are\<close>

text \<open>A round is a timer and what every rank records for it. The reference for the totals adds up round after round.\<close>

type_synonym timer_round = "timer \<times> (64 word \<times> bool) list"

definition round_events :: "timer_round \<Rightarrow> (timer \<times> 64 word \<times> bool) list" where
  "round_events r = map (\<lambda>x. (fst r, fst x, snd x)) (snd r)"

text \<open>The time and its square as they are recorded, the participation, and the exact time.\<close>

definition ns :: "64 word \<times> bool \<Rightarrow> real" where "ns x = dbl (real (unat (fst x)))"
definition nsq :: "64 word \<times> bool \<Rightarrow> real" where "nsq x = dbl (ns x ^ 2)"
definition part :: "64 word \<times> bool \<Rightarrow> int" where "part x = (if snd x then 1 else 0)"
definition exact_ns :: "64 word \<times> bool \<Rightarrow> real" where "exact_ns x = real (unat (fst x))"

definition add_round :: "(real list \<Rightarrow> real) \<Rightarrow> timer_round \<Rightarrow> totals \<Rightarrow> totals" where
  "add_round mpi_sum r = add_record (fst r) (mpi_sum (map ns (snd r))) (mpi_sum (map nsq (snd r)))
     (max_list (map ns (snd r))) (mpi_sum_int (map part (snd r)))"

text \<open>The rank \<open>i\<close> holds the rounds \<open>pend\<close> in its buffers.\<close>

definition rank_ok :: "nat \<Rightarrow> timer_round list \<Rightarrow> nat \<Rightarrow> timer_record \<Rightarrow> bool" where
  "rank_ok F pend i tr \<longleftrightarrow> flush_interval tr = F \<and> currently_enabled tr \<and> tr_count tr = length pend
     \<and> length (tr_id tr) = F \<and> length (tr_local tr) = F \<and> length (tr_local_sq tr) = F \<and> length (tr_participated tr) = F
     \<and> (\<forall>j<length pend. tr_id tr ! j = fst (pend ! j) \<and> tr_local tr ! j = ns (snd (pend ! j) ! i)
          \<and> tr_local_sq tr ! j = nsq (snd (pend ! j) ! i) \<and> tr_participated tr ! j = part (snd (pend ! j) ! i))"

definition ranks_ok :: "nat \<Rightarrow> timer_round list \<Rightarrow> timer_record list \<Rightarrow> bool" where
  "ranks_ok F pend ts \<longleftrightarrow> (\<forall>i<length ts. rank_ok F pend i (ts ! i))"

lemma record_timer_ok:
  assumes "rank_ok F pend i tr" "length pend < F" "length xs > i"
  shows "rank_ok F (pend @ [(t, xs)]) i (fst (record_timer (fst (xs ! i)) t (snd (xs ! i)) tr))"
    "snd (record_timer (fst (xs ! i)) t (snd (xs ! i)) tr) = (length pend + 1 = F)"
    "tr_totals (fst (record_timer (fst (xs ! i)) t (snd (xs ! i)) tr)) = tr_totals tr"
proof -
  let ?e = "dbl (real (unat (fst (xs ! i))))" and ?p = "if snd (xs ! i) then 1 else 0" and ?n = "length pend"
  have c: "flush_interval tr = F" "currently_enabled tr" "tr_count tr = ?n" using assms(1) by (simp_all add: rank_ok_def)
  have r: "record_timer (fst (xs ! i)) t (snd (xs ! i)) tr =
      (tr\<lparr>tr_local := (tr_local tr)[?n := ?e], tr_id := (tr_id tr)[?n := t], tr_participated := (tr_participated tr)[?n := ?p],
          tr_local_sq := (tr_local_sq tr)[?n := dbl (?e ^ 2)], tr_count := ?n + 1\<rparr>, ?n + 1 = F)"
    using c assms(2) by (simp add: record_timer_def Let_def)
  show "snd (record_timer (fst (xs ! i)) t (snd (xs ! i)) tr) = (?n + 1 = F)"
    "tr_totals (fst (record_timer (fst (xs ! i)) t (snd (xs ! i)) tr)) = tr_totals tr" by (simp_all add: r)
  have l: "length (tr_id tr) = F" "length (tr_local tr) = F" "length (tr_local_sq tr) = F" "length (tr_participated tr) = F"
    using assms(1) by (simp_all add: rank_ok_def)
  let ?tr = "fst (record_timer (fst (xs ! i)) t (snd (xs ! i)) tr)" and ?pend = "pend @ [(t, xs)]"
  have "tr_id ?tr ! j = fst (?pend ! j) \<and> tr_local ?tr ! j = ns (snd (?pend ! j) ! i) \<and> tr_local_sq ?tr ! j = nsq (snd (?pend ! j) ! i)
      \<and> tr_participated ?tr ! j = part (snd (?pend ! j) ! i)" if "j < length ?pend" for j
  proof (cases "j = ?n")
    case True
    then show ?thesis using l assms(2) by (simp add: r ns_def nsq_def part_def)
  next
    case False
    with that have "j < ?n" by simp
    with assms(1) show ?thesis by (simp add: r nth_append rank_ok_def)
  qed
  moreover have "flush_interval ?tr = F" "currently_enabled ?tr" "tr_count ?tr = length ?pend" "length (tr_id ?tr) = F" "length (tr_local ?tr) = F"
    "length (tr_local_sq ?tr) = F" "length (tr_participated ?tr) = F" using c l by (simp_all add: r)
  ultimately show "rank_ok F ?pend i ?tr" unfolding rank_ok_def by blast
qed

lemma rank_ok_update [simp]:
  "rank_ok F pend i (tr\<lparr>tr_max := a, tr_sum := b, tr_participant_count := c, tr_sumsq := d, tr_totals := e\<rparr>) = rank_ok F pend i tr"
  by (simp add: rank_ok_def)

lemma reduce_nth:
  assumes "ranks_ok F pend ts" "j < length pend" "length pend \<le> F" "length (snd (pend ! j)) = length ts"
  shows "mpi_reduce f F (map tr_local ts) ! j = f (map ns (snd (pend ! j)))"
    "mpi_reduce f F (map tr_local_sq ts) ! j = f (map nsq (snd (pend ! j)))"
    "mpi_reduce g F (map tr_participated ts) ! j = g (map part (snd (pend ! j)))"
proof -
  have j: "j < F" using assms by simp
  have "map (\<lambda>tr. tr_local tr ! j) ts = map ns (snd (pend ! j))" "map (\<lambda>tr. tr_local_sq tr ! j) ts = map nsq (snd (pend ! j))"
    "map (\<lambda>tr. tr_participated tr ! j) ts = map part (snd (pend ! j))"
    using assms by (auto simp: list_eq_iff_nth_eq ranks_ok_def rank_ok_def)
  then show "mpi_reduce f F (map tr_local ts) ! j = f (map ns (snd (pend ! j)))"
    "mpi_reduce f F (map tr_local_sq ts) ! j = f (map nsq (snd (pend ! j)))"
    "mpi_reduce g F (map tr_participated ts) ! j = g (map part (snd (pend ! j)))"
    using j by (simp_all add: mpi_reduce_def o_def)
qed

lemma fold_nth: "(\<And>j. j < length xs \<Longrightarrow> f j = g (xs ! j)) \<Longrightarrow> fold f [0..<length xs] s = fold g xs s"
proof (induction xs rule: rev_induct)
  case (snoc x xs)
  have "fold f [0..<length xs] s = fold g xs s" using snoc.prems by (intro snoc.IH) (auto simp: nth_append)
  moreover have "f (length xs) = g x" using snoc.prems [of "length xs"] by simp
  ultimately show ?case by simp
qed simp

lemma gather_totals:
  assumes "ts \<noteq> []" "ranks_ok F pend ts" "length pend \<le> F" "\<And>r. r \<in> set pend \<Longrightarrow> length (snd r) = length ts"
  shows "\<exists>root. gather_timing mpi_sum ts = (root # tl ts, False) \<and> ranks_ok F pend (root # tl ts)
    \<and> tr_totals root = fold (add_round mpi_sum) pend (tr_totals (hd ts))"
proof -
  have r0: "rank_ok F pend 0 (hd ts)" using assms(1,2) by (cases ts) (auto simp: ranks_ok_def)
  then have f: "flush_interval (hd ts) = F" "tr_count (hd ts) = length pend" by (simp_all add: rank_ok_def)
  have c: "\<forall>tr\<in>set ts. tr_count tr = length pend" using assms(2) by (auto simp: ranks_ok_def rank_ok_def in_set_conv_nth)
  have id: "\<forall>j<length pend. tr_id (hd ts) ! j = fst (pend ! j)" using r0 by (simp add: rank_ok_def)
  have fold: "fold (\<lambda>jj. add_record (tr_id (hd ts) ! jj) (mpi_reduce mpi_sum F (map tr_local ts) ! jj) (mpi_reduce mpi_sum F (map tr_local_sq ts) ! jj)
      (mpi_reduce max_list F (map tr_local ts) ! jj) (mpi_reduce mpi_sum_int F (map tr_participated ts) ! jj)) [0..<length pend] tot
    = fold (add_round mpi_sum) pend tot" for tot
    using assms id by (intro fold_nth) (simp add: reduce_nth add_round_def fun_eq_iff)
  obtain root where root: "gather_timing mpi_sum ts = (root # tl ts, False)" "rank_ok F pend 0 root"
    "tr_totals root = fold (add_round mpi_sum) pend (tr_totals (hd ts))"
    using r0 assms(3) c f fold by (simp add: gather_timing_def Let_def)
  have "ranks_ok F pend (root # tl ts)"
    using assms(1,2) root(2) by (cases ts) (auto simp: ranks_ok_def nth_Cons split: nat.splits)
  with root show ?thesis by blast
qed

text \<open>After every round: the buffers hold the rounds since the last flush, the totals of rank 0 the rounds before.\<close>

definition in_sync :: "(real list \<Rightarrow> real) \<Rightarrow> nat \<Rightarrow> timer_round list \<Rightarrow> timer_record list \<times> bool \<Rightarrow> bool" where
  "in_sync mpi_sum F rs st \<longleftrightarrow> (\<exists>old pend. rs = old @ pend \<and> length pend < F \<and> fst st \<noteq> [] \<and> ranks_ok F pend (fst st)
     \<and> tr_totals (hd (fst st)) = fold (add_round mpi_sum) old no_totals \<and> \<not> snd st)"

lemma flush_ranks:
  assumes "ts \<noteq> []" "ranks_ok F pend ts" "length pend \<le> F" "\<And>r. r \<in> set pend \<Longrightarrow> length (snd r) = length ts"
  shows "\<exists>ts'. flush_timing mpi_sum ts = (ts', False) \<and> length ts' = length ts \<and> ranks_ok F [] ts'
    \<and> tr_totals (hd ts') = fold (add_round mpi_sum) pend (tr_totals (hd ts))"
proof -
  from gather_totals [OF assms] obtain root where g: "gather_timing mpi_sum ts = (root # tl ts, False)"
    "ranks_ok F pend (root # tl ts)" "tr_totals root = fold (add_round mpi_sum) pend (tr_totals (hd ts))" by blast
  let ?ts = "map (\<lambda>tr. tr\<lparr>tr_count := 0\<rparr>) (root # tl ts)"
  have "ranks_ok F [] ?ts"
    unfolding ranks_ok_def
  proof (intro allI impI)
    fix i
    assume "i < length ?ts"
    then have i: "i < length (root # tl ts)" by simp
    with g(2) have "rank_ok F pend i ((root # tl ts) ! i)" unfolding ranks_ok_def by blast
    then have "rank_ok F [] i (((root # tl ts) ! i)\<lparr>tr_count := 0\<rparr>)" by (simp add: rank_ok_def)
    then show "rank_ok F [] i (?ts ! i)" using i by (simp only: nth_map)
  qed
  moreover have "flush_timing mpi_sum ts = (?ts, False)" by (simp add: flush_timing_def g(1))
  moreover have "length ?ts = length ts" using assms(1) by (cases ts) auto
  ultimately show ?thesis using g(3) by (intro exI [of _ ?ts]) simp
qed

lemma record_all_in_sync:
  assumes "in_sync mpi_sum F rs st" "\<And>r'. r' \<in> set (r # rs) \<Longrightarrow> length (snd r') = length (fst st)"
  shows "in_sync mpi_sum F (rs @ [r]) (record_all mpi_sum (round_events r) st)" "length (fst (record_all mpi_sum (round_events r) st)) = length (fst st)"
proof -
  obtain ts err where st: "st = (ts, err)" by (cases st)
  obtain t xs where r: "r = (t, xs)" by (cases r)
  from assms(1) obtain old pend where s: "rs = old @ pend" "length pend < F" "ts \<noteq> []" "ranks_ok F pend ts"
    "tr_totals (hd ts) = fold (add_round mpi_sum) old no_totals" "\<not> err" by (auto simp: in_sync_def st)
  have len: "length xs = length ts" using assms(2) [of r] by (simp add: st r)
  have lens: "\<And>r'. r' \<in> set pend \<Longrightarrow> length (snd r') = length ts" using assms(2) by (simp add: st s(1))
  define qs where "qs = map2 (\<lambda>(t, elapsed, rec) tr. record_timer elapsed t rec tr) (round_events r) ts"
  have lrs: "length qs = length ts" using len by (simp add: qs_def round_events_def r)
  have nth: "qs ! i = record_timer (fst (xs ! i)) t (snd (xs ! i)) (ts ! i)" if "i < length ts" for i
    using that len by (simp add: qs_def round_events_def r case_prod_beta)
  note ok = record_timer_ok [OF _ s(2), where xs = xs and t = t]
  have ranks: "ranks_ok F (pend @ [r]) (map fst qs)"
    unfolding ranks_ok_def
  proof (intro allI impI)
    fix i
    assume "i < length (map fst qs)"
    then have i: "i < length ts" "i < length qs" using lrs by simp_all
    then have "map fst qs ! i = fst (record_timer (fst (xs ! i)) t (snd (xs ! i)) (ts ! i))" by (simp only: nth_map nth)
    then show "rank_ok F (pend @ [r]) i (map fst qs ! i)" using ok(1) [of i "ts ! i"] s(4) i len by (simp only: ranks_ok_def r)
  qed
  have tot: "tr_totals (hd (map fst qs)) = fold (add_round mpi_sum) old no_totals"
  proof -
    have z: "0 < length ts" "0 < length qs" using s(3) lrs by auto
    then have "hd (map fst qs) = fst (qs ! 0)" by (metis hd_map hd_conv_nth length_greater_0_conv)
    also have "\<dots> = fst (record_timer (fst (xs ! 0)) t (snd (xs ! 0)) (ts ! 0))" using nth [OF z(1)] by (rule arg_cong)
    finally show ?thesis using ok(3) [of 0 "ts ! 0"] s(3,4,5) z len by (simp add: ranks_ok_def hd_conv_nth)
  qed
  have full: "snd q = (length pend + 1 = F)" if "q \<in> set qs" for q
  proof -
    from that obtain i where i: "i < length ts" "q = qs ! i" using lrs unfolding in_set_conv_nth by auto
    then show ?thesis using ok(2) [of i "ts ! i"] nth [OF i(1)] s(4) len by (simp add: ranks_ok_def)
  qed
  have ne: "map fst qs \<noteq> []" "qs \<noteq> []" using s(3) lrs by auto
  show "in_sync mpi_sum F (rs @ [r]) (record_all mpi_sum (round_events r) st)" "length (fst (record_all mpi_sum (round_events r) st)) = length (fst st)"
  proof -
    consider "length pend + 1 = F" | "length pend + 1 < F" using s(2) by linarith
    then have "in_sync mpi_sum F (rs @ [r]) (record_all mpi_sum (round_events r) st) \<and> length (fst (record_all mpi_sum (round_events r) st)) = length (fst st)"
    proof cases
      case 1
      have "\<And>r'. r' \<in> set (pend @ [r]) \<Longrightarrow> length (snd r') = length (map fst qs)" using len lens lrs by (auto simp: r)
      from flush_ranks [OF ne(1) ranks _ this] 1 obtain ts' where f: "flush_timing mpi_sum (map fst qs) = (ts', False)"
        "length ts' = length ts" "ranks_ok F [] ts'" "tr_totals (hd ts') = fold (add_round mpi_sum) (old @ pend @ [r]) no_totals"
        using tot lrs by auto
      have any: "\<exists>q\<in>set qs. snd q" using full 1 ne(2) by (metis list.set_sel(1))
      have "record_all mpi_sum (round_events r) st = (ts', False)"
        using any s(6) by (simp add: record_all_def Let_def st f(1) flip: qs_def)
      moreover have "ts' \<noteq> []" using f(2) s(3) by auto
      ultimately show ?thesis
        using f s(1) 1 unfolding in_sync_def by (intro conjI exI [of _ "old @ pend @ [r]"] exI [of _ "[]"]) (simp_all add: st)
    next
      case 2
      then have "\<not> (\<exists>q\<in>set qs. snd q)" using full by blast
      then have "record_all mpi_sum (round_events r) st = (map fst qs, err)" by (simp add: record_all_def Let_def st flip: qs_def)
      then show ?thesis using s(1,6) 2 ne(1) ranks tot lrs unfolding in_sync_def
        by (intro conjI exI [of _ old] exI [of _ "pend @ [r]"]) (simp_all add: st)
    qed
    then show "in_sync mpi_sum F (rs @ [r]) (record_all mpi_sum (round_events r) st)" "length (fst (record_all mpi_sum (round_events r) st)) = length (fst st)" by blast+
  qed
qed

text \<open>All rounds, then the last gathering of the summary.\<close>

definition record_rounds :: "(real list \<Rightarrow> real) \<Rightarrow> timer_round list \<Rightarrow> timer_record list \<Rightarrow> timer_record list \<times> bool" where
  "record_rounds mpi_sum rs ts = fold (\<lambda>r. record_all mpi_sum (round_events r)) rs (ts, False)"

definition gathered :: "(real list \<Rightarrow> real) \<Rightarrow> timer_record list \<times> bool \<Rightarrow> totals \<times> bool" where
  "gathered mpi_sum st = (case gather_timing mpi_sum (fst st) of (ts, err) \<Rightarrow> (tr_totals (hd ts), snd st \<or> err))"

lemma record_rounds_in_sync:
  assumes "in_sync mpi_sum F [] (ts, False)" "\<And>r. r \<in> set rs \<Longrightarrow> length (snd r) = length ts"
  shows "in_sync mpi_sum F rs (record_rounds mpi_sum rs ts) \<and> length (fst (record_rounds mpi_sum rs ts)) = length ts"
  using assms(2)
proof (induction rs rule: rev_induct)
  case Nil
  then show ?case using assms(1) by (simp add: record_rounds_def)
next
  case (snoc r rs)
  then have ih: "in_sync mpi_sum F rs (record_rounds mpi_sum rs ts)" "length (fst (record_rounds mpi_sum rs ts)) = length ts" by simp_all
  with snoc.prems have "\<And>r'. r' \<in> set (r # rs) \<Longrightarrow> length (snd r') = length (fst (record_rounds mpi_sum rs ts))" by auto
  from record_all_in_sync [OF ih(1) this] ih(2) show ?case by (simp add: record_rounds_def)
qed

lemma allocate_in_sync:
  assumes "0 < F" "ts \<noteq> []" "\<And>tr. tr \<in> set ts \<Longrightarrow> \<exists>mem mem_id mem_int. tr = timing_allocate mem mem_id mem_int F"
  shows "in_sync mpi_sum F [] (ts, False)"
proof -
  have "ranks_ok F [] ts" using assms(3) nth_mem by (fastforce simp: ranks_ok_def rank_ok_def timing_allocate_def)
  moreover have "tr_totals (hd ts) = no_totals" using assms(2,3) hd_in_set [of ts] by (fastforce simp: timing_allocate_def)
  ultimately show ?thesis using assms(1,2) by (simp add: in_sync_def)
qed

lemma gathered_totals:
  assumes "in_sync mpi_sum F rs st" "\<And>r. r \<in> set rs \<Longrightarrow> length (snd r) = length (fst st)"
  shows "gathered mpi_sum st = (fold (add_round mpi_sum) rs no_totals, False)"
proof -
  from assms(1) obtain old pend where s: "rs = old @ pend" "length pend < F" "fst st \<noteq> []" "ranks_ok F pend (fst st)"
    "tr_totals (hd (fst st)) = fold (add_round mpi_sum) old no_totals" "\<not> snd st" by (auto simp: in_sync_def)
  obtain root where "gather_timing mpi_sum (fst st) = (root # tl (fst st), False)" "tr_totals root = fold (add_round mpi_sum) pend (tr_totals (hd (fst st)))"
    using gather_totals [where mpi_sum = mpi_sum, OF s(3,4)] s(1,2) assms(2) by auto
  with s show ?thesis by (simp add: gathered_def)
qed

text \<open>The totals of rounds, in closed form; a rank that takes no part records no time.\<close>

definition skips_zero :: "timer_round \<Rightarrow> bool" where
  "skips_zero r \<longleftrightarrow> (\<forall>x\<in>set (snd r). \<not> snd x \<longrightarrow> fst x = 0)"

definition of_timer :: "timer \<Rightarrow> timer_round list \<Rightarrow> timer_round list" where
  "of_timer t rs = filter (\<lambda>r. fst r = t) rs"

lemma of_timer_snoc: "of_timer t (rs @ [r]) = of_timer t rs @ (if fst r = t then [r] else [])"
  by (simp add: of_timer_def)

lemma parts_nonneg: "0 \<le> sum_list (map part xs)"
  by (induction xs) (auto simp: part_def)

lemma no_parts:
  assumes "\<not> 0 < sum_list (map part (snd r))" "skips_zero r"
  shows "\<forall>x\<in>set (snd r). exact_ns x = 0 \<and> ns x = 0 \<and> part x = 0"
proof -
  have "\<forall>x\<in>set xs. \<not> snd x" if "\<not> 0 < sum_list (map part xs)" for xs :: "(64 word \<times> bool) list"
    using that
  proof (induction xs)
    case (Cons x xs)
    then show ?case using parts_nonneg [of xs] part_def [of x] by (cases "snd x") simp_all
  qed simp
  then have "\<forall>x\<in>set (snd r). \<not> snd x \<and> fst x = 0" using assms by (simp add: skips_zero_def)
  then show ?thesis by (simp add: ns_def exact_ns_def part_def)
qed

lemma parts_le: "sum_list (map part xs) \<le> int (length xs)"
  by (induction xs) (auto simp: part_def)

lemma wrap_int_small: "- (2 ^ 31) \<le> n \<Longrightarrow> n < 2 ^ 31 \<Longrightarrow> wrap_int n = n"
  by (simp add: wrap_int_def sint_sbintrunc' signed_take_bit_int_eq_self_iff)

lemma max_list_greatest: "xs \<noteq> [] \<Longrightarrow> max_list xs \<in> set xs \<and> (\<forall>x\<in>set xs. x \<le> max_list xs)"
proof -
  have "foldr max xs x \<in> set (x # xs) \<and> (\<forall>y\<in>set (x # xs). y \<le> foldr max xs x)" for x :: real and xs
    by (induction xs) (auto simp: max_def)
  then show "xs \<noteq> [] \<Longrightarrow> max_list xs \<in> set xs \<and> (\<forall>x\<in>set xs. x \<le> max_list xs)"
    by (cases xs) (simp_all add: max_list_def)
qed

text \<open>What rounding leaves of a sum of numbers that are not negative: after \<open>k\<close> roundings at most a factor of \<open>(1 + 2 ^ -53) ^ k\<close>, up or
  down, and the sum itself if it is an integer up to \<open>2 ^ 53\<close>.\<close>

definition near :: "nat \<Rightarrow> real \<Rightarrow> real \<Rightarrow> bool" where
  "near k s x \<longleftrightarrow> 0 \<le> s \<and> 0 \<le> x \<and> (1 - 1 / 2 ^ 53) ^ k * x \<le> s \<and> s \<le> (1 + 1 / 2 ^ 53) ^ k * x \<and> (x \<in> \<int> \<and> x \<le> 2 ^ 53 \<longrightarrow> s = x)"

lemma near_refl: "0 \<le> x \<Longrightarrow> near 0 x x"
  by (simp add: near_def)

lemma near_mono: "near k s x \<Longrightarrow> k \<le> m \<Longrightarrow> near m s x"
proof -
  assume a: "near k s x" "k \<le> m"
  have "(1 - 1 / 2 ^ 53 :: real) ^ m \<le> (1 - 1 / 2 ^ 53) ^ k" by (rule power_decreasing [OF a(2)]) simp_all
  then have "(1 - 1 / 2 ^ 53) ^ m * x \<le> (1 - 1 / 2 ^ 53) ^ k * x" using a(1) by (intro mult_right_mono) (simp_all add: near_def)
  moreover have "(1 + 1 / 2 ^ 53 :: real) ^ k \<le> (1 + 1 / 2 ^ 53) ^ m" by (rule power_increasing [OF a(2)]) simp
  then have "(1 + 1 / 2 ^ 53) ^ k * x \<le> (1 + 1 / 2 ^ 53) ^ m * x" using a(1) by (intro mult_right_mono) (simp_all add: near_def)
  ultimately show ?thesis using a(1) unfolding near_def by linarith
qed

lemma near_dbl:
  assumes "near k s x" "x \<in> \<int> \<Longrightarrow> x \<le> 2 ^ 53 \<Longrightarrow> s \<in> \<int>"
  shows "near (Suc k) (dbl s) x"
proof -
  have s: "0 \<le> s" "0 \<le> x" using assms(1) by (simp_all add: near_def)
  note e = round_bits_error [OF s(1) zero_less_numeral]
  have "(1 - 1 / 2 ^ 53) * ((1 - 1 / 2 ^ 53) ^ k * x) \<le> (1 - 1 / 2 ^ 53) * s" using assms(1) by (intro mult_left_mono) (simp_all add: near_def)
  then have "(1 - 1 / 2 ^ 53) ^ Suc k * x \<le> dbl s" unfolding power_Suc mult.assoc by (rule order_trans [OF _ e(1)])
  moreover have "(1 + 1 / 2 ^ 53) * s \<le> (1 + 1 / 2 ^ 53) * ((1 + 1 / 2 ^ 53) ^ k * x)" using assms(1) by (intro mult_left_mono) (simp_all add: near_def)
  then have "dbl s \<le> (1 + 1 / 2 ^ 53) ^ Suc k * x" unfolding power_Suc mult.assoc by (rule order_trans [OF e(2)])
  moreover have "dbl s = x" if x: "x \<in> \<int>" "x \<le> 2 ^ 53"
  proof -
    from x(1) obtain n where n: "x = real_of_int n" by (auto elim: Ints_cases)
    have "real_of_int n \<le> real_of_int (2 ^ 53)" "0 \<le> real_of_int n" using x(2) s(2) by (simp_all add: n)
    then have "\<bar>n\<bar> \<le> 2 ^ 53" unfolding of_int_le_iff by simp
    then have "dbl x = x" unfolding n by (intro round_bits_int) simp_all
    moreover have "s = x" using assms(1) x by (simp add: near_def)
    ultimately show ?thesis by simp
  qed
  ultimately show ?thesis using s round_bits_nonneg [OF s(1)] by (simp add: near_def)
qed

lemma near_add:
  assumes "near k s x" "near k t y" "x \<in> \<int>" "y \<in> \<int>"
  shows "near k (s + t) (x + y)"
proof -
  have "s + t = x + y" if "x + y \<le> 2 ^ 53" using assms that by (simp add: near_def)
  then show ?thesis using assms(1,2) by (simp add: near_def distrib_left add_mono)
qed

lemma near_dbl_add:
  assumes "near k s x" "near k t y" "x \<in> \<int>" "y \<in> \<int>"
  shows "near (Suc k) (dbl (s + t)) (x + y)"
proof (rule near_dbl [OF near_add [OF assms]])
  assume "x + y \<le> 2 ^ 53"
  then have "s = x" "t = y" using assms by (simp_all add: near_def)
  then show "s + t \<in> \<int>" using assms(3,4) by simp
qed

lemma sum_near:
  assumes "list_all2 (near k) xs ys" "\<forall>y\<in>set ys. y \<in> \<int>"
  shows "near k (sum_list xs) (sum_list ys)" "sum_list ys \<in> \<int>"
  using assms
proof (induction xs ys rule: list_all2_induct)
  case (Cons x xs y ys)
  { case 1 then show ?case using Cons near_add by simp }
  { case 2 then show ?case using Cons by simp }
qed (simp_all add: near_def)

text \<open>A sum as MPI computes it, of numbers that are near integers.\<close>

lemma rounded_sums_near:
  assumes "rounded_sums zs s" "list_all2 (near k) zs ws" "\<forall>w\<in>set ws. w \<in> \<int>"
  shows "near (k + length zs - 1) s (sum_list ws) \<and> zs \<noteq> []"
  using assms
proof (induction arbitrary: ws rule: rounded_sums.induct)
  case (one x)
  then show ?case by (auto simp: list_all2_Cons1)
next
  case (add xs s ys t zs)
  have "list_all2 (near k) zs ws" by (rule add.prems)
  moreover have "mset zs = mset (xs @ ys)" using add.hyps(3) by simp
  ultimately obtain vs where vs: "list_all2 (near k) (xs @ ys) vs" "mset vs = mset ws"
    by (metis list_all2_reorder_left_invariance)
  then obtain as bs where ab: "vs = as @ bs" "list_all2 (near k) xs as" "list_all2 (near k) ys bs" by (auto simp: list_all2_append1)
  have ints: "\<forall>w\<in>set vs. w \<in> \<int>" using add.prems(2) vs(2) by (metis set_mset_mset)
  then have n: "near (k + length xs - 1) s (sum_list as)" "xs \<noteq> []" "near (k + length ys - 1) t (sum_list bs)" "ys \<noteq> []"
    using add.IH ab by auto
  have len: "length zs = length xs + length ys" using arg_cong [OF add.hyps(3), of size] by simp
  have m: "near (k + length zs - 2) s (sum_list as)" "near (k + length zs - 2) t (sum_list bs)"
    using n len by (auto intro: near_mono simp: length_greater_0_conv [symmetric] simp del: length_greater_0_conv)
  have sum: "sum_list ws = sum_list as + sum_list bs" using vs(2) ab(1) by (metis sum_mset_sum_list sum_list_append)
  have "sum_list as \<in> \<int>" "sum_list bs \<in> \<int>" using sum_near(2) ab ints by auto
  from near_dbl_add [OF m this] have "near (Suc (k + length zs - 2)) (dbl (s + t)) (sum_list ws)" unfolding sum .
  moreover have "Suc (k + length zs - 2) = k + length zs - 1" using n(2,4) len by (cases xs; cases ys) auto
  ultimately show ?case using n(2) len by (cases xs) auto
qed

lemma mpi_near:
  assumes "\<forall>xs. xs \<noteq> [] \<longrightarrow> rounded_sums xs (mpi_sum xs)" "ps \<noteq> []" "\<forall>p\<in>set ps. near k (f p) (g p) \<and> g p \<in> \<int>"
  shows "near (k + length ps - 1) (mpi_sum (map f ps)) (sum_list (map g ps))" "sum_list (map g ps) \<in> \<int>"
proof -
  have l: "list_all2 (near k) (map f ps) (map g ps)" using assms(3) by (simp add: list_all2_conv_all_nth)
  then show "near (k + length ps - 1) (mpi_sum (map f ps)) (sum_list (map g ps))"
    using rounded_sums_near [of "map f ps" "mpi_sum (map f ps)" k "map g ps"] assms by auto
  show "sum_list (map g ps) \<in> \<int>" using assms(3) by (induction ps) auto
qed

lemma ns_near: "near 1 (ns x) (exact_ns x)" "near 3 (nsq x) (exact_ns x ^ 2)" "exact_ns x \<in> \<int>"
proof -
  let ?e = "exact_ns x"
  have int: "?e \<in> \<int>" "0 \<le> ?e" unfolding exact_ns_def by (rule Ints_of_nat, rule of_nat_0_le_iff)
  then show "exact_ns x \<in> \<int>" by blast
  show n: "near 1 (ns x) ?e" using near_dbl [OF near_refl [OF int(2)]] int by (simp add: ns_def exact_ns_def)
  have "near 2 (ns x ^ 2) (?e ^ 2)"
  proof -
    have b: "0 \<le> ns x" "(1 - 1 / 2 ^ 53) * ?e \<le> ns x" "ns x \<le> (1 + 1 / 2 ^ 53) * ?e" using n by (simp_all add: near_def)
    have "((1 - 1 / 2 ^ 53) * ?e) ^ 2 \<le> ns x ^ 2" using b(2) int(2) by (intro power_mono) simp_all
    moreover have "ns x ^ 2 \<le> ((1 + 1 / 2 ^ 53) * ?e) ^ 2" using b by (intro power_mono)
    moreover have "ns x ^ 2 = ?e ^ 2" if "?e ^ 2 \<le> 2 ^ 53"
    proof -
      have "?e \<le> 2 ^ 53"
      proof (rule ccontr)
        assume "\<not> ?e \<le> 2 ^ 53"
        then have "2 ^ 53 * 1 < ?e * ?e" by (intro mult_strict_mono) simp_all
        then show False using that by (simp add: power2_eq_square)
      qed
      then show ?thesis using n int by (simp add: near_def)
    qed
    ultimately show ?thesis unfolding near_def power_mult_distrib using zero_le_power2 by blast
  qed
  then have "near (Suc 2) (dbl (ns x ^ 2)) (?e ^ 2)"
  proof (rule near_dbl)
    assume "?e ^ 2 \<le> 2 ^ 53" "?e ^ 2 \<in> \<int>"
    with \<open>near 2 (ns x ^ 2) (?e ^ 2)\<close> show "ns x ^ 2 \<in> \<int>" by (simp add: near_def)
  qed
  then show "near 3 (nsq x) (?e ^ 2)" by (simp add: nsq_def)
qed

lemma mpi_parts: "int (length xs) < 2 ^ 31 \<Longrightarrow> mpi_sum_int (map part xs) = sum_list (map part xs)"
  using parts_nonneg [of xs] parts_le [of xs] unfolding mpi_sum_int_def by (intro wrap_int_small) simp_all

text \<open>The totals after rounds of \<open>n\<close> ranks: the sums with a rounding for the conversion (and two for the square), at most \<open>n - 1\<close> in MPI's sum and
  one for every round.\<close>

lemma totals_near:
  assumes mpi: "\<forall>xs. xs \<noteq> [] \<longrightarrow> rounded_sums xs (mpi_sum xs)" and n: "0 < n"
    and rs: "\<And>r. r \<in> set rs \<Longrightarrow> skips_zero r \<and> length (snd r) = n" "int n * int (length rs) < 2 ^ 31"
  shows "near (n + length (of_timer t rs)) (sum_by_type (fold (add_round mpi_sum) rs no_totals) t) (\<Sum>r\<leftarrow>of_timer t rs. sum_list (map exact_ns (snd r)))
    \<and> near (n + length (of_timer t rs) + 2) (sumsq_by_type (fold (add_round mpi_sum) rs no_totals) t) (\<Sum>r\<leftarrow>of_timer t rs. sum_list (map (\<lambda>x. exact_ns x ^ 2) (snd r)))
    \<and> (\<Sum>r\<leftarrow>of_timer t rs. sum_list (map exact_ns (snd r))) \<in> \<int> \<and> (\<Sum>r\<leftarrow>of_timer t rs. sum_list (map (\<lambda>x. exact_ns x ^ 2) (snd r))) \<in> \<int>
    \<and> participant_count_by_type (fold (add_round mpi_sum) rs no_totals) t = (\<Sum>r\<leftarrow>of_timer t rs. sum_list (map part (snd r)))
    \<and> rounds_by_type (fold (add_round mpi_sum) rs no_totals) t = int (length (filter (\<lambda>r. 0 < sum_list (map part (snd r))) (of_timer t rs)))
    \<and> participant_count_by_type (fold (add_round mpi_sum) rs no_totals) t \<le> int n * int (length rs)"
  using rs
proof (induction rs rule: rev_induct)
  case Nil
  then show ?case by (simp add: no_totals_def of_timer_def near_def)
next
  case (snoc r rs)
  define old where "old = fold (add_round mpi_sum) rs no_totals"
  have new: "fold (add_round mpi_sum) (rs @ [r]) no_totals = add_round mpi_sum r old" by (simp add: old_def)
  have s: "skips_zero r" "length (snd r) = n" using snoc.prems(1) by simp_all
  have small: "int n * int (length rs) + int n < 2 ^ 31" using snoc.prems(2) by (simp add: algebra_simps)
  then have n31: "int (length (snd r)) < 2 ^ 31" using s(2) by (smt (verit) mult_nonneg_nonneg of_nat_0_le_iff)
  note count = mpi_parts [OF n31]
  have "int n * int (length rs) < 2 ^ 31" using small by linarith
  then have ih: "near (n + length (of_timer t rs)) (sum_by_type old t) (\<Sum>r\<leftarrow>of_timer t rs. sum_list (map exact_ns (snd r)))"
    "near (n + length (of_timer t rs) + 2) (sumsq_by_type old t) (\<Sum>r\<leftarrow>of_timer t rs. sum_list (map (\<lambda>x. exact_ns x ^ 2) (snd r)))"
    "(\<Sum>r\<leftarrow>of_timer t rs. sum_list (map exact_ns (snd r))) \<in> \<int>" "(\<Sum>r\<leftarrow>of_timer t rs. sum_list (map (\<lambda>x. exact_ns x ^ 2) (snd r))) \<in> \<int>"
    "participant_count_by_type old t = (\<Sum>r\<leftarrow>of_timer t rs. sum_list (map part (snd r)))"
    "rounds_by_type old t = int (length (filter (\<lambda>r. 0 < sum_list (map part (snd r))) (of_timer t rs)))"
    "participant_count_by_type old t \<le> int n * int (length rs)"
    using snoc unfolding old_def by auto
  have ne: "snd r \<noteq> []" using s(2) n by auto
  have "near (1 + n - 1) (mpi_sum (map ns (snd r))) (sum_list (map exact_ns (snd r)))" "sum_list (map exact_ns (snd r)) \<in> \<int>"
    using mpi_near [OF mpi ne, of 1 ns exact_ns] ns_near by (simp_all add: s(2))
  then have one: "near (n + length (of_timer t rs)) (mpi_sum (map ns (snd r))) (sum_list (map exact_ns (snd r)))" "sum_list (map exact_ns (snd r)) \<in> \<int>"
    by (auto intro: near_mono)
  have "near (3 + n - 1) (mpi_sum (map nsq (snd r))) (sum_list (map (\<lambda>x. exact_ns x ^ 2) (snd r)))" "sum_list (map (\<lambda>x. exact_ns x ^ 2) (snd r)) \<in> \<int>"
    using mpi_near [OF mpi ne, of 3 nsq "\<lambda>x. exact_ns x ^ 2"] ns_near by (simp_all add: s(2))
  then have two: "near (n + length (of_timer t rs) + 2) (mpi_sum (map nsq (snd r))) (sum_list (map (\<lambda>x. exact_ns x ^ 2) (snd r)))"
    "sum_list (map (\<lambda>x. exact_ns x ^ 2) (snd r)) \<in> \<int>"
    by (auto intro: near_mono)
  show ?case
  proof (cases "fst r = t")
    case False
    then show ?thesis unfolding new using ih s(2) by (simp add: of_timer_snoc add_round_def add_record_def algebra_simps)
  next
    case t: True
    show ?thesis
    proof (cases "0 < sum_list (map part (snd r))")
      case True
      have c: "wrap_int (participant_count_by_type old t + sum_list (map part (snd r)))
          = participant_count_by_type old t + sum_list (map part (snd r))"
        "participant_count_by_type old t + sum_list (map part (snd r)) \<le> int n * int (length rs) + int n"
      proof -
        have "0 \<le> (\<Sum>r\<leftarrow>of_timer t rs. sum_list (map part (snd r)))" by (rule sum_list_nonneg) (auto simp: parts_nonneg)
        then have "0 \<le> participant_count_by_type old t" unfolding ih(5) .
        then show "wrap_int (participant_count_by_type old t + sum_list (map part (snd r)))
            = participant_count_by_type old t + sum_list (map part (snd r))"
          using True parts_le [of "snd r"] ih(7) small s(2) by (intro wrap_int_small) linarith+
        show "participant_count_by_type old t + sum_list (map part (snd r)) \<le> int n * int (length rs) + int n"
          using parts_le [of "snd r"] ih(7) s(2) by linarith
      qed
      have r: "wrap_int (rounds_by_type old t + 1) = rounds_by_type old t + 1"
      proof (rule wrap_int_small)
        have "length (filter (\<lambda>r. 0 < sum_list (map part (snd r))) (of_timer t rs)) \<le> length rs"
          unfolding of_timer_def by (meson le_trans length_filter_le)
        moreover have "int (length rs) \<le> int n * int (length rs)" using n by (cases n) (simp_all add: algebra_simps)
        ultimately show "rounds_by_type old t + 1 < 2 ^ 31" using small n unfolding ih(6) by linarith
      qed (simp add: ih(6))
      note sums = near_dbl_add [OF ih(1) one(1) ih(3) one(2)] near_dbl_add [OF ih(2) two(1) ih(4) two(2)]
      show ?thesis unfolding new using True t ih one(2) two(2) sums c r s(2)
        by (simp add: of_timer_snoc add_round_def add_record_def count algebra_simps)
    next
      case False
      note z = no_parts [OF False s(1)]
      then have "sum_list (map exact_ns (snd r)) = 0" "sum_list (map (\<lambda>x. exact_ns x ^ 2) (snd r)) = 0" "sum_list (map part (snd r)) = 0"
        by (simp_all cong: map_cong)
      moreover have "near (n + (length (of_timer t rs) + 1)) (sum_by_type old t) (\<Sum>r\<leftarrow>of_timer t rs. sum_list (map exact_ns (snd r)))"
        "near (n + (length (of_timer t rs) + 1) + 2) (sumsq_by_type old t) (\<Sum>r\<leftarrow>of_timer t rs. sum_list (map (\<lambda>x. exact_ns x ^ 2) (snd r)))"
        by (rule near_mono [OF ih(1)], simp, rule near_mono [OF ih(2)], simp)
      ultimately show ?thesis unfolding new using False t ih s(2)
        by (simp add: of_timer_snoc add_round_def add_record_def count algebra_simps)
    qed
  qed
qed

lemma max_closed:
  fixes t :: timer and mpi_sum :: "real list \<Rightarrow> real"
  assumes "\<And>r. r \<in> set rs \<Longrightarrow> skips_zero r" "\<And>r. r \<in> set rs \<Longrightarrow> snd r \<noteq> [] \<and> int (length (snd r)) < 2 ^ 31"
  defines "m \<equiv> max_by_type (fold (add_round mpi_sum) rs no_totals) t"
  shows "\<forall>r\<in>set (of_timer t rs). \<forall>x\<in>set (snd r). ns x \<le> m" "m = 0 \<or> (\<exists>r\<in>set (of_timer t rs). \<exists>x\<in>set (snd r). m = ns x)" "0 \<le> m"
proof -
  have "(\<forall>r\<in>set (of_timer t rs). \<forall>x\<in>set (snd r). ns x \<le> max_by_type (fold (add_round mpi_sum) rs no_totals) t)
    \<and> (max_by_type (fold (add_round mpi_sum) rs no_totals) t = 0 \<or> (\<exists>r\<in>set (of_timer t rs). \<exists>x\<in>set (snd r). max_by_type (fold (add_round mpi_sum) rs no_totals) t = ns x))
    \<and> 0 \<le> max_by_type (fold (add_round mpi_sum) rs no_totals) t"
    using assms(1,2)
  proof (induction rs rule: rev_induct)
    case Nil
    then show ?case by (simp add: of_timer_def no_totals_def)
  next
    case (snoc r rs)
    let ?old = "max_by_type (fold (add_round mpi_sum) rs no_totals) t" and ?m = "max_list (map ns (snd r))"
    have ih: "\<forall>r\<in>set (of_timer t rs). \<forall>x\<in>set (snd r). ns x \<le> ?old" "0 \<le> ?old"
      "?old = 0 \<or> (\<exists>r\<in>set (of_timer t rs). \<exists>x\<in>set (snd r). ?old = ns x)" using snoc by auto
    have g: "?m \<in> ns ` set (snd r)" "\<forall>x\<in>set (snd r). ns x \<le> ?m" using max_list_greatest [of "map ns (snd r)"] snoc.prems(2) [of r] by auto
    show ?case
    proof (cases "0 < mpi_sum_int (map part (snd r)) \<and> fst r = t")
      case True
      then have new: "max_by_type (fold (add_round mpi_sum) (rs @ [r]) no_totals) t = max ?old ?m" by (simp add: add_round_def add_record_def)
      have "ns x \<le> max ?old ?m" if "q \<in> set (of_timer t (rs @ [r]))" "x \<in> set (snd q)" for q x
        using that ih(1) g(2) True by (auto simp: of_timer_snoc le_max_iff_disj split: if_splits)
      moreover have "max ?old ?m = 0 \<or> (\<exists>r\<in>set (of_timer t (rs @ [r])). \<exists>x\<in>set (snd r). max ?old ?m = ns x)"
      proof (cases "?old \<le> ?m")
        case True
        then have "max ?old ?m = ?m" by simp
        with g(1) \<open>0 < mpi_sum_int (map part (snd r)) \<and> fst r = t\<close> show ?thesis by (auto simp: of_timer_snoc)
      next
        case False
        then have "max ?old ?m = ?old" by simp
        with ih(3) show ?thesis by (auto simp: of_timer_snoc)
      qed
      ultimately show ?thesis using ih(2) unfolding new by (auto simp: le_max_iff_disj)
    next
      case False
      then have new: "max_by_type (fold (add_round mpi_sum) (rs @ [r]) no_totals) t = ?old" by (auto simp: add_round_def add_record_def)
      have "mpi_sum_int (map part (snd r)) = sum_list (map part (snd r))" using snoc.prems(2) by (intro mpi_parts) simp
      then have "\<forall>x\<in>set (snd r). ns x = 0" if "fst r = t" using no_parts [of r] False that snoc.prems(1) by simp
      then show ?thesis using ih unfolding new of_timer_snoc by auto
    qed
  qed
  then show "\<forall>r\<in>set (of_timer t rs). \<forall>x\<in>set (snd r). ns x \<le> m" "m = 0 \<or> (\<exists>r\<in>set (of_timer t rs). \<exists>x\<in>set (snd r). m = ns x)" "0 \<le> m"
    unfolding m_def by blast+
qed

section \<open>The summary of a test\<close>

text \<open>What a rank records in a list of actions: \<open>clock k\<close> is what \<open>clockNano\<close> returns at the action \<open>k\<close>.\<close>

fun rank_records :: "(nat \<Rightarrow> 64 word) \<Rightarrow> nat \<Rightarrow> bool \<Rightarrow> (timer \<Rightarrow> 64 word) \<Rightarrow> rank_action list \<Rightarrow> (timer \<times> 64 word \<times> bool) list" where
  "rank_records clock k en starts [] = []"
| "rank_records clock k en starts (Set_enabled b # acts) = rank_records clock (k + 1) b starts acts"
| "rank_records clock k en starts (Start t # acts) = rank_records clock (k + 1) en (if en then starts(t := clock k) else starts) acts"
| "rank_records clock k en starts (Stop t # acts) = (if en then [(t, clock k - starts t, True)] else []) @ rank_records clock (k + 1) en starts acts"
| "rank_records clock k en starts (Skip t # acts) = (if en then [(t, 0, False)] else []) @ rank_records clock (k + 1) en starts acts"
| "rank_records clock k en starts (_ # acts) = rank_records clock (k + 1) en starts acts"

text \<open>It is what the operations on the timers hand to \<^const>\<open>record_timer\<close>.\<close>

lemma timer_operations:
  "currently_enabled tr \<Longrightarrow> stop_timer now t tr = record_timer (now - timer_enum_start tr t) t True tr"
  "\<not> currently_enabled tr \<Longrightarrow> stop_timer now t tr = (tr, False) \<and> skip_timer t tr = (tr, False) \<and> start_timer now t tr = tr"
  by (simp_all add: stop_timer_def skip_timer_def start_timer_def record_timer_def)

definition timers_of :: "sync list \<Rightarrow> timer list" where
  "timers_of ss = List.map_filter (\<lambda>s. case s of Sync_timer t \<Rightarrow> Some t | Sync_mpi call \<Rightarrow> None) ss"

lemma timers_of_records: "map fst (rank_records clock k en starts acts) = timers_of (lockstep en acts)"
proof -
  have "lockstep en (Mpi c call # acts) = (if c = Comm_test then [Sync_mpi call] else []) @ lockstep en acts" for en c call acts
    by (cases c) simp_all
  then show ?thesis
    by (induction clock k en starts acts rule: rank_records.induct) (simp_all add: timers_of_def map_filter_def)
qed

lemma records_skip_zero: "(t, e, p) \<in> set (rank_records clock k en starts acts) \<Longrightarrow> \<not> p \<Longrightarrow> e = 0"
  by (induction clock k en starts acts rule: rank_records.induct) (auto split: if_splits)

text \<open>The records of rank \<open>r\<close> in a test, and the rounds of all ranks.\<close>

definition test_records :: "comm_args \<Rightarrow> nat \<Rightarrow> (nat \<Rightarrow> nat \<Rightarrow> 64 word) \<Rightarrow> nat \<Rightarrow> (timer \<times> 64 word \<times> bool) list" where
  "test_records a n clock r = rank_records (clock r) 0 True (\<lambda>t. 0) (comm_test a (int n) (int r))"

definition test_rounds :: "comm_args \<Rightarrow> nat \<Rightarrow> (nat \<Rightarrow> nat \<Rightarrow> 64 word) \<Rightarrow> timer_round list" where
  "test_rounds a n clock =
     map (\<lambda>k. (fst (test_records a n clock 0 ! k), map (\<lambda>r. snd (test_records a n clock r ! k)) [0..<n])) [0..<length (test_records a n clock 0)]"

lemma records_aligned: "map fst (test_records a n clock r) = map fst (test_records a n clock 0)"
  unfolding test_records_def timers_of_records by (simp only: comm_test_in_lockstep [of _ a "int n" "int r" "int 0"])

lemma records_aligned_nth:
  "length (test_records a n clock r) = length (test_records a n clock 0)"
  "k < length (test_records a n clock 0) \<Longrightarrow> fst (test_records a n clock r ! k) = fst (test_records a n clock 0 ! k)"
proof -
  note al = records_aligned [of a n clock r]
  show len: "length (test_records a n clock r) = length (test_records a n clock 0)" using arg_cong [OF al, of length] by simp
  assume "k < length (test_records a n clock 0)"
  then show "fst (test_records a n clock r ! k) = fst (test_records a n clock 0 ! k)"
    using arg_cong [OF al, of "\<lambda>xs. xs ! k"] len by simp
qed

lemma sum_list_filter_nth:
  fixes g :: "'a \<Rightarrow> 'b::comm_monoid_add"
  shows "sum_list (map g (filter P xs)) = (\<Sum>k<length xs. if P (xs ! k) then g (xs ! k) else 0)"
  unfolding sum_list_map_filter' by (simp add: sum_list_sum_nth atLeast0LessThan)

lemma test_rounds_nth:
  "length (test_rounds a n clock) = length (test_records a n clock 0)"
  "k < length (test_records a n clock 0)
   \<Longrightarrow> test_rounds a n clock ! k = (fst (test_records a n clock 0 ! k), map (\<lambda>r. snd (test_records a n clock r ! k)) [0..<n])"
  by (simp_all add: test_rounds_def)

text \<open>Adding up round after round, or rank after rank.\<close>

lemma rounds_by_rank:
  fixes h :: "64 word \<times> bool \<Rightarrow> 'b::comm_monoid_add"
  shows "(\<Sum>q\<leftarrow>of_timer t (test_rounds a n clock). sum_list (map h (snd q)))
    = (\<Sum>r<n. sum_list (map (\<lambda>x. h (snd x)) (filter (\<lambda>x. fst x = t) (test_records a n clock r))))"
proof -
  let ?m = "length (test_records a n clock 0)" and ?rec = "\<lambda>r k. test_records a n clock r ! k"
  have "(\<Sum>q\<leftarrow>of_timer t (test_rounds a n clock). sum_list (map h (snd q)))
      = (\<Sum>k<?m. if fst (?rec 0 k) = t then \<Sum>r<n. h (snd (?rec r k)) else 0)"
    unfolding of_timer_def sum_list_filter_nth
    by (simp add: test_rounds_nth sum_list_sum_nth atLeast0LessThan cong: if_cong)
  also have "\<dots> = (\<Sum>k<?m. \<Sum>r<n. if fst (?rec r k) = t then h (snd (?rec r k)) else 0)"
  proof (rule sum.cong [OF refl])
    fix k
    assume "k \<in> {..<?m}"
    then have k: "k < ?m" by simp
    define c where "c = fst (?rec 0 k)"
    have "fst (?rec r k) = c" for r unfolding c_def by (rule records_aligned_nth(2) [OF k])
    then show "(if fst (?rec 0 k) = t then \<Sum>r<n. h (snd (?rec r k)) else 0) = (\<Sum>r<n. if fst (?rec r k) = t then h (snd (?rec r k)) else 0)"
      by (cases "fst (?rec 0 k) = t") simp_all
  qed
  also have "\<dots> = (\<Sum>r<n. \<Sum>k<?m. if fst (?rec r k) = t then h (snd (?rec r k)) else 0)" by (rule sum.swap)
  also have "\<dots> = (\<Sum>r<n. sum_list (map (\<lambda>x. h (snd x)) (filter (\<lambda>x. fst x = t) (test_records a n clock r))))"
  proof (rule sum.cong [OF refl])
    fix r
    have "sum_list (map (\<lambda>x. h (snd x)) (filter (\<lambda>x. fst x = t) (test_records a n clock r)))
      = (\<Sum>k<length (test_records a n clock r). if fst (?rec r k) = t then h (snd (?rec r k)) else 0)" by (rule sum_list_filter_nth)
    then show "(\<Sum>k<?m. if fst (?rec r k) = t then h (snd (?rec r k)) else 0)
      = sum_list (map (\<lambda>x. h (snd x)) (filter (\<lambda>x. fst x = t) (test_records a n clock r)))"
      unfolding records_aligned_nth(1) [of a n clock r] by (rule sym)
  qed
  finally show ?thesis .
qed

lemma test_rounds_ok:
  "r \<in> set (test_rounds a n clock) \<Longrightarrow> skips_zero r" "r \<in> set (test_rounds a n clock) \<Longrightarrow> length (snd r) = n"
proof -
  assume "r \<in> set (test_rounds a n clock)"
  then obtain k where k: "k < length (test_records a n clock 0)" "r = (fst (test_records a n clock 0 ! k), map (\<lambda>r. snd (test_records a n clock r ! k)) [0..<n])"
    by (auto simp: test_rounds_def)
  then show "length (snd r) = n" by simp
  have "fst (snd (test_records a n clock i ! k)) = 0" if "\<not> snd (snd (test_records a n clock i ! k))" for i
  proof -
    have "test_records a n clock i ! k \<in> set (test_records a n clock i)" using k(1) records_aligned_nth(1) [of a n clock i] by (intro nth_mem) linarith
    then show ?thesis using records_skip_zero that unfolding test_records_def by (metis prod.collapse)
  qed
  with k(2) show "skips_zero r" by (auto simp: skips_zero_def)
qed

text \<open>The records of a timer by rank \<open>r\<close>.\<close>

definition records_of :: "comm_args \<Rightarrow> nat \<Rightarrow> (nat \<Rightarrow> nat \<Rightarrow> 64 word) \<Rightarrow> timer \<Rightarrow> nat \<Rightarrow> (64 word \<times> bool) list" where
  "records_of a n clock t r = map snd (filter (\<lambda>x. fst x = t) (test_records a n clock r))"

text \<open>The rounds of a timer hold its records of all ranks.\<close>

lemma records_of_timer: "length (of_timer t (test_rounds a n clock)) = length (records_of a n clock t 0)"
proof -
  have "map fst (test_rounds a n clock) = map fst (test_records a n clock 0)"
    by (rule nth_equalityI) (simp_all add: test_rounds_nth)
  then have "filter (\<lambda>x. x = t) (map fst (test_rounds a n clock)) = filter (\<lambda>x. x = t) (map fst (test_records a n clock 0))" by simp
  then show ?thesis unfolding of_timer_def records_of_def filter_map o_def by (metis length_map)
qed

lemma records_in_rounds:
  "(\<exists>q\<in>set (of_timer t (test_rounds a n clock)). x \<in> set (snd q)) \<longleftrightarrow> (\<exists>r<n. x \<in> set (records_of a n clock t r))"
proof
  assume "\<exists>q\<in>set (of_timer t (test_rounds a n clock)). x \<in> set (snd q)"
  then obtain k where k: "k < length (test_records a n clock 0)" "fst (test_rounds a n clock ! k) = t" "x \<in> set (snd (test_rounds a n clock ! k))"
    by (auto simp: of_timer_def in_set_conv_nth test_rounds_nth)
  then obtain r where r: "r < n" "x = snd (test_records a n clock r ! k)" by (auto simp: test_rounds_nth)
  have "k < length (test_records a n clock r)" "fst (test_records a n clock r ! k) = t"
    using k(1,2) records_aligned_nth(1) [of a n clock r] records_aligned_nth(2) [OF k(1), of r] by (simp_all add: test_rounds_nth)
  then have "x \<in> set (records_of a n clock t r)" using r(2) unfolding records_of_def set_map set_filter by (metis (mono_tags, lifting) image_eqI mem_Collect_eq nth_mem)
  with r(1) show "\<exists>r<n. x \<in> set (records_of a n clock t r)" by blast
next
  assume "\<exists>r<n. x \<in> set (records_of a n clock t r)"
  then obtain r k where r: "r < n" and k: "k < length (test_records a n clock r)" "fst (test_records a n clock r ! k) = t" "x = snd (test_records a n clock r ! k)"
    by (auto simp: records_of_def in_set_conv_nth)
  then have k0: "k < length (test_records a n clock 0)" "fst (test_records a n clock 0 ! k) = t"
    using records_aligned_nth(1) [of a n clock r] records_aligned_nth(2) [of k a n clock r] by simp_all
  have "test_rounds a n clock ! k \<in> set (test_rounds a n clock)" using k0(1) test_rounds_nth(1) [of a n clock] by (intro nth_mem) simp
  moreover have "fst (test_rounds a n clock ! k) = t" "x \<in> set (snd (test_rounds a n clock ! k))" using k(3) k0 r by (simp_all add: test_rounds_nth)
  ultimately show "\<exists>q\<in>set (of_timer t (test_rounds a n clock)). x \<in> set (snd q)"
    unfolding of_timer_def by (intro bexI [of _ "test_rounds a n clock ! k"]) simp_all
qed

text \<open>A variance that is not: six records of 218319572 ns. The sum of their squares is rounded down by 32, and the mean of the squares by 8.\<close>

definition six_rounds :: "timer_round list" where
  "six_rounds = (let r = (nccl_init, [(218319572, True)]) in [r, r, r, r, r, r])"

lemma dbl_places:
  "\<lbrakk>2 ^ (52 + e) \<le> x; x < 2 ^ (53 + e)\<rbrakk> \<Longrightarrow> dbl x = real_of_int (nearest_even (x / 2 ^ e)) * 2 ^ e"
  using round_bits_compute [of 53 e x] by simp

lemma variance_not_a_number:
  assumes "\<forall>xs. xs \<noteq> [] \<longrightarrow> rounded_sums xs (mpi_sum xs)"
  shows "std_dev (fold (add_round mpi_sum) six_rounds no_totals) nccl_init = None"
proof -
  have one: "mpi_sum [x] = x" for x
  proof -
    have "rounded_sums [x] (mpi_sum [x])" using assms by blast
    then show ?thesis
    proof cases
      case (add xs s ys t)
      have "xs \<noteq> []" "ys \<noteq> []"
        using rounded_sums_near [OF add(2), of 0 xs] rounded_sums_near [OF add(3), of 0 ys] add by auto
      moreover have "size (mset [x]) = size (mset xs + mset ys)" using add by simp
      then have "length xs + length ys = 1" by simp
      ultimately show ?thesis by (cases xs; cases ys) simp_all
    qed
  qed
  have x: "dbl 218319572 = 218319572" using round_bits_int [of 53 218319572] by simp
  have q1: "dbl 47663435518263184 = 47663435518263184" by (subst dbl_places [where e = 3]) (simp_all add: nearest_even_def)
  have q2: "dbl 95326871036526368 = 95326871036526368" by (subst dbl_places [where e = 4]) (simp_all add: nearest_even_def)
  have q3: "dbl 142990306554789552 = 142990306554789552" by (subst dbl_places [where e = 4]) (simp_all add: nearest_even_def)
  have q4: "dbl 190653742073052736 = 190653742073052736" by (subst dbl_places [where e = 5]) (simp_all add: nearest_even_def)
  have q5: "dbl 238317177591315920 = 238317177591315904" by (subst dbl_places [where e = 5]) (simp_all add: nearest_even_def)
  have q6: "dbl 285980613109579088 = 285980613109579072" by (subst dbl_places [where e = 5]) (simp_all add: nearest_even_def)
  have s: "dbl 436639144 = 436639144" "dbl 654958716 = 654958716" "dbl 873278288 = 873278288" "dbl 1091597860 = 1091597860" "dbl 1309917432 = 1309917432"
    using round_bits_int [of 53 436639144] round_bits_int [of 53 654958716] round_bits_int [of 53 873278288] round_bits_int [of 53 1091597860]
      round_bits_int [of 53 1309917432] by simp_all
  have A: "dbl (142990306554789536 / 3) = 47663435518263176" by (subst dbl_places [where e = 3]) (simp_all add: nearest_even_def)
  have d: "dbl (- 8) = - 8" using round_bits_int [of 53 "- 8"] by simp
  have "ns (218319572, True) = 218319572" by (simp add: ns_def x)
  moreover from this have "nsq (218319572, True) = 47663435518263184" by (simp add: nsq_def q1)
  moreover have "wrap_int 1 = 1" "wrap_int 2 = 2" "wrap_int 3 = 3" "wrap_int 4 = 4" "wrap_int 5 = 5" "wrap_int 6 = 6" by (simp_all add: wrap_int_small)
  ultimately have "sum_by_type (fold (add_round mpi_sum) six_rounds no_totals) nccl_init = 1309917432"
    "sumsq_by_type (fold (add_round mpi_sum) six_rounds no_totals) nccl_init = 285980613109579072"
    "participant_count_by_type (fold (add_round mpi_sum) six_rounds no_totals) nccl_init = 6"
    by (simp_all add: six_rounds_def Let_def add_round_def add_record_def one no_totals_def mpi_sum_int_def part_def x s q1 q2 q3 q4 q5 q6)
  then show ?thesis by (simp add: std_dev_def x A q1 d)
qed

text \<open>C10: the summary of a test, from the actions of its ranks to the totals on rank 0. Whatever the clocks of the ranks
  show, however often the buffers are flushed (each time they hold \<open>F\<close> records, for any positive \<open>F\<close>) and in whatever order MPI adds, no mismatch of the ranks
  is reported, and every timer counts the records of all ranks in this test, as long as there are fewer than \<open>2 ^ 31\<close>: the participants are exact, the maximum is
  at least every recorded time and one of them (or 0), and the sum and the sum of squares are those of the exact times with the roundings of the
  conversion, of the square, of MPI's additions and of one addition for every round: at most a factor of \<open>(1 + 2 ^ -53) ^ k\<close>, up or down, and exact if they
  are at most \<open>2 ^ 53\<close>. Nothing is said of the variance: rounding can make it negative (\<open>variance_not_a_number\<close>).\<close>

theorem summary_counts_all_ranks:
  assumes "0 < n" "0 < F" "length ts = n" "\<forall>tr\<in>set ts. \<exists>mem mem_id mem_int. tr = timing_allocate mem mem_id mem_int F"
    and mpi: "\<forall>xs. xs \<noteq> [] \<longrightarrow> rounded_sums xs (mpi_sum xs)"
    and small: "int n * int (length (test_records a n clock 0)) < 2 ^ 31"
  shows "\<exists>tot. gathered mpi_sum (record_rounds mpi_sum (test_rounds a n clock) ts) = (tot, False)
    \<and> (\<forall>t. let k = n + length (records_of a n clock t 0);
               T = (\<Sum>r<n. sum_list (map exact_ns (records_of a n clock t r)));
               Q = (\<Sum>r<n. sum_list (map (\<lambda>x. exact_ns x ^ 2) (records_of a n clock t r)))
           in (1 - 1 / 2 ^ 53) ^ k * T \<le> sum_by_type tot t \<and> sum_by_type tot t \<le> (1 + 1 / 2 ^ 53) ^ k * T
         \<and> (T \<le> 2 ^ 53 \<longrightarrow> sum_by_type tot t = T)
         \<and> (1 - 1 / 2 ^ 53) ^ (k + 2) * Q \<le> sumsq_by_type tot t \<and> sumsq_by_type tot t \<le> (1 + 1 / 2 ^ 53) ^ (k + 2) * Q
         \<and> (Q \<le> 2 ^ 53 \<longrightarrow> sumsq_by_type tot t = Q)
         \<and> participant_count_by_type tot t = (\<Sum>r<n. int (length (filter snd (records_of a n clock t r))))
         \<and> (\<forall>r<n. \<forall>x\<in>set (records_of a n clock t r). ns x \<le> max_by_type tot t)
         \<and> (max_by_type tot t = 0 \<or> (\<exists>r<n. \<exists>x\<in>set (records_of a n clock t r). max_by_type tot t = ns x)))"
proof -
  let ?rs = "test_rounds a n clock" and ?tot = "fold (add_round mpi_sum) (test_rounds a n clock) no_totals"
  have "ts \<noteq> []" using assms(1,3) by auto
  from allocate_in_sync [OF assms(2) this assms(4) [rule_format]] have "in_sync mpi_sum F [] (ts, False)" by blast
  with record_rounds_in_sync [of mpi_sum F ts ?rs] test_rounds_ok(2) assms(3)
  have "in_sync mpi_sum F ?rs (record_rounds mpi_sum ?rs ts)" "length (fst (record_rounds mpi_sum ?rs ts)) = n" by auto
  with gathered_totals [of mpi_sum F ?rs "record_rounds mpi_sum ?rs ts"] test_rounds_ok(2)
  have g: "gathered mpi_sum (record_rounds mpi_sum ?rs ts) = (?tot, False)" by auto
  have rs: "skips_zero r \<and> length (snd r) = n" if "r \<in> set ?rs" for r using test_rounds_ok that by blast
  have len: "int n * int (length ?rs) < 2 ^ 31" using small by (simp add: test_rounds_nth)
  note near = totals_near [OF mpi assms(1) rs len]
  have lp: "int (length (filter snd (map snd xs))) = sum_list (map (\<lambda>x. part (snd x)) xs)" for xs :: "(timer \<times> 64 word \<times> bool) list"
    by (induction xs) (simp_all add: part_def)
  have sums: "(\<Sum>r\<leftarrow>of_timer t ?rs. sum_list (map exact_ns (snd r))) = (\<Sum>r<n. sum_list (map exact_ns (records_of a n clock t r)))"
    "(\<Sum>r\<leftarrow>of_timer t ?rs. sum_list (map (\<lambda>x. exact_ns x ^ 2) (snd r))) = (\<Sum>r<n. sum_list (map (\<lambda>x. exact_ns x ^ 2) (records_of a n clock t r)))"
    "(\<Sum>r\<leftarrow>of_timer t ?rs. sum_list (map part (snd r))) = (\<Sum>r<n. int (length (filter snd (records_of a n clock t r))))" for t
    unfolding rounds_by_rank records_of_def lp by (simp_all add: o_def)
  show ?thesis
  proof (intro exI [of _ ?tot] conjI allI)
    fix t
    have ne: "snd r \<noteq> [] \<and> int (length (snd r)) < 2 ^ 31" if r: "r \<in> set ?rs" for r
    proof -
      have "1 \<le> int (length ?rs)" using r by (cases ?rs) simp_all
      then have "int n * 1 \<le> int n * int (length ?rs)" by (rule mult_left_mono) simp
      then have "int n < 2 ^ 31" using len by linarith
      then show ?thesis using rs [OF r] assms(1) by auto
    qed
    have sk: "\<And>r. r \<in> set ?rs \<Longrightarrow> skips_zero r" using rs by blast
    note m = max_closed [where t = t and mpi_sum = mpi_sum, OF sk ne]
    have mx: "\<forall>r<n. \<forall>x\<in>set (records_of a n clock t r). ns x \<le> max_by_type ?tot t"
      "max_by_type ?tot t = 0 \<or> (\<exists>r<n. \<exists>x\<in>set (records_of a n clock t r). max_by_type ?tot t = ns x)"
      using m(1,2) records_in_rounds [of t a n clock] by blast+
    have k: "length (of_timer t ?rs) = length (records_of a n clock t 0)" by (rule records_of_timer)
    show "let k = n + length (records_of a n clock t 0);
               T = (\<Sum>r<n. sum_list (map exact_ns (records_of a n clock t r)));
               Q = (\<Sum>r<n. sum_list (map (\<lambda>x. exact_ns x ^ 2) (records_of a n clock t r)))
           in (1 - 1 / 2 ^ 53) ^ k * T \<le> sum_by_type ?tot t \<and> sum_by_type ?tot t \<le> (1 + 1 / 2 ^ 53) ^ k * T
         \<and> (T \<le> 2 ^ 53 \<longrightarrow> sum_by_type ?tot t = T)
         \<and> (1 - 1 / 2 ^ 53) ^ (k + 2) * Q \<le> sumsq_by_type ?tot t \<and> sumsq_by_type ?tot t \<le> (1 + 1 / 2 ^ 53) ^ (k + 2) * Q
         \<and> (Q \<le> 2 ^ 53 \<longrightarrow> sumsq_by_type ?tot t = Q)
         \<and> participant_count_by_type ?tot t = (\<Sum>r<n. int (length (filter snd (records_of a n clock t r))))
         \<and> (\<forall>r<n. \<forall>x\<in>set (records_of a n clock t r). ns x \<le> max_by_type ?tot t)
         \<and> (max_by_type ?tot t = 0 \<or> (\<exists>r<n. \<exists>x\<in>set (records_of a n clock t r). max_by_type ?tot t = ns x))"
      unfolding Let_def k [symmetric]
      using near [of t] mx unfolding sums near_def by (auto simp: test_rounds_nth)
  qed (rule g)
qed

definition example_timers :: "timer_record list" where
  "example_timers = [timing_allocate (\<lambda>i. 0) (\<lambda>i. mpi_init) (\<lambda>i. 0) 5, timing_allocate (\<lambda>i. 1) (\<lambda>i. cuda_init) (\<lambda>i. 7) 5]"

definition example_clock :: "nat \<Rightarrow> nat \<Rightarrow> 64 word" where
  "example_clock r k = of_nat (3 * k + r)"

text \<open>An order MPI may take: one rank after the other.\<close>

definition sum_in_order :: "real list \<Rightarrow> real" where
  "sum_in_order xs = fold (\<lambda>x s. dbl (s + x)) (tl xs) (hd xs)"

lemma sum_in_order_rounded: "xs \<noteq> [] \<Longrightarrow> rounded_sums xs (sum_in_order xs)"
proof (induction xs rule: rev_induct)
  case (snoc x xs)
  show ?case
  proof (cases "xs = []")
    case False
    then have "sum_in_order (xs @ [x]) = dbl (sum_in_order xs + x)" by (cases xs) (simp_all add: sum_in_order_def)
    with snoc.IH [OF False] show ?thesis by (auto intro: rounded_sums.add rounded_sums.one)
  qed (simp add: sum_in_order_def rounded_sums.one)
qed simp

theorem summary_counts_all_ranks_witness:
  "\<exists>tot. gathered sum_in_order (record_rounds sum_in_order (test_rounds default_args 2 example_clock) example_timers) = (tot, False)"
proof -
  have l: "length example_timers = 2" by (simp add: example_timers_def)
  have ok: "\<forall>tr\<in>set example_timers. \<exists>mem mem_id mem_int. tr = timing_allocate mem mem_id mem_int 5"
    by (auto simp: example_timers_def)
  have mpi: "\<forall>xs. xs \<noteq> [] \<longrightarrow> rounded_sums xs (sum_in_order xs)" using sum_in_order_rounded by blast
  have small: "int 2 * int (length (test_records default_args 2 example_clock 0)) < 2 ^ 31" by code_simp
  have "0 < (2::nat)" "0 < (5::nat)" by simp_all
  from summary_counts_all_ranks [OF this l ok mpi small] show ?thesis by (elim exE conjE) (rule exI)
qed

end
