(* ===== verification/HostOptions.thy ===== *)
theory HostOptions
  imports HostRun HostTests HostMatrix HostJson
begin

unbundle bit_operations_syntax

text \<open>
  The command line of src/common.cu: the numbers and sizes of the options, the loop over them in \<open>main\<close>, and the file of the
  output. \<open>getopt_long\<close> gives the list of the options with their arguments; the theorems show what the options that are accepted satisfy,
  that numbers are read as they are printed, and which part of the file name is the extension.
\<close>

section \<open>Numbers\<close>

text \<open>\<open>strtol\<close> and \<open>strtoul\<close> of the standard library: white space, a sign, the prefix of the base, digits. The result
  is the number, without limits, and the count of characters that have been used.\<close>

definition digit_value :: "char \<Rightarrow> nat" where
  "digit_value c =
     (let n = of_char c in
      if 48 \<le> n \<and> n \<le> 57 then n - 48 else if 65 \<le> n \<and> n \<le> 90 then n - 55 else if 97 \<le> n \<and> n \<le> 122 then n - 87 else 36)"

definition digits_number :: "nat \<Rightarrow> string \<Rightarrow> nat" where
  "digits_number base ds = foldl (\<lambda>v c. base * v + digit_value c) 0 ds"

text \<open>The base of the number at the head of \<open>s\<close> and the characters of its prefix.\<close>

definition number_base :: "nat \<Rightarrow> string \<Rightarrow> nat \<times> nat" where
  "number_base base s =
     (let hex = (base = 0 \<or> base = 16) \<and> 3 \<le> length s \<and> s ! 0 = CHR ''0'' \<and> s ! 1 \<in> {CHR ''x'', CHR ''X''} \<and> digit_value (s ! 2) < 16
      in if hex then (16, 2)
         else if base \<noteq> 0 then (base, 0)
         else if s \<noteq> [] \<and> hd s = CHR ''0'' then (8, 0) else (10, 0))"

definition scan_number :: "nat \<Rightarrow> string \<Rightarrow> int \<times> nat" where
  "scan_number base s =
     (let ws = takeWhile isspace s;
          t = dropWhile isspace s;
          signed = t \<noteq> [] \<and> hd t \<in> {CHR ''-'', CHR ''+''};
          u = (if signed then tl t else t);
          (b, prefix) = number_base base u;
          ds = takeWhile (\<lambda>c. digit_value c < b) (drop prefix u);
          n = int (digits_number b ds)
      in if ds = [] then (0, 0)
         else (if signed \<and> hd t = CHR ''-'' then - n else n, length ws + (if signed then 1 else 0) + prefix + length ds))"

definition strtol :: "string \<Rightarrow> nat \<Rightarrow> int \<times> nat" where
  "strtol s base = (case scan_number base s of (n, used) \<Rightarrow> (max (- (2 ^ 63)) (min (2 ^ 63 - 1) n), used))"

definition strtoul :: "string \<Rightarrow> nat \<Rightarrow> u64 \<times> nat" where
  "strtoul s base = (case scan_number base s of (n, used) \<Rightarrow> (if \<bar>n\<bar> < 2 ^ 64 then word_of_int n else - 1, used))"

text \<open>The conversion of a long to an int.\<close>

definition to_int :: "int \<Rightarrow> int" where
  "to_int n = sint (word_of_int n :: 32 word)"

definition int_arg :: "string \<Rightarrow> int" where
  "int_arg s = to_int (fst (strtol s 0))"



section \<open>The options\<close>






section \<open>The output file\<close>

text \<open>The loop over the path: the positions of the last dot and the last slash, and the length.\<close>

fun scan_path :: "string \<Rightarrow> int \<Rightarrow> int \<Rightarrow> int \<Rightarrow> int \<times> int \<times> int" where
  "scan_path [] pos last_dot last_slash = (last_dot, last_slash, pos)"
| "scan_path (c # cs) pos last_dot last_slash =
     scan_path cs (pos + 1) (if c = CHR ''.'' then pos else last_dot) (if c = CHR ''/'' then pos else last_slash)"

definition getExtension :: "string option \<Rightarrow> string option" where
  "getExtension path =
     (case path of None \<Rightarrow> None
      | Some p \<Rightarrow>
          (let (last_dot, last_slash, pos) = scan_path p 0 (- 1) (- 1)
           in if last_dot > last_slash \<and> last_dot + 1 \<noteq> pos then Some (drop (nat (last_dot + 1)) p) else None))"

definition tolower :: "char \<Rightarrow> char" where
  "tolower c = (let n = of_char c in if 65 \<le> n \<and> n \<le> (90 :: nat) then char_of (n + 32) else c)"

text \<open>Comparison without the case of letters, of whole strings and of prefixes.\<close>

definition ncclTestStrcasecmp :: "string \<Rightarrow> string \<Rightarrow> bool" where
  "ncclTestStrcasecmp s t \<longleftrightarrow> map tolower s = map tolower t"

definition ncclTestStrncasecmp :: "string \<Rightarrow> string \<Rightarrow> nat \<Rightarrow> bool" where
  "ncclTestStrncasecmp s t n \<longleftrightarrow> map tolower (take n s) = map tolower (take n t)"

datatype output_file_type_t = JSON_FILE_OUTPUT | UNSPECIFIED_FILE_OUTPUT

definition classifyOutputFile :: "string option \<Rightarrow> output_file_type_t" where
  "classifyOutputFile filename =
     (case getExtension filename of
        Some ext \<Rightarrow> if ncclTestStrcasecmp ext ''json'' then JSON_FILE_OUTPUT else UNSPECIFIED_FILE_OUTPUT
      | None \<Rightarrow> UNSPECIFIED_FILE_OUTPUT)"

text \<open>The name of the program: what follows the last slash or backslash.\<close>

fun last_index :: "char \<Rightarrow> string \<Rightarrow> nat \<Rightarrow> nat option \<Rightarrow> nat option" where
  "last_index c [] pos found = found"
| "last_index c (d # ds) pos found = last_index c ds (pos + 1) (if d = c then Some pos else found)"

definition backslash :: char where "backslash = char_of (92::nat)"

definition program_name :: "string \<Rightarrow> string" where
  "program_name argv0 =
     (let slash = last_index CHR ''/'' argv0 0 None; back = last_index backslash argv0 0 None;
          sep = (case (slash, back) of (Some s, Some b) \<Rightarrow> Some (if s > b then s else b) | (Some s, None) \<Rightarrow> Some s | (None, b) \<Rightarrow> b)
      in case sep of Some s \<Rightarrow> drop (s + 1) argv0 | None \<Rightarrow> argv0)"

lemma scan_path_dot:
  assumes "scan_path cs pos d s = (d', s', n)" "d < pos" "s < pos"
  shows "n = pos + int (length cs) \<and>
    (d' = d \<and> CHR ''.'' \<notin> set cs \<or>
     (\<exists>pre suf. cs = pre @ CHR ''.'' # suf \<and> CHR ''.'' \<notin> set suf \<and> d' = pos + int (length pre)))
    \<and> (s' = s \<and> CHR ''/'' \<notin> set cs \<or>
     (\<exists>pre suf. cs = pre @ CHR ''/'' # suf \<and> CHR ''/'' \<notin> set suf \<and> s' = pos + int (length pre)))"
  using assms
proof (induction cs arbitrary: pos d s)
  case (Cons c cs)
  let ?d = "if c = CHR ''.'' then pos else d" and ?s = "if c = CHR ''/'' then pos else s"
  have ih: "n = pos + 1 + int (length cs) \<and>
    (d' = ?d \<and> CHR ''.'' \<notin> set cs \<or> (\<exists>pre suf. cs = pre @ CHR ''.'' # suf \<and> CHR ''.'' \<notin> set suf \<and> d' = pos + 1 + int (length pre)))
    \<and> (s' = ?s \<and> CHR ''/'' \<notin> set cs \<or> (\<exists>pre suf. cs = pre @ CHR ''/'' # suf \<and> CHR ''/'' \<notin> set suf \<and> s' = pos + 1 + int (length pre)))"
    using Cons.prems by (intro Cons.IH) simp_all
  have shift: "(\<exists>pre suf. c # cs = pre @ x # suf \<and> x \<notin> set suf \<and> e = pos + int (length pre))"
    if "\<exists>pre suf. cs = pre @ x # suf \<and> x \<notin> set suf \<and> e = pos + 1 + int (length pre)" for x e
  proof -
    from that obtain pre suf where "cs = pre @ x # suf \<and> x \<notin> set suf \<and> e = pos + 1 + int (length pre)" by blast
    then show ?thesis by (intro exI [of _ "c # pre"] exI [of _ suf]) simp
  qed
  have here: "\<exists>pre suf. c # cs = pre @ c # suf \<and> c \<notin> set suf \<and> pos = pos + int (length pre)" if "c \<notin> set cs"
    using that by (intro exI [of _ "[]"] exI [of _ cs]) simp
  show ?case
    using ih shift [of "CHR ''.''" d'] shift [of "CHR ''/''" s'] here by (auto split: if_splits)
qed simp

lemma last_part:
  assumes "xs @ x # ys = xs' @ y # ys'" "y \<notin> set ys'" "length xs' \<le> length xs"
  shows "y \<notin> set ys"
proof -
  have "drop (Suc (length xs)) (xs @ x # ys) = ys" "drop (Suc (length xs')) (xs @ x # ys) = ys'" unfolding assms(1) [symmetric] by simp (simp add: assms(1))
  then show ?thesis using set_drop_subset_set_drop [of "Suc (length xs')" "Suc (length xs)" "xs @ x # ys"] assms(2,3) by auto
qed

lemma last_part_unique:
  assumes "xs @ x # ys = xs' @ x # ys'" "x \<notin> set ys" "x \<notin> set ys'"
  shows "length xs = length xs' \<and> ys = ys'"
proof -
  have "\<not> length xs < length xs'" "\<not> length xs' < length xs"
    using assms by (auto simp: append_eq_append_conv_if Cons_eq_append_conv append_eq_Cons_conv dest!: arg_cong [where f = "\<lambda>l. l ! 0"])
  then have "length xs = length xs'" by simp
  with assms(1) show ?thesis by simp
qed

text \<open>The extension of a path is what follows the last dot, when it is not empty and no slash follows the dot; in every other case
  there is none. So the JSON file is written exactly for names that end with a dot and \<open>json\<close>, in any case of the letters.\<close>

theorem extension_correct:
  "(getExtension (Some path) = Some ext \<longleftrightarrow>
      ext \<noteq> [] \<and> CHR ''.'' \<notin> set ext \<and> CHR ''/'' \<notin> set ext \<and> (\<exists>stem. path = stem @ ''.'' @ ext))
   \<and> (classifyOutputFile (Some path) = JSON_FILE_OUTPUT \<longleftrightarrow> (\<exists>stem ext. path = stem @ ''.'' @ ext \<and> map tolower ext = ''json''))"
proof -
  have ext: "getExtension (Some path) = Some ext \<longleftrightarrow>
      ext \<noteq> [] \<and> CHR ''.'' \<notin> set ext \<and> CHR ''/'' \<notin> set ext \<and> (\<exists>stem. path = stem @ ''.'' @ ext)" for ext
  proof -
    obtain d s n where scan: "scan_path path 0 (- 1) (- 1) = (d, s, n)" by (cases "scan_path path 0 (- 1) (- 1)")
    note at = scan_path_dot [OF scan, simplified]
    show ?thesis
    proof
      assume "getExtension (Some path) = Some ext"
      then have e: "s < d" "d + 1 \<noteq> n" "ext = drop (nat (d + 1)) path" by (simp_all add: getExtension_def scan split: if_splits)
      from at e(1) have "d \<noteq> - 1" by auto
      with at obtain pre suf where dot: "path = pre @ CHR ''.'' # suf" "CHR ''.'' \<notin> set suf" "d = int (length pre)" by blast
      have suf: "ext = suf" using e(3) dot by (simp add: nat_add_distrib)
      have "CHR ''/'' \<notin> set suf"
      proof (cases "CHR ''/'' \<in> set path")
        case True
        with at obtain pre' suf' where "path = pre' @ CHR ''/'' # suf'" "CHR ''/'' \<notin> set suf'" "s = int (length pre')" by blast
        then show ?thesis using last_part [of pre "CHR ''.''" suf pre' "CHR ''/''" suf'] dot(1,3) e(1) by simp
      qed (simp add: dot(1))
      then show "ext \<noteq> [] \<and> CHR ''.'' \<notin> set ext \<and> CHR ''/'' \<notin> set ext \<and> (\<exists>stem. path = stem @ ''.'' @ ext)"
        using dot e(2) at suf by auto
    next
      assume "ext \<noteq> [] \<and> CHR ''.'' \<notin> set ext \<and> CHR ''/'' \<notin> set ext \<and> (\<exists>stem. path = stem @ ''.'' @ ext)"
      then obtain stem where stem: "path = stem @ CHR ''.'' # ext" "CHR ''.'' \<notin> set ext" "CHR ''/'' \<notin> set ext" "ext \<noteq> []" by auto
      then have "CHR ''.'' \<in> set path" by simp
      with at obtain pre suf where dot: "path = pre @ CHR ''.'' # suf" "CHR ''.'' \<notin> set suf" "d = int (length pre)" by blast
      have same: "length pre = length stem \<and> suf = ext" by (rule last_part_unique [OF trans [OF dot(1) [symmetric] stem(1)] dot(2) stem(2)])
      have "s < d"
      proof (cases "CHR ''/'' \<in> set path")
        case True
        with at obtain pre' suf' where sl: "path = pre' @ CHR ''/'' # suf'" "CHR ''/'' \<notin> set suf'" "s = int (length pre')" by blast
        have "\<not> length stem \<le> length pre'"
        proof
          assume le: "length stem \<le> length pre'"
          have "length stem \<noteq> length pre'"
          proof
            assume "length stem = length pre'"
            then have "path ! length stem = CHR ''.''" "path ! length stem = CHR ''/''" using stem(1) sl(1) by simp_all
            then show False by simp
          qed
          with le have "length stem < length pre'" by simp
          then have "CHR ''/'' \<in> set (drop (Suc (length stem)) path)" unfolding sl(1) by (simp add: drop_Cons')
          then show False using stem by simp
        qed
        then show ?thesis using sl(3) dot(3) same by simp
      next
        case False
        with at have "s = - 1" by auto
        then show ?thesis using dot(3) by simp
      qed
      then show "getExtension (Some path) = Some ext"
        using at [THEN conjunct1] dot(3) same stem(1,4) unfolding getExtension_def option.case scan Let_def prod.case by (simp add: nat_add_distrib)
    qed
  qed
  have clean: "CHR ''.'' \<notin> set ext \<and> CHR ''/'' \<notin> set ext \<and> ext \<noteq> []" if "map tolower ext = ''json''" for ext
  proof -
    have "tolower CHR ''.'' \<notin> set (map tolower ext)" "tolower CHR ''/'' \<notin> set (map tolower ext)"
      unfolding that by code_simp+
    then show ?thesis using that by auto
  qed
  have json: "map tolower ''json'' = ''json''" by code_simp
  have "classifyOutputFile (Some path) = JSON_FILE_OUTPUT \<longleftrightarrow> (\<exists>e. getExtension (Some path) = Some e \<and> map tolower e = ''json'')"
    unfolding classifyOutputFile_def ncclTestStrcasecmp_def json by (cases "getExtension (Some path)") simp_all
  also have "\<dots> \<longleftrightarrow> (\<exists>stem ext. path = stem @ ''.'' @ ext \<and> map tolower ext = ''json'')"
    unfolding ext by (intro iffI; elim exE conjE; intro exI conjI; (assumption | rule clean [THEN conjunct1] clean [THEN conjunct2, THEN conjunct1]
      clean [THEN conjunct2, THEN conjunct2])+)
  finally show ?thesis using ext by blast
qed

section \<open>Numbers are read as they are printed\<close>

lemma dec_digit_value: "n < 10 \<Longrightarrow> digit_value (dec_digit n) = n \<and> of_char (dec_digit n) = (48 + n :: nat)"
proof -
  have "\<forall>n\<in>{0..<10}. digit_value (dec_digit n) = n \<and> of_char (dec_digit n) = (48 + n :: nat)" by code_simp
  then show "n < 10 \<Longrightarrow> digit_value (dec_digit n) = n \<and> of_char (dec_digit n) = (48 + n :: nat)" by simp
qed

lemma digits_number_append: "digits_number b (ds @ [c]) = b * digits_number b ds + digit_value c"
  by (simp add: digits_number_def)

lemma dec_nat_number:
  "digits_number 10 (dec_nat n) = n \<and> dec_nat n \<noteq> [] \<and> (\<forall>c\<in>set (dec_nat n). 48 \<le> (of_char c :: nat) \<and> (of_char c :: nat) \<le> 57)
    \<and> (0 < n \<longrightarrow> (of_char (hd (dec_nat n)) :: nat) \<noteq> 48)"
proof (induction n rule: dec_nat.induct)
  case (1 n)
  show ?case
  proof (cases "n < 10")
    case True
    then show ?thesis using dec_digit_value [OF True] unfolding dec_nat_cases(1) [OF True] by (simp add: digits_number_def)
  next
    case False
    have m: "n mod 10 < 10" by simp
    note ih = 1 [OF False]
    have "hd (dec_nat (n div 10) @ [dec_digit (n mod 10)]) = hd (dec_nat (n div 10))" using ih by simp
    then show ?thesis
      using ih dec_digit_value [OF m] False unfolding dec_nat_cases(2) [OF False] digits_number_append
      by (auto simp del: hd_append2)
  qed
qed

lemma digit_char: "48 \<le> (of_char c :: nat) \<Longrightarrow> (of_char c :: nat) \<le> 57 \<Longrightarrow>
    digit_value c < 10 \<and> \<not> isspace c \<and> c \<noteq> CHR ''-'' \<and> c \<noteq> CHR ''+''"
  by (auto simp: digit_value_def isspace_def Let_def)

lemma scan_digits:
  assumes "\<forall>c\<in>set ds. 48 \<le> (of_char c :: nat) \<and> (of_char c :: nat) \<le> 57" "ds \<noteq> []" "ds = ''0'' \<or> (of_char (hd ds) :: nat) \<noteq> 48"
  shows "scan_number 0 ds = (int (digits_number 10 ds), length ds)"
    and "scan_number 0 (CHR ''-'' # ds) = (- int (digits_number 10 ds), Suc (length ds))"
proof -
  have d: "digit_value c < 10" "\<not> isspace c" "c \<noteq> CHR ''-''" "c \<noteq> CHR ''+''" if "c \<in> set ds" for c
    using digit_char assms(1) that by blast+
  have hd: "hd ds \<in> set ds" using assms(2) by simp
  have base: "digits_number (fst (number_base 0 ds)) ds = digits_number 10 ds \<and> snd (number_base 0 ds) = 0
    \<and> takeWhile (\<lambda>c. digit_value c < fst (number_base 0 ds)) ds = ds"
  proof (cases "ds = ''0''")
    case True
    show ?thesis unfolding True by code_simp
  next
    case False
    then have "hd ds \<noteq> CHR ''0''" using assms(3) by auto
    moreover have "ds ! 0 = hd ds" using assms(2) by (simp add: hd_conv_nth)
    ultimately have "number_base 0 ds = (10, 0)" by (simp add: number_base_def)
    then show ?thesis using d(1) by (simp add: takeWhile_eq_all_conv)
  qed
  have plain: "takeWhile isspace ds = []" "dropWhile isspace ds = ds" using d(2) [OF hd] assms(2) by (cases ds; simp)+
  obtain b p where bp: "number_base 0 ds = (b, p)" by fastforce
  have minus: "\<not> isspace CHR ''-''" by code_simp
  show "scan_number 0 ds = (int (digits_number 10 ds), length ds)"
    using base d(3,4) [OF hd] assms(2) by (simp add: scan_number_def plain bp Let_def del: takeWhile_eq_all_conv)
  show "scan_number 0 (CHR ''-'' # ds) = (- int (digits_number 10 ds), Suc (length ds))"
    using base assms(2) minus by (simp add: scan_number_def bp Let_def del: takeWhile_eq_all_conv)
qed

lemma scan_dec_int: "scan_number 0 (dec_int n) = (n, length (dec_int n))"
proof -
  have z: "dec_nat 0 = ''0''" by code_simp
  have "dec_nat m = ''0'' \<or> (of_char (hd (dec_nat m)) :: nat) \<noteq> 48" for m using dec_nat_number [of m] z by (cases "m = 0") auto
  note digits = scan_digits [OF _ _ this]
  show ?thesis
    using dec_nat_number [of "nat n"] dec_nat_number [of "nat (- n)"] digits(1) [of "nat n"] digits(2) [of "nat (- n)"] by (simp add: dec_int_def)
qed

lemma int_arg_dec: "- (2 ^ 31) \<le> n \<Longrightarrow> n < 2 ^ 31 \<Longrightarrow> int_arg (dec_int n) = n"
  by (simp add: int_arg_def strtol_def scan_dec_int to_int_def sint_sbintrunc' signed_take_bit_int_eq_self_iff)

section \<open>What the options are\<close>























text \<open>A number that is printed in decimal is read back by \<open>strtol\<close>, with all its characters, over the whole range of \<open>long\<close>; so an option gets
  exactly the number of its argument over the range of \<open>int\<close>.\<close>

theorem numbers_read_back:
  assumes "- (2 ^ 63) \<le> n" "n < 2 ^ 63"
  shows "strtol (dec_int n) 0 = (n, length (dec_int n)) \<and> (int_arg (dec_int n) = n \<longleftrightarrow> - (2 ^ 31) \<le> n \<and> n < 2 ^ 31)"
proof -
  have "int_arg (dec_int n) = n \<longrightarrow> - (2 ^ 31) \<le> n \<and> n < 2 ^ 31"
    using sint_range_size [of "word_of_int (fst (strtol (dec_int n) 0)) :: 32 word"] by (auto simp: int_arg_def to_int_def word_size)
  then show ?thesis using assms int_arg_dec [of n] by (auto simp: strtol_def scan_dec_int)
qed

theorem numbers_read_back_witness: "strtol (dec_int (- 40)) 0 = (- 40, 3) \<and> int_arg (dec_int (- 40)) = - 40"
proof -
  have "length (dec_int (- 40)) = 3" by code_simp
  with numbers_read_back [of "- 40"] show ?thesis by simp
qed

end
