(* ===== verification/HostMain.thy ===== *)
theory HostMain
  imports HostOptions
begin

unbundle bit_operations_syntax

text \<open>
  The function \<open>run\<close> of src/common.cu: the color of the process, its ranks and devices, what is allocated and registered and
  released again, and the results of the threads. The theorems show that the ranks of all devices of a color are the ranks of its
  communicator, each once, that two processes of a host do not share a device, that what has been
  acquired is released in order, and what the result of the program says.
\<close>

section \<open>The color of a process\<close>

text \<open>\<open>parseInt\<close>: the number where it returns true.\<close>

definition parseInt :: "string \<Rightarrow> int option" where
  "parseInt s =
     (let t = dropWhile isspace s in
      if t = [] then None
      else if ncclTestStrncasecmp t ''0b'' 2 then Some (to_int (uint (fst (strtoul (drop 2 t) 2))))
      else (case strtoul t 0 of (v, used) \<Rightarrow> if used = 0 then None else Some (to_int (uint v))))"

definition prefix_int :: "string \<Rightarrow> string \<Rightarrow> int option" where
  "prefix_int spec name =
     (if ncclTestStrncasecmp spec name (length name) then parseInt (drop (length name) spec) else None)"

definition color_arg :: "string \<Rightarrow> string \<Rightarrow> string \<Rightarrow> int option" where
  "color_arg spec name symbol = (case prefix_int spec name of Some v \<Rightarrow> Some v | None \<Rightarrow> prefix_int spec symbol)"

text \<open>The steps of \<open>NCCL_TESTS_SPLIT\<close>, one after the other; \<^const>\<open>None\<close> is a division by zero.\<close>

definition color_step :: "string \<Rightarrow> string \<Rightarrow> string \<Rightarrow> (int \<Rightarrow> int option) \<Rightarrow> int option \<Rightarrow> int option" where
  "color_step spec name symbol f c =
     (case c of None \<Rightarrow> None
      | Some color \<Rightarrow> (case color_arg spec name symbol of None \<Rightarrow> Some color | Some v \<Rightarrow> f v))"

definition split_color :: "(string \<Rightarrow> string option) \<Rightarrow> int \<Rightarrow> int option" where
  "split_color env prc =
     (case env ''NCCL_TESTS_SPLIT_MASK'' of
        Some m \<Rightarrow> Some (to_int (uint (u64_of_int prc AND fst (strtoul m 16))))
      | None \<Rightarrow>
          (case env ''NCCL_TESTS_SPLIT'' of
             None \<Rightarrow> Some 0
           | Some spec \<Rightarrow>
               color_step spec ''DIV'' ''/'' (\<lambda>v. if v = 0 then None else Some (prc sdiv v))
                 (color_step spec ''MOD'' ''%'' (\<lambda>v. if v = 0 then None else Some (prc smod v))
                   (color_step spec ''OR'' ''|'' (\<lambda>v. Some (prc OR v))
                     (color_step spec ''AND'' ''&'' (\<lambda>v. Some (prc AND v)) (Some 0))))))"

section \<open>Processes, threads and devices\<close>

text \<open>The size of the communicator of a process and its rank in it: \<open>MPI_Comm_split\<close> keeps the processes of the same color in order.\<close>

definition nccl_procs :: "int list \<Rightarrow> nat \<Rightarrow> int" where
  "nccl_procs colors p = int (length (filter (\<lambda>c. c = colors ! p) colors))"

definition nccl_proc :: "int list \<Rightarrow> nat \<Rightarrow> int" where
  "nccl_proc colors p = int (length (filter (\<lambda>c. c = colors ! p) (take p colors)))"

text \<open>The processes before on the same host.\<close>

definition local_rank :: "u64 list \<Rightarrow> nat \<Rightarrow> int" where
  "local_rank hostHashs p = int (length (filter (\<lambda>h. h = hostHashs ! p) (take p hostHashs)))"

definition gpu_of :: "options \<Rightarrow> int \<Rightarrow> int \<Rightarrow> int \<Rightarrow> int" where
  "gpu_of o' gpu0 localRank i = (if gpu0 \<noteq> - 1 then gpu0 else localRank * opt_nThreads o' * opt_nGpus o') + i"

text \<open>The arguments of a thread.\<close>

definition run_args :: "options \<Rightarrow> int list \<Rightarrow> nat \<Rightarrow> int \<Rightarrow> threadArgs" where
  "run_args o' colors p t =
     \<lparr>nbytes = 0, minbytes = opt_minBytes o', maxbytes = opt_maxBytes o', stepbytes = opt_stepBytes o', stepfactor = opt_stepFactor o',
      totalProcs = int (length colors), nProcs = nccl_procs colors p, proc = nccl_proc colors p, nThreads = opt_nThreads o', thread = t,
      nGpus = opt_nGpus o', sendBytes = 0, sendInplaceOffset = 0, recvInplaceOffset = 0, expectedBytes = 0, errors = 0,
      reportErrors = opt_datacheck o'\<rparr>"

text \<open>\<open>initComms\<close>: the device and the rank of every communicator, and the fields of the configuration it sets.\<close>

record comm_config =
  cfg_CTAPolicy :: "int option"
  cfg_nvlinkCentricSched :: int
  cfg_graphUsageMode :: int
  cfg_rma :: "(int \<times> int) option"
  cfg_maxP2pPeers :: "int option"

text \<open>The test has the last word, if it wants; of the tests only sendrecv does.\<close>

definition init_config :: "options \<Rightarrow> (comm_config \<Rightarrow> comm_config) option \<Rightarrow> comm_config" where
  "init_config o' initCommConfig =
     (let config = \<lparr>cfg_CTAPolicy = (if opt_ctaPolicy o' \<ge> 0 then Some (opt_ctaPolicy o') else None), cfg_nvlinkCentricSched = 1,
            cfg_graphUsageMode = (if opt_cudaGraphLaunches o' \<ge> 1 then 1 else 0),
            cfg_rma = (if opt_hostRmaImpl o' then Some (opt_rmaCtxCount o', NUM_RMA_SIG) else None), cfg_maxP2pPeers = None\<rparr>
      in case initCommConfig of Some f \<Rightarrow> f config | None \<Rightarrow> config)"

definition SendRecvInitCommConfig :: "comm_config \<Rightarrow> comm_config" where
  "SendRecvInitCommConfig config = config\<lparr>cfg_maxP2pPeers := Some 2\<rparr>"

definition initComms :: "int \<Rightarrow> int \<Rightarrow> int \<Rightarrow> int list \<Rightarrow> (int \<times> int \<times> int) list" where
  "initComms nComms firstRank nRanks cudaDevs = map (\<lambda>i. (cudaDevs ! nat i, nRanks, firstRank + i)) [0..nComms - 1]"

text \<open>The main thread initialises all communicators, or every thread its own.\<close>

definition run_comms :: "options \<Rightarrow> int list \<Rightarrow> nat \<Rightarrow> int list \<Rightarrow> (int \<times> int \<times> int) list" where
  "run_comms o' colors p gpus =
     initComms (opt_nGpus o' * opt_nThreads o') (nccl_proc colors p * opt_nThreads o' * opt_nGpus o')
       (nccl_procs colors p * opt_nThreads o' * opt_nGpus o') gpus"

definition thread_comms :: "threadArgs \<Rightarrow> int list \<Rightarrow> (int \<times> int \<times> int) list" where
  "thread_comms args gpus =
     initComms (nGpus args) (proc args * nThreads args * nGpus args + thread args * nGpus args)
       (nProcs args * nThreads args * nGpus args) (drop (nat (thread args * nGpus args)) gpus)"

section \<open>What is acquired and released\<close>

text \<open>The streams, communicators, buffers, registrations and device communicators of the devices of a process.\<close>

datatype resource =
    is_stream: Stream (device_of: int)
  | is_comm: Comm (device_of: int)
  | SendBuf (device_of: int)
  | RecvBuf (device_of: int)
  | ExpectedBuf (device_of: int)
  | SendReg (device_of: int)
  | RecvReg (device_of: int)
  | is_dev: DevComm (device_of: int)












section \<open>The results of the threads\<close>

record thread_out =
  out_ret :: testResult
  out_errors :: int
  out_bw :: real
  out_bw_count :: int

text \<open>How \<open>run\<close> ends: it returns a result, or the vector of the threads is destroyed while one of them has not been joined, and the
  destructor of a joinable \<open>std::thread\<close> calls \<open>std::terminate\<close>.\<close>

datatype run_end = Terminated | Returned testResult

definition leave_run :: "thread_out list \<Rightarrow> testResult \<Rightarrow> run_end" where
  "leave_run unjoined r = (if unjoined \<noteq> [] then Terminated else Returned r)"

text \<open>The loop that joins the threads, from the last one down to the first, which the main thread has run itself. The threads that are
  still to be joined are the rest of the list; a failed thread ends the loop and the function.\<close>

fun join_threads :: "thread_out list \<Rightarrow> thread_out \<Rightarrow> run_end \<times> thread_out" where
  "join_threads [] acc = (Returned TestSuccess, acc)"
| "join_threads (x # xs) acc =
     (if out_ret x \<noteq> TestSuccess then (leave_run xs (out_ret x), acc)
      else join_threads xs (acc\<lparr>out_errors := out_errors acc + out_errors x, out_bw := out_bw acc + out_bw x,
             out_bw_count := out_bw_count acc + out_bw_count x\<rparr>))"

text \<open>The result of a process: \<open>other_errors\<close> are those the other processes add in \<open>MPI_Allreduce\<close>. Without a measurement the
  average is not a number, and the comparison is false.\<close>

definition run_result :: "thread_out list \<Rightarrow> int \<Rightarrow> real \<Rightarrow> run_end" where
  "run_result outs other_errors check_avg_bw =
     (let main = hd outs in
      if out_ret main \<noteq> TestSuccess then leave_run (tl outs) (out_ret main)
      else (case join_threads (rev (tl outs)) main of
              (r, s) \<Rightarrow>
                if r \<noteq> Returned TestSuccess then r
                else if out_errors s + other_errors \<noteq> 0
                     \<or> out_bw_count s \<noteq> 0 \<and> out_bw s / real_of_int (out_bw_count s) < check_avg_bw * 9 / 10
                then Returned TestNumResults else Returned TestSuccess))"

section \<open>Ranks and devices\<close>

text \<open>The places of the elements with a value, in order.\<close>

definition place_in :: "'a list \<Rightarrow> nat \<Rightarrow> int" where
  "place_in xs p = int (length (filter (\<lambda>x. x = xs ! p) (take p xs)))"

lemma place_less: "p < q \<Longrightarrow> q < length xs \<Longrightarrow> xs ! p = xs ! q \<Longrightarrow> place_in xs p < place_in xs q"
proof -
  assume a: "p < q" "q < length xs" "xs ! p = xs ! q"
  have "take q xs = take p xs @ drop p (take q xs)" using a append_take_drop_id [of p "take q xs"] by (simp add: min_def)
  then have "length (filter (\<lambda>x. x = xs ! q) (take q xs))
      = length (filter (\<lambda>x. x = xs ! q) (take p xs)) + length (filter (\<lambda>x. x = xs ! q) (drop p (take q xs)))"
    by (metis filter_append length_append)
  moreover have "drop p (take q xs) = xs ! p # drop (Suc p) (take q xs)"
    using a Cons_nth_drop_Suc [of p "take q xs", symmetric] by simp
  ultimately show ?thesis using a(3) by (simp add: place_in_def)
qed

lemma place_range: "p < length xs \<Longrightarrow> 0 \<le> place_in xs p \<and> place_in xs p < int (length (filter (\<lambda>x. x = xs ! p) xs))"
proof -
  assume p: "p < length xs"
  have "filter (\<lambda>x. x = xs ! p) xs = filter (\<lambda>x. x = xs ! p) (take p xs) @ filter (\<lambda>x. x = xs ! p) (drop p xs)"
    by (metis append_take_drop_id filter_append)
  moreover have "filter (\<lambda>x. x = xs ! p) (drop p xs) \<noteq> []" using p by (simp add: Cons_nth_drop_Suc [symmetric])
  ultimately show ?thesis by (simp add: place_in_def)
qed

lemma place_inj: "p < length xs \<Longrightarrow> q < length xs \<Longrightarrow> xs ! p = xs ! q \<Longrightarrow> place_in xs p = place_in xs q \<Longrightarrow> p = q"
  using place_less [of p q xs] place_less [of q p xs] by (cases p q rule: linorder_cases) auto

lemma place_bij: "bij_betw (place_in xs) {p. p < length xs \<and> xs ! p = c} {0..<int (length (filter (\<lambda>x. x = c) xs))}"
proof -
  let ?P = "{p. p < length xs \<and> xs ! p = c}"
  have inj: "inj_on (place_in xs) ?P" by (rule inj_onI, rule place_inj) simp_all
  have sub: "place_in xs ` ?P \<subseteq> {0..<int (length (filter (\<lambda>x. x = c) xs))}" using place_range by fastforce
  have "card (place_in xs ` ?P) = length (filter (\<lambda>x. x = c) xs)" using inj by (simp add: card_image length_filter_conv_card)
  then have "place_in xs ` ?P = {0..<int (length (filter (\<lambda>x. x = c) xs))}" using sub by (intro card_subset_eq) simp_all
  with inj show ?thesis by (simp add: bij_betw_def)
qed

lemma proc_place: "nccl_proc colors = place_in colors" "local_rank hashes = place_in hashes"
  by (auto simp: nccl_proc_def local_rank_def place_in_def)

lemma quot_less: "x < m * G \<Longrightarrow> 0 < G \<Longrightarrow> x div G < (m :: int)"
  using mult_right_mono [of m "x div G" G] minus_mod_eq_div_mult [of x G] pos_mod_sign [of G x] by linarith

lemma radix_bij:
  assumes "0 < T" "0 < (G :: int)"
  shows "bij_betw (\<lambda>(a, t, i). (a * T + t) * G + i) ({0..<n} \<times> {0..<T} \<times> {0..<G}) {0..<n * T * G}"
proof (rule bij_betw_byWitness [where f' = "\<lambda>x. (x div G div T, x div G mod T, x mod G)"])
  show "\<forall>x\<in>{0..<n} \<times> {0..<T} \<times> {0..<G}. (\<lambda>x. (x div G div T, x div G mod T, x mod G)) ((\<lambda>(a, t, i). (a * T + t) * G + i) x) = x"
    using assms by (auto simp: div_add1_eq)
  show "\<forall>x\<in>{0..<n * T * G}. (\<lambda>(a, t, i). (a * T + t) * G + i) (x div G div T, x div G mod T, x mod G) = x" by simp
  show "(\<lambda>(a, t, i). (a * T + t) * G + i) ` ({0..<n} \<times> {0..<T} \<times> {0..<G}) \<subseteq> {0..<n * T * G}"
  proof (rule image_subsetI, elim SigmaE)
    fix x a y t i assume x: "x = (a, y)" "y = (t, i)" and a: "a \<in> {0..<n}" "t \<in> {0..<T}" "i \<in> {0..<G}"
    then have "0 \<le> a * T + t" "a * T + t < n * T" using mixed_radix [of a n t T] by simp_all
    from mixed_radix [OF this, of i G] a show "(\<lambda>(a, t, i). (a * T + t) * G + i) x \<in> {0..<n * T * G}" by (simp add: x)
  qed
  show "(\<lambda>x. (x div G div T, x div G mod T, x mod G)) ` {0..<n * T * G} \<subseteq> {0..<n} \<times> {0..<T} \<times> {0..<G}"
  proof (rule image_subsetI)
    fix x assume "x \<in> {0..<n * T * G}"
    then have x: "0 \<le> x" "x < n * T * G" by simp_all
    have "x div G div T < n" by (intro quot_less assms) (use x in simp)
    then show "(x div G div T, x div G mod T, x mod G) \<in> {0..<n} \<times> {0..<T} \<times> {0..<G}"
      using x assms by (simp add: pos_imp_zdiv_nonneg_iff)
  qed
qed

lemma upto_blocks:
  assumes "0 < (G :: int)"
  shows "0 \<le> T \<Longrightarrow> [0..G * T - 1] = concat (map (\<lambda>t. map (\<lambda>i. t * G + i) [0..G - 1]) [0..T - 1])"
proof (induction T rule: int_ge_induct)
  case (step T)
  have nonneg: "0 \<le> G * T" using assms step.hyps by simp
  have "[0..G * (T + 1) - 1] = [0..G * T - 1] @ [G * T..G * (T + 1) - 1]"
    using nonneg assms by (intro upto_split1) (simp_all add: distrib_left)
  moreover have "[G * T..G * (T + 1) - 1] = map (\<lambda>i. T * G + i) [0..G - 1]"
    using assms by (intro nth_equalityI) (simp_all add: distrib_left mult.commute)
  moreover have "[0..T + 1 - 1] = [0..T - 1] @ [T]" using step.hyps by (simp add: upto_rec2)
  ultimately show ?case using step.IH by simp
qed simp

lemma run_args_simps [simp]:
  "nranks_of (run_args o' colors p t) = nccl_procs colors p * opt_nThreads o' * opt_nGpus o'"
  "rank_of (run_args o' colors p t) i = (nccl_proc colors p * opt_nThreads o' + t) * opt_nGpus o' + i"
  by (simp_all add: run_args_def nranks_of_def rank_of_def)

lemma run_args_wf:
  assumes "0 < opt_nThreads o'" "0 < opt_nGpus o'" "int (length colors) * opt_nThreads o' * opt_nGpus o' < 2 ^ 31"
    and "p < length colors" "t \<in> {0..<opt_nThreads o'}"
  shows "wf_args (run_args o' colors p t)"
proof -
  have r: "0 \<le> nccl_proc colors p" "nccl_proc colors p < nccl_procs colors p"
    using place_range [OF assms(4)] by (simp_all add: proc_place(1) nccl_procs_def)
  have "nccl_procs colors p \<le> int (length colors)" by (simp add: nccl_procs_def)
  then have "nccl_procs colors p * opt_nThreads o' * opt_nGpus o' \<le> int (length colors) * opt_nThreads o' * opt_nGpus o'"
    using assms(1,2) by (intro mult_right_mono) simp_all
  then have "nranks_of (run_args o' colors p t) < 2 ^ 31" using assms(3) by simp
  then show ?thesis using assms r by (simp add: wf_args_def run_args_def nranks_of_def)
qed

text \<open>All communicators of the main thread are those of its threads, one after the other.\<close>

lemma comms_of_threads:
  assumes "0 < opt_nThreads o'" "0 < opt_nGpus o'" "length gpus = nat (opt_nGpus o' * opt_nThreads o')"
  shows "run_comms o' colors p gpus = concat (map (\<lambda>t. thread_comms (run_args o' colors p t) gpus) [0..opt_nThreads o' - 1])"
proof -
  let ?T = "opt_nThreads o'" and ?G = "opt_nGpus o'" and ?q = "nccl_proc colors p"
  have one: "map (\<lambda>i. (gpus ! nat i, nccl_procs colors p * ?T * ?G, ?q * ?T * ?G + i)) (map (\<lambda>i. t * ?G + i) [0..?G - 1])
      = thread_comms (run_args o' colors p t) gpus" if t: "t \<in> {0..?T - 1}" for t
  proof -
    have "drop (nat (t * ?G)) gpus ! nat i = gpus ! nat (t * ?G + i)" if "i \<in> {0..?G - 1}" for i
    proof -
      have "t * ?G + i < ?T * ?G" "0 \<le> t * ?G" using mixed_radix [of t ?T i ?G] t that assms(2) by auto
      then have "nat (t * ?G) + nat i < length gpus" using that assms(3) by (simp add: nat_add_distrib [symmetric] mult.commute)
      then show ?thesis using that \<open>0 \<le> t * ?G\<close> by (simp add: nat_add_distrib)
    qed
    then show ?thesis by (simp add: thread_comms_def initComms_def run_args_def)
  qed
  have blocks: "[0..?G * ?T - 1] = concat (map (\<lambda>t. map (\<lambda>i. t * ?G + i) [0..?G - 1]) [0..?T - 1])"
    by (rule upto_blocks [OF assms(2)]) (use assms(1) in simp)
  show ?thesis
    unfolding run_comms_def initComms_def [of "?G * ?T"] blocks map_concat
    by (rule arg_cong [where f = concat]) (use one in \<open>simp add: o_def\<close>)
qed

text \<open>C18: the ranks and the devices of a run. Let the processes have any colors. The arguments of every thread are well formed, which
  all theorems about the tests need; the devices of the processes of a color are, each once, the
  ranks of their communicator; the communicators are made with these ranks on the same devices whether the main thread
  initialises them all or every thread its own; and unless a device is given in the environment, two places of processes
  of one host have different devices.\<close>

theorem ranks_and_devices:
  assumes pos: "0 < opt_nThreads o'" "0 < opt_nGpus o'" and small: "int (length colors) * opt_nThreads o' * opt_nGpus o' < 2 ^ 31"
  shows "(\<forall>p<length colors. \<forall>t\<in>{0..<opt_nThreads o'}. wf_args (run_args o' colors p t))
    \<and> bij_betw (\<lambda>(p, t, i). rank_of (run_args o' colors p t) i)
        ({p. p < length colors \<and> colors ! p = c} \<times> {0..<opt_nThreads o'} \<times> {0..<opt_nGpus o'})
        {0..<int (length (filter (\<lambda>d. d = c) colors)) * opt_nThreads o' * opt_nGpus o'}
    \<and> (length gpus = nat (opt_nGpus o' * opt_nThreads o') \<longrightarrow>
        run_comms o' colors p gpus = concat (map (\<lambda>t. thread_comms (run_args o' colors p t) gpus) [0..opt_nThreads o' - 1]))
    \<and> inj_on (\<lambda>(p, i). (hosts ! p, gpu_of o' (- 1) (local_rank hosts p) i)) ({p. p < length hosts} \<times> {0..<opt_nThreads o' * opt_nGpus o'})"
proof (intro conjI)
  let ?T = "opt_nThreads o'" and ?G = "opt_nGpus o'"
  show "\<forall>p<length colors. \<forall>t\<in>{0..<?T}. wf_args (run_args o' colors p t)" using run_args_wf [OF pos small] by blast
  let ?P = "{p. p < length colors \<and> colors ! p = c}" and ?n = "int (length (filter (\<lambda>d. d = c) colors))"
  have "bij_betw (\<lambda>(p, x). (place_in colors p, x)) (?P \<times> {0..<?T} \<times> {0..<?G}) ({0..<?n} \<times> {0..<?T} \<times> {0..<?G})"
    using bij_betw_map_prod [OF place_bij [of colors c] bij_betw_id [of "{0..<?T} \<times> {0..<?G}"]] by (simp add: map_prod_def id_def)
  from bij_betw_trans [OF this radix_bij [OF pos]]
  show "bij_betw (\<lambda>(p, t, i). rank_of (run_args o' colors p t) i) (?P \<times> {0..<?T} \<times> {0..<?G}) {0..<?n * ?T * ?G}"
    by (rule bij_betw_cong [THEN iffD1, rotated]) (auto simp: proc_place)
  show "length gpus = nat (?G * ?T) \<longrightarrow> run_comms o' colors p gpus = concat (map (\<lambda>t. thread_comms (run_args o' colors p t) gpus) [0..?T - 1])"
    using comms_of_threads [OF pos] by blast
  show "inj_on (\<lambda>(p, i). (hosts ! p, gpu_of o' (- 1) (local_rank hosts p) i)) ({p. p < length hosts} \<times> {0..<?T * ?G})"
  proof (rule inj_onI, clarsimp)
    fix p i q j assume a: "p < length hosts" "0 \<le> i" "i < ?T * ?G" "q < length hosts" "0 \<le> j" "j < ?T * ?G" "hosts ! p = hosts ! q"
      and same: "gpu_of o' (- 1) (local_rank hosts p) i = gpu_of o' (- 1) (local_rank hosts q) j"
    have "place_in hosts p * (?T * ?G) + i = place_in hosts q * (?T * ?G) + j"
      using same by (simp add: gpu_of_def proc_place mult.assoc)
    then have "(place_in hosts p * (?T * ?G) + i) div (?T * ?G) = (place_in hosts q * (?T * ?G) + j) div (?T * ?G)" by simp
    then have "place_in hosts p = place_in hosts q" using a pos by (simp add: div_add1_eq)
    then have "p = q" by (rule place_inj [OF a(1,4,7)])
    then show "p = q \<and> i = j" using same by (simp add: gpu_of_def)
  qed
qed

text \<open>Five processes of two colors, with two threads of three devices.\<close>

theorem ranks_and_devices_witness:
  "\<exists>p t i. rank_of (run_args (default_options\<lparr>opt_nThreads := 2, opt_nGpus := 3\<rparr>) [0, 1, 0, 1, 1] p t) i = 17 \<and> p < 5 \<and> [0, 1, 0, 1, 1] ! p = (1 :: int)"
proof -
  let ?o = "default_options\<lparr>opt_nThreads := 2, opt_nGpus := 3\<rparr>" and ?c = "[0, 1, 0, 1, 1 :: int]"
  have "0 < opt_nThreads ?o" "0 < opt_nGpus ?o" "int (length ?c) * opt_nThreads ?o * opt_nGpus ?o < 2 ^ 31" by simp_all
  note all = ranks_and_devices [OF this, where c = 1, THEN conjunct2, THEN conjunct1, THEN bij_betw_imp_surj_on]
  have "(17 :: int) \<in> {0..<18}" by simp
  then have "17 \<in> (\<lambda>(p, t, i). rank_of (run_args ?o ?c p t) i) ` ({p. p < length ?c \<and> ?c ! p = 1} \<times> {0..<opt_nThreads ?o} \<times> {0..<opt_nGpus ?o})"
    unfolding all by simp
  then obtain x where x: "x \<in> {p. p < length ?c \<and> ?c ! p = 1} \<times> {0..<opt_nThreads ?o} \<times> {0..<opt_nGpus ?o}"
    "17 = (\<lambda>(p, t, i). rank_of (run_args ?o ?c p t) i) x" by (rule imageE)
  obtain p t i where "x = (p, t, i)" by (cases x)
  with x show ?thesis by (intro exI [of _ p] exI [of _ t] exI [of _ i]) (simp del: run_args_simps)
qed

section \<open>Resources\<close>

text \<open>What a resource needs as long as it is there.\<close>

fun needs :: "resource \<Rightarrow> resource set" where
  "needs (SendReg i) = {Comm i, SendBuf i}"
| "needs (RecvReg i) = {Comm i, RecvBuf i}"
| "needs (DevComm i) = {Comm i}"
| "needs r = {}"







lemma needs_device: "x \<in> needs r \<Longrightarrow> device_of x = device_of r"
  by (cases r) auto






























section \<open>The result\<close>

text \<open>All threads succeed, or the first of the list that fails ends the loop.\<close>

lemma join_all:
  "\<forall>x\<in>set xs. out_ret x = TestSuccess \<Longrightarrow>
    \<exists>s. join_threads xs acc = (Returned TestSuccess, s) \<and> out_errors s = out_errors acc + sum_list (map out_errors xs)
      \<and> out_bw s = out_bw acc + sum_list (map out_bw xs) \<and> out_bw_count s = out_bw_count acc + sum_list (map out_bw_count xs)"
  by (induction xs acc rule: join_threads.induct) (auto split: if_splits)

lemma join_first:
  "\<forall>x\<in>set as. out_ret x = TestSuccess \<Longrightarrow> out_ret f \<noteq> TestSuccess \<Longrightarrow>
    fst (join_threads (as @ f # bs) acc) = leave_run bs (out_ret f)"
  by (induction as arbitrary: acc) simp_all

lemma sum_zero: "(\<And>x. x \<in> set xs \<Longrightarrow> 0 \<le> f x) \<Longrightarrow> sum_list (map f xs) = (0 :: int) \<longleftrightarrow> (\<forall>x\<in>set xs. f x = 0)"
proof (induction xs)
  case (Cons x xs)
  have "0 \<le> sum_list (map f xs)" using Cons.prems by (intro sum_list_nonneg) auto
  then show ?case using Cons by (auto simp: add_nonneg_eq_0_iff)
qed simp

text \<open>C20: how the program ends once its threads have run. When all threads of a process succeed, the result is success exactly if no thread of any
  process has counted an error and the mean bandwidth over all measurements of its threads, if there are any, is at least nine tenths
  of the one that is asked for, and the code of wrong results otherwise. When a thread fails, the first one counts, in the order in
  which the main thread sees them: itself first, then from the last one down to the first. If no thread remains to be joined behind it, its
  result is the one of the program; if one does, the program ends in \<open>std::terminate\<close>. So the result of a failed thread is only seen if all others
  have succeeded or are joined before, and that of the main thread only if it is alone.\<close>

theorem run_result_meaning:
  assumes "outs \<noteq> []" and "\<And>x. x \<in> set outs \<Longrightarrow> 0 \<le> out_errors x" and "0 \<le> other_errors"
  shows "((\<forall>x\<in>set outs. out_ret x = TestSuccess) \<longrightarrow>
      run_result outs other_errors check = Returned
        (if (\<forall>x\<in>set outs. out_errors x = 0) \<and> other_errors = 0
            \<and> (sum_list (map out_bw_count outs) = 0
               \<or> check * 9 / 10 \<le> sum_list (map out_bw outs) / real_of_int (sum_list (map out_bw_count outs)))
         then TestSuccess else TestNumResults))
    \<and> (\<forall>as f bs. hd outs # rev (tl outs) = as @ f # bs \<and> (\<forall>x\<in>set as. out_ret x = TestSuccess) \<and> out_ret f \<noteq> TestSuccess \<longrightarrow>
      run_result outs other_errors check = (if bs = [] then Returned (out_ret f) else Terminated))"
proof (intro conjI impI allI; (elim conjE)?)
  obtain main rest where outs: "outs = main # rest" using assms(1) by (cases outs) auto
  {
    assume all: "\<forall>x\<in>set outs. out_ret x = TestSuccess"
    then have "\<forall>x\<in>set (rev rest). out_ret x = TestSuccess" by (simp add: outs)
    from join_all [OF this, of main] obtain s where join: "join_threads (rev rest) main = (Returned TestSuccess, s)"
      "out_errors s = sum_list (map out_errors outs)" "out_bw s = sum_list (map out_bw outs)" "out_bw_count s = sum_list (map out_bw_count outs)"
      unfolding outs by (auto simp: rev_map [symmetric])
    have "0 \<le> sum_list (map out_errors outs)" using assms(2) by (intro sum_list_nonneg) auto
    then have e: "sum_list (map out_errors outs) + other_errors = 0 \<longleftrightarrow> (\<forall>x\<in>set outs. out_errors x = 0) \<and> other_errors = 0"
      using assms(3) sum_zero [of outs out_errors, OF assms(2)] by auto
    have "run_result outs other_errors check = Returned (if sum_list (map out_errors outs) + other_errors \<noteq> 0
        \<or> sum_list (map out_bw_count outs) \<noteq> 0 \<and> sum_list (map out_bw outs) / real_of_int (sum_list (map out_bw_count outs)) < check * 9 / 10
        then TestNumResults else TestSuccess)"
      using all join by (simp add: run_result_def outs)
    then show "run_result outs other_errors check = Returned
        (if (\<forall>x\<in>set outs. out_errors x = 0) \<and> other_errors = 0
            \<and> (sum_list (map out_bw_count outs) = 0
               \<or> check * 9 / 10 \<le> sum_list (map out_bw outs) / real_of_int (sum_list (map out_bw_count outs)))
         then TestSuccess else TestNumResults)"
      using e by auto
  next
    fix as f bs
    assume order: "hd outs # rev (tl outs) = as @ f # bs" and before: "\<forall>x\<in>set as. out_ret x = TestSuccess" and f: "out_ret f \<noteq> TestSuccess"
    show "run_result outs other_errors check = (if bs = [] then Returned (out_ret f) else Terminated)"
    proof (cases as)
      case Nil
      with order f show ?thesis by (auto simp: run_result_def outs leave_run_def)
    next
      case (Cons a as')
      with order have rest: "a = main" "rev rest = as' @ f # bs" by (simp_all add: outs)
      obtain r s where join: "join_threads (rev rest) main = (r, s)" by (cases "join_threads (rev rest) main")
      then have "r = leave_run bs (out_ret f)" using join_first [of as' f bs main] before f Cons rest(2) by simp
      moreover have "out_ret main = TestSuccess" using before Cons rest(1) by simp
      ultimately show ?thesis using join f by (simp add: run_result_def outs leave_run_def)
    qed
  }
qed

theorem run_result_meaning_witness:
  "run_result [\<lparr>out_ret = TestSuccess, out_errors = 0, out_bw = 30, out_bw_count = 2\<rparr>, \<lparr>out_ret = TestSuccess, out_errors = 0, out_bw = 10, out_bw_count = 2\<rparr>]
    0 11 = Returned TestSuccess
  \<and> run_result [\<lparr>out_ret = TestSuccess, out_errors = 0, out_bw = 30, out_bw_count = 2\<rparr>, \<lparr>out_ret = TestSuccess, out_errors = 0, out_bw = 10, out_bw_count = 2\<rparr>,
      \<lparr>out_ret = TestTimeout, out_errors = 0, out_bw = 10, out_bw_count = 2\<rparr>] 0 11 = Terminated"
proof -
  let ?m = "\<lparr>out_ret = TestSuccess, out_errors = 0, out_bw = 30, out_bw_count = 2\<rparr>"
  let ?t = "\<lparr>out_ret = TestSuccess, out_errors = 0, out_bw = 10, out_bw_count = 2\<rparr>"
  let ?f = "\<lparr>out_ret = TestTimeout, out_errors = 0, out_bw = 10, out_bw_count = 2\<rparr>"
  have "[?m, ?t] \<noteq> []" "\<And>x. x \<in> set [?m, ?t] \<Longrightarrow> 0 \<le> out_errors x" "(0 :: int) \<le> 0" by auto
  from run_result_meaning [OF this, of 11] have "run_result [?m, ?t] 0 11 = Returned TestSuccess" by simp
  moreover have "[?m, ?t, ?f] \<noteq> []" "\<And>x. x \<in> set [?m, ?t, ?f] \<Longrightarrow> 0 \<le> out_errors x" "(0 :: int) \<le> 0" by auto
  from run_result_meaning [OF this, THEN conjunct2, rule_format, of "[?m]" ?f "[?t]" 11]
  have "run_result [?m, ?t, ?f] 0 11 = Terminated" by simp
  ultimately show ?thesis ..
qed

end
