(* ===== verification/DeviceThreads.thy ===== *)
theory DeviceThreads
  imports HostMain
begin

text \<open>
  The threads of a device kernel: how a launch numbers them, the programs of all threads in any interleaving, and the argument
  by which the kernels of src/all_reduce.cu and src/alltoall.cu are right: a cell of the memory is touched by one thread only, so an
  interleaving does to the cell what this thread does alone.
\<close>

lemma to_int_small: "0 \<le> x \<Longrightarrow> x < 2 ^ 31 \<Longrightarrow> to_int x = x"
  by (simp add: to_int_def sint_sbintrunc' signed_take_bit_int_eq_self_iff)

section \<open>Interleavings\<close>

text \<open>The actions of all threads in some order that keeps the order of every thread.\<close>

definition interleaves :: "'t list \<Rightarrow> ('t \<Rightarrow> 'c list) \<Rightarrow> ('t \<times> 'c) list \<Rightarrow> bool" where
  "interleaves threads prog zs \<longleftrightarrow>
     list_all (\<lambda>z. fst z \<in> set threads) zs \<and> list_all (\<lambda>t. map snd (filter (\<lambda>z. fst z = t) zs) = prog t) threads"

lemma one_after_the_other:
  assumes "distinct threads"
  shows "interleaves threads prog (concat (map (\<lambda>t. map (Pair t) (prog t)) threads))"
proof -
  have own: "filter (\<lambda>z. fst z = t) (map (Pair t') (prog t')) = (if t' = t then map (Pair t) (prog t) else [])" for t t'
    by (simp add: filter_map o_def)
  have "map snd (filter (\<lambda>z. fst z = t) (concat (map (\<lambda>t. map (Pair t) (prog t)) ts))) = (if t \<in> set ts then prog t else [])"
    if "distinct ts" for t ts
    using that by (induction ts) (auto simp: own o_def)
  with assms show ?thesis by (auto simp: interleaves_def list_all_iff)
qed

text \<open>What an interleaving does with a key only one thread uses is what this thread does with it.\<close>

lemma interleaves_project:
  assumes "interleaves threads prog zs" "t0 \<in> set threads"
    and "\<And>t. t \<in> set threads \<Longrightarrow> t \<noteq> t0 \<Longrightarrow> filter (\<lambda>c. key c = k) (prog t) = []"
  shows "filter (\<lambda>z. key (snd z) = k) zs = map (Pair t0) (filter (\<lambda>c. key c = k) (prog t0))"
proof -
  have progs: "prog t = map snd (filter (\<lambda>z. fst z = t) zs)" if "t \<in> set threads" for t
    using assms(1) that by (simp add: interleaves_def list_all_iff)
  have "fst z = t0" if "z \<in> set zs" "key (snd z) = k" for z
  proof (rule ccontr)
    assume "fst z \<noteq> t0"
    moreover have "fst z \<in> set threads" using assms(1) that(1) by (simp add: interleaves_def list_all_iff)
    moreover have "snd z \<in> set (prog (fst z))" using progs [OF \<open>fst z \<in> set threads\<close>] that(1) by force
    ultimately show False using assms(3) [of "fst z"] that(2) by (auto simp: filter_empty_conv)
  qed
  then have "filter (\<lambda>z. key (snd z) = k) zs = filter (\<lambda>z. key (snd z) = k) (filter (\<lambda>z. fst z = t0) zs)"
    by (auto intro!: filter_cong)
  also have "\<dots> = map (Pair t0) (filter (\<lambda>c. key c = k) (map snd (filter (\<lambda>z. fst z = t0) zs)))"
  proof -
    have "filter (\<lambda>z. key (snd z) = k) ys = map (Pair t0) (filter (\<lambda>c. key c = k) (map snd ys))"
      if "\<forall>z\<in>set ys. fst z = t0" for ys using that by (induction ys) auto
    from this [of "filter (\<lambda>z. fst z = t0) zs"] show ?thesis by (simp del: filter_filter)
  qed
  finally show ?thesis using progs [OF assms(2)] by simp
qed

lemma interleaves_actions:
  assumes "interleaves threads prog zs" "(t, c) \<in> set zs"
  shows "t \<in> set threads" "c \<in> set (prog t)"
proof -
  show t: "t \<in> set threads" using assms by (auto simp: interleaves_def list_all_iff)
  then have "prog t = map snd (filter (\<lambda>z. fst z = t) zs)" using assms(1) by (simp add: interleaves_def list_all_iff)
  then show "c \<in> set (prog t)" using assms(2) by force
qed

lemma interleaves_actions_ex:
  assumes "interleaves threads prog zs"
  shows "(\<exists>z\<in>set zs. P (snd z)) \<longleftrightarrow> (\<exists>t\<in>set threads. \<exists>c\<in>set (prog t). P c)"
proof
  assume "\<exists>z\<in>set zs. P (snd z)"
  then show "\<exists>t\<in>set threads. \<exists>c\<in>set (prog t). P c" using interleaves_actions [OF assms] by (metis prod.collapse)
next
  assume "\<exists>t\<in>set threads. \<exists>c\<in>set (prog t). P c"
  then obtain t c where t: "t \<in> set threads" "c \<in> set (prog t)" "P c" by blast
  then have "prog t = map snd (filter (\<lambda>z. fst z = t) zs)" using assms by (simp add: interleaves_def list_all_iff)
  with t show "\<exists>z\<in>set zs. P (snd z)" by auto
qed

text \<open>A function of the actions alone.\<close>

lemma interleaves_map:
  assumes "interleaves threads prog zs"
  shows "interleaves threads (\<lambda>t. map f (prog t)) (map (apsnd f) zs)"
proof -
  have "map snd (filter (\<lambda>z. fst z = t) (map (apsnd f) zs)) = map f (map snd (filter (\<lambda>z. fst z = t) zs))" for t
    by (induction zs) auto
  then show ?thesis using assms unfolding interleaves_def list_all_iff by (simp del: map_map)
qed

text \<open>The actions of a kind are counted thread by thread.\<close>

lemma interleaves_count:
  assumes "interleaves threads prog zs"
  shows "length (filter (\<lambda>z. P (snd z)) zs) = (\<Sum>t\<in>set threads. length (filter P (prog t)))"
proof -
  have "length (filter (\<lambda>z. P (snd z)) zs) = (\<Sum>t\<in>set threads. length (filter (\<lambda>z. fst z = t \<and> P (snd z)) zs))"
    if "\<forall>z\<in>set zs. fst z \<in> set threads" for zs :: "('a \<times> 'b) list"
    using that
  proof (induction zs)
    case (Cons z zs)
    have "(\<Sum>t\<in>set threads. length (filter (\<lambda>z. fst z = t \<and> P (snd z)) (z # zs)))
        = (\<Sum>t\<in>set threads. (if fst z = t then (if P (snd z) then 1 else 0) else 0) + length (filter (\<lambda>z. fst z = t \<and> P (snd z)) zs))"
      by (intro sum.cong) simp_all
    also have "\<dots> = (if P (snd z) then 1 else 0) + length (filter (\<lambda>z. P (snd z)) zs)"
      using Cons by (simp add: sum.distrib)
    finally show ?case by simp
  qed simp
  moreover have "length (filter P (prog t)) = length (filter (\<lambda>z. fst z = t \<and> P (snd z)) zs)" if "t \<in> set threads" for t
  proof -
    have "prog t = map snd (filter (\<lambda>z. fst z = t) zs)" using assms that by (simp add: interleaves_def list_all_iff)
    then show ?thesis by (simp add: filter_map o_def conj_commute)
  qed
  ultimately show ?thesis using assms by (simp add: interleaves_def list_all_iff)
qed

section \<open>Cells\<close>

text \<open>Actions with a key and the part of the state a key stands for: an action with another key does not change it, and one with the key
  depends on nothing else.\<close>

locale cells =
  fixes act :: "'z \<Rightarrow> 's \<Rightarrow> 's" and key :: "'z \<Rightarrow> 'k" and same :: "'k \<Rightarrow> 's \<Rightarrow> 's \<Rightarrow> bool"
  assumes own: "key z = k \<Longrightarrow> same k s s' \<Longrightarrow> same k (act z s) (act z s')"
    and other: "key z \<noteq> k \<Longrightarrow> same k s s' \<Longrightarrow> same k (act z s) s'"
begin

lemma project: "same k s s' \<Longrightarrow> same k (fold act zs s) (fold act (filter (\<lambda>z. key z = k) zs) s')"
  by (induction zs arbitrary: s s') (simp_all add: own other)

end

section \<open>The threads of a launch\<close>

text \<open>What a kernel is launched with: the ranks, the grid, the windows with the offsets of the buffers in bytes, the count and the type.\<close>

record launch =
  la_nRanks :: int
  la_gridDim :: int
  la_blockDim :: int
  la_sendwin :: nat
  la_sendoffset :: int
  la_recvwin :: nat
  la_recvoffset :: int
  la_count :: int
  la_type :: elt_type

text \<open>A thread is its rank, its block and its place in the block.\<close>

type_synonym dev_thread = "int \<times> int \<times> int"

definition rank_threads :: "launch \<Rightarrow> int \<Rightarrow> dev_thread list" where
  "rank_threads a rank = concat (map (\<lambda>b. map (\<lambda>t. (rank, b, t)) [0..la_blockDim a - 1]) [0..la_gridDim a - 1])"

definition launch_threads :: "launch \<Rightarrow> dev_thread list" where
  "launch_threads a = concat (map (rank_threads a) [0..la_nRanks a - 1])"

lemma launch_threads:
  "(r, b, t) \<in> set (launch_threads a) \<longleftrightarrow> r \<in> {0..<la_nRanks a} \<and> b \<in> {0..<la_gridDim a} \<and> t \<in> {0..<la_blockDim a}"
  "(r, b, t) \<in> set (rank_threads a rank) \<longleftrightarrow> r = rank \<and> b \<in> {0..<la_gridDim a} \<and> t \<in> {0..<la_blockDim a}"
proof -
  have own: "(r, b, t) \<in> set (rank_threads a rank) \<longleftrightarrow> r = rank \<and> b \<in> {0..<la_gridDim a} \<and> t \<in> {0..<la_blockDim a}" for rank
    by (auto simp: rank_threads_def image_iff Bex_def)
  then show "(r, b, t) \<in> set (launch_threads a) \<longleftrightarrow> r \<in> {0..<la_nRanks a} \<and> b \<in> {0..<la_gridDim a} \<and> t \<in> {0..<la_blockDim a}"
    by (auto simp: launch_threads_def Bex_def)
  from own show "(r, b, t) \<in> set (rank_threads a rank) \<longleftrightarrow> r = rank \<and> b \<in> {0..<la_gridDim a} \<and> t \<in> {0..<la_blockDim a}" .
qed

lemma distinct_launch_threads: "distinct (launch_threads a)"
proof -
  have "distinct (rank_threads a rank)" for rank
    unfolding rank_threads_def by (rule distinct_concat_map) (auto simp: distinct_map inj_on_def)
  then show ?thesis
    unfolding launch_threads_def by (intro distinct_concat_map) (auto simp: rank_threads_def)
qed

text \<open>The number of a thread over all ranks, and over its own rank.\<close>

definition globalTid :: "launch \<Rightarrow> dev_thread \<Rightarrow> int" where
  "globalTid a th = (case th of (rank, b, t) \<Rightarrow> t + la_blockDim a * (rank + b * la_nRanks a))"

definition globalNthreads :: "launch \<Rightarrow> int" where
  "globalNthreads a = la_blockDim a * la_gridDim a * la_nRanks a"

definition local_tid :: "launch \<Rightarrow> dev_thread \<Rightarrow> int" where
  "local_tid a th = (case th of (rank, b, t) \<Rightarrow> t + la_blockDim a * b)"

definition local_nthreads :: "launch \<Rightarrow> int" where
  "local_nthreads a = la_blockDim a * la_gridDim a"

lemma globalTid_bij:
  assumes "0 < la_nRanks a" "0 < la_blockDim a"
  shows "bij_betw (globalTid a) (set (launch_threads a)) {0..<globalNthreads a}"
proof -
  let ?f = "\<lambda>(b, r, t). (b * la_nRanks a + r) * la_blockDim a + t" and ?S = "{0..<la_gridDim a} \<times> {0..<la_nRanks a} \<times> {0..<la_blockDim a}"
  have swap: "bij_betw (\<lambda>(r, b, t). (b, r, t)) (set (launch_threads a)) ?S"
    by (rule bij_betw_byWitness [where f' = "\<lambda>(b, r, t). (r, b, t)"]) (auto simp: launch_threads)
  have "?f \<circ> (\<lambda>(r, b, t). (b, r, t)) = globalTid a" by (auto simp: globalTid_def fun_eq_iff algebra_simps)
  with bij_betw_trans [OF swap radix_bij [OF assms]] show ?thesis by (simp add: globalNthreads_def mult.commute mult.left_commute)
qed

lemma local_tid_bij:
  assumes "0 < la_blockDim a"
  shows "bij_betw (local_tid a) (set (rank_threads a rank)) {0..<local_nthreads a}"
proof (rule bij_betw_byWitness [where f' = "\<lambda>x. (rank, x div la_blockDim a, x mod la_blockDim a)"])
  show "local_tid a ` set (rank_threads a rank) \<subseteq> {0..<local_nthreads a}"
    using mixed_radix [of _ "la_gridDim a" _ "la_blockDim a"]
    by (fastforce simp: launch_threads local_tid_def local_nthreads_def algebra_simps)
qed (use assms quot_less [of _ "la_gridDim a" "la_blockDim a"] in \<open>auto simp: launch_threads local_tid_def local_nthreads_def div_add1_eq
    mult.commute pos_imp_zdiv_nonneg_iff\<close>)

definition launch_ok :: "launch \<Rightarrow> bool" where
  "launch_ok a \<longleftrightarrow> 0 < la_nRanks a \<and> 0 < la_gridDim a \<and> 0 < la_blockDim a \<and> 0 \<le> la_count a \<and> 0 \<le> la_sendoffset a \<and> 0 \<le> la_recvoffset a"

end
