(* ===== verification/DeviceReduce.thy ===== *)
theory DeviceReduce
  imports DeviceThreads
begin

text \<open>
  The kernels of src/all_reduce.cu: the accesses every thread of every rank makes to the windows of all ranks, element by
  element. The theorems show for which calls the kernels leave the sum of all ranks at every rank, in every interleaving of the threads,
  out of place and in place, and which calls access elements past the count or at addresses that are not aligned.
\<close>

section \<open>Accesses\<close>

text \<open>A value of a kernel is a register of its thread, named by the element it is for. \<open>Zero\<close> is its initial
  value, a load adds to it; \<open>MultiLoad\<close> and \<open>MultiStore\<close> are the operations on all peers of
  src/multimem_ops.h, with the number of elements of their value type first: one, or those of a vector.\<close>

datatype access = Zero int | LoadPeer int int | StorePeer int int | MultiLoad int int | MultiStore int int

fun access_elem :: "access \<Rightarrow> int" where
  "access_elem (Zero e) = e"
| "access_elem (LoadPeer p e) = e"
| "access_elem (StorePeer p e) = e"
| "access_elem (MultiLoad w e) = e"
| "access_elem (MultiStore w e) = e"

text \<open>The templates of src/multimem_ops.h end in \<open>assert(false)\<close> for all types but those they are specialised for (when they are compiled
  for Hopper or a later architecture): \<open>float\<close> alone, in twos and in fours, and \<open>double\<close> alone.\<close>

definition multimem_implemented :: "elt_type \<Rightarrow> int \<Rightarrow> bool" where
  "multimem_implemented ty w \<longleftrightarrow> (ty, w) \<in> {(NcclFloat64, 1), (NcclFloat32, 1), (NcclFloat32, 2), (NcclFloat32, 4)}"

fun multimem_assertion :: "elt_type \<Rightarrow> access \<Rightarrow> bool" where
  "multimem_assertion ty (MultiLoad w e) = multimem_implemented ty w"
| "multimem_assertion ty (MultiStore w e) = multimem_implemented ty w"
| "multimem_assertion ty _ = True"

definition elt_bytes :: "elt_type \<Rightarrow> int" where
  "elt_bytes ty = uint (wordSize ty)"

text \<open>The place of an element: the window, the peer and the byte.\<close>

type_synonym dev_loc = "nat \<times> int \<times> int"

definition send_loc :: "launch \<Rightarrow> int \<Rightarrow> int \<Rightarrow> dev_loc" where
  "send_loc a p e = (la_sendwin a, p, la_sendoffset a + e * elt_bytes (la_type a))"

definition recv_loc :: "launch \<Rightarrow> int \<Rightarrow> int \<Rightarrow> dev_loc" where
  "recv_loc a p e = (la_recvwin a, p, la_recvoffset a + e * elt_bytes (la_type a))"

type_synonym 'a dev_state = "(dev_loc \<Rightarrow> 'a) \<times> (dev_thread \<times> int \<Rightarrow> 'a)"

definition all_peers :: "launch \<Rightarrow> int list" where
  "all_peers a = [0..la_nRanks a - 1]"

text \<open>What an access does; \<open>add\<close> and \<open>zero\<close> are those of the type, \<open>multi\<close> is what the hardware computes from the values of all peers.\<close>

definition access_effect :: "launch \<Rightarrow> ('a \<Rightarrow> 'a \<Rightarrow> 'a) \<Rightarrow> 'a \<Rightarrow> ('a list \<Rightarrow> 'a) \<Rightarrow> dev_thread \<times> access \<Rightarrow> 'a dev_state \<Rightarrow> 'a dev_state" where
  "access_effect a add zero multi z s =
     (let (m, r) = s; (t, c) = z in
      case c of
        Zero e \<Rightarrow> (m, r((t, e) := zero))
      | LoadPeer p e \<Rightarrow> (m, r((t, e) := add (r (t, e)) (m (send_loc a p e))))
      | StorePeer p e \<Rightarrow> (m(recv_loc a p e := r (t, e)), r)
      | MultiLoad w e \<Rightarrow> (m, r((t, e) := multi (map (\<lambda>p. m (send_loc a p e)) (all_peers a))))
      | MultiStore w e \<Rightarrow> (fold (\<lambda>p m. m(recv_loc a p e := r (t, e))) (all_peers a) m, r))"

text \<open>One access; a failed assertion ends the kernel with an error of the device (\<^const>\<open>None\<close>).\<close>

definition access_step :: "launch \<Rightarrow> ('a \<Rightarrow> 'a \<Rightarrow> 'a) \<Rightarrow> 'a \<Rightarrow> ('a list \<Rightarrow> 'a) \<Rightarrow> dev_thread \<times> access \<Rightarrow> 'a dev_state \<Rightarrow> 'a dev_state option" where
  "access_step a add zero multi z s =
     (if multimem_assertion (la_type a) (snd z) then Some (access_effect a add zero multi z s) else None)"

fun access_run :: "launch \<Rightarrow> ('a \<Rightarrow> 'a \<Rightarrow> 'a) \<Rightarrow> 'a \<Rightarrow> ('a list \<Rightarrow> 'a) \<Rightarrow> (dev_thread \<times> access) list \<Rightarrow> 'a dev_state \<Rightarrow> 'a dev_state option" where
  "access_run a add zero multi [] s = Some s"
| "access_run a add zero multi (z # zs) s = Option.bind (access_step a add zero multi z s) (access_run a add zero multi zs)"

lemma access_run_eq:
  "access_run a add zero multi zs s =
     (if \<exists>z\<in>set zs. \<not> multimem_assertion (la_type a) (snd z) then None else Some (fold (access_effect a add zero multi) zs s))"
  by (induction zs arbitrary: s) (simp_all add: access_step_def)

section \<open>The kernels\<close>

text \<open>Values that are loaded together, peer after peer, and then stored together.\<close>

definition lsa_group :: "launch \<Rightarrow> int list \<Rightarrow> access list" where
  "lsa_group a es = map Zero es @ concat (map (\<lambda>p. map (LoadPeer p) es) (all_peers a)) @ concat (map (\<lambda>p. map (StorePeer p) es) (all_peers a))"

definition multimem_group :: "int \<Rightarrow> int list \<Rightarrow> access list" where
  "multimem_group w es = map (MultiLoad w) es @ map (MultiStore w) es"

definition allReduceLsaKernel :: "launch \<Rightarrow> dev_thread \<Rightarrow> access list" where
  "allReduceLsaKernel a th = concat (map (\<lambda>e. lsa_group a [e]) (thread_indices (globalNthreads a) (globalTid a th) (la_count a)))"

definition allReduceMultimemKernel :: "launch \<Rightarrow> dev_thread \<Rightarrow> access list" where
  "allReduceMultimemKernel a th = concat (map (\<lambda>e. multimem_group 1 [e]) (thread_indices (globalNthreads a) (globalTid a th) (la_count a)))"

text \<open>The size of the vector type of a type, src/vector_types.h.\<close>

definition VectorTypeMapping :: "elt_type \<Rightarrow> int" where
  "VectorTypeMapping ty =
     (if ty = NcclFloat32 then 16 else if ty = NcclFloat64 then 16 else if ty = NcclInt8 then 4 else if ty = NcclUint8 then 4
      else if ty = NcclInt32 then 16 else if ty = NcclUint32 then 16 else elt_bytes ty)"

definition VECTOR_FACTOR :: "launch \<Rightarrow> int" where
  "VECTOR_FACTOR a = VectorTypeMapping (la_type a) div elt_bytes (la_type a)"

definition UNROLL_FACTOR :: "launch \<Rightarrow> int" where
  "UNROLL_FACTOR a = 128 div VectorTypeMapping (la_type a)"

definition WARP_SIZE :: int where "WARP_SIZE = 32"

text \<open>The parts of the buffer. Sizes are of 64 bits without a sign, the numbers of blocks and offsets of 32 bits with one.\<close>

definition alignment_offset :: "launch \<Rightarrow> int" where
  "alignment_offset a = (la_sendoffset a mod VectorTypeMapping (la_type a)) div elt_bytes (la_type a)"

definition aligned_count :: "launch \<Rightarrow> int" where
  "aligned_count a = (la_count a - alignment_offset a) mod 2 ^ 64"

definition vector_count :: "launch \<Rightarrow> int" where
  "vector_count a = aligned_count a div VECTOR_FACTOR a"

definition vector_rest :: "launch \<Rightarrow> int" where
  "vector_rest a = aligned_count a mod VECTOR_FACTOR a"

definition remainder_start :: "launch \<Rightarrow> int" where
  "remainder_start a = alignment_offset a + vector_count a * VECTOR_FACTOR a"

definition elements_per_block :: "launch \<Rightarrow> int" where
  "elements_per_block a = to_int (globalNthreads a * UNROLL_FACTOR a)"

definition num_blocks :: "launch \<Rightarrow> int" where
  "num_blocks a = to_int (vector_count a div (elements_per_block a mod 2 ^ 64))"

definition warp_lane_offset :: "launch \<Rightarrow> dev_thread \<Rightarrow> int" where
  "warp_lane_offset a th =
     to_int (globalTid a th div WARP_SIZE * WARP_SIZE * UNROLL_FACTOR a + globalTid a th mod WARP_SIZE)"

definition vector_offset :: "launch \<Rightarrow> dev_thread \<Rightarrow> int \<Rightarrow> int \<Rightarrow> int" where
  "vector_offset a th block i =
     (warp_lane_offset a th + to_int (block * globalNthreads a * UNROLL_FACTOR a) + i * WARP_SIZE) mod 2 ^ 64"

text \<open>The elements of the vector at an offset.\<close>

definition vector_elems :: "launch \<Rightarrow> int \<Rightarrow> int list" where
  "vector_elems a k = map (\<lambda>j. alignment_offset a + k * VECTOR_FACTOR a + j) [0..VECTOR_FACTOR a - 1]"

text \<open>What a thread of a vectorized kernel works on, group after group: single elements before the vectors, whole blocks and the vectors of
  the last block that exist, and the elements that are left.\<close>

definition head_groups :: "launch \<Rightarrow> int \<Rightarrow> dev_thread \<Rightarrow> int list list" where
  "head_groups a head th = map (\<lambda>e. [e]) (thread_indices (globalNthreads a) (globalTid a th) head)"

definition block_groups :: "launch \<Rightarrow> dev_thread \<Rightarrow> int list list" where
  "block_groups a th =
     map (\<lambda>b. concat (map (\<lambda>i. vector_elems a (vector_offset a th b i)) [0..UNROLL_FACTOR a - 1])) [0..num_blocks a - 1]
     @ [concat (map (vector_elems a) (filter (\<lambda>k. k < vector_count a) (map (vector_offset a th (num_blocks a)) [0..UNROLL_FACTOR a - 1])))]"

definition rest_groups :: "launch \<Rightarrow> dev_thread \<Rightarrow> int list list" where
  "rest_groups a th = map (\<lambda>e. [remainder_start a + e]) (thread_indices (globalNthreads a) (globalTid a th) (vector_rest a))"

definition vector_groups :: "launch \<Rightarrow> int \<Rightarrow> dev_thread \<Rightarrow> int list list" where
  "vector_groups a head th = head_groups a head th @ block_groups a th @ rest_groups a th"

definition allReduceLsaVectorizedKernel :: "launch \<Rightarrow> dev_thread \<Rightarrow> access list" where
  "allReduceLsaVectorizedKernel a th = concat (map (lsa_group a) (vector_groups a (alignment_offset a) th))"

definition allReduceMultimemVectorizedKernel :: "launch \<Rightarrow> dev_thread \<Rightarrow> access list" where
  "allReduceMultimemVectorizedKernel a th =
     concat (map (multimem_group 1) (head_groups a (if alignment_offset a > 0 then max (alignment_offset a) (la_count a) else 0) th))
     @ concat (map (multimem_group (VECTOR_FACTOR a)) (block_groups a th))
     @ concat (map (multimem_group 1) (rest_groups a th))"

text \<open>The kernel of an implementation.\<close>

definition allReduceKernel :: "int \<Rightarrow> launch \<Rightarrow> dev_thread \<Rightarrow> access list" where
  "allReduceKernel impl =
     (if impl = 1 then allReduceLsaKernel else if impl = 2 then allReduceLsaVectorizedKernel
      else if impl = 3 then allReduceMultimemKernel else allReduceMultimemVectorizedKernel)"

text \<open>The requirements of the kernels: the barriers and whether multicast memory is wanted, or the error. \<open>commProperties\<close> are
  the ranks of the communicator and of its team, and the support of multicast.\<close>

record dev_reqs =
  req_lsaBarrierCount :: int
  req_lsaMultimem :: bool
  req_barrierCount :: int
  req_worldGinBarrierCount :: int
  req_ginSignalCount :: int

definition AllReduceGetDevCommRequirements :: "int \<Rightarrow> int \<Rightarrow> int \<Rightarrow> int \<Rightarrow> bool \<Rightarrow> dev_reqs \<Rightarrow> testResult \<times> dev_reqs" where
  "AllReduceGetDevCommRequirements deviceImpl ctas nRanks lsaRanks multimemSupport reqs =
     (if deviceImpl > 0 \<and> nRanks \<noteq> lsaRanks then (TestInvalidUsage, reqs)
      else if deviceImpl = 1 \<or> deviceImpl = 2 then (TestSuccess, reqs\<lparr>req_lsaBarrierCount := ctas\<rparr>)
      else if deviceImpl = 3 \<or> deviceImpl = 4
      then (if \<not> multimemSupport then (TestInvalidUsage, reqs) else (TestSuccess, reqs\<lparr>req_lsaMultimem := True, req_lsaBarrierCount := ctas\<rparr>))
      else (TestNotImplemented, reqs))"

section \<open>Elements do not disturb each other\<close>

text \<open>The send and the receive buffer are different windows, or the same buffer at the same offset.\<close>

definition buffers_ok :: "launch \<Rightarrow> bool" where
  "buffers_ok a \<longleftrightarrow> la_sendwin a \<noteq> la_recvwin a \<or> la_sendoffset a = la_recvoffset a"

text \<open>Two states agree on an element.\<close>

definition same_elem :: "launch \<Rightarrow> int \<Rightarrow> 'a dev_state \<Rightarrow> 'a dev_state \<Rightarrow> bool" where
  "same_elem a e s s' \<longleftrightarrow>
     (\<forall>p. fst s (send_loc a p e) = fst s' (send_loc a p e) \<and> fst s (recv_loc a p e) = fst s' (recv_loc a p e))
     \<and> (\<forall>t. snd s (t, e) = snd s' (t, e))"

lemma elt_bytes_pos [simp]: "0 < elt_bytes ty"
  by (cases ty) (simp_all add: elt_bytes_def)

lemma elt_bytes_nonzero [simp]: "elt_bytes ty \<noteq> 0"
  by (cases ty) (simp_all add: elt_bytes_def)

lemma locs_inj [simp]:
  "send_loc a p e = send_loc a p' e' \<longleftrightarrow> p = p' \<and> e = e'" "recv_loc a p e = recv_loc a p' e' \<longleftrightarrow> p = p' \<and> e = e'"
  by (auto simp: send_loc_def recv_loc_def)

lemma locs_apart: "buffers_ok a \<Longrightarrow> send_loc a p e = recv_loc a p' e' \<Longrightarrow> p = p' \<and> e = e'"
  by (auto simp: buffers_ok_def send_loc_def recv_loc_def)

lemma store_all: "fold (\<lambda>p m. m(recv_loc a p e := v)) ps m l = (if \<exists>p\<in>set ps. l = recv_loc a p e then v else m l)"
  by (induction ps arbitrary: m) auto

lemma access_effect_simps [simp]:
  "access_effect a add zero multi (t, Zero e) (m, r) = (m, r((t, e) := zero))"
  "access_effect a add zero multi (t, LoadPeer p e) (m, r) = (m, r((t, e) := add (r (t, e)) (m (send_loc a p e))))"
  "access_effect a add zero multi (t, StorePeer p e) (m, r) = (m(recv_loc a p e := r (t, e)), r)"
  "access_effect a add zero multi (t, MultiLoad w e) (m, r) = (m, r((t, e) := multi (map (\<lambda>p. m (send_loc a p e)) (all_peers a))))"
  "access_effect a add zero multi (t, MultiStore w e) (m, r) = (fold (\<lambda>p m. m(recv_loc a p e := r (t, e))) (all_peers a) m, r)"
  by (simp_all add: access_effect_def)

lemma step_own:
  assumes "access_elem (snd z) = e" "same_elem a e s s'" "buffers_ok a"
  shows "same_elem a e (access_effect a add zero multi z s) (access_effect a add zero multi z s')"
proof -
  obtain t c m r m' r' where z: "z = (t, c)" "s = (m, r)" "s' = (m', r')" by (metis surj_pair)
  have loads: "map (\<lambda>p. m (send_loc a p e)) ps = map (\<lambda>p. m' (send_loc a p e)) ps" for ps
    using assms(2) by (simp add: z same_elem_def)
  show ?thesis
    using assms by (cases c) (auto simp: z same_elem_def store_all loads simp del: split_paired_All dest: locs_apart)
qed

lemma step_other:
  assumes "access_elem (snd z) \<noteq> e" "same_elem a e s s'" "buffers_ok a"
  shows "same_elem a e (access_effect a add zero multi z s) s'"
proof -
  obtain t c m r where z: "z = (t, c)" "s = (m, r)" by (metis surj_pair)
  show ?thesis
    using assms by (cases c) (auto simp: z same_elem_def store_all simp del: split_paired_All dest: locs_apart)
qed

interpretation elements: cells "access_effect a add zero multi" "\<lambda>z. access_elem (snd z)" "\<lambda>e s s'. buffers_ok a \<longrightarrow> same_elem a e s s'"
  for a add zero multi
  by unfold_locales (simp_all add: step_own step_other)

section \<open>What a thread does with an element\<close>

definition lsa_ops :: "launch \<Rightarrow> int \<Rightarrow> access list" where
  "lsa_ops a e = Zero e # map (\<lambda>p. LoadPeer p e) (all_peers a) @ map (\<lambda>p. StorePeer p e) (all_peers a)"

definition multimem_ops :: "int \<Rightarrow> access list" where
  "multimem_ops e = [MultiLoad 1 e, MultiStore 1 e]"

text \<open>The effect of an access is that of the same access to a single element.\<close>

fun one_elem :: "access \<Rightarrow> access" where
  "one_elem (MultiLoad w e) = MultiLoad 1 e"
| "one_elem (MultiStore w e) = MultiStore 1 e"
| "one_elem c = c"

lemma one_elem_groups [simp]:
  "map one_elem (lsa_group a es) = lsa_group a es" "map one_elem (multimem_group w es) = multimem_group 1 es"
  by (simp_all add: lsa_group_def multimem_group_def map_concat o_def)

lemma one_elem_effect: "access_effect a add zero multi (apsnd one_elem z) s = access_effect a add zero multi z s"
proof -
  obtain t c m r where "z = (t, c)" "s = (m, r)" by (metis surj_pair)
  then show ?thesis by (cases c) simp_all
qed

lemma fold_one_elem: "fold (access_effect a add zero multi) (map (apsnd one_elem) zs) s = fold (access_effect a add zero multi) zs s"
  by (induction zs arbitrary: s) (simp_all add: one_elem_effect)

lemma filter_one: "distinct xs \<Longrightarrow> filter (\<lambda>x. x = e) xs = (if e \<in> set xs then [e] else [])"
  by (induction xs) (auto simp: filter_empty_conv)

lemma group_project:
  assumes "distinct es"
  shows "filter (\<lambda>c. access_elem c = e) (lsa_group a es) = (if e \<in> set es then lsa_ops a e else [])"
    and "filter (\<lambda>c. access_elem c = e) (multimem_group 1 es) = (if e \<in> set es then multimem_ops e else [])"
proof -
  have one: "filter (\<lambda>c. access_elem c = e) (map f es) = (if e \<in> set es then [f e] else [])"
    if "\<And>x. access_elem (f x) = x" for f
    using filter_one [OF assms] that by (simp add: filter_map o_def)
  have many: "filter (\<lambda>c. access_elem c = e) (concat (map (\<lambda>p. map (f p) es) ps)) = (if e \<in> set es then map (\<lambda>p. f p e) ps else [])"
    if "\<And>p x. access_elem (f p x) = x" for f :: "int \<Rightarrow> int \<Rightarrow> access" and ps
    by (induction ps) (simp_all add: one that)
  show "filter (\<lambda>c. access_elem c = e) (lsa_group a es) = (if e \<in> set es then lsa_ops a e else [])"
    by (simp add: lsa_group_def lsa_ops_def one many)
  show "filter (\<lambda>c. access_elem c = e) (multimem_group 1 es) = (if e \<in> set es then multimem_ops e else [])"
    by (simp add: multimem_group_def multimem_ops_def one)
qed

lemma groups_project:
  assumes "\<And>es. distinct es \<Longrightarrow> filter P (grp es) = (if e \<in> set es then ops else [])" "distinct (concat gs)"
  shows "filter P (concat (map grp gs)) = (if e \<in> set (concat gs) then ops else [])"
  using assms(2) by (induction gs) (auto simp: assms(1))

section \<open>Every element has one thread\<close>

lemma strided:
  assumes "0 \<le> t" "t < n"
  shows "j \<in> set (thread_indices n t N) \<longleftrightarrow> 0 \<le> j \<and> j < N \<and> j mod n = t"
proof -
  have "n dvd j - t \<longleftrightarrow> j mod n = t" using assms by (simp add: mod_eq_dvd_iff [symmetric])
  moreover have "t \<le> j" if "0 \<le> j" "j mod n = t" using zmod_le_nonneg_dividend [OF that(1), of n] that(2) by simp
  ultimately show ?thesis using assms by (auto simp: set_thread_indices)
qed

text \<open>The vector at an offset, taken apart: block, warp, round and lane.\<close>

definition vector_owner :: "int \<Rightarrow> int \<Rightarrow> int \<Rightarrow> int" where
  "vector_owner n U k = (let x = k mod (n * U) in x div (WARP_SIZE * U) * WARP_SIZE + x mod WARP_SIZE)"

lemma div_digit: "0 \<le> x \<Longrightarrow> x < m \<Longrightarrow> (b * m + x) div m = b \<and> (b * m + x) mod m = (x :: int)"
  by simp

lemma vector_digits:
  assumes "0 < n" "0 < U" "WARP_SIZE dvd n" "0 \<le> t" "t < n" "0 \<le> i" "i < U"
    and k: "k = b * (n * U) + (t div WARP_SIZE * WARP_SIZE * U + t mod WARP_SIZE + i * WARP_SIZE)"
  shows "k div (n * U) = b" "k mod (n * U) mod (WARP_SIZE * U) div WARP_SIZE = i" "vector_owner n U k = t"
    and "b * (n * U) \<le> k" "k < b * (n * U) + n * U"
proof -
  obtain W where W: "n = WARP_SIZE * W" using assms(3) ..
  let ?w = "t div WARP_SIZE" and ?l = "t mod WARP_SIZE"
  have l: "0 \<le> ?l" "?l < WARP_SIZE" by (simp_all add: WARP_SIZE_def)
  have w: "0 \<le> ?w" "?w < W" using assms(4,5) W by (auto simp: WARP_SIZE_def)
  let ?y = "i * WARP_SIZE + ?l"
  have y: "0 \<le> ?y" "?y < U * WARP_SIZE" using mixed_radix [OF assms(6,7) l] by simp_all
  let ?x = "?w * (U * WARP_SIZE) + ?y"
  have x: "0 \<le> ?x" "?x < n * U" using mixed_radix [OF w y] by (simp_all add: W mult_ac)
  have kx: "k = b * (n * U) + ?x" by (simp add: k algebra_simps)
  have m: "k mod (n * U) = ?x" and "k div (n * U) = b" using div_digit [OF x, of b] unfolding kx by blast+
  then show "k div (n * U) = b" by blast
  show "b * (n * U) \<le> k" "k < b * (n * U) + n * U" using x by (simp_all add: kx)
  have xm: "?x mod (WARP_SIZE * U) = ?y" "?x div (WARP_SIZE * U) = ?w"
    using div_digit [OF y, of ?w] unfolding mult.commute [of WARP_SIZE U] by blast+
  show "k mod (n * U) mod (WARP_SIZE * U) div WARP_SIZE = i" using l by (simp add: m xm)
  have "?x = (?w * U + i) * WARP_SIZE + ?l" by (simp add: algebra_simps)
  then have "?x mod WARP_SIZE = ?l" using div_digit [OF l, of "?w * U + i"] by metis
  then show "vector_owner n U k = t" using div_mult_mod_eq [of t WARP_SIZE] by (simp add: vector_owner_def m xm)
qed

lemma vector_digits_ex:
  assumes "0 < n" "0 < U" "WARP_SIZE dvd n" "0 \<le> k"
  shows "\<exists>i. 0 \<le> i \<and> i < U \<and> 0 \<le> vector_owner n U k \<and> vector_owner n U k < n \<and>
    k = k div (n * U) * (n * U) + (vector_owner n U k div WARP_SIZE * WARP_SIZE * U + vector_owner n U k mod WARP_SIZE + i * WARP_SIZE)"
proof -
  obtain W where W: "n = WARP_SIZE * W" using assms(3) ..
  let ?x = "k mod (n * U)" let ?w = "?x div (WARP_SIZE * U)" and ?y = "?x mod (WARP_SIZE * U)"
  have x: "0 \<le> ?x" "?x < n * U" using assms by simp_all
  have pos: "0 < WARP_SIZE * U" using assms(2) by (simp add: WARP_SIZE_def)
  have w: "0 \<le> ?w" "?w < W" using x pos quot_less [of ?x W "WARP_SIZE * U"] by (simp_all add: W mult_ac pos_imp_zdiv_nonneg_iff)
  have y: "0 \<le> ?y" "?y < U * WARP_SIZE" using pos by (simp_all add: mult.commute)
  have i: "0 \<le> ?y div WARP_SIZE" "?y div WARP_SIZE < U" using y quot_less [of ?y U WARP_SIZE] by (simp_all add: WARP_SIZE_def)
  have l: "?y mod WARP_SIZE = ?x mod WARP_SIZE" "0 \<le> ?x mod WARP_SIZE" "?x mod WARP_SIZE < WARP_SIZE"
    by (simp_all add: WARP_SIZE_def mod_mod_cancel)
  have o: "vector_owner n U k = ?w * WARP_SIZE + ?x mod WARP_SIZE" by (simp add: vector_owner_def Let_def)
  have od: "vector_owner n U k div WARP_SIZE = ?w" "vector_owner n U k mod WARP_SIZE = ?x mod WARP_SIZE"
    using l by (simp_all add: o)
  have "k = k div (n * U) * (n * U) + ?x" by (rule div_mult_mod_eq [symmetric])
  moreover have "?x = ?w * (WARP_SIZE * U) + ?y" by (rule div_mult_mod_eq [symmetric])
  moreover have "?y = ?y div WARP_SIZE * WARP_SIZE + ?x mod WARP_SIZE" using div_mult_mod_eq [of ?y WARP_SIZE] l(1) by simp
  ultimately have "k = k div (n * U) * (n * U) + (?w * (WARP_SIZE * U) + ?x mod WARP_SIZE + ?y div WARP_SIZE * WARP_SIZE)"
    by linarith
  then have "k = k div (n * U) * (n * U) + (?w * WARP_SIZE * U + ?x mod WARP_SIZE + ?y div WARP_SIZE * WARP_SIZE)"
    by (simp only: mult.assoc)
  moreover have "0 \<le> vector_owner n U k" "vector_owner n U k < n"
    using mixed_radix [OF w l(2,3)] unfolding o mult.commute [of W] W [symmetric] by blast+
  ultimately show ?thesis unfolding od using i by blast
qed

text \<open>A launch the vectorized kernels are made for: whole warps, numbers that fit into an int, and not fewer elements than
  precede the vectors.\<close>

definition vector_launch :: "launch \<Rightarrow> bool" where
  "vector_launch a \<longleftrightarrow> launch_ok a \<and> WARP_SIZE dvd la_blockDim a \<and> globalNthreads a * UNROLL_FACTOR a < 2 ^ 31
     \<and> vector_count a < 2 ^ 31 \<and> alignment_offset a \<le> la_count a \<and> la_count a < 2 ^ 64"

lemma vector_sizes:
  "0 < VECTOR_FACTOR a" "0 < UNROLL_FACTOR a" "UNROLL_FACTOR a \<le> 128" "VECTOR_FACTOR a * elt_bytes (la_type a) = VectorTypeMapping (la_type a)"
  by (cases "la_type a"; simp add: VECTOR_FACTOR_def UNROLL_FACTOR_def VectorTypeMapping_def elt_bytes_def)+

lemma launch_parts:
  assumes "vector_launch a"
  shows "0 < globalNthreads a" "WARP_SIZE dvd globalNthreads a" "0 \<le> alignment_offset a" "0 \<le> vector_count a"
    and "la_count a = remainder_start a + vector_rest a" "0 \<le> vector_rest a"
    and "elements_per_block a = globalNthreads a * UNROLL_FACTOR a" "num_blocks a = vector_count a div (globalNthreads a * UNROLL_FACTOR a)"
proof -
  show n: "0 < globalNthreads a" using assms by (simp add: vector_launch_def launch_ok_def globalNthreads_def)
  show "WARP_SIZE dvd globalNthreads a" using assms by (simp add: vector_launch_def globalNthreads_def)
  show al: "0 \<le> alignment_offset a"
    using vector_sizes(1,4) [of a] by (simp add: alignment_offset_def pos_imp_zdiv_nonneg_iff less_imp_le flip: vector_sizes(4))
  have "aligned_count a = la_count a - alignment_offset a"
    unfolding aligned_count_def using assms al by (intro mod_pos_pos_trivial) (simp_all add: vector_launch_def)
  then have c: "aligned_count a = la_count a - alignment_offset a" "0 \<le> aligned_count a" using assms by (simp_all add: vector_launch_def)
  show vc: "0 \<le> vector_count a" using c vector_sizes(1) [of a] by (simp add: vector_count_def pos_imp_zdiv_nonneg_iff)
  show "0 \<le> vector_rest a" using vector_sizes(1) [of a] by (simp add: vector_rest_def)
  show "la_count a = remainder_start a + vector_rest a"
    using c(1) div_mult_mod_eq [of "aligned_count a" "VECTOR_FACTOR a"] by (simp add: remainder_start_def vector_count_def vector_rest_def)
  have p: "0 < globalNthreads a * UNROLL_FACTOR a" using n vector_sizes(2) [of a] by simp
  then show epb: "elements_per_block a = globalNthreads a * UNROLL_FACTOR a"
    unfolding elements_per_block_def using assms by (intro to_int_small) (simp_all add: vector_launch_def)
  have "elements_per_block a mod 2 ^ 64 = globalNthreads a * UNROLL_FACTOR a"
    using p assms by (simp add: epb vector_launch_def)
  moreover have "0 \<le> vector_count a div (globalNthreads a * UNROLL_FACTOR a)" "vector_count a div (globalNthreads a * UNROLL_FACTOR a) \<le> vector_count a"
    using vc p zdiv_mono2 [of "vector_count a" 1] by (simp_all add: pos_imp_zdiv_nonneg_iff)
  ultimately show "num_blocks a = vector_count a div (globalNthreads a * UNROLL_FACTOR a)"
    unfolding num_blocks_def using assms by (simp add: to_int_small vector_launch_def)
qed

lemma vector_offset_eq:
  assumes a: "vector_launch a" and th: "th \<in> set (launch_threads a)" and b: "0 \<le> b" "b \<le> num_blocks a" and i: "0 \<le> i" "i < UNROLL_FACTOR a"
  shows "vector_offset a th b i = b * (globalNthreads a * UNROLL_FACTOR a)
      + (globalTid a th div WARP_SIZE * WARP_SIZE * UNROLL_FACTOR a + globalTid a th mod WARP_SIZE + i * WARP_SIZE)"
proof -
  let ?n = "globalNthreads a" and ?U = "UNROLL_FACTOR a" and ?t = "globalTid a th"
  note n = launch_parts(1,2) [OF a] and U = vector_sizes(2) [of a]
  have t: "0 \<le> ?t" "?t < ?n"
    using globalTid_bij [of a] th a by (force simp: vector_launch_def launch_ok_def bij_betw_def)+
  note at0 = vector_digits(4,5) [OF n(1) U n(2) t _ _ refl, of 0 0] and ati = vector_digits(4,5) [OF n(1) U n(2) t i refl, of b]
  have lane: "warp_lane_offset a th = ?t div WARP_SIZE * WARP_SIZE * ?U + ?t mod WARP_SIZE"
    unfolding warp_lane_offset_def using at0 U a by (intro to_int_small) (simp_all add: vector_launch_def)
  have le: "b * (?n * ?U) \<le> vector_count a"
  proof -
    have "b * (?n * ?U) \<le> vector_count a div (?n * ?U) * (?n * ?U)"
      using b launch_parts(8) [OF a] n U by (intro mult_right_mono) simp_all
    also have "\<dots> \<le> vector_count a" using n U by (simp add: minus_mod_eq_div_mult [symmetric])
    finally show ?thesis .
  qed
  have block: "to_int (b * ?n * ?U) = b * (?n * ?U)"
    unfolding mult.assoc using le b n U a by (intro to_int_small) (simp_all add: vector_launch_def)
  have "0 \<le> b * (?n * ?U)" using b n U by simp
  then show ?thesis
    unfolding vector_offset_def lane block
    by (subst mod_pos_pos_trivial) (use ati le a in \<open>simp_all add: vector_launch_def algebra_simps\<close>)
qed

text \<open>The vectors of a thread: those it owns, each once.\<close>

definition thread_vectors :: "launch \<Rightarrow> dev_thread \<Rightarrow> int list" where
  "thread_vectors a th =
     concat (map (\<lambda>b. map (vector_offset a th b) [0..UNROLL_FACTOR a - 1]) [0..num_blocks a - 1])
     @ filter (\<lambda>k. k < vector_count a) (map (vector_offset a th (num_blocks a)) [0..UNROLL_FACTOR a - 1])"

lemma thread_vectors:
  assumes a: "vector_launch a" and th: "th \<in> set (launch_threads a)"
  shows "distinct (thread_vectors a th)"
    and "k \<in> set (thread_vectors a th) \<longleftrightarrow> 0 \<le> k \<and> k < vector_count a \<and> vector_owner (globalNthreads a) (UNROLL_FACTOR a) k = globalTid a th"
proof -
  let ?n = "globalNthreads a" and ?U = "UNROLL_FACTOR a" and ?t = "globalTid a th" and ?m = "globalNthreads a * UNROLL_FACTOR a"
  note n = launch_parts(1,2) [OF a] and U = vector_sizes(2) [of a] and nb = launch_parts(8) [OF a]
  have t: "0 \<le> ?t" "?t < ?n"
    using globalTid_bij [of a] th a by (force simp: vector_launch_def launch_ok_def bij_betw_def)+
  have m: "0 < ?m" using n U by simp
  have nb0: "0 \<le> num_blocks a" using launch_parts(4) [OF a] m by (simp add: nb pos_imp_zdiv_nonneg_iff)
  have at: "vector_offset a th b i div ?m = b" "vector_offset a th b i mod ?m mod (WARP_SIZE * ?U) div WARP_SIZE = i"
      "vector_owner ?n ?U (vector_offset a th b i) = ?t" "b * ?m \<le> vector_offset a th b i" "vector_offset a th b i < b * ?m + ?m"
    if "0 \<le> b" "b \<le> num_blocks a" "0 \<le> i" "i < ?U" for b i
    using vector_digits [OF n(1) U n(2) t that(3,4) vector_offset_eq [OF a th that]] by blast+
  have row: "distinct (map (vector_offset a th b) [0..?U - 1])" if "0 \<le> b" "b \<le> num_blocks a" for b
  proof -
    have "inj_on (vector_offset a th b) {0..?U - 1}"
      by (rule inj_on_inverseI [where g = "\<lambda>k. k mod ?m mod (WARP_SIZE * ?U) div WARP_SIZE"]) (use at(2) [OF that] in simp)
    then show ?thesis by (simp add: distinct_map)
  qed
  have full: "distinct (concat (map (\<lambda>b. map (vector_offset a th b) [0..?U - 1]) [0..num_blocks a - 1]))"
  proof (rule distinct_concat_map)
    show "distinct (map (vector_offset a th b) [0..?U - 1])" if "b \<in> set [0..num_blocks a - 1]" for b using row that by simp
    fix b c assume bc: "b \<in> set [0..num_blocks a - 1]" "c \<in> set [0..num_blocks a - 1]" "b \<noteq> c"
    have "b = c" if "vector_offset a th b i = vector_offset a th c j" "i \<in> {0..?U - 1}" "j \<in> {0..?U - 1}" for i j
      using at(1) [of b i] at(1) [of c j] bc that by simp
    with bc show "set (map (vector_offset a th b) [0..?U - 1]) \<inter> set (map (vector_offset a th c) [0..?U - 1]) = {}" by fastforce
  qed simp
  have below: "vector_offset a th b i < num_blocks a * ?m" if "0 \<le> b" "b < num_blocks a" "0 \<le> i" "i < ?U" for b i
  proof -
    have "(b + 1) * ?m \<le> num_blocks a * ?m" using that m by (intro mult_right_mono) simp_all
    then show ?thesis using at(5) [of b i] that by (simp add: algebra_simps)
  qed
  have fits: "num_blocks a * ?m \<le> vector_count a" using m by (simp add: nb minus_mod_eq_div_mult [symmetric])
  show "distinct (thread_vectors a th)"
    unfolding thread_vectors_def distinct_append
  proof (intro conjI full distinct_filter row nb0 order_refl)
    have "vector_offset a th b i \<noteq> vector_offset a th (num_blocks a) j"
      if "b \<in> {0..num_blocks a - 1}" "i \<in> {0..?U - 1}" "j \<in> {0..?U - 1}" for b i j
      using below [of b i] at(4) [of "num_blocks a" j] nb0 that by simp
    then show "set (concat (map (\<lambda>b. map (vector_offset a th b) [0..?U - 1]) [0..num_blocks a - 1]))
      \<inter> set (filter (\<lambda>k. k < vector_count a) (map (vector_offset a th (num_blocks a)) [0..?U - 1])) = {}" by fastforce
  qed
  show "k \<in> set (thread_vectors a th) \<longleftrightarrow> 0 \<le> k \<and> k < vector_count a \<and> vector_owner ?n ?U k = ?t"
  proof
    assume "k \<in> set (thread_vectors a th)"
    then obtain b i where k: "k = vector_offset a th b i" and bi: "0 \<le> b" "b \<le> num_blocks a" "0 \<le> i" "i < ?U"
      and last: "b < num_blocks a \<or> k < vector_count a"
      using nb0 by (auto simp: thread_vectors_def)
    have "k < vector_count a" using last below [OF bi(1) _ bi(3,4)] fits k by linarith
    moreover have "0 \<le> k" using at(4) [OF bi] m bi(1) k by (meson mult_nonneg_nonneg less_imp_le order_trans)
    ultimately show "0 \<le> k \<and> k < vector_count a \<and> vector_owner ?n ?U k = ?t" using at(3) [OF bi] k by simp
  next
    assume k: "0 \<le> k \<and> k < vector_count a \<and> vector_owner ?n ?U k = ?t"
    then obtain i where i: "0 \<le> i" "i < ?U"
      and eq: "k = k div ?m * ?m + (?t div WARP_SIZE * WARP_SIZE * ?U + ?t mod WARP_SIZE + i * WARP_SIZE)"
      using vector_digits_ex [OF n(1) U n(2), of k] by auto
    have b: "0 \<le> k div ?m" "k div ?m \<le> num_blocks a" using k m by (simp_all add: nb zdiv_mono1 pos_imp_zdiv_nonneg_iff)
    have "k = vector_offset a th (k div ?m) i" using eq vector_offset_eq [OF a th b i] by simp
    with b i k show "k \<in> set (thread_vectors a th)"
      by (cases "k div ?m = num_blocks a") (fastforce simp: thread_vectors_def)+
  qed
qed

text \<open>The elements of a thread: before, in and after the vectors.\<close>

definition elem_owner :: "launch \<Rightarrow> int \<Rightarrow> int" where
  "elem_owner a e =
     (if e < alignment_offset a then e mod globalNthreads a
      else if e < remainder_start a then vector_owner (globalNthreads a) (UNROLL_FACTOR a) ((e - alignment_offset a) div VECTOR_FACTOR a)
      else (e - remainder_start a) mod globalNthreads a)"

lemma quot_less_iff: "0 < F \<Longrightarrow> x div F < m \<longleftrightarrow> x < m * (F :: int)"
  using quot_less [of x m F] zdiv_mono1 [of "m * F" x F] by fastforce

lemma vector_elems:
  "distinct (vector_elems a k)" "e \<in> set (vector_elems a k) \<longleftrightarrow> (e - alignment_offset a) div VECTOR_FACTOR a = k"
proof -
  let ?F = "VECTOR_FACTOR a" and ?al = "alignment_offset a"
  have F: "0 < ?F" by (rule vector_sizes)
  show "distinct (vector_elems a k)" by (simp add: vector_elems_def distinct_map inj_on_def)
  have "e \<in> set (vector_elems a k) \<longleftrightarrow> e - ?al - k * ?F \<in> {0..<?F}" by (force simp: vector_elems_def)
  also have "\<dots> \<longleftrightarrow> (e - ?al) div ?F = k"
  proof
    assume x: "e - ?al - k * ?F \<in> {0..<?F}"
    then show "(e - ?al) div ?F = k" using div_digit [of "e - ?al - k * ?F" ?F k] by simp
  next
    assume "(e - ?al) div ?F = k"
    then have "e - ?al - k * ?F = (e - ?al) mod ?F" by (simp add: minus_div_mult_eq_mod [symmetric])
    then show "e - ?al - k * ?F \<in> {0..<?F}" using F by simp
  qed
  finally show "e \<in> set (vector_elems a k) \<longleftrightarrow> (e - ?al) div ?F = k" .
qed

lemma concat_groups:
  "concat (vector_groups a head th) =
     thread_indices (globalNthreads a) (globalTid a th) head @ concat (map (vector_elems a) (thread_vectors a th))
     @ map ((+) (remainder_start a)) (thread_indices (globalNthreads a) (globalTid a th) (vector_rest a))"
proof -
  have single: "concat (map (\<lambda>e. [f e]) xs) = map f xs" for f :: "int \<Rightarrow> int" and xs by (induction xs) simp_all
  have nested: "concat (map (\<lambda>b. concat (map (\<lambda>i. vector_elems a (g b i)) is)) bs) = concat (map (vector_elems a) (concat (map (\<lambda>b. map (g b) is) bs)))"
    for g :: "int \<Rightarrow> int \<Rightarrow> int" and bs "is" by (induction bs) (simp_all add: o_def)
  show ?thesis by (simp add: vector_groups_def head_groups_def block_groups_def rest_groups_def thread_vectors_def single nested single [of "\<lambda>x. x", simplified])
qed

lemma vector_groups_cover:
  assumes a: "vector_launch a" and th: "th \<in> set (launch_threads a)"
  shows "distinct (concat (vector_groups a (alignment_offset a) th))"
    and "e \<in> set (concat (vector_groups a (alignment_offset a) th)) \<longleftrightarrow> 0 \<le> e \<and> e < la_count a \<and> elem_owner a e = globalTid a th"
proof -
  let ?n = "globalNthreads a" and ?t = "globalTid a th" and ?al = "alignment_offset a" and ?F = "VECTOR_FACTOR a" and ?rs = "remainder_start a"
  note parts = launch_parts [OF a] and F = vector_sizes(1) [of a]
  have t: "0 \<le> ?t" "?t < ?n"
    using globalTid_bij [of a] th a by (force simp: vector_launch_def launch_ok_def bij_betw_def)+
  let ?A = "thread_indices ?n ?t ?al" and ?B = "concat (map (vector_elems a) (thread_vectors a th))"
    and ?C = "map ((+) ?rs) (thread_indices ?n ?t (vector_rest a))"
  have A: "e \<in> set ?A \<longleftrightarrow> 0 \<le> e \<and> e < ?al \<and> e mod ?n = ?t" for e by (rule strided [OF t])
  have C: "e \<in> set ?C \<longleftrightarrow> ?rs \<le> e \<and> e < la_count a \<and> (e - ?rs) mod ?n = ?t" for e
  proof -
    have "e \<in> set ?C \<longleftrightarrow> e - ?rs \<in> set (thread_indices ?n ?t (vector_rest a))" by (force simp: image_iff)
    then show ?thesis using parts(5) by (auto simp: strided [OF t])
  qed
  have vec: "0 \<le> (e - ?al) div ?F \<and> (e - ?al) div ?F < vector_count a \<longleftrightarrow> ?al \<le> e \<and> e < ?rs" for e
    using pos_imp_zdiv_nonneg_iff [OF F, of "e - ?al"] quot_less_iff [OF F, of "e - ?al" "vector_count a"] by (auto simp: remainder_start_def)
  have B: "e \<in> set ?B \<longleftrightarrow> ?al \<le> e \<and> e < ?rs \<and> vector_owner ?n (UNROLL_FACTOR a) ((e - ?al) div ?F) = ?t" for e
    using vec [of e] by (auto simp: vector_elems(2) thread_vectors(2) [OF a th])
  have rs: "?al \<le> ?rs" using parts(4) F by (simp add: remainder_start_def)
  have dB: "distinct ?B"
    by (rule distinct_concat_map [OF thread_vectors(1) [OF a th] vector_elems(1)]) (auto simp: vector_elems(2))
  have dA: "distinct ?A" "distinct ?C"
    using parts(1) by (simp_all add: distinct_thread_indices distinct_map)
  have "set ?A \<inter> (set ?B \<union> set ?C) = {}" "set ?B \<inter> set ?C = {}" using rs A B C by (auto simp del: set_map set_concat)
  with dA dB show "distinct (concat (vector_groups a ?al th))" by (simp add: concat_groups del: set_map set_concat)
  have "e \<in> set (concat (vector_groups a ?al th)) \<longleftrightarrow> e \<in> set ?A \<or> e \<in> set ?B \<or> e \<in> set ?C" by (simp add: concat_groups)
  then show "e \<in> set (concat (vector_groups a ?al th)) \<longleftrightarrow> 0 \<le> e \<and> e < la_count a \<and> elem_owner a e = ?t"
    unfolding A B C elem_owner_def using rs parts(3,5,6) by auto
qed

section \<open>What the kernels compute\<close>








definition kernel_owner :: "int \<Rightarrow> launch \<Rightarrow> int \<Rightarrow> int" where
  "kernel_owner impl a e = (if impl = 1 \<or> impl = 3 then e mod globalNthreads a else elem_owner a e)"

text \<open>The launches a kernel is right for.\<close>

definition kernel_launch :: "int \<Rightarrow> launch \<Rightarrow> bool" where
  "kernel_launch impl a \<longleftrightarrow> launch_ok a \<and> buffers_ok a
     \<and> (impl = 1 \<or> impl = 3 \<or> impl = 2 \<and> vector_launch a \<or> impl = 4 \<and> vector_launch a \<and> alignment_offset a = 0)"


lemma one_elem_kernel: "map one_elem (allReduceMultimemVectorizedKernel a th)
    = concat (map (multimem_group 1) (vector_groups a (if alignment_offset a > 0 then max (alignment_offset a) (la_count a) else 0) th))"
  by (simp add: allReduceMultimemVectorizedKernel_def vector_groups_def map_concat o_def)


lemma kernel_owner_range:
  assumes "kernel_launch impl a" "0 \<le> e" "e < la_count a"
  shows "0 \<le> kernel_owner impl a e" "kernel_owner impl a e < globalNthreads a"
proof -
  have n: "0 < globalNthreads a" using assms(1) by (auto simp: kernel_launch_def launch_ok_def globalNthreads_def)
  have "0 \<le> elem_owner a e \<and> elem_owner a e < globalNthreads a" if v: "vector_launch a"
  proof (cases "e < alignment_offset a \<or> remainder_start a \<le> e")
    case False
    then have "0 \<le> (e - alignment_offset a) div VECTOR_FACTOR a" using vector_sizes(1) [of a] by (simp add: pos_imp_zdiv_nonneg_iff)
    from vector_digits_ex [OF n vector_sizes(2) [of a] launch_parts(2) [OF v] this] False show ?thesis by (auto simp: elem_owner_def)
  qed (use n in \<open>auto simp: elem_owner_def\<close>)
  then show "0 \<le> kernel_owner impl a e" "kernel_owner impl a e < globalNthreads a"
    using assms(1) n by (auto simp: kernel_launch_def kernel_owner_def)
qed


lemma group_assertions:
  "(\<exists>c\<in>set (lsa_group a es). \<not> multimem_assertion ty c) \<longleftrightarrow> False"
  "(\<exists>c\<in>set (multimem_group w es). \<not> multimem_assertion ty c) \<longleftrightarrow> es \<noteq> [] \<and> \<not> multimem_implemented ty w"
proof -
  have "(\<exists>c\<in>set (multimem_group w es). \<not> multimem_assertion ty c) \<longleftrightarrow> (\<exists>e\<in>set es. \<not> multimem_implemented ty w)"
    by (simp add: multimem_group_def bex_Un)
  then show "(\<exists>c\<in>set (multimem_group w es). \<not> multimem_assertion ty c) \<longleftrightarrow> es \<noteq> [] \<and> \<not> multimem_implemented ty w"
    by (cases es) auto
qed (auto simp: lsa_group_def)

lemma groups_assertions:
  "(\<exists>c\<in>set (concat (map (multimem_group w) gs)). \<not> multimem_assertion ty c) \<longleftrightarrow> concat gs \<noteq> [] \<and> \<not> multimem_implemented ty w"
proof -
  have "(\<exists>c\<in>set (concat (map (multimem_group w) gs)). \<not> multimem_assertion ty c)
      \<longleftrightarrow> (\<exists>es\<in>set gs. \<exists>c\<in>set (multimem_group w es). \<not> multimem_assertion ty c)" by auto
  then show ?thesis unfolding group_assertions(2) by auto
qed






text \<open>Two ranks with one block of one warp each add 21 floats in place, from offset 8: two elements before four vectors, and three after
  them.\<close>

definition small_launch :: launch where
  "small_launch = \<lparr>la_nRanks = 2, la_gridDim = 1, la_blockDim = 32, la_sendwin = 0, la_sendoffset = 8, la_recvwin = 0, la_recvoffset = 8,
     la_count = 21, la_type = NcclFloat32\<rparr>"

lemma small_launch: "kernel_launch 2 small_launch"
  by code_simp


section \<open>Where the vectorized kernels go wrong\<close>

text \<open>The address of a vector.\<close>

definition vector_address :: "launch \<Rightarrow> int \<Rightarrow> int" where
  "vector_address a k = la_sendoffset a + alignment_offset a * elt_bytes (la_type a) + k * VectorTypeMapping (la_type a)"

lemma group_elems: "access_elem ` set (lsa_group a es) = set es"
proof
  show "access_elem ` set (lsa_group a es) \<subseteq> set es" by (auto simp: lsa_group_def)
  have "Zero e \<in> set (lsa_group a es)" if "e \<in> set es" for e using that by (simp add: lsa_group_def)
  then show "set es \<subseteq> access_elem ` set (lsa_group a es)" by (metis access_elem.simps(1) image_eqI subsetI)
qed

text \<open>C23: the bounds and the alignment of the vectorized kernel. It stays below the count exactly if not more elements precede the vectors than there are.
  And a vector is at an address that is a multiple of its size, as the hardware requires, exactly if twice the offset of the buffer is: for
  an offset that is not aligned the elements before the vectors are as many as the offset is past the
  last aligned address, not as many as are missing to the next one.\<close>

theorem vectorized_kernel_limits:
  assumes "launch_ok a" "WARP_SIZE dvd la_blockDim a" "globalNthreads a * UNROLL_FACTOR a < 2 ^ 31" "la_count a < 2 ^ 64"
    and "alignment_offset a \<le> la_count a \<longrightarrow> vector_count a < 2 ^ 31" and "elt_bytes (la_type a) dvd la_sendoffset a"
  shows "((\<forall>th\<in>set (launch_threads a). \<forall>c\<in>set (allReduceLsaVectorizedKernel a th). access_elem c \<in> {0..<la_count a})
          \<longleftrightarrow> alignment_offset a \<le> la_count a)
    \<and> (VectorTypeMapping (la_type a) dvd vector_address a k \<longleftrightarrow> VectorTypeMapping (la_type a) dvd 2 * la_sendoffset a)"
proof
  have elems: "access_elem ` set (allReduceLsaVectorizedKernel a th) = set (concat (vector_groups a (alignment_offset a) th))" for th
    by (simp add: allReduceLsaVectorizedKernel_def image_UN group_elems)
  show "(\<forall>th\<in>set (launch_threads a). \<forall>c\<in>set (allReduceLsaVectorizedKernel a th). access_elem c \<in> {0..<la_count a})
      \<longleftrightarrow> alignment_offset a \<le> la_count a" (is "?inside \<longleftrightarrow> _")
  proof
    assume le: "alignment_offset a \<le> la_count a"
    then have v: "vector_launch a" using assms by (simp add: vector_launch_def)
    show ?inside
    proof (intro ballI)
      fix th c assume th: "th \<in> set (launch_threads a)" and c: "c \<in> set (allReduceLsaVectorizedKernel a th)"
      then have "access_elem c \<in> set (concat (vector_groups a (alignment_offset a) th))" using elems [of th] by blast
      then show "access_elem c \<in> {0..<la_count a}" using vector_groups_cover(2) [OF v th] by simp
    qed
  next
    assume inside: ?inside
    show "alignment_offset a \<le> la_count a"
    proof (rule ccontr)
      assume less: "\<not> alignment_offset a \<le> la_count a"
      let ?n = "globalNthreads a"
      have ok: "0 < la_nRanks a" "0 < la_blockDim a" "0 < ?n" "0 \<le> la_count a"
        using assms(1) by (simp_all add: launch_ok_def globalNthreads_def)
      then obtain th where th: "th \<in> set (launch_threads a)" "globalTid a th = la_count a mod ?n"
        using globalTid_bij [OF ok(1,2)] by (metis atLeastLessThan_iff bij_betw_imp_surj_on imageE pos_mod_bound pos_mod_sign)
      then have "la_count a \<in> set (thread_indices ?n (globalTid a th) (alignment_offset a))"
        using less ok by (simp add: strided)
      then have "la_count a \<in> access_elem ` set (allReduceLsaVectorizedKernel a th)" unfolding elems concat_groups by simp
      then obtain c where "c \<in> set (allReduceLsaVectorizedKernel a th)" "access_elem c = la_count a" by force
      then show False using inside th(1) by fastforce
    qed
  qed
  let ?V = "VectorTypeMapping (la_type a)" and ?s = "elt_bytes (la_type a)"
  have "?s dvd ?V" using vector_sizes(4) [of a] by (metis dvd_triv_right)
  then have "?s dvd la_sendoffset a mod ?V" using assms(6) by (simp add: dvd_mod)
  then have "vector_address a k = la_sendoffset a + la_sendoffset a mod ?V + k * ?V" by (simp add: vector_address_def alignment_offset_def)
  also have "\<dots> = 2 * la_sendoffset a + (k - la_sendoffset a div ?V) * ?V"
    using div_mult_mod_eq [of "la_sendoffset a" ?V] by (simp add: algebra_simps)
  finally show "?V dvd vector_address a k \<longleftrightarrow> ?V dvd 2 * la_sendoffset a" by simp
qed

text \<open>The second iteration of a measurement of one float at the offset 8: two elements are accessed. And floats at the offset 4, as with
  one element of misalignment: the vectors are not aligned.\<close>

theorem vectorized_kernel_limits_witness:
  "\<not> (\<forall>th\<in>set (launch_threads (small_launch\<lparr>la_count := 1\<rparr>)).
        \<forall>c\<in>set (allReduceLsaVectorizedKernel (small_launch\<lparr>la_count := 1\<rparr>) th). access_elem c \<in> {0..<1})
   \<and> \<not> 16 dvd vector_address (small_launch\<lparr>la_sendoffset := 4\<rparr>) 0"
proof
  have a: "launch_ok (small_launch\<lparr>la_count := 1\<rparr>)" "WARP_SIZE dvd 32" "globalNthreads (small_launch\<lparr>la_count := 1\<rparr>) * UNROLL_FACTOR (small_launch\<lparr>la_count := 1\<rparr>) < 2 ^ 31"
    "alignment_offset (small_launch\<lparr>la_count := 1\<rparr>) = 2" "elt_bytes NcclFloat32 dvd 8" by code_simp+
  show "\<not> (\<forall>th\<in>set (launch_threads (small_launch\<lparr>la_count := 1\<rparr>)).
      \<forall>c\<in>set (allReduceLsaVectorizedKernel (small_launch\<lparr>la_count := 1\<rparr>) th). access_elem c \<in> {0..<1})"
    using vectorized_kernel_limits [of "small_launch\<lparr>la_count := 1\<rparr>"] a by (simp add: small_launch_def)
  have b: "launch_ok (small_launch\<lparr>la_sendoffset := 4\<rparr>)" "WARP_SIZE dvd 32"
    "globalNthreads (small_launch\<lparr>la_sendoffset := 4\<rparr>) * UNROLL_FACTOR (small_launch\<lparr>la_sendoffset := 4\<rparr>) < 2 ^ 31"
    "vector_count (small_launch\<lparr>la_sendoffset := 4\<rparr>) = 5" "elt_bytes NcclFloat32 dvd 4" "VectorTypeMapping NcclFloat32 = 16" by code_simp+
  show "\<not> 16 dvd vector_address (small_launch\<lparr>la_sendoffset := 4\<rparr>) 0"
    using vectorized_kernel_limits [of "small_launch\<lparr>la_sendoffset := 4\<rparr>" 0] b by (simp add: small_launch_def)
qed

text \<open>The fourth kernel in place, with elements before the vectors: its first loop runs up to the larger of their number and the count, so
  an element at or after the vectors has two threads, and its sum is added once more.\<close>

lemma two_places:
  assumes "distinct xs" "u \<in> set xs" "v \<in> set xs"
  shows "concat (map (\<lambda>x. (if u = x then P else []) @ (if v = x then Q else [])) xs) \<in> {P @ Q, Q @ P}"
proof -
  have none: "concat (map (\<lambda>x. (if u = x then P else []) @ (if v = x then Q else [])) ys) = []" if "u \<notin> set ys" "v \<notin> set ys" for ys
    using that by (induction ys) auto
  have one: "concat (map (\<lambda>x. (if u = x then P else []) @ (if v = x then Q else [])) ys) = P"
    if "distinct ys" "u \<in> set ys" "v \<notin> set ys" for ys using that by (induction ys) (auto simp: none)
  have other: "concat (map (\<lambda>x. (if u = x then P else []) @ (if v = x then Q else [])) ys) = Q"
    if "distinct ys" "u \<notin> set ys" "v \<in> set ys" for ys using that by (induction ys) (auto simp: none)
  show ?thesis using assms
  proof (induction xs)
    case (Cons x xs)
    then show ?case using one [of xs] other [of xs] none [of xs] by (cases "u = x"; cases "v = x") auto
  qed simp
qed

lemma multimem_kernel_projects:
  assumes a: "vector_launch a" "0 < alignment_offset a" and th: "th \<in> set (launch_threads a)" and e: "alignment_offset a \<le> e" "e < la_count a"
  shows "filter (\<lambda>c. access_elem c = e) (map one_elem (allReduceMultimemVectorizedKernel a th))
     = (if e mod globalNthreads a = globalTid a th then multimem_ops e else []) @ (if elem_owner a e = globalTid a th then multimem_ops e else [])"
proof -
  let ?n = "globalNthreads a" and ?t = "globalTid a th" and ?al = "alignment_offset a"
  have t: "0 \<le> ?t" "?t < ?n"
    using globalTid_bij [of a] th a(1) by (force simp: vector_launch_def launch_ok_def bij_betw_def)+
  define later where "later = block_groups a th @ rest_groups a th"
  have split: "vector_groups a head th = map (\<lambda>e. [e]) (thread_indices ?n ?t head) @ later" for head
    by (simp add: later_def vector_groups_def head_groups_def)
  have single: "concat (map (\<lambda>e. [e]) xs) = xs" for xs :: "int list" by (induction xs) simp_all
  have later: "distinct (concat later)" "e \<in> set (concat later) \<longleftrightarrow> elem_owner a e = ?t"
    using vector_groups_cover(1) [OF a(1) th] vector_groups_cover(2) [OF a(1) th, of e] e a(2) strided [OF t, of e ?al]
    unfolding split concat_append single distinct_append set_append by auto
  have heads: "filter (\<lambda>c. access_elem c = e) (concat (map (multimem_group 1) (map (\<lambda>e. [e]) xs))) = (if e \<in> set xs then multimem_ops e else [])"
    if "distinct xs" for xs
    using groups_project [OF group_project(2), of "map (\<lambda>e. [e]) xs" e] that unfolding single by simp
  have "max ?al (la_count a) = la_count a" using e by simp
  then have "filter (\<lambda>c. access_elem c = e) (map one_elem (allReduceMultimemVectorizedKernel a th))
      = filter (\<lambda>c. access_elem c = e) (concat (map (multimem_group 1) (map (\<lambda>e. [e]) (thread_indices ?n ?t (la_count a)))))
        @ filter (\<lambda>c. access_elem c = e) (concat (map (multimem_group 1) later))"
    using a(2) by (simp only: one_elem_kernel split map_append concat_append filter_append if_True)
  also have "\<dots> = (if e mod ?n = ?t then multimem_ops e else []) @ (if elem_owner a e = ?t then multimem_ops e else [])"
    using heads [OF distinct_thread_indices, of ?n ?t "la_count a"] t e a(2) groups_project [OF group_project(2) later(1), of e] later(2)
      strided [OF t, of e "la_count a"] by simp
  finally show ?thesis .
qed

lemma multimem_kernel_adds_twice:
  assumes ty: "la_type a = NcclFloat32" and a: "vector_launch a" "0 < alignment_offset a" "la_sendwin a = la_recvwin a" "la_sendoffset a = la_recvoffset a"
    and e: "alignment_offset a \<le> e" "e < la_count a" and p: "p \<in> {0..<la_nRanks a}"
  shows "\<exists>zs m' r'. interleaves (launch_threads a) (allReduceKernel 4 a) zs \<and> access_run a add zero multi zs (m, r) = Some (m', r')
     \<and> m' (recv_loc a p e)
         = multi (map (\<lambda>_. multi (map (\<lambda>q. m (send_loc a q e)) (all_peers a))) (all_peers a))"
proof -
  let ?n = "globalNthreads a" and ?step = "access_effect a add zero multi" and ?ths = "launch_threads a"
  let ?k = "\<lambda>t. map one_elem (allReduceKernel 4 a t)"
  let ?zs = "concat (map (\<lambda>t. map (Pair t) (?k t)) ?ths)" and ?run = "concat (map (\<lambda>t. map (Pair t) (allReduceKernel 4 a t)) ?ths)" and ?S = "multi (map (\<lambda>q. m (send_loc a q e)) (all_peers a))"
  have ok: "launch_ok a" "buffers_ok a" using a by (simp_all add: vector_launch_def buffers_ok_def)
  have n: "0 < ?n" by (rule launch_parts(1) [OF a(1)])
  have bij: "bij_betw (globalTid a) (set ?ths) {0..<?n}" using ok(1) by (intro globalTid_bij) (simp_all add: launch_ok_def)
  have "0 \<le> elem_owner a e" "elem_owner a e < ?n"
    using kernel_owner_range [of 2 a e] ok a e by (simp_all add: kernel_launch_def kernel_owner_def)
  then have "e mod ?n \<in> globalTid a ` set ?ths" "elem_owner a e \<in> globalTid a ` set ?ths"
    using n unfolding bij_betw_imp_surj_on [OF bij] by simp_all
  then obtain u v where u: "u \<in> set ?ths" "globalTid a u = e mod ?n" and v: "v \<in> set ?ths" "globalTid a v = elem_owner a e"
    by force
  have proj: "filter (\<lambda>c. access_elem c = e) (?k t)
      = (if u = t then multimem_ops e else []) @ (if v = t then multimem_ops e else [])" if "t \<in> set ?ths" for t
  proof -
    have "e mod ?n = globalTid a t \<longleftrightarrow> u = t" "elem_owner a e = globalTid a t \<longleftrightarrow> v = t"
      using inj_onD [OF bij_betw_imp_inj_on [OF bij]] u v that by metis+
    then show ?thesis using multimem_kernel_projects [OF a(1,2) that e] by (simp add: allReduceKernel_def)
  qed
  have "filter (\<lambda>z. access_elem (snd z) = e) ?zs
      = concat (map (\<lambda>t. map (Pair t) (filter (\<lambda>c. access_elem c = e) (?k t))) ?ths)"
    by (simp add: filter_concat o_def filter_map)
  also have "\<dots> = concat (map (\<lambda>t. (if u = t then map (Pair u) (multimem_ops e) else []) @ (if v = t then map (Pair v) (multimem_ops e) else [])) ?ths)"
    by (intro arg_cong [where f = concat] map_cong refl) (simp add: proj)
  finally have eq: "filter (\<lambda>z. access_elem (snd z) = e) ?zs
      = concat (map (\<lambda>t. (if u = t then map (Pair u) (multimem_ops e) else []) @ (if v = t then map (Pair v) (multimem_ops e) else [])) ?ths)" .
  have "filter (\<lambda>z. access_elem (snd z) = e) ?zs \<in> {map (Pair u) (multimem_ops e) @ map (Pair v) (multimem_ops e),
      map (Pair v) (multimem_ops e) @ map (Pair u) (multimem_ops e)}"
    unfolding eq by (rule two_places [OF distinct_launch_threads u(1) v(1)])
  then obtain t t' where once_more: "filter (\<lambda>z. access_elem (snd z) = e) ?zs = map (Pair t) (multimem_ops e) @ map (Pair t') (multimem_ops e)" by blast
  have "same_elem a e (fold ?step ?zs (m, r)) (fold ?step (map (Pair t) (multimem_ops e) @ map (Pair t') (multimem_ops e)) (m, r))"
    using elements.project [of a e "(m, r)" "(m, r)" add zero multi ?zs] ok(2) by (simp add: once_more same_elem_def del: map_append map_map)
  moreover have "send_loc a q e = recv_loc a q e" for q using a by (simp add: send_loc_def recv_loc_def)
  then have "map (\<lambda>q. fold (\<lambda>p m. m(recv_loc a p e := ?S)) (all_peers a) m (send_loc a q e)) (all_peers a) = map (\<lambda>_. ?S) (all_peers a)"
    by (auto simp: store_all)
  then have "fst (fold ?step (map (Pair t) (multimem_ops e) @ map (Pair t') (multimem_ops e)) (m, r)) (recv_loc a p e) = multi (map (\<lambda>_. ?S) (all_peers a))"
    unfolding multimem_ops_def list.map append.simps fold.simps o_apply id_apply access_effect_simps fun_upd_same fst_conv
    using p by (simp only: store_all) (auto simp: all_peers_def)
  ultimately have result: "fst (fold ?step ?zs (m, r)) (recv_loc a p e) = multi (map (\<lambda>_. ?S) (all_peers a))" by (simp add: same_elem_def)
  have "?zs = map (apsnd one_elem) ?run" by (simp add: map_concat o_def)
  then have effect: "fst (fold ?step ?run (m, r)) (recv_loc a p e) = multi (map (\<lambda>_. ?S) (all_peers a))" using result by (simp only: fold_one_elem)
  have run: "interleaves ?ths (allReduceKernel 4 a) ?run" by (rule one_after_the_other [OF distinct_launch_threads])
  have "VectorTypeMapping NcclFloat32 = 16" by code_simp
  then have "VECTOR_FACTOR a = 4" using ty by (simp add: VECTOR_FACTOR_def elt_bytes_def)
  then have "multimem_implemented (la_type a) (VECTOR_FACTOR a)" "multimem_implemented (la_type a) 1" by (simp_all add: ty multimem_implemented_def)
  then have "\<not> (\<exists>c\<in>set (allReduceMultimemVectorizedKernel a t). \<not> multimem_assertion (la_type a) c)" for t
    unfolding allReduceMultimemVectorizedKernel_def set_append bex_Un groups_assertions by blast
  then have "\<not> (\<exists>c\<in>set (allReduceKernel 4 a t). \<not> multimem_assertion (la_type a) c)" for t by (simp add: allReduceKernel_def)
  then have "\<not> (\<exists>t\<in>set ?ths. \<exists>c\<in>set (allReduceKernel 4 a t). \<not> multimem_assertion (la_type a) c)" by blast
  then have "\<not> (\<exists>z\<in>set ?run. \<not> multimem_assertion (la_type a) (snd z))"
    by (simp only: simp_thms interleaves_actions_ex [OF run, where P = "\<lambda>c. \<not> multimem_assertion (la_type a) c"])
  then have "access_run a add zero multi ?run (m, r) = Some (fold ?step ?run (m, r))" unfolding access_run_eq by (rule if_not_P)
  then have "access_run a add zero multi ?run (m, r) = Some (fst (fold ?step ?run (m, r)), snd (fold ?step ?run (m, r)))" by (simp only: prod.collapse)
  then show ?thesis using run effect by (intro exI conjI) assumption+
qed

end
