(* ===== verification/DeviceAlltoAll.thy ===== *)
theory DeviceAlltoAll
  imports DeviceReduce
begin

text \<open>
  The kernels of src/alltoall.cu: two that copy through the windows of the peers, one that puts the data through the network, and one that
  does both. The theorems show that every rank gets the data of every other, in every interleaving of
  the threads, and that the signals a rank waits for say that its data are there.
\<close>

section \<open>Copies and signals\<close>

text \<open>A copy reads an element for a peer from the send buffer of the rank and writes it to the receive buffer of the peer; \<open>Signal\<close> increments
  a signal of the peer.\<close>

datatype copy_act = Get int int int | Put int int int | Signal int int

type_synonym 'a copy_state = "(dev_loc \<Rightarrow> 'a) \<times> (dev_thread \<times> int \<times> int \<times> int \<Rightarrow> 'a) \<times> (int \<times> int \<Rightarrow> nat)"

definition copy_step :: "launch \<Rightarrow> dev_thread \<times> copy_act \<Rightarrow> 'a copy_state \<Rightarrow> 'a copy_state" where
  "copy_step a z s =
     (let (m, r, sig) = s; (t, c) = z in
      case c of
        Get rank peer e \<Rightarrow> (m, r((t, rank, peer, e) := m (send_loc a rank (peer * la_count a + e))), sig)
      | Put rank peer e \<Rightarrow> (m(recv_loc a peer (rank * la_count a + e) := r (t, rank, peer, e)), r, sig)
      | Signal peer i \<Rightarrow> (m, r, sig((peer, i) := sig (peer, i) + 1)))"

text \<open>Elements that are read together for a peer and then written; a put ends with its signal.\<close>

definition copy_group :: "int \<Rightarrow> int \<times> int list \<times> int option \<Rightarrow> copy_act list" where
  "copy_group rank g =
     (case g of (peer, es, sig) \<Rightarrow> map (Get rank peer) es @ map (Put rank peer) es @ (case sig of None \<Rightarrow> [] | Some i \<Rightarrow> [Signal peer i]))"

section \<open>The kernels\<close>

text \<open>The groups of a thread, one after the other.\<close>

type_synonym copy_groups = "(int \<times> int list \<times> int option) list"

text \<open>Rounds of elements that are copied for all peers.\<close>

definition for_peers :: "int list \<Rightarrow> int list list \<Rightarrow> copy_groups" where
  "for_peers peers rounds = concat (map (\<lambda>es. map (\<lambda>p. (p, es, None)) peers) rounds)"

definition AlltoAllScalarImpl :: "launch \<Rightarrow> int list \<Rightarrow> dev_thread \<Rightarrow> copy_groups" where
  "AlltoAllScalarImpl a peers th = for_peers peers (map (\<lambda>e. [e]) (thread_indices (local_nthreads a) (local_tid a th) (la_count a)))"

definition NvlAlltoAllKernel :: "launch \<Rightarrow> dev_thread \<Rightarrow> copy_groups" where
  "NvlAlltoAllKernel a th = AlltoAllScalarImpl a (all_peers a) th"

text \<open>\<open>base\<close> is the address of the send window.\<close>

definition canVectorize :: "launch \<Rightarrow> int \<Rightarrow> bool" where
  "canVectorize a base \<longleftrightarrow> VectorTypeMapping (la_type a) > elt_bytes (la_type a)
     \<and> (base + la_sendoffset a) mod VectorTypeMapping (la_type a) = 0
     \<and> (la_count a * elt_bytes (la_type a)) mod VectorTypeMapping (la_type a) = 0"

definition PEER_UNROLL :: int where "PEER_UNROLL = 2"

definition grouped_peers :: "launch \<Rightarrow> int list" where
  "grouped_peers a =
     concat (map (\<lambda>peerBase. map (\<lambda>p. peerBase + p) [0..min PEER_UNROLL (la_nRanks a - peerBase) - 1]) (thread_indices PEER_UNROLL 0 (la_nRanks a)))"

definition elements_per_iteration :: "launch \<Rightarrow> int" where
  "elements_per_iteration a = to_int (local_nthreads a * UNROLL_FACTOR a)"

definition aligned_vector_count :: "launch \<Rightarrow> int" where
  "aligned_vector_count a = la_count a div VECTOR_FACTOR a div elements_per_iteration a * elements_per_iteration a"

definition copy_vector :: "launch \<Rightarrow> int \<Rightarrow> int list" where
  "copy_vector a k = map (\<lambda>j. k * VECTOR_FACTOR a + j) [0..VECTOR_FACTOR a - 1]"

definition NvlAlltoAllKernelOptimized :: "launch \<Rightarrow> int \<Rightarrow> dev_thread \<Rightarrow> copy_groups" where
  "NvlAlltoAllKernelOptimized a base th =
     (if canVectorize a base
      then (let n = local_nthreads a; tid = local_tid a th; vector_count = la_count a div VECTOR_FACTOR a; aligned = aligned_vector_count a;
                scalar_start = vector_count * VECTOR_FACTOR a
            in for_peers (grouped_peers a)
                 (map (\<lambda>k. concat (map (\<lambda>i. copy_vector a (k + i * n)) [0..UNROLL_FACTOR a - 1]))
                   (thread_indices (elements_per_iteration a) tid aligned))
               @ for_peers (all_peers a) (map (copy_vector a) (thread_indices n (aligned + tid) vector_count))
               @ for_peers (all_peers a) (map (\<lambda>e. [e]) (thread_indices n (scalar_start + tid) (la_count a))))
      else AlltoAllScalarImpl a (all_peers a) th)"

text \<open>A put of all elements for a peer; its signal is the block of the thread.\<close>

definition gin_put :: "launch \<Rightarrow> dev_thread \<Rightarrow> int \<Rightarrow> int \<times> int list \<times> int option" where
  "gin_put a th r = (r, [0..la_count a - 1], Some (fst (snd th)))"

definition GinAlltoAllKernel :: "launch \<Rightarrow> dev_thread \<Rightarrow> copy_groups" where
  "GinAlltoAllKernel a th = map (gin_put a th) (thread_indices (local_nthreads a) (local_tid a th) (la_nRanks a))"

text \<open>The team of a rank: its size, and the rank in it of every rank.\<close>

definition startLsa :: "(int \<Rightarrow> int) \<Rightarrow> int \<Rightarrow> int" where
  "startLsa lsa_rank rank = rank - lsa_rank rank"

definition HybridAlltoAllKernel :: "launch \<Rightarrow> int \<Rightarrow> (int \<Rightarrow> int) \<Rightarrow> dev_thread \<Rightarrow> copy_groups" where
  "HybridAlltoAllKernel a lsaSize lsa_rank th =
     (let s = startLsa lsa_rank (fst th)
      in map (gin_put a th)
           (filter (\<lambda>r. r < s \<or> r \<ge> s + lsaSize) (thread_indices (local_nthreads a) (local_tid a th) (la_nRanks a)))
         @ AlltoAllScalarImpl a (map (\<lambda>lp. s + lp) [0..lsaSize - 1]) th)"

text \<open>The block of a rank that waits, and the number of signals it waits for.\<close>

definition receivingCta :: "launch \<Rightarrow> int \<Rightarrow> int" where
  "receivingCta a rank = rank mod local_nthreads a div la_blockDim a"

definition awaited_signals :: "launch \<Rightarrow> int \<Rightarrow> int \<Rightarrow> int" where
  "awaited_signals a impl lsaSize = (if impl = 3 then la_nRanks a else la_nRanks a - lsaSize)"

definition AlltoAllKernel :: "int \<Rightarrow> launch \<Rightarrow> int \<Rightarrow> int \<Rightarrow> (int \<Rightarrow> int) \<Rightarrow> dev_thread \<Rightarrow> copy_groups" where
  "AlltoAllKernel impl a base lsaSize lsa_rank =
     (if impl = 1 then NvlAlltoAllKernel a else if impl = 2 then NvlAlltoAllKernelOptimized a base
      else if impl = 3 then GinAlltoAllKernel a else HybridAlltoAllKernel a lsaSize lsa_rank)"

text \<open>The requirements, or the error.\<close>

definition AlltoAllGetDevCommRequirements :: "int \<Rightarrow> int \<Rightarrow> int \<Rightarrow> int \<Rightarrow> bool \<Rightarrow> dev_reqs \<Rightarrow> testResult \<times> dev_reqs" where
  "AlltoAllGetDevCommRequirements deviceImpl ctas nRanks lsaRanks ginSupport reqs =
     (if deviceImpl = 1 \<or> deviceImpl = 2
      then (if nRanks \<noteq> lsaRanks then (TestInvalidUsage, reqs) else (TestSuccess, reqs\<lparr>req_lsaBarrierCount := ctas\<rparr>))
      else if deviceImpl = 3 \<or> deviceImpl = 4
      then (let reqs = (if deviceImpl = 3 then reqs\<lparr>req_worldGinBarrierCount := ctas\<rparr> else reqs)
            in if \<not> ginSupport then (TestInvalidUsage, reqs)
               else (TestSuccess, (if deviceImpl = 4 then reqs\<lparr>req_barrierCount := ctas\<rparr> else reqs)\<lparr>req_ginSignalCount := ctas\<rparr>))
      else (TestNotImplemented, reqs))"

section \<open>Copies do not disturb each other\<close>

definition copy_key :: "launch \<Rightarrow> copy_act \<Rightarrow> (int \<times> int) + (int \<times> int)" where
  "copy_key a c =
     (case c of Get rank peer e \<Rightarrow> Inl (peer, rank * la_count a + e) | Put rank peer e \<Rightarrow> Inl (peer, rank * la_count a + e)
      | Signal peer i \<Rightarrow> Inr (peer, i))"

text \<open>Two states agree on an element of the receive buffer of a peer, or on a signal.\<close>

definition same_copy :: "launch \<Rightarrow> (int \<times> int) + (int \<times> int) \<Rightarrow> 'a copy_state \<Rightarrow> 'a copy_state \<Rightarrow> bool" where
  "same_copy a k s s' =
     (case k of
        Inl (p, x) \<Rightarrow> (\<forall>q y. fst s (send_loc a q y) = fst s' (send_loc a q y)) \<and> fst s (recv_loc a p x) = fst s' (recv_loc a p x)
          \<and> (\<forall>t rank e. rank * la_count a + e = x \<longrightarrow> fst (snd s) (t, rank, p, e) = fst (snd s') (t, rank, p, e))
      | Inr i \<Rightarrow> snd (snd s) i = snd (snd s') i)"

lemma copy_step_simps [simp]:
  "copy_step a (t, Get rank peer e) (m, r, sig) = (m, r((t, rank, peer, e) := m (send_loc a rank (peer * la_count a + e))), sig)"
  "copy_step a (t, Put rank peer e) (m, r, sig) = (m(recv_loc a peer (rank * la_count a + e) := r (t, rank, peer, e)), r, sig)"
  "copy_step a (t, Signal peer i) (m, r, sig) = (m, r, sig((peer, i) := sig (peer, i) + 1))"
  by (simp_all add: copy_step_def)

lemma copy_key_simps [simp]:
  "copy_key a (Get rank peer e) = Inl (peer, rank * la_count a + e)" "copy_key a (Put rank peer e) = Inl (peer, rank * la_count a + e)"
  "copy_key a (Signal peer i) = Inr (peer, i)"
  by (simp_all add: copy_key_def)

lemma windows_apart: "la_sendwin a \<noteq> la_recvwin a \<Longrightarrow> send_loc a p x \<noteq> recv_loc a q y"
  by (simp add: send_loc_def recv_loc_def)

lemma copy_own:
  assumes "copy_key a (snd z) = k" "same_copy a k s s'" "la_sendwin a \<noteq> la_recvwin a"
  shows "same_copy a k (copy_step a z s) (copy_step a z s')"
proof -
  obtain t c m r sig m' r' sig' where z: "z = (t, c)" "s = (m, r, sig)" "s' = (m', r', sig')" by (metis surj_pair)
  show ?thesis using assms
    by (cases c) (auto simp: z same_copy_def windows_apart simp del: split_paired_All)
qed

lemma copy_other:
  assumes "copy_key a (snd z) \<noteq> k" "same_copy a k s s'" "la_sendwin a \<noteq> la_recvwin a"
  shows "same_copy a k (copy_step a z s) s'"
proof -
  obtain t c m r sig where z: "z = (t, c)" "s = (m, r, sig)" by (metis surj_pair)
  show ?thesis using assms
    by (cases c) (auto simp: z same_copy_def windows_apart split: sum.splits prod.splits simp del: split_paired_All)
qed

interpretation copies: cells "copy_step a" "\<lambda>z. copy_key a (snd z)" "\<lambda>k s s'. la_sendwin a \<noteq> la_recvwin a \<longrightarrow> same_copy a k s s'" for a
  by unfold_locales (simp_all add: copy_own copy_other)

section \<open>What a thread does with an element\<close>

definition copy_program :: "int \<Rightarrow> copy_groups \<Rightarrow> copy_act list" where
  "copy_program rank gs = concat (map (copy_group rank) gs)"

lemma copy_program_simps [simp]:
  "copy_program rank [] = []" "copy_program rank (g # gs) = copy_group rank g @ copy_program rank gs"
  "copy_program rank (gs @ gs') = copy_program rank gs @ copy_program rank gs'"
  by (simp_all add: copy_program_def)

text \<open>The peers and elements of the groups of a thread.\<close>

definition copied :: "copy_groups \<Rightarrow> (int \<times> int) list" where
  "copied gs = concat (map (\<lambda>(p, es, sig). map (Pair p) es) gs)"

lemma copied_simps [simp]: "copied [] = []" "copied ((p, es, sig) # gs) = map (Pair p) es @ copied gs" "copied (gs @ gs') = copied gs @ copied gs'"
  by (simp_all add: copied_def)

lemma copy_group_project:
  assumes "distinct es"
  shows "filter (\<lambda>c. copy_key a c = Inl (p, rank * la_count a + e)) (copy_group rank (p', es, sig))
     = (if p' = p \<and> e \<in> set es then [Get rank p e, Put rank p e] else [])"
proof -
  have "filter (\<lambda>x. p' = p \<and> x = e) es = (if p' = p \<and> e \<in> set es then [e] else [])"
    using filter_one [OF assms, of e] by (cases "p' = p") simp_all
  moreover have "filter (\<lambda>c. copy_key a c = Inl (p, rank * la_count a + e)) (case sig of None \<Rightarrow> [] | Some i \<Rightarrow> [Signal p' i]) = []"
    by (cases sig) simp_all
  ultimately show ?thesis by (simp add: copy_group_def filter_map o_def)
qed

lemma copy_program_project:
  assumes "distinct (copied gs)"
  shows "filter (\<lambda>c. copy_key a c = Inl (p, rank * la_count a + e)) (copy_program rank gs)
     = (if (p, e) \<in> set (copied gs) then [Get rank p e, Put rank p e] else [])"
  using assms
proof (induction gs)
  case (Cons g gs)
  obtain p' es sig where g: "g = (p', es, sig)" by (metis surj_pair)
  have d: "distinct es" using Cons.prems by (simp add: g distinct_map inj_on_def)
  show ?case
    using Cons copy_group_project [OF d, of a p rank e p' sig] by (auto simp: g)
qed simp

lemma program_keys: "c \<in> set (copy_program rank gs) \<Longrightarrow> copy_key a c = Inl (p, x) \<Longrightarrow> \<exists>e. (p, e) \<in> set (copied gs) \<and> x = rank * la_count a + e"
proof (induction gs)
  case (Cons g gs)
  then show ?case by (cases g) (auto simp: copy_group_def split: option.splits)
qed simp

lemma copied_for_peers:
  assumes "distinct peers"
  shows "set (copied (for_peers peers rounds)) = set peers \<times> set (concat rounds)"
    and "distinct (concat rounds) \<Longrightarrow> distinct (copied (for_peers peers rounds))"
proof -
  have one: "copied (map (\<lambda>p. (p, es, None)) ps) = concat (map (\<lambda>p. map (Pair p) es) ps)" for es :: "int list" and ps :: "int list"
    by (simp add: copied_def o_def)
  have step: "copied (for_peers peers (es # rounds)) = concat (map (\<lambda>p. map (Pair p) es) peers) @ copied (for_peers peers rounds)" for es rounds
    by (simp add: for_peers_def one)
  show set: "set (copied (for_peers peers rounds)) = set peers \<times> set (concat rounds)" for rounds
  proof (induction rounds)
    case (Cons es rounds)
    then show ?case by (auto simp: step)
  qed (simp add: for_peers_def)
  have d: "distinct (concat (map (\<lambda>p. map (Pair p) es) peers))" if "distinct es" for es :: "int list"
    by (rule distinct_concat_map) (use assms that in \<open>auto simp: distinct_map inj_on_def\<close>)
  show "distinct (concat rounds) \<Longrightarrow> distinct (copied (for_peers peers rounds))"
  proof (induction rounds)
    case (Cons es rounds)
    then have "distinct (concat (map (\<lambda>p. map (Pair p) es) peers))" "distinct (copied (for_peers peers rounds))" using d by simp_all
    moreover have "set (concat (map (\<lambda>p. map (Pair p) es) peers)) \<inter> set (copied (for_peers peers rounds)) = {}"
      unfolding set using Cons.prems by auto
    ultimately show ?case by (simp only: step distinct_append)
  qed (simp add: for_peers_def)
qed

lemma grouped_peers: "grouped_peers a = all_peers a"
proof -
  have "concat (map (\<lambda>b. map (\<lambda>p. b + p) [0..min 2 (n - b) - 1]) (thread_indices 2 k n)) = [k..n - 1]" for k n :: int
  proof (induction "nat (n - k)" arbitrary: k rule: less_induct)
    case less
    have ih: "k < n \<Longrightarrow> concat (map (\<lambda>b. map (\<lambda>p. b + p) [0..min 2 (n - b) - 1]) (thread_indices 2 (k + 2) n)) = [k + 2..n - 1]"
      by (rule less) simp
    have two: "[0..1] = [0, 1 :: int]" by code_simp
    consider "n \<le> k" | "n = k + 1" | "k + 1 < n" by linarith
    then show ?case
    proof cases
      case 3
      then have "[k..n - 1] = k # (k + 1) # [k + 2..n - 1]" "min 2 (n - k) - 1 = 1" using upto_rec1 [of k "n - 1"] upto_rec1 [of "k + 1" "n - 1"] by (simp_all add: add.commute [of 2])
      then show ?thesis using ih 3 by (simp add: thread_indices.simps [of 2 k] two)
    qed (use ih in \<open>simp_all add: thread_indices.simps [of 2 k]\<close>)
  qed
  then show ?thesis by (simp add: grouped_peers_def all_peers_def PEER_UNROLL_def)
qed

section \<open>Every element has one thread of its rank\<close>

definition copy_launch :: "int \<Rightarrow> launch \<Rightarrow> bool" where
  "copy_launch impl a \<longleftrightarrow> launch_ok a \<and> la_sendwin a \<noteq> la_recvwin a \<and> (impl = 2 \<longrightarrow> local_nthreads a * UNROLL_FACTOR a < 2 ^ 31)"

text \<open>The teams: every rank has its team of consecutive ranks, which all have the same team.\<close>

definition teams_ok :: "launch \<Rightarrow> int \<Rightarrow> (int \<Rightarrow> int) \<Rightarrow> bool" where
  "teams_ok a lsaSize lsa_rank \<longleftrightarrow> (\<forall>q\<in>{0..<la_nRanks a}. 0 \<le> lsa_rank q \<and> lsa_rank q < lsaSize \<and> 0 \<le> startLsa lsa_rank q
     \<and> startLsa lsa_rank q + lsaSize \<le> la_nRanks a
     \<and> (\<forall>r\<in>{startLsa lsa_rank q..<startLsa lsa_rank q + lsaSize}. startLsa lsa_rank r = startLsa lsa_rank q))"

definition in_team :: "int \<Rightarrow> (int \<Rightarrow> int) \<Rightarrow> int \<Rightarrow> int \<Rightarrow> bool" where
  "in_team lsaSize lsa_rank q r \<longleftrightarrow> startLsa lsa_rank q \<le> r \<and> r < startLsa lsa_rank q + lsaSize"

lemma team_range:
  "teams_ok a lsaSize lsa_rank \<Longrightarrow> q \<in> {0..<la_nRanks a} \<Longrightarrow> 0 \<le> startLsa lsa_rank q \<and> startLsa lsa_rank q + lsaSize \<le> la_nRanks a"
  unfolding teams_ok_def by blast

lemma team_size:
  assumes "teams_ok a lsaSize lsa_rank" "q \<in> {0..<la_nRanks a}"
  shows "0 < lsaSize"
proof -
  have "0 \<le> lsa_rank q" "lsa_rank q < lsaSize" using assms unfolding teams_ok_def by blast+
  then show ?thesis by linarith
qed

lemma team_symmetric:
  assumes "teams_ok a lsaSize lsa_rank" "q \<in> {0..<la_nRanks a}" "r \<in> {0..<la_nRanks a}"
  shows "in_team lsaSize lsa_rank q r \<longleftrightarrow> in_team lsaSize lsa_rank r q"
proof -
  have "in_team lsaSize lsa_rank r q" if "in_team lsaSize lsa_rank q r" "q \<in> {0..<la_nRanks a}" for q r
  proof -
    have "r \<in> {startLsa lsa_rank q..<startLsa lsa_rank q + lsaSize}" using that(1) by (simp add: in_team_def)
    then have "startLsa lsa_rank r = startLsa lsa_rank q" "0 \<le> lsa_rank q \<and> lsa_rank q < lsaSize"
      using assms(1) that(2) unfolding teams_ok_def by blast+
    then show ?thesis by (simp add: in_team_def startLsa_def)
  qed
  with assms show ?thesis by blast
qed

text \<open>The thread of a rank that copies an element for a peer.\<close>

definition copy_owner :: "int \<Rightarrow> launch \<Rightarrow> int \<Rightarrow> int \<Rightarrow> (int \<Rightarrow> int) \<Rightarrow> int \<Rightarrow> int \<Rightarrow> int \<Rightarrow> int" where
  "copy_owner impl a base lsaSize lsa_rank rank peer e =
     (if impl = 2 \<and> canVectorize a base then e div VECTOR_FACTOR a mod local_nthreads a
      else if impl = 3 \<or> impl = 4 \<and> \<not> in_team lsaSize lsa_rank rank peer then peer mod local_nthreads a
      else e mod local_nthreads a)"

lemma local_tid_range:
  assumes "launch_ok a" "th \<in> set (launch_threads a)"
  shows "0 \<le> local_tid a th" "local_tid a th < local_nthreads a" "fst th \<in> {0..<la_nRanks a}"
proof -
  obtain r b t where th: "th = (r, b, t)" by (cases th)
  have "th \<in> set (rank_threads a r)" using assms(2) by (simp add: th launch_threads)
  then have "local_tid a th \<in> {0..<local_nthreads a}"
    using local_tid_bij [of a r] assms(1) by (auto simp: launch_ok_def bij_betw_def)
  then show "0 \<le> local_tid a th" "local_tid a th < local_nthreads a" by simp_all
  show "fst th \<in> {0..<la_nRanks a}" using assms(2) by (simp add: th launch_threads)
qed

lemma scalar_copies:
  assumes "launch_ok a" "th \<in> set (launch_threads a)" "distinct peers"
  shows "distinct (copied (AlltoAllScalarImpl a peers th))"
    and "(p, e) \<in> set (copied (AlltoAllScalarImpl a peers th)) \<longleftrightarrow> p \<in> set peers \<and> 0 \<le> e \<and> e < la_count a \<and> e mod local_nthreads a = local_tid a th"
proof -
  note t = local_tid_range(1,2) [OF assms(1,2)]
  have single: "concat (map (\<lambda>e. [e]) xs) = xs" for xs :: "int list" by (induction xs) simp_all
  show "distinct (copied (AlltoAllScalarImpl a peers th))"
    unfolding AlltoAllScalarImpl_def by (rule copied_for_peers(2) [OF assms(3)]) (use t in \<open>simp add: single distinct_thread_indices\<close>)
  show "(p, e) \<in> set (copied (AlltoAllScalarImpl a peers th)) \<longleftrightarrow> p \<in> set peers \<and> 0 \<le> e \<and> e < la_count a \<and> e mod local_nthreads a = local_tid a th"
    unfolding AlltoAllScalarImpl_def copied_for_peers(1) [OF assms(3)] single by (simp add: strided [OF t])
qed

text \<open>The vectors of a thread of the optimized kernel: whole iterations, and the rest.\<close>

lemma copy_vectors:
  fixes n U vc tid :: int
  assumes "0 < n" "0 < U" "0 \<le> vc" "0 \<le> tid" "tid < n"
  defines "A \<equiv> vc div (n * U) * (n * U)"
  defines "ks \<equiv> concat (map (\<lambda>k. map (\<lambda>i. k + i * n) [0..U - 1]) (thread_indices (n * U) tid A)) @ thread_indices n (A + tid) vc"
  shows "distinct ks" "k \<in> set ks \<longleftrightarrow> 0 \<le> k \<and> k < vc \<and> k mod n = tid"
proof -
  have m: "0 < n * U" using assms by simp
  have "A \<le> vc" unfolding A_def using div_mult_mod_eq [of vc "n * U"] pos_mod_sign [OF m, of vc] by linarith
  moreover have "0 \<le> A" using assms(3) m by (simp add: A_def pos_imp_zdiv_nonneg_iff)
  moreover have "n dvd A" by (simp add: A_def)
  ultimately have A: "A \<le> vc" "0 \<le> A" "n dvd A" .
  have b: "k \<in> set (thread_indices (n * U) tid A) \<longleftrightarrow> tid \<le> k \<and> k < A \<and> n * U dvd k - tid" for k using m by (simp add: set_thread_indices)
  have at: "(k + i * n) div (n * U) * (n * U) + tid = k \<and> (k + i * n) mod n = tid \<and> 0 \<le> k + i * n \<and> k + i * n < A"
    if "k \<in> set (thread_indices (n * U) tid A)" "0 \<le> i" "i < U" for k i
  proof -
    have "n * U dvd k - tid" using that(1) by (simp add: b)
    then obtain q where "k - tid = n * U * q" ..
    then have q: "k = q * (n * U) + tid" by (simp add: algebra_simps)
    have x: "0 \<le> i * n + tid" "i * n + tid < n * U" using mixed_radix [of i U tid n] that assms by (simp_all add: mult.commute)
    have ki: "k + i * n = q * (n * U) + (i * n + tid)" by (simp add: q)
    have d: "(k + i * n) div (n * U) = q" unfolding ki using div_digit [OF x] by blast
    have "(q * U + i) * n + tid = k + i * n" by (simp add: q algebra_simps)
    then have "(k + i * n) mod n = tid" using div_digit [OF assms(4,5), of "q * U + i"] by metis
    moreover have "q * (n * U) < A" using that(1) [unfolded b q] assms(4) by linarith
    then have "q * (n * U) < vc div (n * U) * (n * U)" unfolding A_def .
    then have "q < vc div (n * U)" using mult_less_cancel_right_pos [OF m] by blast
    then have "(q + 1) * (n * U) \<le> A" unfolding A_def using m by (intro mult_right_mono) simp_all
    then have "k + i * n < A" using x by (simp add: ki algebra_simps)
    moreover have "0 \<le> i * n" using that(2) assms(1) by simp
    then have "0 \<le> k + i * n" using that(1) [unfolded b] assms(4) by linarith
    ultimately show ?thesis using d q by simp
  qed
  let ?V = "concat (map (\<lambda>k. map (\<lambda>i. k + i * n) [0..U - 1]) (thread_indices (n * U) tid A))"
  have dV: "distinct ?V"
  proof (rule distinct_concat_map)
    fix k k' assume k: "k \<in> set (thread_indices (n * U) tid A)" "k' \<in> set (thread_indices (n * U) tid A)" "k \<noteq> k'"
    have "k = k'" if "k + i * n = k' + j * n" "i \<in> {0..U - 1}" "j \<in> {0..U - 1}" for i j
      using at [OF k(1), of i] at [OF k(2), of j] that by simp
    with k(3) show "set (map (\<lambda>i. k + i * n) [0..U - 1]) \<inter> set (map (\<lambda>i. k' + i * n) [0..U - 1]) = {}" by fastforce
  qed (use m assms(1) in \<open>simp_all add: distinct_thread_indices distinct_map inj_on_def\<close>)
  have V: "k \<in> set ?V \<longleftrightarrow> 0 \<le> k \<and> k < A \<and> k mod n = tid" for k
  proof
    assume "k \<in> set ?V"
    then obtain k' i where "k' \<in> set (thread_indices (n * U) tid A)" "0 \<le> i" "i < U" "k = k' + i * n" by auto
    with at [of k' i] show "0 \<le> k \<and> k < A \<and> k mod n = tid" by simp
  next
    assume k: "0 \<le> k \<and> k < A \<and> k mod n = tid"
    let ?q = "k div (n * U)" and ?x = "k mod (n * U)"
    have x: "0 \<le> ?x" "?x < U * n" using m by (simp_all add: mult.commute)
    have i: "0 \<le> ?x div n" "?x div n < U" using x assms(1) quot_less [OF x(2) assms(1)] by (simp_all add: pos_imp_zdiv_nonneg_iff)
    have "?x mod n = tid" using k by (simp add: mod_mod_cancel)
    then have "?x = ?x div n * n + tid" using div_mult_mod_eq [of ?x n] by simp
    moreover have "k = ?q * (n * U) + ?x" by (rule div_mult_mod_eq [symmetric])
    ultimately have kk: "k = (?q * (n * U) + tid) + ?x div n * n" by linarith
    have "0 \<le> ?q * (n * U)" "0 \<le> ?x div n * n" using k m i(1) assms(1) by (simp_all add: pos_imp_zdiv_nonneg_iff)
    then have "?q * (n * U) + tid \<in> set (thread_indices (n * U) tid A)" using kk k unfolding b by simp
    with kk i show "k \<in> set ?V" by fastforce
  qed
  have R: "k \<in> set (thread_indices n (A + tid) vc) \<longleftrightarrow> A \<le> k \<and> k < vc \<and> k mod n = tid" for k
  proof -
    have "(A + tid) mod n = tid" using A(3) assms(4,5) by (auto elim!: dvdE)
    then have "n dvd k - (A + tid) \<longleftrightarrow> k mod n = tid" by (simp add: mod_eq_dvd_iff [symmetric])
    moreover have "(k - A) mod n = k mod n" using A(3) by (simp add: mod_eq_dvd_iff)
    moreover have "A + tid \<le> k" if "A \<le> k" "(k - A) mod n = tid" using zmod_le_nonneg_dividend [of "k - A" n] that by simp
    moreover have "A + tid \<le> k \<Longrightarrow> A \<le> k" using assms(4) by linarith
    ultimately show ?thesis using assms(1) by (auto simp: set_thread_indices)
  qed
  have "set ?V \<inter> set (thread_indices n (A + tid) vc) = {}" using V R by (auto simp del: set_concat)
  with dV show "distinct ks" using assms(1) by (simp add: ks_def distinct_thread_indices del: set_concat)
  have "k \<in> set ks \<longleftrightarrow> k \<in> set ?V \<or> k \<in> set (thread_indices n (A + tid) vc)" by (simp add: ks_def)
  then show "k \<in> set ks \<longleftrightarrow> 0 \<le> k \<and> k < vc \<and> k mod n = tid" unfolding V R using A by auto
qed

lemma for_peers_append: "for_peers peers (r1 @ r2) = for_peers peers r1 @ for_peers peers r2"
  by (simp add: for_peers_def)

lemma distinct_peers: "distinct (all_peers a)" "set (all_peers a) = {0..<la_nRanks a}"
  by (auto simp: all_peers_def)

lemma copy_vector: "distinct (copy_vector a k)" "e \<in> set (copy_vector a k) \<longleftrightarrow> e div VECTOR_FACTOR a = k"
proof -
  have "copy_vector a k = map (\<lambda>x. x - alignment_offset a) (vector_elems a k)" by (simp add: copy_vector_def vector_elems_def o_def)
  then show "distinct (copy_vector a k)" "e \<in> set (copy_vector a k) \<longleftrightarrow> e div VECTOR_FACTOR a = k"
    using vector_elems(1) [of a k] vector_elems(2) [of "e + alignment_offset a" a k] by (force simp: distinct_map inj_on_def)+
qed

lemma optimized_copies:
  assumes "copy_launch 2 a" "th \<in> set (launch_threads a)" "canVectorize a base"
  shows "distinct (copied (NvlAlltoAllKernelOptimized a base th))"
    and "(p, e) \<in> set (copied (NvlAlltoAllKernelOptimized a base th)) \<longleftrightarrow>
      p \<in> {0..<la_nRanks a} \<and> 0 \<le> e \<and> e < la_count a \<and> e div VECTOR_FACTOR a mod local_nthreads a = local_tid a th"
proof -
  let ?n = "local_nthreads a" and ?U = "UNROLL_FACTOR a" and ?F = "VECTOR_FACTOR a" and ?tid = "local_tid a th" and ?vc = "la_count a div VECTOR_FACTOR a"
  have ok: "launch_ok a" "0 \<le> la_count a" using assms(1) by (simp_all add: copy_launch_def launch_ok_def)
  note t = local_tid_range(1,2) [OF ok(1) assms(2)] and U = vector_sizes(2) [of a] and F = vector_sizes(1) [of a]
  have n: "0 < ?n" using t by simp
  have "la_count a * elt_bytes (la_type a) mod (?F * elt_bytes (la_type a)) = 0"
    using assms(3) by (simp add: canVectorize_def vector_sizes(4))
  then have count: "?vc * ?F = la_count a" by (simp add: mod_eq_0_iff_dvd [symmetric] mod_mult_mult2 flip: minus_mod_eq_div_mult)
  have iter: "elements_per_iteration a = ?n * ?U"
    unfolding elements_per_iteration_def using n U assms(1) by (intro to_int_small) (simp_all add: copy_launch_def)
  define ks where "ks = concat (map (\<lambda>k. map (\<lambda>i. k + i * ?n) [0..?U - 1]) (thread_indices (?n * ?U) ?tid (?vc div (?n * ?U) * (?n * ?U))))
      @ thread_indices ?n (?vc div (?n * ?U) * (?n * ?U) + ?tid) ?vc"
  have vc: "0 \<le> ?vc" using ok(2) F by (simp add: pos_imp_zdiv_nonneg_iff)
  note ks = copy_vectors [OF n U vc t, folded ks_def]
  have "thread_indices ?n (la_count a + ?tid) (la_count a) = []" using t by (simp add: thread_indices.simps [of ?n "la_count a + ?tid"])
  then obtain rounds where rounds: "NvlAlltoAllKernelOptimized a base th = for_peers (all_peers a) rounds" "concat rounds = concat (map (copy_vector a) ks)"
  proof -
    let ?r1 = "map (\<lambda>k. concat (map (\<lambda>i. copy_vector a (k + i * ?n)) [0..?U - 1])) (thread_indices (?n * ?U) ?tid (?vc div (?n * ?U) * (?n * ?U)))"
      and ?r2 = "map (copy_vector a) (thread_indices ?n (?vc div (?n * ?U) * (?n * ?U) + ?tid) ?vc)"
    assume none: "thread_indices ?n (la_count a + ?tid) (la_count a) = []"
      and that: "\<And>rounds. NvlAlltoAllKernelOptimized a base th = for_peers (all_peers a) rounds \<Longrightarrow> concat rounds = concat (map (copy_vector a) ks) \<Longrightarrow> thesis"
    have nested: "concat (map (\<lambda>k. concat (map (\<lambda>i. copy_vector a (k + i * ?n)) is)) bs) = concat (map (copy_vector a) (concat (map (\<lambda>k. map (\<lambda>i. k + i * ?n) is) bs)))"
      for bs "is" by (induction bs) (simp_all add: o_def)
    show thesis
    proof (rule that [of "?r1 @ ?r2"])
      show "NvlAlltoAllKernelOptimized a base th = for_peers (all_peers a) (?r1 @ ?r2)"
        using assms(3) none by (simp add: NvlAlltoAllKernelOptimized_def Let_def grouped_peers aligned_vector_count_def iter count for_peers_append)
          (simp add: for_peers_def)
      show "concat (?r1 @ ?r2) = concat (map (copy_vector a) ks)" by (simp add: ks_def nested)
    qed
  qed
  have d: "distinct (concat (map (copy_vector a) ks))"
    by (rule distinct_concat_map [OF ks(1) copy_vector(1)]) (auto simp: copy_vector(2))
  have s: "e \<in> set (concat (map (copy_vector a) ks)) \<longleftrightarrow> 0 \<le> e \<and> e < la_count a \<and> e div ?F mod ?n = ?tid" for e
    using pos_imp_zdiv_nonneg_iff [OF F, of e] quot_less_iff [OF F, of e ?vc] by (auto simp: copy_vector(2) ks(2) count)
  show "distinct (copied (NvlAlltoAllKernelOptimized a base th))"
    unfolding rounds(1) by (rule copied_for_peers(2) [OF distinct_peers(1)]) (simp only: rounds(2) d)
  show "(p, e) \<in> set (copied (NvlAlltoAllKernelOptimized a base th)) \<longleftrightarrow>
      p \<in> {0..<la_nRanks a} \<and> 0 \<le> e \<and> e < la_count a \<and> e div ?F mod ?n = ?tid"
    unfolding rounds(1) copied_for_peers(1) [OF distinct_peers(1)] rounds(2) mem_Sigma_iff s distinct_peers(2) ..
qed

lemma put_copies:
  assumes "distinct rs"
  shows "distinct (copied (map (gin_put a th) rs))"
    and "(p, e) \<in> set (copied (map (gin_put a th) rs)) \<longleftrightarrow> p \<in> set rs \<and> 0 \<le> e \<and> e < la_count a"
proof -
  have eq: "copied (map (gin_put a th) rs) = concat (map (\<lambda>r. map (Pair r) [0..la_count a - 1]) rs)"
    by (simp add: copied_def gin_put_def o_def)
  show "distinct (copied (map (gin_put a th) rs))"
    unfolding eq by (rule distinct_concat_map) (use assms in \<open>auto simp: distinct_map inj_on_def\<close>)
  show "(p, e) \<in> set (copied (map (gin_put a th) rs)) \<longleftrightarrow> p \<in> set rs \<and> 0 \<le> e \<and> e < la_count a" unfolding eq by force
qed

lemma kernel_copies:
  assumes "copy_launch impl a" "impl \<in> {1, 2, 3, 4}" "impl = 4 \<longrightarrow> teams_ok a lsaSize lsa_rank" "th \<in> set (launch_threads a)"
  shows "distinct (copied (AlltoAllKernel impl a base lsaSize lsa_rank th))"
    and "(p, e) \<in> set (copied (AlltoAllKernel impl a base lsaSize lsa_rank th)) \<longleftrightarrow>
      p \<in> {0..<la_nRanks a} \<and> 0 \<le> e \<and> e < la_count a \<and> copy_owner impl a base lsaSize lsa_rank (fst th) p e = local_tid a th"
proof -
  let ?K = "AlltoAllKernel impl a base lsaSize lsa_rank th"
  have ok: "launch_ok a" using assms(1) by (simp add: copy_launch_def)
  note t = local_tid_range [OF ok assms(4)] and scalar = scalar_copies [OF ok assms(4)]
  have "distinct (copied ?K) \<and> ((p, e) \<in> set (copied ?K) \<longleftrightarrow>
      p \<in> {0..<la_nRanks a} \<and> 0 \<le> e \<and> e < la_count a \<and> copy_owner impl a base lsaSize lsa_rank (fst th) p e = local_tid a th)"
  proof -
    consider "impl = 1 \<or> impl = 2 \<and> \<not> canVectorize a base" | "impl = 2 \<and> canVectorize a base" | "impl = 3" | "impl = 4" using assms(2) by auto
    then show ?thesis
    proof cases
      case 1
      then have K: "?K = AlltoAllScalarImpl a (all_peers a) th" by (auto simp: AlltoAllKernel_def NvlAlltoAllKernel_def NvlAlltoAllKernelOptimized_def)
      show ?thesis unfolding K using 1 scalar(1) [OF distinct_peers(1)] scalar(2) [OF distinct_peers(1), of p e] by (auto simp: distinct_peers(2) copy_owner_def)
    next
      case 2
      then show ?thesis
        using optimized_copies(1) [of a th base] optimized_copies(2) [of a th base p e] assms(1,4) by (simp add: AlltoAllKernel_def copy_owner_def)
    next
      case 3
      let ?rs = "thread_indices (local_nthreads a) (local_tid a th) (la_nRanks a)"
      have "distinct ?rs" using t by (intro distinct_thread_indices) simp
      then show ?thesis
        using 3 put_copies(1) [of ?rs a th] put_copies(2) [of ?rs p e a th] strided [OF t(1,2), of p]
        by (auto simp: AlltoAllKernel_def GinAlltoAllKernel_def copy_owner_def)
    next
      case 4
      let ?s = "startLsa lsa_rank (fst th)"
      let ?rs = "filter (\<lambda>r. r < ?s \<or> r \<ge> ?s + lsaSize) (thread_indices (local_nthreads a) (local_tid a th) (la_nRanks a))"
        and ?ps = "map (\<lambda>lp. ?s + lp) [0..lsaSize - 1]"
      have K: "?K = map (gin_put a th) ?rs @ AlltoAllScalarImpl a ?ps th" using 4 by (simp add: AlltoAllKernel_def HybridAlltoAllKernel_def Let_def)
      have d: "distinct ?rs" "distinct ?ps" using t by (simp_all add: distinct_thread_indices distinct_map inj_on_def)
      have rs: "p \<in> set ?rs \<longleftrightarrow> p \<in> {0..<la_nRanks a} \<and> \<not> in_team lsaSize lsa_rank (fst th) p \<and> p mod local_nthreads a = local_tid a th" for p
        by (auto simp: strided [OF t(1,2)] in_team_def)
      have "set ?ps = {?s..<?s + lsaSize}" by (force simp: image_iff)
      then have ps: "p \<in> set ?ps \<longleftrightarrow> in_team lsaSize lsa_rank (fst th) p" for p by (simp add: in_team_def)
      have sub: "in_team lsaSize lsa_rank (fst th) p \<Longrightarrow> p \<in> {0..<la_nRanks a}" for p
        using team_range [of a lsaSize lsa_rank "fst th"] assms(3) 4 t(3) by (simp add: in_team_def)
      have "set (copied (map (gin_put a th) ?rs)) \<inter> set (copied (AlltoAllScalarImpl a ?ps th)) = {}"
      proof -
        have "False" if "(q, y) \<in> set (copied (map (gin_put a th) ?rs))" "(q, y) \<in> set (copied (AlltoAllScalarImpl a ?ps th))" for q y
          using that unfolding put_copies(2) [OF d(1)] scalar(2) [OF d(2)] rs ps by blast
        then show ?thesis unfolding disjoint_iff split_paired_All by blast
      qed
      then have "distinct (copied ?K)"
        using put_copies(1) [OF d(1), of a th] scalar(1) [OF d(2)] unfolding K copied_simps distinct_append by blast
      moreover have "(p, e) \<in> set (copied ?K) \<longleftrightarrow>
          (p \<in> {0..<la_nRanks a} \<and> \<not> in_team lsaSize lsa_rank (fst th) p \<and> p mod local_nthreads a = local_tid a th) \<and> 0 \<le> e \<and> e < la_count a
          \<or> in_team lsaSize lsa_rank (fst th) p \<and> 0 \<le> e \<and> e < la_count a \<and> e mod local_nthreads a = local_tid a th"
        by (simp only: K copied_simps set_append Un_iff put_copies(2) [OF d(1)] scalar(2) [OF d(2)] rs ps)
      ultimately show ?thesis using sub [of p] 4 by (cases "in_team lsaSize lsa_rank (fst th) p") (auto simp: copy_owner_def)
    qed
  qed
  then show "distinct (copied ?K)" and "(p, e) \<in> set (copied ?K) \<longleftrightarrow>
      p \<in> {0..<la_nRanks a} \<and> 0 \<le> e \<and> e < la_count a \<and> copy_owner impl a base lsaSize lsa_rank (fst th) p e = local_tid a th" by blast+
qed

section \<open>What the kernels copy\<close>

lemma index_unique:
  fixes c :: int
  assumes "q * c + e = q' * c + e'" "0 \<le> e" "e < c" "0 \<le> e'" "e' < c"
  shows "q = q'" "e = e'"
  using div_digit [OF assms(2,3), of q] div_digit [OF assms(4,5), of q'] assms(1) by metis+

lemma copy_owner_range: "launch_ok a \<Longrightarrow> 0 \<le> copy_owner impl a base lsaSize lsa_rank q p e \<and> copy_owner impl a base lsaSize lsa_rank q p e < local_nthreads a"
  by (simp add: copy_owner_def launch_ok_def local_nthreads_def)

lemma owner_thread:
  assumes "launch_ok a" "q \<in> {0..<la_nRanks a}" "0 \<le> k" "k < local_nthreads a"
  shows "\<exists>th. th \<in> set (launch_threads a) \<and> fst th = q \<and> local_tid a th = k
    \<and> (\<forall>th'\<in>set (launch_threads a). fst th' = q \<longrightarrow> local_tid a th' = k \<longrightarrow> th' = th)"
proof -
  have sub: "th \<in> set (launch_threads a) \<and> fst th = q \<longleftrightarrow> th \<in> set (rank_threads a q)" for th
    using assms(2) by (cases th) (auto simp: launch_threads)
  have bij: "bij_betw (local_tid a) (set (rank_threads a q)) {0..<local_nthreads a}"
    using assms(1) by (intro local_tid_bij) (simp add: launch_ok_def)
  have "k \<in> local_tid a ` set (rank_threads a q)" using assms(3,4) unfolding bij_betw_imp_surj_on [OF bij] by simp
  then obtain th where "th \<in> set (rank_threads a q)" "local_tid a th = k" by force
  then show ?thesis using sub inj_onD [OF bij_betw_imp_inj_on [OF bij]] by metis
qed

text \<open>The program of a thread of a kernel.\<close>

definition copy_kernel :: "int \<Rightarrow> launch \<Rightarrow> int \<Rightarrow> int \<Rightarrow> (int \<Rightarrow> int) \<Rightarrow> dev_thread \<Rightarrow> copy_act list" where
  "copy_kernel impl a base lsaSize lsa_rank th = copy_program (fst th) (AlltoAllKernel impl a base lsaSize lsa_rank th)"

lemma copy_actions:
  assumes "copy_launch impl a" "impl \<in> {1, 2, 3, 4}" "impl = 4 \<longrightarrow> teams_ok a lsaSize lsa_rank"
    and run: "interleaves (launch_threads a) (copy_kernel impl a base lsaSize lsa_rank) zs"
    and q: "q \<in> {0..<la_nRanks a}" and p: "p \<in> {0..<la_nRanks a}" and e: "0 \<le> e" "e < la_count a"
  shows "\<exists>th. th \<in> set (launch_threads a) \<and> fst th = q \<and> local_tid a th = copy_owner impl a base lsaSize lsa_rank q p e
    \<and> filter (\<lambda>z. copy_key a (snd z) = Inl (p, q * la_count a + e)) zs = [(th, Get q p e), (th, Put q p e)]"
proof -
  let ?K = "AlltoAllKernel impl a base lsaSize lsa_rank" and ?own = "copy_owner impl a base lsaSize lsa_rank" and ?k = "Inl (p, q * la_count a + e)"
  have ok: "launch_ok a" using assms(1) by (simp add: copy_launch_def)
  note copies = kernel_copies [OF assms(1-3)]
  obtain th where th: "th \<in> set (launch_threads a)" "fst th = q" "local_tid a th = ?own q p e"
    and unique: "\<And>th'. th' \<in> set (launch_threads a) \<Longrightarrow> fst th' = q \<Longrightarrow> local_tid a th' = ?own q p e \<Longrightarrow> th' = th"
    using owner_thread [OF ok q] copy_owner_range [OF ok] by metis
  have "filter (\<lambda>c. copy_key a c = ?k) (copy_kernel impl a base lsaSize lsa_rank th') = []"
    if th': "th' \<in> set (launch_threads a)" "th' \<noteq> th" for th'
  proof (rule ccontr)
    assume "filter (\<lambda>c. copy_key a c = ?k) (copy_kernel impl a base lsaSize lsa_rank th') \<noteq> []"
    then obtain c where c: "c \<in> set (copy_program (fst th') (?K th'))" "copy_key a c = ?k"
      by (auto simp: filter_empty_conv copy_kernel_def)
    from program_keys [OF c] obtain e' where e': "(p, e') \<in> set (copied (?K th'))" "q * la_count a + e = fst th' * la_count a + e'" by blast
    then have m: "0 \<le> e'" "e' < la_count a" "?own (fst th') p e' = local_tid a th'" using copies(2) [OF th'(1)] by auto
    have "q = fst th'" "e = e'" using index_unique [OF e'(2) e m(1,2)] by blast+
    then show False using unique [OF th'(1)] th'(2) m(3) by simp
  qed
  moreover have "filter (\<lambda>c. copy_key a c = ?k) (copy_kernel impl a base lsaSize lsa_rank th) = [Get q p e, Put q p e]"
    using copy_program_project [OF copies(1) [OF th(1)], of a p q e] copies(2) [OF th(1), of p e] p e th by (simp add: copy_kernel_def)
  ultimately show ?thesis
    using interleaves_project [OF run th(1), of "copy_key a" ?k] th by (intro exI [of _ th]) simp
qed

lemma copied_element:
  assumes "la_sendwin a \<noteq> la_recvwin a" "filter (\<lambda>z. copy_key a (snd z) = Inl (p, q * la_count a + e)) zs = [(th, Get q p e), (th, Put q p e)]"
  shows "fst (fold (copy_step a) zs (m, r, sig)) (recv_loc a p (q * la_count a + e)) = m (send_loc a q (p * la_count a + e))"
proof -
  have "same_copy a (Inl (p, q * la_count a + e)) (fold (copy_step a) zs (m, r, sig)) (fold (copy_step a) [(th, Get q p e), (th, Put q p e)] (m, r, sig))"
    using copies.project [of a "Inl (p, q * la_count a + e)" "(m, r, sig)" "(m, r, sig)" zs] assms by (simp add: same_copy_def)
  then show ?thesis by (simp add: same_copy_def)
qed

lemma uncopied:
  "(\<And>t q p e. (t, Put q p e) \<in> set zs \<Longrightarrow> l \<noteq> recv_loc a p (q * la_count a + e)) \<Longrightarrow> fst (fold (copy_step a) zs s) l = fst s l"
proof (induction zs arbitrary: s)
  case (Cons z zs)
  obtain t c m r sig where z: "z = (t, c)" "s = (m, r, sig)" by (metis surj_pair)
  have "fst (copy_step a z s) l = fst s l" using Cons.prems [of t] by (cases c) (auto simp: z simp del: locs_inj)
  moreover have "fst (fold (copy_step a) zs (copy_step a z s)) l = fst (copy_step a z s) l" by (rule Cons.IH) (rule Cons.prems, erule list.set_intros(2))
  ultimately show ?case by simp
qed simp

lemma program_puts: "Put q p e \<in> set (copy_program rank gs) \<Longrightarrow> q = rank \<and> (p, e) \<in> set (copied gs)"
proof (induction gs)
  case (Cons g gs)
  then show ?case by (cases g) (auto simp: copy_group_def split: option.splits)
qed simp

text \<open>C24: the kernels of the all-to-all. Let the threads of all ranks run in any order, action by action, out of place. All four kernels (the optimized one if
  its numbers fit into an int, the one with teams for teams of consecutive ranks) put at every rank, for every rank and element, the
  element that rank has for it, and write nothing else; whether the optimized one uses vectors or not.\<close>

theorem alltoall_kernels_correct:
  assumes "copy_launch impl a" "impl \<in> {1, 2, 3, 4}" "impl = 4 \<longrightarrow> teams_ok a lsaSize lsa_rank"
    and "interleaves (launch_threads a) (copy_kernel impl a base lsaSize lsa_rank) zs"
  shows "(\<forall>p\<in>{0..<la_nRanks a}. \<forall>q\<in>{0..<la_nRanks a}. \<forall>e\<in>{0..<la_count a}.
        fst (fold (copy_step a) zs (m, r, sig)) (recv_loc a p (q * la_count a + e)) = m (send_loc a q (p * la_count a + e)))
    \<and> (\<forall>l. (\<forall>p\<in>{0..<la_nRanks a}. \<forall>x\<in>{0..<la_nRanks a * la_count a}. l \<noteq> recv_loc a p x) \<longrightarrow> fst (fold (copy_step a) zs (m, r, sig)) l = m l)"
proof (intro conjI ballI allI impI)
  have apart: "la_sendwin a \<noteq> la_recvwin a" using assms(1) by (simp add: copy_launch_def)
  fix p q e assume pqe: "p \<in> {0..<la_nRanks a}" "q \<in> {0..<la_nRanks a}" "e \<in> {0..<la_count a}"
  then obtain th where "filter (\<lambda>z. copy_key a (snd z) = Inl (p, q * la_count a + e)) zs = [(th, Get q p e), (th, Put q p e)]"
    using copy_actions [OF assms pqe(2,1), of e] by (meson atLeastLessThan_iff)
  then show "fst (fold (copy_step a) zs (m, r, sig)) (recv_loc a p (q * la_count a + e)) = m (send_loc a q (p * la_count a + e))"
    by (rule copied_element [OF apart])
next
  have ok: "launch_ok a" using assms(1) by (simp add: copy_launch_def)
  fix l assume l: "\<forall>p\<in>{0..<la_nRanks a}. \<forall>x\<in>{0..<la_nRanks a * la_count a}. l \<noteq> recv_loc a p x"
  have "l \<noteq> recv_loc a p (q * la_count a + e)" if z: "(t, Put q p e) \<in> set zs" for t q p e
  proof -
    note run = interleaves_actions [OF assms(4) z]
    have "q = fst t" "(p, e) \<in> set (copied (AlltoAllKernel impl a base lsaSize lsa_rank t))"
      using program_puts [OF run(2) [unfolded copy_kernel_def]] by simp_all
    then have "p \<in> {0..<la_nRanks a}" "q \<in> {0..<la_nRanks a}" "0 \<le> e" "e < la_count a"
      using kernel_copies(2) [OF assms(1-3) run(1)] local_tid_range(3) [OF ok run(1)] by auto
    moreover from this have "q * la_count a + e \<in> {0..<la_nRanks a * la_count a}" using mixed_radix [of q "la_nRanks a" e "la_count a"] by simp
    ultimately show ?thesis using l by blast
  qed
  then show "fst (fold (copy_step a) zs (m, r, sig)) l = m l" using uncopied [of zs l a "(m, r, sig)"] by simp
qed

text \<open>Four ranks in teams of two exchange three floats each.\<close>

definition small_copy :: launch where
  "small_copy = \<lparr>la_nRanks = 4, la_gridDim = 1, la_blockDim = 2, la_sendwin = 0, la_sendoffset = 0, la_recvwin = 1, la_recvoffset = 0,
     la_count = 3, la_type = NcclFloat32\<rparr>"

lemma small_copy: "copy_launch 4 small_copy" "teams_ok small_copy 2 (\<lambda>q. q mod 2)"
  by code_simp+

theorem alltoall_kernels_correct_witness:
  "\<exists>zs. interleaves (launch_threads small_copy) (copy_kernel 4 small_copy 0 2 (\<lambda>q. q mod 2)) zs
     \<and> fst (fold (copy_step small_copy) zs (\<lambda>(w, p, x). 100 * p + x :: int, \<lambda>_. 0, \<lambda>_. 0)) (1, 2, 16) = 128"
proof -
  let ?prog = "copy_kernel 4 small_copy 0 2 (\<lambda>q. q mod 2)"
  let ?zs = "concat (map (\<lambda>t. map (Pair t) (?prog t)) (launch_threads small_copy))"
  have run: "interleaves (launch_threads small_copy) ?prog ?zs" by (rule one_after_the_other [OF distinct_launch_threads])
  have size: "elt_bytes NcclFloat32 = 4" by (simp add: elt_bytes_def)
  have "fst (fold (copy_step small_copy) ?zs (\<lambda>(w, p, x). 100 * p + x :: int, \<lambda>_. 0, \<lambda>_. 0)) (recv_loc small_copy 2 (1 * 3 + 1)) = 128"
    using alltoall_kernels_correct [OF small_copy(1) _ _ run, of "\<lambda>(w, p, x). 100 * p + x :: int" "\<lambda>_. 0" "\<lambda>_. 0", THEN conjunct1, rule_format, of 2 1 1] small_copy(2)
    by (simp add: small_copy_def send_loc_def size)
  then show ?thesis using run by (intro exI [of _ ?zs]) (simp add: small_copy_def recv_loc_def size)
qed

section \<open>What the signals say\<close>

lemma signal_count:
  "snd (snd (fold (copy_step a) zs (m, r, sig))) (p, i) = sig (p, i) + length (filter (\<lambda>z. snd z = Signal p i) zs)"
proof (induction zs arbitrary: m r sig)
  case (Cons z zs)
  obtain t c where z: "z = (t, c)" by (cases z)
  show ?case by (cases c) (auto simp: z Cons)
qed simp

lemma no_signals: "\<forall>g\<in>set gs. snd (snd g) = None \<Longrightarrow> filter (\<lambda>c. c = Signal p i) (copy_program rank gs) = []"
proof (induction gs)
  case (Cons g gs)
  then show ?case by (cases g) (auto simp: copy_group_def filter_empty_conv)
qed simp

lemma put_signals:
  "distinct rs \<Longrightarrow> length (filter (\<lambda>c. c = Signal p i) (copy_program rank (map (gin_put a th) rs))) = (if p \<in> set rs \<and> i = fst (snd th) then 1 else 0)"
proof (induction rs)
  case (Cons x rs)
  have "filter (\<lambda>c. c = Signal p i) (copy_group rank (gin_put a th x)) = (if x = p \<and> i = fst (snd th) then [Signal p i] else [])"
    by (auto simp: copy_group_def gin_put_def filter_empty_conv)
  with Cons show ?case by auto
qed simp

text \<open>A thread signals a peer once, if it puts to it.\<close>

definition puts_to :: "int \<Rightarrow> int \<Rightarrow> (int \<Rightarrow> int) \<Rightarrow> int \<Rightarrow> int \<Rightarrow> bool" where
  "puts_to impl lsaSize lsa_rank q p \<longleftrightarrow> impl = 3 \<or> \<not> in_team lsaSize lsa_rank q p"

lemma kernel_signals:
  assumes "copy_launch impl a" "impl \<in> {3, 4}" "th \<in> set (launch_threads a)" "p \<in> {0..<la_nRanks a}"
  shows "length (filter (\<lambda>c. c = Signal p i) (copy_kernel impl a base lsaSize lsa_rank th))
     = (if puts_to impl lsaSize lsa_rank (fst th) p \<and> p mod local_nthreads a = local_tid a th \<and> i = fst (snd th) then 1 else 0)"
proof -
  have ok: "launch_ok a" using assms(1) by (simp add: copy_launch_def)
  note t = local_tid_range(1,2) [OF ok assms(3)]
  let ?rs = "thread_indices (local_nthreads a) (local_tid a th) (la_nRanks a)" and ?s = "startLsa lsa_rank (fst th)"
  have rs: "distinct ?rs" "p \<in> set ?rs \<longleftrightarrow> p mod local_nthreads a = local_tid a th"
    using t assms(4) by (simp_all add: distinct_thread_indices strided)
  show ?thesis
  proof (cases "impl = 3")
    case True
    then show ?thesis
      using put_signals [OF rs(1), of p i "fst th" a th] rs(2)
      by (simp add: copy_kernel_def AlltoAllKernel_def GinAlltoAllKernel_def puts_to_def)
  next
    case False
    then have "copy_kernel impl a base lsaSize lsa_rank th = copy_program (fst th) (map (gin_put a th) (filter (\<lambda>r. r < ?s \<or> r \<ge> ?s + lsaSize) ?rs))
        @ copy_program (fst th) (AlltoAllScalarImpl a (map (\<lambda>lp. ?s + lp) [0..lsaSize - 1]) th)"
      using assms(2) by (simp add: copy_kernel_def AlltoAllKernel_def HybridAlltoAllKernel_def Let_def)
    moreover have "filter (\<lambda>c. c = Signal p i) (copy_program (fst th) (AlltoAllScalarImpl a (map (\<lambda>lp. ?s + lp) [0..lsaSize - 1]) th)) = []"
      by (rule no_signals) (auto simp: AlltoAllScalarImpl_def for_peers_def)
    ultimately show ?thesis
      using put_signals [OF distinct_filter [OF rs(1), of "\<lambda>r. r < ?s \<or> r \<ge> ?s + lsaSize"], of p i "fst th" a th] rs(2) False
      by (simp add: puts_to_def in_team_def)
  qed
qed

text \<open>The number of ranks that put to a rank.\<close>

lemma putting_ranks:
  assumes "impl \<in> {3, 4}" "impl = 4 \<longrightarrow> teams_ok a lsaSize lsa_rank" "p \<in> {0..<la_nRanks a}"
  shows "int (card {q \<in> {0..<la_nRanks a}. puts_to impl lsaSize lsa_rank q p}) = awaited_signals a impl lsaSize"
proof (cases "impl = 3")
  case True
  have "{q \<in> {0..<la_nRanks a}. puts_to impl lsaSize lsa_rank q p} = {0..<la_nRanks a}" using True by (auto simp: puts_to_def)
  then show ?thesis using True assms(3) by (simp add: awaited_signals_def)
next
  case False
  then have teams: "teams_ok a lsaSize lsa_rank" and "impl = 4" using assms(1,2) by auto
  let ?T = "{startLsa lsa_rank p..<startLsa lsa_rank p + lsaSize}"
  have range: "0 \<le> startLsa lsa_rank p" "startLsa lsa_rank p + lsaSize \<le> la_nRanks a" "0 \<le> lsaSize"
    using team_range [OF teams assms(3)] team_size [OF teams assms(3)] by simp_all
  have "in_team lsaSize lsa_rank q p \<longleftrightarrow> q \<in> ?T" if "q \<in> {0..<la_nRanks a}" for q
    using team_symmetric [OF teams that assms(3)] by (simp add: in_team_def [of _ _ p])
  then have "{q \<in> {0..<la_nRanks a}. puts_to impl lsaSize lsa_rank q p} = {0..<la_nRanks a} - ?T"
    using False by (auto simp: puts_to_def)
  moreover have "card ({0..<la_nRanks a} - ?T) = card {0..<la_nRanks a} - card ?T" using range by (intro card_Diff_subset) auto
  ultimately show ?thesis using range False by (simp add: awaited_signals_def)
qed

lemma thread_block:
  assumes "(q, b, t) \<in> set (launch_threads a)" "p mod local_nthreads a = local_tid a (q, b, t)"
  shows "b = receivingCta a p"
proof -
  have "0 \<le> t" "t < la_blockDim a" using assms(1) by (simp_all add: launch_threads)
  then show ?thesis using div_digit [of t "la_blockDim a" b] assms(2) by (simp add: receivingCta_def local_tid_def ac_simps)
qed

lemma all_signals:
  assumes "copy_launch impl a" "impl \<in> {3, 4}" "impl = 4 \<longrightarrow> teams_ok a lsaSize lsa_rank"
    and run: "interleaves (launch_threads a) (copy_kernel impl a base lsaSize lsa_rank) zs" and p: "p \<in> {0..<la_nRanks a}"
  shows "int (length (filter (\<lambda>z. snd z = Signal p i) zs)) = (if i = receivingCta a p then awaited_signals a impl lsaSize else 0)"
proof -
  have ok: "launch_ok a" using assms(1) by (simp add: copy_launch_def)
  let ?k = "p mod local_nthreads a" and ?P = "\<lambda>th. puts_to impl lsaSize lsa_rank (fst th) p \<and> p mod local_nthreads a = local_tid a th \<and> i = fst (snd th)"
  have k: "0 \<le> ?k" "?k < local_nthreads a" using ok by (simp_all add: launch_ok_def local_nthreads_def)
  have block: "fst (snd th) = receivingCta a p" if "th \<in> set (launch_threads a)" "?k = local_tid a th" for th
    using thread_block [of "fst th" "fst (snd th)" "snd (snd th)" a p] that by simp
  have "length (filter (\<lambda>z. snd z = Signal p i) zs) = (\<Sum>th\<in>set (launch_threads a). if ?P th then 1 else 0)"
    unfolding interleaves_count [OF run, of "\<lambda>c. c = Signal p i"] by (rule sum.cong [OF refl]) (rule kernel_signals [OF assms(1,2) _ p])
  also have "\<dots> = card {th \<in> set (launch_threads a). ?P th}" by (simp add: sum.inter_filter [symmetric])
  also have "\<dots> = (if i = receivingCta a p then card {q \<in> {0..<la_nRanks a}. puts_to impl lsaSize lsa_rank q p} else 0)"
  proof (cases "i = receivingCta a p")
    case True
    have "bij_betw fst {th \<in> set (launch_threads a). ?P th} {q \<in> {0..<la_nRanks a}. puts_to impl lsaSize lsa_rank q p}"
      unfolding bij_betw_def
    proof
      show "inj_on fst {th \<in> set (launch_threads a). ?P th}"
      proof (rule inj_onI)
        fix x y assume xy: "x \<in> {th \<in> set (launch_threads a). ?P th}" "y \<in> {th \<in> set (launch_threads a). ?P th}" "fst x = fst y"
        have "fst x \<in> {0..<la_nRanks a}" using local_tid_range(3) [OF ok] xy(1) by simp
        from owner_thread [OF ok this k] xy show "x = y" by (metis (mono_tags, lifting) mem_Collect_eq)
      qed
      have "q \<in> fst ` {th \<in> set (launch_threads a). ?P th}" if q: "q \<in> {0..<la_nRanks a}" "puts_to impl lsaSize lsa_rank q p" for q
      proof -
        obtain th where "th \<in> set (launch_threads a)" "fst th = q" "local_tid a th = ?k" using owner_thread [OF ok q(1) k] by blast
        then show ?thesis using block [of th] True q(2) by (intro image_eqI [of _ _ th]) simp_all
      qed
      then show "fst ` {th \<in> set (launch_threads a). ?P th} = {q \<in> {0..<la_nRanks a}. puts_to impl lsaSize lsa_rank q p}"
        using local_tid_range(3) [OF ok] by auto
    qed
    then show ?thesis using True bij_betw_same_card by simp
  next
    case False
    then have "{th \<in> set (launch_threads a). ?P th} = {}" using block by auto
    then show ?thesis using False by simp
  qed
  finally show ?thesis using putting_ranks [OF assms(2,3) p] by simp
qed

lemma data_before_signal:
  assumes "\<forall>g\<in>set gs. snd (snd g) = None \<or> {0..<c} \<subseteq> set (fst (snd g))" "copy_program rank gs = U @ W" "Signal p i \<in> set U" "0 \<le> e" "e < c"
  shows "Put rank p e \<in> set U"
  using assms(1-3)
proof (induction gs arbitrary: U)
  case (Cons g gs)
  obtain p' es sig where g: "g = (p', es, sig)" by (metis surj_pair)
  have whole: "Put rank p e \<in> set (copy_group rank g)" if "Signal p i \<in> set (copy_group rank g)"
    using that Cons.prems(1) assms(4,5) by (auto simp: g copy_group_def split: option.splits)
  from Cons.prems(2) have "copy_group rank g @ copy_program rank gs = U @ W" by simp
  then consider V where "copy_group rank g = U @ V" | U' where "U = copy_group rank g @ U'" "copy_program rank gs = U' @ W"
    by (auto simp: append_eq_append_conv2)
  then show ?case
  proof cases
    case (1 V)
    have last: "V = []"
    proof (rule ccontr)
      assume "V \<noteq> []"
      have "Signal p i \<in> set (butlast (copy_group rank g))" using 1 Cons.prems(3) \<open>V \<noteq> []\<close> by (simp add: butlast_append)
      moreover have "Signal p i \<notin> set (butlast (copy_group rank g))"
      proof (cases sig)
        case None
        then have "Signal p i \<notin> set (copy_group rank g)" by (auto simp: g copy_group_def)
        then show ?thesis using in_set_butlastD by metis
      qed (auto simp: g copy_group_def butlast_append)
      ultimately show False by contradiction
    qed
    then show ?thesis using whole 1 Cons.prems(3) by simp
  next
    case (2 U')
    then show ?thesis using whole Cons.IH [of U'] Cons.prems by auto
  qed
qed simp

lemma two_of_two: "F @ G = [x, y] \<Longrightarrow> y \<in> set F \<Longrightarrow> x \<noteq> y \<Longrightarrow> F = [x, y]"
  by (auto simp: append_eq_Cons_conv)

text \<open>C25: the signals of the kernels that use the network. Let the actions of all threads of all ranks be cut anywhere. When the signal a rank waits for has gone up by the number it
  waits for, the data of all ranks that put to it are in its receive buffer; and at the end this signal has gone up by
  exactly this number, so that the wait ends, and no other signal of the rank has changed.\<close>

theorem signals_mean_data:
  assumes "copy_launch impl a" "impl \<in> {3, 4}" "impl = 4 \<longrightarrow> teams_ok a lsaSize lsa_rank"
    and run: "interleaves (launch_threads a) (copy_kernel impl a base lsaSize lsa_rank) (ys @ ws)" and p: "p \<in> {0..<la_nRanks a}"
  shows "(int (snd (snd (fold (copy_step a) ys (m, r, sig))) (p, receivingCta a p)) \<ge> int (sig (p, receivingCta a p)) + awaited_signals a impl lsaSize \<longrightarrow>
        (\<forall>q\<in>{0..<la_nRanks a}. \<forall>e\<in>{0..<la_count a}. puts_to impl lsaSize lsa_rank q p \<longrightarrow>
          fst (fold (copy_step a) ys (m, r, sig)) (recv_loc a p (q * la_count a + e)) = m (send_loc a q (p * la_count a + e))))
    \<and> int (snd (snd (fold (copy_step a) (ys @ ws) (m, r, sig))) (p, i))
        = int (sig (p, i)) + (if i = receivingCta a p then awaited_signals a impl lsaSize else 0)"
proof (intro conjI impI ballI)
  show "int (snd (snd (fold (copy_step a) (ys @ ws) (m, r, sig))) (p, i))
      = int (sig (p, i)) + (if i = receivingCta a p then awaited_signals a impl lsaSize else 0)"
    using all_signals [OF assms(1-3) run p, of i] unfolding signal_count by simp
  have ok: "launch_ok a" "la_sendwin a \<noteq> la_recvwin a" using assms(1) by (simp_all add: copy_launch_def)
  have impl: "impl \<in> {1, 2, 3, 4}" using assms(2) by auto
  let ?i = "receivingCta a p" and ?prog = "copy_kernel impl a base lsaSize lsa_rank"
  fix q e
  assume enough: "int (snd (snd (fold (copy_step a) ys (m, r, sig))) (p, ?i)) \<ge> int (sig (p, ?i)) + awaited_signals a impl lsaSize"
    and q: "q \<in> {0..<la_nRanks a}" and e: "e \<in> {0..<la_count a}" and puts: "puts_to impl lsaSize lsa_rank q p"
  have "int (length (filter (\<lambda>z. snd z = Signal p ?i) ws)) \<le> 0"
    using enough all_signals [OF assms(1-3) run p, of ?i] unfolding signal_count filter_append length_append by (simp del: length_0_conv)
  then have none: "(t, Signal p ?i) \<notin> set ws" for t by (force simp: filter_empty_conv)
  obtain th where th: "th \<in> set (launch_threads a)" "fst th = q" "local_tid a th = copy_owner impl a base lsaSize lsa_rank q p e"
    and cell: "filter (\<lambda>z. copy_key a (snd z) = Inl (p, q * la_count a + e)) (ys @ ws) = [(th, Get q p e), (th, Put q p e)]"
    using copy_actions [OF assms(1) impl assms(3) run q p, of e] e by (meson atLeastLessThan_iff)
  have tid: "p mod local_nthreads a = local_tid a th" using th(3) puts assms(2) by (auto simp: copy_owner_def puts_to_def)
  have block: "?i = fst (snd th)" using thread_block [of "fst th" "fst (snd th)" "snd (snd th)" a p] th(1) tid by simp
  have "length (filter (\<lambda>c. c = Signal p ?i) (?prog th)) = 1"
    unfolding kernel_signals [OF assms(1,2) th(1) p] using tid block puts th(2) by simp
  then have "Signal p ?i \<in> set (?prog th)" by (cases "filter (\<lambda>c. c = Signal p ?i) (?prog th)") (auto simp: filter_eq_Cons_iff)
  moreover have split: "?prog th = map snd (filter (\<lambda>z. fst z = th) ys) @ map snd (filter (\<lambda>z. fst z = th) ws)"
    using run th(1) by (simp add: interleaves_def list_all_iff)
  ultimately have "Signal p ?i \<in> set (map snd (filter (\<lambda>z. fst z = th) ys))" using none by auto
  moreover have "\<forall>g\<in>set (AlltoAllKernel impl a base lsaSize lsa_rank th). snd (snd g) = None \<or> {0..<la_count a} \<subseteq> set (fst (snd g))"
    using assms(2) by (auto simp: AlltoAllKernel_def GinAlltoAllKernel_def HybridAlltoAllKernel_def Let_def gin_put_def AlltoAllScalarImpl_def for_peers_def)
  ultimately have "Put q p e \<in> set (map snd (filter (\<lambda>z. fst z = th) ys))"
    using data_before_signal [of _ "la_count a" "fst th"] split e th(2) unfolding copy_kernel_def by (metis atLeastLessThan_iff)
  then have "(th, Put q p e) \<in> set (filter (\<lambda>z. copy_key a (snd z) = Inl (p, q * la_count a + e)) ys)" by auto
  then have "filter (\<lambda>z. copy_key a (snd z) = Inl (p, q * la_count a + e)) ys = [(th, Get q p e), (th, Put q p e)]"
    using cell two_of_two [of _ _ "(th, Get q p e)" "(th, Put q p e)"] unfolding filter_append by blast
  then show "fst (fold (copy_step a) ys (m, r, sig)) (recv_loc a p (q * la_count a + e)) = m (send_loc a q (p * la_count a + e))"
    by (rule copied_element [OF ok(2)])
qed

theorem signals_mean_data_witness:
  "\<exists>zs. interleaves (launch_threads small_copy) (copy_kernel 4 small_copy 0 2 (\<lambda>q. q mod 2)) zs
     \<and> int (snd (snd (fold (copy_step small_copy) zs (\<lambda>_. 0 :: int, \<lambda>_. 0, \<lambda>_. 7))) (3, 0)) = 9"
proof -
  let ?prog = "copy_kernel 4 small_copy 0 2 (\<lambda>q. q mod 2)"
  let ?zs = "concat (map (\<lambda>t. map (Pair t) (?prog t)) (launch_threads small_copy))"
  have run: "interleaves (launch_threads small_copy) ?prog (?zs @ [])"
    using one_after_the_other [OF distinct_launch_threads, of small_copy ?prog] by simp
  have "(3 :: int) \<in> {0..<la_nRanks small_copy}" "receivingCta small_copy 3 = 0" "awaited_signals small_copy 4 2 = 2" by code_simp+
  then have "int (snd (snd (fold (copy_step small_copy) (?zs @ []) (\<lambda>_. 0 :: int, \<lambda>_. 0, \<lambda>_. 7))) (3, 0)) = 9"
    using signals_mean_data [OF small_copy(1) _ _ run, where p = 3 and i = 0 and m = "\<lambda>_. 0 :: int" and r = "\<lambda>_. 0" and sig = "\<lambda>_. 7", THEN conjunct2]
      small_copy(2) by simp
  then show ?thesis using run by (intro exI [of _ ?zs]) simp
qed

end
