(* ===== verification/Spec2Isabelle.thy ===== *)
theory Spec2Isabelle
  imports VerifEntry VerifFloatPreMul VerifFloatProd HostHyper HostWait HostEvents HostReport HostAllvRun CommTimers DeviceAlltoAll
begin

text \<open>
  A verification development for nccl-tests, the programs that measure and check the collective operations of
  NCCL.

  \<^bold>\<open>The program.\<close> Every test is one program: a harness (src/common.cu, src/common.h) and the functions of one collective
  (src/all_reduce.cu, all_gather.cu, reduce_scatter.cu, broadcast.cu, reduce.cu, sendrecv.cu, gather.cu, scatter.cu, alltoall.cu, alltoallv.cu,
  hypercube.cu). The harness reads the options, makes communicators and buffers on the devices of every thread of every
  process, and calls the test, which runs the collective over a sweep of sizes. A run fills the buffers with
  generated data, calls the collective, times it, and compares the received data with expected data that were generated without the collective.
  The data come from verifiable/verifiable.cu: its inputs are such that every order of reduction has the same result, and its
  expected outputs are that result. src/util.cu prints tables, writes a report in JSON and contains a profiler plugin.
  src/comm_ops.cu is a program of its own that times the making and splitting of communicators.

  \<^bold>\<open>The theories and the code.\<close>
  \<^item> \<^verbatim>\<open>NcclPrelude\<close>: types of machine integers, collections of rewrite rules, arithmetic that is shared. \<^verbatim>\<open>NcclRounding\<close>: the rounding of real
    numbers to \<open>double\<close> and \<open>float\<close>.
  \<^item> verifiable/verifiable.cu: \<^verbatim>\<open>VerifBits\<close> (mixBits, hashOf), \<^verbatim>\<open>VerifShuffle\<close> (shuffleRank), \<^verbatim>\<open>VerifSumXY\<close> (genSumXY),
    \<^verbatim>\<open>VerifFloat\<close> and \<^verbatim>\<open>VerifFloatArith\<close> (the six formats, their addition and multiplication as bit patterns), \<^verbatim>\<open>VerifReduction\<close>
    (trees of reductions), \<^verbatim>\<open>VerifFloatSum\<close>, \<^verbatim>\<open>VerifFloatGen\<close>, \<^verbatim>\<open>VerifFloatPreMul\<close>, \<^verbatim>\<open>VerifFloatProd\<close>, \<^verbatim>\<open>VerifInt\<close> (the generators genInOut...
    of floating point and integer types), \<^verbatim>\<open>VerifLaunch\<close> (the work of the threads of a kernel), \<^verbatim>\<open>VerifEntry\<close> (the kernels and the entry points
    ncclVerifiablePrepareInput, PrepareExpected, Verify).
  \<^item> src/common.h, src/common.cu: \<^verbatim>\<open>HostArgs\<close> (options, arguments of a thread, setupArgs, startColl, sizes of buffers), \<^verbatim>\<open>HostRun\<close> (the checks of the options, the
    sweep of TimeTest, the memory limit), \<^verbatim>\<open>HostOptions\<close> (the command line in main, the name of the output file), \<^verbatim>\<open>HostMain\<close>
    (run and threadInit: processes, ranks, devices, resources, result), \<^verbatim>\<open>HostBench\<close> and \<^verbatim>\<open>HostEvents\<close> (BenchTime as a list of
    actions, the events of single iterations), \<^verbatim>\<open>HostSync\<close> (Barrier, Allreduce, GatherProcessMaxIterTimes of the threads) and \<^verbatim>\<open>HostWait\<close> (their condition variables).
  \<^item> The tests: \<^verbatim>\<open>HostColl\<close> (GetCollByteCount, GetBuffSize), \<^verbatim>\<open>HostInit\<close> (InitData, and the check of a run), \<^verbatim>\<open>HostTests\<close> (GetBw, RunColl, RunTest),
    \<^verbatim>\<open>HostRma\<close> and \<^verbatim>\<open>HostRmaRun\<close> (the RmaPut implementations), \<^verbatim>\<open>HostHyper\<close> (the rounds of hypercube.cu),
    \<^verbatim>\<open>HostMatrix\<close>, \<^verbatim>\<open>HostAllv\<close>, \<^verbatim>\<open>HostAllvRun\<close> (alltoallv.cu: the matrix file, the pattern, the data, the calls and the test),
    \<^verbatim>\<open>DeviceThreads\<close>, \<^verbatim>\<open>DeviceReduce\<close> and \<^verbatim>\<open>DeviceAlltoAll\<close> (the device kernels of all_reduce.cu and alltoall.cu).
  \<^item> src/util.cu: \<^verbatim>\<open>HostJson\<close> (the JSON writer), \<^verbatim>\<open>HostReport\<close> (what a run reports, statistics), \<^verbatim>\<open>HostProfiler\<close> (the plugin).
  \<^item> src/comm_ops.cu: \<^verbatim>\<open>CommOps\<close> (options, sweep, roots, colors), \<^verbatim>\<open>CommTests\<close> (the actions of every rank), \<^verbatim>\<open>CommTimers\<close> (the timers).

  Definitions have the names of the functions and variables of the code. A structure is a record, an enumeration a datatype; sizes are words of
  64 bits, other integers words or integers with the wrap-around written out where it matters; a function that ends early with an error has the
  error in its result; a failed assertion, a division by zero, a write past the end, a conversion to int out of its range and a root of a
  negative number are the value None or a constructor of their own (\<open>AssertionFailed\<close> of the verifier, \<open>Terminated\<close> of a run that
  leaves threads to be joined, \<open>Size_undefined\<close> of the sweep of comm_ops.cu). A function that calls CUDA, NCCL or MPI is the list of
  its calls in order (\<open>BenchTime\<close>, the tests of comm_ops.cu, what \<open>run\<close> acquires), and the theorems give the lists a meaning: memory that is
  written, resources that are held, ranks that wait for each other.

  \<^bold>\<open>What is shown.\<close>
  \<^item> The data: sums, products, minima and maxima of the generated inputs are the expected output in every order of reduction, at every type, number of ranks and seed in
    the stated ranges; no rounding happens (\<^verbatim>\<open>VerifFloatSum\<close>, \<^verbatim>\<open>VerifFloatPreMul\<close>, \<^verbatim>\<open>VerifFloatProd\<close>, \<^verbatim>\<open>VerifFloatGen\<close>, \<^verbatim>\<open>VerifInt\<close>).
  \<^item> The runs: a collective that does what its documentation says passes the check, and a difference is counted
    (\<^verbatim>\<open>VerifEntry\<close>, \<^verbatim>\<open>HostInit\<close>); calls stay in the buffers (\<^verbatim>\<open>HostColl\<close>, \<^verbatim>\<open>HostAllvRun\<close>); the implementations that are written out here, one-sided,
    hypercube, the irregular all-to-all, place the data of the collective (\<^verbatim>\<open>HostRmaRun\<close>, \<^verbatim>\<open>HostHyper\<close>, \<^verbatim>\<open>HostAllvRun\<close>). The device kernels do so in
    every interleaving of all threads, within limits that are stated, where src/multimem_ops.h has the operations they use; what they signal means that data are there (\<^verbatim>\<open>DeviceReduce\<close>, \<^verbatim>\<open>DeviceAlltoAll\<close>).
  \<^item> The measurement: what a reported time covers, and which executions it divides by (\<^verbatim>\<open>HostBench\<close>, \<^verbatim>\<open>HostEvents\<close>); the threads meet at every
    barrier (\<^verbatim>\<open>HostSync\<close>, by induction over the steps of the threads) and none sleeps for ever at it (\<^verbatim>\<open>HostWait\<close>, with notify_all and
    wake-ups without it).
  \<^item> The set up: the options of an accepted command line, the ranks of all devices, the order in which resources are acquired and
    released and what is left (the streams; with parallel initialisation all but the buffers), and how the program ends (\<^verbatim>\<open>HostOptions\<close>, \<^verbatim>\<open>HostMain\<close>); loops over sizes end, or where they do not is stated (\<^verbatim>\<open>HostRun\<close>, \<^verbatim>\<open>CommOps\<close>).
  \<^item> The reports: the writer produces the text of the tree it is told to write, closed at the end (\<^verbatim>\<open>HostJson\<close>,
    \<^verbatim>\<open>HostReport\<close>); the summary of the timers counts every record of every rank once, with bounds of the roundings of its sums (\<^verbatim>\<open>CommTimers\<close>).
  \<^item> The interfaces are locales that are interpreted on the code's own functions: \<open>reducer\<close>, \<open>float_adder\<close> and \<open>float_multiplier\<close> (what a reduction needs from
    its functor), \<open>rank_permutation\<close> (shuffleRank), \<open>sized_collective\<close> (sizes of a collective), \<open>order_free\<close> (a rendezvous whose result does not depend on the order
    of the threads), \<open>cells\<close> (accesses of a kernel to different elements do not disturb each other).

  \<^bold>\<open>Bounds and fuel.\<close> Loops are structural recursion or have a termination proof; no theorem rests on fuel. Ranges of numbers (of ranks below
  \<^verbatim>\<open>2^31\<close>, of sizes below \<^verbatim>\<open>2^64\<close>) are premises where the code would wrap around, and are named in the theorems.

  \<^bold>\<open>The configuration.\<close> The code is modelled as compiled on Linux against NCCL 2.31 or later, with MPI, with bfloat16 and
  fp8, and with CUDA graphs; the version NCCL has at run time is a parameter. The numbers of type \<open>double\<close> and \<open>float\<close> of comm_ops.cu are rounded (without
  overflow and subnormal numbers, which do not occur there); the times and bandwidths of the harness and the shares of alltoallv.cu are real numbers. MPI, NCCL, CUDA and the clock are
  parameters or have the meaning their documentation gives: a receive takes the data of the matching send, a put writes and then signals,
  MPI_Comm_split keeps the order of the ranks. Allocation does not fail.

  \<^bold>\<open>Not modelled.\<close> The tables printed on stdout and the queries of device properties in src/util.cu (formats of printf and calls of CUDA);
  testStreamSynchronize (polling with a time limit) and the memory accounting of -M; the inline assembly of
  src/multimem_ops.h (a parameter; which types it has is modelled); the arguments of src/device_api/gin, src/os, src/timer and src/nccl1_compat.h (thin wrappers); the self test at the end of
  verifiable.cu and verifiable/inexact_regress.cu; headers of vendors; tools, build files and documentation.
\<close>

end
